(* ===== verification/Kboot_Prelude.thy ===== *)
theory Kboot_Prelude
  imports Main "HOL-Library.Word"
begin

text \<open>
  Shared vocabulary of the development: the machine integers of the i686 target as words,
  little-endian reads from byte buffers, the characters of C strings, and the generic lemmas on
  words, lists and options that the component theories use.

  Conventions used by every component.
  \<^item> \<open>uint8_t\<close>, \<open>uint16_t\<close>, \<open>uint32_t\<close> and the 32-bit
    \<open>unsigned int\<close>, \<open>size_t\<close>, \<open>uintptr_t\<close> are words, so addition and
    multiplication wrap as they do on the target.
  \<^item> \<open>char\<close> is HOL's \<open>char\<close>; the target's \<open>char\<close> is signed, so a comparison of
    two characters goes through \<open>schar\<close>.
  \<^item> An \<open>int\<close> return code stays an \<open>int\<close> (0 for success); a pointer that may be
    \<open>NULL\<close> is an \<open>option\<close>.
  \<^item> An outer \<open>option\<close> whose \<open>None\<close> means that the call does not return normally: an
    access outside the buffer it was given, a processor exception, or a loop that never ends.
\<close>

unbundle bit_operations_syntax

type_synonym u8 = "8 word"
type_synonym u16 = "16 word"
type_synonym u32 = "32 word"

named_theorems io_simps \<open>definitions of the port-level helpers\<close>
named_theorems inv_intros \<open>preservation of the component invariants\<close>

section \<open>Characters of C strings\<close>

abbreviation NUL :: char where
  "NUL \<equiv> CHR 0x00"

definition schar :: "char \<Rightarrow> int" where
  "schar c = (let n = of_char c in if n < 128 then n else n - 256)"

definition char_in :: "char \<Rightarrow> char \<Rightarrow> char \<Rightarrow> bool" where
  "char_in lo hi c \<longleftrightarrow> schar lo \<le> schar c \<and> schar c \<le> schar hi"

lemma of_char_int_bounds: "0 \<le> (of_char c :: int)" "(of_char c :: int) < 256"
proof -
  have "(of_char c :: int) mod 256 = of_char c"
    by (rule of_char_mod_256)
  then show "0 \<le> (of_char c :: int)" "(of_char c :: int) < 256"
    using pos_mod_bound [of 256 "of_char c :: int"] pos_mod_sign [of 256 "of_char c :: int"]
    by simp_all
qed

lemma of_char_int_eq_iff: "(of_char a :: int) = of_char b \<longleftrightarrow> a = b"
  by simp

lemma schar_eq_iff [simp]: "schar a = schar b \<longleftrightarrow> a = b"
  using of_char_int_bounds [of a] of_char_int_bounds [of b] of_char_int_eq_iff [of a b]
  by (auto simp: schar_def Let_def split: if_splits)

lemma schar_not_less_iff: "\<not> schar a < schar b \<Longrightarrow> \<not> schar b < schar a \<Longrightarrow> a = b"
  using schar_eq_iff [of a b] by linarith

section \<open>The C string a buffer holds\<close>

text \<open>
  \<open>c_string buf s\<close>: the buffer starts with the characters \<open>s\<close> and a terminating NUL.
\<close>

definition c_string :: "char list \<Rightarrow> char list \<Rightarrow> bool" where
  "c_string buf s \<longleftrightarrow> NUL \<notin> set s \<and> (\<exists>rest. buf = s @ NUL # rest)"

lemma c_string_Nil [simp]: "c_string (c # cs) [] \<longleftrightarrow> c = NUL"
  by (simp add: c_string_def)

lemma c_string_empty_buf [simp]: "\<not> c_string [] s"
  by (simp add: c_string_def)

lemma c_string_Cons [simp]:
  "c_string (b # bs) (c # cs) \<longleftrightarrow> b = c \<and> c \<noteq> NUL \<and> c_string bs cs"
  by (auto simp: c_string_def)

lemma c_string_length: "c_string buf s \<Longrightarrow> length s < length buf"
  by (auto simp: c_string_def)

section \<open>Little-endian reads\<close>

definition le16 :: "u8 list \<Rightarrow> nat \<Rightarrow> u16" where
  "le16 bs i = (ucast (bs ! i) :: u16) OR push_bit 8 (ucast (bs ! (i + 1)))"

definition le32 :: "u8 list \<Rightarrow> nat \<Rightarrow> u32" where
  "le32 bs i =
     (ucast (bs ! i) :: u32) OR push_bit 8 (ucast (bs ! (i + 1)))
       OR push_bit 16 (ucast (bs ! (i + 2))) OR push_bit 24 (ucast (bs ! (i + 3)))"

text \<open>The bytes of a value in memory, and bytes seen as characters and back.\<close>

definition le32_bytes :: "u32 \<Rightarrow> u8 list" where
  "le32_bytes w = [ucast w, ucast (drop_bit 8 w), ucast (drop_bit 16 w), ucast (drop_bit 24 w)]"

lemma le32_le32_bytes: "le32 (le32_bytes w @ bs) 0 = w"
proof (rule bit_word_eqI)
  fix n assume n: "n < LENGTH(32)"
  then consider "n < 8" | "8 \<le> n \<and> n < 16" | "16 \<le> n \<and> n < 24" | "24 \<le> n \<and> n < 32"
    by fastforce
  then show "bit (le32 (le32_bytes w @ bs) 0) n \<longleftrightarrow> bit w n"
    by cases (auto simp: le32_def le32_bytes_def bit_or_iff bit_push_bit_iff bit_ucast_iff bit_drop_bit_eq)
qed

definition byte_char :: "u8 \<Rightarrow> char" where
  "byte_char b = char_of (unat b)"

definition char_byte :: "char \<Rightarrow> u8" where
  "char_byte c = of_char c"

lemma char_byte_byte_char [simp]: "char_byte (byte_char b) = b"
proof -
  have "unat b mod 256 = unat b" using unsigned_less [of b, where ?'a = nat] by simp
  then have "(of_char (char_of (unat b)) :: nat) = unat b" by simp
  moreover have "(of_char c :: u8) = of_nat (of_char c)" for c by (cases c) (simp add: of_char_Char)
  ultimately show ?thesis by (simp add: char_byte_def byte_char_def del: of_nat_of_char)
qed

section \<open>Words\<close>

lemma unat_u8_bound: "unat (x :: u8) < 256"
proof -
  have "unat x < 2 ^ LENGTH(8)" by (rule unsigned_less)
  then show ?thesis by simp
qed

lemma unat_u16_bound: "unat (x :: u16) < 65536"
proof -
  have "unat x < 2 ^ LENGTH(16)" by (rule unsigned_less)
  then show ?thesis by simp
qed

lemma unat_u32_bound: "unat (x :: u32) < 4294967296"
proof -
  have "unat x < 2 ^ LENGTH(32)" by (rule unsigned_less)
  then show ?thesis by simp
qed

lemma unat_add_no_overflow:
  "unat (a :: u32) + unat b < 4294967296 \<Longrightarrow> unat (a + b) = unat a + unat b"
  by (simp add: unat_word_ariths)

lemma unat_mult_no_overflow:
  "unat (a :: u32) * unat b < 4294967296 \<Longrightarrow> unat (a * b) = unat a * unat b"
  by (simp add: unat_word_ariths)

lemma unat_ucast_up16 [simp]: "unat (ucast (x :: u16) :: u32) = unat x"
  using unat_u16_bound [of x] by (simp add: unsigned_ucast_eq take_bit_eq_mod)

lemma unat_ucast_up8 [simp]: "unat (ucast (x :: u8) :: u32) = unat x"
  using unat_u8_bound [of x] by (simp add: unsigned_ucast_eq take_bit_eq_mod)

lemma unat_ucast_up8_16 [simp]: "unat (ucast (x :: u8) :: u16) = unat x"
  using unat_u8_bound [of x] by (simp add: unsigned_ucast_eq take_bit_eq_mod)


lemma unat_of_nat_u32: "n < 4294967296 \<Longrightarrow> unat (of_nat n :: u32) = n"
  by (simp add: unat_of_nat take_bit_eq_mod)

lemma of_nat_eq_u32:
  "m < 4294967296 \<Longrightarrow> n < 4294967296 \<Longrightarrow> (of_nat m :: u32) = of_nat n \<longleftrightarrow> m = n"
  by (metis unat_of_nat_u32)

lemma unat_numeral_add:
  "numeral c + k < (4294967296 :: nat) \<Longrightarrow> unat (numeral c + of_nat k :: u32) = numeral c + k"
  using unat_of_nat_u32 [of "numeral c + k"] by simp

section \<open>Pages\<close>

text \<open>
  A 4 KiB page is the set of addresses with the same upper 20 bits; the lower 12 bits are the
  offset.
\<close>

lemma unat_sub_u32: "unat (x - y :: u32) = (if unat y \<le> unat x then unat x - unat y
   else unat x + 4294967296 - unat y)"
  by (simp add: unat_sub_if')

lemma word_and_mask_take_bit: "x AND 0x3ff = take_bit 10 (x::u32)" "x AND 0xfff = take_bit 12 (x :: u32)"
  by (simp_all add: take_bit_eq_mask mask_eq_exp_minus_1)

lemma unat_times4: "unat (i::u32) < 1024 \<Longrightarrow> unat (4 * i) = 4 * unat i"
  by (simp add: unat_word_ariths)

lemma aligned_iff_unat: "(w :: u32) AND 0xfff = 0 \<longleftrightarrow> unat w mod 4096 = 0"
proof -
  have "unat (w AND 0xfff) = unat w mod 4096"
    by (simp add: word_and_mask_take_bit unsigned_take_bit_eq take_bit_eq_mod unat_mod)
  then show ?thesis
    by (metis unsigned_0 word_unat_eq_iff)
qed

lemma aligned_obtain:
  assumes "(a :: u32) AND 0xfff = 0"
  obtains q where "unat a = 4096 * q" and "q \<le> 1048575"
proof -
  from assms obtain q where q: "unat a = 4096 * q"
    unfolding aligned_iff_unat by (auto elim: dvdE simp: dvd_eq_mod_eq_0 [symmetric])
  with unat_u32_bound [of a] have "q \<le> 1048575"
    by simp
  with q show ?thesis by (rule that)
qed

lemma div_page_iff: "(v :: nat) div 4096 = q \<longleftrightarrow> 4096 * q \<le> v \<and> v < 4096 * q + 4096"
proof
  show "4096 * q \<le> v \<and> v < 4096 * q + 4096" if "v div 4096 = q"
    using div_mult_mod_eq [of v 4096] mod_less_divisor [of 4096 v] that by linarith
qed (auto intro: div_nat_eqI)

lemma aligned_or:
  assumes "(a :: u32) AND 0xfff = 0" and "unat k < 4096"
  shows "bit a n \<Longrightarrow> 12 \<le> n" and "bit k n \<Longrightarrow> n < 12" and "a + k = a OR k"
proof -
  have m: "(0xfff :: u32) = mask 12"
    by (simp add: mask_eq_exp_minus_1)
  show a: "12 \<le> n" if "bit a n" for n
  proof (rule ccontr)
    assume "\<not> 12 \<le> n"
    with that have "bit (a AND 0xfff) n"
      unfolding m by (simp add: bit_simps bit_imp_le_length)
    with assms(1) show False by simp
  qed
  have "k AND 0xfff = k"
    using assms(2) by (simp add: word_and_mask_take_bit word_unat_eq_iff take_bit_eq_mod unat_mod)
  then show k: "n < 12" if "bit k n" for n
    using that unfolding m by (metis bit_and_iff bit_mask_iff)
  have "\<not> (bit a n \<and> bit k n)" for n
    using a [of n] k [of n] by linarith
  then show "a + k = a OR k"
    by (intro disjunctive_add_eq_or) (simp add: bit_eq_iff bit_simps)
qed

lemma aligned_add_page:
  assumes "(a :: u32) AND 0xfff = 0" and "unat k < 4096"
  shows "drop_bit 12 (a + k) = drop_bit 12 a" and "(a + k) AND 0xfff = k"
proof -
  note or = aligned_or [OF assms]
  have m: "(0xfff :: u32) = mask 12"
    by (simp add: mask_eq_exp_minus_1)
  show "drop_bit 12 (a + k) = drop_bit 12 a"
    unfolding or(3) by (rule bit_eqI) (auto simp: bit_simps dest: or(2))
  show "(a + k) AND 0xfff = k"
    unfolding or(3) m by (rule bit_eqI) (auto simp: bit_simps dest: or(1,2))
qed

lemma page_offset: "(v :: u32) = (v AND NOT 0xfff) + (v AND 0xfff)"
  and page_offset_less: "unat (v AND 0xfff) < 4096"
  and page_base_aligned: "(v AND NOT 0xfff) AND 0xfff = 0"
proof -
  have m: "(0xfff :: u32) = mask 12"
    by (simp add: mask_eq_exp_minus_1)
  show "v = (v AND NOT 0xfff) + (v AND 0xfff)"
    by (subst disjunctive_add_eq_or) (auto simp: bit_eq_iff bit_simps)
  show "unat (v AND 0xfff) < 4096"
    by (simp add: word_and_mask_take_bit take_bit_eq_mod unat_mod)
  show "(v AND NOT 0xfff) AND 0xfff = 0"
    by (rule bit_eqI) (auto simp: bit_simps)
qed

lemma same_page_between:
  assumes "a AND 0xfff = 0"
  shows "drop_bit 12 v = drop_bit 12 (a :: u32) \<longleftrightarrow> unat a \<le> unat v \<and> unat v < unat a + 4096"
proof -
  from assms obtain q where q: "unat a = 4096 * q" "q \<le> 1048575"
    by (rule aligned_obtain)
  then have "unat a div 4096 = q" by simp
  then show ?thesis
    using q(1) by (simp add: drop_bit_eq_div word_unat_eq_iff unat_div div_page_iff [of "unat v"])
qed


lemma aligned_page_1k: "(a :: u32) AND 0xfff = 0 \<Longrightarrow> a AND 0x3ff = 0"
proof -
  assume "a AND 0xfff = 0"
  moreover have "a AND 0x3ff = (a AND 0xfff) AND 0x3ff"
    by (simp add: and.assoc)
  ultimately show ?thesis by simp
qed

end
