(* ===== verification/Strings.thy ===== *)
theory Strings
  imports Kboot_Prelude
begin

text \<open>
  The string and memory routines of \<open>lib/string.c\<close>. A \<open>char *\<close> is the list of the
  characters from the pointer to the end of its object. A read or write outside that list is
  \<open>None\<close>. The loops are the recursions of the source, one call per iteration.
\<close>

section \<open>Definitions\<close>

fun strlen_loop :: "char list \<Rightarrow> nat option" where
  "strlen_loop [] = None"
| "strlen_loop (c # cs) = (if c = NUL then Some 0 else map_option Suc (strlen_loop cs))"

fun strlen :: "char list option \<Rightarrow> nat option" where
  "strlen None = Some 0"
| "strlen (Some s) = strlen_loop s"

fun strncpy_loop :: "char list \<Rightarrow> char list \<Rightarrow> nat \<Rightarrow> nat \<Rightarrow> char list option" where
  "strncpy_loop dest src i 0 = Some dest"
| "strncpy_loop dest src i (Suc n) =
     (if i < length src \<and> i < length dest
      then (let dest' = dest[i := src ! i]
            in if src ! i = NUL then Some dest' else strncpy_loop dest' src (Suc i) n)
      else None)"

definition strncpy :: "char list \<Rightarrow> char list \<Rightarrow> nat \<Rightarrow> char list option" where
  "strncpy dest src n = strncpy_loop dest src 0 n"

fun strcmp :: "char list \<Rightarrow> char list \<Rightarrow> int option" where
  "strcmp (a # as) (b # bs) =
     (if a \<noteq> NUL then
        (if b = NUL then Some 1
         else if schar a < schar b then Some (-1)
         else if schar b < schar a then Some 1
         else strcmp as bs)
      else Some (if b = NUL then 0 else -1))"
| "strcmp _ _ = None"

text \<open>
  The loop condition of \<open>strncmp\<close> is \<open>n && --n && *s1\<close>: the counter is
  decremented before a character is compared, and the loop ends as soon as it is zero.
\<close>

fun strncmp :: "char list \<Rightarrow> char list \<Rightarrow> nat \<Rightarrow> int option" where
  "strncmp s1 s2 0 = Some 0"
| "strncmp s1 s2 (Suc n) =
     (if n = 0 then Some 0
      else (case (s1, s2) of
              (a # as, b # bs) \<Rightarrow>
                (if a \<noteq> NUL then
                   (if b = NUL then Some 1
                    else if schar a < schar b then Some (-1)
                    else if schar b < schar a then Some 1
                    else strncmp as bs n)
                 else Some (if b = NUL then 0 else -1))
            | _ \<Rightarrow> None))"

fun memcpy_loop :: "'a list \<Rightarrow> 'a list \<Rightarrow> nat \<Rightarrow> nat \<Rightarrow> 'a list option" where
  "memcpy_loop d s i 0 = Some d"
| "memcpy_loop d s i (Suc n) =
     (if i < length s \<and> i < length d then memcpy_loop (d[i := s ! i]) s (Suc i) n else None)"

definition memcpy :: "'a list \<Rightarrow> 'a list \<Rightarrow> nat \<Rightarrow> 'a list option" where
  "memcpy dest src n = memcpy_loop dest src 0 n"

fun memset_loop :: "'a list \<Rightarrow> 'a \<Rightarrow> nat \<Rightarrow> 'a list option" where
  "memset_loop s c 0 = Some s"
| "memset_loop s c (Suc n) = (if n < length s then memset_loop (s[n := c]) c n else None)"

definition memset :: "'a list option \<Rightarrow> 'a \<Rightarrow> nat \<Rightarrow> 'a list option option" where
  "memset s c n =
     (case s of
        None \<Rightarrow> Some None
      | Some buf \<Rightarrow> if n = 0 then Some (Some buf) else map_option Some (memset_loop buf c n))"

definition bzero :: "'a::zero list option \<Rightarrow> nat \<Rightarrow> 'a list option option" where
  "bzero s n = memset s 0 n"

section \<open>Lengths and copies\<close>

lemma strlen_loop_c_string: "c_string buf s \<Longrightarrow> strlen_loop buf = Some (length s)"
proof (induction buf arbitrary: s)
  case (Cons c cs)
  then show ?case by (cases s) auto
qed simp

lemma strlen_c_string: "c_string buf s \<Longrightarrow> strlen (Some buf) = Some (length s)"
  by (simp add: strlen_loop_c_string)

lemma memcpy_loop_eq:
  "i + n \<le> length s \<Longrightarrow> i + n \<le> length d \<Longrightarrow>
   memcpy_loop d s i n = Some (take i d @ take n (drop i s) @ drop (i + n) d)"
proof (induction n arbitrary: d i)
  case 0
  then show ?case by simp
next
  case (Suc n)
  then have "memcpy_loop d s i (Suc n) =
      Some (take (Suc i) (d[i := s ! i]) @ take n (drop (Suc i) s) @ drop (Suc i + n) d)"
    by simp
  also have "take (Suc i) (d[i := s ! i]) = take i d @ [s ! i]"
    using Suc.prems by (simp add: take_Suc_conv_app_nth)
  also have "take (Suc n) (drop i s) = s ! i # take n (drop (Suc i) s)"
    using Suc.prems by (simp add: Cons_nth_drop_Suc [symmetric])
  ultimately show ?case by simp
qed

lemma memset_loop_eq:
  "n \<le> length s \<Longrightarrow> memset_loop s c n = Some (replicate n c @ drop n s)"
proof (induction n arbitrary: s)
  case 0
  then show ?case by simp
next
  case (Suc n)
  then have "drop n (s[n := c]) = c # drop (Suc n) s"
    by (simp add: Cons_nth_drop_Suc [symmetric] drop_update_swap)
  with Suc show ?case
    by (simp add: replicate_app_Cons_same)
qed

lemma strncpy_loop_c_string:
  "c_string (drop i src) s \<Longrightarrow> length s < n \<Longrightarrow> i + length s < length dest \<Longrightarrow>
   strncpy_loop dest src i n = Some (take i dest @ s @ NUL # drop (Suc (i + length s)) dest)"
proof (induction s arbitrary: dest i n)
  case Nil
  then obtain m where "n = Suc m" by (cases n) auto
  moreover from Nil have "i < length src \<and> src ! i = NUL"
    by (cases "i < length src") (auto simp: Cons_nth_drop_Suc [symmetric])
  ultimately show ?case
    using Nil by (simp add: Let_def upd_conv_take_nth_drop)
next
  case (Cons c cs)
  then obtain m where n: "n = Suc m" by (cases n) auto
  from Cons.prems(1) have i: "i < length src"
    by (cases "i < length src") auto
  with Cons.prems(1) have c: "src ! i = c" "c \<noteq> NUL" "c_string (drop (Suc i) src) cs"
    by (simp_all add: Cons_nth_drop_Suc [symmetric])
  with Cons.IH [of "Suc i" m "dest[i := c]"] Cons.prems i n show ?case
    by (simp add: Let_def take_Suc_conv_app_nth)
qed

lemma strncpy_c_string:
  assumes "c_string src s" and "length s < n" and "length s < length dest"
  shows "strncpy dest src n = Some (s @ NUL # drop (Suc (length s)) dest)"
  using strncpy_loop_c_string [of 0 src s n dest] assms by (simp add: strncpy_def)

text \<open>With no NUL among the first \<open>n\<close> characters, exactly \<open>n\<close> characters are copied.\<close>

lemma strncpy_loop_full:
  "i + n \<le> length src \<Longrightarrow> i + n \<le> length dest \<Longrightarrow> NUL \<notin> set (take n (drop i src)) \<Longrightarrow>
   strncpy_loop dest src i n = Some (take i dest @ take n (drop i src) @ drop (i + n) dest)"
proof (induction n arbitrary: dest i)
  case 0
  then show ?case by simp
next
  case (Suc n)
  then have tk: "take (Suc n) (drop i src) = src ! i # take n (drop (Suc i) src)"
    by (simp add: Cons_nth_drop_Suc [symmetric])
  with Suc.prems(3) have "src ! i \<noteq> NUL" "NUL \<notin> set (take n (drop (Suc i) src))"
    by auto
  with Suc.IH [of "Suc i" "dest[i := src ! i]"] Suc.prems(1,2) show ?case
    by (simp add: Let_def take_Suc_conv_app_nth tk del: take_Suc)
qed

lemma strncpy_full:
  "n \<le> length src \<Longrightarrow> n \<le> length dest \<Longrightarrow> NUL \<notin> set (take n src) \<Longrightarrow>
   strncpy dest src n = Some (take n src @ drop n dest)"
  using strncpy_loop_full [of 0 n src dest] by (simp add: strncpy_def)

lemma strncpy_loop_total:
  "i + n \<le> length src \<Longrightarrow> i + n \<le> length dest \<Longrightarrow>
   \<exists>d. strncpy_loop dest src i n = Some d \<and> length d = length dest"
proof (induction n arbitrary: i dest)
  case (Suc n)
  from Suc.IH [of "Suc i" "dest[i := src ! i]"] Suc.prems show ?case by (simp add: Let_def)
qed simp

lemma strncpy_total:
  "n \<le> length src \<Longrightarrow> n \<le> length dest \<Longrightarrow> \<exists>d. strncpy dest src n = Some d \<and> length d = length dest"
  using strncpy_loop_total [of 0] by (simp add: strncpy_def)

section \<open>Comparisons\<close>

lemma strcmp_returns:
  "c_string b1 s1 \<Longrightarrow> c_string b2 s2 \<Longrightarrow> \<exists>r \<in> {-1, 0, 1}. strcmp b1 b2 = Some r"
proof (induction b1 b2 arbitrary: s1 s2 rule: strcmp.induct)
  case (1 a as b bs)
  then show ?case by (cases s1; cases s2) auto
qed auto

lemma strcmp_zero_eq:
  "c_string b1 s1 \<Longrightarrow> c_string b2 s2 \<Longrightarrow> strcmp b1 b2 = Some 0 \<longleftrightarrow> s1 = s2"
proof (induction b1 b2 arbitrary: s1 s2 rule: strcmp.induct)
  case (1 a as b bs)
  show ?case
  proof (cases s1)
    case Nil
    with "1.prems" show ?thesis by (cases s2) auto
  next
    case (Cons c cs)
    with "1.prems" "1.IH" show ?thesis
      by (cases s2) (auto dest: schar_not_less_iff)
  qed
qed auto

lemma strncmp_returns:
  "n \<le> length s1 \<Longrightarrow> n \<le> length s2 \<Longrightarrow> \<exists>r. strncmp s1 s2 n = Some r"
proof (induction s1 s2 n rule: strncmp.induct)
  case (2 s1 s2 n)
  then show ?case by (cases s1; cases s2) auto
qed simp

lemma strncmp_zero_eq:
  "n \<le> length s1 \<Longrightarrow> n \<le> length s2 \<Longrightarrow> NUL \<notin> set (take (n - 1) s1) \<Longrightarrow>
   strncmp s1 s2 n = Some 0 \<longleftrightarrow> take (n - 1) s1 = take (n - 1) s2"
proof (induction s1 s2 n rule: strncmp.induct)
  case (2 s1 s2 n)
  show ?case
  proof (cases n)
    case (Suc m)
    with "2.prems" obtain a as b bs where ab: "s1 = a # as" "s2 = b # bs"
      by (cases s1; cases s2) auto
    with Suc "2.prems" have "a \<noteq> NUL" by auto
    with ab Suc "2.prems" "2.IH" show ?thesis
      by (auto dest: schar_not_less_iff)
  qed simp
qed simp

lemma strncmp_last_ignored:
  "strncmp (s1[n := x]) s2 (Suc n) = strncmp s1 s2 (Suc n)"
proof (induction n arbitrary: s1 s2)
  case 0
  then show ?case by simp
next
  case (Suc n)
  show ?case
  proof (cases s1)
    case (Cons a as)
    with Suc.IH [of as] show ?thesis
      by (cases s2) (simp_all del: strncmp.simps add: strncmp.simps(2) [of _ _ "Suc n"])
  qed simp
qed

text \<open>Only the first \<open>n\<close> characters of the arguments matter.\<close>

lemma strncmp_append: "n \<le> length xs \<Longrightarrow> strncmp s1 (xs @ ys) n = strncmp s1 xs n"
proof (induction n arbitrary: s1 xs)
  case (Suc n)
  then obtain x xs' where "xs = x # xs'" by (cases xs) auto
  with Suc show ?case by (cases s1) simp_all
qed simp

section \<open>Properties\<close>

text \<open>On two NUL-terminated strings \<open>strcmp\<close> always returns \<open>-1\<close>, \<open>0\<close> or
  \<open>1\<close> without reading outside the buffers, and returns \<open>0\<close> exactly when the strings are
  equal.\<close>

theorem strcmp_decides_equality:
  assumes "c_string b1 s1" and "c_string b2 s2"
  shows "(strcmp b1 b2 = Some 0 \<longleftrightarrow> s1 = s2) \<and> (\<exists>r \<in> {-1, 0, 1}. strcmp b1 b2 = Some r)"
  using strcmp_zero_eq [OF assms] strcmp_returns [OF assms] by blast

theorem strcmp_decides_equality_witness:
  "strcmp (''set'' @ [NUL]) (''set'' @ [NUL]) = Some 0"
  using strcmp_decides_equality [of "''set'' @ [NUL]" "''set''" "''set'' @ [NUL]" "''set''"] by simp

text \<open>\<open>strncmp\<close> on two arrays of at least \<open>n\<close> characters never inspects the
  \<open>n\<close>-th character: it returns \<open>0\<close> exactly when the first \<open>n - 1\<close> characters agree,
  and the last character of the first array can be replaced by any other without a change of the
  result.\<close>

theorem strncmp_compares_one_less:
  assumes "n \<le> length s1" and "n \<le> length s2" and "NUL \<notin> set (take (n - 1) s1)"
  shows "(strncmp s1 s2 n = Some 0 \<longleftrightarrow> take (n - 1) s1 = take (n - 1) s2) \<and>
    (0 < n \<longrightarrow> strncmp (s1[n - 1 := x]) s2 n = strncmp s1 s2 n)"
  using strncmp_zero_eq [OF assms] strncmp_last_ignored [of s1 "n - 1" x s2] by (cases n) auto

theorem strncmp_compares_one_less_witness:
  "strncmp ''ELF'' ''ELX'' 3 = Some 0"
  using strncmp_compares_one_less [of 3 "''ELF''" "''ELX''" "CHR ''X''"] by simp

end
