(* ===== verification/Page_Dir.thy ===== *)
theory Page_Dir
  imports Kboot_Prelude
begin

text \<open>
  The constants of \<open>include/mm_common.h\<close> and the page directory of \<open>mm/page_dir.c\<close>. The
  directory is the list of its 1024 entries; an entry is the bit-field struct of the source, and
  \<open>pde_word\<close> is the 32-bit word in which the compiler packs it and the MMU reads it.
\<close>

section \<open>Memory layout constants and the alignment test\<close>

definition PADDR_MIN :: u32 where "PADDR_MIN = 0x00100000"
definition PADDR_MAX :: u32 where "PADDR_MAX = 0x00efffff"
definition KERNEL_MEMSZ_MAX :: u32 where "KERNEL_MEMSZ_MAX = 0x00100000"
definition KERNEL_PADDR_MIN :: u32 where "KERNEL_PADDR_MIN = PADDR_MIN"
definition KERNEL_PADDR_MAX :: u32 where "KERNEL_PADDR_MAX = PADDR_MAX"
definition KERNEL_VADDR_MIN :: u32 where "KERNEL_VADDR_MIN = 0x00100000"
definition KERNEL_VADDR_MAX :: u32 where "KERNEL_VADDR_MAX = push_bit 22 0x3ff - 1"
definition PAGE_SIZE :: u32 where "PAGE_SIZE = 4096"

definition is_addr_page_aligned :: "u32 \<Rightarrow> bool" where
  "is_addr_page_aligned addr \<longleftrightarrow> addr AND 0x3ff = 0"

section \<open>Entries\<close>

record page_dir_entry =
  pde_present :: bool
  pde_write :: bool
  pde_user :: bool
  pde_write_through :: bool
  pde_cache_disabled :: bool
  pde_zero :: "7 word"
  pde_paddr :: "20 word"

definition pde_bzero :: page_dir_entry where
  "pde_bzero = \<lparr>pde_present = False, pde_write = False, pde_user = False,
     pde_write_through = False, pde_cache_disabled = False, pde_zero = 0, pde_paddr = 0\<rparr>"

definition pde_word :: "page_dir_entry \<Rightarrow> u32" where
  "pde_word e =
     of_bool (pde_present e) OR push_bit 1 (of_bool (pde_write e))
     OR push_bit 2 (of_bool (pde_user e)) OR push_bit 3 (of_bool (pde_write_through e))
     OR push_bit 4 (of_bool (pde_cache_disabled e)) OR push_bit 5 (ucast (pde_zero e))
     OR push_bit 12 (ucast (pde_paddr e))"

section \<open>Operations\<close>

definition PAGE_DIR_TABLE_LEN :: nat where "PAGE_DIR_TABLE_LEN = 1024"

definition pd_entry_num_is_valid :: "u32 \<Rightarrow> bool" where
  "pd_entry_num_is_valid entry_num \<longleftrightarrow> unat entry_num < PAGE_DIR_TABLE_LEN"

definition page_dir_get_entry :: "u32 \<Rightarrow> page_dir_entry list \<Rightarrow> page_dir_entry" where
  "page_dir_get_entry entry_num pd = pd ! unat (entry_num AND 0x3ff)"

definition page_dir_set_entry ::
    "u32 \<Rightarrow> u32 \<Rightarrow> page_dir_entry list \<Rightarrow> int \<times> page_dir_entry list" where
  "page_dir_set_entry entry_num paddr pd =
     (if \<not> pd_entry_num_is_valid entry_num then (1, pd)
      else if \<not> is_addr_page_aligned paddr then (1, pd)
      else (0, pd[unat entry_num := (pd ! unat entry_num)
                    \<lparr>pde_paddr := ucast (drop_bit 12 paddr), pde_zero := 0,
                     pde_cache_disabled := True, pde_write := True, pde_user := False,
                     pde_write_through := False, pde_present := True\<rparr>]))"

definition page_dir_entry_is_present :: "u32 \<Rightarrow> page_dir_entry list \<Rightarrow> bool" where
  "page_dir_entry_is_present entry_num pd =
     (if \<not> pd_entry_num_is_valid entry_num then False
      else pde_present (page_dir_get_entry entry_num pd))"

text \<open>\<open>pd_addr\<close> is the address at which the linker placed the directory.\<close>

definition page_dir_automap ::
    "u32 \<Rightarrow> page_dir_entry list \<Rightarrow> int \<times> page_dir_entry list" where
  "page_dir_automap pd_addr pd =
     (let (rc, pd') = page_dir_set_entry (of_nat (PAGE_DIR_TABLE_LEN - 1)) pd_addr pd
      in if rc \<noteq> 0 then (1, pd') else (0, pd'))"

text \<open>Clears every entry; the second component is the value loaded into CR3.\<close>

definition page_dir_init ::
    "u32 \<Rightarrow> page_dir_entry list \<Rightarrow> page_dir_entry list \<times> u32" where
  "page_dir_init pd_addr pd =
     (foldl (\<lambda>t i. t[i := pde_bzero]) pd [0..<PAGE_DIR_TABLE_LEN], pd_addr)"

section \<open>Lemmas\<close>

lemma foldl_update_all:
  "n \<le> length xs \<Longrightarrow> foldl (\<lambda>t i. t[i := x]) xs [0..<n] = replicate n x @ drop n xs"
proof (induction n)
  case (Suc n)
  then have "foldl (\<lambda>t i. t[i := x]) xs [0..<Suc n] = (replicate n x @ drop n xs)[n := x]"
    by simp
  also from Suc.prems have "drop n xs = xs ! n # drop (Suc n) xs"
    by (simp add: Cons_nth_drop_Suc)
  finally show ?case
    by (simp add: list_update_append replicate_app_Cons_same)
qed simp

lemma page_dir_init_eq:
  "length pd = 1024 \<Longrightarrow> page_dir_init a pd = (replicate 1024 pde_bzero, a)"
  by (simp add: page_dir_init_def PAGE_DIR_TABLE_LEN_def foldl_update_all)

lemma word_and_3ff_id: "unat (i :: u32) < 1024 \<Longrightarrow> i AND 0x3ff = i"
proof -
  assume "unat i < 1024"
  then have "unat (take_bit 10 i) = unat i"
    by (simp add: unsigned_take_bit_eq take_bit_nat_eq_self)
  then have "take_bit 10 i = i"
    by (simp only: word_unat_eq_iff)
  moreover have "(0x3ff :: u32) = mask 10"
    by (simp add: mask_eq_exp_minus_1)
  ultimately show ?thesis
    by (simp add: take_bit_eq_mask)
qed

lemma page_dir_get_entry_small:
  "unat i < 1024 \<Longrightarrow> page_dir_get_entry i pd = pd ! unat i"
  by (simp add: page_dir_get_entry_def word_and_3ff_id)

lemma page_dir_entry_is_present_small:
  "unat i < 1024 \<Longrightarrow> page_dir_entry_is_present i pd = pde_present (pd ! unat i)"
  by (simp add: page_dir_entry_is_present_def pd_entry_num_is_valid_def PAGE_DIR_TABLE_LEN_def
      page_dir_get_entry_small)

lemma page_dir_set_entry_length:
  "length (snd (page_dir_set_entry i a pd)) = length pd"
  by (simp add: page_dir_set_entry_def)

lemma pde_word_present: "pde_word e AND 1 = of_bool (pde_present e)"
  by (rule bit_eqI) (auto simp: pde_word_def bit_simps)

lemma pde_word_frame:
  "pde_word e AND NOT 0xfff = push_bit 12 (ucast (pde_paddr e))"
proof -
  have m: "(0xfff :: u32) = mask 12"
    by (simp add: mask_eq_exp_minus_1)
  show ?thesis
    unfolding m by (rule bit_eqI) (auto simp: pde_word_def bit_simps dest: bit_imp_le_length)
qed

text \<open>A page-aligned address survives the trip through a 20-bit frame number.\<close>

lemma frame_number_roundtrip:
  assumes "(a :: u32) AND 0xfff = 0"
  shows "push_bit 12 (ucast (ucast (drop_bit 12 a) :: 20 word)) = a"
proof (rule bit_eqI)
  fix n
  assume n: "possible_bit TYPE(u32) n"
  have "\<not> bit a n" if "n < 12"
  proof -
    have "bit (a AND mask 12) n = bit a n"
      using that n by (simp add: bit_simps)
    moreover have "(0xfff :: u32) = mask 12"
      by (simp add: mask_eq_exp_minus_1)
    ultimately show ?thesis
      using assms by simp
  qed
  with n show "bit (push_bit 12 (ucast (ucast (drop_bit 12 a) :: 20 word)) :: u32) n = bit a n"
    by (cases "n < 12") (auto simp: bit_simps)
qed

end
