(* ===== verification/Page_Tables.thy ===== *)
theory Page_Tables
  imports Page_Dir
begin

text \<open>
  The five page tables of \<open>mm/page_tables.c\<close>. They are one static array of
  \<open>NUM_PAGE_TABLES * PAGE_TABLE_LEN\<close> entries, kept as the flat list that the array is in
  memory: entry \<open>e\<close> of table \<open>t\<close> is at position \<open>t * 1024 + e\<close>. Tables 0 to 3 map the lowest
  16 MiB, the last one belongs to page-directory index 768 (\<open>0xc0000000\<close>).
\<close>

section \<open>Entries\<close>

record page_table_entry =
  pte_present :: bool
  pte_write :: bool
  pte_user :: bool
  pte_write_through :: bool
  pte_cache_disabled :: bool
  pte_zero :: "7 word"
  pte_paddr :: "20 word"

definition pte_bzero :: page_table_entry where
  "pte_bzero = \<lparr>pte_present = False, pte_write = False, pte_user = False,
     pte_write_through = False, pte_cache_disabled = False, pte_zero = 0, pte_paddr = 0\<rparr>"

definition pte_word :: "page_table_entry \<Rightarrow> u32" where
  "pte_word e =
     of_bool (pte_present e) OR push_bit 1 (of_bool (pte_write e))
     OR push_bit 2 (of_bool (pte_user e)) OR push_bit 3 (of_bool (pte_write_through e))
     OR push_bit 4 (of_bool (pte_cache_disabled e)) OR push_bit 5 (ucast (pte_zero e))
     OR push_bit 12 (ucast (pte_paddr e))"

section \<open>Operations\<close>

definition PAGE_TABLE_LEN :: nat where "PAGE_TABLE_LEN = 1024"
definition NUM_PAGE_TABLES :: nat where "NUM_PAGE_TABLES = 5"

definition is_table_idx_implemented :: "u32 \<Rightarrow> bool" where
  "is_table_idx_implemented table_idx \<longleftrightarrow>
     unat table_idx < NUM_PAGE_TABLES - 1 \<or> table_idx = 768"

definition table_idx2array_idx :: "u32 \<Rightarrow> nat" where
  "table_idx2array_idx table_idx =
     (if unat table_idx < NUM_PAGE_TABLES - 1 then unat table_idx else NUM_PAGE_TABLES - 1)"

definition pt_init :: "nat \<Rightarrow> page_table_entry list \<Rightarrow> page_table_entry list" where
  "pt_init t pts =
     foldl (\<lambda>p i. p[t * PAGE_TABLE_LEN + i := pte_bzero]) pts [0..<PAGE_TABLE_LEN]"

definition page_tables_init :: "page_table_entry list \<Rightarrow> page_table_entry list" where
  "page_tables_init pts = foldl (\<lambda>p t. pt_init t p) pts [0..<NUM_PAGE_TABLES]"

text \<open>\<open>pt_addr\<close> is the address at which the linker placed the tables.\<close>

definition page_tables_get_paddr :: "u32 \<Rightarrow> u32 \<Rightarrow> u32" where
  "page_tables_get_paddr pt_addr table_idx =
     (if \<not> is_table_idx_implemented table_idx then 1
      else pt_addr + of_nat (table_idx2array_idx table_idx * PAGE_TABLE_LEN * 4))"

definition page_tables_set_entry ::
    "u32 \<Rightarrow> u32 \<Rightarrow> u32 \<Rightarrow> bool \<Rightarrow> page_table_entry list \<Rightarrow> int \<times> page_table_entry list" where
  "page_tables_set_entry table_idx entry_num paddr writable pts =
     (if \<not> is_addr_page_aligned paddr then (1, pts)
      else if \<not> is_table_idx_implemented table_idx then (1, pts)
      else (let k = table_idx2array_idx table_idx * PAGE_TABLE_LEN + unat entry_num
            in (0, pts[k := (pts ! k)
                         \<lparr>pte_paddr := ucast (drop_bit 12 paddr), pte_zero := 0,
                          pte_cache_disabled := True, pte_user := False,
                          pte_write := writable, pte_present := True\<rparr>])))"

definition page_tables_clear_entry ::
    "u32 \<Rightarrow> u32 \<Rightarrow> page_table_entry list \<Rightarrow> int \<times> page_table_entry list" where
  "page_tables_clear_entry table_idx entry_num pts =
     (if \<not> is_table_idx_implemented table_idx then (1, pts)
      else (0, pts[table_idx2array_idx table_idx * PAGE_TABLE_LEN + unat entry_num := pte_bzero]))"

section \<open>Lemmas\<close>

lemma foldl_update_range:
  "m + n \<le> length xs \<Longrightarrow>
   foldl (\<lambda>p i. p[m + i := x]) xs [0..<n] = take m xs @ replicate n x @ drop (m + n) xs"
proof (induction n)
  case (Suc n)
  then have "foldl (\<lambda>p i. p[m + i := x]) xs [0..<Suc n]
      = (take m xs @ replicate n x @ drop (m + n) xs)[m + n := x]"
    by simp
  also from Suc.prems have "drop (m + n) xs = xs ! (m + n) # drop (m + Suc n) xs"
    by (simp add: Cons_nth_drop_Suc)
  finally show ?case
    using Suc.prems by (simp add: list_update_append replicate_app_Cons_same)
qed simp

lemma page_tables_init_prefix:
  "n * 1024 \<le> length pts \<Longrightarrow>
   foldl (\<lambda>p t. pt_init t p) pts [0..<n] = replicate (n * 1024) pte_bzero @ drop (n * 1024) pts"
proof (induction n)
  case (Suc n)
  then have "foldl (\<lambda>p t. pt_init t p) pts [0..<Suc n]
      = pt_init n (replicate (n * 1024) pte_bzero @ drop (n * 1024) pts)"
    by simp
  also have "\<dots> = replicate (n * 1024 + 1024) pte_bzero @ drop (n * 1024 + 1024) pts"
    using Suc.prems
    by (simp add: pt_init_def PAGE_TABLE_LEN_def foldl_update_range replicate_add
        add.commute [of 1024])
  also have "n * 1024 + 1024 = Suc n * 1024"
    by simp
  finally show ?case .
qed simp

lemma page_tables_init_eq:
  "length pts = 5120 \<Longrightarrow> page_tables_init pts = replicate 5120 pte_bzero"
  using page_tables_init_prefix [of 5 pts] by (simp add: page_tables_init_def NUM_PAGE_TABLES_def)

lemma page_tables_set_entry_length:
  "length (snd (page_tables_set_entry t e a w pts)) = length pts"
  by (simp add: page_tables_set_entry_def Let_def)

lemma page_tables_clear_entry_length:
  "length (snd (page_tables_clear_entry t e pts)) = length pts"
  by (simp add: page_tables_clear_entry_def)

lemma table_idx2array_idx_less: "table_idx2array_idx t < 5"
  by (simp add: table_idx2array_idx_def NUM_PAGE_TABLES_def)

lemma table_idx2array_idx_inj:
  assumes "is_table_idx_implemented s" and "is_table_idx_implemented t"
    and "table_idx2array_idx s = table_idx2array_idx t"
  shows "s = t"
  using assms
  by (auto simp: is_table_idx_implemented_def table_idx2array_idx_def NUM_PAGE_TABLES_def
      word_unat_eq_iff split: if_splits)

lemma pte_word_present: "pte_word e AND 1 = of_bool (pte_present e)"
  by (rule bit_eqI) (auto simp: pte_word_def bit_simps)

lemma pte_word_frame:
  "pte_word e AND NOT 0xfff = push_bit 12 (ucast (pte_paddr e))"
proof -
  have m: "(0xfff :: u32) = mask 12"
    by (simp add: mask_eq_exp_minus_1)
  show ?thesis
    unfolding m by (rule bit_eqI) (auto simp: pte_word_def bit_simps dest: bit_imp_le_length)
qed

end
