(* ===== verification/Mem_Interface.thy ===== *)
theory Mem_Interface
  imports Kboot_Prelude
begin

text \<open>
  The interface between the ELF loader and the memory system below it: mapping a page, and loading
  and storing one byte at a virtual address. The loader is a client of these three operations; what
  it relies on are the laws of the locale \<open>paged_memory\<close>. The theory \<open>Paging\<close> provides them.

  \<open>translate\<close> is the address translation in force, \<open>phys\<close> the contents of physical memory, and
  \<open>plain\<close> the physical addresses that hold ordinary data, so not the translation tables. \<open>can_map\<close> is the
  condition under which the page is accepted; it depends on the two addresses alone.
\<close>

locale paged_memory =
  fixes map_page :: "u32 \<Rightarrow> u32 \<Rightarrow> bool \<Rightarrow> 's \<Rightarrow> int \<times> 's"
    and load8 :: "u32 \<Rightarrow> 's \<Rightarrow> u8 option"
    and store8 :: "u32 \<Rightarrow> u8 \<Rightarrow> 's \<Rightarrow> 's option"
    and translate :: "'s \<Rightarrow> u32 \<Rightarrow> u32 option"
    and phys :: "'s \<Rightarrow> u32 \<Rightarrow> u8"
    and plain :: "'s \<Rightarrow> u32 \<Rightarrow> bool"
    and can_map :: "u32 \<Rightarrow> u32 \<Rightarrow> bool"
    and invar :: "'s \<Rightarrow> bool"
  assumes map_rc: "invar s \<Longrightarrow> map_page v p w s = (rc, s') \<Longrightarrow> rc = 0 \<longleftrightarrow> can_map v p"
    and map_invar: "invar s \<Longrightarrow> map_page v p w s = (rc, s') \<Longrightarrow>
      invar s' \<and> phys s' = phys s \<and> plain s' = plain s"
    and map_fail: "invar s \<Longrightarrow> map_page v p w s = (rc, s') \<Longrightarrow> rc \<noteq> 0 \<Longrightarrow> s' = s"
    and map_hit: "invar s \<Longrightarrow> map_page v p w s = (0, s') \<Longrightarrow>
      v AND 0xfff = 0 \<Longrightarrow> p AND 0xfff = 0 \<Longrightarrow> unat k < 4096 \<Longrightarrow> translate s' (v + k) = Some (p + k)"
    and map_miss: "invar s \<Longrightarrow> map_page v p w s = (0, s') \<Longrightarrow>
      v AND 0xfff = 0 \<Longrightarrow> p AND 0xfff = 0 \<Longrightarrow> drop_bit 22 u \<noteq> 0x3ff \<Longrightarrow>
      drop_bit 12 u \<noteq> drop_bit 12 v \<Longrightarrow> translate s' u = translate s u"
    and map_window: "invar s \<Longrightarrow> map_page v p w s = (0, s') \<Longrightarrow> drop_bit 22 v \<noteq> 0x3ff"
    and load_plain: "invar s \<Longrightarrow> translate s v = Some p \<Longrightarrow> plain s p \<Longrightarrow>
      load8 v s = Some (phys s p)"
    and store_plain: "invar s \<Longrightarrow> translate s v = Some p \<Longrightarrow> plain s p \<Longrightarrow>
      \<exists>s'. store8 v b s = Some s' \<and> invar s' \<and> phys s' = (phys s)(p := b) \<and>
           translate s' = translate s \<and> plain s' = plain s"
begin

text \<open>A byte stored through a mapping is read back through it, and through any other mapping of
  the same frame.\<close>

lemma store_load:
  assumes "invar s" and "translate s v = Some p" and "translate s u = Some p" and "plain s p"
  shows "\<exists>s'. store8 v b s = Some s' \<and> load8 u s' = Some b"
proof -
  from store_plain [OF assms(1,2,4)] obtain s' where
    s': "store8 v b s = Some s'" "invar s'" "phys s' = (phys s)(p := b)"
      "translate s' = translate s" "plain s' = plain s"
    by blast
  with load_plain [of s' u p] assms(3,4) show ?thesis by simp
qed

lemma store_load_other:
  assumes "invar s" and "translate s v = Some p" and "translate s u = Some q"
    and "plain s p" and "plain s q" and "p \<noteq> q"
  shows "\<exists>s'. store8 v b s = Some s' \<and> load8 u s' = load8 u s"
proof -
  from store_plain [OF assms(1,2,4)] obtain s' where
    s': "store8 v b s = Some s'" "invar s'" "phys s' = (phys s)(p := b)"
      "translate s' = translate s" "plain s' = plain s"
    by blast
  with load_plain [of s' u q] load_plain [OF assms(1,3,5)] assms(3,5,6) show ?thesis by auto
qed

end

end
