(* ===== verification/Paging.thy ===== *)
theory Paging
  imports Page_Tables Mem_Interface
begin

text \<open>
  Paging (\<open>mm/paging.c\<close>, \<open>mm/_paging.S\<close>): mapping and unmapping of pages, the identity map
  built at start-up, and the software translation through the self-mapping of the page directory.
  The record \<open>mmu\<close> holds the two static arrays, the addresses the linker gave them, the control
  registers the code writes, and the rest of the physical memory. \<open>mmu_walk\<close> is the two-level
  translation the processor performs on that state (4 KiB pages).
\<close>

section \<open>State and hardware translation\<close>

record mmu =
  pd :: "page_dir_entry list"
  pts :: "page_table_entry list"
  pd_addr :: u32
  pt_addr :: u32
  cr3 :: u32
  paging_on :: bool
  ram :: "u32 \<Rightarrow> u8"

definition ram_read32 :: "(u32 \<Rightarrow> u8) \<Rightarrow> u32 \<Rightarrow> u32" where
  "ram_read32 r a = le32 [r a, r (a + 1), r (a + 2), r (a + 3)] 0"

text \<open>Physical addresses that belong to the directory or to the page tables.\<close>

definition in_pd :: "mmu \<Rightarrow> u32 \<Rightarrow> bool" where
  "in_pd m a \<longleftrightarrow> unat (a - pd_addr m) < 4096"

definition in_pts :: "mmu \<Rightarrow> u32 \<Rightarrow> bool" where
  "in_pts m a \<longleftrightarrow> unat (a - pt_addr m) < 20480"

definition phys_read32 :: "mmu \<Rightarrow> u32 \<Rightarrow> u32" where
  "phys_read32 m a =
     (if in_pd m a then pde_word (pd m ! (unat (a - pd_addr m) div 4))
      else if in_pts m a then pte_word (pts m ! (unat (a - pt_addr m) div 4))
      else ram_read32 (ram m) a)"

definition walk_tables :: "mmu \<Rightarrow> u32 \<Rightarrow> u32 option" where
  "walk_tables m va =
     (let pde = phys_read32 m (cr3 m + 4 * drop_bit 22 va)
      in if pde AND 1 = 0 then None
         else (let pte = phys_read32 m ((pde AND NOT 0xfff) + 4 * (drop_bit 12 va AND 0x3ff))
               in if pte AND 1 = 0 then None
                  else Some ((pte AND NOT 0xfff) OR (va AND 0xfff))))"

definition mmu_walk :: "mmu \<Rightarrow> u32 \<Rightarrow> u32 option" where
  "mmu_walk m va = (if paging_on m then walk_tables m va else Some va)"

definition virt_read32 :: "mmu \<Rightarrow> u32 \<Rightarrow> u32 option" where
  "virt_read32 m va = map_option (phys_read32 m) (mmu_walk m va)"

text \<open>
  The processor's byte accesses. A store into the tables themselves would change the translation
  behind the model's back and is \<open>None\<close>, as a page fault is.
\<close>

definition in_tables :: "mmu \<Rightarrow> u32 \<Rightarrow> bool" where
  "in_tables m a \<longleftrightarrow> in_pd m a \<or> in_pts m a"

definition phys_read8 :: "mmu \<Rightarrow> u32 \<Rightarrow> u8" where
  "phys_read8 m a =
     (if in_tables m a
      then ucast (drop_bit (8 * unat (a AND 3)) (phys_read32 m (a AND NOT 3)))
      else ram m a)"

definition virt_read8 :: "u32 \<Rightarrow> mmu \<Rightarrow> u8 option" where
  "virt_read8 va m = map_option (phys_read8 m) (mmu_walk m va)"

definition virt_write8 :: "u32 \<Rightarrow> u8 \<Rightarrow> mmu \<Rightarrow> mmu option" where
  "virt_write8 va b m =
     (case mmu_walk m va of
        None \<Rightarrow> None
      | Some a \<Rightarrow> if in_tables m a then None else Some (m\<lparr>ram := (ram m)(a := b)\<rparr>))"

section \<open>The operations of paging.c\<close>

definition vaddr2pd_idx :: "u32 \<Rightarrow> u32" where
  "vaddr2pd_idx vaddr = drop_bit 22 vaddr"

definition vaddr2pt_idx :: "u32 \<Rightarrow> u32" where
  "vaddr2pt_idx vaddr = drop_bit 12 vaddr AND 0x3ff"

definition reset_mmu_cache :: "mmu \<Rightarrow> mmu" where
  "reset_mmu_cache m = m\<lparr>cr3 := cr3 m\<rparr>"

definition paging_unmap :: "u32 \<Rightarrow> mmu \<Rightarrow> int \<times> mmu" where
  "paging_unmap vaddr m =
     (if \<not> is_addr_page_aligned vaddr then (1, m)
      else (let pd_idx = vaddr2pd_idx vaddr; pt_idx = vaddr2pt_idx vaddr
            in if \<not> page_dir_entry_is_present pd_idx (pd m) then (0, m)
               else (let (rc, t) = page_tables_clear_entry pd_idx pt_idx (pts m)
                     in if rc \<noteq> 0 then (1, m\<lparr>pts := t\<rparr>)
                        else (0, reset_mmu_cache (m\<lparr>pts := t\<rparr>)))))"

text \<open>The block of \<open>paging_map\<close> that installs the page table of an absent directory entry.\<close>

definition paging_map_dir :: "u32 \<Rightarrow> mmu \<Rightarrow> int \<times> mmu" where
  "paging_map_dir pd_idx m =
     (if \<not> page_dir_entry_is_present pd_idx (pd m) then
        (let pt_paddr = page_tables_get_paddr (pt_addr m) pd_idx
         in if pt_paddr = 0 then (1, m)
            else (let (rc, d) = page_dir_set_entry pd_idx pt_paddr (pd m)
                  in if rc \<noteq> 0 then (1, m\<lparr>pd := d\<rparr>) else (0, m\<lparr>pd := d\<rparr>)))
      else (0, m))"

definition paging_map :: "u32 \<Rightarrow> u32 \<Rightarrow> bool \<Rightarrow> mmu \<Rightarrow> int \<times> mmu" where
  "paging_map vaddr paddr writable m =
     (if \<not> is_addr_page_aligned vaddr \<or> \<not> is_addr_page_aligned paddr then (1, m)
      else if paddr + PAGE_SIZE - 1 > PADDR_MAX then (1, m)
      else (let pd_idx = vaddr2pd_idx vaddr; pt_idx = vaddr2pt_idx vaddr;
                (rc, m1) = paging_map_dir pd_idx m
            in if rc \<noteq> 0 then (1, m1)
               else (let (rc2, t) = page_tables_set_entry pd_idx pt_idx paddr writable (pts m1)
                     in if rc2 \<noteq> 0 then (1, m1\<lparr>pts := t\<rparr>)
                        else (0, reset_mmu_cache (m1\<lparr>pts := t\<rparr>)))))"

lemma setup_identity_decreases:
  assumes "addr + (PAGE_SIZE - 1) \<le> PADDR_MAX"
  shows "0x1000000 - unat (addr + PAGE_SIZE + (PAGE_SIZE - 1))
    < 0x1000000 - unat (addr + (PAGE_SIZE - 1))"
proof -
  have "unat (addr + 4095) \<le> 0xefffff"
    using assms by (simp add: PAGE_SIZE_def PADDR_MAX_def word_le_nat_alt)
  moreover from this have "unat (addr + 4095 + 4096) = unat (addr + 4095) + 4096"
    by (subst unat_add_no_overflow) simp_all
  ultimately show ?thesis
    by (simp add: PAGE_SIZE_def algebra_simps)
qed

function setup_identity_from :: "u32 \<Rightarrow> mmu \<Rightarrow> int \<times> mmu" where
  "setup_identity_from addr m =
     (if addr + (PAGE_SIZE - 1) \<le> PADDR_MAX then
        (let (rc, m') = paging_map addr addr True m
         in if rc \<noteq> 0 then (1, m') else setup_identity_from (addr + PAGE_SIZE) m')
      else (0, m))"
  by pat_completeness auto

termination
  by (relation "measure (\<lambda>(addr, m). 0x1000000 - unat (addr + (PAGE_SIZE - 1)))")
    (use setup_identity_decreases in auto)

declare setup_identity_from.simps [simp del]

definition setup_identity :: "mmu \<Rightarrow> int \<times> mmu" where
  "setup_identity m = setup_identity_from 0 m"

definition paging_init :: "mmu \<Rightarrow> int \<times> mmu" where
  "paging_init m =
     (let (d, c) = page_dir_init (pd_addr m) (pd m);
          m1 = m\<lparr>pd := d, cr3 := c, pts := page_tables_init (pts m)\<rparr>;
          (rc, m2) = setup_identity m1
      in if rc \<noteq> 0 then (1, m2)
         else (let (rc2, d2) = page_dir_automap (pd_addr m2) (pd m2)
               in if rc2 \<noteq> 0 then (1, m2\<lparr>pd := d2\<rparr>) else (0, m2\<lparr>pd := d2\<rparr>)))"

definition paging_enable :: "mmu \<Rightarrow> mmu" where
  "paging_enable m = m\<lparr>paging_on := True\<rparr>"

text \<open>
  The two reads go through the last directory entry, which maps the directory itself. \<open>None\<close> is
  the page fault of a read that the MMU cannot translate.
\<close>

definition paging_vaddr2paddr :: "u32 \<Rightarrow> mmu \<Rightarrow> u32 option" where
  "paging_vaddr2paddr vaddr m =
     (let pd_idx = drop_bit 22 vaddr; pt_idx = drop_bit 12 vaddr AND 0x3ff
      in case virt_read32 m ((0xffc00000 OR push_bit 12 0x3ff) + 4 * pd_idx) of
           None \<Rightarrow> None
         | Some pde \<Rightarrow>
             if pde AND 1 = 0 then Some 0
             else (case virt_read32 m ((0xffc00000 OR push_bit 12 pd_idx) + 4 * pt_idx) of
                     None \<Rightarrow> None
                   | Some pte \<Rightarrow>
                       if pte AND 1 = 0 then Some 0
                       else Some ((pte AND NOT 0xfff) OR (vaddr AND 0xfff))))"

section \<open>The two levels of the translation\<close>

lemma pd_idx_less: "unat (vaddr2pd_idx v) < 1024"
  using unat_u32_bound [of v] by (simp add: vaddr2pd_idx_def drop_bit_eq_div unat_div)

lemma pt_idx_less: "unat (vaddr2pt_idx v) < 1024"
  by (simp add: vaddr2pt_idx_def word_and_mask_take_bit take_bit_eq_mod unat_mod)

definition layout_ok :: "mmu \<Rightarrow> bool" where
  "layout_ok m \<longleftrightarrow>
     length (pd m) = 1024 \<and> length (pts m) = 5120 \<and>
     pd_addr m AND 0xfff = 0 \<and> pt_addr m AND 0xfff = 0 \<and> pt_addr m \<noteq> 0 \<and>
     unat (pd_addr m) + 4096 \<le> 4294967296 \<and> unat (pt_addr m) + 20480 \<le> 4294967296 \<and>
     (unat (pd_addr m) + 4096 \<le> unat (pt_addr m) \<or> unat (pt_addr m) + 20480 \<le> unat (pd_addr m))"

lemma phys_read32_pd:
  "layout_ok m \<Longrightarrow> unat i < 1024 \<Longrightarrow> phys_read32 m (pd_addr m + 4 * i) = pde_word (pd m ! unat i)"
  by (simp add: phys_read32_def in_pd_def unat_times4)

lemma phys_read32_pts:
  assumes "layout_ok m" "t < 5" "unat j < 1024"
  shows "phys_read32 m (pt_addr m + of_nat (t * 1024 * 4) + 4 * j) = pte_word (pts m ! (t * 1024 + unat j))"
proof -
  let ?x = "of_nat (t * 1024 * 4) + 4 * j :: u32"
  have x: "unat ?x = t * 4096 + 4 * unat j"
    using assms by (simp add: unat_word_ariths unat_times4 unat_of_nat)
  then have lt: "unat ?x < 20480"
    using assms by linarith
  have sum: "unat (pt_addr m + ?x) = unat (pt_addr m) + unat ?x"
    using assms lt by (intro unat_add_no_overflow) (simp add: layout_ok_def)
  have "\<not> in_pd m (pt_addr m + ?x)"
    using assms(1) lt unfolding in_pd_def unat_sub_u32 sum by (auto simp: layout_ok_def)
  moreover have "in_pts m (pt_addr m + ?x)"
    using lt by (simp add: in_pts_def)
  moreover have "unat (pt_addr m + ?x - pt_addr m) div 4 = t * 1024 + unat j"
    using x by simp
  ultimately show ?thesis
    by (simp add: phys_read32_def add.assoc)
qed


definition dir_entry_ok :: "mmu \<Rightarrow> nat \<Rightarrow> bool" where
  "dir_entry_ok m i \<longleftrightarrow>
     (i = 1023 \<and> pde_paddr (pd m ! i) = ucast (drop_bit 12 (pd_addr m))) \<or>
     (is_table_idx_implemented (of_nat i) \<and>
        pde_paddr (pd m ! i) = ucast (drop_bit 12 (page_tables_get_paddr (pt_addr m) (of_nat i))))"

definition table_empty :: "mmu \<Rightarrow> nat \<Rightarrow> bool" where
  "table_empty m t \<longleftrightarrow> (\<forall>j < 1024. \<not> pte_present (pts m ! (t * 1024 + j)))"

definition mmu_inv :: "mmu \<Rightarrow> bool" where
  "mmu_inv m \<longleftrightarrow> layout_ok m \<and> cr3 m = pd_addr m \<and>
     (\<forall>i < 1024. pde_present (pd m ! i) \<longrightarrow> dir_entry_ok m i) \<and>
     (\<forall>i < 1024. \<not> pde_present (pd m ! i) \<longrightarrow> is_table_idx_implemented (of_nat i) \<longrightarrow>
        table_empty m (table_idx2array_idx (of_nat i)))"

text \<open>The translation, read off the two arrays.\<close>

definition frame_of :: "20 word \<Rightarrow> u32 \<Rightarrow> u32" where
  "frame_of f va = push_bit 12 (ucast f) OR (va AND 0xfff)"

definition lookup_walk :: "mmu \<Rightarrow> u32 \<Rightarrow> u32 option" where
  "lookup_walk m va =
     (let i = vaddr2pd_idx va; j = unat (vaddr2pt_idx va)
      in if \<not> pde_present (pd m ! unat i) then None
         else if i = 0x3ff
              then (if pde_present (pd m ! j) then Some (frame_of (pde_paddr (pd m ! j)) va) else None)
              else (let e = pts m ! (table_idx2array_idx i * 1024 + j)
                    in if pte_present e then Some (frame_of (pte_paddr e) va) else None))"

lemma page_tables_get_paddr_unat:
  assumes "layout_ok m" and "is_table_idx_implemented i"
  shows "unat (page_tables_get_paddr (pt_addr m) i) = unat (pt_addr m) + table_idx2array_idx i * 4096"
proof -
  have "unat (of_nat (table_idx2array_idx i * PAGE_TABLE_LEN * 4) :: u32) = table_idx2array_idx i * 4096"
    using table_idx2array_idx_less [of i] by (simp add: PAGE_TABLE_LEN_def unat_of_nat unat_word_ariths)
  with assms table_idx2array_idx_less [of i] show ?thesis
    by (simp add: page_tables_get_paddr_def) (subst unat_add_no_overflow; simp add: layout_ok_def)
qed

lemma page_tables_get_paddr_aligned:
  assumes "layout_ok m" "is_table_idx_implemented i"
  shows "page_tables_get_paddr (pt_addr m) i AND 0xfff = 0"
  using assms unfolding aligned_iff_unat page_tables_get_paddr_unat [OF assms]
  by (simp add: layout_ok_def aligned_iff_unat)

lemma walk_tables_eq:
  assumes inv: "mmu_inv m"
  shows "walk_tables m va = lookup_walk m va"
proof -
  define i where "i = vaddr2pd_idx va"
  define j where "j = vaddr2pt_idx va"
  have i: "unat i < 1024" and j: "unat j < 1024"
    by (simp_all add: i_def j_def pd_idx_less pt_idx_less)
  have lay: "layout_ok m" and c: "cr3 m = pd_addr m"
    using inv by (simp_all add: mmu_inv_def)
  have pde: "phys_read32 m (cr3 m + 4 * drop_bit 22 va) = pde_word (pd m ! unat i)"
    using phys_read32_pd [OF lay i] by (simp only: c i_def vaddr2pd_idx_def)
  show ?thesis
  proof (cases "pde_present (pd m ! unat i)")
    case False
    then show ?thesis
      unfolding walk_tables_def pde
      by (simp add: pde_word_present lookup_walk_def i_def Let_def)
  next
    case True
    then have "dir_entry_ok m (unat i)"
      using inv i by (simp add: mmu_inv_def)
    then consider (self) "i = 0x3ff" "pde_paddr (pd m ! unat i) = ucast (drop_bit 12 (pd_addr m))"
      | (table) "is_table_idx_implemented i"
         "pde_paddr (pd m ! unat i) = ucast (drop_bit 12 (page_tables_get_paddr (pt_addr m) i))"
      by (auto simp: dir_entry_ok_def word_unat_eq_iff)
    then show ?thesis
    proof cases
      case self
      then have "pde_word (pd m ! unat i) AND NOT 0xfff = pd_addr m"
        unfolding pde_word_frame self(2)
        using lay by (intro frame_number_roundtrip) (simp add: layout_ok_def)
      then have "phys_read32 m ((pde_word (pd m ! unat i) AND NOT 0xfff)
          + 4 * (drop_bit 12 va AND 0x3ff)) = pde_word (pd m ! unat j)"
        using phys_read32_pd [OF lay j] by (simp only: j_def vaddr2pt_idx_def)
      then show ?thesis
        unfolding walk_tables_def pde Let_def
        using True self(1)
        by (simp only: pde_word_present pde_word_frame lookup_walk_def i_def j_def Let_def frame_of_def) simp
    next
      case table
      then have "i \<noteq> 0x3ff"
        by (auto simp: is_table_idx_implemented_def NUM_PAGE_TABLES_def)
      have "pde_word (pd m ! unat i) AND NOT 0xfff = page_tables_get_paddr (pt_addr m) i"
        unfolding pde_word_frame table(2)
        by (intro frame_number_roundtrip page_tables_get_paddr_aligned lay table(1))
      then have "phys_read32 m ((pde_word (pd m ! unat i) AND NOT 0xfff)
          + 4 * (drop_bit 12 va AND 0x3ff)) = pte_word (pts m ! (table_idx2array_idx i * 1024 + unat j))"
        using phys_read32_pts [OF lay table_idx2array_idx_less j] table(1)
        by (simp only: j_def vaddr2pt_idx_def page_tables_get_paddr_def PAGE_TABLE_LEN_def) simp
      then show ?thesis
        unfolding walk_tables_def pde Let_def
        using True \<open>i \<noteq> 0x3ff\<close>
        by (simp only: pde_word_present pte_word_present pte_word_frame lookup_walk_def i_def j_def Let_def frame_of_def) simp
    qed
  qed
qed


section \<open>Mapping and unmapping\<close>

lemma mmu_inv_tables:
  assumes "mmu_inv m" "is_table_idx_implemented i" "pde_present (pd m ! unat i)" "unat i < 1024"
  shows "dir_entry_ok m (unat i)"
  using assms by (simp add: mmu_inv_def)

lemma implemented_less: "is_table_idx_implemented i \<Longrightarrow> unat i < 1024 \<and> unat i \<noteq> 1023"
  by (auto simp: is_table_idx_implemented_def NUM_PAGE_TABLES_def)

lemma page_tables_get_paddr_1024_aligned:
  assumes "layout_ok m" and "is_table_idx_implemented i"
  shows "is_addr_page_aligned (page_tables_get_paddr (pt_addr m) i)"
    and "page_tables_get_paddr (pt_addr m) i \<noteq> 0"
proof -
  let ?p = "page_tables_get_paddr (pt_addr m) i"
  have "?p AND 0x3ff = (?p AND 0xfff) AND 0x3ff"
    by (simp add: and.assoc)
  then show "is_addr_page_aligned ?p"
    using page_tables_get_paddr_aligned [OF assms] by (simp add: is_addr_page_aligned_def)
  have "unat (pt_addr m) > 0"
    using assms(1) by (simp add: layout_ok_def unat_gt_0)
  then show "?p \<noteq> 0"
    using page_tables_get_paddr_unat [OF assms] by (metis add_is_0 less_irrefl unsigned_0)
qed


definition with_tables :: "page_dir_entry list \<Rightarrow> page_table_entry list \<Rightarrow> mmu \<Rightarrow> mmu" where
  "with_tables d t m = m\<lparr>pd := d, pts := t\<rparr>"

lemma with_tables_simps [simp]:
  "pd (with_tables d t m) = d" "pts (with_tables d t m) = t"
  "pd_addr (with_tables d t m) = pd_addr m" "pt_addr (with_tables d t m) = pt_addr m"
  "cr3 (with_tables d t m) = cr3 m" "paging_on (with_tables d t m) = paging_on m"
  "ram (with_tables d t m) = ram m"
  "with_tables d t (with_tables d' t' m) = with_tables d t m"
  by (simp_all add: with_tables_def)

lemma with_tables_self: "with_tables (pd m) (pts m) m = m"
  by (simp add: with_tables_def)

definition dir_installed :: "u32 \<Rightarrow> mmu \<Rightarrow> page_dir_entry list" where
  "dir_installed i m =
     (if pde_present (pd m ! unat i) then pd m
      else snd (page_dir_set_entry i (page_tables_get_paddr (pt_addr m) i) (pd m)))"

lemma paging_map_dir_ok:
  assumes inv: "mmu_inv m" and impl: "is_table_idx_implemented i"
  shows "paging_map_dir i m = (0, with_tables (dir_installed i m) (pts m) m)"
proof -
  have lay: "layout_ok m" and i: "unat i < 1024"
    using inv implemented_less [OF impl] by (simp_all add: mmu_inv_def)
  have "fst (page_dir_set_entry i (page_tables_get_paddr (pt_addr m) i) (pd m)) = 0"
    using page_tables_get_paddr_1024_aligned [OF lay impl] i
    by (simp add: page_dir_set_entry_def pd_entry_num_is_valid_def PAGE_DIR_TABLE_LEN_def)
  with page_tables_get_paddr_1024_aligned [OF lay impl] i show ?thesis
    by (auto simp: paging_map_dir_def page_dir_entry_is_present_small Let_def dir_installed_def
        with_tables_def split: prod.splits)
qed

lemma dir_installed_props:
  assumes inv: "mmu_inv m" and impl: "is_table_idx_implemented i"
  shows "length (dir_installed i m) = 1024"
    and "pde_present (dir_installed i m ! unat i)"
    and "pde_paddr (dir_installed i m ! unat i)
           = ucast (drop_bit 12 (page_tables_get_paddr (pt_addr m) i))"
    and "k \<noteq> unat i \<Longrightarrow> dir_installed i m ! k = pd m ! k"
proof -
  have lay: "layout_ok m" and i: "unat i < 1024" "unat i \<noteq> 1023"
    using inv implemented_less [OF impl] by (simp_all add: mmu_inv_def)
  then have len: "length (pd m) = 1024"
    by (simp add: layout_ok_def)
  then show "length (dir_installed i m) = 1024"
    by (simp add: dir_installed_def page_dir_set_entry_length)
  show "k \<noteq> unat i \<Longrightarrow> dir_installed i m ! k = pd m ! k"
    by (simp add: dir_installed_def page_dir_set_entry_def)
  show "pde_present (dir_installed i m ! unat i)"
    using i len page_tables_get_paddr_1024_aligned [OF lay impl]
    by (simp add: dir_installed_def page_dir_set_entry_def pd_entry_num_is_valid_def
        PAGE_DIR_TABLE_LEN_def)
  show "pde_paddr (dir_installed i m ! unat i)
           = ucast (drop_bit 12 (page_tables_get_paddr (pt_addr m) i))"
  proof (cases "pde_present (pd m ! unat i)")
    case True
    with mmu_inv_tables [OF inv impl] i show ?thesis
      by (auto simp: dir_installed_def dir_entry_ok_def)
  next
    case False
    with i len page_tables_get_paddr_1024_aligned [OF lay impl] show ?thesis
      by (simp add: dir_installed_def page_dir_set_entry_def pd_entry_num_is_valid_def
          PAGE_DIR_TABLE_LEN_def)
  qed
qed

lemma same_page_iff:
  "drop_bit 12 v = drop_bit 12 (w :: u32) \<longleftrightarrow>
     vaddr2pd_idx v = vaddr2pd_idx w \<and> vaddr2pt_idx v = vaddr2pt_idx w"
proof -
  have "vaddr2pd_idx x = drop_bit 10 (drop_bit 12 x)"
    and "vaddr2pt_idx x = take_bit 10 (drop_bit 12 x)" for x :: u32
    by (simp_all add: vaddr2pd_idx_def vaddr2pt_idx_def word_and_mask_take_bit)
  then show ?thesis
    by (metis bits_ident)
qed

definition mapped_entry :: "u32 \<Rightarrow> bool \<Rightarrow> page_table_entry \<Rightarrow> page_table_entry" where
  "mapped_entry paddr writable e =
     e\<lparr>pte_paddr := ucast (drop_bit 12 paddr), pte_zero := 0, pte_cache_disabled := True,
       pte_user := False, pte_write := writable, pte_present := True\<rparr>"

definition mappable :: "u32 \<Rightarrow> u32 \<Rightarrow> bool" where
  "mappable va pa \<longleftrightarrow> is_addr_page_aligned va \<and> is_addr_page_aligned pa \<and>
     pa + PAGE_SIZE - 1 \<le> PADDR_MAX \<and> is_table_idx_implemented (vaddr2pd_idx va)"

abbreviation pt_slot :: "u32 \<Rightarrow> nat" where
  "pt_slot va \<equiv> table_idx2array_idx (vaddr2pd_idx va) * 1024 + unat (vaddr2pt_idx va)"

lemma paging_map_mappable:
  assumes inv: "mmu_inv m" and ok: "mappable va pa"
  shows "paging_map va pa w m =
    (0, with_tables (dir_installed (vaddr2pd_idx va) m)
          ((pts m)[pt_slot va := mapped_entry pa w (pts m ! pt_slot va)]) m)"
  using ok paging_map_dir_ok [OF inv, of "vaddr2pd_idx va"]
  by (simp add: paging_map_def mappable_def page_tables_set_entry_def Let_def reset_mmu_cache_def
      PAGE_TABLE_LEN_def mapped_entry_def not_less with_tables_def)

lemma paging_map_not_mappable:
  assumes inv: "mmu_inv m" and bad: "\<not> mappable va pa"
  shows "paging_map va pa w m = (1, m)"
proof (cases "is_addr_page_aligned va \<and> is_addr_page_aligned pa \<and> pa + PAGE_SIZE - 1 \<le> PADDR_MAX")
  case True
  let ?i = "vaddr2pd_idx va"
  from True bad have nimpl: "\<not> is_table_idx_implemented ?i"
    by (simp add: mappable_def)
  have "page_tables_get_paddr (pt_addr m) ?i = 1"
    using nimpl by (simp add: page_tables_get_paddr_def)
  then have "paging_map_dir ?i m = ((if pde_present (pd m ! unat ?i) then 0 else 1), m)"
    using pd_idx_less [of va]
    by (simp add: paging_map_dir_def page_dir_entry_is_present_small page_dir_set_entry_def
        pd_entry_num_is_valid_def PAGE_DIR_TABLE_LEN_def is_addr_page_aligned_def Let_def)
  with True nimpl show ?thesis
    by (simp add: paging_map_def page_tables_set_entry_def Let_def not_less)
next
  case False
  then show ?thesis
    by (auto simp: paging_map_def not_le)
qed


lemma unat_of_nat_1024: "k < 1024 \<Longrightarrow> unat (of_nat k :: u32) = k"
  by (simp add: unat_of_nat)

lemma pt_slot_less: "pt_slot va < 5120"
  using table_idx2array_idx_less [of "vaddr2pd_idx va"] pt_idx_less [of va] by linarith

lemma slot_eq_iff:
  assumes "j < 1024" and "j' < (1024 :: nat)"
  shows "t * 1024 + j = t' * 1024 + j' \<longleftrightarrow> t = t' \<and> j = j'"
proof
  assume eq: "t * 1024 + j = t' * 1024 + j'"
  have "t = (t * 1024 + j) div 1024" and "t' = (t' * 1024 + j') div 1024"
    using assms by simp_all
  with eq show "t = t' \<and> j = j'"
    by (metis add_left_cancel)
qed simp

lemma mmu_inv_map:
  assumes inv: "mmu_inv m" and impl: "is_table_idx_implemented (vaddr2pd_idx va)"
  shows "mmu_inv (with_tables (dir_installed (vaddr2pd_idx va) m) ((pts m)[pt_slot va := e]) m)"
    (is "mmu_inv ?m'")
proof -
  let ?i = "vaddr2pd_idx va"
  note props = dir_installed_props [OF inv impl]
  have "layout_ok ?m'"
    using inv props(1) by (simp add: mmu_inv_def layout_ok_def)
  moreover have "dir_entry_ok ?m' k" if k: "k < 1024" and pr: "pde_present (pd ?m' ! k)" for k
  proof (cases "k = unat ?i")
    case True
    then have "of_nat k = ?i"
      by simp
    with True props impl show ?thesis
      by (simp add: dir_entry_ok_def)
  next
    case False
    with pr k inv props(4) [OF False] show ?thesis
      by (simp add: mmu_inv_def dir_entry_ok_def)
  qed
  moreover have "table_empty ?m' (table_idx2array_idx (of_nat k))"
    if k: "k < 1024" "\<not> pde_present (pd ?m' ! k)" "is_table_idx_implemented (of_nat k)" for k
  proof -
    have ne: "k \<noteq> unat ?i"
      using k(2) props(2) by auto
    then have "of_nat k \<noteq> ?i"
      using unat_of_nat_1024 [OF k(1)] by metis
    then have "table_idx2array_idx (of_nat k) \<noteq> table_idx2array_idx ?i"
      using table_idx2array_idx_inj [OF k(3) impl] by blast
    then have "(pts m)[pt_slot va := e] ! (table_idx2array_idx (of_nat k) * 1024 + j)
        = pts m ! (table_idx2array_idx (of_nat k) * 1024 + j)" if "j < 1024" for j
      using slot_eq_iff [OF pt_idx_less that, of "table_idx2array_idx ?i" va "table_idx2array_idx (of_nat k)"]
      by auto
    moreover have "table_empty m (table_idx2array_idx (of_nat k))"
      using inv k props(4) [OF ne] by (simp add: mmu_inv_def)
    ultimately show ?thesis
      by (simp add: table_empty_def)
  qed
  ultimately show ?thesis
    using inv by (simp add: mmu_inv_def)
qed

lemma mmu_inv_empty:
  assumes "mmu_inv m" and "is_table_idx_implemented i" and "\<not> pde_present (pd m ! unat i)"
  shows "table_empty m (table_idx2array_idx i)"
proof -
  have "unat i < 1024"
    using implemented_less [OF assms(2)] by simp
  moreover have "of_nat (unat i) = i"
    by simp
  ultimately show ?thesis
    using assms unfolding mmu_inv_def by metis
qed

lemma slot_neq_of_page:
  assumes inv: "mmu_inv m" and impl: "is_table_idx_implemented (vaddr2pd_idx va)"
    and v: "vaddr2pd_idx v \<noteq> 0x3ff" and ne: "drop_bit 12 v \<noteq> drop_bit 12 va"
    and pr: "pde_present (pd m ! unat (vaddr2pd_idx v))"
  shows "pt_slot va \<noteq> pt_slot v"
proof (cases "vaddr2pd_idx v = vaddr2pd_idx va")
  case True
  with ne have "vaddr2pt_idx v \<noteq> vaddr2pt_idx va"
    by (simp add: same_page_iff)
  then have "unat (vaddr2pt_idx v) \<noteq> unat (vaddr2pt_idx va)"
    by (simp add: word_unat_eq_iff)
  with True show ?thesis by simp
next
  case False
  from pr have "dir_entry_ok m (unat (vaddr2pd_idx v))"
    using inv pd_idx_less [of v] by (simp add: mmu_inv_def)
  with v have "is_table_idx_implemented (vaddr2pd_idx v)"
    by (auto simp: dir_entry_ok_def word_unat_eq_iff)
  with False impl have "table_idx2array_idx (vaddr2pd_idx v) \<noteq> table_idx2array_idx (vaddr2pd_idx va)"
    using table_idx2array_idx_inj by blast
  then show ?thesis
    using slot_eq_iff [OF pt_idx_less pt_idx_less] by metis
qed

lemma lookup_walk_map:
  assumes inv: "mmu_inv m" and impl: "is_table_idx_implemented (vaddr2pd_idx va)"
    and v: "vaddr2pd_idx v \<noteq> 0x3ff"
  shows "lookup_walk (with_tables (dir_installed (vaddr2pd_idx va) m)
            ((pts m)[pt_slot va := mapped_entry pa w e]) m) v =
    (if drop_bit 12 v = drop_bit 12 va then Some (frame_of (ucast (drop_bit 12 pa)) v)
     else lookup_walk m v)"
    (is "lookup_walk ?m' v = _")
proof (cases "vaddr2pd_idx v = vaddr2pd_idx va")
  case same: True
  note props = dir_installed_props [OF inv impl]
  have len: "length (pts m) = 5120"
    using inv by (simp add: mmu_inv_def layout_ok_def)
  show ?thesis
  proof (cases "vaddr2pt_idx v = vaddr2pt_idx va")
    case True
    with same v props(2) len pt_slot_less [of va] show ?thesis
      by (simp add: lookup_walk_def same_page_iff mapped_entry_def Let_def)
  next
    case False
    then have ne: "unat (vaddr2pt_idx v) \<noteq> unat (vaddr2pt_idx va)"
      by (simp add: word_unat_eq_iff)
    have "lookup_walk ?m' v = (let e = pts m ! pt_slot v in
        if pte_present e then Some (frame_of (pte_paddr e) v) else None)"
      using same v props(2) ne by (simp add: lookup_walk_def Let_def)
    also have "\<dots> = lookup_walk m v"
    proof (cases "pde_present (pd m ! unat (vaddr2pd_idx v))")
      case True
      with v show ?thesis by (simp add: lookup_walk_def Let_def)
    next
      case False
      with inv impl same have "table_empty m (table_idx2array_idx (vaddr2pd_idx v))"
        by (intro mmu_inv_empty) simp_all
      with False pt_idx_less [of v] show ?thesis
        by (simp add: lookup_walk_def Let_def table_empty_def)
    qed
    finally show ?thesis
      using False by (simp add: same_page_iff)
  qed
next
  case False
  then have ne: "unat (vaddr2pd_idx v) \<noteq> unat (vaddr2pd_idx va)"
    by (simp add: word_unat_eq_iff)
  have dir: "pd ?m' ! unat (vaddr2pd_idx v) = pd m ! unat (vaddr2pd_idx v)"
    using dir_installed_props(4) [OF inv impl ne] by simp
  have "pt_slot va \<noteq> pt_slot v" if "pde_present (pd m ! unat (vaddr2pd_idx v))"
    using slot_neq_of_page [OF inv impl v _ that] False by (simp add: same_page_iff)
  with dir v have "lookup_walk ?m' v = lookup_walk m v"
    by (auto simp: lookup_walk_def Let_def)
  with False show ?thesis
    by (simp add: same_page_iff)
qed


lemma frame_of_add:
  assumes "(a :: u32) AND 0xfff = 0" and "(p :: u32) AND 0xfff = 0" and "unat k < 4096"
  shows "frame_of (ucast (drop_bit 12 p)) (a + k) = p + k"
  using aligned_or(3) [OF assms(2,3)]
  by (simp add: frame_of_def frame_number_roundtrip [OF assms(2)] aligned_add_page [OF assms(1,3)])

lemma frame_of_same_page:
  assumes "(p :: u32) AND 0xfff = 0" and "drop_bit 12 v = drop_bit 12 p"
  shows "frame_of (ucast (drop_bit 12 p)) v = v"
proof -
  have "p = v AND NOT 0xfff"
    using assms page_base_aligned [of v]
    by (metis aligned_add_page(1) frame_number_roundtrip page_offset page_offset_less)
  then show ?thesis
    using frame_of_add [OF page_base_aligned assms(1) page_offset_less, of v v] page_offset [of v]
    by simp
qed


section \<open>Effect of the operations on the translation\<close>

lemma paging_map_lookup:
  assumes inv: "mmu_inv m" and ok: "mappable va pa"
    and al: "va AND 0xfff = 0" "pa AND 0xfff = 0" and eq: "paging_map va pa w m = (rc, m')"
  shows "rc = 0" and "mmu_inv m'"
    and "unat k < 4096 \<Longrightarrow> lookup_walk m' (va + k) = Some (pa + k)"
    and "vaddr2pd_idx v \<noteq> 0x3ff \<Longrightarrow> drop_bit 12 v \<noteq> drop_bit 12 va \<Longrightarrow> lookup_walk m' v = lookup_walk m v"
    and "\<exists>d t. m' = with_tables d t m"
proof -
  have impl: "is_table_idx_implemented (vaddr2pd_idx va)"
    using ok by (simp add: mappable_def)
  let ?m' = "with_tables (dir_installed (vaddr2pd_idx va) m)
          ((pts m)[pt_slot va := mapped_entry pa w (pts m ! pt_slot va)]) m"
  have eqs: "rc = 0" "m' = ?m'"
    using paging_map_mappable [OF inv ok, of w] eq by simp_all
  then show "rc = 0" "mmu_inv m'" "\<exists>d t. m' = with_tables d t m"
    using mmu_inv_map [OF inv impl] by auto
  show "lookup_walk m' (va + k) = Some (pa + k)" if k: "unat k < 4096"
  proof -
    have same: "drop_bit 12 (va + k) = drop_bit 12 va"
      using aligned_add_page(1) [OF al(1) k] .
    then have "vaddr2pd_idx (va + k) \<noteq> 0x3ff"
      using impl by (auto simp: same_page_iff is_table_idx_implemented_def NUM_PAGE_TABLES_def)
    with same show ?thesis
      unfolding eqs(2) by (simp add: lookup_walk_map [OF inv impl] frame_of_add [OF al k])
  qed
  show "lookup_walk m' v = lookup_walk m v"
    if "vaddr2pd_idx v \<noteq> 0x3ff" "drop_bit 12 v \<noteq> drop_bit 12 va"
    using that unfolding eqs(2) by (simp add: lookup_walk_map [OF inv impl])
qed

lemma mappable_identity:
  assumes "addr AND 0xfff = 0" and "addr + (PAGE_SIZE - 1) \<le> PADDR_MAX"
  shows "mappable addr addr" and "unat addr < 0xf00000"
proof -
  have "unat (addr + 4095) = unat addr + 4095"
  proof (rule unat_add_no_overflow [of addr 4095, simplified])
    from assms(1) obtain q where "unat addr = 4096 * q" "q \<le> 1048575"
      by (rule aligned_obtain)
    then show "unat addr < 4294963201" by linarith
  qed
  then show lt: "unat addr < 0xf00000"
    using assms(2) by (simp add: PAGE_SIZE_def PADDR_MAX_def word_le_nat_alt)
  have "addr AND 0x3ff = (addr AND 0xfff) AND 0x3ff"
    by (simp add: and.assoc)
  then have "is_addr_page_aligned addr"
    using assms(1) by (simp add: is_addr_page_aligned_def)
  moreover have "unat (vaddr2pd_idx addr) < 4"
    using lt by (simp add: vaddr2pd_idx_def drop_bit_eq_div unat_div)
  ultimately show "mappable addr addr"
    using assms(2)
    by (simp add: mappable_def is_table_idx_implemented_def NUM_PAGE_TABLES_def PAGE_SIZE_def
        add.commute [of 4095])
qed

lemma identity_page_lookup:
  assumes inv: "mmu_inv m" and al: "addr AND 0xfff = 0" and le: "addr + (PAGE_SIZE - 1) \<le> PADDR_MAX"
    and step: "paging_map addr addr True m = (rc, m1)" and v: "vaddr2pd_idx v \<noteq> 0x3ff"
  shows "lookup_walk m1 v =
    (if unat addr \<le> unat v \<and> unat v < unat addr + 4096 then Some v else lookup_walk m v)"
proof (cases "unat addr \<le> unat v \<and> unat v < unat addr + 4096")
  note map = paging_map_lookup [OF inv mappable_identity(1) [OF al le] al al step]
  case True
  then have "unat (v - addr) < 4096"
    by (simp add: unat_sub_u32 less_diff_conv2 add.commute)
  from map(3) [OF this] True show ?thesis by simp
next
  note map = paging_map_lookup [OF inv mappable_identity(1) [OF al le] al al step]
  case False
  then have "drop_bit 12 v \<noteq> drop_bit 12 addr"
    by (simp only: same_page_between [OF al]) simp
  from map(4) [OF v this] False show ?thesis by auto
qed

lemma identity_next_page:
  assumes "addr AND 0xfff = 0" and "addr + (PAGE_SIZE - 1) \<le> PADDR_MAX"
  shows "unat (addr + PAGE_SIZE) = unat addr + 4096" and "(addr + PAGE_SIZE) AND 0xfff = 0"
    and "unat (addr + PAGE_SIZE) \<le> 0xf00000"
proof -
  note lt = mappable_identity(2) [OF assms]
  then show eq: "unat (addr + PAGE_SIZE) = unat addr + 4096"
    by (simp add: PAGE_SIZE_def) (subst unat_add_no_overflow; simp)
  show "(addr + PAGE_SIZE) AND 0xfff = 0"
    using assms(1) unfolding aligned_iff_unat eq by simp
  from assms(1) obtain q where "unat addr = 4096 * q"
    by (rule aligned_obtain)
  with lt show "unat (addr + PAGE_SIZE) \<le> 0xf00000"
    unfolding eq by simp
qed

lemma identity_last_page:
  assumes "addr AND 0xfff = 0" and "unat addr \<le> 0xf00000"
    and "\<not> addr + (PAGE_SIZE - 1) \<le> PADDR_MAX"
  shows "unat addr = 0xf00000"
proof (rule ccontr)
  assume "unat addr \<noteq> 0xf00000"
  moreover from assms(1) obtain q where "unat addr = 4096 * q"
    by (rule aligned_obtain)
  ultimately have "unat addr + 4096 \<le> 0xf00000"
    using assms(2) by simp
  then have "unat (addr + 4095) \<le> 0xefffff"
    by (subst unat_add_no_overflow) simp_all
  with assms(3) show False
    by (simp add: PAGE_SIZE_def PADDR_MAX_def word_le_nat_alt)
qed

lemma setup_identity_from_spec:
  "mmu_inv m \<Longrightarrow> addr AND 0xfff = 0 \<Longrightarrow> unat addr \<le> 0xf00000 \<Longrightarrow>
   \<exists>d t. setup_identity_from addr m = (0, with_tables d t m) \<and> mmu_inv (with_tables d t m) \<and>
     (\<forall>v. vaddr2pd_idx v \<noteq> 0x3ff \<longrightarrow> lookup_walk (with_tables d t m) v =
        (if unat addr \<le> unat v \<and> unat v < 0xf00000 then Some v else lookup_walk m v))"
proof (induction addr m rule: setup_identity_from.induct)
  case (1 addr m)
  show ?case
  proof (cases "addr + (PAGE_SIZE - 1) \<le> PADDR_MAX")
    case False
    from identity_last_page [OF "1.prems"(2,3) False] False "1.prems"(1) show ?thesis
      by (intro exI [of _ "pd m"] exI [of _ "pts m"])
        (auto simp: setup_identity_from.simps [of addr m] with_tables_self)
  next
    case True
    obtain rc m1 where step: "paging_map addr addr True m = (rc, m1)"
      by (cases "paging_map addr addr True m")
    note map = paging_map_lookup [OF "1.prems"(1) mappable_identity(1) [OF "1.prems"(2) True]
        "1.prems"(2) "1.prems"(2) step]
    note nxt = identity_next_page [OF "1.prems"(2) True]
    from "1.IH" [OF True refl step [symmetric] _ map(2) nxt(2,3)] map(1)
    obtain d t where rest: "setup_identity_from (addr + PAGE_SIZE) m1 = (0, with_tables d t m1)"
      "mmu_inv (with_tables d t m1)"
      "\<And>v. vaddr2pd_idx v \<noteq> 0x3ff \<Longrightarrow> lookup_walk (with_tables d t m1) v =
        (if unat (addr + PAGE_SIZE) \<le> unat v \<and> unat v < 0xf00000 then Some v else lookup_walk m1 v)"
      by auto
    from map(5) obtain d1 t1 where m1: "m1 = with_tables d1 t1 m" by blast
    have "lookup_walk (with_tables d t m1) v =
        (if unat addr \<le> unat v \<and> unat v < 0xf00000 then Some v else lookup_walk m v)"
      if v: "vaddr2pd_idx v \<noteq> 0x3ff" for v
      using rest(3) [OF v] identity_page_lookup [OF "1.prems"(1,2) True step v] nxt(1,3) by auto
    with rest(1,2) map(1) True step m1 show ?thesis
      by (intro exI [of _ d] exI [of _ t]) (simp add: setup_identity_from.simps [of addr m])
  qed
qed

lemma cleared_inv:
  assumes "layout_ok m"
  shows "mmu_inv (m\<lparr>pd := replicate 1024 pde_bzero, cr3 := pd_addr m,
            pts := replicate 5120 pte_bzero\<rparr>)" (is "mmu_inv ?m")
    and "lookup_walk (m\<lparr>pd := replicate 1024 pde_bzero, cr3 := pd_addr m,
            pts := replicate 5120 pte_bzero\<rparr>) v = None"
proof -
  have "table_empty ?m t" if "t < 5" for t
    using that by (simp add: table_empty_def pte_bzero_def)
  then show "mmu_inv ?m"
    using assms table_idx2array_idx_less
    by (simp add: mmu_inv_def layout_ok_def pde_bzero_def)
  show "lookup_walk ?m v = None"
    using pd_idx_less [of v] by (simp add: lookup_walk_def pde_bzero_def)
qed

lemma automap_spec:
  assumes inv: "mmu_inv m"
  shows "\<exists>d. page_dir_automap (pd_addr m) (pd m) = (0, d) \<and> mmu_inv (m\<lparr>pd := d\<rparr>) \<and>
    pde_present (d ! 1023) \<and>
    (\<forall>v. vaddr2pd_idx v \<noteq> 0x3ff \<longrightarrow> lookup_walk (m\<lparr>pd := d\<rparr>) v = lookup_walk m v)"
proof -
  define d where "d = (pd m)[1023 := (pd m ! 1023)\<lparr>pde_paddr := ucast (drop_bit 12 (pd_addr m)),
     pde_zero := 0, pde_cache_disabled := True, pde_write := True, pde_user := False,
     pde_write_through := False, pde_present := True\<rparr>]"
  have lay: "layout_ok m" and len: "length (pd m) = 1024"
    using inv by (simp_all add: mmu_inv_def layout_ok_def)
  have "pd_addr m AND 0x3ff = (pd_addr m AND 0xfff) AND 0x3ff"
    by (simp add: and.assoc)
  then have "is_addr_page_aligned (pd_addr m)"
    using lay by (simp add: is_addr_page_aligned_def layout_ok_def)
  then have eq: "page_dir_automap (pd_addr m) (pd m) = (0, d)"
    by (simp add: page_dir_automap_def page_dir_set_entry_def pd_entry_num_is_valid_def
        PAGE_DIR_TABLE_LEN_def d_def)
  have last: "d ! 1023 = (pd m ! 1023)\<lparr>pde_paddr := ucast (drop_bit 12 (pd_addr m)),
     pde_zero := 0, pde_cache_disabled := True, pde_write := True, pde_user := False,
     pde_write_through := False, pde_present := True\<rparr>"
    and other: "k \<noteq> 1023 \<Longrightarrow> d ! k = pd m ! k" for k
    using len by (simp_all add: d_def)
  have "dir_entry_ok (m\<lparr>pd := d\<rparr>) k" if "k < 1024" "pde_present (d ! k)" for k
    using that inv last other [of k] by (cases "k = 1023") (auto simp: dir_entry_ok_def mmu_inv_def)
  moreover have "table_empty (m\<lparr>pd := d\<rparr>) (table_idx2array_idx (of_nat k))"
    if "k < 1024" "\<not> pde_present (d ! k)" "is_table_idx_implemented (of_nat k)" for k
    using that inv last other [of k] by (cases "k = 1023") (auto simp: table_empty_def mmu_inv_def)
  ultimately have "mmu_inv (m\<lparr>pd := d\<rparr>)"
    using inv len by (simp add: mmu_inv_def layout_ok_def d_def)
  moreover have "lookup_walk (m\<lparr>pd := d\<rparr>) v = lookup_walk m v" if "vaddr2pd_idx v \<noteq> 0x3ff" for v
    using that other [of "unat (vaddr2pd_idx v)"]
    by (simp add: lookup_walk_def Let_def word_unat_eq_iff)
  ultimately show ?thesis
    using eq last by auto
qed

lemma paging_init_spec:
  assumes "layout_ok m"
  shows "\<exists>m'. paging_init m = (0, m') \<and> mmu_inv m' \<and> pde_present (pd m' ! 1023) \<and>
    paging_on m' = paging_on m \<and> ram m' = ram m \<and> pd_addr m' = pd_addr m \<and> pt_addr m' = pt_addr m \<and>
    (\<forall>v. vaddr2pd_idx v \<noteq> 0x3ff \<longrightarrow>
       lookup_walk m' v = (if unat v < 0xf00000 then Some v else None))"
proof -
  let ?m1 = "m\<lparr>pd := replicate 1024 pde_bzero, cr3 := pd_addr m, pts := replicate 5120 pte_bzero\<rparr>"
  from setup_identity_from_spec [OF cleared_inv(1) [OF assms], of 0]
  obtain d t where id: "setup_identity ?m1 = (0, with_tables d t ?m1)"
    "mmu_inv (with_tables d t ?m1)"
    "\<And>v. vaddr2pd_idx v \<noteq> 0x3ff \<Longrightarrow> lookup_walk (with_tables d t ?m1) v =
        (if unat v < 0xf00000 then Some v else None)"
    by (auto simp: setup_identity_def cleared_inv(2) [OF assms])
  from automap_spec [OF id(2)] obtain d2 where au:
    "page_dir_automap (pd_addr m) d = (0, d2)" "mmu_inv ((with_tables d t ?m1)\<lparr>pd := d2\<rparr>)"
    "pde_present (d2 ! 1023)"
    "\<And>v. vaddr2pd_idx v \<noteq> 0x3ff \<Longrightarrow>
       lookup_walk ((with_tables d t ?m1)\<lparr>pd := d2\<rparr>) v = lookup_walk (with_tables d t ?m1) v"
    by auto
  have "paging_init m = (0, (with_tables d t ?m1)\<lparr>pd := d2\<rparr>)"
    using assms id(1) au(1)
    by (simp add: paging_init_def layout_ok_def page_dir_init_eq page_tables_init_eq)
  then show ?thesis
    using id(3) au by (intro exI [of _ "(with_tables d t ?m1)\<lparr>pd := d2\<rparr>"]) simp
qed


section \<open>Unmapping\<close>

lemma paging_unmap_spec:
  assumes inv: "mmu_inv m" and al: "is_addr_page_aligned va" and impl: "is_table_idx_implemented (vaddr2pd_idx va)"
  shows "\<exists>m'. paging_unmap va m = (0, m') \<and> mmu_inv m' \<and> ram m' = ram m \<and>
    pd m' = pd m \<and> paging_on m' = paging_on m \<and> pd_addr m' = pd_addr m \<and> pt_addr m' = pt_addr m \<and>
    (\<forall>v. vaddr2pd_idx v \<noteq> 0x3ff \<longrightarrow>
       lookup_walk m' v = (if drop_bit 12 v = drop_bit 12 va then None else lookup_walk m v))"
proof (cases "pde_present (pd m ! unat (vaddr2pd_idx va))")
  case False
  then have "paging_unmap va m = (0, m)"
    using al pd_idx_less [of va]
    by (simp add: paging_unmap_def page_dir_entry_is_present_small Let_def)
  with False inv show ?thesis
    by (auto simp: same_page_iff lookup_walk_def)
next
  case True
  let ?m' = "with_tables (pd m) ((pts m)[pt_slot va := pte_bzero]) m"
  have run: "paging_unmap va m = (0, ?m')"
    using al impl True pd_idx_less [of va]
    by (simp add: paging_unmap_def page_dir_entry_is_present_small page_tables_clear_entry_def
        PAGE_TABLE_LEN_def reset_mmu_cache_def with_tables_def Let_def)
  have dir: "dir_installed (vaddr2pd_idx va) m = pd m"
    using True by (simp add: dir_installed_def)
  have "mmu_inv ?m'"
    using mmu_inv_map [OF inv impl, of pte_bzero] by (simp add: dir)
  moreover have "lookup_walk ?m' v = (if drop_bit 12 v = drop_bit 12 va then None else lookup_walk m v)"
    if v: "vaddr2pd_idx v \<noteq> 0x3ff" for v
  proof (cases "drop_bit 12 v = drop_bit 12 va")
    case True
    then show ?thesis
      using v inv pt_slot_less [of va]
      by (simp add: same_page_iff lookup_walk_def Let_def pte_bzero_def mmu_inv_def layout_ok_def)
  next
    case False
    then have "\<not> pde_present (pd m ! unat (vaddr2pd_idx v)) \<or> pt_slot va \<noteq> pt_slot v"
      using slot_neq_of_page [OF inv impl v False] by blast
    with False v show ?thesis
      by (auto simp: lookup_walk_def Let_def)
  qed
  ultimately show ?thesis
    using run by auto
qed


section \<open>Translation through the self-mapping\<close>

lemma window_address:
  assumes i: "unat i < 1024" and j: "unat j < 1024"
  defines "a \<equiv> (0xffc00000 OR push_bit 12 i) + 4 * j"
  shows "vaddr2pd_idx a = 0x3ff" and "vaddr2pt_idx a = i" and "a AND 0xfff = 4 * j"
proof -
  let ?b = "0xffc00000 OR push_bit 12 i :: u32"
  have i10: "take_bit 10 i = i"
    using word_and_3ff_id [OF i] by (simp add: word_and_mask_take_bit)
  then have b: "n < 10" if "bit i n" for n
    using that by (metis bit_take_bit_iff)
  then have "drop_bit 22 (push_bit 12 i) = 0"
    by (intro bit_eqI) (auto simp: bit_simps dest: b)
  then have pd: "vaddr2pd_idx ?b = 0x3ff"
    by (simp add: vaddr2pd_idx_def)
  have "drop_bit 12 (push_bit 12 i) = i"
    by (intro bit_eqI) (auto simp: bit_simps dest: b)
  then have pt: "vaddr2pt_idx ?b = i"
    using i10 by (simp add: vaddr2pt_idx_def word_and_mask_take_bit)
  have al: "?b AND 0xfff = 0"
    by (simp add: word_and_mask_take_bit take_bit_push_bit)
  have lt: "unat (4 * j) < 4096"
    using j by (simp add: unat_times4)
  show "vaddr2pd_idx a = 0x3ff" "vaddr2pt_idx a = i"
    using aligned_add_page(1) [OF al lt] pd pt unfolding a_def same_page_iff by simp_all
  show "a AND 0xfff = 4 * j"
    using aligned_add_page(2) [OF al lt] unfolding a_def .
qed

lemma virt_read32_window:
  assumes inv: "mmu_inv m" and on: "paging_on m" and self: "pde_present (pd m ! 1023)"
    and i: "unat i < 1024" and j: "unat j < 1024" and pr: "pde_present (pd m ! unat i)"
  shows "virt_read32 m ((0xffc00000 OR push_bit 12 i) + 4 * j)
    = Some (phys_read32 m (push_bit 12 (ucast (pde_paddr (pd m ! unat i))) + 4 * j))"
proof -
  let ?a = "(0xffc00000 OR push_bit 12 i) + 4 * j"
  note win = window_address [OF i j]
  have al: "(push_bit 12 (ucast (pde_paddr (pd m ! unat i))) :: u32) AND 0xfff = 0"
    by (simp add: word_and_mask_take_bit take_bit_push_bit)
  have "mmu_walk m ?a = Some (push_bit 12 (ucast (pde_paddr (pd m ! unat i))) OR 4 * j)"
    using on self pr
    by (simp add: mmu_walk_def walk_tables_eq [OF inv] lookup_walk_def win frame_of_def Let_def)
  also have "push_bit 12 (ucast (pde_paddr (pd m ! unat i))) OR 4 * j
      = push_bit 12 (ucast (pde_paddr (pd m ! unat i))) + 4 * j"
    using aligned_or(3) [OF al, of "4 * j"] j by (simp add: unat_times4)
  finally show ?thesis
    by (simp add: virt_read32_def)
qed

lemma paging_vaddr2paddr_spec:
  assumes inv: "mmu_inv m" and on: "paging_on m" and self: "pde_present (pd m ! 1023)"
  shows "paging_vaddr2paddr va m = Some (case mmu_walk m va of None \<Rightarrow> 0 | Some pa \<Rightarrow> pa)"
proof -
  let ?i = "drop_bit 22 va" and ?j = "drop_bit 12 va AND 0x3ff"
  have i: "unat ?i < 1024" and j: "unat ?j < 1024"
    using pd_idx_less [of va] pt_idx_less [of va] by (simp_all add: vaddr2pd_idx_def vaddr2pt_idx_def)
  have c: "cr3 m = pd_addr m" and lay: "layout_ok m"
    using inv by (simp_all add: mmu_inv_def)
  have "dir_entry_ok m 1023"
    using inv self by (simp add: mmu_inv_def)
  then have "pde_paddr (pd m ! 1023) = ucast (drop_bit 12 (pd_addr m))"
    by (auto simp: dir_entry_ok_def is_table_idx_implemented_def NUM_PAGE_TABLES_def)
  then have first: "virt_read32 m ((0xffc00000 OR push_bit 12 0x3ff) + 4 * ?i)
      = Some (phys_read32 m (cr3 m + 4 * ?i))"
    using virt_read32_window [OF inv on self, where i = "0x3ff" and j = "drop_bit 22 va"] i self lay
    by (simp add: c layout_ok_def frame_number_roundtrip)
  have second: "virt_read32 m ((0xffc00000 OR push_bit 12 ?i) + 4 * ?j)
      = Some (phys_read32 m ((phys_read32 m (cr3 m + 4 * ?i) AND NOT 0xfff) + 4 * ?j))"
    if "phys_read32 m (cr3 m + 4 * ?i) AND 1 \<noteq> 0"
  proof -
    have eq: "phys_read32 m (cr3 m + 4 * ?i) = pde_word (pd m ! unat ?i)"
      unfolding c by (rule phys_read32_pd [OF lay i])
    with that have "pde_present (pd m ! unat ?i)"
      by (simp add: pde_word_present)
    from virt_read32_window [OF inv on self i j this] show ?thesis
      unfolding eq pde_word_frame .
  qed
  show ?thesis
    unfolding paging_vaddr2paddr_def Let_def first option.case
    using on second by (simp add: mmu_walk_def walk_tables_def Let_def)
qed


section \<open>The memory interface the loader uses\<close>

lemma paging_map_cases:
  assumes "mmu_inv m" and "paging_map va pa w m = (rc, m')"
  obtains (fail) "rc = 1" "m' = m" "\<not> mappable va pa"
  | (ok) d t where "rc = 0" "m' = with_tables d t m" "mmu_inv m'" "mappable va pa"
proof (cases "mappable va pa")
  case True
  then have "is_table_idx_implemented (vaddr2pd_idx va)"
    by (simp add: mappable_def)
  with ok True show ?thesis
    using assms mmu_inv_map [OF assms(1)] paging_map_mappable [OF assms(1) True, of w]
    by (metis Pair_inject)
next
  case False
  with fail assms paging_map_not_mappable [OF assms(1) False, of w] show ?thesis by simp
qed

definition mmu_ready :: "mmu \<Rightarrow> bool" where
  "mmu_ready m \<longleftrightarrow> mmu_inv m \<and> paging_on m"

lemma in_tables_with_tables [simp]: "in_tables (with_tables d t m) = in_tables m"
  by (simp add: fun_eq_iff in_tables_def in_pd_def in_pts_def)

lemma mmu_ready_ram [simp]:
  "mmu_ready (m\<lparr>ram := r\<rparr>) = mmu_ready m"
  by (simp add: mmu_ready_def mmu_inv_def layout_ok_def dir_entry_ok_def table_empty_def)

lemma mmu_walk_lookup: "mmu_ready m \<Longrightarrow> mmu_walk m v = lookup_walk m v"
  by (simp add: mmu_ready_def mmu_walk_def walk_tables_eq)

lemma lookup_walk_ram [simp]: "lookup_walk (m\<lparr>ram := r\<rparr>) = lookup_walk m"
  by (simp add: fun_eq_iff lookup_walk_def Let_def)

lemma map_ready_cases:
  assumes "mmu_ready m" and "paging_map va pa w m = (rc, m')"
  shows "mmu_ready m' \<and> ram m' = ram m \<and> in_tables m' = in_tables m \<and>
    (rc = 0 \<and> mappable va pa \<or> rc = 1 \<and> m' = m \<and> \<not> mappable va pa)"
proof -
  from assms(1) have "mmu_inv m" "paging_on m"
    by (simp_all add: mmu_ready_def)
  from this(1) assms(2) show ?thesis
  proof (cases rule: paging_map_cases)
    case fail
    with assms(1) show ?thesis by simp
  next
    case (ok d t)
    with \<open>paging_on m\<close> have "mmu_ready m'"
      unfolding mmu_ready_def by simp
    with ok show ?thesis by simp
  qed
qed

interpretation pmem: paged_memory paging_map virt_read8 virt_write8 mmu_walk ram
    "\<lambda>m a. \<not> in_tables m a" mappable mmu_ready
proof
  fix s s' :: mmu and v p u k :: u32 and w :: bool and rc :: int and b :: u8
  show "rc = 0 \<longleftrightarrow> mappable v p" if "mmu_ready s" "paging_map v p w s = (rc, s')"
    using map_ready_cases [OF that] by auto
  show "mmu_ready s' \<and> ram s' = ram s \<and> (\<lambda>a. \<not> in_tables s' a) = (\<lambda>a. \<not> in_tables s a)"
    if "mmu_ready s" "paging_map v p w s = (rc, s')"
    using that by (metis map_ready_cases)
  show "s' = s" if "mmu_ready s" "paging_map v p w s = (rc, s')" "rc \<noteq> 0"
    using that by (metis map_ready_cases)
  show "mmu_walk s' (v + k) = Some (p + k)"
    if "mmu_ready s" "paging_map v p w s = (0, s')" "v AND 0xfff = 0" "p AND 0xfff = 0" "unat k < 4096"
  proof -
    from that(1,2) have "mappable v p" "mmu_ready s'"
      by (metis map_ready_cases zero_neq_one)+
    with that paging_map_lookup(3) [of s v p w 0 s' k] show ?thesis
      by (simp add: mmu_walk_lookup) (simp add: mmu_ready_def)
  qed
  show "mmu_walk s' u = mmu_walk s u"
    if "mmu_ready s" "paging_map v p w s = (0, s')" "v AND 0xfff = 0" "p AND 0xfff = 0"
      "drop_bit 22 u \<noteq> 0x3ff" "drop_bit 12 u \<noteq> drop_bit 12 v"
  proof -
    from that(1,2) have "mappable v p" "mmu_ready s'"
      by (metis map_ready_cases zero_neq_one)+
    with that paging_map_lookup(4) [of s v p w 0 s' u] show ?thesis
      by (simp add: mmu_walk_lookup vaddr2pd_idx_def) (simp add: mmu_ready_def)
  qed
  show "drop_bit 22 v \<noteq> 0x3ff" if "mmu_ready s" "paging_map v p w s = (0, s')"
  proof -
    from that have "mappable v p"
      by (metis map_ready_cases zero_neq_one)
    then show ?thesis
      by (auto simp: mappable_def is_table_idx_implemented_def NUM_PAGE_TABLES_def vaddr2pd_idx_def)
  qed
  show "virt_read8 v s = Some (ram s p)" if "mmu_walk s v = Some p" "\<not> in_tables s p"
    using that by (simp add: virt_read8_def phys_read8_def)
  show "\<exists>s'. virt_write8 v b s = Some s' \<and> mmu_ready s' \<and> ram s' = (ram s)(p := b) \<and>
      mmu_walk s' = mmu_walk s \<and> (\<lambda>a. \<not> in_tables s' a) = (\<lambda>a. \<not> in_tables s a)"
    if "mmu_ready s" "mmu_walk s v = Some p" "\<not> in_tables s p"
    using that
    by (simp add: virt_write8_def fun_eq_iff mmu_walk_lookup)
      (simp add: in_tables_def in_pd_def in_pts_def)
qed

section \<open>Properties\<close>

text \<open>A state after the linker has placed the two arrays; the contents are arbitrary.\<close>

definition sample_mmu :: mmu where
  "sample_mmu = \<lparr>pd = replicate 1024 pde_bzero, pts = replicate 5120 pte_bzero,
     pd_addr = 0x10000, pt_addr = 0x20000, cr3 = 0x10000, paging_on = True, ram = (\<lambda>_. 0)\<rparr>"

lemma sample_mmu_layout: "layout_ok sample_mmu"
  by (simp add: layout_ok_def sample_mmu_def)

lemma sample_mmu_ready: "mmu_ready sample_mmu"
proof -
  have eq: "sample_mmu = sample_mmu\<lparr>pd := replicate 1024 pde_bzero, cr3 := pd_addr sample_mmu,
            pts := replicate 5120 pte_bzero\<rparr>"
    by (simp add: sample_mmu_def)
  have "mmu_inv sample_mmu"
    by (subst eq) (rule cleared_inv(1) [OF sample_mmu_layout])
  then show ?thesis
    by (simp add: mmu_ready_def) (simp add: sample_mmu_def)
qed


lemma sample_mmu_inv: "mmu_inv sample_mmu"
  using sample_mmu_ready by (simp add: mmu_ready_def)

text \<open>C9. \<open>paging_init\<close> succeeds from any initial contents of the two arrays and leaves, once
  paging is enabled, exactly the identity map of the first 15 MiB outside the self-mapping window of
  the last directory entry.\<close>

theorem paging_init_identity:
  assumes "layout_ok m"
  shows "\<exists>m'. paging_init m = (0, m') \<and> mmu_inv m' \<and> ram m' = ram m \<and>
    (\<forall>v. vaddr2pd_idx v \<noteq> 0x3ff \<longrightarrow>
       mmu_walk (paging_enable m') v = (if v \<le> PADDR_MAX then Some v else None))"
proof -
  from paging_init_spec [OF assms] obtain m' where m': "paging_init m = (0, m')" "mmu_inv m'"
      "ram m' = ram m" and look: "\<And>v. vaddr2pd_idx v \<noteq> 0x3ff \<Longrightarrow>
        lookup_walk m' v = (if unat v < 0xf00000 then Some v else None)"
    by blast
  have "mmu_ready (paging_enable m')"
    using m'(2) by (simp add: mmu_ready_def paging_enable_def mmu_inv_def layout_ok_def
        dir_entry_ok_def table_empty_def)
  then have "mmu_walk (paging_enable m') v = lookup_walk m' v" for v
    by (simp add: mmu_walk_lookup) (simp add: paging_enable_def lookup_walk_def Let_def)
  with m' look show ?thesis
    by (auto simp: PADDR_MAX_def word_le_nat_alt)
qed

theorem paging_init_identity_witness:
  "\<exists>m'. paging_init sample_mmu = (0, m') \<and> mmu_walk (paging_enable m') 0x123456 = Some 0x123456
     \<and> mmu_walk (paging_enable m') 0xf00000 = None"
proof -
  have "vaddr2pd_idx 0x123456 \<noteq> 0x3ff" "vaddr2pd_idx 0xf00000 \<noteq> 0x3ff"
    by (simp_all add: vaddr2pd_idx_def)
  then show ?thesis
    using paging_init_identity [OF sample_mmu_layout] by (auto simp: PADDR_MAX_def)
qed

text \<open>C4. Functional behaviour of \<open>paging_map\<close> on every branch, for addresses aligned to 4 KiB.
  It succeeds exactly when the frame ends inside the managed physical memory and the virtual address
  belongs to one of the implemented page tables; then the page is translated to the frame, every other
  page outside the self-mapping window keeps its translation and memory is untouched. Otherwise it
  returns 1 and changes nothing.\<close>

theorem paging_map_correct:
  assumes ready: "mmu_ready m" and al: "va AND 0xfff = 0" "pa AND 0xfff = 0"
    and run: "paging_map va pa w m = (rc, m')"
  shows "(rc = 0 \<longleftrightarrow> pa + (PAGE_SIZE - 1) \<le> PADDR_MAX \<and> is_table_idx_implemented (vaddr2pd_idx va)) \<and>
    (rc = 0 \<longrightarrow> mmu_ready m' \<and> ram m' = ram m \<and>
       (\<forall>k. unat k < 4096 \<longrightarrow> mmu_walk m' (va + k) = Some (pa + k)) \<and>
       (\<forall>v. vaddr2pd_idx v \<noteq> 0x3ff \<longrightarrow> drop_bit 12 v \<noteq> drop_bit 12 va \<longrightarrow>
          mmu_walk m' v = mmu_walk m v)) \<and>
    (rc \<noteq> 0 \<longrightarrow> rc = 1 \<and> m' = m)"
proof -
  have "is_addr_page_aligned x" if "x AND 0xfff = 0" for x
    unfolding is_addr_page_aligned_def using that by (rule aligned_page_1k)
  with al have "mappable va pa \<longleftrightarrow>
      pa + (PAGE_SIZE - 1) \<le> PADDR_MAX \<and> is_table_idx_implemented (vaddr2pd_idx va)"
    by (simp add: mappable_def add_diff_eq)
  moreover note cases = map_ready_cases [OF ready run]
  moreover have "mmu_walk m' (va + k) = Some (pa + k)" if "rc = 0" "unat k < 4096" for k
    using run that pmem.map_hit [OF ready _ al] by blast
  moreover have "mmu_walk m' v = mmu_walk m v"
    if "rc = 0" "vaddr2pd_idx v \<noteq> 0x3ff" "drop_bit 12 v \<noteq> drop_bit 12 va" for v
    using run that pmem.map_miss [OF ready _ al, of w m' v] unfolding vaddr2pd_idx_def by blast
  ultimately show ?thesis by auto
qed

theorem paging_map_correct_witness:
  "\<exists>m'. paging_map 0xc0000000 0x200000 True sample_mmu = (0, m') \<and>
     mmu_walk m' 0xc0000123 = Some 0x200123 \<and> mmu_walk m' 0xc0001000 = None"
proof -
  obtain rc m' where run: "paging_map 0xc0000000 0x200000 True sample_mmu = (rc, m')"
    by (cases "paging_map 0xc0000000 0x200000 True sample_mmu")
  have al: "(0xc0000000 :: u32) AND 0xfff = 0" "(0x200000 :: u32) AND 0xfff = 0" by simp_all
  note correct = paging_map_correct [OF sample_mmu_ready al run]
  have rc: "rc = 0"
    using correct by (simp add: PAGE_SIZE_def PADDR_MAX_def is_table_idx_implemented_def vaddr2pd_idx_def)
  moreover have "mmu_walk m' (0xc0000000 + 0x123) = Some (0x200000 + 0x123)"
  proof -
    have "unat (0x123 :: u32) < 4096" by simp
    with correct rc show ?thesis by blast
  qed
  then have "mmu_walk m' 0xc0000123 = Some 0x200123"
    by simp
  moreover have "mmu_walk m' 0xc0001000 = mmu_walk sample_mmu 0xc0001000"
    using correct rc by (auto simp: vaddr2pd_idx_def)
  moreover have "mmu_walk sample_mmu 0xc0001000 = None"
    by (simp add: mmu_walk_lookup [OF sample_mmu_ready] lookup_walk_def vaddr2pd_idx_def)
      (simp add: sample_mmu_def pde_bzero_def)
  ultimately show ?thesis
    using run by simp
qed

text \<open>\<open>is_addr_page_aligned\<close> tests ten bits instead of twelve, so \<open>paging_map\<close> accepts
  the frame address \<open>0xfffff400\<close>: the sum in its range check wraps around, the call succeeds, and
  the page is mapped to the last frame of the address space, far above \<open>PADDR_MAX\<close>.\<close>

theorem paging_map_accepts_misaligned_frame:
  assumes "mmu_ready m" and "va AND 0xfff = 0" and "is_table_idx_implemented (vaddr2pd_idx va)"
  shows "\<exists>m'. paging_map va 0xfffff400 w m = (0, m') \<and> mmu_walk m' va = Some 0xfffff000 \<and>
    \<not> (0xfffff000 :: u32) \<le> PADDR_MAX"
proof -
  have inv: "mmu_inv m"
    using assms(1) by (simp add: mmu_ready_def)
  have ok: "mappable va 0xfffff400"
    using assms(3) aligned_page_1k [OF assms(2)]
    by (simp add: mappable_def is_addr_page_aligned_def PAGE_SIZE_def PADDR_MAX_def)
  let ?m' = "with_tables (dir_installed (vaddr2pd_idx va) m)
          ((pts m)[pt_slot va := mapped_entry 0xfffff400 w (pts m ! pt_slot va)]) m"
  have v: "vaddr2pd_idx va \<noteq> 0x3ff"
    using assms(3) by (auto simp: is_table_idx_implemented_def NUM_PAGE_TABLES_def)
  have "frame_of (ucast (drop_bit 12 (0xfffff400 :: u32))) va = 0xfffff000"
    using assms(2) by (simp add: frame_of_def)
  then have "lookup_walk ?m' va = Some 0xfffff000"
    by (simp add: lookup_walk_map [OF inv assms(3) v])
  moreover have "mmu_ready ?m'"
    using mmu_inv_map [OF inv assms(3)] assms(1) by (simp add: mmu_ready_def)
  ultimately show ?thesis
    using paging_map_mappable [OF inv ok, of w] by (simp add: mmu_walk_lookup PADDR_MAX_def)
qed

theorem paging_map_accepts_misaligned_frame_witness:
  "\<exists>m'. paging_map 0 0xfffff400 True sample_mmu = (0, m') \<and> mmu_walk m' 0 = Some 0xfffff000"
  using paging_map_accepts_misaligned_frame [OF sample_mmu_ready, of 0 True]
  by (simp add: is_table_idx_implemented_def vaddr2pd_idx_def NUM_PAGE_TABLES_def) blast

text \<open>After a successful \<open>paging_unmap\<close> the page faults and all other pages outside the
  window keep their translation; the call fails only for an unaligned address or for a directory
  entry that is present without one of the five tables behind it.\<close>

theorem paging_unmap_correct:
  assumes "mmu_ready m" and "is_addr_page_aligned va" and "is_table_idx_implemented (vaddr2pd_idx va)"
  shows "\<exists>m'. paging_unmap va m = (0, m') \<and> mmu_ready m' \<and> ram m' = ram m \<and>
    (\<forall>v. vaddr2pd_idx v \<noteq> 0x3ff \<longrightarrow>
       mmu_walk m' v = (if drop_bit 12 v = drop_bit 12 va then None else mmu_walk m v))"
proof -
  from paging_unmap_spec [OF _ assms(2,3)] assms(1) obtain m' where
    m': "paging_unmap va m = (0, m')" "mmu_inv m'" "ram m' = ram m" "paging_on m' = paging_on m"
      "\<forall>v. vaddr2pd_idx v \<noteq> 0x3ff \<longrightarrow>
       lookup_walk m' v = (if drop_bit 12 v = drop_bit 12 va then None else lookup_walk m v)"
    by (auto simp: mmu_ready_def)
  then have "mmu_ready m'"
    using assms(1) by (simp add: mmu_ready_def)
  with m' assms(1) show ?thesis
    by (simp add: mmu_walk_lookup)
qed

theorem paging_unmap_correct_witness:
  "\<exists>m'. paging_unmap 0 sample_mmu = (0, m') \<and> mmu_walk m' 0x800 = None"
proof -
  have "drop_bit 12 (0x800 :: u32) = 0" "vaddr2pd_idx 0x800 \<noteq> 0x3ff"
    by (simp_all add: vaddr2pd_idx_def)
  then show ?thesis
    using paging_unmap_correct [OF sample_mmu_ready, of 0]
    by (auto simp: is_addr_page_aligned_def is_table_idx_implemented_def vaddr2pd_idx_def
        NUM_PAGE_TABLES_def)
qed

text \<open>C10. With the self-mapping installed, \<open>paging_vaddr2paddr\<close> never faults and computes the
  translation the processor performs, for every virtual address; it returns 0 where the processor
  would fault.\<close>

theorem paging_vaddr2paddr_correct:
  assumes "mmu_ready m" and "pde_present (pd m ! 1023)"
  shows "paging_vaddr2paddr va m = Some (case mmu_walk m va of None \<Rightarrow> 0 | Some pa \<Rightarrow> pa)"
  using assms by (intro paging_vaddr2paddr_spec) (simp_all add: mmu_ready_def)

theorem paging_vaddr2paddr_correct_witness:
  "\<exists>m'. paging_init sample_mmu = (0, m') \<and> paging_vaddr2paddr 0x123456 m' = Some 0x123456"
proof -
  from paging_init_spec [OF sample_mmu_layout] obtain m' where
    m': "paging_init sample_mmu = (0, m')" "mmu_inv m'" "pde_present (pd m' ! 1023)"
      "paging_on m' = paging_on sample_mmu"
      "\<forall>v. vaddr2pd_idx v \<noteq> 0x3ff \<longrightarrow> lookup_walk m' v = (if unat v < 0xf00000 then Some v else None)"
    by blast
  then have ready: "mmu_ready m'"
    by (simp add: mmu_ready_def) (simp add: sample_mmu_def)
  have "mmu_walk m' 0x123456 = Some 0x123456"
    using m'(5) by (simp add: mmu_walk_lookup [OF ready] vaddr2pd_idx_def)
  moreover have "paging_vaddr2paddr 0x123456 m' =
      Some (case mmu_walk m' 0x123456 of None \<Rightarrow> 0 | Some pa \<Rightarrow> pa)"
    by (rule paging_vaddr2paddr_correct [OF ready m'(3)])
  ultimately show ?thesis
    using m'(1) by simp
qed

end
