(* ===== verification/Elf32.thy ===== *)
theory Elf32
  imports Mem_Interface Page_Dir
begin

text \<open>
  The ELF loader \<open>lib/elf32.c\<close>. Every access to the image and to the loaded segments is a byte
  access at a virtual address through the operations \<open>ld\<close> (load), \<open>st\<close> (store) and \<open>mp\<close>
  (\<open>paging_map\<close>) on a memory state, as in the code: the headers are read again whenever the code
  reads them, after the stores of earlier segments. \<open>None\<close> is a page fault. The static
  \<open>_str_error\<close> is an \<open>elf_error\<close> passed through; its constructors are the messages.
\<close>

section \<open>Constants and messages\<close>

datatype elf_error =
    Unknown_error
  | Invalid_magic
  | Not_32bit
  | Not_little_endian
  | Not_386
  | Not_executable
  | Paddr_not_aligned u32
  | Vaddr_not_aligned u32
  | Paddr_out_of_range u32
  | Vaddr_out_of_range u32
  | Mapping_file_page_failed
  | Mapping_zero_page_failed
  | Too_much_memory u32

definition ELF_MAG0 :: u8 where "ELF_MAG0 = 0x7f"
definition ELF_MAG1 :: u8 where "ELF_MAG1 = 0x45"
definition ELF_MAG2 :: u8 where "ELF_MAG2 = 0x4c"
definition ELF_MAG3 :: u8 where "ELF_MAG3 = 0x46"
definition ELF_DATA_LITTLE :: u8 where "ELF_DATA_LITTLE = 1"
definition ELF_CLASS_32 :: u8 where "ELF_CLASS_32 = 1"
definition ELF_TYPE_EXEC :: u16 where "ELF_TYPE_EXEC = 2"
definition ELF_MACHINE_386 :: u16 where "ELF_MACHINE_386 = 3"
definition PT_LOAD :: u32 where "PT_LOAD = 1"
definition PF_W :: u32 where "PF_W = 2"
definition SIZEOF_PHDR :: u32 where "SIZEOF_PHDR = 32"
definition SIZEOF_SHDR :: u32 where "SIZEOF_SHDR = 40"

section \<open>Fields of the packed structs\<close>

definition ld16 :: "(u32 \<Rightarrow> 's \<Rightarrow> u8 option) \<Rightarrow> u32 \<Rightarrow> 's \<Rightarrow> u16 option" where
  "ld16 ld a s =
     (case ld a s of None \<Rightarrow> None
      | Some b0 \<Rightarrow> (case ld (a + 1) s of None \<Rightarrow> None
      | Some b1 \<Rightarrow> Some (le16 [b0, b1] 0)))"

definition ld32 :: "(u32 \<Rightarrow> 's \<Rightarrow> u8 option) \<Rightarrow> u32 \<Rightarrow> 's \<Rightarrow> u32 option" where
  "ld32 ld a s =
     (case ld a s of None \<Rightarrow> None
      | Some b0 \<Rightarrow> (case ld (a + 1) s of None \<Rightarrow> None
      | Some b1 \<Rightarrow> (case ld (a + 2) s of None \<Rightarrow> None
      | Some b2 \<Rightarrow> (case ld (a + 3) s of None \<Rightarrow> None
      | Some b3 \<Rightarrow> Some (le32 [b0, b1, b2, b3] 0)))))"

text \<open>\<open>elf32_ehdr_t\<close> at address \<open>eh\<close>.\<close>

definition e_ident where "e_ident ld i eh s = ld (eh + i) s"
definition e_type where "e_type ld eh s = ld16 ld (eh + 16) s"
definition e_machine where "e_machine ld eh s = ld16 ld (eh + 18) s"
definition e_entry where "e_entry ld eh s = ld32 ld (eh + 24) s"
definition e_phoff where "e_phoff ld eh s = ld32 ld (eh + 28) s"
definition e_phentsize where "e_phentsize ld eh s = ld16 ld (eh + 42) s"
definition e_phnum where "e_phnum ld eh s = ld16 ld (eh + 44) s"
definition e_shentsize where "e_shentsize ld eh s = ld16 ld (eh + 46) s"

text \<open>\<open>elf32_phdr_t\<close> at address \<open>ph\<close>.\<close>

definition p_type where "p_type ld ph s = ld32 ld ph s"
definition p_offset where "p_offset ld ph s = ld32 ld (ph + 4) s"
definition p_vaddr where "p_vaddr ld ph s = ld32 ld (ph + 8) s"
definition p_paddr where "p_paddr ld ph s = ld32 ld (ph + 12) s"
definition p_filesz where "p_filesz ld ph s = ld32 ld (ph + 16) s"
definition p_memsz where "p_memsz ld ph s = ld32 ld (ph + 20) s"
definition p_flags where "p_flags ld ph s = ld32 ld (ph + 24) s"

definition get_progtab where
  "get_progtab ld eh s = map_option (\<lambda>off. eh + off) (e_phoff ld eh s)"

definition progseg_is_loadable where
  "progseg_is_loadable ld ph s = map_option (\<lambda>t. t = PT_LOAD) (p_type ld ph s)"

definition progseg_is_writable where
  "progseg_is_writable ld ph s = map_option (\<lambda>f. f AND PF_W \<noteq> 0) (p_flags ld ph s)"

section \<open>Is the image supported?\<close>

text \<open>
  A sequence of tests of header fields: the first one that differs from the expected value decides.
\<close>

definition field_is :: "'w option \<Rightarrow> 'w \<Rightarrow> bool option" where
  "field_is f x = map_option (\<lambda>y. y = x) f"

definition and_then :: "bool option \<Rightarrow> bool option \<Rightarrow> bool option" where
  "and_then a b = (case a of None \<Rightarrow> None | Some False \<Rightarrow> Some False | Some True \<Rightarrow> b)"

definition elf_is_valid :: "(u32 \<Rightarrow> 's \<Rightarrow> u8 option) \<Rightarrow> u32 \<Rightarrow> 's \<Rightarrow> bool option" where
  "elf_is_valid ld eh s =
     and_then (field_is (e_ident ld 0 eh s) ELF_MAG0)
     (and_then (field_is (e_ident ld 1 eh s) ELF_MAG1)
     (and_then (field_is (e_ident ld 2 eh s) ELF_MAG2)
     (and_then (field_is (e_ident ld 3 eh s) ELF_MAG3)
     (and_then (field_is (e_phentsize ld eh s) (ucast SIZEOF_PHDR))
     (field_is (e_shentsize ld eh s) (ucast SIZEOF_SHDR))))))"

text \<open>One \<open>if (test fails) { _str_error = e; return false; }\<close>.\<close>

definition check_or :: "bool option \<Rightarrow> elf_error \<Rightarrow> (bool \<times> elf_error) option \<Rightarrow> (bool \<times> elf_error) option"
  where "check_or t e k = (case t of None \<Rightarrow> None | Some False \<Rightarrow> Some (False, e) | Some True \<Rightarrow> k)"

definition elf32_is_supported ::
    "(u32 \<Rightarrow> 's \<Rightarrow> u8 option) \<Rightarrow> u32 \<Rightarrow> elf_error \<Rightarrow> 's \<Rightarrow> (bool \<times> elf_error) option" where
  "elf32_is_supported ld eh err s =
     (if eh = 0 then Some (False, err)
      else
        check_or (elf_is_valid ld eh s) Invalid_magic
        (check_or (field_is (e_ident ld 4 eh s) ELF_CLASS_32) Not_32bit
        (check_or (field_is (e_ident ld 5 eh s) ELF_DATA_LITTLE) Not_little_endian
        (check_or (field_is (e_machine ld eh s) ELF_MACHINE_386) Not_386
        (check_or (field_is (e_type ld eh s) ELF_TYPE_EXEC) Not_executable
        (Some (True, err)))))))"

section \<open>Sizes and ranges\<close>

lemma phnum_bound: "i < unat (n :: u16) \<Longrightarrow> i < 65536"
  using unat_u16_bound [of n] by simp

function progsegs_memsz_from ::
    "(u32 \<Rightarrow> 's \<Rightarrow> u8 option) \<Rightarrow> u32 \<Rightarrow> u32 \<Rightarrow> nat \<Rightarrow> u32 \<Rightarrow> 's \<Rightarrow> u32 option" where
  "progsegs_memsz_from ld eh phdr i sum_memsz s =
     (case e_phnum ld eh s of
        None \<Rightarrow> None
      | Some n \<Rightarrow>
          if \<not> i < unat n then Some sum_memsz
          else (case progseg_is_loadable ld phdr s of
                  None \<Rightarrow> None
                | Some False \<Rightarrow>
                    progsegs_memsz_from ld eh (phdr + SIZEOF_PHDR) (Suc i) sum_memsz s
                | Some True \<Rightarrow>
                    (case p_memsz ld phdr s of
                       None \<Rightarrow> None
                     | Some sz \<Rightarrow>
                         progsegs_memsz_from ld eh (phdr + SIZEOF_PHDR) (Suc i) (sum_memsz + sz) s)))"
  by pat_completeness auto

termination
  by (relation "measure (\<lambda>(ld, eh, phdr, i, sum, s). 65536 - i)") (auto dest: phnum_bound)

declare progsegs_memsz_from.simps [simp del]

definition progsegs_get_memsz :: "(u32 \<Rightarrow> 's \<Rightarrow> u8 option) \<Rightarrow> u32 \<Rightarrow> 's \<Rightarrow> u32 option" where
  "progsegs_get_memsz ld eh s =
     (case get_progtab ld eh s of
        None \<Rightarrow> None
      | Some phdr \<Rightarrow> if phdr = 0 then Some 0 else progsegs_memsz_from ld eh phdr 0 0 s)"

definition is_paddr_in_valid_range :: "u32 \<Rightarrow> u32 \<Rightarrow> bool" where
  "is_paddr_in_valid_range paddr memsz \<longleftrightarrow> \<not> paddr + memsz > KERNEL_PADDR_MAX"

definition is_vaddr_in_valid_range :: "u32 \<Rightarrow> u32 \<Rightarrow> bool" where
  "is_vaddr_in_valid_range vaddr memsz \<longleftrightarrow> \<not> vaddr + memsz > KERNEL_VADDR_MAX"

definition valid_progseg :: "u32 \<Rightarrow> u32 \<Rightarrow> u32 \<Rightarrow> elf_error \<Rightarrow> bool \<times> elf_error" where
  "valid_progseg paddr vaddr memsz err =
     (if \<not> is_addr_page_aligned paddr then (False, Paddr_not_aligned paddr)
      else if \<not> is_addr_page_aligned vaddr then (False, Vaddr_not_aligned vaddr)
      else if \<not> is_paddr_in_valid_range paddr memsz then (False, Paddr_out_of_range paddr)
      else if \<not> is_vaddr_in_valid_range vaddr memsz then (False, Vaddr_out_of_range vaddr)
      else (True, err))"

section \<open>Mapping and filling one segment\<close>

text \<open>
  The test at the head of both loops: a page is mapped when the destination enters it. The result
  is the return code of the mapping, 0 where none was needed.
\<close>

definition enter_page ::
    "(u32 \<Rightarrow> u32 \<Rightarrow> bool \<Rightarrow> 's \<Rightarrow> int \<times> 's) \<Rightarrow> u32 \<Rightarrow> u32 \<Rightarrow> bool \<Rightarrow> 's \<Rightarrow> int \<times> 's" where
  "enter_page mp dst paddr w s = (if dst mod PAGE_SIZE = 0 then mp dst paddr w s else (0, s))"

text \<open>
  The two loops of \<open>_map_progseg\<close>. The number of iterations is the \<open>filesz\<close> (\<open>memsz\<close>)
  counter, which is decremented to zero; the result holds the return code, the error and the values
  of \<open>memsz\<close>, \<open>paddr\<close> and \<open>dst\<close> after the loop.
\<close>

fun copy_file_bytes ::
    "(u32 \<Rightarrow> u32 \<Rightarrow> bool \<Rightarrow> 's \<Rightarrow> int \<times> 's) \<Rightarrow> (u32 \<Rightarrow> 's \<Rightarrow> u8 option) \<Rightarrow>
     (u32 \<Rightarrow> u8 \<Rightarrow> 's \<Rightarrow> 's option) \<Rightarrow> bool \<Rightarrow> nat \<Rightarrow> u32 \<Rightarrow> u32 \<Rightarrow> u32 \<Rightarrow> u32 \<Rightarrow> elf_error \<Rightarrow> 's \<Rightarrow>
     (int \<times> elf_error \<times> u32 \<times> u32 \<times> u32 \<times> 's) option" where
  "copy_file_bytes mp ld st w 0 memsz paddr dst src err s = Some (0, err, memsz, paddr, dst, s)"
| "copy_file_bytes mp ld st w (Suc filesz) memsz paddr dst src err s =
     (let (rc, s1) = enter_page mp dst paddr w s
      in if rc \<noteq> 0 then Some (1, Mapping_file_page_failed, memsz, paddr, dst, s1)
         else (case ld src s1 of
                 None \<Rightarrow> None
               | Some b \<Rightarrow>
                   (case st dst b s1 of
                      None \<Rightarrow> None
                    | Some s2 \<Rightarrow>
                        copy_file_bytes mp ld st w filesz (memsz - 1) (paddr + 1) (dst + 1) (src + 1)
                          err s2)))"

fun zero_bytes ::
    "(u32 \<Rightarrow> u32 \<Rightarrow> bool \<Rightarrow> 's \<Rightarrow> int \<times> 's) \<Rightarrow> (u32 \<Rightarrow> u8 \<Rightarrow> 's \<Rightarrow> 's option) \<Rightarrow> bool \<Rightarrow>
     nat \<Rightarrow> u32 \<Rightarrow> u32 \<Rightarrow> elf_error \<Rightarrow> 's \<Rightarrow> (int \<times> elf_error \<times> 's) option" where
  "zero_bytes mp st w 0 paddr dst err s = Some (0, err, s)"
| "zero_bytes mp st w (Suc memsz) paddr dst err s =
     (let (rc, s1) = enter_page mp dst paddr w s
      in if rc \<noteq> 0 then Some (1, Mapping_zero_page_failed, s1)
         else (case st dst 0 s1 of
                 None \<Rightarrow> None
               | Some s2 \<Rightarrow> zero_bytes mp st w memsz (paddr + 1) (dst + 1) err s2))"

definition fill_progseg ::
    "(u32 \<Rightarrow> u32 \<Rightarrow> bool \<Rightarrow> 's \<Rightarrow> int \<times> 's) \<Rightarrow> (u32 \<Rightarrow> 's \<Rightarrow> u8 option) \<Rightarrow>
     (u32 \<Rightarrow> u8 \<Rightarrow> 's \<Rightarrow> 's option) \<Rightarrow> bool \<Rightarrow> u32 \<Rightarrow> u32 \<Rightarrow> u32 \<Rightarrow> u32 \<Rightarrow> u32 \<Rightarrow> elf_error \<Rightarrow> 's \<Rightarrow>
     (int \<times> elf_error \<times> 's) option" where
  "fill_progseg mp ld st w filesz memsz paddr vaddr src err s =
     (let (ok, err1) = valid_progseg paddr vaddr memsz err
      in if \<not> ok then Some (1, err1, s)
         else (case copy_file_bytes mp ld st w (unat filesz) memsz paddr vaddr src err1 s of
                 None \<Rightarrow> None
               | Some (rc, err2, memsz2, paddr2, dst, s2) \<Rightarrow>
                   if rc \<noteq> 0 then Some (1, err2, s2)
                   else zero_bytes mp st w (unat memsz2) paddr2 dst err2 s2))"

definition map_progseg ::
    "(u32 \<Rightarrow> u32 \<Rightarrow> bool \<Rightarrow> 's \<Rightarrow> int \<times> 's) \<Rightarrow> (u32 \<Rightarrow> 's \<Rightarrow> u8 option) \<Rightarrow>
     (u32 \<Rightarrow> u8 \<Rightarrow> 's \<Rightarrow> 's option) \<Rightarrow> u32 \<Rightarrow> u32 \<Rightarrow> elf_error \<Rightarrow> 's \<Rightarrow>
     (int \<times> elf_error \<times> 's) option" where
  "map_progseg mp ld st eh phdr err s =
     (case p_paddr ld phdr s of None \<Rightarrow> None
      | Some paddr \<Rightarrow> (case p_vaddr ld phdr s of None \<Rightarrow> None
      | Some vaddr \<Rightarrow> (case p_offset ld phdr s of None \<Rightarrow> None
      | Some off \<Rightarrow> (case p_filesz ld phdr s of None \<Rightarrow> None
      | Some filesz \<Rightarrow> (case p_memsz ld phdr s of None \<Rightarrow> None
      | Some memsz \<Rightarrow> (case progseg_is_writable ld phdr s of None \<Rightarrow> None
      | Some w \<Rightarrow> fill_progseg mp ld st w filesz memsz paddr vaddr (eh + off) err s))))))"

section \<open>Mapping the image\<close>

function map_progsegs_from ::
    "(u32 \<Rightarrow> u32 \<Rightarrow> bool \<Rightarrow> 's \<Rightarrow> int \<times> 's) \<Rightarrow> (u32 \<Rightarrow> 's \<Rightarrow> u8 option) \<Rightarrow>
     (u32 \<Rightarrow> u8 \<Rightarrow> 's \<Rightarrow> 's option) \<Rightarrow> u32 \<Rightarrow> u32 \<Rightarrow> nat \<Rightarrow> elf_error \<Rightarrow> 's \<Rightarrow>
     (u32 \<times> elf_error \<times> 's) option" where
  "map_progsegs_from mp ld st eh phdr i err s =
     (case e_phnum ld eh s of
        None \<Rightarrow> None
      | Some n \<Rightarrow>
          if \<not> i < unat n then map_option (\<lambda>entry. (entry, err, s)) (e_entry ld eh s)
          else (case progseg_is_loadable ld phdr s of
                  None \<Rightarrow> None
                | Some False \<Rightarrow>
                    map_progsegs_from mp ld st eh (phdr + SIZEOF_PHDR) (Suc i) err s
                | Some True \<Rightarrow>
                    (case map_progseg mp ld st eh phdr err s of
                       None \<Rightarrow> None
                     | Some (rc, err1, s1) \<Rightarrow>
                         if rc \<noteq> 0 then Some (0, err1, s1)
                         else map_progsegs_from mp ld st eh (phdr + SIZEOF_PHDR) (Suc i) err1 s1)))"
  by pat_completeness auto

termination
  by (relation "measure (\<lambda>(mp, ld, st, eh, phdr, i, err, s). 65536 - i)") (auto dest: phnum_bound)

declare map_progsegs_from.simps [simp del]

definition elf32_map ::
    "(u32 \<Rightarrow> u32 \<Rightarrow> bool \<Rightarrow> 's \<Rightarrow> int \<times> 's) \<Rightarrow> (u32 \<Rightarrow> 's \<Rightarrow> u8 option) \<Rightarrow>
     (u32 \<Rightarrow> u8 \<Rightarrow> 's \<Rightarrow> 's option) \<Rightarrow> u32 \<Rightarrow> elf_error \<Rightarrow> 's \<Rightarrow> (u32 \<times> elf_error \<times> 's) option" where
  "elf32_map mp ld st eh err s =
     (case elf32_is_supported ld eh err s of
        None \<Rightarrow> None
      | Some (False, err1) \<Rightarrow> Some (0, err1, s)
      | Some (True, err1) \<Rightarrow>
          (case get_progtab ld eh s of
             None \<Rightarrow> None
           | Some phdr \<Rightarrow>
               if phdr = 0 then Some (0, err1, s)
               else (case progsegs_get_memsz ld eh s of
                       None \<Rightarrow> None
                     | Some total_memsz \<Rightarrow>
                         if total_memsz > KERNEL_MEMSZ_MAX then Some (0, Too_much_memory total_memsz, s)
                         else map_progsegs_from mp ld st eh phdr 0 err1 s)))"

end
