(* ===== verification/Elf32_Load.thy ===== *)
theory Elf32_Load
  imports Elf32 Paging
begin

text \<open>
  Correctness of the loader: what \<open>elf32_map\<close> leaves in physical memory and in the address
  translation, proved in the interface \<open>paged_memory\<close> and instantiated at the paging code.
\<close>

section \<open>The abstract effect of loading a segment\<close>

text \<open>Physical memory after the first \<open>k\<close> bytes \<open>f 0, f 1, ...\<close> were placed at \<open>p\<close>, and the
  translation after \<open>k\<close> bytes from \<open>v\<close> on were mapped to \<open>p\<close>.\<close>

definition place :: "(nat \<Rightarrow> u8) \<Rightarrow> u32 \<Rightarrow> nat \<Rightarrow> (u32 \<Rightarrow> u8) \<Rightarrow> u32 \<Rightarrow> u8" where
  "place f p k r a = (if unat (a - p) < k then f (unat (a - p)) else r a)"

definition remap :: "u32 \<Rightarrow> u32 \<Rightarrow> nat \<Rightarrow> (u32 \<Rightarrow> u32 option) \<Rightarrow> u32 \<Rightarrow> u32 option" where
  "remap v p k t u = (if unat (u - v) < k then Some (p + (u - v)) else t u)"

definition page_ceil :: "nat \<Rightarrow> nat" where
  "page_ceil k = (k + 4095) div 4096 * 4096"

lemma page_ceil_0 [simp]: "page_ceil 0 = 0"
  by (simp add: page_ceil_def)

lemma page_ceil_eq:
  assumes "r < 4096"
  shows "page_ceil (q * 4096 + r) = (if r = 0 then q * 4096 else q * 4096 + 4096)"
proof -
  have "(q * 4096 + r + 4095) div 4096 = (if r = 0 then q else Suc q)"
    using assms by (intro div_nat_eqI) auto
  then show ?thesis by (simp add: page_ceil_def)
qed

lemma page_split: obtains q r where "(k :: nat) = q * 4096 + r" and "r < 4096"
  using that [of "k div 4096" "k mod 4096"] by simp

lemma page_ceil_ge: "k \<le> page_ceil k"
  by (rule page_split [of k]) (auto simp: page_ceil_eq)

lemma page_ceil_Suc: "page_ceil (Suc k) = (if k mod 4096 = 0 then k + 4096 else page_ceil k)"
proof (rule page_split [of k])
  fix q r assume k: "k = q * 4096 + r" "r < 4096"
  show ?thesis
  proof (cases "r = 4095")
    case True
    with k have "Suc k = Suc q * 4096 + 0" by simp
    then show ?thesis
      using k True page_ceil_eq [of 0 "Suc q"] by (simp add: page_ceil_eq)
  next
    case False
    with k have "Suc k = q * 4096 + Suc r" "Suc r < 4096" by simp_all
    then show ?thesis
      using k page_ceil_eq [of "Suc r" q] by (simp add: page_ceil_eq)
  qed
qed

lemma page_ceil_aligned: "k mod 4096 = 0 \<Longrightarrow> page_ceil k = k"
  using page_ceil_eq [of 0] by (rule_tac page_split [of k]) auto

lemma page_ceil_mono: "i \<le> k \<Longrightarrow> page_ceil i \<le> page_ceil k"
  unfolding page_ceil_def by (intro mult_le_mono1 div_le_mono) simp

lemma unat_diff_of_nat:
  assumes "n + k \<le> 4294967296" and "0 < n"
  shows "unat (x - of_nat k :: u32) < n \<longleftrightarrow> k \<le> unat x \<and> unat x < n + k"
proof -
  have k: "unat (of_nat k :: u32) = k"
    using assms by (intro unat_of_nat_u32) simp
  show ?thesis
    using assms unat_u32_bound [of x] unfolding unat_sub_u32 k by auto
qed

lemma remap_extend:
  assumes "k + 4096 \<le> 4294967296"
  shows "remap v p (k + 4096) t u =
    (if unat (u - (v + of_nat k)) < 4096 then Some (p + of_nat k + (u - (v + of_nat k)))
     else remap v p k t u)"
proof -
  have eq: "u - (v + of_nat k) = (u - v) - of_nat k"
    by simp
  show ?thesis
    using assms unfolding eq remap_def by (subst unat_diff_of_nat) auto
qed

lemma place_extend:
  assumes "k < 4294967296"
  shows "place f p (Suc k) r = (place f p k r)(p + of_nat k := f k)"
proof
  fix a
  have "unat (a - p) = k \<longleftrightarrow> a = p + of_nat k"
    using assms by (auto simp: word_unat_eq_iff [of "a - p" "of_nat k"] unat_of_nat_u32 algebra_simps
        simp flip: eq_diff_eq dest: sym)
  then show "place f p (Suc k) r a = ((place f p k r)(p + of_nat k := f k)) a"
    by (auto simp: place_def less_Suc_eq)
qed

lemma same_page_diff:
  assumes "a AND 0xfff = 0"
  shows "drop_bit 12 v = drop_bit 12 (a :: u32) \<longleftrightarrow> unat (v - a) < 4096"
proof -
  from assms obtain q where q: "unat a = 4096 * q" "q \<le> 1048575"
    by (rule aligned_obtain)
  then show ?thesis
    using unat_u32_bound [of v] unfolding same_page_between [OF assms] unat_sub_u32 by auto
qed

lemma aligned_add_nat:
  assumes "(a :: u32) AND 0xfff = 0" and "k mod 4096 = 0"
  shows "(a + of_nat k) AND 0xfff = 0"
proof -
  from assms(1) have "unat a mod 4096 = 0"
    by (simp add: aligned_iff_unat)
  then have "(unat a + k) mod 4096 = 0"
    using assms(2) by (simp add: mod_add_eq [symmetric])
  moreover have "unat (a + of_nat k) = (unat a + k) mod 4294967296"
    by (simp add: unat_word_ariths unat_of_nat take_bit_eq_mod mod_simps)
  ultimately show ?thesis
    by (simp add: aligned_iff_unat mod_mod_cancel)
qed

lemma page_start_iff: "(a :: u32) mod PAGE_SIZE = 0 \<longleftrightarrow> a AND 0xfff = 0"
  by (simp add: PAGE_SIZE_def aligned_iff_unat word_unat_eq_iff [of "a mod 4096"] unat_mod)

lemma page_start_add:
  assumes "(a :: u32) AND 0xfff = 0" and "k < 4294967296"
  shows "(a + of_nat k) mod PAGE_SIZE = 0 \<longleftrightarrow> k mod 4096 = 0"
proof -
  have "unat a mod 4096 = 0"
    using assms by (simp add: aligned_iff_unat)
  moreover have "unat (a + of_nat k) mod 4096 = (unat a + k) mod 4096"
    by (simp add: unat_word_ariths unat_of_nat take_bit_eq_mod mod_simps mod_mod_cancel)
  ultimately show ?thesis
    unfolding page_start_iff aligned_iff_unat
    by (metis add_0 mod_add_left_eq)
qed


section \<open>The image as data\<close>

text \<open>
  The loadable segments of an image held as a list of bytes, in the order of the program header
  table, and the memory and the translation that loading them means.
\<close>

record elf_seg =
  seg_off :: u32
  seg_vaddr :: u32
  seg_paddr :: u32
  seg_filesz :: u32
  seg_memsz :: u32

definition phdr_off :: "u8 list \<Rightarrow> nat \<Rightarrow> nat" where
  "phdr_off img i = unat (le32 img 28) + 32 * i"

definition img_phnum :: "u8 list \<Rightarrow> nat" where
  "img_phnum img = unat (le16 img 44)"

definition seg_at :: "u8 list \<Rightarrow> nat \<Rightarrow> elf_seg" where
  "seg_at img i =
     (let o' = phdr_off img i
      in \<lparr>seg_off = le32 img (o' + 4), seg_vaddr = le32 img (o' + 8), seg_paddr = le32 img (o' + 12),
          seg_filesz = le32 img (o' + 16), seg_memsz = le32 img (o' + 20)\<rparr>)"

definition segs_from :: "u8 list \<Rightarrow> nat \<Rightarrow> elf_seg list" where
  "segs_from img i =
     map (seg_at img) (filter (\<lambda>i. le32 img (phdr_off img i) = PT_LOAD) [i..<img_phnum img])"

definition seg_byte :: "u8 list \<Rightarrow> elf_seg \<Rightarrow> nat \<Rightarrow> u8" where
  "seg_byte img sg k = (if k < unat (seg_filesz sg) then img ! (unat (seg_off sg) + k) else 0)"

definition load_seg :: "u8 list \<Rightarrow> elf_seg \<Rightarrow> (u32 \<Rightarrow> u8) \<Rightarrow> u32 \<Rightarrow> u8" where
  "load_seg img sg = place (seg_byte img sg) (seg_paddr sg) (unat (seg_memsz sg))"

definition map_seg :: "elf_seg \<Rightarrow> (u32 \<Rightarrow> u32 option) \<Rightarrow> u32 \<Rightarrow> u32 option" where
  "map_seg sg = remap (seg_vaddr sg) (seg_paddr sg) (page_ceil (unat (seg_memsz sg)))"

definition header_ok :: "u8 list \<Rightarrow> bool" where
  "header_ok img \<longleftrightarrow> take 6 img = [0x7f, 0x45, 0x4c, 0x46, 1, 1] \<and> le16 img 16 = 2 \<and>
     le16 img 18 = 3 \<and> le16 img 42 = 32 \<and> le16 img 46 = 40"

text \<open>The error that the checks of the header leave.\<close>

definition header_error :: "u8 list \<Rightarrow> elf_error \<Rightarrow> elf_error" where
  "header_error img err =
     (if take 4 img \<noteq> [0x7f, 0x45, 0x4c, 0x46] \<or> le16 img 42 \<noteq> 32 \<or> le16 img 46 \<noteq> 40 then Invalid_magic
      else if img ! 4 \<noteq> 1 then Not_32bit
      else if img ! 5 \<noteq> 1 then Not_little_endian
      else if le16 img 18 \<noteq> 3 then Not_386
      else if le16 img 16 \<noteq> 2 then Not_executable
      else err)"

lemma fold_map_seg_cong: "t u = t' u \<Longrightarrow> fold map_seg sgs t u = fold map_seg sgs t' u"
proof (induction sgs arbitrary: t t')
  case (Cons sg sgs)
  then have "map_seg sg t u = map_seg sg t' u"
    unfolding map_seg_def remap_def by presburger
  then show ?case
    by (simp add: Cons.IH [of "map_seg sg t" "map_seg sg t'"])
qed simp

lemma take6: "6 \<le> length xs \<Longrightarrow> take 6 xs = [xs ! 0, xs ! 1, xs ! 2, xs ! 3, xs ! 4, xs ! 5]"
  by (intro nth_equalityI) (auto simp: nth_Cons' less_Suc_eq numeral_eq_Suc)

lemma take4: "4 \<le> length xs \<Longrightarrow> take 4 xs = [xs ! 0, xs ! 1, xs ! 2, xs ! 3]"
  by (intro nth_equalityI) (auto simp: nth_Cons' less_Suc_eq numeral_eq_Suc)

lemma segs_from_end: "img_phnum img \<le> i \<Longrightarrow> segs_from img i = []"
  by (simp add: segs_from_def)

lemma segs_from_step:
  "i < img_phnum img \<Longrightarrow> segs_from img i =
     (if le32 img (phdr_off img i) = PT_LOAD then seg_at img i # segs_from img (Suc i)
      else segs_from img (Suc i))"
  by (simp add: segs_from_def upt_conv_Cons)

section \<open>One segment\<close>

context paged_memory
begin

text \<open>
  The state \<open>s\<close> reached from \<open>s0\<close> after \<open>k\<close> bytes were placed and \<open>j\<close> bytes mapped.
\<close>

definition progress :: "(nat \<Rightarrow> u8) \<Rightarrow> u32 \<Rightarrow> u32 \<Rightarrow> 's \<Rightarrow> nat \<Rightarrow> nat \<Rightarrow> 's \<Rightarrow> bool" where
  "progress f v p s0 k j s \<longleftrightarrow> invar s \<and> plain s = plain s0 \<and> phys s = place f p k (phys s0) \<and>
     (\<forall>u. drop_bit 22 u \<noteq> 0x3ff \<longrightarrow> translate s u = remap v p j (translate s0) u)"

lemma progress_start: "invar s \<Longrightarrow> progress f v p s 0 0 s"
  by (simp add: progress_def place_def remap_def fun_eq_iff)

lemma progress_enter:
  assumes pr: "progress f v p s0 k (page_ceil k) s" and al: "v AND 0xfff = 0" "p AND 0xfff = 0"
    and k: "k + 4096 \<le> 4294967296" and ok: "k mod 4096 = 0 \<Longrightarrow> can_map (v + of_nat k) (p + of_nat k)"
  shows "\<exists>s1. enter_page map_page (v + of_nat k) (p + of_nat k) w s = (0, s1) \<and>
    progress f v p s0 k (page_ceil (Suc k)) s1"
proof (cases "k mod 4096 = 0")
  case False
  then show ?thesis
    using pr page_start_add [OF al(1), of k] k by (simp add: enter_page_def page_ceil_Suc)
next
  case True
  let ?v = "v + of_nat k" and ?p = "p + of_nat k"
  have inv: "invar s"
    using pr by (simp add: progress_def)
  obtain rc s1 where run: "map_page ?v ?p w s = (rc, s1)"
    by (cases "map_page ?v ?p w s")
  with map_rc [OF inv run] ok [OF True] have rc: "rc = 0" by simp
  note run = run [unfolded rc]
  note al' = aligned_add_nat [OF al(1) True] aligned_add_nat [OF al(2) True]
  have "translate s1 u = remap v p (k + 4096) (translate s0) u" if u: "drop_bit 22 u \<noteq> 0x3ff" for u
  proof (cases "unat (u - ?v) < 4096")
    case True
    then show ?thesis
      using map_hit [OF inv run al', of "u - ?v"] k by (simp add: remap_extend)
  next
    case False
    then have "translate s1 u = translate s u"
      using map_miss [OF inv run al' u] by (simp add: same_page_diff [OF al'(1)])
    with False pr u k show ?thesis
      by (simp add: progress_def page_ceil_aligned [OF True] remap_extend)
  qed
  then have "progress f v p s0 k (page_ceil (Suc k)) s1"
    using pr map_invar [OF inv run] True by (simp add: progress_def page_ceil_Suc)
  then show ?thesis
    using run page_start_add [OF al(1), of k] True k by (simp add: enter_page_def)
qed

lemma progress_store:
  assumes pr: "progress f v p s0 k j s" and j: "k < j" and k: "k < 4294967296"
    and win: "drop_bit 22 (v + of_nat k) \<noteq> 0x3ff" and pl: "plain s0 (p + of_nat k)"
  shows "\<exists>s'. store8 (v + of_nat k) (f k) s = Some s' \<and> progress f v p s0 (Suc k) j s'"
proof -
  have "translate s (v + of_nat k) = Some (p + of_nat k)"
    using pr win j k unat_of_nat_u32 [OF k] by (simp add: progress_def remap_def)
  moreover have "invar s" "plain s (p + of_nat k)"
    using pr pl by (simp_all add: progress_def)
  ultimately obtain s' where "store8 (v + of_nat k) (f k) s = Some s'" "invar s'"
      "phys s' = (phys s)(p + of_nat k := f k)" "translate s' = translate s" "plain s' = plain s"
    using store_plain by blast
  with pr show ?thesis
    by (simp add: progress_def place_extend [OF k])
qed

text \<open>A byte outside the segment, reached through a page outside it, is still readable.\<close>

lemma progress_load:
  assumes pr: "progress f v p s0 k j s" and src: "translate s0 u = Some a" "plain s0 a"
    and out: "drop_bit 22 u \<noteq> 0x3ff" "\<not> unat (u - v) < j" "\<not> unat (a - p) < k"
  shows "load8 u s = Some (phys s0 a)"
proof -
  have "translate s u = Some a" "plain s a" "invar s" "phys s a = phys s0 a"
    using pr src out by (simp_all add: progress_def remap_def place_def)
  with load_plain [of s u a] show ?thesis by simp
qed

text \<open>What a destination of \<open>n\<close> bytes needs: pages that can be mapped to frames of ordinary
  memory.\<close>

definition target_ok :: "u32 \<Rightarrow> u32 \<Rightarrow> nat \<Rightarrow> 's \<Rightarrow> bool" where
  "target_ok v p n s \<longleftrightarrow> v AND 0xfff = 0 \<and> p AND 0xfff = 0 \<and> n + 4096 \<le> 4294967296 \<and>
     (\<forall>k < n. drop_bit 22 (v + of_nat k) \<noteq> 0x3ff \<and> plain s (p + of_nat k) \<and>
        (k mod 4096 = 0 \<longrightarrow> can_map (v + of_nat k) (p + of_nat k)))"

lemma target_enter:
  assumes "target_ok v p n s0" and "k < n" and "progress f v p s0 k (page_ceil k) s"
  obtains s1 where "enter_page map_page (v + of_nat k) (p + of_nat k) w s = (0, s1)"
    and "progress f v p s0 k (page_ceil (Suc k)) s1"
  using assms progress_enter [of f v p s0 k s w] by (auto simp: target_ok_def)

lemma target_store:
  assumes "target_ok v p n s0" and "k < n" and "progress f v p s0 k (page_ceil (Suc k)) s"
  obtains s' where "store8 (v + of_nat k) (f k) s = Some s'"
    and "progress f v p s0 (Suc k) (page_ceil (Suc k)) s'"
proof -
  have "k < page_ceil (Suc k)" "k < 4294967296" "drop_bit 22 (v + of_nat k) \<noteq> 0x3ff"
      "plain s0 (p + of_nat k)"
    using assms(1,2) page_ceil_ge [of "Suc k"] by (auto simp: target_ok_def)
  with progress_store [OF assms(3)] that show thesis by blast
qed

lemma copy_file_bytes_progress:
  assumes ok: "target_ok v p n s0"
    and src: "\<And>k. k < m \<Longrightarrow> \<exists>a. translate s0 (src + of_nat k) = Some a \<and> plain s0 a \<and> phys s0 a = f k \<and>
      drop_bit 22 (src + of_nat k) \<noteq> 0x3ff \<and> \<not> unat (src + of_nat k - v) < page_ceil n \<and>
      \<not> unat (a - p) < n"
    and m: "m \<le> n"
  shows "k + i = m \<Longrightarrow> progress f v p s0 k (page_ceil k) s \<Longrightarrow>
    \<exists>s'. copy_file_bytes map_page load8 store8 w i ms (p + of_nat k) (v + of_nat k) (src + of_nat k) err s
        = Some (0, err, ms - of_nat i, p + of_nat m, v + of_nat m, s') \<and>
      progress f v p s0 m (page_ceil m) s'"
proof (induction i arbitrary: k ms s)
  case 0
  then show ?case by auto
next
  case (Suc i)
  then have k: "k < m" "k < n" using m by simp_all
  from target_enter [OF ok k(2) Suc.prems(2)] obtain s1 where
    s1: "enter_page map_page (v + of_nat k) (p + of_nat k) w s = (0, s1)"
      "progress f v p s0 k (page_ceil (Suc k)) s1" .
  from src [OF k(1)] obtain a where a: "translate s0 (src + of_nat k) = Some a" "plain s0 a"
      "phys s0 a = f k" "drop_bit 22 (src + of_nat k) \<noteq> 0x3ff"
      "\<not> unat (src + of_nat k - v) < page_ceil n" "\<not> unat (a - p) < n"
    by blast
  then have "load8 (src + of_nat k) s1 = Some (f k)"
    using progress_load [OF s1(2) a(1,2,4)] k page_ceil_mono [of "Suc k" n] by fastforce
  moreover from target_store [OF ok k(2) s1(2)] obtain s2 where
    s2: "store8 (v + of_nat k) (f k) s1 = Some s2"
      "progress f v p s0 (Suc k) (page_ceil (Suc k)) s2" .
  ultimately show ?case
    using Suc.IH [of "Suc k" s2 "ms - 1"] Suc.prems(1) s1(1) by (simp add: add_ac diff_diff_eq)
qed

lemma zero_bytes_progress:
  assumes ok: "target_ok v p n s0" and f: "\<And>k. m \<le> k \<Longrightarrow> k < n \<Longrightarrow> f k = 0"
  shows "k + i = n \<Longrightarrow> m \<le> k \<Longrightarrow> progress f v p s0 k (page_ceil k) s \<Longrightarrow>
    \<exists>s'. zero_bytes map_page store8 w i (p + of_nat k) (v + of_nat k) err s = Some (0, err, s') \<and>
      progress f v p s0 n (page_ceil n) s'"
proof (induction i arbitrary: k s)
  case 0
  then show ?case by auto
next
  case (Suc i)
  then have k: "k < n" by simp
  from target_enter [OF ok k Suc.prems(3)] obtain s1 where
    s1: "enter_page map_page (v + of_nat k) (p + of_nat k) w s = (0, s1)"
      "progress f v p s0 k (page_ceil (Suc k)) s1" .
  from target_store [OF ok k s1(2)] obtain s2 where
    s2: "store8 (v + of_nat k) (f k) s1 = Some s2"
      "progress f v p s0 (Suc k) (page_ceil (Suc k)) s2" .
  then show ?case
    using Suc.IH [of "Suc k" s2] Suc.prems s1(1) f [of k] k by (simp add: add_ac)
qed

text \<open>The image in memory: byte \<open>k\<close> is at the virtual address \<open>eh + k\<close>, in the frame \<open>q k\<close>.\<close>

definition image_in :: "(nat \<Rightarrow> u32) \<Rightarrow> u32 \<Rightarrow> u8 list \<Rightarrow> 's \<Rightarrow> bool" where
  "image_in q eh img s \<longleftrightarrow> invar s \<and>
     (\<forall>k < length img. translate s (eh + of_nat k) = Some (q k) \<and> plain s (q k) \<and>
        phys s (q k) = img ! k \<and> drop_bit 22 (eh + of_nat k) \<noteq> 0x3ff)"

text \<open>A segment whose target can be mapped and shares neither a page nor a frame with the image.\<close>

definition seg_ok :: "(nat \<Rightarrow> u32) \<Rightarrow> u32 \<Rightarrow> u8 list \<Rightarrow> 's \<Rightarrow> elf_seg \<Rightarrow> bool" where
  "seg_ok q eh img s sg \<longleftrightarrow>
     target_ok (seg_vaddr sg) (seg_paddr sg) (unat (seg_memsz sg)) s \<and>
     unat (seg_off sg) + unat (seg_filesz sg) \<le> length img \<and> seg_filesz sg \<le> seg_memsz sg \<and>
     is_paddr_in_valid_range (seg_paddr sg) (seg_memsz sg) \<and>
     is_vaddr_in_valid_range (seg_vaddr sg) (seg_memsz sg) \<and>
     (\<forall>k < length img. \<not> unat (eh + of_nat k - seg_vaddr sg) < page_ceil (unat (seg_memsz sg)) \<and>
        \<not> unat (q k - seg_paddr sg) < unat (seg_memsz sg))"

lemma image_load:
  "image_in q eh img s \<Longrightarrow> k < length img \<Longrightarrow> load8 (eh + of_nat k) s = Some (img ! k)"
  using load_plain by (auto simp: image_in_def)

lemma image_ld16:
  assumes "image_in q eh img s" and "k + 1 < length img"
  shows "ld16 load8 (eh + of_nat k) s = Some (le16 img k)"
  using image_load [OF assms(1), of k] image_load [OF assms(1), of "k + 1"] assms(2)
  by (simp add: ld16_def le16_def add_ac)

lemma image_ld32:
  assumes "image_in q eh img s" and "k + 3 < length img"
  shows "ld32 load8 (eh + of_nat k) s = Some (le32 img k)"
  using image_load [OF assms(1), of k] image_load [OF assms(1), of "k + 1"]
    image_load [OF assms(1), of "k + 2"] image_load [OF assms(1), of "k + 3"] assms(2)
  by (simp add: ld32_def le32_def add_ac)

lemma progress_image:
  assumes "progress f v p s j n s'" and "image_in q eh img s"
    and "\<And>k. k < length img \<Longrightarrow> \<not> unat (eh + of_nat k - v) < n \<and> \<not> unat (q k - p) < j"
  shows "image_in q eh img s'"
  using assms by (auto simp: image_in_def progress_def remap_def place_def)

lemma fill_progseg_progress:
  assumes im: "image_in q eh img s" and ok: "seg_ok q eh img s sg"
  shows "\<exists>s'. fill_progseg map_page load8 store8 w (seg_filesz sg) (seg_memsz sg) (seg_paddr sg)
        (seg_vaddr sg) (eh + seg_off sg) err s = Some (0, err, s') \<and>
      progress (seg_byte img sg) (seg_vaddr sg) (seg_paddr sg) s (unat (seg_memsz sg))
        (page_ceil (unat (seg_memsz sg))) s'"
proof -
  let ?f = "seg_byte img sg" and ?m = "unat (seg_filesz sg)" and ?n = "unat (seg_memsz sg)"
  let ?v = "seg_vaddr sg" and ?p = "seg_paddr sg" and ?src = "eh + seg_off sg"
  have tgt: "target_ok ?v ?p ?n s" and m: "?m \<le> ?n" and len: "unat (seg_off sg) + ?m \<le> length img"
    using ok by (simp_all add: seg_ok_def word_le_nat_alt)
  have src: "?src + of_nat k = eh + of_nat (unat (seg_off sg) + k)" for k
    by simp
  have frame: "\<exists>a. translate s (?src + of_nat k) = Some a \<and> plain s a \<and> phys s a = ?f k \<and>
      drop_bit 22 (?src + of_nat k) \<noteq> 0x3ff \<and> \<not> unat (?src + of_nat k - ?v) < page_ceil ?n \<and>
      \<not> unat (a - ?p) < ?n" if "k < ?m" for k
  proof -
    have j: "unat (seg_off sg) + k < length img" using that len by simp
    from im j have "translate s (?src + of_nat k) = Some (q (unat (seg_off sg) + k)) \<and>
        plain s (q (unat (seg_off sg) + k)) \<and>
        phys s (q (unat (seg_off sg) + k)) = img ! (unat (seg_off sg) + k) \<and>
        drop_bit 22 (?src + of_nat k) \<noteq> 0x3ff"
      unfolding image_in_def src by blast
    moreover have "img ! (unat (seg_off sg) + k) = ?f k"
      using that by (simp add: seg_byte_def)
    moreover from ok j have "\<not> unat (?src + of_nat k - ?v) < page_ceil ?n \<and>
        \<not> unat (q (unat (seg_off sg) + k) - ?p) < ?n"
      unfolding seg_ok_def src by blast
    ultimately show ?thesis
      by (intro exI [of _ "q (unat (seg_off sg) + k)"]) (simp only: simp_thms)
  qed
  from progress_start im have "progress ?f ?v ?p s 0 (page_ceil 0) s"
    by (simp add: image_in_def)
  from copy_file_bytes_progress [OF tgt frame m _ this, of ?m w "seg_memsz sg" err] obtain s1 where
    s1: "copy_file_bytes map_page load8 store8 w ?m (seg_memsz sg) ?p ?v ?src err s
        = Some (0, err, seg_memsz sg - of_nat ?m, ?p + of_nat ?m, ?v + of_nat ?m, s1)"
      "progress ?f ?v ?p s ?m (page_ceil ?m) s1"
    by auto
  have "unat (seg_memsz sg - of_nat ?m) = ?n - ?m"
    using m by (simp add: unat_sub_u32)
  moreover from zero_bytes_progress [OF tgt _ _ _ s1(2), of ?m "?n - ?m" w err] m obtain s2 where
    "zero_bytes map_page store8 w (?n - ?m) (?p + of_nat ?m) (?v + of_nat ?m) err s1 = Some (0, err, s2)"
      "progress ?f ?v ?p s ?n (page_ceil ?n) s2"
    by (auto simp: seg_byte_def)
  moreover have "valid_progseg ?p ?v (seg_memsz sg) err = (True, err)"
    using ok aligned_page_1k
    by (simp add: valid_progseg_def seg_ok_def target_ok_def is_addr_page_aligned_def)
  ultimately show ?thesis
    using s1(1) by (simp add: fill_progseg_def)
qed

text \<open>The header fields of the program header table entry \<open>i\<close>.\<close>

lemma image_phdr:
  assumes "image_in q eh img s" and "phdr_off img i + 32 \<le> length img"
  shows "progseg_is_loadable load8 (eh + of_nat (phdr_off img i)) s
      = Some (le32 img (phdr_off img i) = PT_LOAD)"
    and "p_memsz load8 (eh + of_nat (phdr_off img i)) s = Some (seg_memsz (seg_at img i))"
    and "\<exists>w. map_progseg map_page load8 store8 eh (eh + of_nat (phdr_off img i)) err s =
      fill_progseg map_page load8 store8 w (seg_filesz (seg_at img i)) (seg_memsz (seg_at img i))
        (seg_paddr (seg_at img i)) (seg_vaddr (seg_at img i)) (eh + seg_off (seg_at img i)) err s"
proof -
  have ld: "ld32 load8 (eh + of_nat (phdr_off img i) + of_nat d) s = Some (le32 img (phdr_off img i + d))"
    if "d \<le> 28" for d
    using image_ld32 [OF assms(1), of "phdr_off img i + d"] that assms(2) by (simp add: add_ac)
  note ld = ld [of 0] ld [of 4] ld [of 8] ld [of 12] ld [of 16] ld [of 20] ld [of 24]
  show "progseg_is_loadable load8 (eh + of_nat (phdr_off img i)) s
      = Some (le32 img (phdr_off img i) = PT_LOAD)"
    using ld by (simp add: progseg_is_loadable_def p_type_def)
  show "p_memsz load8 (eh + of_nat (phdr_off img i)) s = Some (seg_memsz (seg_at img i))"
    using ld by (simp add: p_memsz_def seg_at_def Let_def)
  show "\<exists>w. map_progseg map_page load8 store8 eh (eh + of_nat (phdr_off img i)) err s =
      fill_progseg map_page load8 store8 w (seg_filesz (seg_at img i)) (seg_memsz (seg_at img i))
        (seg_paddr (seg_at img i)) (seg_vaddr (seg_at img i)) (eh + seg_off (seg_at img i)) err s"
    using ld by (intro exI [of _ "le32 img (phdr_off img i + 24) AND PF_W \<noteq> 0"])
      (simp add: map_progseg_def seg_at_def Let_def p_offset_def p_vaddr_def p_paddr_def
        p_filesz_def p_memsz_def progseg_is_writable_def p_flags_def)
qed

lemma phdr_next: "eh + of_nat (phdr_off img i) + SIZEOF_PHDR = eh + of_nat (phdr_off img (Suc i))"
  by (simp add: phdr_off_def SIZEOF_PHDR_def)

lemma image_phnum:
  assumes "image_in q eh img s" and "52 \<le> length img"
  shows "e_phnum load8 eh s = Some (le16 img 44)" and "e_entry load8 eh s = Some (le32 img 24)"
    and "e_phoff load8 eh s = Some (le32 img 28)"
  using image_ld16 [OF assms(1), of 44] image_ld32 [OF assms(1), of 24]
    image_ld32 [OF assms(1), of 28] assms(2)
  by (simp_all add: e_phnum_def e_entry_def e_phoff_def)

lemma phdr_off_bound:
  "phdr_off img (img_phnum img) \<le> length img \<Longrightarrow> i < img_phnum img \<Longrightarrow>
   phdr_off img i + 32 \<le> length img"
  by (simp add: phdr_off_def)

lemma progsegs_memsz_image:
  assumes im: "image_in q eh img s" and len: "52 \<le> length img"
    "phdr_off img (img_phnum img) \<le> length img"
  shows "i + j = img_phnum img \<Longrightarrow>
    progsegs_memsz_from load8 eh (eh + of_nat (phdr_off img i)) i acc s =
      Some (acc + sum_list (map seg_memsz (segs_from img i)))"
proof (induction j arbitrary: i acc)
  case 0
  then show ?case
    using image_phnum [OF im len(1)]
    by (subst progsegs_memsz_from.simps) (simp add: segs_from_end img_phnum_def)
next
  case (Suc j)
  then have i: "i < img_phnum img" by simp
  note ph = image_phdr [OF im phdr_off_bound [OF len(2) i]]
  show ?case
    using Suc.IH [of "Suc i"] Suc.prems i ph(1,2) image_phnum [OF im len(1)]
    by (subst progsegs_memsz_from.simps)
      (simp add: segs_from_step phdr_next img_phnum_def, (simp add: add.assoc)?)
qed

text \<open>Loading the segments from entry \<open>i\<close> on.\<close>

lemma map_progsegs_image:
  assumes len: "52 \<le> length img" "phdr_off img (img_phnum img) \<le> length img"
  shows "i + j = img_phnum img \<Longrightarrow> image_in q eh img s \<Longrightarrow>
    \<forall>sg \<in> set (segs_from img i). seg_ok q eh img s sg \<Longrightarrow>
    \<exists>s'. map_progsegs_from map_page load8 store8 eh (eh + of_nat (phdr_off img i)) i err s =
        Some (le32 img 24, err, s') \<and> image_in q eh img s' \<and> plain s' = plain s \<and>
      phys s' = fold (load_seg img) (segs_from img i) (phys s) \<and>
      (\<forall>u. drop_bit 22 u \<noteq> 0x3ff \<longrightarrow>
         translate s' u = fold map_seg (segs_from img i) (translate s) u)"
proof (induction j arbitrary: i s)
  case 0
  then show ?case
    using image_phnum [OF _ len(1)]
    by (subst map_progsegs_from.simps) (simp add: segs_from_end img_phnum_def)
next
  case (Suc j)
  then have i: "i < img_phnum img" by simp
  note ph = image_phdr [OF Suc.prems(2) phdr_off_bound [OF len(2) i]]
  note unfold_loop = map_progsegs_from.simps [of map_page load8 store8 eh
      "eh + of_nat (phdr_off img i)" i err s]
  show ?case
  proof (cases "le32 img (phdr_off img i) = PT_LOAD")
    case False
    with Suc.IH [of "Suc i" s] Suc.prems i ph(1) image_phnum [OF Suc.prems(2) len(1)] show ?thesis
      unfolding unfold_loop by (simp add: segs_from_step phdr_next img_phnum_def)
  next
    case True
    let ?sg = "seg_at img i"
    have ok: "seg_ok q eh img s ?sg" and rest: "\<forall>sg \<in> set (segs_from img (Suc i)). seg_ok q eh img s sg"
      using Suc.prems(3) i True by (simp_all add: segs_from_step)
    from ph(3) [of err] fill_progseg_progress [OF Suc.prems(2) ok, of _ err] obtain s1 where
      s1: "map_progseg map_page load8 store8 eh (eh + of_nat (phdr_off img i)) err s = Some (0, err, s1)"
        "progress (seg_byte img ?sg) (seg_vaddr ?sg) (seg_paddr ?sg) s (unat (seg_memsz ?sg))
           (page_ceil (unat (seg_memsz ?sg))) s1"
      by metis
    have im1: "image_in q eh img s1"
      using progress_image [OF s1(2) Suc.prems(2)] ok unfolding seg_ok_def by blast
    have pl: "plain s1 = plain s" and mem: "phys s1 = load_seg img ?sg (phys s)"
      and tr: "\<And>u. drop_bit 22 u \<noteq> 0x3ff \<Longrightarrow> translate s1 u = map_seg ?sg (translate s) u"
      using s1(2) by (simp_all add: progress_def load_seg_def map_seg_def)
    from rest pl have "\<forall>sg \<in> set (segs_from img (Suc i)). seg_ok q eh img s1 sg"
      by (simp add: seg_ok_def target_ok_def)
    from Suc.IH [OF _ im1 this] Suc.prems(1) obtain s' where s': 
      "map_progsegs_from map_page load8 store8 eh (eh + of_nat (phdr_off img (Suc i))) (Suc i) err s1 =
        Some (le32 img 24, err, s')" "image_in q eh img s'" "plain s' = plain s1"
      "phys s' = fold (load_seg img) (segs_from img (Suc i)) (phys s1)"
      "\<forall>u. drop_bit 22 u \<noteq> 0x3ff \<longrightarrow>
         translate s' u = fold map_seg (segs_from img (Suc i)) (translate s1) u"
      by auto
    moreover have "fold map_seg (segs_from img (Suc i)) (translate s1) u =
        fold map_seg (segs_from img (Suc i)) (map_seg ?sg (translate s)) u"
      if "drop_bit 22 u \<noteq> 0x3ff" for u
      by (rule fold_map_seg_cong) (rule tr [OF that])
    ultimately show ?thesis
      using s1(1) pl mem i True ph(1) image_phnum [OF Suc.prems(2) len(1)]
      unfolding unfold_loop by (simp add: segs_from_step phdr_next img_phnum_def)
  qed
qed

lemma supported_iff:
  assumes im: "image_in q eh img s" and len: "52 \<le> length img" and nz: "eh \<noteq> 0"
  shows "elf32_is_supported load8 eh err s = Some (header_ok img, header_error img err)"
    and "header_ok img \<Longrightarrow> header_error img err = err"
proof -
  have id: "e_ident load8 (of_nat i) eh s = Some (img ! i)" if "i < 6" for i
    using image_load [OF im, of i] that len by (simp add: e_ident_def)
  note ids = id [of 0] id [of 1] id [of 2] id [of 3] id [of 4] id [of 5]
  have half: "ld16 load8 (eh + of_nat k) s = Some (le16 img k)" if "k < 48" for k
    using image_ld16 [OF im, of k] that len by simp
  note halves = half [of 16] half [of 18] half [of 42] half [of 46]
  have sz: "(ucast SIZEOF_PHDR :: u16) = 32" "(ucast SIZEOF_SHDR :: u16) = 40"
    by (simp_all add: SIZEOF_PHDR_def SIZEOF_SHDR_def)
  have ident: "take 6 img = [0x7f, 0x45, 0x4c, 0x46, 1, 1] \<longleftrightarrow> img ! 0 = 0x7f \<and> img ! 1 = 0x45 \<and>
      img ! 2 = 0x4c \<and> img ! 3 = 0x46 \<and> img ! 4 = 1 \<and> img ! 5 = 1"
    using len by (simp add: take6)
  have magic: "take 4 img = [0x7f, 0x45, 0x4c, 0x46] \<longleftrightarrow> img ! 0 = 0x7f \<and> img ! 1 = 0x45 \<and> img ! 2 = 0x4c \<and> img ! 3 = 0x46"
    using len by (simp add: take4)
  show "header_ok img \<Longrightarrow> header_error img err = err" unfolding header_ok_def header_error_def ident magic by simp
  show "elf32_is_supported load8 eh err s = Some (header_ok img, header_error img err)"
    using ids halves nz unfolding header_ok_def header_error_def ident magic
    by (simp add: elf32_is_supported_def elf_is_valid_def check_or_def and_then_def field_is_def sz
        e_phentsize_def e_shentsize_def e_machine_def e_type_def ELF_MAG0_def ELF_MAG1_def
        ELF_MAG2_def ELF_MAG3_def ELF_CLASS_32_def ELF_DATA_LITTLE_def ELF_MACHINE_386_def
        ELF_TYPE_EXEC_def bool.case_eq_if)
qed

lemma elf32_map_rejected:
  assumes im: "image_in q eh img s" and len: "52 \<le> length img" and nz: "eh \<noteq> 0"
    and bad: "\<not> header_ok img"
  shows "elf32_map map_page load8 store8 eh err s = Some (0, header_error img err, s)"
  using supported_iff(1) [OF im len nz, of err] bad by (simp add: elf32_map_def)

lemma elf32_map_image:
  assumes im: "image_in q eh img s" and len: "52 \<le> length img"
    "phdr_off img (img_phnum img) \<le> length img"
    and nz: "eh \<noteq> 0" "eh + le32 img 28 \<noteq> 0" and hdr: "header_ok img"
  shows "sum_list (map seg_memsz (segs_from img 0)) > KERNEL_MEMSZ_MAX \<Longrightarrow>
      elf32_map map_page load8 store8 eh err s =
        Some (0, Too_much_memory (sum_list (map seg_memsz (segs_from img 0))), s)"
    and "\<not> sum_list (map seg_memsz (segs_from img 0)) > KERNEL_MEMSZ_MAX \<Longrightarrow>
      \<forall>sg \<in> set (segs_from img 0). seg_ok q eh img s sg \<Longrightarrow>
      \<exists>s'. elf32_map map_page load8 store8 eh err s = Some (le32 img 24, err, s') \<and>
        image_in q eh img s' \<and> plain s' = plain s \<and>
        phys s' = fold (load_seg img) (segs_from img 0) (phys s) \<and>
        (\<forall>u. drop_bit 22 u \<noteq> 0x3ff \<longrightarrow>
           translate s' u = fold map_seg (segs_from img 0) (translate s) u)"
proof -
  have first: "eh + of_nat (phdr_off img 0) = eh + le32 img 28"
    by (simp add: phdr_off_def)
  from supported_iff [OF im len(1) nz(1), of err] hdr
  have sup: "elf32_is_supported load8 eh err s = Some (True, err)" by simp
  have tab: "get_progtab load8 eh s = Some (eh + le32 img 28)"
    using image_phnum(3) [OF im len(1)] by (simp add: get_progtab_def)
  have sz: "progsegs_get_memsz load8 eh s = Some (sum_list (map seg_memsz (segs_from img 0)))"
    using progsegs_memsz_image [OF im len, of 0 "img_phnum img" 0] nz(2)
    unfolding first by (simp add: progsegs_get_memsz_def tab)
  show "sum_list (map seg_memsz (segs_from img 0)) > KERNEL_MEMSZ_MAX \<Longrightarrow>
      elf32_map map_page load8 store8 eh err s =
        Some (0, Too_much_memory (sum_list (map seg_memsz (segs_from img 0))), s)"
    using nz(2) by (simp add: elf32_map_def sup tab sz)
  show "\<exists>s'. elf32_map map_page load8 store8 eh err s = Some (le32 img 24, err, s') \<and>
        image_in q eh img s' \<and> plain s' = plain s \<and>
        phys s' = fold (load_seg img) (segs_from img 0) (phys s) \<and>
        (\<forall>u. drop_bit 22 u \<noteq> 0x3ff \<longrightarrow>
           translate s' u = fold map_seg (segs_from img 0) (translate s) u)"
    if "\<not> sum_list (map seg_memsz (segs_from img 0)) > KERNEL_MEMSZ_MAX"
      "\<forall>sg \<in> set (segs_from img 0). seg_ok q eh img s sg"
    using map_progsegs_image [OF len _ im that(2), of "img_phnum img" err] nz(2) that(1)
    unfolding first by (simp add: elf32_map_def sup tab sz)
qed

end

section \<open>The loader on the paging code\<close>

text \<open>
  \<open>kernel_elf32_map\<close> is \<open>elf32_map\<close> linked with \<open>paging_map\<close> and the processor's loads and
  stores. \<open>image_resident\<close>: the bytes of the image are readable at \<open>eh\<close>. \<open>segment_fits\<close>: the
  segment is page aligned, every page of it can be mapped, its frames hold no translation table, its
  file part lies inside the image, and it shares neither a page nor a frame with the image.
\<close>

definition kernel_elf32_map :: "u32 \<Rightarrow> elf_error \<Rightarrow> mmu \<Rightarrow> (u32 \<times> elf_error \<times> mmu) option" where
  "kernel_elf32_map = elf32_map paging_map virt_read8 virt_write8"

definition image_resident :: "(nat \<Rightarrow> u32) \<Rightarrow> u32 \<Rightarrow> u8 list \<Rightarrow> mmu \<Rightarrow> bool" where
  "image_resident q eh img m \<longleftrightarrow> mmu_ready m \<and>
     (\<forall>k < length img. mmu_walk m (eh + of_nat k) = Some (q k) \<and> \<not> in_tables m (q k) \<and>
        ram m (q k) = img ! k \<and> vaddr2pd_idx (eh + of_nat k) \<noteq> 0x3ff)"

definition segment_fits :: "(nat \<Rightarrow> u32) \<Rightarrow> u32 \<Rightarrow> u8 list \<Rightarrow> mmu \<Rightarrow> elf_seg \<Rightarrow> bool" where
  "segment_fits q eh img m sg \<longleftrightarrow>
     seg_vaddr sg AND 0xfff = 0 \<and> seg_paddr sg AND 0xfff = 0 \<and>
     unat (seg_memsz sg) + 4096 \<le> 4294967296 \<and>
     (\<forall>k < unat (seg_memsz sg). vaddr2pd_idx (seg_vaddr sg + of_nat k) \<noteq> 0x3ff \<and>
        \<not> in_tables m (seg_paddr sg + of_nat k) \<and>
        (k mod 4096 = 0 \<longrightarrow> mappable (seg_vaddr sg + of_nat k) (seg_paddr sg + of_nat k))) \<and>
     unat (seg_off sg) + unat (seg_filesz sg) \<le> length img \<and> seg_filesz sg \<le> seg_memsz sg \<and>
     is_paddr_in_valid_range (seg_paddr sg) (seg_memsz sg) \<and>
     is_vaddr_in_valid_range (seg_vaddr sg) (seg_memsz sg) \<and>
     (\<forall>k < length img. \<not> unat (eh + of_nat k - seg_vaddr sg) < page_ceil (unat (seg_memsz sg)) \<and>
        \<not> unat (q k - seg_paddr sg) < unat (seg_memsz sg))"

lemma image_resident_pmem: "image_resident = pmem.image_in"
  by (simp add: fun_eq_iff image_resident_def pmem.image_in_def vaddr2pd_idx_def)

lemma segment_fits_pmem: "segment_fits q eh img m sg = pmem.seg_ok q eh img m sg"
  unfolding segment_fits_def pmem.seg_ok_def pmem.target_ok_def vaddr2pd_idx_def
  by (simp only: conj_assoc)

section \<open>Properties\<close>

text \<open>C2. Loading an image. If the image is resident, its header is accepted, the loadable
  segments pass the size limit and each of them fits, then \<open>elf32_map\<close> returns the entry point; the
  physical memory afterwards is the old one with the loadable segments placed in table order (the
  bytes of the file, then zeros), the translation is the old one with their pages added, and the
  tables are still well formed.\<close>

theorem elf32_map_loads_image:
  assumes "image_resident q eh img m" and "52 \<le> length img"
    and "phdr_off img (img_phnum img) \<le> length img"
    and "eh \<noteq> 0" and "eh + le32 img 28 \<noteq> 0" and "header_ok img"
    and "sum_list (map seg_memsz (segs_from img 0)) \<le> KERNEL_MEMSZ_MAX"
    and "\<forall>sg \<in> set (segs_from img 0). segment_fits q eh img m sg"
  shows "\<exists>m'. kernel_elf32_map eh err m = Some (le32 img 24, err, m') \<and> mmu_ready m' \<and>
    ram m' = fold (load_seg img) (segs_from img 0) (ram m) \<and>
    (\<forall>u. vaddr2pd_idx u \<noteq> 0x3ff \<longrightarrow>
       mmu_walk m' u = fold map_seg (segs_from img 0) (mmu_walk m) u)"
proof -
  have fits: "\<forall>sg \<in> set (segs_from img 0). pmem.seg_ok q eh img m sg"
    using assms(8) by (simp add: segment_fits_pmem)
  have small: "\<not> sum_list (map seg_memsz (segs_from img 0)) > KERNEL_MEMSZ_MAX"
    using assms(7) by simp
  from pmem.elf32_map_image(2) [OF assms(1) [unfolded image_resident_pmem] assms(2-6) small fits]
  show ?thesis
    unfolding kernel_elf32_map_def vaddr2pd_idx_def pmem.image_in_def by blast
qed

definition sample_image :: "u8 list" where
  "sample_image =
     [0x7f, 0x45, 0x4c, 0x46, 1, 1, 1, 0, 0, 0, 0, 0, 0, 0, 0, 0, 2, 0, 3, 0, 1, 0, 0, 0,
      0, 0, 0, 0xc0, 52, 0, 0, 0, 0, 0, 0, 0, 0, 0, 0, 0, 52, 0, 32, 0, 1, 0, 40, 0, 0, 0, 0, 0,
      1, 0, 0, 0, 84, 0, 0, 0, 0, 0, 0, 0xc0, 0, 0, 0x30, 0, 2, 0, 0, 0, 3, 0, 0, 0, 7, 0, 0, 0,
      0, 0x10, 0, 0, 0xeb, 0xfe]"

definition sample_loaded :: "u8 list \<Rightarrow> mmu" where
  "sample_loaded img = sample_mmu\<lparr>ram := (\<lambda>a. img ! (unat a - 0x200000))\<rparr>"

lemma sample_image_length: "length sample_image = 86"
  by (simp add: sample_image_def)

lemma sample_image_fields:
  "le32 sample_image 28 = 52" "le32 sample_image 24 = 0xc0000000"
  "phdr_off sample_image (img_phnum sample_image) = 84" "header_ok sample_image"
  "segs_from sample_image 0 = [\<lparr>seg_off = 84, seg_vaddr = 0xc0000000, seg_paddr = 0x300000,
     seg_filesz = 2, seg_memsz = 3\<rparr>]"
  by (simp_all add: sample_image_def le32_def le16_def phdr_off_def img_phnum_def header_ok_def
      segs_from_def seg_at_def PT_LOAD_def Let_def upt_conv_Cons)

lemma sample_image_address:
  assumes "k < 4096"
  shows "unat (0x200000 + of_nat k :: u32) = 0x200000 + k"
  using assms by (subst unat_add_no_overflow) (simp_all add: unat_of_nat_u32)

lemma sample_low:
  assumes "k < 4096"
  shows "vaddr2pd_idx (0x200000 + of_nat k) \<noteq> 0x3ff" and "unat (0x200000 + of_nat k :: u32) < 0xf00000"
proof -
  have "unat (vaddr2pd_idx (0x200000 + of_nat k)) = (0x200000 + k) div 4194304"
    using sample_image_address [OF assms] by (simp add: vaddr2pd_idx_def drop_bit_eq_div unat_div)
  also have "\<dots> < 1023"
    using assms by simp
  finally show "vaddr2pd_idx (0x200000 + of_nat k) \<noteq> 0x3ff" by auto
  show "unat (0x200000 + of_nat k :: u32) < 0xf00000"
    using assms unfolding sample_image_address [OF assms] by simp
qed

lemma sample_resident:
  assumes "length img \<le> 4096"
  obtains m where "paging_init (sample_loaded img) = (0, m)"
    and "image_resident (\<lambda>k. 0x200000 + of_nat k) 0x200000 img m"
    and "pd_addr m = 0x10000" and "pt_addr m = 0x20000"
proof -
  have lay: "layout_ok (sample_loaded img)"
    using sample_mmu_layout by (simp add: layout_ok_def sample_loaded_def)
  from paging_init_spec [OF lay] obtain m where
    m: "paging_init (sample_loaded img) = (0, m)" "mmu_inv m" "ram m = ram (sample_loaded img)"
      "paging_on m = paging_on (sample_loaded img)" "pd_addr m = pd_addr (sample_loaded img)"
      "pt_addr m = pt_addr (sample_loaded img)"
      "\<forall>v. vaddr2pd_idx v \<noteq> 0x3ff \<longrightarrow> lookup_walk m v = (if unat v < 0xf00000 then Some v else None)"
    by blast
  have addr: "pd_addr m = 0x10000" "pt_addr m = 0x20000"
    using m(5,6) by (simp_all add: sample_loaded_def sample_mmu_def)
  have ready: "mmu_ready m"
    using m(2,4) by (simp add: mmu_ready_def sample_loaded_def sample_mmu_def)
  have "mmu_walk m (0x200000 + of_nat k) = Some (0x200000 + of_nat k) \<and>
      \<not> in_tables m (0x200000 + of_nat k) \<and> ram m (0x200000 + of_nat k) = img ! k \<and>
      vaddr2pd_idx (0x200000 + of_nat k) \<noteq> 0x3ff" if "k < length img" for k
  proof -
    have k: "k < 4096" using that assms by simp
    note low = sample_low [OF k] sample_image_address [OF k]
    show ?thesis
      using low m(7) k by (simp add: mmu_walk_lookup [OF ready] in_tables_def in_pd_def in_pts_def addr
          m(3) unat_numeral_add sample_loaded_def)
  qed
  with ready have "image_resident (\<lambda>k. 0x200000 + of_nat k) 0x200000 img m"
    by (simp add: image_resident_def)
  with m(1) addr show thesis by (rule_tac that)
qed

lemma sample_fits:
  assumes "pd_addr m = 0x10000" and "pt_addr m = 0x20000"
    and "sg = \<lparr>seg_off = 84, seg_vaddr = 0xc0000000, seg_paddr = 0x300000, seg_filesz = 2, seg_memsz = 3\<rparr>"
  shows "segment_fits (\<lambda>k. 0x200000 + of_nat k) 0x200000 sample_image m sg"
proof -
  have "\<not> unat (0x200000 + of_nat k - 0xc0000000 :: u32) < page_ceil 3 \<and>
      \<not> unat (0x200000 + of_nat k - 0x300000 :: u32) < 3" if "k < 86" for k
    using that by (simp add: unat_sub_u32 unat_of_nat_u32 page_ceil_def)
  moreover have "vaddr2pd_idx (0xc0000000 + of_nat k) \<noteq> 0x3ff" if "k < 3" for k
  proof -
    from that have "k = 0 \<or> k = 1 \<or> k = 2" by linarith
    then show ?thesis by (elim disjE) (simp_all add: vaddr2pd_idx_def)
  qed
  moreover have "\<not> in_tables m (0x300000 + of_nat k)" if "k < 3" for k
    using that assms(1,2) by (simp add: in_tables_def in_pd_def in_pts_def unat_numeral_add)
  moreover have "mappable 0xc0000000 0x300000"
    by (simp add: mappable_def is_addr_page_aligned_def PAGE_SIZE_def PADDR_MAX_def
        is_table_idx_implemented_def vaddr2pd_idx_def)
  ultimately show ?thesis
    by (simp add: segment_fits_def assms(3) mod_less sample_image_length is_paddr_in_valid_range_def
        is_vaddr_in_valid_range_def KERNEL_PADDR_MAX_def KERNEL_VADDR_MAX_def PADDR_MAX_def)
qed

theorem elf32_map_loads_image_witness:
  "\<exists>m m'. paging_init (sample_loaded sample_image) = (0, m) \<and>
     kernel_elf32_map 0x200000 Unknown_error m = Some (0xc0000000, Unknown_error, m') \<and>
     ram m' 0x300001 = 0xfe \<and> ram m' 0x300002 = 0 \<and> mmu_walk m' 0xc0000002 = Some 0x300002"
proof -
  obtain m where m: "paging_init (sample_loaded sample_image) = (0, m)"
      "image_resident (\<lambda>k. 0x200000 + of_nat k) 0x200000 sample_image m"
      "pd_addr m = 0x10000" "pt_addr m = 0x20000"
    by (rule sample_resident [of sample_image]) (simp_all add: sample_image_length)
  have "\<exists>m'. kernel_elf32_map 0x200000 Unknown_error m =
        Some (le32 sample_image 24, Unknown_error, m') \<and> mmu_ready m' \<and>
      ram m' = fold (load_seg sample_image) (segs_from sample_image 0) (ram m) \<and>
      (\<forall>u. vaddr2pd_idx u \<noteq> 0x3ff \<longrightarrow>
         mmu_walk m' u = fold map_seg (segs_from sample_image 0) (mmu_walk m) u)"
    by (rule elf32_map_loads_image [OF m(2)])
      (simp_all add: sample_image_fields sample_image_length KERNEL_MEMSZ_MAX_def sample_fits m)
  then show ?thesis
    using m(1) unfolding sample_image_fields
    by (auto simp: load_seg_def place_def seg_byte_def map_seg_def remap_def vaddr2pd_idx_def
        page_ceil_def) (simp_all add: sample_image_def)
qed

text \<open>An image whose header is not the one of a 32-bit little-endian i386 executable with the
  expected table entry sizes, or whose loadable segments need more than 1 MiB in total, is refused:
  the result is 0 and the memory state is unchanged.\<close>

theorem elf32_map_refuses_image:
  assumes "image_resident q eh img m" and "52 \<le> length img"
    and "phdr_off img (img_phnum img) \<le> length img" and "eh \<noteq> 0" and "eh + le32 img 28 \<noteq> 0"
    and "\<not> header_ok img \<or> sum_list (map seg_memsz (segs_from img 0)) > KERNEL_MEMSZ_MAX"
  shows "\<exists>err'. kernel_elf32_map eh err m = Some (0, err', m)"
  using pmem.elf32_map_rejected [OF assms(1) [unfolded image_resident_pmem] assms(2,4)]
    pmem.elf32_map_image(1) [OF assms(1) [unfolded image_resident_pmem] assms(2-5)] assms(6)
  unfolding kernel_elf32_map_def by blast

text \<open>The same image marked as a 64-bit one.\<close>

lemma bad_image_fields:
  "le32 (sample_image[4 := 2]) 28 = 52"
  "phdr_off (sample_image[4 := 2]) (img_phnum (sample_image[4 := 2])) = 84"
  "\<not> header_ok (sample_image[4 := 2])"
  by (simp_all add: sample_image_def le32_def le16_def phdr_off_def img_phnum_def header_ok_def)

theorem elf32_map_refuses_image_witness:
  "\<exists>m err'. paging_init (sample_loaded (sample_image[4 := 2])) = (0, m) \<and>
     kernel_elf32_map 0x200000 Unknown_error m = Some (0, err', m)"
proof -
  obtain m where m: "paging_init (sample_loaded (sample_image[4 := 2])) = (0, m)"
      "image_resident (\<lambda>k. 0x200000 + of_nat k) 0x200000 (sample_image[4 := 2]) m"
    by (rule sample_resident [of "sample_image[4 := 2]"]) (simp_all add: sample_image_length)
  have "\<exists>err'. kernel_elf32_map 0x200000 Unknown_error m = Some (0, err', m)"
    by (rule elf32_map_refuses_image [OF m(2)])
      (simp_all add: bad_image_fields sample_image_length)
  with m(1) show ?thesis by blast
qed

text \<open>The ten-bit alignment test lets a segment through that starts inside a 4 KiB page. The loop
  maps a page only when the destination reaches a page boundary, so the first store goes to a page
  that was never mapped: a page fault, although \<open>_valid_progseg\<close> accepted the segment.\<close>

theorem misaligned_segment_faults:
  assumes "valid_progseg paddr vaddr memsz err = (True, err)" and "vaddr AND 0xfff \<noteq> 0"
    and "0 < filesz" and "mmu_walk m vaddr = None"
  shows "fill_progseg paging_map virt_read8 virt_write8 w filesz memsz paddr vaddr src err m = None"
proof -
  obtain n where n: "unat filesz = Suc n"
    using assms(3) by (cases "unat filesz") (auto simp: word_less_nat_alt)
  have "enter_page paging_map vaddr paddr w m = (0, m)"
    using assms(2) by (simp add: enter_page_def page_start_iff)
  moreover have "virt_write8 vaddr b m = None" for b
    using assms(4) by (simp add: virt_write8_def)
  ultimately show ?thesis
    using assms(1) n by (simp add: fill_progseg_def split: option.split)
qed

theorem misaligned_segment_faults_witness:
  "fill_progseg paging_map virt_read8 virt_write8 True 1 1 0x100400 0xc0000400 0x200000
     Unknown_error sample_mmu = None"
proof (rule misaligned_segment_faults)
  show "mmu_walk sample_mmu 0xc0000400 = None"
    by (simp add: mmu_walk_lookup [OF sample_mmu_ready] lookup_walk_def vaddr2pd_idx_def)
      (simp add: sample_mmu_def pde_bzero_def)
qed (simp_all add: valid_progseg_def is_addr_page_aligned_def is_paddr_in_valid_range_def
    is_vaddr_in_valid_range_def KERNEL_PADDR_MAX_def KERNEL_VADDR_MAX_def PADDR_MAX_def)

text \<open>The sizes of a segment are not compared. When the file part is larger than the memory part, the counter \<open>memsz\<close>
  wraps in the first loop, and the second loop clears memory until the 2^32 addresses of both loops have met a page that
  cannot be mapped: such a segment, although all tests have accepted it, is never mapped.\<close>

lemma copy_file_bytes_enters:
  assumes "copy_file_bytes mp ld st w n memsz paddr dst src err s = Some (0, err', memsz', paddr', dst', s')"
  shows "memsz' = memsz - of_nat n \<and> dst' = dst + of_nat n \<and>
    (\<forall>k < n. (dst + of_nat k) mod PAGE_SIZE = 0 \<longrightarrow> (\<exists>a s1 s2. mp (dst + of_nat k) a w s1 = (0, s2)))"
  using assms
proof (induction n arbitrary: memsz paddr dst src s)
  case (Suc n)
  from Suc.prems obtain s1 b s2 where s: "enter_page mp dst paddr w s = (0, s1)" "ld src s1 = Some b" "st dst b s1 = Some s2"
    "copy_file_bytes mp ld st w n (memsz - 1) (paddr + 1) (dst + 1) (src + 1) err s2 = Some (0, err', memsz', paddr', dst', s')"
    by (auto simp: Let_def split: prod.splits option.splits if_splits)
  have "\<exists>a s1 s2. mp (dst + of_nat k) a w s1 = (0, s2)" if "k < Suc n" "(dst + of_nat k) mod PAGE_SIZE = 0" for k
  proof (cases k)
    case 0
    then show ?thesis using s(1) that(2) by (auto simp: enter_page_def)
  next
    case (Suc j)
    then show ?thesis using Suc.IH [OF s(4)] that by (simp add: add.assoc)
  qed
  then show ?case using Suc.IH [OF s(4)] by (simp add: algebra_simps)
qed simp

lemma zero_bytes_enters:
  assumes "zero_bytes mp st w n paddr dst err s = Some (0, err', s')"
  shows "\<forall>k < n. (dst + of_nat k) mod PAGE_SIZE = 0 \<longrightarrow> (\<exists>a s1 s2. mp (dst + of_nat k) a w s1 = (0, s2))"
  using assms
proof (induction n arbitrary: paddr dst s)
  case (Suc n)
  from Suc.prems obtain s1 s2 where s: "enter_page mp dst paddr w s = (0, s1)" "st dst 0 s1 = Some s2"
    "zero_bytes mp st w n (paddr + 1) (dst + 1) err s2 = Some (0, err', s')"
    by (auto simp: Let_def split: prod.splits option.splits if_splits)
  show ?case
  proof (intro allI impI)
    fix k assume k: "k < Suc n" "(dst + of_nat k) mod PAGE_SIZE = 0"
    show "\<exists>a s1 s2. mp (dst + of_nat k) a w s1 = (0, s2)"
    proof (cases k)
      case 0
      then show ?thesis using s(1) k(2) by (auto simp: enter_page_def)
    next
      case (Suc j)
      then show ?thesis using Suc.IH [OF s(3)] k by (simp add: add.assoc)
    qed
  qed
qed simp

theorem file_larger_than_memory_never_maps:
  assumes "memsz < filesz"
  shows "fill_progseg paging_map virt_read8 virt_write8 w filesz memsz paddr vaddr src err m \<noteq> Some (0, err', m')"
proof
  assume "fill_progseg paging_map virt_read8 virt_write8 w filesz memsz paddr vaddr src err m = Some (0, err', m')"
  then obtain e memsz' p d m1 where
    copy: "copy_file_bytes paging_map virt_read8 virt_write8 w (unat filesz) memsz paddr vaddr src err m = Some (0, e, memsz', p, d, m1)" and
    clear: "zero_bytes paging_map virt_write8 w (unat memsz') p d e m1 = Some (0, err', m')"
    by (auto simp: fill_progseg_def valid_progseg_def Let_def split: prod.splits option.splits if_splits)
  have refused: "paging_map 0xffc00000 a w s1 \<noteq> (0, s2)" for a s1 s2
    by (auto simp: paging_map_def Let_def page_tables_set_entry_def is_table_idx_implemented_def vaddr2pd_idx_def NUM_PAGE_TABLES_def
        split: prod.splits if_splits)
  let ?k = "unat (0xffc00000 - vaddr)"
  have at: "vaddr + of_nat ?k = 0xffc00000" and page: "(0xffc00000 :: u32) mod PAGE_SIZE = 0" by (simp_all add: PAGE_SIZE_def)
  note c = copy_file_bytes_enters [OF copy]
  have late: "unat filesz \<le> ?k"
    using c at page refused by (metis not_le)
  have "unat memsz' = 4294967296 + unat memsz - unat filesz"
    using c assms by (simp add: unat_sub_if_size word_less_nat_alt word_size)
  moreover have "?k < 4294967296" using unsigned_less [of "0xffc00000 - vaddr", where 'a = nat] by simp
  ultimately have "?k - unat filesz < unat memsz'" using late by linarith
  moreover have "d + of_nat (?k - unat filesz) = 0xffc00000" using c at late by (simp add: of_nat_diff)
  ultimately show False using zero_bytes_enters [OF clear] page refused by metis
qed

text \<open>The sums of the range tests wrap, so a segment of almost 4 GiB passes them, and neither test has a lower bound: a segment
  may start at address 0, below \<open>KERNEL_PADDR_MIN\<close> and \<open>KERNEL_VADDR_MIN\<close>.\<close>

theorem range_tests_wrap:
  "valid_progseg 0x100000 0x100000 0xfff00000 err = (True, err)" "valid_progseg 0 0 0x1000 err = (True, err)"
  by (simp_all add: valid_progseg_def is_addr_page_aligned_def is_paddr_in_valid_range_def is_vaddr_in_valid_range_def
      KERNEL_PADDR_MAX_def KERNEL_VADDR_MAX_def PADDR_MAX_def)

end
