(* ===== verification/Port_Io.thy ===== *)
theory Port_Io
  imports Kboot_Prelude
begin

text \<open>
  The port instructions of \<open>include/io.h\<close> on a device of type \<open>'d\<close>, which is not part of the
  sources. A driver takes them as a record of operations and states what it relies on as a contract of
  its own. The second part is the interrupt flag of the processor (\<open>lib/eflags.c\<close>,
  \<open>include/intr.h\<close>).
\<close>

section \<open>Ports\<close>

record 'd ports =
  inb :: "u16 \<Rightarrow> 'd \<Rightarrow> u8 \<times> 'd"
  inw :: "u16 \<Rightarrow> 'd \<Rightarrow> u16 \<times> 'd"
  outb :: "u16 \<Rightarrow> u8 \<Rightarrow> 'd \<Rightarrow> 'd"

section \<open>The interrupt flag\<close>

text \<open>The EFLAGS register; IF is its bit 9.\<close>

definition EFLAGS_IF :: nat where "EFLAGS_IF = 9"

definition eflags_get_intr_flag :: "u32 \<Rightarrow> bool" where
  "eflags_get_intr_flag eflags = bit eflags EFLAGS_IF"

definition eflags_set_intr_flag :: "bool \<Rightarrow> u32 \<Rightarrow> u32" where
  "eflags_set_intr_flag b eflags = (if b then set_bit EFLAGS_IF eflags else unset_bit EFLAGS_IF eflags)"

definition intr_enable :: "u32 \<Rightarrow> u32" where
  "intr_enable eflags = set_bit EFLAGS_IF eflags"

definition intr_disable :: "u32 \<Rightarrow> u32" where
  "intr_disable eflags = unset_bit EFLAGS_IF eflags"

text \<open>A critical section restores the register it found.\<close>

lemma restore_intr_flag:
  "eflags_set_intr_flag (eflags_get_intr_flag eflags) (intr_disable eflags) = eflags"
  by (rule bit_word_eqI)
    (auto simp: eflags_set_intr_flag_def eflags_get_intr_flag_def intr_disable_def EFLAGS_IF_def
      bit_set_bit_iff bit_unset_bit_iff)

end
