(* ===== verification/Ata.thy ===== *)
theory Ata
  imports Strings Port_Io "HOL-Library.While_Combinator" "HOL-Library.Product_Lexorder"
begin

text \<open>
  The ATA PIO driver \<open>drivers/ata.c\<close>. The drive is not part of the sources: it is a state of type
  \<open>'d\<close> with the three port instructions of \<open>include/io.h\<close> as operations on it (\<open>ports\<close>). What
  the driver relies on is collected in \<open>ata_contract\<close>. A busy-wait loop is a
  \<open>while_option\<close>: it is \<open>None\<close> when the awaited status never comes.
\<close>

section \<open>Ports and register layouts\<close>

definition DATA :: u16 where "DATA = 0x1f0"
definition SEC_CNT :: u16 where "SEC_CNT = 0x1f2"
definition SEC_NUM :: u16 where "SEC_NUM = 0x1f3"
definition CYL_LO :: u16 where "CYL_LO = 0x1f4"
definition CYL_HI :: u16 where "CYL_HI = 0x1f5"
definition DRV_HD :: u16 where "DRV_HD = 0x1f6"
definition CMD :: u16 where "CMD = 0x1f7"
definition STATUS :: u16 where "STATUS = 0x1f7"
definition CONTROL :: u16 where "CONTROL = 0x3f6"
definition CMD_RSWOR :: u8 where "CMD_RSWOR = 0x21"
definition CMD_IDENTIFY :: u8 where "CMD_IDENTIFY = 0xec"
definition ATA_SECTOR_SIZE :: nat where "ATA_SECTOR_SIZE = 512"

lemmas ata_ports = DATA_def SEC_CNT_def SEC_NUM_def CYL_LO_def CYL_HI_def DRV_HD_def CMD_def
  STATUS_def CONTROL_def

text \<open>The bit-fields of \<open>ata_status_t\<close>.\<close>

definition status_err :: "u8 \<Rightarrow> bool" where "status_err r \<longleftrightarrow> bit r 0"
definition status_drq :: "u8 \<Rightarrow> bool" where "status_drq r \<longleftrightarrow> bit r 3"
definition status_rdy :: "u8 \<Rightarrow> bool" where "status_rdy r \<longleftrightarrow> bit r 6"
definition status_bsy :: "u8 \<Rightarrow> bool" where "status_bsy r \<longleftrightarrow> bit r 7"

text \<open>Writing the fields \<open>head_sel\<close> and \<open>drive_sel\<close> of \<open>ata_drv_hd_t\<close>, and \<open>srst\<close> of a
  cleared \<open>ata_control_t\<close>.\<close>

definition set_head_sel :: "u32 \<Rightarrow> u8 \<Rightarrow> u8" where
  "set_head_sel head r = (r AND 0xf0) OR (ucast head AND 0x0f)"

definition set_drive_sel :: "u32 \<Rightarrow> u8 \<Rightarrow> u8" where
  "set_drive_sel drive r = (r AND 0xef) OR push_bit 4 (ucast drive AND 1)"

definition control_srst :: "bool \<Rightarrow> u8" where
  "control_srst b = (if b then 4 else 0)"

section \<open>Primitive operations\<close>

definition read_status :: "'d ports \<Rightarrow> 'd \<Rightarrow> u8 \<times> 'd" where
  "read_status io d = inb io STATUS d"

definition is_busy :: "'d ports \<Rightarrow> 'd \<Rightarrow> bool \<times> 'd" where
  "is_busy io d = (let (r, d') = read_status io d in (status_bsy r, d'))"

definition is_drq :: "'d ports \<Rightarrow> 'd \<Rightarrow> bool \<times> 'd" where
  "is_drq io d = (let (r, d') = read_status io d in (status_drq r, d'))"

text \<open>
  All the waiting loops read the status register until a condition on it holds; the value is the
  status that ended the loop.
\<close>

definition wait_status :: "'d ports \<Rightarrow> (u8 \<Rightarrow> bool) \<Rightarrow> 'd \<Rightarrow> (u8 \<times> 'd) option" where
  "wait_status io P d =
     while_option (\<lambda>(r, d). \<not> P r) (\<lambda>(r, d). read_status io d) (read_status io d)"

definition ata_reset :: "'d ports \<Rightarrow> 'd \<Rightarrow> 'd option" where
  "ata_reset io d =
     (let d1 = outb io CONTROL (control_srst True) d;
          d2 = outb io CONTROL (control_srst False) d1
      in map_option snd (wait_status io (\<lambda>r. \<not> status_bsy r) d2))"

definition read_drv_hd :: "'d ports \<Rightarrow> 'd \<Rightarrow> u8 \<times> 'd" where
  "read_drv_hd io d = inb io DRV_HD d"

definition write_drv_hd :: "'d ports \<Rightarrow> u8 \<Rightarrow> 'd \<Rightarrow> 'd" where
  "write_drv_hd io r d = outb io DRV_HD r d"

definition read_data :: "'d ports \<Rightarrow> 'd \<Rightarrow> (u16 \<times> 'd) option" where
  "read_data io d =
     (case wait_status io status_drq d of
        None \<Rightarrow> None
      | Some (r, d') \<Rightarrow> Some (inw io DATA d'))"

definition send_cmd :: "'d ports \<Rightarrow> u8 \<Rightarrow> 'd \<Rightarrow> (int \<times> 'd) option" where
  "send_cmd io cmd d =
     (let (r, d1) = read_status io d
      in if status_drq r then Some (1, d1)
         else (case wait_status io (\<lambda>r. \<not> status_bsy r) d1 of
                 None \<Rightarrow> None
               | Some (_, d2) \<Rightarrow> Some (0, outb io CMD cmd d2)))"

definition select_head :: "'d ports \<Rightarrow> u32 \<Rightarrow> 'd \<Rightarrow> int \<times> 'd" where
  "select_head io head_num d =
     (if head_num > 15 then (1, d)
      else (let (r, d1) = read_drv_hd io d
            in (0, write_drv_hd io (set_head_sel head_num r) d1)))"

definition ata_select_drive :: "'d ports \<Rightarrow> u32 \<Rightarrow> 'd \<Rightarrow> (int \<times> 'd) option" where
  "ata_select_drive io drive_num d =
     (if drive_num > 1 then Some (1, d)
      else (let (r, d1) = read_drv_hd io d;
                d2 = write_drv_hd io (set_drive_sel drive_num r) d1;
                d3 = ((\<lambda>d. snd (read_status io d)) ^^ 4) d2
            in (case wait_status io status_rdy d3 of
                  None \<Rightarrow> None
                | Some (st, d4) \<Rightarrow> Some (if status_err st then 1 else 0, d4))))"

text \<open>The loop of \<open>_read_buffer_data\<close> from word \<open>i\<close> on; \<open>n\<close> words are left.\<close>

fun read_buffer_words :: "'d ports \<Rightarrow> nat \<Rightarrow> nat \<Rightarrow> u8 list \<Rightarrow> 'd \<Rightarrow> (u8 list \<times> 'd) option" where
  "read_buffer_words io i 0 dest d = Some (dest, d)"
| "read_buffer_words io i (Suc n) dest d =
     (case read_data io d of
        None \<Rightarrow> None
      | Some (w, d') \<Rightarrow>
          read_buffer_words io (Suc i) n
            (dest[2 * i := ucast w, 2 * i + 1 := ucast (drop_bit 8 w)]) d')"

definition read_buffer_data :: "'d ports \<Rightarrow> u8 list \<Rightarrow> 'd \<Rightarrow> (u8 list \<times> 'd) option" where
  "read_buffer_data io dest d = read_buffer_words io 0 (ATA_SECTOR_SIZE div 2) dest d"

section \<open>Identification\<close>

text \<open>The static \<open>_id_data\<close>, with the members that the driver writes or reads.\<close>

record ata_id =
  id_valid :: bool
  id_num_sectors :: u32
  id_cylinders :: u16
  id_heads :: u16
  id_spt :: u16
  id_model_number :: "char list"

definition MODEL_NUMBER_STR_LEN :: nat where "MODEL_NUMBER_STR_LEN = 40"
definition MODEL_NUMBER_STR_OFF :: nat where "MODEL_NUMBER_STR_OFF = 27"
definition SERIAL_NUMBER_STR_LEN :: nat where "SERIAL_NUMBER_STR_LEN = 20"
definition SERIAL_NUMBER_STR_OFF :: nat where "SERIAL_NUMBER_STR_OFF = 10"

definition set_identify_data :: "u8 list \<Rightarrow> ata_id \<Rightarrow> ata_id option" where
  "set_identify_data buf idd =
     (let idd1 = idd\<lparr>id_num_sectors := push_bit 16 (ucast (le16 buf (2 * 58))) OR ucast (le16 buf (2 * 57)),
                 id_cylinders := le16 buf (2 * 1), id_heads := le16 buf (2 * 3),
                 id_spt := le16 buf (2 * 6)\<rparr>
      in (case strncpy (id_model_number idd1)
                 (map byte_char (drop (2 * MODEL_NUMBER_STR_OFF) buf)) MODEL_NUMBER_STR_LEN of
            None \<Rightarrow> None
          | Some m \<Rightarrow> Some (idd1\<lparr>id_model_number := m[MODEL_NUMBER_STR_LEN := NUL], id_valid := True\<rparr>)))"

text \<open>Swaps the two bytes of every word of the \<open>len\<close> bytes at \<open>off\<close>.\<close>

definition swap_str_bytes :: "nat \<Rightarrow> nat \<Rightarrow> u8 list \<Rightarrow> u8 list" where
  "swap_str_bytes off len buf =
     foldl (\<lambda>b k. b[off + 2 * k := b ! (off + 2 * k + 1), off + 2 * k + 1 := b ! (off + 2 * k)])
       buf [0..<(len + 1) div 2]"

definition ata_identify :: "'d ports \<Rightarrow> u32 \<Rightarrow> u8 list \<Rightarrow> ata_id \<Rightarrow> 'd \<Rightarrow> (int \<times> ata_id \<times> 'd) option" where
  "ata_identify io drive_num stackbuf idd d =
     (if drive_num \<noteq> 0 then Some (1, idd, d)
      else (case ata_select_drive io drive_num d of
              None \<Rightarrow> None
            | Some (rc, d1) \<Rightarrow>
                if rc \<noteq> 0 then Some (1, idd, d1)
                else (let d2 = outb io CYL_HI 0 (outb io CYL_LO 0 (outb io SEC_NUM 0 d1))
                      in (case send_cmd io CMD_IDENTIFY d2 of
                            None \<Rightarrow> None
                          | Some (_, d3) \<Rightarrow>
                              (let (st, d4) = read_status io d3
                               in if st = 0 then Some (1, idd, d4)
                                  else (case wait_status io (\<lambda>r. \<not> status_bsy r) d4 of None \<Rightarrow> None
                                  | Some (_, d5) \<Rightarrow>
                                      (case wait_status io status_drq d5 of None \<Rightarrow> None
                                  | Some (_, d6) \<Rightarrow>
                                      (case read_buffer_data io stackbuf d6 of None \<Rightarrow> None
                                  | Some (b, d7) \<Rightarrow>
                                      map_option (\<lambda>idd'. (0, idd', d7))
                                        (set_identify_data
                                          (swap_str_bytes (2 * SERIAL_NUMBER_STR_OFF) SERIAL_NUMBER_STR_LEN
                                            (swap_str_bytes (2 * MODEL_NUMBER_STR_OFF) MODEL_NUMBER_STR_LEN b))
                                          idd)))))))))"

definition ata_init :: "'d ports \<Rightarrow> u8 list \<Rightarrow> ata_id \<Rightarrow> 'd \<Rightarrow> (int \<times> ata_id \<times> 'd) option" where
  "ata_init io stackbuf idd d =
     (case ata_reset io d of
        None \<Rightarrow> None
      | Some d1 \<Rightarrow>
          (case ata_identify io 0 stackbuf idd d1 of
             None \<Rightarrow> None
           | Some (rc, idd', d2) \<Rightarrow> Some (if rc \<noteq> 0 then 1 else 0, idd', d2)))"

section \<open>Reading a sector\<close>

definition ata_read_sector_chs ::
    "'d ports \<Rightarrow> u32 \<Rightarrow> u32 \<Rightarrow> u32 \<Rightarrow> u8 list \<Rightarrow> 'd \<Rightarrow> (int \<times> u8 list \<times> 'd) option" where
  "ata_read_sector_chs io cyl_num head_num sec_num buf d =
     (if cyl_num > 1023 then Some (1, buf, d)
      else if head_num > 15 then Some (1, buf, d)
      else if sec_num < 1 \<or> sec_num > 256 then Some (1, buf, d)
      else (let (rc, d1) = select_head io head_num d
            in if rc \<noteq> 0 then Some (1, buf, d1)
               else (let d2 = outb io SEC_CNT 1 d1;
                         d3 = outb io SEC_NUM (ucast sec_num) d2;
                         d4 = outb io CYL_LO (ucast (cyl_num AND 0xff)) d3;
                         d5 = outb io CYL_HI (ucast (drop_bit 8 (cyl_num AND 0x300))) d4
                     in (case send_cmd io CMD_RSWOR d5 of
                           None \<Rightarrow> None
                         | Some (rc2, d6) \<Rightarrow>
                             if rc2 \<noteq> 0 then Some (1, buf, d6)
                             else (case wait_status io (\<lambda>r. status_drq r \<and> \<not> status_bsy r) d6 of
                                     None \<Rightarrow> None
                                   | Some (st, d7) \<Rightarrow>
                                       if status_err st then Some (1, buf, d7)
                                       else map_option (\<lambda>(b, d8). (0, b, d8))
                                              (read_buffer_data io buf d7))))))"

text \<open>
  The three outputs of \<open>_lba2chs\<close>, ordered by cylinder, head and sector, the order in which a
  drive numbers its sectors.
\<close>

datatype chs = Chs u32 u32 u32

fun chs_key :: "chs \<Rightarrow> u32 \<times> u32 \<times> u32" where
  "chs_key (Chs c h s) = (c, h, s)"

lemma chs_key_inj: "chs_key a = chs_key b \<Longrightarrow> a = b"
  by (cases a; cases b) simp

instantiation chs :: linorder
begin

definition less_eq_chs :: "chs \<Rightarrow> chs \<Rightarrow> bool" where
  "less_eq_chs a b \<longleftrightarrow> chs_key a \<le> chs_key b"

definition less_chs :: "chs \<Rightarrow> chs \<Rightarrow> bool" where
  "less_chs a b \<longleftrightarrow> chs_key a < chs_key b"

instance
  by standard (auto simp: less_eq_chs_def less_chs_def intro: chs_key_inj)

end

text \<open>
  \<open>None\<close> is the divide error of a zero divisor, \<open>Some None\<close> the return value 1.
\<close>

definition lba2chs :: "ata_id \<Rightarrow> u32 \<Rightarrow> chs option option" where
  "lba2chs idd lba =
     (if lba \<ge> id_num_sectors idd then Some None
      else (let heads = ucast (id_heads idd); spt = ucast (id_spt idd)
            in if heads * spt = 0 \<or> spt = 0 then None
               else (let c = lba div (heads * spt);
                         h = (lba - c * heads * spt) div spt;
                         s = (lba - c * heads * spt - h * spt) + 1
                     in Some (Some (Chs c h s)))))"

definition ata_read_sector_lba ::
    "'d ports \<Rightarrow> ata_id \<Rightarrow> u32 \<Rightarrow> u8 list \<Rightarrow> 'd \<Rightarrow> (int \<times> u8 list \<times> 'd) option" where
  "ata_read_sector_lba io idd lba buf d =
     (case lba2chs idd lba of
        None \<Rightarrow> None
      | Some None \<Rightarrow> Some (1, buf, d)
      | Some (Some (Chs c h s)) \<Rightarrow> ata_read_sector_chs io c h s buf d)"

section \<open>What the driver relies on\<close>

text \<open>
  \<open>view\<close> is the programmer's view of the drive: the task-file registers and the phase of the
  command. \<open>Busy n ws\<close> shows BSY for \<open>n\<close> further status reads; \<open>Data ws\<close> has the words
  \<open>ws\<close> left to transfer. \<open>ata_contract\<close> is the PIO data-in protocol of the ATA standard for a drive with
  \<open>H\<close> heads and \<open>S\<close> sectors per track that holds the sectors \<open>D 0, ..., D (N - 1)\<close>.
\<close>

datatype ata_phase = Idle | Busy nat "u16 list" | Data "u16 list"

record ata_view =
  v_sec_cnt :: u8
  v_sec_num :: u8
  v_cyl_lo :: u8
  v_cyl_hi :: u8
  v_drv_hd :: u8
  v_phase :: ata_phase

definition sector_words :: "u8 list \<Rightarrow> u16 list" where
  "sector_words bs = map (\<lambda>i. le16 bs (2 * i)) [0..<ATA_SECTOR_SIZE div 2]"

definition view_lba :: "nat \<Rightarrow> nat \<Rightarrow> ata_view \<Rightarrow> nat" where
  "view_lba H S v =
     ((unat (v_cyl_lo v) + 256 * unat (v_cyl_hi v)) * H + unat (v_drv_hd v AND 0x0f)) * S
       + unat (v_sec_num v) - 1"

definition view_addr_ok :: "nat \<Rightarrow> nat \<Rightarrow> nat \<Rightarrow> ata_view \<Rightarrow> bool" where
  "view_addr_ok H S N v \<longleftrightarrow> v_sec_cnt v = 1 \<and> \<not> bit (v_drv_hd v) 4 \<and> unat (v_drv_hd v AND 0x0f) < H \<and>
     0 < unat (v_sec_num v) \<and> unat (v_sec_num v) \<le> S \<and> view_lba H S v < N"

definition ata_contract ::
    "'d ports \<Rightarrow> ('d \<Rightarrow> ata_view) \<Rightarrow> nat \<Rightarrow> nat \<Rightarrow> nat \<Rightarrow> (nat \<Rightarrow> u8 list) \<Rightarrow> bool" where
  "ata_contract io view H S N D \<longleftrightarrow>
     (\<forall>d v. v_phase (view d) = Idle \<longrightarrow>
        view (outb io SEC_CNT v d) = (view d)\<lparr>v_sec_cnt := v\<rparr> \<and>
        view (outb io SEC_NUM v d) = (view d)\<lparr>v_sec_num := v\<rparr> \<and>
        view (outb io CYL_LO v d) = (view d)\<lparr>v_cyl_lo := v\<rparr> \<and>
        view (outb io CYL_HI v d) = (view d)\<lparr>v_cyl_hi := v\<rparr> \<and>
        view (outb io DRV_HD v d) = (view d)\<lparr>v_drv_hd := v\<rparr>) \<and>
     (\<forall>d. v_phase (view d) = Idle \<longrightarrow>
        fst (inb io DRV_HD d) = v_drv_hd (view d) \<and> view (snd (inb io DRV_HD d)) = view d) \<and>
     (\<forall>d. v_phase (view d) = Idle \<longrightarrow>
        \<not> status_drq (fst (inb io STATUS d)) \<and> \<not> status_bsy (fst (inb io STATUS d)) \<and>
        view (snd (inb io STATUS d)) = view d) \<and>
     (\<forall>d n ws. v_phase (view d) = Busy n ws \<longrightarrow>
        status_bsy (fst (inb io STATUS d)) \<and>
        view (snd (inb io STATUS d)) =
          (view d)\<lparr>v_phase := (case n of 0 \<Rightarrow> Data ws | Suc m \<Rightarrow> Busy m ws)\<rparr>) \<and>
     (\<forall>d w ws. v_phase (view d) = Data (w # ws) \<longrightarrow>
        status_drq (fst (inb io STATUS d)) \<and> \<not> status_bsy (fst (inb io STATUS d)) \<and>
        \<not> status_err (fst (inb io STATUS d)) \<and> view (snd (inb io STATUS d)) = view d) \<and>
     (\<forall>d w ws. v_phase (view d) = Data (w # ws) \<longrightarrow>
        fst (inw io DATA d) = w \<and>
        view (snd (inw io DATA d)) =
          (view d)\<lparr>v_phase := (if ws = [] then Idle else Data ws)\<rparr>) \<and>
     (\<forall>d. v_phase (view d) = Idle \<and> view_addr_ok H S N (view d) \<longrightarrow>
        (\<exists>n. view (outb io CMD CMD_RSWOR d) =
          (view d)\<lparr>v_phase := Busy n (sector_words (D (view_lba H S (view d))))\<rparr>)) \<and>
     (\<forall>n < N. length (D n) = ATA_SECTOR_SIZE)"

section \<open>Waiting and transferring\<close>

lemma read_status_eq: "read_status io = inb io STATUS"
  by (simp add: fun_eq_iff read_status_def)

lemma wait_status_now:
  "inb io STATUS d = (r, d') \<Longrightarrow> P r \<Longrightarrow> wait_status io P d = Some (r, d')"
  by (subst wait_status_def, subst while_option_unfold) (simp add: read_status_def)

lemma wait_status_again:
  "inb io STATUS d = (r, d') \<Longrightarrow> \<not> P r \<Longrightarrow> wait_status io P d = wait_status io P d'"
  by (subst wait_status_def, subst while_option_unfold) (simp add: wait_status_def read_status_eq)

text \<open>A loop whose condition can never hold does not return.\<close>

lemma wait_status_never:
  assumes closed: "\<And>d. d \<in> K \<Longrightarrow> snd (inb io STATUS d) \<in> K"
    and never: "\<And>d. d \<in> K \<Longrightarrow> \<not> P (fst (inb io STATUS d))"
    and "d \<in> K"
  shows "wait_status io P d = None"
proof -
  let ?I = "\<lambda>(r, d). \<not> P r \<and> d \<in> K"
  have "\<not> (\<exists>t. while_option (\<lambda>(r, d). \<not> P r) (\<lambda>(r, d). read_status io d) (read_status io d) = Some t)"
  proof
    assume "\<exists>t. while_option (\<lambda>(r, d). \<not> P r) (\<lambda>(r, d). read_status io d) (read_status io d) = Some t"
    then obtain t where run:
      "while_option (\<lambda>(r, d). \<not> P r) (\<lambda>(r, d). read_status io d) (read_status io d) = Some t" ..
    have "?I t"
    proof (rule while_option_rule [OF _ run])
      show "?I (read_status io d)"
        using assms by (auto simp: read_status_def split: prod.split)
           (metis fst_conv snd_conv)+
      show "?I ((\<lambda>(r, d). read_status io d) s)" if "?I s" "(\<lambda>(r, d). \<not> P r) s" for s
        using that closed never by (auto simp: read_status_def split: prod.splits)
           (metis fst_conv snd_conv)+
    qed
    with while_option_stop [OF run] show False by auto
  qed
  then show ?thesis
    unfolding wait_status_def by (metis option.exhaust)
qed

text \<open>The clauses of the contract.\<close>

lemma idle_write:
  assumes "ata_contract io view H S N D" and "v_phase (view d) = Idle"
  shows "view (outb io SEC_CNT v d) = (view d)\<lparr>v_sec_cnt := v\<rparr>"
    and "view (outb io SEC_NUM v d) = (view d)\<lparr>v_sec_num := v\<rparr>"
    and "view (outb io CYL_LO v d) = (view d)\<lparr>v_cyl_lo := v\<rparr>"
    and "view (outb io CYL_HI v d) = (view d)\<lparr>v_cyl_hi := v\<rparr>"
    and "view (outb io DRV_HD v d) = (view d)\<lparr>v_drv_hd := v\<rparr>"
  using assms unfolding ata_contract_def by blast+

lemma idle_drv_hd:
  assumes "ata_contract io view H S N D" and "v_phase (view d) = Idle"
  shows "fst (inb io DRV_HD d) = v_drv_hd (view d)" and "view (snd (inb io DRV_HD d)) = view d"
  using assms unfolding ata_contract_def by blast+

lemma idle_status:
  assumes "ata_contract io view H S N D" and "v_phase (view d) = Idle"
  shows "\<not> status_drq (fst (inb io STATUS d))" and "\<not> status_bsy (fst (inb io STATUS d))"
    and "view (snd (inb io STATUS d)) = view d"
  using assms unfolding ata_contract_def by blast+

lemma busy_status:
  assumes "ata_contract io view H S N D" and "v_phase (view d) = Busy n ws"
  shows "status_bsy (fst (inb io STATUS d))"
    and "view (snd (inb io STATUS d)) =
          (view d)\<lparr>v_phase := (case n of 0 \<Rightarrow> Data ws | Suc m \<Rightarrow> Busy m ws)\<rparr>"
  using assms unfolding ata_contract_def by blast+

lemma data_status:
  assumes "ata_contract io view H S N D" and "v_phase (view d) = Data (w # ws)"
  shows "status_drq (fst (inb io STATUS d))" and "\<not> status_bsy (fst (inb io STATUS d))"
    and "\<not> status_err (fst (inb io STATUS d))" and "view (snd (inb io STATUS d)) = view d"
  using assms unfolding ata_contract_def by blast+

lemma data_read:
  assumes "ata_contract io view H S N D" and "v_phase (view d) = Data (w # ws)"
  shows "fst (inw io DATA d) = w"
    and "view (snd (inw io DATA d)) = (view d)\<lparr>v_phase := (if ws = [] then Idle else Data ws)\<rparr>"
  using assms unfolding ata_contract_def by blast+

lemma start_read:
  assumes "ata_contract io view H S N D" and "v_phase (view d) = Idle" and "view_addr_ok H S N (view d)"
  obtains n where "view (outb io CMD CMD_RSWOR d) =
          (view d)\<lparr>v_phase := Busy n (sector_words (D (view_lba H S (view d))))\<rparr>"
  using assms unfolding ata_contract_def by blast

lemma contract_sector_length:
  "ata_contract io view H S N D \<Longrightarrow> n < N \<Longrightarrow> length (D n) = ATA_SECTOR_SIZE"
  unfolding ata_contract_def by blast

lemma wait_data:
  assumes con: "ata_contract io view H S N D" and "ws \<noteq> []"
  shows "v_phase (view d) = Busy n ws \<Longrightarrow>
    \<exists>r d'. wait_status io (\<lambda>r. status_drq r \<and> \<not> status_bsy r) d = Some (r, d') \<and> \<not> status_err r \<and>
      view d' = (view d)\<lparr>v_phase := Data ws\<rparr>"
proof (induction n arbitrary: d)
  case (Suc n)
  note busy = busy_status [OF con Suc.prems]
  from Suc.IH [of "snd (inb io STATUS d)"] busy show ?case
    by (subst wait_status_again [of io d "fst (inb io STATUS d)" "snd (inb io STATUS d)"]) auto
next
  case 0
  let ?d = "snd (inb io STATUS d)"
  note busy = busy_status [OF con 0]
  obtain w ws' where ws: "ws = w # ws'" using assms(2) by (cases ws) auto
  have ph: "v_phase (view ?d) = Data (w # ws')" using busy(2) ws by simp
  have "wait_status io (\<lambda>r. status_drq r \<and> \<not> status_bsy r) d =
      wait_status io (\<lambda>r. status_drq r \<and> \<not> status_bsy r) ?d"
    using busy by (intro wait_status_again [of io d "fst (inb io STATUS d)"]) auto
  also have "\<dots> = Some (inb io STATUS ?d)"
    using data_status [OF con ph] by (cases "inb io STATUS ?d") (auto intro: wait_status_now)
  finally show ?case
    using data_status [OF con ph] busy(2) by (cases "inb io STATUS ?d") auto
qed

lemma read_data_word:
  assumes con: "ata_contract io view H S N D" and ph: "v_phase (view d) = Data (w # ws)"
  shows "\<exists>d'. read_data io d = Some (w, d') \<and>
    view d' = (view d)\<lparr>v_phase := (if ws = [] then Idle else Data ws)\<rparr>"
proof -
  obtain r d1 where st: "inb io STATUS d = (r, d1)" by (cases "inb io STATUS d")
  note status = data_status [OF con ph, unfolded st fst_conv snd_conv]
  then have "wait_status io status_drq d = Some (r, d1)"
    using st by (intro wait_status_now) auto
  moreover have "v_phase (view d1) = Data (w # ws)" using status(4) ph by simp
  from data_read [OF con this] status(4) have "fst (inw io DATA d1) = w"
      "view (snd (inw io DATA d1)) = (view d)\<lparr>v_phase := (if ws = [] then Idle else Data ws)\<rparr>"
    by simp_all
  ultimately show ?thesis
    by (cases "inw io DATA d1") (simp add: read_data_def)
qed

definition word_bytes :: "u16 \<Rightarrow> u8 list" where
  "word_bytes w = [ucast w, ucast (drop_bit 8 w)]"

lemma read_buffer_words_data:
  assumes con: "ata_contract io view H S N D"
  shows "v_phase (view d) = (if ws = [] then Idle else Data ws) \<Longrightarrow>
    length dest = 2 * (i + length ws) \<Longrightarrow>
    \<exists>d'. read_buffer_words io i (length ws) dest d = Some (take (2 * i) dest @ concat (map word_bytes ws), d') \<and>
      view d' = (view d)\<lparr>v_phase := Idle\<rparr>"
proof (induction ws arbitrary: i dest d)
  case (Cons w ws)
  from read_data_word [OF con] Cons.prems(1) obtain d1 where
    d1: "read_data io d = Some (w, d1)" "view d1 = (view d)\<lparr>v_phase := (if ws = [] then Idle else Data ws)\<rparr>"
    by force
  let ?dest = "dest[2 * i := ucast w, 2 * i + 1 := ucast (drop_bit 8 w)]"
  have "take (2 * Suc i) ?dest = take (2 * i) dest @ word_bytes w"
    using Cons.prems(2)
    by (simp add: word_bytes_def take_Suc_conv_app_nth)
  with Cons.IH [of d1 ?dest "Suc i"] d1 Cons.prems(2) show ?case by auto
qed simp

lemma word_bytes_le16:
  "word_bytes (le16 bs i) = [bs ! i, bs ! (i + 1)]"
proof -
  have "ucast (le16 bs i) = bs ! i"
    by (rule bit_word_eqI) (auto simp: le16_def bit_simps)
  moreover have "ucast (drop_bit 8 (le16 bs i)) = bs ! (i + 1)"
    by (rule bit_word_eqI) (auto simp: le16_def bit_simps dest: bit_imp_le_length)
  ultimately show ?thesis by (simp add: word_bytes_def)
qed

lemma bytes_of_words:
  "length bs = 2 * n \<Longrightarrow> concat (map (\<lambda>i. [bs ! (2 * i), bs ! (2 * i + 1)]) [0..<n]) = bs"
proof (induction n arbitrary: bs)
  case (Suc n)
  let ?b = "take (2 * n) bs"
  have "concat (map (\<lambda>i. [bs ! (2 * i), bs ! (2 * i + 1)]) [0..<n]) =
      concat (map (\<lambda>i. [?b ! (2 * i), ?b ! (2 * i + 1)]) [0..<n])"
    by (rule arg_cong [of _ _ concat]) auto
  also have "\<dots> = ?b" using Suc by simp
  finally have "concat (map (\<lambda>i. [bs ! (2 * i), bs ! (2 * i + 1)]) [0..<n]) = ?b" .
  moreover have "drop (2 * n) bs = [bs ! (2 * n), bs ! (2 * n + 1)]"
    using Suc.prems by (simp add: Cons_nth_drop_Suc [symmetric])
  ultimately show ?case
    by simp (metis append_take_drop_id)
qed simp

lemma sector_words_bytes:
  "length bs = ATA_SECTOR_SIZE \<Longrightarrow> concat (map word_bytes (sector_words bs)) = bs"
  using bytes_of_words [of bs 256]
  by (simp add: sector_words_def comp_def word_bytes_le16 ATA_SECTOR_SIZE_def)

section \<open>Address translation\<close>

lemma lba2chs_spec:
  assumes lt: "lba < id_num_sectors idd" and geo: "0 < unat (id_heads idd)" "0 < unat (id_spt idd)"
  defines "H \<equiv> unat (id_heads idd)" and "S \<equiv> unat (id_spt idd)" and "L \<equiv> unat lba"
  shows "\<exists>c h s. lba2chs idd lba = Some (Some (Chs c h s)) \<and> unat c = L div (H * S) \<and>
    unat h = L mod (H * S) div S \<and> unat s = L mod S + 1"
proof -
  let ?h = "ucast (id_heads idd) :: u32" and ?s = "ucast (id_spt idd) :: u32"
  have HS: "H \<le> 65535" "S \<le> 65535" "0 < H" "0 < S"
    using unat_u16_bound [of "id_heads idd"] unat_u16_bound [of "id_spt idd"] geo
    by (simp_all add: H_def S_def)
  have "H * S \<le> 65535 * 65535"
    using HS by (intro mult_mono) simp_all
  then have hs: "unat (?h * ?s) = H * S"
    by (subst unat_mult_no_overflow) (simp_all add: H_def S_def)
  let ?c = "lba div (?h * ?s)"
  have c: "unat ?c = L div (H * S)"
    by (simp add: unat_div hs L_def)
  have L: "L < 4294967296"
    using unat_u32_bound [of lba] by (simp add: L_def)
  have "L div (H * S) * (H * S) < 4294967296"
    by (rule le_less_trans [OF div_times_less_eq_dividend L])
  then have chs: "unat (?c * (?h * ?s)) = L div (H * S) * (H * S)"
    using c hs L by (subst unat_mult_no_overflow) simp_all
  then have r: "unat (lba - ?c * ?h * ?s) = L mod (H * S)"
    by (simp add: mult.assoc minus_div_mult_eq_mod unat_mod hs L_def)
  let ?hd = "(lba - ?c * ?h * ?s) div ?s"
  have h: "unat ?hd = L mod (H * S) div S"
    unfolding unat_div r by (simp add: S_def)
  have "L mod (H * S) < 4294967296"
    by (rule le_less_trans [OF mod_less_eq_dividend L])
  then have "L mod (H * S) div S * S < 4294967296"
    by (rule le_less_trans [OF div_times_less_eq_dividend])
  then have hS: "unat (?hd * ?s) = L mod (H * S) div S * S"
    using h L by (subst unat_mult_no_overflow) (simp_all add: S_def)
  have "unat (lba - ?c * ?h * ?s - ?hd * ?s) = L mod (H * S) mod S"
    unfolding unat_sub_u32 [of "lba - ?c * ?h * ?s"] hS r by (simp add: minus_div_mult_eq_mod)
  also have "\<dots> = L mod S"
    by (simp add: mod_mod_cancel)
  finally have rest: "unat (lba - ?c * ?h * ?s - ?hd * ?s) = L mod S" .
  have "L mod S + 1 < 4294967296"
    using mod_less_divisor [OF HS(4), of L] HS(2) by linarith
  then have s: "unat (lba - ?c * ?h * ?s - ?hd * ?s + 1) = L mod S + 1"
    using HS rest by (subst unat_add_no_overflow) simp_all
  have "?h * ?s \<noteq> 0" "?s \<noteq> 0"
    using hs HS by (auto simp: S_def)
  then have "lba2chs idd lba =
      Some (Some (Chs ?c ?hd (lba - ?c * ?h * ?s - ?hd * ?s + 1)))"
    using lt by (simp add: lba2chs_def Let_def not_le)
  with c h s show ?thesis by blast
qed

text \<open>The quotients and remainders give the linear address back.\<close>

lemma chs_roundtrip:
  assumes "0 < (S :: nat)"
  shows "(L div (H * S) * H + L mod (H * S) div S) * S + L mod S = L"
proof -
  have "(L div (H * S) * H + L mod (H * S) div S) * S + L mod S =
      L div (H * S) * (H * S) + (L mod (H * S) div S * S + L mod (H * S) mod S)"
    by (simp add: algebra_simps mod_mod_cancel)
  also have "\<dots> = L"
    by (simp only: div_mult_mod_eq)
  finally show ?thesis .
qed

lemma div_mod_less:
  "(a :: nat) < b \<Longrightarrow> a div n < b div n \<or> a div n = b div n \<and> a mod n < b mod n"
proof -
  assume ab: "a < b"
  have "a div n \<le> b div n" using ab by (intro div_le_mono) simp
  then consider "a div n < b div n" | "a div n = b div n" by linarith
  then show ?thesis
  proof cases
    case 2
    have "a mod n < b mod n"
      using ab div_mult_mod_eq [of a n] div_mult_mod_eq [of b n] unfolding 2 by linarith
    with 2 show ?thesis by simp
  qed simp
qed

section \<open>Reading a sector\<close>

text \<open>What the program knows about the drive: its geometry fits the task-file registers, drive 0 is
  selected and no command is in progress. \<open>drive_geometry\<close> says nothing about the number of cylinders;
  \<open>geometry_ok\<close> adds that the whole capacity can be addressed by the 1024 cylinders that
  \<open>ata_read_sector_chs\<close> accepts.\<close>

definition drive_geometry :: "ata_id \<Rightarrow> nat \<Rightarrow> nat \<Rightarrow> nat \<Rightarrow> bool" where
  "drive_geometry idd H S N \<longleftrightarrow> unat (id_heads idd) = H \<and> unat (id_spt idd) = S \<and>
     0 < H \<and> H \<le> 16 \<and> 0 < S \<and> S \<le> 255 \<and> unat (id_num_sectors idd) \<le> N"

definition geometry_ok :: "ata_id \<Rightarrow> nat \<Rightarrow> nat \<Rightarrow> nat \<Rightarrow> bool" where
  "geometry_ok idd H S N \<longleftrightarrow> unat (id_heads idd) = H \<and> unat (id_spt idd) = S \<and>
     0 < H \<and> H \<le> 16 \<and> 0 < S \<and> S \<le> 255 \<and> unat (id_num_sectors idd) \<le> N \<and>
     unat (id_num_sectors idd) \<le> 1024 * H * S"

definition drive_ready :: "ata_view \<Rightarrow> bool" where
  "drive_ready v \<longleftrightarrow> v_phase v = Idle \<and> \<not> bit (v_drv_hd v) 4"

lemma cylinder_registers:
  assumes "\<not> (c :: u32) > 1023"
  shows "unat (ucast (c AND 0xff) :: u8) + 256 * unat (ucast (drop_bit 8 (c AND 0x300)) :: u8) = unat c"
proof -
  have c: "unat c < 1024" using assms by (simp add: word_le_nat_alt not_less)
  have "c AND 0xff = take_bit 8 c"
    by (simp add: take_bit_eq_mask mask_eq_exp_minus_1)
  then have "unat (ucast (c AND 0xff) :: u8) = unat c mod 256"
    by (simp add: unsigned_ucast_eq unsigned_take_bit_eq take_bit_eq_mod unat_mod)
  moreover have "drop_bit 8 (c AND 0x300) = take_bit 2 (drop_bit 8 c)"
  proof -
    have m: "(0x300 :: u32) = push_bit 8 (mask 2)"
      by (simp add: mask_eq_exp_minus_1 push_bit_eq_mult)
    show ?thesis
      unfolding m by (rule bit_word_eqI) (auto simp: bit_simps)
  qed
  then have "unat (ucast (drop_bit 8 (c AND 0x300)) :: u8) = unat c div 256 mod 4"
    by (simp add: unsigned_ucast_eq unsigned_take_bit_eq drop_bit_eq_div unat_div unat_mod take_bit_eq_mod)
  ultimately show ?thesis using c by simp
qed

lemma set_head_sel_view:
  assumes "\<not> (head :: u32) > 15"
  shows "unat (set_head_sel head r AND 0x0f) = unat head" and "bit (set_head_sel head r) 4 = bit r 4"
proof -
  have m: "(0xf0 :: u8) = push_bit 4 (mask 4)" "(0x0f :: u8) = mask 4"
    by (simp_all add: mask_eq_exp_minus_1 push_bit_eq_mult)
  have "set_head_sel head r AND 0x0f = take_bit 4 (ucast head)"
    unfolding set_head_sel_def m by (rule bit_word_eqI) (auto simp: bit_simps)
  then have "unat (set_head_sel head r AND 0x0f) = unat head mod 256 mod 16"
    by (simp add: unsigned_ucast_eq unsigned_take_bit_eq take_bit_eq_mod unat_mod)
  moreover have "unat head < 16" using assms by (simp add: word_le_nat_alt not_less)
  ultimately show "unat (set_head_sel head r AND 0x0f) = unat head" by simp
  show "bit (set_head_sel head r) 4 = bit r 4"
    by (simp add: set_head_sel_def bit_simps)
qed

lemma wait_idle:
  assumes con: "ata_contract io view H S N D" and idle: "v_phase (view d) = Idle"
  shows "\<exists>r d'. wait_status io (\<lambda>r. \<not> status_bsy r) d = Some (r, d') \<and> view d' = view d"
  using idle_status(2,3) [OF con idle] wait_status_now [of io d _ _ "\<lambda>r. \<not> status_bsy r"]
  by (cases "inb io STATUS d") auto

lemma send_cmd_idle:
  assumes con: "ata_contract io view H S N D" and idle: "v_phase (view d) = Idle"
  shows "\<exists>d'. send_cmd io cmd d = Some (0, outb io CMD cmd d') \<and> view d' = view d"
proof -
  note st = idle_status [OF con idle]
  from wait_idle [OF con, of "snd (inb io STATUS d)"] st(3) idle obtain r d' where
    "wait_status io (\<lambda>r. \<not> status_bsy r) (snd (inb io STATUS d)) = Some (r, d')" "view d' = view d"
    by auto
  with st(1) show ?thesis
    by (cases "inb io STATUS d") (auto simp: send_cmd_def read_status_eq)
qed

lemma select_head_idle:
  assumes con: "ata_contract io view H S N D" and idle: "v_phase (view d) = Idle"
    and "\<not> head > 15"
  shows "\<exists>d'. select_head io head d = (0, d') \<and>
    view d' = (view d)\<lparr>v_drv_hd := set_head_sel head (v_drv_hd (view d))\<rparr>"
proof -
  obtain r d1 where rd: "inb io DRV_HD d = (r, d1)" by (cases "inb io DRV_HD d")
  note hd = idle_drv_hd [OF con idle, unfolded rd fst_conv snd_conv]
  with idle_write(5) [OF con, of d1 "set_head_sel head r"] idle assms(3) rd show ?thesis
    by (simp add: select_head_def read_drv_hd_def write_drv_hd_def)
qed

text \<open>Once the command has been accepted the sector arrives.\<close>

lemma transfer_sector:
  assumes con: "ata_contract io view H S N D" and ph: "v_phase (view d) = Busy n (sector_words bs)"
    and len: "length bs = ATA_SECTOR_SIZE" "length buf = ATA_SECTOR_SIZE"
  shows "\<exists>st d1 d'. wait_status io (\<lambda>r. status_drq r \<and> \<not> status_bsy r) d = Some (st, d1) \<and>
    \<not> status_err st \<and> read_buffer_data io buf d1 = Some (bs, d') \<and> view d' = (view d)\<lparr>v_phase := Idle\<rparr>"
proof -
  have n: "length (sector_words bs) = ATA_SECTOR_SIZE div 2" by (simp add: sector_words_def)
  then have ne: "sector_words bs \<noteq> []" by (auto simp: ATA_SECTOR_SIZE_def)
  from wait_data [OF con ne ph] obtain st d1 where
    d1: "wait_status io (\<lambda>r. status_drq r \<and> \<not> status_bsy r) d = Some (st, d1)" "\<not> status_err st"
      "view d1 = (view d)\<lparr>v_phase := Data (sector_words bs)\<rparr>"
    by blast
  from read_buffer_words_data [OF con, of d1 "sector_words bs" buf 0] d1(3) n ne len(2) obtain d' where
    "read_buffer_words io 0 (ATA_SECTOR_SIZE div 2) buf d1 = Some (concat (map word_bytes (sector_words bs)), d')"
      "view d' = (view d)\<lparr>v_phase := Idle\<rparr>"
    by (auto simp: ATA_SECTOR_SIZE_def)
  with d1 sector_words_bytes [OF len(1)] show ?thesis
    by (auto simp: read_buffer_data_def)
qed

lemma ata_read_sector_chs_reads:
  assumes con: "ata_contract io view H S N D" and rdy: "drive_ready (view d)"
    and c: "\<not> c > 1023" and h: "\<not> h > 15" and s: "0 < unat s" "unat s \<le> 255"
    and geo: "unat h < H" "unat s \<le> S" and L: "(unat c * H + unat h) * S + unat s - 1 = L" "L < N"
    and buf: "length buf = ATA_SECTOR_SIZE"
  shows "\<exists>d'. ata_read_sector_chs io c h s buf d = Some (0, D L, d') \<and> drive_ready (view d')"
proof -
  have idle: "v_phase (view d) = Idle" and drv: "\<not> bit (v_drv_hd (view d)) 4"
    using rdy by (simp_all add: drive_ready_def)
  from select_head_idle [OF con idle h] obtain d1 where
    d1: "select_head io h d = (0, d1)" "view d1 = (view d)\<lparr>v_drv_hd := set_head_sel h (v_drv_hd (view d))\<rparr>"
    by blast
  let ?d5 = "outb io CYL_HI (ucast (drop_bit 8 (c AND 0x300))) (outb io CYL_LO (ucast (c AND 0xff))
      (outb io SEC_NUM (ucast s) (outb io SEC_CNT 1 d1)))"
  have v5: "view ?d5 = (view d)\<lparr>v_drv_hd := set_head_sel h (v_drv_hd (view d)), v_sec_cnt := 1,
      v_sec_num := ucast s, v_cyl_lo := ucast (c AND 0xff), v_cyl_hi := ucast (drop_bit 8 (c AND 0x300))\<rparr>"
    using d1(2) idle by (simp add: idle_write [OF con])
  have us: "unat (ucast s :: u8) = unat s"
    using s by (simp add: unsigned_ucast_eq take_bit_eq_mod)
  have lba: "view_lba H S (view ?d5) = L"
    unfolding v5 using L(1) by (simp add: view_lba_def cylinder_registers [OF c, simplified] us set_head_sel_view [OF h])
  have ok: "view_addr_ok H S N (view ?d5)"
    unfolding view_addr_ok_def lba
    unfolding v5 using geo L(2) s drv by (simp add: us set_head_sel_view [OF h])
  from send_cmd_idle [OF con, of ?d5 CMD_RSWOR] v5 idle obtain d6 where
    d6: "send_cmd io CMD_RSWOR ?d5 = Some (0, outb io CMD CMD_RSWOR d6)" "view d6 = view ?d5"
    by auto
  from start_read [OF con, of d6] d6(2) ok lba idle v5 obtain n where
    n: "view (outb io CMD CMD_RSWOR d6) = (view ?d5)\<lparr>v_phase := Busy n (sector_words (D L))\<rparr>"
    by auto
  from transfer_sector [OF con, of "outb io CMD CMD_RSWOR d6" n "D L" buf] n buf
    contract_sector_length [OF con L(2)] obtain st d7 d8 where
    d8: "wait_status io (\<lambda>r. status_drq r \<and> \<not> status_bsy r) (outb io CMD CMD_RSWOR d6) = Some (st, d7)"
      "\<not> status_err st" "read_buffer_data io buf d7 = Some (D L, d8)" "v_phase (view d8) = Idle"
      "v_drv_hd (view d8) = v_drv_hd (view ?d5)"
    by auto
  have "drive_ready (view d8)"
    unfolding drive_ready_def d8(5) v5 using d8(4) drv by (simp add: set_head_sel_view [OF h])
  moreover have "\<not> (s < 1 \<or> s > 256)"
    using s by (simp add: word_less_nat_alt)
  ultimately show ?thesis
    using c h d1(1) d6(1) d8(1-3) by (simp add: ata_read_sector_chs_def)
qed

lemma ata_read_sector_lba_cylinders:
  assumes con: "ata_contract io view H S N D" and rdy: "drive_ready (view d)"
    and geo: "drive_geometry idd H S N" and buf: "length buf = ATA_SECTOR_SIZE"
    and lt: "lba < id_num_sectors idd" "unat lba < 1024 * (H * S)"
  shows "\<exists>d'. ata_read_sector_lba io idd lba buf d = Some (0, D (unat lba), d') \<and> drive_ready (view d')"
proof -
  have g: "unat (id_heads idd) = H" "unat (id_spt idd) = S" "0 < H" "H \<le> 16" "0 < S" "S \<le> 255"
      "unat lba < N"
    using geo lt by (simp_all add: drive_geometry_def word_less_nat_alt)
  with lba2chs_spec [OF lt(1)] obtain c h s where
    chs: "lba2chs idd lba = Some (Some (Chs c h s))" "unat c = unat lba div (H * S)"
      "unat h = unat lba mod (H * S) div S" "unat s = unat lba mod S + 1"
    by auto
  have "unat c < 1024"
    unfolding chs(2) using lt(2) by (rule less_mult_imp_div_less)
  then have c: "\<not> c > 1023" by (simp add: word_less_nat_alt)
  have hH: "unat h < H"
    unfolding chs(3) using g(3,5) by (intro less_mult_imp_div_less) simp
  then have h: "\<not> h > 15" using g(4) by (simp add: word_less_nat_alt)
  have s: "unat s \<le> S" using chs(4) mod_less_divisor [OF g(5), of "unat lba"] by simp
  have L: "(unat c * H + unat h) * S + unat s - 1 = unat lba"
    unfolding chs(2-4) using chs_roundtrip [OF g(5), of "unat lba" H] by simp
  from ata_read_sector_chs_reads [OF con rdy c h _ _ hH s L g(7) buf] chs(1,4) s g(6) show ?thesis
    by (simp add: ata_read_sector_lba_def)
qed

lemma geometry_ok_drive: "geometry_ok idd H S N \<Longrightarrow> drive_geometry idd H S N"
  by (simp add: geometry_ok_def drive_geometry_def)

lemma ata_read_sector_lba_in:
  assumes con: "ata_contract io view H S N D" and rdy: "drive_ready (view d)"
    and geo: "geometry_ok idd H S N" and buf: "length buf = ATA_SECTOR_SIZE"
    and lt: "lba < id_num_sectors idd"
  shows "\<exists>d'. ata_read_sector_lba io idd lba buf d = Some (0, D (unat lba), d') \<and> drive_ready (view d')"
  using ata_read_sector_lba_cylinders [OF con rdy geometry_ok_drive [OF geo] buf lt] geo lt
  by (simp add: geometry_ok_def word_less_nat_alt)

text \<open>A sector of cylinder 1024 or above is refused before a register of the drive is written.\<close>

lemma ata_read_sector_lba_high:
  assumes "0 < unat (id_heads idd)" and "0 < unat (id_spt idd)" and "lba < id_num_sectors idd"
    and "1024 * (unat (id_heads idd) * unat (id_spt idd)) \<le> unat lba"
  shows "ata_read_sector_lba io idd lba buf d = Some (1, buf, d)"
proof -
  from lba2chs_spec [OF assms(3,1,2)] obtain c h s where
    chs: "lba2chs idd lba = Some (Some (Chs c h s))"
      "unat c = unat lba div (unat (id_heads idd) * unat (id_spt idd))"
    by blast
  have "1024 \<le> unat c"
    unfolding chs(2) using assms(1,2,4) by (simp add: less_eq_div_iff_mult_less_eq)
  then have "c > 1023" by (simp add: word_less_nat_alt)
  then show ?thesis by (simp add: ata_read_sector_lba_def ata_read_sector_chs_def chs(1))
qed

lemma ata_read_sector_lba_out:
  "\<not> lba < id_num_sectors idd \<Longrightarrow> ata_read_sector_lba io idd lba buf d = Some (1, buf, d)"
  by (simp add: ata_read_sector_lba_def lba2chs_def not_less)

section \<open>A drive that keeps the contract\<close>

text \<open>The instance used by the witnesses: a drive whose state is its view, BSY for two polls.\<close>

definition model_drive :: "nat \<Rightarrow> nat \<Rightarrow> nat \<Rightarrow> (nat \<Rightarrow> u8 list) \<Rightarrow> ata_view ports" where
  "model_drive H S N D =
     \<lparr>inb = (\<lambda>p v. if p = DRV_HD then (v_drv_hd v, v)
                    else (case v_phase v of
                            Idle \<Rightarrow> (0x40, v)
                          | Busy n ws \<Rightarrow> (0x80, v\<lparr>v_phase := (case n of 0 \<Rightarrow> Data ws | Suc m \<Rightarrow> Busy m ws)\<rparr>)
                          | Data ws \<Rightarrow> (0x48, v))),
      inw = (\<lambda>p v. case v_phase v of
                      Data (w # ws) \<Rightarrow> (w, v\<lparr>v_phase := (if ws = [] then Idle else Data ws)\<rparr>)
                    | _ \<Rightarrow> (0xffff, v)),
      outb = (\<lambda>p b v. if v_phase v \<noteq> Idle then v
                       else if p = SEC_CNT then v\<lparr>v_sec_cnt := b\<rparr>
                       else if p = SEC_NUM then v\<lparr>v_sec_num := b\<rparr>
                       else if p = CYL_LO then v\<lparr>v_cyl_lo := b\<rparr>
                       else if p = CYL_HI then v\<lparr>v_cyl_hi := b\<rparr>
                       else if p = DRV_HD then v\<lparr>v_drv_hd := b\<rparr>
                       else if p = CMD \<and> b = CMD_RSWOR \<and> view_addr_ok H S N v
                         then v\<lparr>v_phase := Busy 2 (sector_words (D (view_lba H S v)))\<rparr>
                       else v)\<rparr>"

lemma model_drive_contract:
  assumes "\<And>n. length (D n) = ATA_SECTOR_SIZE"
  shows "ata_contract (model_drive H S N D) (\<lambda>v. v) H S N D"
  unfolding ata_contract_def
  using assms
  by (simp add: model_drive_def ata_ports status_drq_def status_bsy_def status_err_def
      bit_simps) blast

definition model_disk :: "nat \<Rightarrow> u8 list" where
  "model_disk n = replicate ATA_SECTOR_SIZE (of_nat n)"

lemma model_disk_length: "length (model_disk n) = ATA_SECTOR_SIZE"
  by (simp add: model_disk_def)

definition model_view :: ata_view where
  "model_view = \<lparr>v_sec_cnt = 0, v_sec_num = 0, v_cyl_lo = 0, v_cyl_hi = 0, v_drv_hd = 0xa0,
     v_phase = Idle\<rparr>"

lemma model_view_ready: "drive_ready model_view"
  by (simp add: drive_ready_def model_view_def)

definition model_id :: ata_id where
  "model_id = \<lparr>id_valid = True, id_num_sectors = 4000, id_cylinders = 5, id_heads = 16, id_spt = 63,
     id_model_number = replicate 41 NUL\<rparr>"

lemma model_id_drive: "drive_geometry model_id 16 63 4000"
  by (simp add: drive_geometry_def model_id_def)

lemma model_id_geometry: "geometry_ok model_id 16 63 4000"
  by (simp add: geometry_ok_def model_id_def)

section \<open>Properties\<close>

text \<open>C11. The translation of a linear sector number to cylinder, head and sector is exact: for every
  sector number below the capacity and every geometry with heads and sectors it stays in range and the
  formula of the drive gives the number back; numbers from the capacity on are refused.\<close>

theorem lba2chs_exact:
  assumes "0 < unat (id_heads idd)" and "0 < unat (id_spt idd)"
  shows "(\<not> lba < id_num_sectors idd \<longrightarrow> lba2chs idd lba = Some None) \<and>
    (lba < id_num_sectors idd \<longrightarrow> (\<exists>c h s. lba2chs idd lba = Some (Some (Chs c h s)) \<and>
       unat h < unat (id_heads idd) \<and> 1 \<le> unat s \<and> unat s \<le> unat (id_spt idd) \<and>
       (unat c * unat (id_heads idd) + unat h) * unat (id_spt idd) + (unat s - 1) = unat lba))"
proof (intro conjI impI)
  show "lba2chs idd lba = Some None" if "\<not> lba < id_num_sectors idd"
    using that by (simp add: lba2chs_def not_less)
  assume "lba < id_num_sectors idd"
  from lba2chs_spec [OF this assms] obtain c h s where
    chs: "lba2chs idd lba = Some (Some (Chs c h s))"
      "unat c = unat lba div (unat (id_heads idd) * unat (id_spt idd))"
      "unat h = unat lba mod (unat (id_heads idd) * unat (id_spt idd)) div unat (id_spt idd)"
      "unat s = unat lba mod unat (id_spt idd) + 1"
    by blast
  moreover have "unat h < unat (id_heads idd)"
    unfolding chs(3) using assms by (intro less_mult_imp_div_less) simp
  moreover have "unat s \<le> unat (id_spt idd)"
    using chs(4) mod_less_divisor [OF assms(2), of "unat lba"] by simp
  moreover have "(unat c * unat (id_heads idd) + unat h) * unat (id_spt idd) + (unat s - 1) = unat lba"
    unfolding chs(2-4) using chs_roundtrip [OF assms(2)] by simp
  ultimately show "\<exists>c h s. lba2chs idd lba = Some (Some (Chs c h s)) \<and>
       unat h < unat (id_heads idd) \<and> 1 \<le> unat s \<and> unat s \<le> unat (id_spt idd) \<and>
       (unat c * unat (id_heads idd) + unat h) * unat (id_spt idd) + (unat s - 1) = unat lba"
    by auto
qed

theorem lba2chs_exact_witness:
  "\<exists>c h s. lba2chs model_id 1071 = Some (Some (Chs c h s)) \<and> unat h < 16 \<and>
     (unat c * 16 + unat h) * 63 + (unat s - 1) = 1071"
  using lba2chs_exact [of model_id 1071] by (auto simp: model_id_def)

text \<open>The translation keeps the order of the sectors: of two sector numbers below the capacity
  the larger one has the larger triple, in the order by cylinder, head and sector.\<close>

theorem lba2chs_monotone:
  assumes "0 < unat (id_heads idd)" and "0 < unat (id_spt idd)"
    and "a < b" and "b < id_num_sectors idd"
  shows "\<exists>x y. lba2chs idd a = Some (Some x) \<and> lba2chs idd b = Some (Some y) \<and> x < y"
proof -
  let ?S = "unat (id_spt idd)" and ?A = "unat a" and ?B = "unat b"
  let ?HS = "unat (id_heads idd) * unat (id_spt idd)"
  have "a < id_num_sectors idd" using assms(3,4) by (rule less_trans)
  from lba2chs_spec [OF this assms(1,2)] obtain c h s where a: "lba2chs idd a = Some (Some (Chs c h s))"
      "unat c = ?A div ?HS" "unat h = ?A mod ?HS div ?S" "unat s = ?A mod ?S + 1" by blast
  from lba2chs_spec [OF assms(4,1,2)] obtain c' h' s' where b: "lba2chs idd b = Some (Some (Chs c' h' s'))"
      "unat c' = ?B div ?HS" "unat h' = ?B mod ?HS div ?S" "unat s' = ?B mod ?S + 1" by blast
  have "?A < ?B" using assms(3) by (simp add: word_less_nat_alt)
  from div_mod_less [OF this, of ?HS] consider "unat c < unat c'"
    | "unat c = unat c'" "?A mod ?HS < ?B mod ?HS"
    unfolding a(2) b(2) by blast
  then have "Chs c h s < Chs c' h' s'"
  proof cases
    case 1
    then show ?thesis by (simp add: less_chs_def word_less_nat_alt)
  next
    case 2
    from div_mod_less [OF 2(2), of ?S] have "unat h < unat h' \<or> unat h = unat h' \<and> unat s < unat s'"
      unfolding a(3,4) b(3,4) by (simp add: mod_mod_cancel)
    with 2(1) show ?thesis
      by (auto simp: less_chs_def word_less_nat_alt word_le_nat_alt)
  qed
  with a(1) b(1) show ?thesis by blast
qed

theorem lba2chs_monotone_witness:
  "\<exists>x y. lba2chs model_id 62 = Some (Some x) \<and> lba2chs model_id 63 = Some (Some y) \<and> x < y"
  by (rule lba2chs_monotone) (simp_all add: model_id_def)

text \<open>C6. With any drive that keeps the ATA contract and has at most 16 heads and 255 sectors per track,
  \<open>ata_read_sector_lba\<close> returns 0 and exactly the requested sector, and leaves the drive ready for the
  next command, for every sector number below the capacity that lies in the first 1024 cylinders. Every
  other sector number, those from the capacity on and those of cylinder 1024 or above, is refused
  without touching the drive or the buffer. The capacity itself is not restricted.\<close>

theorem ata_read_sector_lba_correct:
  assumes "ata_contract io view H S N D" and "drive_ready (view d)" and "drive_geometry idd H S N"
    and "length buf = ATA_SECTOR_SIZE"
  shows "(lba < id_num_sectors idd \<and> unat lba < 1024 * (H * S) \<longrightarrow>
      (\<exists>d'. ata_read_sector_lba io idd lba buf d = Some (0, D (unat lba), d') \<and> drive_ready (view d'))) \<and>
    (\<not> (lba < id_num_sectors idd \<and> unat lba < 1024 * (H * S)) \<longrightarrow>
      ata_read_sector_lba io idd lba buf d = Some (1, buf, d))"
proof (intro conjI impI)
  assume "lba < id_num_sectors idd \<and> unat lba < 1024 * (H * S)"
  then show "\<exists>d'. ata_read_sector_lba io idd lba buf d = Some (0, D (unat lba), d') \<and> drive_ready (view d')"
    using ata_read_sector_lba_cylinders [OF assms] by blast
next
  assume "\<not> (lba < id_num_sectors idd \<and> unat lba < 1024 * (H * S))"
  then show "ata_read_sector_lba io idd lba buf d = Some (1, buf, d)"
    using ata_read_sector_lba_out [of lba idd io buf d] ata_read_sector_lba_high [of idd lba io buf d] assms(3)
    by (cases "lba < id_num_sectors idd") (auto simp: drive_geometry_def)
qed

theorem ata_read_sector_lba_correct_witness:
  "(\<exists>d'. ata_read_sector_lba (model_drive 16 63 4000 model_disk) model_id 300
     (replicate ATA_SECTOR_SIZE 0) model_view = Some (0, replicate ATA_SECTOR_SIZE 44, d')) \<and>
   ata_read_sector_lba (model_drive 2 1 4000 model_disk) (model_id\<lparr>id_heads := 2, id_spt := 1\<rparr>) 2048
     (replicate ATA_SECTOR_SIZE 0) model_view = Some (1, replicate ATA_SECTOR_SIZE 0, model_view)"
proof (rule conjI)
  have lt: "300 < id_num_sectors model_id" by (simp add: model_id_def)
  have sec: "model_disk (unat (300 :: u32)) = replicate ATA_SECTOR_SIZE 44"
    by (simp add: model_disk_def)
  have con: "ata_contract (model_drive H S 4000 model_disk) (\<lambda>v. v) H S 4000 model_disk" for H S
    by (rule model_drive_contract) (rule model_disk_length)
  show "\<exists>d'. ata_read_sector_lba (model_drive 16 63 4000 model_disk) model_id 300
     (replicate ATA_SECTOR_SIZE 0) model_view = Some (0, replicate ATA_SECTOR_SIZE 44, d')"
    using ata_read_sector_lba_correct [OF con model_view_ready model_id_drive length_replicate, of 300 0] lt
    unfolding sec by auto
  have geo: "drive_geometry (model_id\<lparr>id_heads := 2, id_spt := 1\<rparr>) 2 1 4000"
    by (simp add: drive_geometry_def model_id_def)
  show "ata_read_sector_lba (model_drive 2 1 4000 model_disk) (model_id\<lparr>id_heads := 2, id_spt := 1\<rparr>) 2048
     (replicate ATA_SECTOR_SIZE 0) model_view = Some (1, replicate ATA_SECTOR_SIZE 0, model_view)"
    using ata_read_sector_lba_correct [OF con model_view_ready geo length_replicate, of 2048 0] by auto
qed

text \<open>C16. The error bit is looked at only after DRQ was seen. A drive that ends the command with an
  error and never raises DRQ keeps \<open>ata_read_sector_chs\<close> in its loop for ever, for every sector
  address that passes the range checks.\<close>

theorem ata_read_hangs_without_drq:
  assumes "\<forall>d. \<not> status_drq (fst (inb io STATUS d))"
    and "c \<le> 1023" and "h \<le> 15" and "1 \<le> s" and "s \<le> 256"
  shows "ata_read_sector_chs io c h s buf d = None"
proof -
  have hang: "wait_status io (\<lambda>r. status_drq r \<and> \<not> status_bsy r) d' = None" for d'
    using assms(1) by (intro wait_status_never [of UNIV]) auto
  obtain d1 where d1: "select_head io h d = (0, d1)"
    using assms(3) by (cases "read_drv_hd io d") (simp add: select_head_def not_less)
  have "send_cmd io cmd d' = None \<or> (\<exists>d''. send_cmd io cmd d' = Some (0, d''))" for cmd d'
  proof -
    have "\<not> status_drq (fst (inb io STATUS d'))" using assms(1) by blast
    then show ?thesis
      by (cases "inb io STATUS d'") (auto simp: send_cmd_def read_status_eq split: option.split)
  qed
  note cmd = this [of CMD_RSWOR "outb io CYL_HI (ucast (drop_bit 8 (c AND 0x300)))
      (outb io CYL_LO (ucast (c AND 0xff)) (outb io SEC_NUM (ucast s) (outb io SEC_CNT 1 d1)))"]
  have "\<not> (s < 1 \<or> s > 256)"
    using assms(4,5) by (auto simp: not_less)
  with cmd show ?thesis
    using assms(2,3) d1 hang
    by (elim disjE exE) (simp_all add: ata_read_sector_chs_def not_less)
qed

theorem ata_read_hangs_without_drq_witness:
  "ata_read_sector_chs \<lparr>inb = (\<lambda>p d. (0x41, d)), inw = (\<lambda>p d. (0, d)), outb = (\<lambda>p b d. d)\<rparr>
     0 0 1 [] () = None"
  by (rule ata_read_hangs_without_drq) (simp_all add: status_drq_def bit_simps)

end
