(* ===== verification/Ata_Identify.thy ===== *)
theory Ata_Identify
  imports Ata
begin

text \<open>
  The initialisation of the drive (\<open>ata_init\<close> in \<open>drivers/ata.c\<close>): reset, selection, and the data of
  the IDENTIFY command, whose strings arrive with the two characters of every word swapped.
\<close>

section \<open>What the driver relies on\<close>

text \<open>
  \<open>polled\<close> is the device after \<open>k\<close> reads of the status register. After a reset the drive is busy for
  some polls and then idle; an idle drive is ready and shows no error; the drive 0 answers IDENTIFY with
  the 512 bytes \<open>ident\<close>.
\<close>

definition polled :: "'d ports \<Rightarrow> nat \<Rightarrow> 'd \<Rightarrow> 'd" where
  "polled io k d = ((\<lambda>d. snd (inb io STATUS d)) ^^ k) d"

definition identify_contract :: "'d ports \<Rightarrow> ('d \<Rightarrow> ata_view) \<Rightarrow> u8 list \<Rightarrow> bool" where
  "identify_contract io view ident \<longleftrightarrow>
     (\<forall>d. \<exists>k. (let r = outb io CONTROL (control_srst False) (outb io CONTROL (control_srst True) d)
        in (\<forall>j < k. status_bsy (fst (inb io STATUS (polled io j r)))) \<and>
           \<not> status_bsy (fst (inb io STATUS (polled io k r))) \<and> v_phase (view (polled io (Suc k) r)) = Idle)) \<and>
     (\<forall>d. v_phase (view d) = Idle \<longrightarrow>
        status_rdy (fst (inb io STATUS d)) \<and> \<not> status_err (fst (inb io STATUS d))) \<and>
     (\<forall>d. v_phase (view d) = Idle \<and> \<not> bit (v_drv_hd (view d)) 4 \<longrightarrow>
        (\<exists>n. view (outb io CMD CMD_IDENTIFY d) = (view d)\<lparr>v_phase := Busy n (sector_words ident)\<rparr>)) \<and>
     length ident = ATA_SECTOR_SIZE"

section \<open>Swapping the bytes of a string\<close>

definition swap_idx :: "nat \<Rightarrow> nat" where
  "swap_idx k = (if even k then k + 1 else k - 1)"

lemma swap_pairs:
  assumes "off + 2 * n \<le> length buf"
    and f: "\<And>b k. f b k = b[off + 2 * k := b ! (off + 2 * k + 1), off + 2 * k + 1 := b ! (off + 2 * k)]"
  shows "length (foldl f buf [0..<n]) = length buf \<and> (\<forall>i < length buf.
    foldl f buf [0..<n] ! i = (if off \<le> i \<and> i < off + 2 * n then buf ! (off + swap_idx (i - off)) else buf ! i))"
  using assms(1)
proof (induction n)
  case (Suc n)
  define b where "b = foldl f buf [0..<n]"
  from Suc have IH: "length b = length buf" "\<And>i. i < length buf \<Longrightarrow>
    b ! i = (if off \<le> i \<and> i < off + 2 * n then buf ! (off + swap_idx (i - off)) else buf ! i)"
    by (auto simp: b_def)
  have step: "foldl f buf [0..<Suc n] = b[off + 2 * n := b ! (off + 2 * n + 1), off + 2 * n + 1 := b ! (off + 2 * n)]"
    by (simp add: b_def f)
  show ?case
  proof (intro conjI allI impI)
    fix i assume i: "i < length buf"
    consider "i = off + 2 * n" | "i = off + 2 * n + 1" | "i < off + 2 * n" | "off + 2 * n + 2 \<le> i" by linarith
    then show "foldl f buf [0..<Suc n] ! i
      = (if off \<le> i \<and> i < off + 2 * Suc n then buf ! (off + swap_idx (i - off)) else buf ! i)"
      unfolding step using Suc.prems i by cases (simp_all add: IH swap_idx_def)
  qed (simp only: step length_list_update IH)
qed auto

lemma swap_str_bytes_length: "off + 2 * ((len + 1) div 2) \<le> length buf \<Longrightarrow> length (swap_str_bytes off len buf) = length buf"
  unfolding swap_str_bytes_def by (rule swap_pairs [THEN conjunct1]) simp_all

lemma swap_str_bytes_nth:
  "off + 2 * ((len + 1) div 2) \<le> length buf \<Longrightarrow> i < length buf \<Longrightarrow>
   swap_str_bytes off len buf ! i
     = (if off \<le> i \<and> i < off + 2 * ((len + 1) div 2) then buf ! (off + swap_idx (i - off)) else buf ! i)"
  unfolding swap_str_bytes_def by (rule swap_pairs [THEN conjunct2, rule_format]) simp_all

section \<open>Reset and selection\<close>

lemma polled_Suc: "polled io (Suc k) d = polled io k (snd (inb io STATUS d))"
  by (simp add: polled_def funpow_Suc_right del: funpow.simps)

lemma wait_polled:
  "\<forall>j < k. \<not> P (fst (inb io STATUS (polled io j d))) \<Longrightarrow> P (fst (inb io STATUS (polled io k d))) \<Longrightarrow>
   wait_status io P d = Some (fst (inb io STATUS (polled io k d)), polled io (Suc k) d)"
proof (induction k arbitrary: d)
  case 0
  then show ?case by (cases "inb io STATUS d") (simp add: polled_def wait_status_now)
next
  case (Suc k)
  have "\<not> P (fst (inb io STATUS d))" using Suc.prems(1) by (force simp: polled_def)
  moreover have "\<forall>j < k. \<not> P (fst (inb io STATUS (polled io j (snd (inb io STATUS d)))))"
    using Suc.prems(1) by (auto simp flip: polled_Suc)
  moreover have "P (fst (inb io STATUS (polled io k (snd (inb io STATUS d)))))"
    using Suc.prems(2) by (simp add: polled_Suc)
  ultimately show ?case
    using Suc.IH [of "snd (inb io STATUS d)"] wait_status_again [of io d "fst (inb io STATUS d)" "snd (inb io STATUS d)" P]
    by (simp add: polled_Suc)
qed

lemma ata_reset_idle:
  assumes "identify_contract io view ident"
  shows "\<exists>d'. ata_reset io d = Some d' \<and> v_phase (view d') = Idle"
proof -
  let ?r = "outb io CONTROL (control_srst False) (outb io CONTROL (control_srst True) d)"
  from assms obtain k where "\<forall>j < k. status_bsy (fst (inb io STATUS (polled io j ?r)))"
    "\<not> status_bsy (fst (inb io STATUS (polled io k ?r)))" "v_phase (view (polled io (Suc k) ?r)) = Idle"
    unfolding identify_contract_def Let_def by blast
  with wait_polled [of k "\<lambda>r. \<not> status_bsy r" io ?r] show ?thesis by (simp add: ata_reset_def)
qed

lemma identify_idle:
  assumes "identify_contract io view ident" "v_phase (view d) = Idle"
  shows "status_rdy (fst (inb io STATUS d))" "\<not> status_err (fst (inb io STATUS d))"
  using assms unfolding identify_contract_def by blast+

lemma ata_select_drive_idle:
  assumes con: "ata_contract io view H S N D" and idc: "identify_contract io view ident"
    and idle: "v_phase (view d) = Idle"
  shows "\<exists>d'. ata_select_drive io 0 d = Some (0, d') \<and> drive_ready (view d')"
proof -
  obtain r d1 where rd: "inb io DRV_HD d = (r, d1)" by (cases "inb io DRV_HD d")
  note hd = idle_drv_hd [OF con idle, unfolded rd fst_conv snd_conv]
  let ?d2 = "outb io DRV_HD (set_drive_sel 0 r) d1"
  have v2: "view ?d2 = (view d)\<lparr>v_drv_hd := set_drive_sel 0 r\<rparr>" using idle_write(5) [OF con, of d1] idle hd by simp
  have "\<not> bit (set_drive_sel 0 r) 4" by (simp add: set_drive_sel_def bit_simps)
  with v2 idle have rdy: "drive_ready (view ?d2)" by (simp add: drive_ready_def)
  have poll: "v_phase (view e) = Idle \<Longrightarrow> view (((\<lambda>d. snd (read_status io d)) ^^ n) e) = view e" for n e
    by (induction n) (simp_all add: read_status_eq idle_status(3) [OF con])
  let ?d3 = "((\<lambda>d. snd (read_status io d)) ^^ 4) ?d2"
  have v3: "view ?d3 = view ?d2" using rdy by (intro poll) (simp add: drive_ready_def)
  then have i3: "v_phase (view ?d3) = Idle" using rdy by (simp add: drive_ready_def)
  note st = identify_idle [OF idc i3] idle_status(3) [OF con i3]
  have "wait_status io status_rdy ?d3 = Some (inb io STATUS ?d3)"
    using st(1) by (cases "inb io STATUS ?d3") (auto intro: wait_status_now)
  then have "ata_select_drive io 0 d = Some (0, snd (inb io STATUS ?d3))"
    using rd st(2) by (simp add: ata_select_drive_def read_drv_hd_def write_drv_hd_def case_prod_beta)
  with st(3) v3 rdy show ?thesis by simp
qed

section \<open>The transfer of the data\<close>

lemma wait_data_phase:
  assumes con: "ata_contract io view H S N D" and "ws \<noteq> []" and ph: "v_phase (view d) = Data ws"
  shows "\<exists>r d'. wait_status io (\<lambda>r. \<not> status_bsy r) d = Some (r, d') \<and> view d' = view d"
    and "\<exists>r d'. wait_status io status_drq d = Some (r, d') \<and> view d' = view d"
proof -
  obtain w ws' where "ws = w # ws'" using assms(2) by (cases ws) auto
  with data_status [OF con, of d w ws'] ph wait_status_now [of io d "fst (inb io STATUS d)" "snd (inb io STATUS d)"]
  show "\<exists>r d'. wait_status io (\<lambda>r. \<not> status_bsy r) d = Some (r, d') \<and> view d' = view d"
    "\<exists>r d'. wait_status io status_drq d = Some (r, d') \<and> view d' = view d"
    by (simp_all, (metis prod.collapse)+)
qed

lemma wait_not_busy:
  assumes con: "ata_contract io view H S N D" and "ws \<noteq> []"
  shows "v_phase (view d) = Busy n ws \<Longrightarrow>
    \<exists>r d'. wait_status io (\<lambda>r. \<not> status_bsy r) d = Some (r, d') \<and> view d' = (view d)\<lparr>v_phase := Data ws\<rparr>"
proof (induction n arbitrary: d)
  case 0
  note busy = busy_status [OF con 0]
  from wait_data_phase(1) [OF con assms(2), of "snd (inb io STATUS d)"] busy show ?case
    by (subst wait_status_again [of io d "fst (inb io STATUS d)" "snd (inb io STATUS d)"]) auto
next
  case (Suc n)
  note busy = busy_status [OF con Suc.prems]
  from Suc.IH [of "snd (inb io STATUS d)"] busy show ?case
    by (subst wait_status_again [of io d "fst (inb io STATUS d)" "snd (inb io STATUS d)"]) auto
qed

text \<open>From the command to the last word, through the first look at the status.\<close>

lemma identify_transfer:
  assumes con: "ata_contract io view H S N D" and ph: "v_phase (view d) = Busy n (sector_words ident)"
    and len: "length ident = ATA_SECTOR_SIZE" "length buf = ATA_SECTOR_SIZE"
  shows "fst (read_status io d) \<noteq> 0 \<and> (\<exists>r d5 r' d6 d7.
    wait_status io (\<lambda>r. \<not> status_bsy r) (snd (read_status io d)) = Some (r, d5) \<and>
    wait_status io status_drq d5 = Some (r', d6) \<and>
    read_buffer_data io buf d6 = Some (ident, d7) \<and> view d7 = (view d)\<lparr>v_phase := Idle\<rparr>)"
proof -
  have n: "length (sector_words ident) = ATA_SECTOR_SIZE div 2" by (simp add: sector_words_def)
  then have ne: "sector_words ident \<noteq> []" by (auto simp: ATA_SECTOR_SIZE_def)
  note busy = busy_status [OF con ph]
  let ?d4 = "snd (inb io STATUS d)"
  have nz: "fst (inb io STATUS d) \<noteq> 0" using busy(1) by (auto simp: status_bsy_def)
  obtain r d5 where d5: "wait_status io (\<lambda>r. \<not> status_bsy r) ?d4 = Some (r, d5)"
    "view d5 = (view d)\<lparr>v_phase := Data (sector_words ident)\<rparr>"
  proof (cases n)
    case 0
    with wait_data_phase(1) [OF con ne, of ?d4] busy(2) that show ?thesis by auto
  next
    case (Suc m)
    with wait_not_busy [OF con ne, of ?d4 m] busy(2) that show ?thesis by auto
  qed
  from wait_data_phase(2) [OF con ne, of d5] d5(2) obtain r' d6 where
    d6: "wait_status io status_drq d5 = Some (r', d6)" "view d6 = (view d)\<lparr>v_phase := Data (sector_words ident)\<rparr>" by auto
  from read_buffer_words_data [OF con, of d6 "sector_words ident" buf 0] d6(2) n ne len(2) obtain d7 where
    "read_buffer_words io 0 (ATA_SECTOR_SIZE div 2) buf d6 = Some (concat (map word_bytes (sector_words ident)), d7)"
    "view d7 = (view d)\<lparr>v_phase := Idle\<rparr>"
    by (auto simp: ATA_SECTOR_SIZE_def)
  then show ?thesis using nz d5 d6 sector_words_bytes [OF len(1)]
    by (simp add: read_status_eq read_buffer_data_def)
qed

section \<open>The identification data\<close>

text \<open>The characters of the model number in reading order.\<close>

definition ident_model :: "u8 list \<Rightarrow> char list" where
  "ident_model ident = map (\<lambda>k. byte_char (ident ! (54 + swap_idx k))) [0..<40]"

lemma takeWhile_nul: "NUL \<notin> set ys \<Longrightarrow> takeWhile (\<lambda>c. c \<noteq> NUL) (ys @ NUL # zs) = ys"
  by (induction ys) auto

lemma takeWhile_no_nul: "NUL \<notin> set ys \<Longrightarrow> takeWhile (\<lambda>c. c \<noteq> NUL) ys = ys"
  by (induction ys) auto

lemma strncpy_terminated:
  assumes "n \<le> length src" "n < length dest"
  shows "\<exists>d. strncpy dest src n = Some d \<and> length d = length dest \<and>
    takeWhile (\<lambda>c. c \<noteq> NUL) (d[n := NUL]) = takeWhile (\<lambda>c. c \<noteq> NUL) (take n src)"
proof (cases "NUL \<in> set (take n src)")
  case False
  let ?d = "take n src @ drop n dest"
  have "?d[n := NUL] = take n src @ NUL # drop (Suc n) dest"
    using assms by (simp add: list_update_append Cons_nth_drop_Suc [symmetric])
  then have "takeWhile (\<lambda>c. c \<noteq> NUL) (?d[n := NUL]) = takeWhile (\<lambda>c. c \<noteq> NUL) (take n src)"
    by (simp only: takeWhile_nul [OF False] takeWhile_no_nul [OF False])
  then show ?thesis using strncpy_full [OF assms(1) _ False, of dest] assms
    by (intro exI [of _ ?d]) simp
next
  case True
  then obtain ys zs where s: "take n src = ys @ NUL # zs" "NUL \<notin> set ys" by (meson split_list_first)
  have "length (take n src) = n" using assms(1) by simp
  then have len: "length ys < n" unfolding s(1) by simp
  have "src = ys @ NUL # (zs @ drop n src)" using append_take_drop_id [of n src] unfolding s(1) by simp
  with s(2) have "c_string src ys" unfolding c_string_def by blast
  from strncpy_c_string [OF this len] assms(2) len
  have d: "strncpy dest src n = Some (ys @ NUL # drop (Suc (length ys)) dest)" by simp
  let ?d = "ys @ NUL # drop (Suc (length ys)) dest"
  obtain m where m: "n = length ys + Suc m" using len less_imp_Suc_add by fastforce
  have "?d[n := NUL] = ys @ NUL # (drop (Suc (length ys)) dest)[m := NUL]"
    by (simp add: m list_update_append)
  then show ?thesis using d s assms(2) len takeWhile_nul [OF s(2)]
    by (intro exI [of _ ?d]) simp
qed

text \<open>What the driver keeps of the data.\<close>

lemma set_identify_data_swapped:
  assumes "length ident = 512" "length (id_model_number idd) = 41"
  defines "b \<equiv> swap_str_bytes (2 * SERIAL_NUMBER_STR_OFF) SERIAL_NUMBER_STR_LEN
     (swap_str_bytes (2 * MODEL_NUMBER_STR_OFF) MODEL_NUMBER_STR_LEN ident)"
  shows "\<exists>idd'. set_identify_data b idd = Some idd' \<and> id_valid idd' \<and>
    id_num_sectors idd' = le32 ident 114 \<and> id_cylinders idd' = le16 ident 2 \<and>
    id_heads idd' = le16 ident 6 \<and> id_spt idd' = le16 ident 12 \<and>
    takeWhile (\<lambda>c. c \<noteq> NUL) (id_model_number idd') = takeWhile (\<lambda>c. c \<noteq> NUL) (ident_model ident)"
proof -
  note offs = MODEL_NUMBER_STR_OFF_def MODEL_NUMBER_STR_LEN_def SERIAL_NUMBER_STR_OFF_def SERIAL_NUMBER_STR_LEN_def
  let ?m = "swap_str_bytes 54 40 ident"
  have m: "length ?m = 512" "\<And>i. i < 512 \<Longrightarrow> ?m ! i = (if 54 \<le> i \<and> i < 94 then ident ! (54 + swap_idx (i - 54)) else ident ! i)"
    using assms(1) by (simp_all add: swap_str_bytes_length swap_str_bytes_nth)
  have b: "length b = 512" "\<And>i. i < 512 \<Longrightarrow> b ! i = (if 20 \<le> i \<and> i < 40 then ?m ! (20 + swap_idx (i - 20)) else ?m ! i)"
    unfolding b_def offs using m(1) by (simp_all add: swap_str_bytes_length swap_str_bytes_nth)
  let ?src = "map byte_char (drop 54 b)"
  have "take 40 ?src = ident_model ident"
  proof (rule nth_equalityI)
    show "length (take 40 ?src) = length (ident_model ident)" using b(1) by (simp add: ident_model_def)
    fix k assume "k < length (take 40 ?src)"
    then have k: "k < 40" by simp
    then show "take 40 ?src ! k = ident_model ident ! k" using b(1) by (simp add: b(2) m(2) ident_model_def)
  qed
  moreover have "40 \<le> length ?src" using b(1) by simp
  ultimately obtain d where d: "strncpy (id_model_number idd) ?src 40 = Some d" "length d = 41"
    "takeWhile (\<lambda>c. c \<noteq> NUL) (d[40 := NUL]) = takeWhile (\<lambda>c. c \<noteq> NUL) (ident_model ident)"
    using strncpy_terminated [of 40 ?src "id_model_number idd"] assms(2) by auto
  have keep: "b ! i = ident ! i" if "i < 20 \<or> (94 \<le> i \<and> i < 512)" for i
    using that by (auto simp: b(2) m(2))
  have "push_bit 16 (ucast (le16 b 116)) OR ucast (le16 b 114) = le32 ident 114"
    by (rule bit_word_eqI) (auto simp: le16_def le32_def keep bit_simps dest: bit_imp_le_length)
  moreover have "le16 b 2 = le16 ident 2" "le16 b 6 = le16 ident 6" "le16 b 12 = le16 ident 12"
    by (simp_all add: le16_def keep)
  ultimately show ?thesis using d by (simp add: set_identify_data_def offs Let_def)
qed

section \<open>Initialisation\<close>

lemma ata_identify_reads:
  assumes con: "ata_contract io view H S N D" and idc: "identify_contract io view ident"
    and idle: "v_phase (view d) = Idle" and buf: "length buf = ATA_SECTOR_SIZE"
    and model: "length (id_model_number idd) = MODEL_NUMBER_STR_LEN + 1"
  shows "\<exists>idd' d'. ata_identify io 0 buf idd d = Some (0, idd', d') \<and> drive_ready (view d') \<and> id_valid idd' \<and>
    id_num_sectors idd' = le32 ident 114 \<and> id_cylinders idd' = le16 ident 2 \<and>
    id_heads idd' = le16 ident 6 \<and> id_spt idd' = le16 ident 12 \<and>
    takeWhile (\<lambda>c. c \<noteq> NUL) (id_model_number idd') = takeWhile (\<lambda>c. c \<noteq> NUL) (ident_model ident)"
proof -
  from ata_select_drive_idle [OF con idc idle] obtain d1 where
    d1: "ata_select_drive io 0 d = Some (0, d1)" "drive_ready (view d1)" by blast
  let ?d2 = "outb io CYL_HI 0 (outb io CYL_LO 0 (outb io SEC_NUM 0 d1))"
  have v2: "view ?d2 = (view d1)\<lparr>v_sec_num := 0, v_cyl_lo := 0, v_cyl_hi := 0\<rparr>"
    using d1(2) by (simp add: drive_ready_def idle_write [OF con])
  then have i2: "v_phase (view ?d2) = Idle" using d1(2) by (simp add: drive_ready_def)
  from send_cmd_idle [OF con i2, of CMD_IDENTIFY] obtain e where
    e: "send_cmd io CMD_IDENTIFY ?d2 = Some (0, outb io CMD CMD_IDENTIFY e)" "view e = view ?d2" by blast
  have "v_phase (view e) = Idle \<and> \<not> bit (v_drv_hd (view e)) 4"
    using d1(2) i2 unfolding e(2) by (simp add: v2 drive_ready_def)
  then obtain n where n: "view (outb io CMD CMD_IDENTIFY e) = (view e)\<lparr>v_phase := Busy n (sector_words ident)\<rparr>"
    using idc unfolding identify_contract_def by blast
  have len: "length ident = ATA_SECTOR_SIZE" using idc unfolding identify_contract_def by blast
  from identify_transfer [OF con _ len buf, of "outb io CMD CMD_IDENTIFY e" n] n obtain r d5 r' d6 d7 where
    t: "fst (read_status io (outb io CMD CMD_IDENTIFY e)) \<noteq> 0"
      "wait_status io (\<lambda>r. \<not> status_bsy r) (snd (read_status io (outb io CMD CMD_IDENTIFY e))) = Some (r, d5)"
      "wait_status io status_drq d5 = Some (r', d6)" "read_buffer_data io buf d6 = Some (ident, d7)"
      "view d7 = (view e)\<lparr>v_phase := Idle\<rparr>" by auto
  from set_identify_data_swapped [of ident idd] len model obtain idd' where
    i: "set_identify_data (swap_str_bytes (2 * SERIAL_NUMBER_STR_OFF) SERIAL_NUMBER_STR_LEN
       (swap_str_bytes (2 * MODEL_NUMBER_STR_OFF) MODEL_NUMBER_STR_LEN ident)) idd = Some idd'" "id_valid idd'"
      "id_num_sectors idd' = le32 ident 114" "id_cylinders idd' = le16 ident 2"
      "id_heads idd' = le16 ident 6" "id_spt idd' = le16 ident 12"
      "takeWhile (\<lambda>c. c \<noteq> NUL) (id_model_number idd') = takeWhile (\<lambda>c. c \<noteq> NUL) (ident_model ident)"
    by (auto simp: ATA_SECTOR_SIZE_def MODEL_NUMBER_STR_LEN_def)
  have "drive_ready (view d7)" using d1(2) unfolding t(5) e(2) v2 by (simp add: drive_ready_def)
  moreover have "ata_identify io 0 buf idd d = Some (0, idd', d7)"
    using d1(1) e(1) t(1-4) i(1)
    by (cases "read_status io (outb io CMD CMD_IDENTIFY e)") (simp add: ata_identify_def Let_def)
  ultimately show ?thesis using i by blast
qed

lemma ata_init_reads:
  assumes con: "ata_contract io view H S N D" and idc: "identify_contract io view ident"
    and buf: "length buf = ATA_SECTOR_SIZE" and model: "length (id_model_number idd) = MODEL_NUMBER_STR_LEN + 1"
  shows "\<exists>idd' d'. ata_init io buf idd d = Some (0, idd', d') \<and> drive_ready (view d') \<and> id_valid idd' \<and>
    id_num_sectors idd' = le32 ident 114 \<and> id_cylinders idd' = le16 ident 2 \<and>
    id_heads idd' = le16 ident 6 \<and> id_spt idd' = le16 ident 12 \<and>
    takeWhile (\<lambda>c. c \<noteq> NUL) (id_model_number idd') = takeWhile (\<lambda>c. c \<noteq> NUL) (ident_model ident)"
proof -
  from ata_reset_idle [OF idc] obtain d1 where d1: "ata_reset io d = Some d1" "v_phase (view d1) = Idle" by blast
  from ata_identify_reads [OF con idc d1(2) buf model] d1(1) show ?thesis by (auto simp: ata_init_def)
qed

text \<open>A drive that also keeps this contract: a reset takes effect at once.\<close>

definition model_ata :: "nat \<Rightarrow> nat \<Rightarrow> nat \<Rightarrow> (nat \<Rightarrow> u8 list) \<Rightarrow> u8 list \<Rightarrow> ata_view ports" where
  "model_ata H S N D ident = (model_drive H S N D)\<lparr>outb := (\<lambda>p b v.
     if p = CONTROL then v\<lparr>v_phase := Idle\<rparr>
     else if p = CMD \<and> b = CMD_IDENTIFY \<and> v_phase v = Idle \<and> \<not> bit (v_drv_hd v) 4
       then v\<lparr>v_phase := Busy 0 (sector_words ident)\<rparr>
     else outb (model_drive H S N D) p b v)\<rparr>"

lemma model_ata_contract:
  assumes "\<And>n. length (D n) = ATA_SECTOR_SIZE"
  shows "ata_contract (model_ata H S N D ident) (\<lambda>v. v) H S N D"
  unfolding ata_contract_def using assms
  by (simp add: model_ata_def model_drive_def ata_ports CMD_RSWOR_def CMD_IDENTIFY_def status_drq_def
      status_bsy_def status_err_def bit_simps) blast

lemma model_ata_identify:
  assumes "length ident = ATA_SECTOR_SIZE"
  shows "identify_contract (model_ata H S N D ident) (\<lambda>v. v) ident"
  unfolding identify_contract_def Let_def using assms
  by (intro conjI allI impI exI [of _ "0 :: nat"])
    (simp_all add: model_ata_def model_drive_def ata_ports polled_def status_bsy_def status_rdy_def
      status_err_def bit_simps)

section \<open>Properties\<close>

text \<open>Identification of the drive. With a drive that keeps the ATA contract and answers IDENTIFY with
  the 512 bytes \<open>ident\<close>, \<open>ata_init\<close> returns 0, leaves drive 0 selected and idle, and has taken the
  capacity and the geometry from the words 57, 58, 1, 3 and 6; the model number is the text whose
  characters the drive sends with the two of every word swapped.\<close>

theorem ata_init_identifies_drive:
  assumes "ata_contract io view H S N D" "identify_contract io view ident"
    and "length buf = ATA_SECTOR_SIZE" "length (id_model_number idd) = MODEL_NUMBER_STR_LEN + 1"
  shows "\<exists>idd' d'. ata_init io buf idd d = Some (0, idd', d') \<and> drive_ready (view d') \<and> id_valid idd' \<and>
    id_num_sectors idd' = le32 ident 114 \<and> id_cylinders idd' = le16 ident 2 \<and>
    id_heads idd' = le16 ident 6 \<and> id_spt idd' = le16 ident 12 \<and>
    takeWhile (\<lambda>c. c \<noteq> NUL) (id_model_number idd') = takeWhile (\<lambda>c. c \<noteq> NUL) (ident_model ident)"
  using assms by (rule ata_init_reads)

definition sample_ident :: "u8 list" where
  "sample_ident = (replicate 512 0)[2 := 5, 6 := 16, 12 := 63, 114 := 0xa0, 115 := 0x0f,
     54 := 0x45, 55 := 0x51, 56 := 0x55, 57 := 0x4d]"

lemma sample_ident_fields:
  "length sample_ident = ATA_SECTOR_SIZE" "le32 sample_ident 114 = 4000" "le16 sample_ident 2 = 5"
  "le16 sample_ident 6 = 16" "le16 sample_ident 12 = 63"
  by (simp_all add: sample_ident_def le16_def le32_def ATA_SECTOR_SIZE_def nth_list_update push_bit_eq_mult)

theorem ata_init_identifies_drive_witness:
  "\<exists>idd' d'. ata_init (model_ata 16 63 4000 model_disk sample_ident) (replicate ATA_SECTOR_SIZE 0)
     (model_id\<lparr>id_valid := False\<rparr>) model_view = Some (0, idd', d') \<and> id_num_sectors idd' = 4000 \<and>
     id_heads idd' = 16 \<and> id_spt idd' = 63 \<and> takeWhile (\<lambda>c. c \<noteq> NUL) (id_model_number idd') = ''QEMU''"
proof -
  have idx: "[0..<40] = 0 # 1 # 2 # 3 # 4 # [5..<40]"
    by (simp add: upt_conv_Cons [of 0 40] upt_conv_Cons [of "Suc 0" 40] upt_rec_numeral flip: numeral_2_eq_2)
  have v: "sample_ident ! 54 = 0x45" "sample_ident ! 55 = 0x51" "sample_ident ! 56 = 0x55" "sample_ident ! 57 = 0x4d"
    "sample_ident ! 59 = 0" by (simp_all add: sample_ident_def)
  have c: "byte_char 0x51 = CHR ''Q''" "byte_char 0x45 = CHR ''E''" "byte_char 0x4d = CHR ''M''"
    "byte_char 0x55 = CHR ''U''" "byte_char 0 = NUL" by (simp_all add: byte_char_def char_of_def bit_0)
  have "map (\<lambda>k. byte_char (sample_ident ! (54 + swap_idx k))) [0, 1, 2, 3, 4] = ''QEMU'' @ [NUL]"
    by (simp add: swap_idx_def v c)
  then have m: "ident_model sample_ident = ''QEMU'' @ NUL # map (\<lambda>k. byte_char (sample_ident ! (54 + swap_idx k))) [5..<40]"
    unfolding ident_model_def idx list.map by simp
  have "takeWhile (\<lambda>c. c \<noteq> NUL) (ident_model sample_ident) = ''QEMU''" unfolding m by simp
  moreover have "length (id_model_number (model_id\<lparr>id_valid := False\<rparr>)) = MODEL_NUMBER_STR_LEN + 1"
    by (simp add: model_id_def MODEL_NUMBER_STR_LEN_def)
  ultimately show ?thesis
    using ata_init_identifies_drive [OF model_ata_contract [of model_disk, OF model_disk_length]
        model_ata_identify [OF sample_ident_fields(1)] length_replicate, of "model_id\<lparr>id_valid := False\<rparr>" 16 63 4000 0 model_view]
      sample_ident_fields by (auto simp: sample_ident_fields)
qed

end
