(* ===== verification/Sector_Interface.thy ===== *)
theory Sector_Interface
  imports Kboot_Prelude
begin

text \<open>
  The interface between the file system and the disk below it: reading one 512-byte sector into a
  buffer. \<open>avail\<close> are the sector numbers the reader serves and \<open>content\<close> what they hold. The
  theory \<open>Hdd\<close> provides it, the file system \<open>Fat16\<close> relies on it.
\<close>

definition SECTOR_LEN :: nat where "SECTOR_LEN = 512"

locale sector_reader =
  fixes read_sec :: "u32 \<Rightarrow> u8 list \<Rightarrow> 's \<Rightarrow> (int \<times> u8 list \<times> 's) option"
    and content :: "u32 \<Rightarrow> u8 list"
    and avail :: "u32 \<Rightarrow> bool"
    and invar :: "'s \<Rightarrow> bool"
  assumes read_avail: "invar s \<Longrightarrow> avail n \<Longrightarrow> length buf = SECTOR_LEN \<Longrightarrow>
      \<exists>s'. read_sec n buf s = Some (0, content n, s') \<and> invar s'"
    and read_refused: "invar s \<Longrightarrow> \<not> avail n \<Longrightarrow> read_sec n buf s = Some (1, buf, s)"
    and content_length: "invar s \<Longrightarrow> avail n \<Longrightarrow> length (content n) = SECTOR_LEN"
begin

lemma read_returns:
  assumes "invar s" and "length buf = SECTOR_LEN"
  obtains rc buf' s' where "read_sec n buf s = Some (rc, buf', s')"
    and "length buf' = SECTOR_LEN" and "invar s'" and "rc = 0 \<longleftrightarrow> avail n"
proof (cases "avail n")
  case True
  with read_avail [OF assms(1) True assms(2)] content_length [OF assms(1) True] that show thesis by force
next
  case False
  with read_refused [OF assms(1) False] assms that show thesis by force
qed

end

end
