(* ===== verification/Fat16.thy ===== *)
theory Fat16
  imports Ata Sector_Interface
begin

text \<open>
  The FAT16 file system (\<open>drivers/fat16.c\<close>) over a sector reader \<open>rd pnum n buf s\<close>
  (\<open>hdd_read_sector\<close>). The record \<open>fat\<close> holds the state of the reader, the one-sector buffer
  \<open>_buf_sec\<close> and the static variables. A \<open>dir_entry_t *\<close> or an \<open>ata_sector_t *\<close> always points into
  \<open>_buf_sec\<close>: it is an offset there, and a \<open>NULL\<close> is \<open>None\<close>. The outer \<open>None\<close> is a divide
  error (a volume with no sectors per cluster) or a read outside the file name.
\<close>

section \<open>State\<close>

record vid =
  vid_bytes_per_sector :: u16
  vid_sectors_per_cluster :: u8
  vid_reserved_sectors :: u16
  vid_num_fats :: u8
  vid_max_root_entries :: u16
  vid_sectors_per_fat :: u16
  vid_vol_label :: "char list"
  vid_type :: "char list"
  vid_signature :: u16

record 's fat =
  fat_disk :: 's
  buf_sec :: "u8 list"
  fat_partition_num :: u32
  starting_clu_sec_num :: u32
  starting_fat_sec_num :: u32
  fat_vid :: vid

type_synonym 's reader = "u32 \<Rightarrow> u32 \<Rightarrow> u8 list \<Rightarrow> 's \<Rightarrow> (int \<times> u8 list \<times> 's) option"

definition VOL_LABEL_LEN :: nat where "VOL_LABEL_LEN = 11"
definition TYPE_LEN :: nat where "TYPE_LEN = 8"
definition FILE_BASENAME_LEN :: nat where "FILE_BASENAME_LEN = 8"
definition FILE_EXTENSION_LEN :: nat where "FILE_EXTENSION_LEN = 3"
definition SIZEOF_SECTOR :: u32 where "SIZEOF_SECTOR = 512"
definition SIZEOF_DIR_ENTRY :: u32 where "SIZEOF_DIR_ENTRY = 32"
definition STARTING_ROOT_CLU_NUM :: u16 where "STARTING_ROOT_CLU_NUM = 2"
definition FAT_ENTRIES_PER_SECTOR :: u32 where "FAT_ENTRIES_PER_SECTOR = 256"
definition DIR_ENTRIES_PER_SECTOR :: u32 where "DIR_ENTRIES_PER_SECTOR = 16"

definition CLUSTER_SIZE :: "vid \<Rightarrow> u32" where
  "CLUSTER_SIZE v = ucast (vid_sectors_per_cluster v) * SIZEOF_SECTOR"

definition ROOT_CLUSTERS :: "vid \<Rightarrow> u32 option" where
  "ROOT_CLUSTERS v =
     (if CLUSTER_SIZE v = 0 then None
      else Some (ucast (vid_max_root_entries v) * SIZEOF_DIR_ENTRY div CLUSTER_SIZE v))"

section \<open>Sectors and clusters\<close>

text \<open>The result says whether the pointer to \<open>_buf_sec\<close> was returned.\<close>

definition fat_read_sector :: "'s reader \<Rightarrow> u32 \<Rightarrow> 's fat \<Rightarrow> (bool \<times> 's fat) option" where
  "fat_read_sector rd sec_num s =
     (case rd (fat_partition_num s) sec_num (buf_sec s) (fat_disk s) of
        None \<Rightarrow> None
      | Some (rc, b, s') \<Rightarrow> Some (\<not> rc \<noteq> 0, s\<lparr>buf_sec := b, fat_disk := s'\<rparr>))"

definition clu2rsec :: "u16 \<Rightarrow> 's fat \<Rightarrow> u32" where
  "clu2rsec clu_num s =
     ucast clu_num * ucast (vid_sectors_per_cluster (fat_vid s)) + starting_clu_sec_num s"

definition read_cluster_sec :: "'s reader \<Rightarrow> u16 \<Rightarrow> u32 \<Rightarrow> 's fat \<Rightarrow> (bool \<times> 's fat) option" where
  "read_cluster_sec rd clu_num sec_num s =
     (if clu_num < 2 then Some (False, s)
      else if sec_num \<ge> ucast (vid_sectors_per_cluster (fat_vid s)) then Some (False, s)
      else fat_read_sector rd (sec_num + clu2rsec (clu_num - 2) s) s)"

definition fat_get_next_clu_num :: "'s reader \<Rightarrow> u16 \<Rightarrow> 's fat \<Rightarrow> (u16 \<times> 's fat) option" where
  "fat_get_next_clu_num rd clu_num s =
     (case ROOT_CLUSTERS (fat_vid s) of
        None \<Rightarrow> None
      | Some rc \<Rightarrow>
          if ucast clu_num < ucast STARTING_ROOT_CLU_NUM + rc then Some (0xffff, s)
          else (let clu = ucast (ucast clu_num - rc) :: u16;
                    sec_num = ucast clu div FAT_ENTRIES_PER_SECTOR + starting_fat_sec_num s;
                    rentry = ucast clu mod FAT_ENTRIES_PER_SECTOR
                in (case fat_read_sector rd sec_num s of
                      None \<Rightarrow> None
                    | Some (ok, s') \<Rightarrow>
                        if \<not> ok then Some (0xffff, s')
                        else Some (le16 (buf_sec s') (2 * unat rentry), s'))))"

section \<open>Directory entries\<close>

text \<open>The fields of the entry at offset \<open>de\<close> of a buffer.\<close>

definition de_starting_cluster :: "nat \<Rightarrow> u8 list \<Rightarrow> u16" where
  "de_starting_cluster de b = le16 b (de + 26)"

definition de_size :: "nat \<Rightarrow> u8 list \<Rightarrow> u32" where
  "de_size de b = le32 b (de + 28)"

definition dir_entry_is_unused :: "nat \<Rightarrow> u8 list \<Rightarrow> bool" where
  "dir_entry_is_unused de b \<longleftrightarrow> 0xe5 = b ! de"

definition dir_entry_has_long_name :: "nat \<Rightarrow> u8 list \<Rightarrow> bool" where
  "dir_entry_has_long_name de b \<longleftrightarrow>
     bit (b ! (de + 11)) 0 \<and> bit (b ! (de + 11)) 1 \<and> bit (b ! (de + 11)) 2 \<and> bit (b ! (de + 11)) 3"

definition dir_entry_is_end :: "nat \<Rightarrow> u8 list \<Rightarrow> bool" where
  "dir_entry_is_end de b \<longleftrightarrow> b ! de = 0"

definition char2upcase :: "char \<Rightarrow> char" where
  "char2upcase c =
     (if char_in (CHR ''a'') (CHR ''z'') c
      then char_of (of_char (CHR ''A'') + (of_char c - of_char (CHR ''a'') :: int)) else c)"

definition char_is_valid :: "char \<Rightarrow> bool" where
  "char_is_valid c \<longleftrightarrow> char_in (CHR ''a'') (CHR ''z'') c \<or> char_in (CHR ''A'') (CHR ''Z'') c \<or>
     char_in (CHR ''0'') (CHR ''9'') c \<or> CHR ''_'' = c \<or> CHR ''-'' = c"

text \<open>
  The two copying loops of \<open>_dir_entry_is_filename\<close>. \<open>Some None\<close> is the early
  \<open>return false\<close>; the first loop also returns the index at which the extension starts.
\<close>

function copy_basename :: "char list \<Rightarrow> nat \<Rightarrow> char list \<Rightarrow> (nat \<times> char list) option option" where
  "copy_basename filename i bname =
     (if \<not> i < length filename then None
      else if filename ! i = NUL then Some (Some (i, bname))
      else if CHR ''.'' = filename ! i then
        (if i = 0 then Some None else Some (Some (i + 1, bname)))
      else if i \<ge> FILE_BASENAME_LEN then Some None
      else if \<not> char_is_valid (filename ! i) then Some None
      else copy_basename filename (i + 1) (bname[i := char2upcase (filename ! i)]))"
  by pat_completeness auto

termination
  by (relation "measure (\<lambda>(f, i, b). length f - i)") auto

function copy_extension ::
    "char list \<Rightarrow> nat \<Rightarrow> nat \<Rightarrow> char list \<Rightarrow> char list option option" where
  "copy_extension filename i j ext =
     (if \<not> i < length filename then None
      else if filename ! i = NUL then Some (Some ext)
      else if j \<ge> FILE_EXTENSION_LEN then Some None
      else if \<not> char_is_valid (filename ! i) then Some None
      else copy_extension filename (i + 1) (j + 1) (ext[j := char2upcase (filename ! i)]))"
  by pat_completeness auto

termination
  by (relation "measure (\<lambda>(f, i, j, e). length f - i)") auto

declare copy_basename.simps [simp del] copy_extension.simps [simp del]

definition dir_entry_is_filename :: "nat \<Rightarrow> u8 list \<Rightarrow> char list \<Rightarrow> bool option" where
  "dir_entry_is_filename de b filename =
     (case copy_basename filename 0 (replicate FILE_BASENAME_LEN (CHR '' '')) of
        None \<Rightarrow> None
      | Some None \<Rightarrow> Some False
      | Some (Some (i, bname)) \<Rightarrow>
          (case copy_extension filename i 0 (replicate FILE_EXTENSION_LEN (CHR '' '')) of
             None \<Rightarrow> None
           | Some None \<Rightarrow> Some False
           | Some (Some ext) \<Rightarrow>
               (case strncmp bname (map byte_char (drop de b)) FILE_BASENAME_LEN of
                  None \<Rightarrow> None
                | Some r \<Rightarrow>
                    if r \<noteq> 0 then Some False
                    else (case strncmp ext (map byte_char (drop (de + FILE_BASENAME_LEN) b))
                                 FILE_EXTENSION_LEN of
                            None \<Rightarrow> None
                          | Some r2 \<Rightarrow> Some (\<not> r2 \<noteq> 0)))))"

section \<open>The root directory\<close>

definition rootdir_get_entry_num :: "'s reader \<Rightarrow> u32 \<Rightarrow> 's fat \<Rightarrow> (nat option \<times> 's fat) option" where
  "rootdir_get_entry_num rd num s =
     (case ROOT_CLUSTERS (fat_vid s) of
        None \<Rightarrow> None
      | Some root_clusters \<Rightarrow>
          (let cluster_steps = num * SIZEOF_DIR_ENTRY div CLUSTER_SIZE (fat_vid s)
           in if cluster_steps \<ge> root_clusters then Some (None, s)
              else (let clu_addr = STARTING_ROOT_CLU_NUM + ucast cluster_steps;
                        rsec = num * SIZEOF_DIR_ENTRY div SIZEOF_SECTOR
                                 mod ucast (vid_sectors_per_cluster (fat_vid s));
                        rentry = num mod DIR_ENTRIES_PER_SECTOR
                    in (case read_cluster_sec rd clu_addr rsec s of
                          None \<Rightarrow> None
                        | Some (ok, s') \<Rightarrow>
                            Some (if \<not> ok then None else Some (32 * unat rentry), s')))))"

text \<open>The search from entry \<open>i\<close> on; \<open>n\<close> entries are left below \<open>MAX_ROOT_ENTRIES\<close>.\<close>

fun rootdir_find_from ::
    "'s reader \<Rightarrow> char list \<Rightarrow> nat \<Rightarrow> nat \<Rightarrow> 's fat \<Rightarrow> (nat option \<times> 's fat) option" where
  "rootdir_find_from rd filename i 0 s = Some (None, s)"
| "rootdir_find_from rd filename i (Suc n) s =
     (case rootdir_get_entry_num rd (of_nat i) s of
        None \<Rightarrow> None
      | Some (None, s') \<Rightarrow> Some (None, s')
      | Some (Some de, s') \<Rightarrow>
          if dir_entry_is_end de (buf_sec s') then Some (None, s')
          else if dir_entry_is_unused de (buf_sec s') then rootdir_find_from rd filename (Suc i) n s'
          else if dir_entry_has_long_name de (buf_sec s')
            then rootdir_find_from rd filename (Suc i) n s'
          else (case dir_entry_is_filename de (buf_sec s') filename of
                  None \<Rightarrow> None
                | Some True \<Rightarrow> Some (Some de, s')
                | Some False \<Rightarrow> rootdir_find_from rd filename (Suc i) n s'))"

definition rootdir_find_entry :: "'s reader \<Rightarrow> char list \<Rightarrow> 's fat \<Rightarrow> (nat option \<times> 's fat) option" where
  "rootdir_find_entry rd filename s =
     rootdir_find_from rd filename 0 (unat (vid_max_root_entries (fat_vid s))) s"

section \<open>Initialisation\<close>

definition init_vid :: "u8 list \<Rightarrow> vid \<Rightarrow> vid option" where
  "init_vid b v =
     (let v1 = v\<lparr>vid_bytes_per_sector := le16 b 0xb, vid_sectors_per_cluster := b ! 0xd,
                vid_reserved_sectors := le16 b 0xe, vid_num_fats := b ! 0x10,
                vid_max_root_entries := le16 b 0x11, vid_sectors_per_fat := le16 b 0x16,
                vid_signature := le16 b 0x1fe\<rparr>
      in (case strncpy (vid_vol_label v1) (map byte_char (drop 0x2b b)) VOL_LABEL_LEN of
            None \<Rightarrow> None
          | Some l \<Rightarrow>
              (case strncpy (vid_type v1) (map byte_char (drop 0x36 b)) TYPE_LEN of
                 None \<Rightarrow> None
               | Some t \<Rightarrow> Some (v1\<lparr>vid_vol_label := l[VOL_LABEL_LEN := NUL],
                                     vid_type := t[TYPE_LEN := NUL]\<rparr>))))"

definition fat16_init :: "'s reader \<Rightarrow> u32 \<Rightarrow> 's fat \<Rightarrow> (int \<times> 's fat) option" where
  "fat16_init rd partition_num s =
     (if partition_num \<ge> 4 then Some (1, s)
      else (case fat_read_sector rd 0 (s\<lparr>fat_partition_num := partition_num\<rparr>) of
              None \<Rightarrow> None
            | Some (ok, s1) \<Rightarrow>
                if \<not> ok then Some (1, s1)
                else (case init_vid (buf_sec s1) (fat_vid s1) of
                        None \<Rightarrow> None
                      | Some v \<Rightarrow>
                          Some (0, s1\<lparr>fat_vid := v,
                            starting_clu_sec_num := ucast (vid_reserved_sectors v)
                              + ucast (vid_num_fats v) * ucast (vid_sectors_per_fat v),
                            starting_fat_sec_num := ucast (vid_reserved_sectors v)\<rparr>))))"

section \<open>Files\<close>

definition fat16_get_file_size :: "'s reader \<Rightarrow> char list \<Rightarrow> 's fat \<Rightarrow> (int \<times> 's fat) option" where
  "fat16_get_file_size rd filename s =
     (case rootdir_find_entry rd filename s of
        None \<Rightarrow> None
      | Some (None, s') \<Rightarrow> Some (-1, s')
      | Some (Some de, s') \<Rightarrow> Some (sint (de_size de (buf_sec s')), s'))"

text \<open>
  The body of the copying loop before the byte is copied: at a sector boundary the next sector is
  read, at a cluster boundary the chain is followed first. The result is the new cluster number and
  the offset of the source pointer, or \<open>None\<close> for \<open>return -1\<close>.
\<close>

definition load_advance ::
    "'s reader \<Rightarrow> nat \<Rightarrow> u16 \<Rightarrow> nat \<Rightarrow> 's fat \<Rightarrow> ((u16 \<times> nat) option \<times> 's fat) option" where
  "load_advance rd i clu_num psec s =
     (if i mod 512 \<noteq> 0 then Some (Some (clu_num, psec), s)
      else if vid_sectors_per_cluster (fat_vid s) = 0 then None
      else (let rsec_num = of_nat (i div 512) mod ucast (vid_sectors_per_cluster (fat_vid s))
            in if i \<noteq> 0 \<and> i mod unat (CLUSTER_SIZE (fat_vid s)) = 0 then
                 (case fat_get_next_clu_num rd clu_num s of
                    None \<Rightarrow> None
                  | Some (next_clu, s1) \<Rightarrow>
                      if next_clu = 0 \<or> 0xffff = next_clu then Some (None, s1)
                      else (case read_cluster_sec rd (next_clu + 8) rsec_num s1 of
                              None \<Rightarrow> None
                            | Some (ok, s2) \<Rightarrow>
                                Some (if \<not> ok then None else Some (next_clu + 8, 0), s2)))
               else (case read_cluster_sec rd clu_num rsec_num s of
                       None \<Rightarrow> None
                     | Some (ok, s2) \<Rightarrow> Some (if \<not> ok then None else Some (clu_num, 0), s2))))"

text \<open>The loop; \<open>n\<close> bytes are left. A store outside \<open>buf\<close> is \<open>None\<close>.\<close>

fun load_bytes ::
    "'s reader \<Rightarrow> nat \<Rightarrow> nat \<Rightarrow> u16 \<Rightarrow> nat \<Rightarrow> u8 list \<Rightarrow> 's fat \<Rightarrow> (int \<times> u8 list \<times> 's fat) option" where
  "load_bytes rd i 0 clu_num psec buf s = Some (sint (of_nat i :: u32), buf, s)"
| "load_bytes rd i (Suc n) clu_num psec buf s =
     (case load_advance rd i clu_num psec s of
        None \<Rightarrow> None
      | Some (None, s') \<Rightarrow> Some (-1, buf, s')
      | Some (Some (clu_num', psec'), s') \<Rightarrow>
          if i < length buf \<and> psec' < length (buf_sec s')
          then load_bytes rd (Suc i) n clu_num' (Suc psec') (buf[i := buf_sec s' ! psec']) s'
          else None)"

definition fat16_load ::
    "'s reader \<Rightarrow> char list \<Rightarrow> u8 list \<Rightarrow> u32 \<Rightarrow> 's fat \<Rightarrow> (int \<times> u8 list \<times> 's fat) option" where
  "fat16_load rd filename buf buf_size s =
     (case rootdir_find_entry rd filename s of
        None \<Rightarrow> None
      | Some (None, s1) \<Rightarrow> Some (-1, buf, s1)
      | Some (Some de, s1) \<Rightarrow>
          (case ROOT_CLUSTERS (fat_vid s1) of
             None \<Rightarrow> None
           | Some rc \<Rightarrow>
               (let clu_num = ucast (ucast (de_starting_cluster de (buf_sec s1)) + rc) :: u16;
                    file_size = de_size de (buf_sec s1);
                    max_len = (if file_size < buf_size then file_size else buf_size)
                in load_bytes rd 0 (unat max_len) clu_num 0 buf s1)))"

end
