(* ===== verification/Mbr.thy ===== *)
theory Mbr
  imports Ata
begin

text \<open>
  The partition table of the master boot record (\<open>drivers/mbr.c\<close>): the static array of in-memory
  partition entries and the flag for the bootable one, filled from sector 0.
\<close>

section \<open>State\<close>

record mpe =
  mpe_valid :: bool
  mpe_bootable :: bool
  mpe_starting_sec_lba :: u32
  mpe_num_secs :: u32

record mbr_state =
  partition_entry :: "mpe list"
  bootable_partition_found :: bool

definition NUM_PARTITIONS_MAX :: nat where "NUM_PARTITIONS_MAX = 4"

text \<open>The offset of \<open>mbr_t.partition[i]\<close> and the fields of \<open>partition_entry_t\<close>.\<close>

definition partition_off :: "nat \<Rightarrow> nat" where "partition_off i = 436 + 10 + 16 * i"
definition pe_status :: "u8 list \<Rightarrow> nat \<Rightarrow> u8" where "pe_status mbr i = mbr ! partition_off i"
definition pe_first_lba :: "u8 list \<Rightarrow> nat \<Rightarrow> u32" where
  "pe_first_lba mbr i = le32 mbr (partition_off i + 8)"
definition pe_num_sectors :: "u8 list \<Rightarrow> nat \<Rightarrow> u32" where
  "pe_num_sectors mbr i = le32 mbr (partition_off i + 12)"

section \<open>Operations\<close>

definition pe_is_all_zero :: "u8 list \<Rightarrow> nat \<Rightarrow> bool" where
  "pe_is_all_zero mbr i \<longleftrightarrow> list_all (\<lambda>b. b = 0) (take 16 (drop (partition_off i) mbr))"

definition pe_is_bootable :: "u8 list \<Rightarrow> nat \<Rightarrow> bool" where
  "pe_is_bootable mbr i \<longleftrightarrow> pe_status mbr i = 0x80"

definition set_partition_info :: "nat \<Rightarrow> u8 list \<Rightarrow> mbr_state \<Rightarrow> int \<times> mbr_state" where
  "set_partition_info pnum mbr ms =
     (if pe_is_all_zero mbr pnum then
        (0, ms\<lparr>partition_entry := (partition_entry ms)[pnum := (partition_entry ms ! pnum)\<lparr>mpe_valid := False\<rparr>]\<rparr>)
      else
        (let e1 = (partition_entry ms ! pnum)\<lparr>mpe_starting_sec_lba := pe_first_lba mbr pnum,
                    mpe_num_secs := pe_num_sectors mbr pnum\<rparr>
         in if pe_is_bootable mbr pnum then
              (if bootable_partition_found ms then
                 (1, ms\<lparr>partition_entry := (partition_entry ms)[pnum := e1]\<rparr>)
               else
                 (0, ms\<lparr>bootable_partition_found := True,
                        partition_entry := (partition_entry ms)
                          [pnum := e1\<lparr>mpe_bootable := True, mpe_valid := True\<rparr>]\<rparr>))
            else
              (0, ms\<lparr>partition_entry := (partition_entry ms)
                       [pnum := e1\<lparr>mpe_bootable := False, mpe_valid := True\<rparr>]\<rparr>)))"

text \<open>\<open>stackbuf\<close> is the uninitialised \<open>mbr_t\<close> on the stack. Both structs have 512 bytes.\<close>

definition mbr_init ::
    "'d ports \<Rightarrow> ata_id \<Rightarrow> u8 list \<Rightarrow> mbr_state \<Rightarrow> 'd \<Rightarrow> (int \<times> mbr_state \<times> 'd) option" where
  "mbr_init io idd stackbuf ms d =
     (let ms1 = ms\<lparr>partition_entry := foldl (\<lambda>pe i. pe[i := (pe ! i)\<lparr>mpe_valid := False\<rparr>])
                      (partition_entry ms) [0..<NUM_PARTITIONS_MAX]\<rparr>
      in (case ata_read_sector_lba io idd 0 stackbuf d of
            None \<Rightarrow> None
          | Some (rc, mbr, d1) \<Rightarrow>
              if rc \<noteq> 0 then Some (1, ms1, d1)
              else Some (0, foldl (\<lambda>m i. snd (set_partition_info i mbr m))
                              (ms1\<lparr>bootable_partition_found := False\<rparr>) [0..<NUM_PARTITIONS_MAX], d1)))"

text \<open>
  \<open>None\<close> is a partition number outside the array, which the code does not check;
  \<open>Some None\<close> the return value 1; otherwise the two outputs.
\<close>

definition mbr_get_partition_info :: "u32 \<Rightarrow> mbr_state \<Rightarrow> (u32 \<times> u32) option option" where
  "mbr_get_partition_info pnum ms =
     (if \<not> unat pnum < length (partition_entry ms) then None
      else (let e = partition_entry ms ! unat pnum
            in if \<not> mpe_valid e then Some None
               else Some (Some (mpe_starting_sec_lba e, mpe_num_secs e))))"

section \<open>Reading the table\<close>

text \<open>The entry that counts for the boot flag: the first non-empty entry marked bootable.\<close>

definition pe_accepted :: "u8 list \<Rightarrow> nat \<Rightarrow> bool" where
  "pe_accepted mbr i \<longleftrightarrow> \<not> pe_is_all_zero mbr i \<and>
     \<not> (pe_is_bootable mbr i \<and> (\<exists>j < i. \<not> pe_is_all_zero mbr j \<and> pe_is_bootable mbr j))"

definition entries_upto :: "u8 list \<Rightarrow> nat \<Rightarrow> mbr_state \<Rightarrow> bool" where
  "entries_upto mbr n ms \<longleftrightarrow> length (partition_entry ms) = NUM_PARTITIONS_MAX \<and>
     bootable_partition_found ms = (\<exists>j < n. \<not> pe_is_all_zero mbr j \<and> pe_is_bootable mbr j) \<and>
     (\<forall>i < NUM_PARTITIONS_MAX. n \<le> i \<longrightarrow> \<not> mpe_valid (partition_entry ms ! i)) \<and>
     (\<forall>i < n. mpe_valid (partition_entry ms ! i) = pe_accepted mbr i \<and>
        (pe_accepted mbr i \<longrightarrow>
           mpe_starting_sec_lba (partition_entry ms ! i) = pe_first_lba mbr i \<and>
           mpe_num_secs (partition_entry ms ! i) = pe_num_sectors mbr i \<and>
           mpe_bootable (partition_entry ms ! i) = pe_is_bootable mbr i))"

lemma entries_upto_Suc:
  assumes "entries_upto mbr n ms" and "n < NUM_PARTITIONS_MAX"
  shows "entries_upto mbr (Suc n) (snd (set_partition_info n mbr ms))"
  using assms
  by (auto simp: entries_upto_def set_partition_info_def Let_def nth_list_update less_Suc_eq
      pe_accepted_def)

lemma entries_upto_fold:
  "entries_upto mbr 0 ms \<Longrightarrow> n \<le> NUM_PARTITIONS_MAX \<Longrightarrow>
   entries_upto mbr n (foldl (\<lambda>m i. snd (set_partition_info i mbr m)) ms [0..<n])"
  by (induction n) (auto intro: entries_upto_Suc)

lemma mbr_cleared:
  assumes "length pe = NUM_PARTITIONS_MAX" and "n \<le> NUM_PARTITIONS_MAX"
  shows "length (foldl (\<lambda>pe i. pe[i := (pe ! i)\<lparr>mpe_valid := False\<rparr>]) pe [0..<n]) = NUM_PARTITIONS_MAX"
    and "\<forall>i < n. \<not> mpe_valid (foldl (\<lambda>pe i. pe[i := (pe ! i)\<lparr>mpe_valid := False\<rparr>]) pe [0..<n] ! i)"
  using assms(2) by (induction n) (auto simp: assms(1) nth_list_update less_Suc_eq)

lemma mbr_init_reads:
  assumes "ata_contract io view H S N D" and "drive_ready (view d)" and "drive_geometry idd H S N"
    and "length buf = ATA_SECTOR_SIZE" and "0 < id_num_sectors idd"
    and "length (partition_entry ms) = NUM_PARTITIONS_MAX"
  shows "\<exists>ms' d'. mbr_init io idd buf ms d = Some (0, ms', d') \<and> drive_ready (view d') \<and>
    entries_upto (D 0) NUM_PARTITIONS_MAX ms'"
proof -
  have "unat (0 :: u32) < 1024 * (H * S)"
    using assms(3) by (simp add: drive_geometry_def)
  from ata_read_sector_lba_cylinders [OF assms(1-5) this] obtain d' where
    d': "ata_read_sector_lba io idd 0 buf d = Some (0, D 0, d')" "drive_ready (view d')"
    by auto
  show ?thesis
    using d' mbr_cleared [OF assms(6) order_refl]
    by (auto simp: mbr_init_def intro!: entries_upto_fold) (simp add: entries_upto_def)
qed

lemma entries_upto_info:
  assumes "entries_upto mbr NUM_PARTITIONS_MAX ms" and "i < NUM_PARTITIONS_MAX"
  shows "mbr_get_partition_info (of_nat i) ms =
    Some (if pe_accepted mbr i then Some (pe_first_lba mbr i, pe_num_sectors mbr i) else None)"
proof -
  have "unat (of_nat i :: u32) = i"
    using assms(2) by (simp add: NUM_PARTITIONS_MAX_def unat_of_nat take_bit_eq_mod)
  then show ?thesis
    using assms by (simp add: mbr_get_partition_info_def entries_upto_def)
qed

section \<open>Properties\<close>

text \<open>C12. After \<open>mbr_init\<close> the in-memory table is exactly the accepted part of the partition table of
  sector 0. It has four entries; entry \<open>i\<close> is valid exactly when its 16 bytes are not all zero and it
  is not a second bootable one; a valid entry has the first sector, the size and the boot flag of the
  table, and \<open>mbr_get_partition_info\<close> reads them back and refuses the other entries. The flag for the
  bootable partition is set exactly when some non-empty entry is marked bootable. The signature of
  the sector plays no role.\<close>

theorem mbr_init_correct:
  assumes "ata_contract io view H S N D" and "drive_ready (view d)" and "drive_geometry idd H S N"
    and "length buf = ATA_SECTOR_SIZE" and "0 < id_num_sectors idd"
    and "length (partition_entry ms) = NUM_PARTITIONS_MAX"
  shows "\<exists>ms' d'. mbr_init io idd buf ms d = Some (0, ms', d') \<and> drive_ready (view d') \<and>
    length (partition_entry ms') = 4 \<and>
    bootable_partition_found ms' = (\<exists>j < 4. \<not> pe_is_all_zero (D 0) j \<and> pe_is_bootable (D 0) j) \<and>
    (\<forall>i < 4. mpe_valid (partition_entry ms' ! i) = pe_accepted (D 0) i \<and>
       (pe_accepted (D 0) i \<longrightarrow>
          mpe_starting_sec_lba (partition_entry ms' ! i) = pe_first_lba (D 0) i \<and>
          mpe_num_secs (partition_entry ms' ! i) = pe_num_sectors (D 0) i \<and>
          mpe_bootable (partition_entry ms' ! i) = pe_is_bootable (D 0) i) \<and>
       mbr_get_partition_info (of_nat i) ms' =
         Some (if pe_accepted (D 0) i then Some (pe_first_lba (D 0) i, pe_num_sectors (D 0) i) else None))"
proof -
  from mbr_init_reads [OF assms] obtain ms' d' where
    m: "mbr_init io idd buf ms d = Some (0, ms', d')" "drive_ready (view d')"
      "entries_upto (D 0) NUM_PARTITIONS_MAX ms'"
    by blast
  have e: "entries_upto (D 0) 4 ms'" "NUM_PARTITIONS_MAX = 4"
    using m(3) by (simp_all add: NUM_PARTITIONS_MAX_def)
  have "\<forall>i < 4. mbr_get_partition_info (of_nat i) ms' =
      Some (if pe_accepted (D 0) i then Some (pe_first_lba (D 0) i, pe_num_sectors (D 0) i) else None)"
    using entries_upto_info [OF m(3)] e(2) by simp
  with m(1,2) e show ?thesis by (simp add: entries_upto_def)
qed

text \<open>A table whose first entry is bootable, the second a second bootable one, the third not bootable
  and the fourth unused.\<close>

definition table_sector :: "u8 list" where
  "table_sector = (replicate ATA_SECTOR_SIZE 0)[446 := 0x80, 454 := 63, 458 := 100, 462 := 0x80,
     470 := 1, 486 := 200, 490 := 7]"

theorem mbr_init_correct_witness:
  "\<exists>ms' d'. mbr_init (model_drive 16 63 4000 (\<lambda>n. table_sector)) model_id (replicate ATA_SECTOR_SIZE 7)
     \<lparr>partition_entry = replicate NUM_PARTITIONS_MAX \<lparr>mpe_valid = True, mpe_bootable = True,
        mpe_starting_sec_lba = 9, mpe_num_secs = 9\<rparr>, bootable_partition_found = False\<rparr> model_view
     = Some (0, ms', d') \<and> bootable_partition_found ms' \<and>
     map mpe_valid (partition_entry ms') = [True, False, True, False] \<and>
     mpe_bootable (partition_entry ms' ! 0) \<and> \<not> mpe_bootable (partition_entry ms' ! 2) \<and>
     mbr_get_partition_info 0 ms' = Some (Some (63, 100)) \<and>
     mbr_get_partition_info 2 ms' = Some (Some (200, 7))"
proof -
  let ?ms = "\<lparr>partition_entry = replicate NUM_PARTITIONS_MAX \<lparr>mpe_valid = True, mpe_bootable = True,
        mpe_starting_sec_lba = 9, mpe_num_secs = 9\<rparr>, bootable_partition_found = False\<rparr>"
  have con: "ata_contract (model_drive 16 63 4000 (\<lambda>n. table_sector)) (\<lambda>v. v) 16 63 4000 (\<lambda>n. table_sector)"
    by (rule model_drive_contract) (simp add: table_sector_def)
  have cap: "0 < id_num_sectors model_id" by (simp add: model_id_def)
  have len: "length (partition_entry ?ms) = NUM_PARTITIONS_MAX" by simp
  have z: "\<not> pe_is_all_zero table_sector 0" "\<not> pe_is_all_zero table_sector 1"
      "\<not> pe_is_all_zero table_sector 2" "pe_is_all_zero table_sector 3"
    by code_simp+
  have b: "pe_is_bootable table_sector 0" "pe_is_bootable table_sector 1" "\<not> pe_is_bootable table_sector 2"
    by code_simp+
  have v: "pe_first_lba table_sector 0 = 63" "pe_num_sectors table_sector 0 = 100"
      "pe_first_lba table_sector 2 = 200" "pe_num_sectors table_sector 2 = 7"
    by code_simp+
  have acc: "pe_accepted table_sector 0" "\<not> pe_accepted table_sector 1" "pe_accepted table_sector 2"
      "\<not> pe_accepted table_sector 3"
    using z b by (auto simp: pe_accepted_def)
  have "\<exists>j < 4. \<not> pe_is_all_zero table_sector j \<and> pe_is_bootable table_sector j"
    using z(1) b(1) by (intro exI [of _ 0]) simp
  with mbr_init_correct [OF con model_view_ready model_id_drive length_replicate cap len, of 7] obtain ms' d' where
    m: "mbr_init (model_drive 16 63 4000 (\<lambda>n. table_sector)) model_id (replicate ATA_SECTOR_SIZE 7) ?ms model_view
        = Some (0, ms', d')" "length (partition_entry ms') = 4" "bootable_partition_found ms'"
      "\<forall>i < 4. mpe_valid (partition_entry ms' ! i) = pe_accepted table_sector i \<and>
        (pe_accepted table_sector i \<longrightarrow> mpe_bootable (partition_entry ms' ! i) = pe_is_bootable table_sector i) \<and>
        mbr_get_partition_info (of_nat i) ms' = Some (if pe_accepted table_sector i
          then Some (pe_first_lba table_sector i, pe_num_sectors table_sector i) else None)"
    by blast
  note at = m(4) [rule_format, of 0] m(4) [rule_format, of 1] m(4) [rule_format, of 2] m(4) [rule_format, of 3]
  have "map mpe_valid (partition_entry ms') = [True, False, True, False]"
    using m(2) at acc by (auto simp: list_eq_iff_nth_eq less_Suc_eq numeral_eq_Suc)
  with m at acc b v show ?thesis by auto
qed

end
