(* ===== verification/Hdd.thy ===== *)
theory Hdd
  imports Mbr Sector_Interface
begin

text \<open>
  The hard disk (\<open>drivers/hdd.c\<close>): sectors addressed relative to a partition. The record
  \<open>disk\<close> joins the state of the drive, of \<open>ata.c\<close> and of \<open>mbr.c\<close>. The interpretation at the end
  provides the file system's interface \<open>sector_reader\<close>.
\<close>

record 'd disk =
  disk_dev :: 'd
  disk_id :: ata_id
  disk_mbr :: mbr_state

definition hdd_init :: "'d ports \<Rightarrow> u8 list \<Rightarrow> u8 list \<Rightarrow> 'd disk \<Rightarrow> (int \<times> 'd disk) option" where
  "hdd_init io buf1 buf2 s =
     (case ata_init io buf1 (disk_id s) (disk_dev s) of
        None \<Rightarrow> None
      | Some (rc, idd, d1) \<Rightarrow>
          if rc \<noteq> 0 then Some (1, s\<lparr>disk_id := idd, disk_dev := d1\<rparr>)
          else (case mbr_init io idd buf2 (disk_mbr s) d1 of
                  None \<Rightarrow> None
                | Some (rc2, ms, d2) \<Rightarrow>
                    Some (if rc2 \<noteq> 0 then 1 else 0,
                          s\<lparr>disk_id := idd, disk_dev := d2, disk_mbr := ms\<rparr>)))"

definition within_partition :: "u32 \<Rightarrow> u32 \<Rightarrow> mbr_state \<Rightarrow> bool option" where
  "within_partition pnum sec_num_lba ms =
     (case mbr_get_partition_info pnum ms of
        None \<Rightarrow> None
      | Some None \<Rightarrow> Some False
      | Some (Some (_, num_secs)) \<Rightarrow> Some (\<not> sec_num_lba \<ge> num_secs))"

definition rel2abs_sector :: "u32 \<Rightarrow> u32 \<Rightarrow> mbr_state \<Rightarrow> u32 option option" where
  "rel2abs_sector pnum rsec_num ms =
     (case within_partition pnum rsec_num ms of
        None \<Rightarrow> None
      | Some False \<Rightarrow> Some None
      | Some True \<Rightarrow>
          (case mbr_get_partition_info pnum ms of
             None \<Rightarrow> None
           | Some None \<Rightarrow> Some None
           | Some (Some (start_asec, _)) \<Rightarrow> Some (Some (start_asec + rsec_num))))"

definition hdd_read_sector ::
    "'d ports \<Rightarrow> u32 \<Rightarrow> u32 \<Rightarrow> u8 list \<Rightarrow> 'd disk \<Rightarrow> (int \<times> u8 list \<times> 'd disk) option" where
  "hdd_read_sector io pnum rsec_num buf s =
     (case rel2abs_sector pnum rsec_num (disk_mbr s) of
        None \<Rightarrow> None
      | Some None \<Rightarrow> Some (1, buf, s)
      | Some (Some asec_num) \<Rightarrow>
          (case ata_read_sector_lba io (disk_id s) asec_num buf (disk_dev s) of
             None \<Rightarrow> None
           | Some (rc, buf', d') \<Rightarrow> Some (rc, buf', s\<lparr>disk_dev := d'\<rparr>)))"

section \<open>The sectors a partition serves\<close>

definition part_avail :: "ata_id \<Rightarrow> mbr_state \<Rightarrow> u32 \<Rightarrow> u32 \<Rightarrow> bool" where
  "part_avail idd ms pnum n \<longleftrightarrow>
     (case mbr_get_partition_info pnum ms of
        Some (Some (start, num)) \<Rightarrow> n < num \<and> start + n < id_num_sectors idd
      | _ \<Rightarrow> False)"

definition part_content :: "(nat \<Rightarrow> u8 list) \<Rightarrow> mbr_state \<Rightarrow> u32 \<Rightarrow> u32 \<Rightarrow> u8 list" where
  "part_content D ms pnum n =
     (case mbr_get_partition_info pnum ms of
        Some (Some (start, num)) \<Rightarrow> D (unat (start + n))
      | _ \<Rightarrow> [])"

definition disk_ready ::
    "'d ports \<Rightarrow> ('d \<Rightarrow> ata_view) \<Rightarrow> nat \<Rightarrow> nat \<Rightarrow> nat \<Rightarrow> (nat \<Rightarrow> u8 list) \<Rightarrow> ata_id \<Rightarrow> mbr_state \<Rightarrow>
     u32 \<Rightarrow> 'd disk \<Rightarrow> bool" where
  "disk_ready io view H S N D idd ms pnum s \<longleftrightarrow>
     ata_contract io view H S N D \<and> geometry_ok idd H S N \<and> disk_id s = idd \<and> disk_mbr s = ms \<and>
     drive_ready (view (disk_dev s)) \<and> unat pnum < length (partition_entry ms)"

lemma rel2abs_sector_eq:
  assumes "unat pnum < length (partition_entry ms)"
  shows "rel2abs_sector pnum n ms = Some (case mbr_get_partition_info pnum ms of
      Some (Some (start, num)) \<Rightarrow> if n < num then Some (start + n) else None | _ \<Rightarrow> None)"
  using assms by (cases "mpe_valid (partition_entry ms ! unat pnum)")
    (simp_all add: rel2abs_sector_def within_partition_def mbr_get_partition_info_def not_le
      Let_def bool.case_eq_if)

lemma hdd_read_avail:
  assumes "disk_ready io view H S N D idd ms pnum s" and "part_avail idd ms pnum n"
    and "length buf = SECTOR_LEN"
  shows "\<exists>s'. hdd_read_sector io pnum n buf s = Some (0, part_content D ms pnum n, s') \<and>
    disk_ready io view H S N D idd ms pnum s'"
proof -
  from assms(2) obtain start num where
    e: "mbr_get_partition_info pnum ms = Some (Some (start, num))" "n < num" "start + n < id_num_sectors idd"
    by (auto simp: part_avail_def split: option.splits)
  have r: "ata_contract io view H S N D" "geometry_ok idd H S N" "drive_ready (view (disk_dev s))"
      "disk_id s = idd" "disk_mbr s = ms" "unat pnum < length (partition_entry ms)"
    using assms(1) by (simp_all add: disk_ready_def)
  have "length buf = ATA_SECTOR_SIZE"
    using assms(3) by (simp add: SECTOR_LEN_def ATA_SECTOR_SIZE_def)
  from ata_read_sector_lba_in [OF r(1,3,2) this e(3)] obtain d' where
    "ata_read_sector_lba io idd (start + n) buf (disk_dev s) = Some (0, D (unat (start + n)), d')"
    "drive_ready (view d')" by blast
  then show ?thesis
    using r e by (simp add: hdd_read_sector_def rel2abs_sector_eq part_content_def disk_ready_def)
qed

lemma hdd_read_refused:
  assumes "disk_ready io view H S N D idd ms pnum s" and "\<not> part_avail idd ms pnum n"
  shows "hdd_read_sector io pnum n buf s = Some (1, buf, s)"
proof -
  have r: "disk_id s = idd" "disk_mbr s = ms" "unat pnum < length (partition_entry ms)"
    using assms(1) by (simp_all add: disk_ready_def)
  show ?thesis
    using assms(2) r
    by (auto simp: hdd_read_sector_def rel2abs_sector_eq part_avail_def ata_read_sector_lba_out
        split: option.splits)
qed

lemma part_content_length:
  assumes "disk_ready io view H S N D idd ms pnum s" and "part_avail idd ms pnum n"
  shows "length (part_content D ms pnum n) = SECTOR_LEN"
proof -
  from assms(2) obtain start num where
    e: "mbr_get_partition_info pnum ms = Some (Some (start, num))" "start + n < id_num_sectors idd"
    by (auto simp: part_avail_def split: option.splits)
  moreover have "ata_contract io view H S N D" "unat (id_num_sectors idd) \<le> N"
    using assms(1) by (simp_all add: disk_ready_def geometry_ok_def)
  ultimately show ?thesis
    using contract_sector_length [of io view H S N D "unat (start + n)"]
    by (simp add: part_content_def word_less_nat_alt SECTOR_LEN_def ATA_SECTOR_SIZE_def)
qed

interpretation hd: sector_reader "hdd_read_sector io pnum" "part_content D ms pnum"
    "part_avail idd ms pnum" "disk_ready io view H S N D idd ms pnum"
  for io :: "'d ports" and pnum D ms idd view H S N
  by unfold_locales
    (auto intro: hdd_read_avail hdd_read_refused part_content_length)

section \<open>Reads on any drive\<close>

text \<open>The reads of a partition with no bound on the number of cylinders of the drive.\<close>

lemma hdd_read_sector_eq:
  assumes "mbr_get_partition_info pnum (disk_mbr s) = Some (Some (start, num))"
  shows "hdd_read_sector io pnum n buf s =
    (if n < num then map_option (\<lambda>(rc, b, d'). (rc, b, s\<lparr>disk_dev := d'\<rparr>))
       (ata_read_sector_lba io (disk_id s) (start + n) buf (disk_dev s))
     else Some (1, buf, s))"
proof -
  have "unat pnum < length (partition_entry (disk_mbr s))"
    using assms by (auto simp: mbr_get_partition_info_def split: if_splits)
  then show ?thesis
    using assms by (auto simp: hdd_read_sector_def rel2abs_sector_eq split: option.splits)
qed

lemma hdd_read_unused:
  "mbr_get_partition_info pnum (disk_mbr s) = Some None \<Longrightarrow> hdd_read_sector io pnum n buf s = Some (1, buf, s)"
  by (simp add: hdd_read_sector_def rel2abs_sector_def within_partition_def)

lemma hdd_read_cylinders:
  assumes "ata_contract io view H S N D" and "drive_ready (view (disk_dev s))"
    and "drive_geometry (disk_id s) H S N" and "length buf = SECTOR_LEN"
    and "mbr_get_partition_info pnum (disk_mbr s) = Some (Some (start, num))"
    and "n < num" and "start + n < id_num_sectors (disk_id s)" and "unat (start + n) < 1024 * (H * S)"
  shows "\<exists>d'. hdd_read_sector io pnum n buf s = Some (0, D (unat (start + n)), s\<lparr>disk_dev := d'\<rparr>) \<and>
    drive_ready (view d')"
proof -
  have "length buf = ATA_SECTOR_SIZE"
    using assms(4) by (simp add: SECTOR_LEN_def ATA_SECTOR_SIZE_def)
  from ata_read_sector_lba_cylinders [OF assms(1-3) this assms(7,8)] show ?thesis
    using assms(6) by (auto simp: hdd_read_sector_eq [OF assms(5)])
qed

lemma hdd_read_outside:
  assumes "drive_geometry (disk_id s) H S N"
    and "mbr_get_partition_info pnum (disk_mbr s) = Some (Some (start, num))"
    and "\<not> (n < num \<and> start + n < id_num_sectors (disk_id s) \<and> unat (start + n) < 1024 * (H * S))"
  shows "hdd_read_sector io pnum n buf s = Some (1, buf, s)"
proof (cases "n < num")
  case True
  then have "\<not> start + n < id_num_sectors (disk_id s) \<or>
      start + n < id_num_sectors (disk_id s) \<and> 1024 * (H * S) \<le> unat (start + n)"
    using assms(3) by auto
  then have "ata_read_sector_lba io (disk_id s) (start + n) buf (disk_dev s) = Some (1, buf, disk_dev s)"
    using ata_read_sector_lba_out ata_read_sector_lba_high assms(1) unfolding drive_geometry_def by metis
  then show ?thesis by (simp add: hdd_read_sector_eq [OF assms(2)])
qed (simp add: hdd_read_sector_eq [OF assms(2)])

section \<open>Properties\<close>

text \<open>C7. A partition is a window of the disk. On a drive with at most 16 heads and 255 sectors per
  track, a read of sector \<open>n\<close> of a partition in use returns exactly sector \<open>start + n\<close> of the disk,
  the sum taken modulo 2 to the 32, if \<open>n\<close> is below the size of the partition and the sum is below
  the capacity and in the first 1024 cylinders; otherwise the read is refused with the drive and the
  buffer untouched. The sector read lies between the first and the last sector of the partition
  provided the end of the partition does not exceed 2 to the 32, which the code does not check.
  Every read through an unused entry is refused.\<close>

theorem hdd_read_sector_confined:
  assumes "ata_contract io view H S N D" and "drive_ready (view (disk_dev s))"
    and "drive_geometry (disk_id s) H S N" and "length buf = SECTOR_LEN"
  shows "(mbr_get_partition_info pnum (disk_mbr s) = Some (Some (start, num)) \<longrightarrow>
      (if n < num \<and> start + n < id_num_sectors (disk_id s) \<and> unat (start + n) < 1024 * (H * S)
       then (\<exists>d'. hdd_read_sector io pnum n buf s = Some (0, D (unat (start + n)), s\<lparr>disk_dev := d'\<rparr>) \<and>
               drive_ready (view d')) \<and>
            (unat start + unat num \<le> 4294967296 \<longrightarrow>
               unat start \<le> unat (start + n) \<and> unat (start + n) < unat start + unat num)
       else hdd_read_sector io pnum n buf s = Some (1, buf, s))) \<and>
    (mbr_get_partition_info pnum (disk_mbr s) = Some None \<longrightarrow>
      hdd_read_sector io pnum n buf s = Some (1, buf, s))"
proof (intro conjI impI)
  assume info: "mbr_get_partition_info pnum (disk_mbr s) = Some (Some (start, num))"
  let ?in = "n < num \<and> start + n < id_num_sectors (disk_id s) \<and> unat (start + n) < 1024 * (H * S)"
  have window: "unat start \<le> unat (start + n) \<and> unat (start + n) < unat start + unat num"
    if "n < num" "unat start + unat num \<le> 4294967296"
  proof -
    have "unat (start + n) = unat start + unat n"
      using that by (intro unat_add_no_overflow) (simp add: word_less_nat_alt)
    with that(1) show ?thesis by (simp add: word_less_nat_alt)
  qed
  show "if ?in then (\<exists>d'. hdd_read_sector io pnum n buf s = Some (0, D (unat (start + n)), s\<lparr>disk_dev := d'\<rparr>) \<and>
          drive_ready (view d')) \<and> (unat start + unat num \<le> 4294967296 \<longrightarrow>
          unat start \<le> unat (start + n) \<and> unat (start + n) < unat start + unat num)
        else hdd_read_sector io pnum n buf s = Some (1, buf, s)"
  proof (cases ?in)
    case True
    with hdd_read_cylinders [OF assms info, of n] window show ?thesis by simp
  next
    case False
    with hdd_read_outside [OF assms(3) info, of n] show ?thesis by simp
  qed
qed (rule hdd_read_unused)

definition sample_mbr :: mbr_state where
  "sample_mbr = \<lparr>partition_entry = \<lparr>mpe_valid = True, mpe_bootable = True,
      mpe_starting_sec_lba = 63, mpe_num_secs = 2000\<rparr> #
      replicate 3 \<lparr>mpe_valid = False, mpe_bootable = False, mpe_starting_sec_lba = 0, mpe_num_secs = 0\<rparr>,
     bootable_partition_found = True\<rparr>"

definition sample_disk :: "ata_view disk" where
  "sample_disk = \<lparr>disk_dev = model_view, disk_id = model_id, disk_mbr = sample_mbr\<rparr>"

lemma disk_ready_sample:
  assumes "\<And>n. length (D n) = ATA_SECTOR_SIZE"
  shows "disk_ready (model_drive 16 63 4000 D) (\<lambda>v. v) 16 63 4000 D model_id sample_mbr 0 sample_disk"
  using model_drive_contract [of D 16 63 4000] assms
  by (simp add: disk_ready_def model_id_geometry model_view_ready sample_disk_def)
    (simp add: sample_mbr_def)

theorem hdd_read_sector_confined_witness:
  "(\<exists>s'. hdd_read_sector (model_drive 16 63 4000 model_disk) 0 100 (replicate SECTOR_LEN 0) sample_disk
     = Some (0, model_disk 163, s')) \<and>
   hdd_read_sector (model_drive 16 63 4000 model_disk) 0 2000 (replicate SECTOR_LEN 0) sample_disk
     = Some (1, replicate SECTOR_LEN 0, sample_disk) \<and>
   hdd_read_sector (model_drive 16 63 4000 model_disk) 1 0 (replicate SECTOR_LEN 0) sample_disk
     = Some (1, replicate SECTOR_LEN 0, sample_disk)"
proof -
  have e: "mbr_get_partition_info 0 (disk_mbr sample_disk) = Some (Some (63, 2000))"
      "mbr_get_partition_info 1 (disk_mbr sample_disk) = Some None"
    by (simp_all add: mbr_get_partition_info_def sample_disk_def sample_mbr_def)
  have con: "ata_contract (model_drive 16 63 4000 model_disk) (\<lambda>v. v) 16 63 4000 model_disk"
    by (rule model_drive_contract) (rule model_disk_length)
  have d: "drive_ready (disk_dev sample_disk)" "drive_geometry (disk_id sample_disk) 16 63 4000"
      "id_num_sectors (disk_id sample_disk) = 4000"
    by (simp_all add: sample_disk_def model_view_ready model_id_drive) (simp add: model_id_def)
  note read = hdd_read_sector_confined [OF con d(1,2) length_replicate [of SECTOR_LEN 0]]
  show ?thesis
    using read [of 0 63 2000 100] read [of 0 63 2000 2000] read [of 1 0 0 0] e d(3) by auto
qed

text \<open>Without that proviso the window is left: of a partition of two sectors that starts at the last
  sector number, sector 1 is the sector 0 of the disk, the master boot record.\<close>

lemma hdd_read_wraps_around:
  assumes "ata_contract io view H S N D" and "drive_ready (view (disk_dev s))"
    and "drive_geometry (disk_id s) H S N" and "length buf = SECTOR_LEN"
    and "0 < id_num_sectors (disk_id s)"
    and "mbr_get_partition_info pnum (disk_mbr s) = Some (Some (0xffffffff, 2))"
  shows "\<exists>d'. hdd_read_sector io pnum 1 buf s = Some (0, D 0, s\<lparr>disk_dev := d'\<rparr>)"
proof -
  have wrap: "0xffffffff + 1 = (0 :: u32)" by simp
  have "unat (0 :: u32) < 1024 * (H * S)"
    using assms(3) by (simp add: drive_geometry_def)
  with hdd_read_cylinders [OF assms(1-4,6), of 1, unfolded wrap] assms(5) show ?thesis by auto
qed

end
