(* ===== verification/Fat16_Spec.thy ===== *)
theory Fat16_Spec
  imports Fat16 Hdd
begin

text \<open>
  What the file system driver computes: the root directory as a list of 32-byte entries, a file as
  the bytes along its cluster chain, and the proofs, in the interface \<open>sector_reader\<close>, that the
  driver's sector arithmetic and its loops deliver exactly that.
\<close>

section \<open>The volume as data\<close>

text \<open>\<open>cont\<close> is the content of the partition by sector number.\<close>

definition root_entry :: "(u32 \<Rightarrow> u8 list) \<Rightarrow> 's fat \<Rightarrow> nat \<Rightarrow> u8 list" where
  "root_entry cont s k =
     take 32 (drop (32 * (k mod 16)) (cont (starting_clu_sec_num s + of_nat (k div 16))))"

definition spc :: "'s fat \<Rightarrow> nat" where
  "spc s = unat (vid_sectors_per_cluster (fat_vid s))"

definition root_clus :: "'s fat \<Rightarrow> nat" where
  "root_clus s = unat (vid_max_root_entries (fat_vid s)) * 32 div (spc s * 512)"

text \<open>The entries the driver looks at: those in complete clusters.\<close>

definition root_entries :: "(u32 \<Rightarrow> u8 list) \<Rightarrow> 's fat \<Rightarrow> u8 list list" where
  "root_entries cont s = map (root_entry cont s) [0..<root_clus s * spc s * 16]"

fun dir_search :: "char list \<Rightarrow> u8 list list \<Rightarrow> u8 list option option" where
  "dir_search fname [] = Some None"
| "dir_search fname (e # es) =
     (if dir_entry_is_end 0 e then Some None
      else if dir_entry_is_unused 0 e \<or> dir_entry_has_long_name 0 e then dir_search fname es
      else (case dir_entry_is_filename 0 e fname of
              None \<Rightarrow> None
            | Some True \<Rightarrow> Some (Some e)
            | Some False \<Rightarrow> dir_search fname es))"

text \<open>The FAT entry of a data cluster, the chain from a first cluster, the sectors of a cluster in
  the data area behind the root directory, and the bytes of a file.\<close>

definition fat_sector :: "'s fat \<Rightarrow> u16 \<Rightarrow> u32" where
  "fat_sector s c = ucast c div FAT_ENTRIES_PER_SECTOR + starting_fat_sec_num s"

definition fat_entry :: "(u32 \<Rightarrow> u8 list) \<Rightarrow> 's fat \<Rightarrow> u16 \<Rightarrow> u16" where
  "fat_entry cont s c = le16 (cont (fat_sector s c)) (2 * (unat c mod 256))"

fun chain :: "(u32 \<Rightarrow> u8 list) \<Rightarrow> 's fat \<Rightarrow> u16 \<Rightarrow> nat \<Rightarrow> u16" where
  "chain cont s c 0 = c"
| "chain cont s c (Suc k) = fat_entry cont s (chain cont s c k)"

definition cluster_sector :: "'s fat \<Rightarrow> u16 \<Rightarrow> nat \<Rightarrow> u32" where
  "cluster_sector s c j =
     starting_clu_sec_num s + of_nat (root_clus s * spc s) + of_nat ((unat c - 2) * spc s) + of_nat j"

definition file_sector :: "(u32 \<Rightarrow> u8 list) \<Rightarrow> 's fat \<Rightarrow> u16 \<Rightarrow> nat \<Rightarrow> u32" where
  "file_sector cont s c i =
     cluster_sector s (chain cont s c (i div (512 * spc s))) (i div 512 mod spc s)"

definition file_byte :: "(u32 \<Rightarrow> u8 list) \<Rightarrow> 's fat \<Rightarrow> u16 \<Rightarrow> nat \<Rightarrow> u8" where
  "file_byte cont s c i = cont (file_sector cont s c i) ! (i mod 512)"

text \<open>The first \<open>len\<close> bytes of the chain from \<open>c\<close> can be read: every cluster number is one of a
  data cluster, and the sectors of the data and of the FAT are there.\<close>

definition file_readable ::
    "(u32 \<Rightarrow> u8 list) \<Rightarrow> (u32 \<Rightarrow> bool) \<Rightarrow> 's fat \<Rightarrow> u16 \<Rightarrow> nat \<Rightarrow> bool" where
  "file_readable cont avl s c len \<longleftrightarrow>
     (\<forall>i < len. 2 \<le> unat (chain cont s c (i div (512 * spc s))) \<and>
        unat (chain cont s c (i div (512 * spc s))) + 8 < 65536 \<and> avl (file_sector cont s c i) \<and>
        (512 * spc s \<le> i \<longrightarrow> avl (fat_sector s (chain cont s c (i div (512 * spc s) - 1)))))"

text \<open>The static data of the volume, which reading does not change.\<close>

definition same_volume :: "'s fat \<Rightarrow> 's fat \<Rightarrow> bool" where
  "same_volume s s' \<longleftrightarrow> fat_partition_num s' = fat_partition_num s \<and> fat_vid s' = fat_vid s \<and>
     starting_clu_sec_num s' = starting_clu_sec_num s \<and> starting_fat_sec_num s' = starting_fat_sec_num s"

lemma same_volume_refl [simp]: "same_volume s s"
  by (simp add: same_volume_def)

lemma same_volume_trans: "same_volume a b \<Longrightarrow> same_volume b c \<Longrightarrow> same_volume a c"
  by (simp add: same_volume_def)

lemma same_volume_defs:
  assumes "same_volume s s'"
  shows "spc s' = spc s" and "root_clus s' = root_clus s" and "fat_entry cont s' = fat_entry cont s"
    and "chain cont s' = chain cont s" and "cluster_sector s' = cluster_sector s"
    and "file_sector cont s' = file_sector cont s" and "root_entry cont s' = root_entry cont s"
    and "fat_sector s' = fat_sector s" and "file_byte cont s' = file_byte cont s"
proof -
  show spc: "spc s' = spc s" and rc: "root_clus s' = root_clus s"
    using assms by (simp_all add: same_volume_def spc_def root_clus_def)
  show fs: "fat_sector s' = fat_sector s"
    using assms by (simp add: fun_eq_iff fat_sector_def same_volume_def)
  show fe: "fat_entry cont s' = fat_entry cont s"
    by (simp add: fun_eq_iff fat_entry_def fs)
  have "chain cont s' c k = chain cont s c k" for c k
    by (induction k) (simp_all add: fe)
  then show ch: "chain cont s' = chain cont s" by (simp add: fun_eq_iff)
  show cs: "cluster_sector s' = cluster_sector s"
    using assms by (simp add: fun_eq_iff cluster_sector_def spc rc same_volume_def)
  show fsec: "file_sector cont s' = file_sector cont s"
    by (simp add: fun_eq_iff file_sector_def spc ch cs)
  show "root_entry cont s' = root_entry cont s"
    using assms by (simp add: fun_eq_iff root_entry_def same_volume_def)
  show "file_byte cont s' = file_byte cont s"
    by (simp add: fun_eq_iff file_byte_def fsec)
qed

section \<open>Sector arithmetic\<close>

lemma spc_less: "spc s < 256"
  unfolding spc_def by (rule unat_u8_bound)

lemma unat_CLUSTER_SIZE: "unat (CLUSTER_SIZE (fat_vid s)) = 512 * spc s"
  unfolding CLUSTER_SIZE_def SIZEOF_SECTOR_def
  using spc_less [of s] by (subst unat_mult_no_overflow) (simp_all add: spc_def)

lemma root_clus_less: "root_clus s \<le> 4096"
proof -
  have "unat (vid_max_root_entries (fat_vid s)) * 32 div (spc s * 512) \<le> 65535 * 32 div 512"
    if "0 < spc s"
  proof -
    have "unat (vid_max_root_entries (fat_vid s)) * 32 \<le> 65535 * 32"
      using unat_u16_bound [of "vid_max_root_entries (fat_vid s)"] by simp
    then have "unat (vid_max_root_entries (fat_vid s)) * 32 div (spc s * 512) \<le> 65535 * 32 div (spc s * 512)"
      by (rule div_le_mono)
    also have "\<dots> \<le> 65535 * 32 div 512"
      using that by (intro div_le_mono2) simp_all
    finally show ?thesis .
  qed
  then show ?thesis by (cases "spc s = 0") (simp_all add: root_clus_def)
qed

lemma ROOT_CLUSTERS_eq:
  assumes "0 < spc s"
  shows "ROOT_CLUSTERS (fat_vid s) = Some (of_nat (root_clus s))"
proof -
  let ?m = "ucast (vid_max_root_entries (fat_vid s)) * SIZEOF_DIR_ENTRY"
  have m: "unat ?m = unat (vid_max_root_entries (fat_vid s)) * 32"
    unfolding SIZEOF_DIR_ENTRY_def using unat_u16_bound [of "vid_max_root_entries (fat_vid s)"]
    by (subst unat_mult_no_overflow) simp_all
  have "CLUSTER_SIZE (fat_vid s) \<noteq> 0"
    using unat_CLUSTER_SIZE [of s] assms by auto
  moreover have "?m div CLUSTER_SIZE (fat_vid s) = of_nat (root_clus s)"
    using root_clus_less [of s]
    by (simp add: word_unat_eq_iff unat_div m unat_CLUSTER_SIZE unat_of_nat take_bit_eq_mod)
      (simp add: root_clus_def mult.commute)
  ultimately show ?thesis by (simp add: ROOT_CLUSTERS_def)
qed

text \<open>With eight clusters in the root directory the number that \<open>fat16_load\<close> keeps is the data cluster
  plus 8, and the sector it reads is the one of the data cluster.\<close>

lemma ucast_of_nat_unat: "(ucast (x :: u16) :: u32) = of_nat (unat x)"
  by (simp add: word_unat_eq_iff unat_of_nat take_bit_eq_mod)

lemma ucast_ucast_u16: "ucast (ucast (x :: u16) :: u32) = x"
  by (rule bit_word_eqI) (auto simp: bit_simps)

lemma unat_add8:
  "unat (c :: u16) + 8 < 65536 \<Longrightarrow> unat (c + 8) = unat c + 8"
  by (simp add: unat_word_ariths)

lemma clu2rsec_shifted:
  assumes "2 \<le> unat c" and "unat c + 8 < 65536" and "root_clus s = 8"
  shows "of_nat j + clu2rsec (6 + c) s = cluster_sector s c j"
proof -
  have "unat (6 + c) = 6 + unat c"
    using assms(2) by (simp add: unat_word_ariths)
  also obtain n where n: "unat c - 2 = n" by simp
  then have "6 + unat c = 8 + n"
    using assms(1) by simp
  finally have "ucast (6 + c) = (of_nat (8 + n) :: u32)"
    unfolding ucast_of_nat_unat by simp
  moreover have "ucast (vid_sectors_per_cluster (fat_vid s)) = (of_nat (spc s) :: u32)"
    using spc_less [of s]
    by (simp add: spc_def word_unat_eq_iff unat_of_nat take_bit_eq_mod)
  ultimately show ?thesis
    unfolding clu2rsec_def cluster_sector_def assms(3) n by (simp add: algebra_simps)
qed

text \<open>The position of a directory entry: its cluster, its sector in the cluster, and the sector the
  driver reads for it.\<close>

lemma root_entry_numbers:
  assumes spc: "0 < spc s" and k: "k < root_clus s * spc s * 16"
  shows "\<not> of_nat k * SIZEOF_DIR_ENTRY div CLUSTER_SIZE (fat_vid s) \<ge> of_nat (root_clus s)"
    and "\<not> STARTING_ROOT_CLU_NUM + ucast (of_nat k * SIZEOF_DIR_ENTRY div CLUSTER_SIZE (fat_vid s)) < 2"
    and "\<not> of_nat k * SIZEOF_DIR_ENTRY div SIZEOF_SECTOR mod ucast (vid_sectors_per_cluster (fat_vid s))
      \<ge> (ucast (vid_sectors_per_cluster (fat_vid s)) :: u32)"
    and "of_nat k * SIZEOF_DIR_ENTRY div SIZEOF_SECTOR mod ucast (vid_sectors_per_cluster (fat_vid s)) +
      clu2rsec (STARTING_ROOT_CLU_NUM + ucast (of_nat k * SIZEOF_DIR_ENTRY div CLUSTER_SIZE (fat_vid s)) - 2) s
      = starting_clu_sec_num s + of_nat (k div 16)"
    and "unat (of_nat k mod DIR_ENTRIES_PER_SECTOR :: u32) = k mod 16"
proof -
  have "root_clus s * (spc s * 512) \<le> unat (vid_max_root_entries (fat_vid s)) * 32"
    unfolding root_clus_def by (rule div_times_less_eq_dividend)
  then have k16: "k < 65536"
    using k unat_u16_bound [of "vid_max_root_entries (fat_vid s)"] by simp
  let ?st = "of_nat k * SIZEOF_DIR_ENTRY div CLUSTER_SIZE (fat_vid s)"
  let ?rs = "of_nat k * SIZEOF_DIR_ENTRY div SIZEOF_SECTOR mod ucast (vid_sectors_per_cluster (fat_vid s)) :: u32"
  have k32: "unat (of_nat k :: u32) = k"
    using k16 by (simp add: unat_of_nat take_bit_eq_mod)
  then have b: "unat (of_nat k * SIZEOF_DIR_ENTRY) = k * 32"
    unfolding SIZEOF_DIR_ENTRY_def using k16 by (subst unat_mult_no_overflow) simp_all
  have "unat ?st = k * 32 div (512 * spc s)"
    by (simp add: unat_div b unat_CLUSTER_SIZE)
  also have "\<dots> = k div 16 div spc s"
    by (simp flip: div_mult2_eq)
  finally have st: "unat ?st = k div 16 div spc s" .
  have "k div 16 div spc s < root_clus s"
    using k spc by (simp add: div_less_iff_less_mult)
  then have st_less: "unat ?st < root_clus s" "unat ?st < 4096"
    using st root_clus_less [of s] by simp_all
  then show "\<not> ?st \<ge> of_nat (root_clus s)"
    using root_clus_less [of s] by (simp add: word_le_nat_alt unat_of_nat take_bit_eq_mod)
  have clu: "unat (ucast ?st :: u16) = unat ?st"
    using st_less by (simp add: unsigned_ucast_eq take_bit_eq_mod)
  then show "\<not> STARTING_ROOT_CLU_NUM + ucast ?st < 2"
    using st_less by (simp add: word_less_nat_alt STARTING_ROOT_CLU_NUM_def unat_word_ariths)
  have v: "(ucast (vid_sectors_per_cluster (fat_vid s)) :: u32) = of_nat (spc s)"
    using spc_less [of s] by (simp add: spc_def word_unat_eq_iff unat_of_nat take_bit_eq_mod)
  have rs: "unat ?rs = k div 16 mod spc s"
    by (simp add: unat_mod unat_div b SIZEOF_SECTOR_def spc_def)
  have "k div 16 mod spc s < spc s" using spc by simp
  then show "\<not> ?rs \<ge> (ucast (vid_sectors_per_cluster (fat_vid s)) :: u32)"
    unfolding word_le_nat_alt rs by (simp add: spc_def)
  have "STARTING_ROOT_CLU_NUM + ucast ?st - 2 = (ucast ?st :: u16)"
    by (simp add: STARTING_ROOT_CLU_NUM_def)
  then have "clu2rsec (STARTING_ROOT_CLU_NUM + ucast ?st - 2) s =
      of_nat (k div 16 div spc s) * of_nat (spc s) + starting_clu_sec_num s"
    by (simp only: clu2rsec_def ucast_of_nat_unat clu st v)
  moreover have "?rs = of_nat (k div 16 mod spc s)"
    by (simp only: rs [symmetric] of_nat_unat ucast_id)
  moreover have "of_nat (k div 16 mod spc s) + of_nat (k div 16 div spc s) * of_nat (spc s) =
      (of_nat (k div 16) :: u32)"
    by (simp only: of_nat_mult [symmetric] of_nat_add [symmetric] mod_div_mult_eq)
  ultimately show "?rs + clu2rsec (STARTING_ROOT_CLU_NUM + ucast ?st - 2) s =
      starting_clu_sec_num s + of_nat (k div 16)"
    by (simp only: add.assoc [symmetric]) (simp only: add.commute)
  show "unat (of_nat k mod DIR_ENTRIES_PER_SECTOR :: u32) = k mod 16"
    by (simp add: unat_mod k32 DIR_ENTRIES_PER_SECTOR_def)
qed

lemma root_entry_past:
  assumes spc: "0 < spc s" and k: "root_clus s * spc s * 16 \<le> k" "k < 65536"
  shows "of_nat k * SIZEOF_DIR_ENTRY div CLUSTER_SIZE (fat_vid s) \<ge> of_nat (root_clus s)"
proof -
  let ?st = "of_nat k * SIZEOF_DIR_ENTRY div CLUSTER_SIZE (fat_vid s)"
  have k32: "unat (of_nat k :: u32) = k"
    using k(2) by (simp add: unat_of_nat take_bit_eq_mod)
  then have b: "unat (of_nat k * SIZEOF_DIR_ENTRY) = k * 32"
    unfolding SIZEOF_DIR_ENTRY_def using k(2) by (subst unat_mult_no_overflow) simp_all
  have "unat ?st = k * 32 div (512 * spc s)"
    by (simp add: unat_div b unat_CLUSTER_SIZE)
  also have "\<dots> = k div 16 div spc s"
    by (simp flip: div_mult2_eq)
  finally have st: "unat ?st = k div 16 div spc s" .
  have "root_clus s * spc s \<le> k div 16"
    using k(1) by (simp add: less_eq_div_iff_mult_less_eq)
  then have "root_clus s \<le> k div 16 div spc s"
    using spc by (simp add: less_eq_div_iff_mult_less_eq)
  then show ?thesis
    using root_clus_less [of s] unfolding word_le_nat_alt st
    by (simp add: unat_of_nat take_bit_eq_mod)
qed

lemma root_entries_bound: "root_clus s * spc s * 16 \<le> unat (vid_max_root_entries (fat_vid s))"
proof -
  have "root_clus s * (spc s * 512) \<le> unat (vid_max_root_entries (fat_vid s)) * 32"
    unfolding root_clus_def by (rule div_times_less_eq_dividend)
  then show ?thesis by simp
qed

text \<open>A directory entry is looked at only through its 32 bytes.\<close>

lemma dir_entry_local:
  assumes "de + 32 \<le> length b"
  defines "e \<equiv> take 32 (drop de b)"
  shows "dir_entry_is_end de b = dir_entry_is_end 0 e"
    and "dir_entry_is_unused de b = dir_entry_is_unused 0 e"
    and "dir_entry_has_long_name de b = dir_entry_has_long_name 0 e"
    and "dir_entry_is_filename de b fname = dir_entry_is_filename 0 e fname"
    and "de_starting_cluster de b = de_starting_cluster 0 e" and "de_size de b = de_size 0 e"
proof -
  have at: "e ! j = b ! (de + j)" if "j < 32" for j
    using that assms by simp
  show "dir_entry_is_end de b = dir_entry_is_end 0 e"
    "dir_entry_is_unused de b = dir_entry_is_unused 0 e"
    "dir_entry_has_long_name de b = dir_entry_has_long_name 0 e"
    "de_starting_cluster de b = de_starting_cluster 0 e" "de_size de b = de_size 0 e"
    by (simp_all add: dir_entry_is_end_def dir_entry_is_unused_def dir_entry_has_long_name_def
        de_starting_cluster_def de_size_def le16_def le32_def at)
      (simp_all add: add.commute)
  have len: "length e = 32" using assms by simp
  have whole: "drop de b = e @ drop 32 (drop de b)"
    unfolding e_def by (rule append_take_drop_id [symmetric])
  have rest: "drop (de + 8) b = drop 8 e @ drop 32 (drop de b)"
  proof -
    have "drop (de + 8) b = drop 8 (drop de b)"
      by (simp only: drop_drop add.commute)
    also have "\<dots> = drop 8 e @ drop 32 (drop de b)"
      by (subst whole) (simp add: len)
    finally show ?thesis .
  qed
  have cmp: "strncmp n (map byte_char (drop de b)) 8 = strncmp n (map byte_char e) 8"
    "strncmp n (map byte_char (drop (de + 8) b)) 3 = strncmp n (map byte_char (drop 8 e)) 3" for n
    by (subst whole, simp add: strncmp_append len) (subst rest, simp add: strncmp_append len)
  show "dir_entry_is_filename de b fname = dir_entry_is_filename 0 e fname"
    unfolding dir_entry_is_filename_def FILE_BASENAME_LEN_def FILE_EXTENSION_LEN_def cmp add_0 drop_0 ..
qed

lemma next_cluster:
  fixes i :: nat
  assumes "i \<noteq> 0 \<and> i mod (512 * n) = 0"
  obtains k where "i div (512 * n) = Suc k" and "(i - 1) div (512 * n) = k"
  using assms by (cases i) (simp_all add: div_Suc)

lemma same_cluster':
  fixes i :: nat
  assumes "i mod (512 * n) \<noteq> 0 \<or> i = 0"
  shows "(i - 1) div (512 * n) = i div (512 * n)"
  using assms by (cases i) (simp_all add: div_Suc)

lemma same_cluster:
  fixes i :: nat
  assumes "i mod 512 \<noteq> 0"
  shows "(i - 1) div (512 * n) = i div (512 * n)"
proof (rule same_cluster')
  have "\<not> 512 * n dvd i"
    using assms by (metis dvd_mult_left mod_eq_0_iff_dvd)
  then show "i mod (512 * n) \<noteq> 0 \<or> i = 0" by (simp add: mod_eq_0_iff_dvd)
qed

lemma file_sector_Suc:
  "Suc i mod 512 \<noteq> 0 \<Longrightarrow> file_sector cont s c (Suc i) = file_sector cont s c i"
  using same_cluster [of "Suc i" "spc s"] by (simp add: file_sector_def div_Suc)

section \<open>Reading through the interface\<close>

context sector_reader
begin

text \<open>\<open>rd\<close> reads the partition of the volume through the interface.\<close>

definition fat_ok :: "'s reader \<Rightarrow> 's fat \<Rightarrow> bool" where
  "fat_ok rd s \<longleftrightarrow> rd (fat_partition_num s) = read_sec \<and> invar (fat_disk s) \<and>
     length (buf_sec s) = SECTOR_LEN"

lemma fat_read_avail:
  assumes "fat_ok rd s" and "avail n"
  obtains s' where "fat_read_sector rd n s = Some (True, s')" and "fat_ok rd s'"
    and "same_volume s s'" and "buf_sec s' = content n"
proof -
  have ok: "rd (fat_partition_num s) = read_sec" "invar (fat_disk s)" "length (buf_sec s) = SECTOR_LEN"
    using assms(1) by (simp_all add: fat_ok_def)
  from read_avail [OF ok(2) assms(2) ok(3)] obtain d' where
    d': "read_sec n (buf_sec s) (fat_disk s) = Some (0, content n, d')" "invar d'" by blast
  show thesis
  proof (rule that [of "s\<lparr>buf_sec := content n, fat_disk := d'\<rparr>"])
    show "fat_read_sector rd n s = Some (True, s\<lparr>buf_sec := content n, fat_disk := d'\<rparr>)"
      using ok(1) d'(1) by (simp add: fat_read_sector_def)
    show "fat_ok rd (s\<lparr>buf_sec := content n, fat_disk := d'\<rparr>)"
      using ok(1) d'(2) content_length [OF ok(2) assms(2)] by (simp add: fat_ok_def)
  qed (simp_all add: same_volume_def)
qed

lemma fat_read_cluster:
  assumes ok: "fat_ok rd s" and c: "2 \<le> unat c" "unat c + 8 < 65536" and rc: "root_clus s = 8"
    and j: "j < spc s" and av: "avail (cluster_sector s c j)"
  obtains s' where "read_cluster_sec rd (c + 8) (of_nat j) s = Some (True, s')" and "fat_ok rd s'"
    and "same_volume s s'" and "buf_sec s' = content (cluster_sector s c j)"
proof -
  have "\<not> c + 8 < 2"
    using unat_add8 [OF c(2)] by (simp add: word_less_nat_alt)
  moreover have "\<not> (of_nat j :: u32) \<ge> ucast (vid_sectors_per_cluster (fat_vid s))"
    using j spc_less [of s] by (simp add: word_le_nat_alt unat_of_nat take_bit_eq_mod spc_def)
  moreover from fat_read_avail [OF ok av] obtain s' where
    "fat_read_sector rd (cluster_sector s c j) s = Some (True, s')" "fat_ok rd s'" "same_volume s s'"
      "buf_sec s' = content (cluster_sector s c j)" .
  ultimately show thesis
    using that by (simp add: read_cluster_sec_def clu2rsec_shifted [OF c rc])
qed

lemma fat_next_cluster:
  assumes ok: "fat_ok rd s" and c: "2 \<le> unat c" "unat c + 8 < 65536"
    and rc: "root_clus s = 8" "0 < spc s" and av: "avail (fat_sector s c)"
  obtains s' where "fat_get_next_clu_num rd (c + 8) s = Some (fat_entry content s c, s')"
    and "fat_ok rd s'" and "same_volume s s'"
proof -
  have u: "unat (ucast (c + 8) :: u32) = unat c + 8"
    using unat_add8 [OF c(2)] by simp
  then have "ucast (c + 8) - (8 :: u32) = ucast c"
    by (simp add: word_unat_eq_iff unat_sub_u32)
  then have clu: "(ucast (ucast (c + 8) - (8 :: u32)) :: u16) = c"
    by (simp add: ucast_ucast_u16)
  have "\<not> (ucast (c + 8) :: u32) < 2 + 8"
    using u c(1) by (simp add: word_less_nat_alt)
  moreover have "unat (ucast c mod FAT_ENTRIES_PER_SECTOR :: u32) = unat c mod 256"
    by (simp add: FAT_ENTRIES_PER_SECTOR_def unat_mod)
  moreover from fat_read_avail [OF ok av] obtain s' where
    "fat_read_sector rd (fat_sector s c) s = Some (True, s')" "fat_ok rd s'" "same_volume s s'"
      "buf_sec s' = content (fat_sector s c)" .
  ultimately show thesis
    using that clu rc
    by (simp add: fat_get_next_clu_num_def ROOT_CLUSTERS_eq STARTING_ROOT_CLU_NUM_def fat_entry_def
        fat_sector_def Let_def)
qed

text \<open>Before byte \<open>i\<close> the loop is on the cluster of byte \<open>i - 1\<close>, and inside a sector the buffer
  holds the sector of byte \<open>i\<close>.\<close>

definition load_inv ::
    "'s reader \<Rightarrow> 's fat \<Rightarrow> u16 \<Rightarrow> nat \<Rightarrow> u16 \<Rightarrow> nat \<Rightarrow> 's fat \<Rightarrow> bool" where
  "load_inv rd s0 c i clu psec s \<longleftrightarrow> fat_ok rd s \<and> same_volume s0 s \<and>
     clu = chain content s0 c ((i - 1) div (512 * spc s0)) + 8 \<and>
     (i mod 512 \<noteq> 0 \<longrightarrow> psec = i mod 512 \<and> buf_sec s = content (file_sector content s0 c i))"

lemma load_sector_number:
  assumes "same_volume s0 s" "i < 4294967296"
  shows "(of_nat (i div 512) mod ucast (vid_sectors_per_cluster (fat_vid s)) :: u32) = of_nat (i div 512 mod spc s0)"
proof -
  have "i div 512 < 4294967296" using assms(2) by simp
  moreover from this have "i div 512 mod spc s0 < 4294967296"
    by (rule le_less_trans [OF mod_less_eq_dividend])
  ultimately show ?thesis
    using same_volume_defs(1) [OF assms(1)] by (simp add: word_unat_eq_iff unat_mod unat_of_nat take_bit_eq_mod spc_def)
qed

text \<open>The sector of byte \<open>i\<close>, read through any state of the same volume.\<close>

lemma load_read_sector:
  assumes "fat_ok rd s" "same_volume s0 s" "file_readable content avail s0 c len" "i < len" "root_clus s0 = 8" "0 < spc s0"
  obtains s' where
    "read_cluster_sec rd (chain content s0 c (i div (512 * spc s0)) + 8) (of_nat (i div 512 mod spc s0)) s = Some (True, s')"
    and "fat_ok rd s'" and "same_volume s0 s'" and "buf_sec s' = content (file_sector content s0 c i)"
proof -
  note vol = same_volume_defs [OF assms(2)]
  let ?n = "chain content s0 c (i div (512 * spc s0))" and ?j = "i div 512 mod spc s0"
  have cl: "2 \<le> unat ?n" "unat ?n + 8 < 65536" "avail (cluster_sector s ?n ?j)"
    using assms(3,4) unfolding file_readable_def vol(5) file_sector_def by blast+
  have j: "root_clus s = 8" "?j < spc s" using assms(5,6) vol(1,2) by simp_all
  from fat_read_cluster [OF assms(1) cl(1,2) j cl(3)] obtain s' where
    "read_cluster_sec rd (?n + 8) (of_nat ?j) s = Some (True, s')" "fat_ok rd s'" "same_volume s s'"
    "buf_sec s' = content (cluster_sector s ?n ?j)" .
  then show thesis using assms(2)
    by (intro that [of s']) (auto simp: file_sector_def vol(5) intro: same_volume_trans)
qed

text \<open>At the end of a cluster the next one is looked up in the table.\<close>

lemma load_next_cluster:
  assumes "fat_ok rd s" "same_volume s0 s" "file_readable content avail s0 c len" "i < len" "root_clus s0 = 8" "0 < spc s0"
    and "i \<noteq> 0" "i mod (512 * spc s0) = 0"
  obtains s1 where
    "fat_get_next_clu_num rd (chain content s0 c ((i - 1) div (512 * spc s0)) + 8) s = Some (chain content s0 c (i div (512 * spc s0)), s1)"
    and "fat_ok rd s1" and "same_volume s0 s1"
proof -
  let ?CS = "512 * spc s0" and ?ch = "chain content s0 c"
  note vol = same_volume_defs [OF assms(2)]
  obtain k where k: "i div ?CS = Suc k" "(i - 1) div ?CS = k"
    using next_cluster [OF conjI [OF assms(7,8)]] by blast
  have "?CS \<le> i" using assms(7,8) by (auto simp: dvd_imp_le mod_eq_0_iff_dvd)
  then have av: "avail (fat_sector s (?ch k))" and "(i - 1) < len"
    using assms(3,4) k(1) unfolding file_readable_def vol(8) by force+
  then have ck: "2 \<le> unat (?ch k)" "unat (?ch k) + 8 < 65536"
    using assms(3) k(2) unfolding file_readable_def by force+
  have "root_clus s = 8" "0 < spc s" using vol(1,2) assms(5,6) by simp_all
  from fat_next_cluster [OF assms(1) ck this av] obtain s1 where
    "fat_get_next_clu_num rd (?ch k + 8) s = Some (?ch (i div ?CS), s1)" "fat_ok rd s1" "same_volume s s1"
    unfolding k by (auto simp: vol(3))
  then show thesis using assms(2) k(2) by (intro that [of s1]) (auto intro: same_volume_trans)
qed

lemma load_advance_ok:
  assumes inv: "load_inv rd s0 c i clu psec s" and rd: "file_readable content avail s0 c len"
    and i: "i < len" and rc: "root_clus s0 = 8" "0 < spc s0" and len: "len \<le> 4294967296"
  obtains s' where
    "load_advance rd i clu psec s = Some (Some (chain content s0 c (i div (512 * spc s0)) + 8, i mod 512), s')"
    and "fat_ok rd s'" and "same_volume s0 s'" and "buf_sec s' = content (file_sector content s0 c i)"
proof -
  let ?CS = "512 * spc s0" and ?ch = "chain content s0 c"
  have s: "fat_ok rd s" "same_volume s0 s" and clu: "clu = ?ch ((i - 1) div ?CS) + 8"
    using inv by (simp_all add: load_inv_def)
  have spc: "vid_sectors_per_cluster (fat_vid s) \<noteq> 0" "unat (CLUSTER_SIZE (fat_vid s)) = ?CS"
    using rc(2) same_volume_defs(1) [OF s(2)] unat_CLUSTER_SIZE [of s] by (auto simp: spc_def)
  have rsec: "(of_nat (i div 512) mod ucast (vid_sectors_per_cluster (fat_vid s)) :: u32) = of_nat (i div 512 mod spc s0)"
    using i len by (intro load_sector_number [OF s(2)]) simp
  consider (same_sector) "i mod 512 \<noteq> 0" | (next_sector) "i mod 512 = 0" "\<not> (i \<noteq> 0 \<and> i mod ?CS = 0)"
    | (cluster_end) "i mod 512 = 0" "i \<noteq> 0" "i mod ?CS = 0"
    by (cases "i mod 512 = 0"; cases "i \<noteq> 0 \<and> i mod ?CS = 0") (blast intro: that)+
  then show thesis
  proof cases
    case same_sector
    then have "(i - 1) div ?CS = i div ?CS" by (rule same_cluster)
    then show thesis
      using same_sector inv clu s by (intro that [of s]) (simp_all add: load_advance_def load_inv_def)
  next
    case next_sector
    then have same: "(i - 1) div ?CS = i div ?CS" using same_cluster' [of i "spc s0"] by argo
    from load_read_sector [OF s rd i rc] obtain s' where
      "read_cluster_sec rd (?ch (i div ?CS) + 8) (of_nat (i div 512 mod spc s0)) s = Some (True, s')"
      "fat_ok rd s'" "same_volume s0 s'" "buf_sec s' = content (file_sector content s0 c i)" .
    then show thesis
      using next_sector spc rsec clu same by (intro that [of s']) (auto simp: load_advance_def)
  next
    case cluster_end
    from load_next_cluster [OF s rd i rc cluster_end(2,3)] obtain s1 where
      s1: "fat_get_next_clu_num rd clu s = Some (?ch (i div ?CS), s1)" "fat_ok rd s1" "same_volume s0 s1" unfolding clu .
    from load_read_sector [OF s1(2,3) rd i rc] obtain s' where
      s': "read_cluster_sec rd (?ch (i div ?CS) + 8) (of_nat (i div 512 mod spc s0)) s1 = Some (True, s')"
        "fat_ok rd s'" "same_volume s0 s'" "buf_sec s' = content (file_sector content s0 c i)" .
    have "2 \<le> unat (?ch (i div ?CS))" "unat (?ch (i div ?CS)) + 8 < 65536"
      using rd i unfolding file_readable_def by blast+
    then have "?ch (i div ?CS) \<noteq> 0" "0xffff \<noteq> ?ch (i div ?CS)" by auto
    then show thesis
      using cluster_end spc rsec s1 s' by (intro that [of s']) (auto simp: load_advance_def)
  qed
qed

lemma load_bytes_ok:
  assumes rd: "file_readable content avail s0 c len" and rc: "root_clus s0 = 8" "0 < spc s0"
    and len: "len \<le> 4294967296"
  shows "i + n = len \<Longrightarrow> load_inv rd s0 c i clu psec s \<Longrightarrow> len \<le> length buf \<Longrightarrow>
    \<exists>s'. load_bytes rd i n clu psec buf s = Some (sint (of_nat len :: u32),
        take i buf @ map (file_byte content s0 c) [i..<len] @ drop len buf, s') \<and>
      fat_ok rd s' \<and> same_volume s0 s'"
proof (induction n arbitrary: i clu psec buf s)
  case 0
  then show ?case by (auto simp: load_inv_def)
next
  case (Suc n)
  then have i: "i < len" "i < length buf" by simp_all
  from load_advance_ok [OF Suc.prems(2) rd i(1) rc len] obtain s1 where
    s1: "load_advance rd i clu psec s = Some (Some (chain content s0 c (i div (512 * spc s0)) + 8, i mod 512), s1)"
      "fat_ok rd s1" "same_volume s0 s1" "buf_sec s1 = content (file_sector content s0 c i)" .
  have psec: "i mod 512 < length (buf_sec s1)"
    using s1(2) by (simp add: fat_ok_def SECTOR_LEN_def)
  have "load_inv rd s0 c (Suc i) (chain content s0 c (i div (512 * spc s0)) + 8) (Suc (i mod 512)) s1"
    using s1 by (simp add: load_inv_def file_sector_Suc mod_Suc)
  moreover have "buf_sec s1 ! (i mod 512) = file_byte content s0 c i"
    by (simp add: s1(4) file_byte_def)
  ultimately show ?case
    using Suc.IH [of "Suc i" _ _ s1 "buf[i := file_byte content s0 c i]"] Suc.prems(1,3) s1(1) psec i
    by (simp add: take_Suc_conv_app_nth upt_conv_Cons)
qed

text \<open>The directory.\<close>

lemma rootdir_get_entry_in:
  assumes ok: "fat_ok rd s" and spc: "0 < spc s" and k: "k < root_clus s * spc s * 16"
    and av: "avail (starting_clu_sec_num s + of_nat (k div 16))"
  obtains s' where "rootdir_get_entry_num rd (of_nat k) s = Some (Some (32 * (k mod 16)), s')"
    and "fat_ok rd s'" and "same_volume s s'"
    and "buf_sec s' = content (starting_clu_sec_num s + of_nat (k div 16))"
proof -
  note num = root_entry_numbers [OF spc k]
  from fat_read_avail [OF ok av] obtain s' where
    s': "fat_read_sector rd (starting_clu_sec_num s + of_nat (k div 16)) s = Some (True, s')"
      "fat_ok rd s'" "same_volume s s'" "buf_sec s' = content (starting_clu_sec_num s + of_nat (k div 16))" .
  show thesis
    using s' num that [of s']
    by (simp add: rootdir_get_entry_num_def ROOT_CLUSTERS_eq [OF spc] read_cluster_sec_def Let_def)
qed

lemma rootdir_get_entry_out:
  assumes "0 < spc s" and "root_clus s * spc s * 16 \<le> k" and "k < 65536"
  shows "rootdir_get_entry_num rd (of_nat k) s = Some (None, s)"
  using root_entry_past [OF assms]
  by (simp add: rootdir_get_entry_num_def ROOT_CLUSTERS_eq [OF assms(1)] Let_def)

text \<open>The three outcomes of a search, for the state \<open>s0\<close> of the volume.\<close>

definition search_outcome ::
    "'s reader \<Rightarrow> 's fat \<Rightarrow> u8 list option option \<Rightarrow> (nat option \<times> 's fat) option \<Rightarrow> bool" where
  "search_outcome rd s0 spec run \<longleftrightarrow>
     (case spec of
        None \<Rightarrow> run = None
      | Some None \<Rightarrow> (\<exists>s'. run = Some (None, s') \<and> fat_ok rd s' \<and> same_volume s0 s')
      | Some (Some e) \<Rightarrow> (\<exists>de s'. run = Some (Some de, s') \<and> fat_ok rd s' \<and> same_volume s0 s' \<and>
          de + 32 \<le> SECTOR_LEN \<and> e = take 32 (drop de (buf_sec s'))))"

lemma rootdir_find_from_refines:
  assumes spc: "0 < spc s0"
    and av: "\<And>k. k < root_clus s0 * spc s0 * 16 \<Longrightarrow> avail (starting_clu_sec_num s0 + of_nat (k div 16))"
  shows "i + n = unat (vid_max_root_entries (fat_vid s0)) \<Longrightarrow> fat_ok rd s \<Longrightarrow> same_volume s0 s \<Longrightarrow>
    search_outcome rd s0 (dir_search fname (map (root_entry content s0) [i..<root_clus s0 * spc s0 * 16]))
      (rootdir_find_from rd fname i n s)"
proof (induction n arbitrary: i s)
  case 0
  then show ?case
    using root_entries_bound [of s0] by (simp add: search_outcome_def)
next
  case (Suc n)
  note vol = same_volume_defs [OF Suc.prems(3)]
  have spc': "0 < spc s" using spc vol by simp
  show ?case
  proof (cases "i < root_clus s0 * spc s0 * 16")
    case False
    have "i < 65536"
      using Suc.prems(1) unat_u16_bound [of "vid_max_root_entries (fat_vid s0)"] by simp
    with False rootdir_get_entry_out [OF spc', of i] vol have
      "rootdir_get_entry_num rd (of_nat i) s = Some (None, s)" by simp
    with False Suc.prems show ?thesis by (simp add: search_outcome_def)
  next
    case True
    have "starting_clu_sec_num s = starting_clu_sec_num s0"
      using Suc.prems(3) by (simp add: same_volume_def)
    with True rootdir_get_entry_in [OF Suc.prems(2) spc', of i] av [OF True] vol obtain s1 where
      s1: "rootdir_get_entry_num rd (of_nat i) s = Some (Some (32 * (i mod 16)), s1)" "fat_ok rd s1"
        "same_volume s s1" "buf_sec s1 = content (starting_clu_sec_num s0 + of_nat (i div 16))"
      by auto
    have de: "32 * (i mod 16) + 32 \<le> length (buf_sec s1)"
      using s1(2) by (simp add: fat_ok_def SECTOR_LEN_def)
    have e: "root_entry content s0 i = take 32 (drop (32 * (i mod 16)) (buf_sec s1))"
      by (simp add: root_entry_def s1(4))
    have vol1: "same_volume s0 s1"
      using Suc.prems(3) s1(3) by (rule same_volume_trans)
    have l: "length (buf_sec s1) = SECTOR_LEN" using s1(2) by (simp add: fat_ok_def)
    have IH: "search_outcome rd s0
        (dir_search fname (map (root_entry content s0) [Suc i..<root_clus s0 * spc s0 * 16]))
        (rootdir_find_from rd fname (Suc i) n s1)"
      using Suc.IH [OF _ s1(2) vol1] Suc.prems(1) by simp
    show ?thesis
      using IH True s1(1,2) vol1 de
      by (simp add: upt_conv_Cons e dir_entry_local [OF de])
        (auto simp: search_outcome_def l split: option.split bool.split)
  qed
qed

lemma fat16_load_file:
  assumes ok: "fat_ok rd s" and rc: "root_clus s = 8" "0 < spc s"
    and av: "\<And>k. k < root_clus s * spc s * 16 \<Longrightarrow> avail (starting_clu_sec_num s + of_nat (k div 16))"
    and found: "dir_search fname (root_entries content s) = Some (Some e)"
    and len: "len = unat (min (de_size 0 e) buf_size)"
    and rd: "file_readable content avail s (de_starting_cluster 0 e) len" and buf: "len \<le> length buf"
  shows "\<exists>s'. fat16_load rd fname buf buf_size s = Some (sint (of_nat len :: u32),
      map (file_byte content s (de_starting_cluster 0 e)) [0..<len] @ drop len buf, s') \<and>
    fat_ok rd s' \<and> same_volume s s'"
proof -
  have "search_outcome rd s (Some (Some e)) (rootdir_find_entry rd fname s)"
    using rootdir_find_from_refines [OF rc(2) av, of 0 _ rd s fname] ok found
    by (simp add: rootdir_find_entry_def root_entries_def)
  then obtain de s1 where s1: "rootdir_find_entry rd fname s = Some (Some de, s1)" "fat_ok rd s1"
      "same_volume s s1" "de + 32 \<le> SECTOR_LEN" "e = take 32 (drop de (buf_sec s1))"
    by (auto simp: search_outcome_def)
  note vol = same_volume_defs [OF s1(3)]
  have de: "de + 32 \<le> length (buf_sec s1)" using s1(2,4) by (simp add: fat_ok_def)
  note fields = dir_entry_local [OF de, folded s1(5)]
  have clu: "ucast (ucast (de_starting_cluster 0 e) + (8 :: u32)) = de_starting_cluster 0 e + 8"
    by (simp add: word_unat_eq_iff unsigned_ucast_eq take_bit_eq_mod unat_word_ariths mod_mod_cancel)
  have "load_inv rd s (de_starting_cluster 0 e) 0 (de_starting_cluster 0 e + 8) 0 s1"
    using s1(2,3) by (simp add: load_inv_def)
  from load_bytes_ok [OF rd rc _ _ this buf, of len] obtain s' where
    "load_bytes rd 0 len (de_starting_cluster 0 e + 8) 0 buf s1 = Some (sint (of_nat len :: u32),
      map (file_byte content s (de_starting_cluster 0 e)) [0..<len] @ drop len buf, s')"
      "fat_ok rd s'" "same_volume s s'"
    using unat_u32_bound [of "min (de_size 0 e) buf_size"] len by auto
  moreover have "(if de_size 0 e < buf_size then de_size 0 e else buf_size) = min (de_size 0 e) buf_size"
    by (auto simp: min_def)
  ultimately show ?thesis
    using s1(1) rc vol len by (simp add: fat16_load_def fields ROOT_CLUSTERS_eq clu Let_def)
qed

end

end
