(* ===== verification/Fat16_Props.thy ===== *)
theory Fat16_Props
  imports Fat16_Spec
begin

text \<open>
  Properties of the file system driver on the hard disk of \<open>Hdd\<close>, through the interpretation of the
  sector interface, and the exact rule by which file names are matched.
\<close>

section \<open>File names\<close>

definition pad_upper :: "nat \<Rightarrow> char list \<Rightarrow> char list" where
  "pad_upper n cs = map char2upcase cs @ replicate (n - length cs) (CHR '' '')"

lemma schar_ascii: "of_char c < (128 :: int) \<Longrightarrow> schar c = of_char c"
  by (simp add: schar_def Let_def)

lemma char_is_valid_cases:
  assumes "char_is_valid c"
  shows "c \<noteq> NUL" and "c \<noteq> CHR ''.''" and "char2upcase c \<noteq> NUL"
proof -
  show "c \<noteq> NUL" "c \<noteq> CHR ''.''"
    using assms by (auto simp: char_is_valid_def char_in_def schar_def)
  show "char2upcase c \<noteq> NUL"
  proof (cases "char_in (CHR ''a'') (CHR ''z'') c")
    case True
    then have c: "97 \<le> (of_char c :: int)" "(of_char c :: int) \<le> 122"
      using of_char_int_bounds [of c]
      by (auto simp: char_in_def schar_def Let_def split: if_splits)
    have "of_char (char2upcase c) = (of_char c :: int) - 32"
      using True c by (simp add: char2upcase_def of_char_of)
    with c show ?thesis by auto
  next
    case False
    with \<open>c \<noteq> NUL\<close> show ?thesis by (simp add: char2upcase_def)
  qed
qed

lemma copy_basename_run:
  "list_all char_is_valid cs \<Longrightarrow> drop i fname = cs @ rest \<Longrightarrow> i + length cs \<le> 8 \<Longrightarrow> length b = 8 \<Longrightarrow>
   copy_basename fname i b =
     copy_basename fname (i + length cs) (take i b @ map char2upcase cs @ drop (i + length cs) b)"
proof (induction cs arbitrary: i b)
  case (Cons c cs)
  then have i: "i < length fname" "fname ! i = c" "drop (Suc i) fname = cs @ rest"
    by (cases "i < length fname"; simp add: Cons_nth_drop_Suc [symmetric])+
  have "copy_basename fname i b = copy_basename fname (Suc i) (b[i := char2upcase c])"
    using i Cons.prems char_is_valid_cases [of c]
    by (subst copy_basename.simps) (simp add: FILE_BASENAME_LEN_def)
  also have "\<dots> = copy_basename fname (Suc i + length cs)
      (take (Suc i) (b[i := char2upcase c]) @ map char2upcase cs @ drop (Suc i + length cs) (b[i := char2upcase c]))"
    by (rule Cons.IH) (use Cons.prems i in simp_all)
  finally show ?case
    using Cons.prems by (simp add: take_Suc_conv_app_nth)
qed simp

lemma copy_extension_run:
  "list_all char_is_valid cs \<Longrightarrow> drop i fname = cs @ [NUL] \<Longrightarrow> j + length cs \<le> 3 \<Longrightarrow> length b = 3 \<Longrightarrow>
   copy_extension fname i j b = Some (Some (take j b @ map char2upcase cs @ drop (j + length cs) b))"
proof (induction cs arbitrary: i j b)
  case Nil
  then have "i < length fname" "fname ! i = NUL"
    by (cases "i < length fname"; simp add: Cons_nth_drop_Suc [symmetric])+
  then show ?case by (subst copy_extension.simps) simp
next
  case (Cons c cs)
  then have i: "i < length fname" "fname ! i = c" "drop (Suc i) fname = cs @ [NUL]"
    by (cases "i < length fname"; simp add: Cons_nth_drop_Suc [symmetric])+
  have "copy_extension fname i j b = copy_extension fname (Suc i) (Suc j) (b[j := char2upcase c])"
    using i Cons.prems char_is_valid_cases [of c]
    by (subst copy_extension.simps) (simp add: FILE_EXTENSION_LEN_def)
  with Cons.IH [of "Suc i" "Suc j" "b[j := char2upcase c]"] i Cons.prems show ?case
    by (simp add: take_Suc_conv_app_nth)
qed

lemma NUL_notin_pad: "list_all char_is_valid cs \<Longrightarrow> NUL \<notin> set (pad_upper n cs)"
  by (auto simp: pad_upper_def list_all_iff) (metis char_is_valid_cases(3))

lemma length_pad_upper: "length cs \<le> n \<Longrightarrow> length (pad_upper n cs) = n"
  by (simp add: pad_upper_def)

lemma strncmp_pad:
  assumes "list_all char_is_valid cs" and "length cs \<le> n" and "n \<le> length s2"
  shows "\<exists>r. strncmp (pad_upper n cs) s2 n = Some r \<and>
    (r = 0 \<longleftrightarrow> take (n - 1) (pad_upper n cs) = take (n - 1) s2)"
proof -
  have len: "n \<le> length (pad_upper n cs)" using assms(2) by (simp add: length_pad_upper)
  have "NUL \<notin> set (take (n - 1) (pad_upper n cs))"
    using NUL_notin_pad [OF assms(1)] by (auto dest: in_set_takeD)
  from strncmp_zero_eq [OF len assms(3) this] strncmp_returns [OF len assms(3)] show ?thesis
    by auto
qed

text \<open>The rule for a name with an extension, and for one without.\<close>

lemma dir_entry_is_filename_rule:
  assumes b: "list_all char_is_valid bname" "0 < length bname" "length bname \<le> 8"
    and x: "list_all char_is_valid ext" "length ext \<le> 3" and e: "11 \<le> length e"
    and f: "fname = bname @ CHR ''.'' # ext @ [NUL] \<or> ext = [] \<and> fname = bname @ [NUL]"
  shows "dir_entry_is_filename 0 e fname =
    Some (take 7 (pad_upper 8 bname) = map byte_char (take 7 e) \<and>
          take 2 (pad_upper 3 ext) = map byte_char (take 2 (drop 8 e)))"
proof -
  from f obtain rest where rest: "drop 0 fname = bname @ rest" by auto
  have "copy_basename fname 0 (replicate FILE_BASENAME_LEN (CHR '' '')) =
      copy_basename fname (length bname) (pad_upper 8 bname)"
    using copy_basename_run [OF b(1) rest, of "replicate 8 (CHR '' '')"] b(3)
    by (simp only: FILE_BASENAME_LEN_def pad_upper_def add_0 take_0 append_Nil drop_replicate length_replicate)
  moreover have "\<exists>i. copy_basename fname (length bname) (pad_upper 8 bname) =
      Some (Some (i, pad_upper 8 bname)) \<and> drop i fname = ext @ [NUL]"
    using f
  proof (elim disjE conjE)
    assume "fname = bname @ CHR ''.'' # ext @ [NUL]"
    with b(2) show ?thesis
      by (subst copy_basename.simps) (auto simp: nth_append)
  next
    assume "ext = []" "fname = bname @ [NUL]"
    then show ?thesis
      by (subst copy_basename.simps) (simp add: nth_append)
  qed
  ultimately obtain i where
    i: "copy_basename fname 0 (replicate FILE_BASENAME_LEN (CHR '' '')) = Some (Some (i, pad_upper 8 bname))"
      "drop i fname = ext @ [NUL]" by auto
  have xx: "copy_extension fname i 0 (replicate FILE_EXTENSION_LEN (CHR '' '')) = Some (Some (pad_upper 3 ext))"
    using copy_extension_run [OF x(1) i(2), of 0 "replicate 3 (CHR '' '')"] x(2)
    by (simp only: FILE_EXTENSION_LEN_def pad_upper_def add_0 take_0 append_Nil drop_replicate length_replicate)
  from strncmp_pad [OF b(1,3), of "map byte_char e"] e obtain r where
    r: "strncmp (pad_upper 8 bname) (map byte_char e) 8 = Some r"
      "r = 0 \<longleftrightarrow> take 7 (pad_upper 8 bname) = map byte_char (take 7 e)"
    by (auto simp: take_map)
  have "3 \<le> length e - 8" using e by simp
  with strncmp_pad [OF x, of "map byte_char (drop 8 e)"] obtain r2 where
    r2: "strncmp (pad_upper 3 ext) (map byte_char (drop 8 e)) 3 = Some r2"
      "r2 = 0 \<longleftrightarrow> take 2 (pad_upper 3 ext) = map byte_char (take 2 (drop 8 e))"
    by (auto simp: take_map)
  show ?thesis
    unfolding dir_entry_is_filename_def i(1) option.case prod.case xx drop_0 add_0
    unfolding FILE_BASENAME_LEN_def FILE_EXTENSION_LEN_def r(1) r2(1) option.case
    using r(2) r2(2) by simp
qed

section \<open>The volume on the hard disk\<close>

text \<open>The partition of the volume \<open>s\<close> and what the driver relies on: the disk is ready, the
  buffer is a sector, and the sectors of the root directory are there.\<close>

definition volume_ready ::
    "'d ports \<Rightarrow> ('d \<Rightarrow> ata_view) \<Rightarrow> nat \<Rightarrow> nat \<Rightarrow> nat \<Rightarrow> (nat \<Rightarrow> u8 list) \<Rightarrow> ata_id \<Rightarrow> mbr_state \<Rightarrow>
     'd disk fat \<Rightarrow> bool" where
  "volume_ready io view H S N D idd ms s \<longleftrightarrow>
     disk_ready io view H S N D idd ms (fat_partition_num s) (fat_disk s) \<and>
     length (buf_sec s) = SECTOR_LEN \<and> 0 < spc s \<and>
     (\<forall>k < root_clus s * spc s * 16.
        part_avail idd ms (fat_partition_num s) (starting_clu_sec_num s + of_nat (k div 16)))"

definition vol_content :: "(nat \<Rightarrow> u8 list) \<Rightarrow> mbr_state \<Rightarrow> 'd disk fat \<Rightarrow> u32 \<Rightarrow> u8 list" where
  "vol_content D ms s = part_content D ms (fat_partition_num s)"

lemma volume_fat_ok:
  "volume_ready io view H S N D idd ms s \<Longrightarrow>
   sector_reader.fat_ok (hdd_read_sector io (fat_partition_num s))
     (disk_ready io view H S N D idd ms (fat_partition_num s)) (hdd_read_sector io) s"
  by (simp add: hd.fat_ok_def volume_ready_def)

lemma volume_ready_kept:
  assumes "volume_ready io view H S N D idd ms s"
    and "sector_reader.fat_ok (hdd_read_sector io (fat_partition_num s))
      (disk_ready io view H S N D idd ms (fat_partition_num s)) (hdd_read_sector io) s'"
    and "same_volume s s'"
  shows "volume_ready io view H S N D idd ms s'"
proof -
  have "starting_clu_sec_num s' = starting_clu_sec_num s" "fat_partition_num s' = fat_partition_num s"
    using assms(3) by (simp_all add: same_volume_def)
  with assms(1,2) same_volume_defs(1,2) [OF assms(3)] show ?thesis
    by (simp add: volume_ready_def hd.fat_ok_def)
qed

lemma fat16_get_file_size_reads:
  assumes "volume_ready io view H S N D idd ms s"
    and "dir_search fname (root_entries (vol_content D ms s) s) = Some r"
  shows "\<exists>s'. fat16_get_file_size (hdd_read_sector io) fname s =
    Some (case r of None \<Rightarrow> -1 | Some e \<Rightarrow> sint (de_size 0 e), s') \<and>
    volume_ready io view H S N D idd ms s' \<and> same_volume s s'"
proof -
  have spc: "0 < spc s" using assms(1) by (simp add: volume_ready_def)
  have av: "part_avail idd ms (fat_partition_num s) (starting_clu_sec_num s + of_nat (k div 16))"
    if "k < root_clus s * spc s * 16" for k
    using assms(1) that by (simp add: volume_ready_def)
  note out = hd.rootdir_find_from_refines [OF spc av _ volume_fat_ok [OF assms(1)] same_volume_refl,
      of 0 "unat (vid_max_root_entries (fat_vid s))" fname, unfolded hd.search_outcome_def,
      folded root_entries_def, folded vol_content_def, unfolded assms(2) option.case]
  note kept = volume_ready_kept [OF assms(1)]
  show ?thesis
  proof (cases r)
    case None
    with out kept show ?thesis by (fastforce simp: fat16_get_file_size_def rootdir_find_entry_def)
  next
    case (Some e)
    with out obtain de s' where s': "rootdir_find_entry (hdd_read_sector io) fname s = Some (Some de, s')"
        "sector_reader.fat_ok (hdd_read_sector io (fat_partition_num s))
          (disk_ready io view H S N D idd ms (fat_partition_num s)) (hdd_read_sector io) s'" "same_volume s s'"
        "de + 32 \<le> SECTOR_LEN" "e = take 32 (drop de (buf_sec s'))"
      by (auto simp: rootdir_find_entry_def)
    moreover from this have "length (buf_sec s') = SECTOR_LEN" by (simp add: hd.fat_ok_def)
    ultimately show ?thesis
      using dir_entry_local(6) [of de "buf_sec s'"] Some kept [OF s'(2,3)] by (simp add: fat16_get_file_size_def)
  qed
qed

text \<open>A file that the search does not find.\<close>

lemma rootdir_find_missing:
  assumes "volume_ready io view H S N D idd ms s" "dir_search fname (root_entries (vol_content D ms s) s) = Some None"
  shows "\<exists>s'. rootdir_find_entry (hdd_read_sector io) fname s = Some (None, s') \<and>
    volume_ready io view H S N D idd ms s' \<and> same_volume s s'"
proof -
  have spc: "0 < spc s" using assms(1) by (simp add: volume_ready_def)
  have av: "part_avail idd ms (fat_partition_num s) (starting_clu_sec_num s + of_nat (k div 16))"
    if "k < root_clus s * spc s * 16" for k
    using assms(1) that by (simp add: volume_ready_def)
  note out = hd.rootdir_find_from_refines [OF spc av _ volume_fat_ok [OF assms(1)] same_volume_refl,
      of 0 "unat (vid_max_root_entries (fat_vid s))" fname, unfolded hd.search_outcome_def,
      folded root_entries_def, folded vol_content_def, unfolded assms(2) option.case]
  with volume_ready_kept [OF assms(1)] show ?thesis by (fastforce simp: rootdir_find_entry_def)
qed

lemma fat16_init_reads:
  assumes "disk_ready io view H S N D idd ms pnum (fat_disk s)" and "pnum < 4"
    and "part_avail idd ms pnum 0" and "length (buf_sec s) = SECTOR_LEN"
    and "length (vid_vol_label (fat_vid s)) = VOL_LABEL_LEN + 1"
    and "length (vid_type (fat_vid s)) = TYPE_LEN + 1"
    and "b = part_content D ms pnum 0"
  shows "\<exists>s'. fat16_init (hdd_read_sector io) pnum s = Some (0, s') \<and> fat_partition_num s' = pnum \<and>
    spc s' = unat (b ! 0xd) \<and> vid_max_root_entries (fat_vid s') = le16 b 0x11 \<and>
    unat (starting_fat_sec_num s') = unat (le16 b 0xe) \<and>
    unat (starting_clu_sec_num s') = unat (le16 b 0xe) + unat (b ! 0x10) * unat (le16 b 0x16) \<and>
    disk_ready io view H S N D idd ms pnum (fat_disk s') \<and> length (buf_sec s') = SECTOR_LEN"
proof -
  let ?s = "s\<lparr>fat_partition_num := pnum\<rparr>"
  have ok: "sector_reader.fat_ok (hdd_read_sector io pnum) (disk_ready io view H S N D idd ms pnum)
      (hdd_read_sector io) ?s"
    using assms(1,4) by (simp add: hd.fat_ok_def)
  from hd.fat_read_avail [OF ok assms(3)] obtain s1 where
    s1: "fat_read_sector (hdd_read_sector io) 0 ?s = Some (True, s1)" "same_volume ?s s1" "buf_sec s1 = b"
      "sector_reader.fat_ok (hdd_read_sector io pnum) (disk_ready io view H S N D idd ms pnum)
         (hdd_read_sector io) s1"
    unfolding assms(7) by blast
  have vol: "fat_vid s1 = fat_vid s" "fat_partition_num s1 = pnum"
    using s1(2) by (simp_all add: same_volume_def)
  have b: "length b = 512" "disk_ready io view H S N D idd ms pnum (fat_disk s1)"
    using s1(3,4) vol by (auto simp: hd.fat_ok_def SECTOR_LEN_def)
  obtain l where l: "strncpy (vid_vol_label (fat_vid s)) (map byte_char (drop 0x2b b)) VOL_LABEL_LEN = Some l"
    using strncpy_total [of VOL_LABEL_LEN "map byte_char (drop 0x2b b)" "vid_vol_label (fat_vid s)"]
      b(1) assms(5) by (auto simp: VOL_LABEL_LEN_def)
  obtain t where t: "strncpy (vid_type (fat_vid s)) (map byte_char (drop 0x36 b)) TYPE_LEN = Some t"
    using strncpy_total [of TYPE_LEN "map byte_char (drop 0x36 b)" "vid_type (fat_vid s)"]
      b(1) assms(6) by (auto simp: TYPE_LEN_def)
  have "unat (ucast (b ! 0x10) * ucast (le16 b 0x16) :: u32) = unat (b ! 0x10) * unat (le16 b 0x16)"
      "unat (b ! 0x10) * unat (le16 b 0x16) \<le> 255 * 65535"
  proof -
    show le: "unat (b ! 0x10) * unat (le16 b 0x16) \<le> 255 * 65535"
      using unat_u8_bound [of "b ! 0x10"] unat_u16_bound [of "le16 b 0x16"]
      by (intro mult_le_mono) simp_all
    then show "unat (ucast (b ! 0x10) * ucast (le16 b 0x16) :: u32) = unat (b ! 0x10) * unat (le16 b 0x16)"
      by (subst unat_mult_no_overflow) simp_all
  qed
  then have clu: "unat (ucast (le16 b 0xe) + ucast (b ! 0x10) * ucast (le16 b 0x16) :: u32) =
      unat (le16 b 0xe) + unat (b ! 0x10) * unat (le16 b 0x16)"
    using unat_u16_bound [of "le16 b 0xe"] by (subst unat_add_no_overflow) simp_all
  show ?thesis
    using assms(2) s1(1,3) vol b l t clu
    by (simp add: fat16_init_def init_vid_def Let_def spc_def SECTOR_LEN_def not_le [symmetric])
qed

lemma fat_next_same_volume:
  "fat_get_next_clu_num rd clu s = Some (n, s1) \<Longrightarrow> same_volume s s1"
  by (auto simp: fat_get_next_clu_num_def fat_read_sector_def same_volume_def Let_def
      split: option.splits if_splits prod.splits)

lemma shifted_cluster_iff:
  assumes "2 \<le> unat n" and "unat n + 8 < 65536" and "0 < spc s"
  shows "clu2rsec (n + 8 - 2) s = cluster_sector s n 0 \<longleftrightarrow> root_clus s = 8"
proof -
  have "unat (n + 8 - 2) = unat n + 6"
    using unat_add8 [OF assms(2)] assms(1) by (simp add: unat_word_ariths)
  then have "ucast (n + 8 - 2) = (of_nat (unat n + 6) :: u32)"
    by (simp only: ucast_of_nat_unat)
  moreover have "ucast (vid_sectors_per_cluster (fat_vid s)) = (of_nat (spc s) :: u32)"
    using spc_less [of s] by (simp add: spc_def word_unat_eq_iff unat_of_nat take_bit_eq_mod)
  ultimately have x: "clu2rsec (n + 8 - 2) s = starting_clu_sec_num s + of_nat ((unat n + 6) * spc s)"
    by (simp only: clu2rsec_def of_nat_mult add.commute)
  have c: "cluster_sector s n 0 =
      starting_clu_sec_num s + of_nat ((root_clus s + (unat n - 2)) * spc s)"
    by (simp add: cluster_sector_def distrib_right)
  have "(unat n + 6) * spc s \<le> 65536 * 256" "(root_clus s + (unat n - 2)) * spc s \<le> 69632 * 256"
    using assms(2) root_clus_less [of s] spc_less [of s] by (intro mult_le_mono; simp)+
  then have "clu2rsec (n + 8 - 2) s = cluster_sector s n 0 \<longleftrightarrow>
      (unat n + 6) * spc s = (root_clus s + (unat n - 2)) * spc s"
    unfolding x c add_left_cancel by (intro of_nat_eq_u32) simp_all
  also have "\<dots> \<longleftrightarrow> root_clus s = 8"
    using assms(1,3) by auto
  finally show ?thesis .
qed

section \<open>A sample volume\<close>

text \<open>The partition of \<open>sample_mbr\<close> with the boot sector in sector 0, one FAT in sector 1, the root directory in sectors 2 to 9,
  and one file of 600 bytes in the clusters 2 and 3.\<close>

definition sector_of :: "(nat \<Rightarrow> u8) \<Rightarrow> u8 list" where
  "sector_of f = map f [0..<ATA_SECTOR_SIZE]"

lemma sector_of_nth: "k < 512 \<Longrightarrow> sector_of f ! k = f k"
  by (simp add: sector_of_def ATA_SECTOR_SIZE_def)

lemma sector_of_length: "length (sector_of f) = ATA_SECTOR_SIZE"
  by (simp add: sector_of_def)

definition sample_entry :: "u8 list" where
  "sample_entry = [0x4b, 0x45, 0x52, 0x4e, 0x45, 0x4c, 0x20, 0x20, 0x45, 0x4c, 0x46, 0x20,
     0, 0, 0, 0, 0, 0, 0, 0, 0, 0, 0, 0, 0, 0, 2, 0, 0x58, 2, 0, 0]"

definition sample_sectors :: "nat \<Rightarrow> u8 list" where
  "sample_sectors n = sector_of
     (if n = 63 then (\<lambda>k. if k = 0x11 then 128 else if k \<in> {0xd, 0xe, 0x10, 0x16} then 1 else 0)
      else if n = 64 then (\<lambda>k. if k = 4 then 3 else if k = 6 \<or> k = 7 then 0xff else 0)
      else if n = 65 then (\<lambda>k. if k < 32 then sample_entry ! k else 0)
      else if n = 73 then (\<lambda>k. 7) else if n = 74 then (\<lambda>k. 9) else (\<lambda>k. 0))"

definition sample_volume :: "ata_view disk fat" where
  "sample_volume = \<lparr>fat_disk = sample_disk, buf_sec = sector_of (\<lambda>k. 0), fat_partition_num = 0,
     starting_clu_sec_num = 2, starting_fat_sec_num = 1,
     fat_vid = \<lparr>vid_bytes_per_sector = 512, vid_sectors_per_cluster = 1, vid_reserved_sectors = 1,
       vid_num_fats = 1, vid_max_root_entries = 128, vid_sectors_per_fat = 1,
       vid_vol_label = [], vid_type = [], vid_signature = 0xaa55\<rparr>\<rparr>"

text \<open>A volume with a root directory of four clusters, and one before initialisation.\<close>

definition small_volume :: "ata_view disk fat" where
  "small_volume = sample_volume\<lparr>fat_vid := (fat_vid sample_volume)\<lparr>vid_max_root_entries := 64\<rparr>\<rparr>"

definition blank_volume :: "ata_view disk fat" where
  "blank_volume = sample_volume\<lparr>fat_vid := (fat_vid sample_volume)
     \<lparr>vid_vol_label := replicate (VOL_LABEL_LEN + 1) NUL, vid_type := replicate (TYPE_LEN + 1) NUL\<rparr>\<rparr>"

lemma sample_volume_geometry:
  "spc sample_volume = 1" "root_clus sample_volume = 8" "fat_partition_num sample_volume = 0"
  "starting_clu_sec_num sample_volume = 2" "starting_fat_sec_num sample_volume = 1"
  by (simp_all add: sample_volume_def spc_def root_clus_def)

lemma sample_part:
  "mbr_get_partition_info 0 sample_mbr = Some (Some (63, 2000))"
  by (simp add: mbr_get_partition_info_def sample_mbr_def)

lemma sample_avail:
  assumes "n < 1000"
  shows "part_avail model_id sample_mbr 0 (of_nat n)"
    and "part_content D sample_mbr 0 (of_nat n) = D (63 + n)"
  using assms unat_numeral_add [of "num.Bit1 (num.Bit1 (num.Bit1 (num.Bit1 (num.Bit1 num.One))))" n]
  by (simp_all add: part_avail_def part_content_def sample_part word_less_nat_alt unat_of_nat_u32
      model_id_def)

lemma sample_volume_ready:
  "volume_ready (model_drive 16 63 4000 sample_sectors) (\<lambda>v. v) 16 63 4000 sample_sectors model_id
     sample_mbr sample_volume"
proof -
  have "part_avail model_id sample_mbr 0 (2 + of_nat (k div 16))" if "k < 128" for k
    using sample_avail(1) [of "2 + k div 16"] that by simp
  moreover have "disk_ready (model_drive 16 63 4000 sample_sectors) (\<lambda>v. v) 16 63 4000 sample_sectors
      model_id sample_mbr 0 sample_disk"
    by (rule disk_ready_sample) (simp add: sample_sectors_def sector_of_length)
  ultimately show ?thesis
    by (simp add: volume_ready_def sample_volume_geometry)
      (simp add: sample_volume_def sector_of_length SECTOR_LEN_def ATA_SECTOR_SIZE_def)
qed

lemma sample_content:
  "n < 1000 \<Longrightarrow> vol_content sample_sectors sample_mbr sample_volume (of_nat n) = sample_sectors (63 + n)"
  by (simp add: vol_content_def sample_volume_geometry sample_avail)

lemma sample_found:
  "dir_search (''kernel'' @ CHR ''.'' # ''elf'' @ [NUL]) (root_entries (vol_content sample_sectors sample_mbr sample_volume)
     sample_volume) = Some (Some sample_entry)"
proof -
  let ?c = "vol_content sample_sectors sample_mbr sample_volume"
  have "?c 2 = sample_sectors 65"
    using sample_content [of 2] by simp
  moreover have "take 32 (sample_sectors 65) = sample_entry"
    by (rule nth_equalityI)
      (simp_all add: sample_sectors_def sector_of_length sector_of_nth ATA_SECTOR_SIZE_def,
       simp_all add: sample_entry_def)
  ultimately have "root_entries ?c sample_volume = sample_entry # map (root_entry ?c sample_volume) [1..<128]"
    by (simp add: root_entries_def sample_volume_geometry upt_conv_Cons root_entry_def)
  moreover have "dir_entry_is_filename 0 sample_entry (''kernel'' @ CHR ''.'' # ''elf'' @ [NUL]) = Some True"
    by (subst dir_entry_is_filename_rule [where bname = "''kernel''" and ext = "''elf''"])
      (simp_all add: char_is_valid_def char_in_def schar_def sample_entry_def pad_upper_def
        char2upcase_def byte_char_def char_of_def bit_0)
  ultimately show ?thesis
    by (simp add: dir_entry_is_end_def dir_entry_is_unused_def dir_entry_has_long_name_def)
      (simp add: sample_entry_def bit_simps)
qed

text \<open>The file of the sample volume.\<close>

abbreviation sample_cont :: "u32 \<Rightarrow> u8 list" where
  "sample_cont \<equiv> vol_content sample_sectors sample_mbr sample_volume"

lemma sample_chain:
  "fat_entry sample_cont sample_volume 2 = 3" "fat_sector sample_volume 2 = 1"
proof -
  show fs: "fat_sector sample_volume 2 = 1"
    by (simp add: fat_sector_def FAT_ENTRIES_PER_SECTOR_def sample_volume_geometry)
  have "le16 (sample_sectors 64) 4 = 3"
    by (simp add: le16_def sample_sectors_def sector_of_nth)
  moreover have "sample_cont 1 = sample_sectors 64"
    using sample_content [of 1] by simp
  ultimately show "fat_entry sample_cont sample_volume 2 = 3"
    by (simp add: fat_entry_def fs)
qed

lemma sample_file_sector:
  assumes "i < 600"
  shows "file_sector sample_cont sample_volume 2 i = of_nat (if i < 512 then 10 else 11)"
    and "i div 512 = (if i < 512 then 0 else 1)"
proof -
  show d: "i div 512 = (if i < 512 then 0 else 1)"
    using assms by (auto intro: div_nat_eqI)
  show "file_sector sample_cont sample_volume 2 i = of_nat (if i < 512 then 10 else 11)"
    unfolding file_sector_def sample_volume_geometry mult_1_right d
    by (simp add: sample_chain cluster_sector_def sample_volume_geometry)
qed

lemma sample_file_readable:
  "file_readable sample_cont (part_avail model_id sample_mbr 0) sample_volume 2 600"
proof -
  have av: "part_avail model_id sample_mbr 0 (of_nat n)" if "n < 1000" for n
    using that by (rule sample_avail)
  have "2 \<le> unat (chain sample_cont sample_volume 2 (i div 512)) \<and>
      unat (chain sample_cont sample_volume 2 (i div 512)) + 8 < 65536 \<and>
      part_avail model_id sample_mbr 0 (file_sector sample_cont sample_volume 2 i) \<and>
      (512 \<le> i \<longrightarrow> part_avail model_id sample_mbr 0
        (fat_sector sample_volume (chain sample_cont sample_volume 2 (i div 512 - 1))))" if "i < 600" for i
    unfolding sample_file_sector [OF that]
    using av [of 10] av [of 11] av [of 1] by (simp add: sample_chain)
  then show ?thesis
    by (simp add: file_readable_def sample_volume_geometry)
qed

lemma sample_entry_fields: "de_starting_cluster 0 sample_entry = 2" "de_size 0 sample_entry = 600"
  by (simp_all add: de_starting_cluster_def de_size_def le16_def le32_def sample_entry_def)

section \<open>Properties\<close>

text \<open>C3. Loading a file. On a volume whose root directory occupies eight clusters, if the directory
  search finds the entry \<open>e\<close> and the clusters of its chain can be read, \<open>fat16_load\<close> returns the
  smaller of the file size and the buffer size and has copied exactly that many bytes of the file, in
  chain order, leaving the rest of the buffer alone. The eight clusters are needed: the code adds the
  constant 8 where it means the number of root clusters, and with another number it goes from the FAT
  to wrong sectors (\<open>load_advance_right_iff_8_root_clusters\<close> below). The drive has no sector beyond
  cylinder 1023.\<close>

theorem fat16_load_correct:
  assumes "volume_ready io view H S N D idd ms s" and "root_clus s = 8"
    and "dir_search fname (root_entries (vol_content D ms s) s) = Some (Some e)"
    and "len = unat (min (de_size 0 e) buf_size)" and "len \<le> length buf"
    and "file_readable (vol_content D ms s) (part_avail idd ms (fat_partition_num s)) s
      (de_starting_cluster 0 e) len"
  shows "\<exists>s'. fat16_load (hdd_read_sector io) fname buf buf_size s = Some (sint (of_nat len :: u32),
    map (file_byte (vol_content D ms s) s (de_starting_cluster 0 e)) [0..<len] @ drop len buf, s')"
  using hd.fat16_load_file [OF volume_fat_ok [OF assms(1)] assms(2) _ _ _ assms(4) _ assms(5)]
    assms(1,3,6) unfolding vol_content_def volume_ready_def by blast

theorem fat16_load_correct_witness:
  "\<exists>b s'. fat16_load (hdd_read_sector (model_drive 16 63 4000 sample_sectors))
     (''kernel'' @ CHR ''.'' # ''elf'' @ [NUL]) (replicate 1000 1) 1000 sample_volume = Some (600, b, s') \<and>
     b ! 0 = 7 \<and> b ! 599 = 9 \<and> b ! 600 = 1"
proof -
  let ?f = "map (file_byte sample_cont sample_volume (de_starting_cluster 0 sample_entry)) [0..<600] @
    drop 600 (replicate 1000 1)"
  have rd: "file_readable sample_cont (part_avail model_id sample_mbr (fat_partition_num sample_volume))
      sample_volume (de_starting_cluster 0 sample_entry) 600"
    using sample_file_readable by (simp only: sample_volume_geometry sample_entry_fields)
  have len: "600 = unat (min (de_size 0 sample_entry) 1000)" "600 \<le> length (replicate 1000 (1 :: u8))"
    by (simp_all only: sample_entry_fields length_replicate) simp_all
  from fat16_load_correct [OF sample_volume_ready sample_volume_geometry(2) sample_found len rd]
  have "\<exists>s'. fat16_load (hdd_read_sector (model_drive 16 63 4000 sample_sectors))
     (''kernel'' @ CHR ''.'' # ''elf'' @ [NUL]) (replicate 1000 1) 1000 sample_volume =
     Some (sint (of_nat 600 :: u32), ?f, s')" .
  moreover have "sint (of_nat 600 :: u32) = 600" by simp
  moreover have "?f ! i = file_byte sample_cont sample_volume 2 i" if "i < 600" for i
    using that by (simp only: nth_append sample_entry_fields length_map length_upt if_True nth_map) simp
  from this [of 0] this [of 599] have "?f ! 0 = 7" "?f ! 599 = 9"
    using sample_content [of 10] sample_content [of 11]
    by (simp_all only: file_byte_def sample_file_sector) (simp_all add: sample_sectors_def sector_of_nth)
  moreover have "?f ! 600 = 1" by (simp add: nth_append)
  ultimately show ?thesis by metis
qed

text \<open>C13. The directory search. \<open>fat16_get_file_size\<close> returns the size field of the first entry of
  the root directory that matches before the end mark, and -1 when there is none; the size is read as
  a signed number.\<close>

theorem fat16_get_file_size_correct:
  assumes "volume_ready io view H S N D idd ms s"
    and "dir_search fname (root_entries (vol_content D ms s) s) = Some r"
  shows "\<exists>s'. fat16_get_file_size (hdd_read_sector io) fname s =
    Some (case r of None \<Rightarrow> -1 | Some e \<Rightarrow> sint (de_size 0 e), s')"
  using fat16_get_file_size_reads [OF assms] by blast

theorem fat16_get_file_size_correct_witness:
  "\<exists>s'. fat16_get_file_size (hdd_read_sector (model_drive 16 63 4000 sample_sectors))
     (''kernel'' @ CHR ''.'' # ''elf'' @ [NUL]) sample_volume = Some (600, s')"
  using fat16_get_file_size_correct [OF sample_volume_ready sample_found]
  by (simp add: sample_entry_fields)

text \<open>The matching rule. For a name made of valid characters with a base of one to eight and an
  extension of at most three, upper-cased and padded with blanks, \<open>_dir_entry_is_filename\<close> compares
  seven characters of the base and two of the extension: the eighth and the third play no role.\<close>

theorem dir_entry_is_filename_compares_7_2:
  assumes "list_all char_is_valid bname" and "0 < length bname" and "length bname \<le> 8"
    and "list_all char_is_valid ext" and "length ext \<le> 3" and "11 \<le> length e"
  shows "dir_entry_is_filename 0 e (bname @ CHR ''.'' # ext @ [NUL]) =
    Some (take 7 (pad_upper 8 bname) = map byte_char (take 7 e) \<and>
          take 2 (pad_upper 3 ext) = map byte_char (take 2 (drop 8 e)))"
  using assms by (intro dir_entry_is_filename_rule) simp_all

theorem dir_entry_is_filename_compares_7_2_witness:
  "dir_entry_is_filename 0 [0x4b, 0x45, 0x52, 0x4e, 0x45, 0x4c, 0x30, 0x39, 0x45, 0x4c, 0x46]
     (''kernel01'' @ ''.elf'' @ [NUL]) = Some True"
proof -
  have valid: "list_all char_is_valid ''kernel01''" "list_all char_is_valid ''elf''"
    by (simp_all add: char_is_valid_def char_in_def schar_def)
  have up: "take 7 (pad_upper 8 ''kernel01'') = ''KERNEL0''" "take 2 (pad_upper 3 ''elf'') = ''EL''"
    by (simp_all add: pad_upper_def char2upcase_def char_in_def schar_def char_of_def bit_0)
  have e: "map byte_char (take 7 [0x4b, 0x45, 0x52, 0x4e, 0x45, 0x4c, 0x30, 0x39, 0x45, 0x4c, 0x46 :: u8])
      = ''KERNEL0''"
    "map byte_char (take 2 (drop 8 [0x4b, 0x45, 0x52, 0x4e, 0x45, 0x4c, 0x30, 0x39, 0x45, 0x4c, 0x46 :: u8]))
      = ''EL''"
    by (simp_all add: byte_char_def char_of_def bit_0)
  show ?thesis
    using dir_entry_is_filename_compares_7_2 [OF valid(1) _ _ valid(2),
        of "[0x4b, 0x45, 0x52, 0x4e, 0x45, 0x4c, 0x30, 0x39, 0x45, 0x4c, 0x46]"]
    unfolding up e by simp
qed

text \<open>The step to the next cluster adds the constant 8 instead of the number of root directory
  clusters. At a cluster boundary the sector read for the next cluster \<open>n\<close> of the chain is the first
  sector of that cluster exactly on volumes whose root directory has eight clusters.\<close>

theorem load_advance_right_iff_8_root_clusters:
  assumes "i \<noteq> 0" and "i mod (512 * spc s) = 0" and "0 < spc s" and "i < 4294967296"
    and "fat_get_next_clu_num rd clu s = Some (n, s1)" and "2 \<le> unat n" and "unat n + 8 < 65536"
  shows "load_advance rd i clu psec s =
      (case fat_read_sector rd (clu2rsec (n + 8 - 2) s1) s1 of
         None \<Rightarrow> None
       | Some (ok, s2) \<Rightarrow> Some (if \<not> ok then None else Some (n + 8, 0), s2)) \<and>
    (clu2rsec (n + 8 - 2) s1 = cluster_sector s1 n 0 \<longleftrightarrow> root_clus s1 = 8)"
proof -
  have vol: "same_volume s s1" using assms(5) by (rule fat_next_same_volume)
  note spc = same_volume_defs(1) [OF vol]
  have "512 dvd i" using assms(2) by (auto simp: mod_eq_0_iff_dvd dest: dvd_mult_left)
  then have sec: "i mod 512 = 0" by (simp add: mod_eq_0_iff_dvd)
  have "512 * spc s dvd i" using assms(2) by (simp add: mod_eq_0_iff_dvd)
  then obtain m where "i = 512 * spc s * m" ..
  then have "i div 512 mod spc s = 0" by simp
  then have rsec: "(of_nat (i div 512) mod ucast (vid_sectors_per_cluster (fat_vid s)) :: u32) = 0"
    using assms(4) by (simp add: word_unat_eq_iff unat_mod unat_of_nat_u32 spc_def)
  have v: "vid_sectors_per_cluster (fat_vid s) \<noteq> 0" "vid_sectors_per_cluster (fat_vid s1) \<noteq> 0"
    using assms(3) vol by (auto simp: spc_def same_volume_def)
  have v3: "(ucast (vid_sectors_per_cluster (fat_vid s1)) :: u32) \<noteq> 0"
    using v(2) by (simp add: word_unat_eq_iff)
  have n: "n \<noteq> 0" "0xffff \<noteq> n" "\<not> n + 8 < 2"
    using assms(6,7) unat_add8 [OF assms(7)] by (auto simp: word_less_nat_alt)
  let ?x = "clu2rsec (n + 8 - 2) s1"
  have "load_advance rd i clu psec s =
      (case fat_read_sector rd ?x s1 of
         None \<Rightarrow> None
       | Some (ok, s2) \<Rightarrow> Some (if \<not> ok then None else Some (n + 8, 0), s2))"
    using sec rsec v v3 n assms(1,2,5)
    by (simp add: load_advance_def read_cluster_sec_def unat_CLUSTER_SIZE Let_def)
  moreover have "?x = cluster_sector s1 n 0 \<longleftrightarrow> root_clus s1 = 8"
    using assms(3,6,7) spc by (intro shifted_cluster_iff) simp_all
  ultimately show ?thesis by blast
qed

theorem load_advance_right_iff_8_root_clusters_witness:
  "\<exists>s1. load_advance (\<lambda>p n b s. Some (0, sector_of (\<lambda>k. if k = 4 then 3 else 0), s)) 512 6 0 small_volume =
     (case fat_read_sector (\<lambda>p n b s. Some (0, sector_of (\<lambda>k. if k = 4 then 3 else 0), s)) (clu2rsec 9 s1) s1 of
        None \<Rightarrow> None | Some (ok, s2) \<Rightarrow> Some (if \<not> ok then None else Some (3 + 8, 0), s2)) \<and>
     clu2rsec 9 s1 \<noteq> cluster_sector s1 3 0"
proof -
  let ?rd = "\<lambda>p n b s. Some (0, sector_of (\<lambda>k. if k = 4 then 3 else 0), s)"
  let ?s1 = "small_volume\<lparr>buf_sec := sector_of (\<lambda>k. if k = 4 then 3 else 0)\<rparr>"
  have g: "spc small_volume = 1" "root_clus small_volume = 4" "root_clus ?s1 = 4"
    by (simp_all add: small_volume_def sample_volume_def spc_def root_clus_def)
  have "fat_get_next_clu_num ?rd 6 small_volume = Some (3, ?s1)"
    using ROOT_CLUSTERS_eq [of small_volume] g
    by (simp add: fat_get_next_clu_num_def STARTING_ROOT_CLU_NUM_def fat_read_sector_def le16_def
        FAT_ENTRIES_PER_SECTOR_def sector_of_nth Let_def)
  from load_advance_right_iff_8_root_clusters [OF _ _ _ _ this, of 512 0] g show ?thesis
    by auto
qed

text \<open>\<open>fat16_init\<close> on a partition with a readable first sector returns 0 and takes the geometry
  from the boot sector: sectors per cluster, the size of the root directory, the FAT behind the reserved
  sectors and the allocable area behind the FATs, without overflow.\<close>

theorem fat16_init_correct:
  assumes "disk_ready io view H S N D idd ms pnum (fat_disk s)" and "pnum < 4"
    and "part_avail idd ms pnum 0" and "length (buf_sec s) = SECTOR_LEN"
    and "length (vid_vol_label (fat_vid s)) = VOL_LABEL_LEN + 1"
    and "length (vid_type (fat_vid s)) = TYPE_LEN + 1"
    and "b = part_content D ms pnum 0"
  shows "\<exists>s'. fat16_init (hdd_read_sector io) pnum s = Some (0, s') \<and> fat_partition_num s' = pnum \<and>
    spc s' = unat (b ! 0xd) \<and> vid_max_root_entries (fat_vid s') = le16 b 0x11 \<and>
    unat (starting_fat_sec_num s') = unat (le16 b 0xe) \<and>
    unat (starting_clu_sec_num s') = unat (le16 b 0xe) + unat (b ! 0x10) * unat (le16 b 0x16) \<and>
    disk_ready io view H S N D idd ms pnum (fat_disk s') \<and> length (buf_sec s') = SECTOR_LEN"
  using assms by (rule fat16_init_reads)

theorem fat16_init_correct_witness:
  "\<exists>s'. fat16_init (hdd_read_sector (model_drive 16 63 4000 sample_sectors)) 0 blank_volume = Some (0, s') \<and>
     spc s' = 1 \<and> starting_clu_sec_num s' = 2"
proof -
  let ?b = "part_content sample_sectors sample_mbr 0 0"
  have b: "?b = sample_sectors 63"
    using sample_avail(2) [of 0] by simp
  have av: "part_avail model_id sample_mbr 0 0"
    using sample_avail(1) [of 0] by simp
  have rdy: "disk_ready (model_drive 16 63 4000 sample_sectors) (\<lambda>v. v) 16 63 4000 sample_sectors
      model_id sample_mbr 0 (fat_disk blank_volume)"
    using sample_volume_ready
    by (simp add: volume_ready_def blank_volume_def sample_volume_geometry)
  have len: "length (buf_sec blank_volume) = SECTOR_LEN"
    "length (vid_vol_label (fat_vid blank_volume)) = VOL_LABEL_LEN + 1"
    "length (vid_type (fat_vid blank_volume)) = TYPE_LEN + 1"
    using sample_volume_ready by (simp_all add: volume_ready_def blank_volume_def)
  have f: "?b ! 0xd = 1" "?b ! 0x10 = 1" "le16 ?b 0xe = 1" "le16 ?b 0x16 = 1"
    unfolding b by (simp_all add: sample_sectors_def sector_of_nth le16_def)
  from fat16_init_correct [OF rdy _ av len refl] obtain s' where
    "fat16_init (hdd_read_sector (model_drive 16 63 4000 sample_sectors)) 0 blank_volume = Some (0, s')"
    "spc s' = 1" "unat (starting_clu_sec_num s') = 2"
    unfolding f by auto
  then show ?thesis by (auto simp: word_unat_eq_iff)
qed

end
