(* ===== verification/Kstdio.thy ===== *)
theory Kstdio
  imports Strings
begin

text \<open>
  Formatted output (\<open>lib/kstdio.c\<close>). The output pointer \<open>str\<close> is the list of the characters
  written so far. The variable arguments are a list of \<open>karg\<close>; \<open>None\<close> is an argument that is
  missing or of the wrong kind, or a read past the end of the format. The flags are the bits of the
  source in a word; field widths, precisions and sizes are \<open>int\<close>.
\<close>

section \<open>Flags and numbers\<close>

definition ZEROPAD :: u32 where "ZEROPAD = 1"
definition SIGN :: u32 where "SIGN = 2"
definition PLUS :: u32 where "PLUS = 4"
definition SPACE :: u32 where "SPACE = 8"
definition LEFT :: u32 where "LEFT = 16"
definition SPECIAL :: u32 where "SPECIAL = 32"
definition SMALL :: u32 where "SMALL = 64"

lemmas flag_defs = ZEROPAD_def SIGN_def PLUS_def SPACE_def LEFT_def SPECIAL_def SMALL_def

definition has :: "u32 \<Rightarrow> u32 \<Rightarrow> bool" where
  "has flags f \<longleftrightarrow> flags AND f \<noteq> 0"

text \<open>\<open>do_div\<close>: the unsigned division of the processor; quotient and remainder.\<close>

definition do_div :: "u32 \<Rightarrow> u32 \<Rightarrow> u32 \<times> u32" where
  "do_div num base = (num div base, num mod base)"

definition digit_chars :: "bool \<Rightarrow> char list" where
  "digit_chars small = (if small then ''0123456789abcdefghijklmnopqrstuvwxyz''
                        else ''0123456789ABCDEFGHIJKLMNOPQRSTUVWXYZ'')"

lemma do_div_decreases:
  assumes "num \<noteq> 0" and "\<not> base < 2"
  shows "unat (num div base :: u32) < unat num"
proof -
  have "2 \<le> unat base" using assms(2) by (simp add: word_less_nat_alt not_less)
  moreover have "0 < unat num" using assms(1) by (simp add: unat_gt_0)
  ultimately show ?thesis by (simp add: unat_div)
qed

text \<open>The loop that fills \<open>tmp\<close>, least significant digit first.\<close>

function number_digits :: "bool \<Rightarrow> u32 \<Rightarrow> u32 \<Rightarrow> char list" where
  "number_digits small base num =
     (if num = 0 \<or> base < 2 then []
      else (let (q, r) = do_div num base
            in digit_chars small ! unat r # number_digits small base q))"
  by pat_completeness auto

termination
  by (relation "measure (\<lambda>(small, base, num). unat num)")
    (auto simp: do_div_def intro: do_div_decreases)

declare number_digits.simps [simp del]

text \<open>A loop \<open>while (size-- > 0) *str++ = c\<close>: its output, and the value of \<open>size\<close> after it.\<close>

definition pad_out :: "int \<Rightarrow> char \<Rightarrow> char list" where
  "pad_out sz c = replicate (nat sz) c"

definition pad_left :: "int \<Rightarrow> int" where
  "pad_left sz = (if sz > 0 then -1 else sz - 1)"

definition number :: "u32 \<Rightarrow> u32 \<Rightarrow> int \<Rightarrow> int \<Rightarrow> u32 \<Rightarrow> char list option" where
  "number num base sz precision flags =
     (let digits = digit_chars (has flags SMALL);
          type1 = (if has flags LEFT then flags AND NOT ZEROPAD else flags)
      in if base < 2 \<or> base > 36 then None
         else
           (let c = (if has type1 ZEROPAD then CHR ''0'' else CHR '' '');
                neg = (has type1 SIGN \<and> sint num < 0);
                num1 = (if neg then - num else num);
                sign_ch = (if neg then Some (CHR ''-'')
                       else if has type1 PLUS then Some (CHR ''+'')
                       else if has type1 SPACE then Some (CHR '' '') else None);
                size1 = (if sign_ch \<noteq> None then sz - 1 else sz);
                size2 = (if has type1 SPECIAL
                         then (if base = 16 then size1 - 2 else if base = 8 then size1 - 1 else size1)
                         else size1);
                tmp = (if num1 = 0 then ''0'' else number_digits (has flags SMALL) base num1);
                i = int (length tmp);
                precision1 = (if i > precision then i else precision);
                size3 = size2 - precision1;
                blanks = \<not> has type1 (ZEROPAD + LEFT);
                size4 = (if blanks then pad_left size3 else size3);
                size5 = (if \<not> has type1 LEFT then pad_left size4 else size4)
            in Some
                 ((if blanks then pad_out size3 (CHR '' '') else [])
                  @ (case sign_ch of None \<Rightarrow> [] | Some ch \<Rightarrow> [ch])
                  @ (if has type1 SPECIAL
                     then (if base = 8 then ''0'' else if base = 16 then [CHR ''0'', digits ! 33] else [])
                     else [])
                  @ (if \<not> has type1 LEFT then pad_out size4 c else [])
                  @ pad_out (precision1 - i) (CHR ''0'')
                  @ rev tmp
                  @ pad_out size5 (CHR '' ''))))"

section \<open>The format\<close>

datatype karg = Arg_int u32 | Arg_str "char list option" | Arg_ptr nat

text \<open>The output so far, the remaining arguments, and the stores made by \<open>%n\<close>.\<close>

record kv_state =
  kv_out :: "char list"
  kv_args :: "karg list"
  kv_stores :: "(nat \<times> int) list"

definition is_digit :: "char \<Rightarrow> bool" where
  "is_digit c \<longleftrightarrow> char_in (CHR ''0'') (CHR ''9'') c"

fun skip_atoi :: "char list \<Rightarrow> int \<Rightarrow> int \<times> char list" where
  "skip_atoi [] i = (i, [])"
| "skip_atoi (c # cs) i =
     (if is_digit c then skip_atoi cs (i * 10 + schar c - schar (CHR ''0'')) else (i, c # cs))"

fun parse_flags :: "char list \<Rightarrow> u32 \<Rightarrow> u32 \<times> char list" where
  "parse_flags [] flags = (flags, [])"
| "parse_flags (c # cs) flags =
     (if c = CHR ''-'' then parse_flags cs (flags OR LEFT)
      else if c = CHR ''+'' then parse_flags cs (flags OR PLUS)
      else if c = CHR '' '' then parse_flags cs (flags OR SPACE)
      else if c = CHR ''#'' then parse_flags cs (flags OR SPECIAL)
      else if c = CHR ''0'' then parse_flags cs (flags OR ZEROPAD)
      else (flags, c # cs))"

fun va_int :: "karg list \<Rightarrow> (u32 \<times> karg list) option" where
  "va_int (Arg_int n # as) = Some (n, as)"
| "va_int _ = None"

fun va_str :: "karg list \<Rightarrow> (char list option \<times> karg list) option" where
  "va_str (Arg_str s # as) = Some (s, as)"
| "va_str _ = None"

fun va_ptr :: "karg list \<Rightarrow> (nat \<times> karg list) option" where
  "va_ptr (Arg_ptr p # as) = Some (p, as)"
| "va_ptr _ = None"

text \<open>The star is not skipped by the source.\<close>

definition parse_width ::
    "char list \<Rightarrow> u32 \<Rightarrow> karg list \<Rightarrow> (int \<times> u32 \<times> char list \<times> karg list) option" where
  "parse_width fmt flags args =
     (case fmt of
        [] \<Rightarrow> None
      | c # cs \<Rightarrow>
          if is_digit c then (let (w, rest) = skip_atoi fmt 0 in Some (w, flags, rest, args))
          else if c = CHR ''*'' then
            (case va_int args of
               None \<Rightarrow> None
             | Some (n, args') \<Rightarrow>
                 if sint n < 0 then Some (sint (- n), flags OR LEFT, fmt, args')
                 else Some (sint n, flags, fmt, args'))
          else Some (-1, flags, fmt, args))"

definition parse_precision ::
    "char list \<Rightarrow> karg list \<Rightarrow> (int \<times> char list \<times> karg list) option" where
  "parse_precision fmt args =
     (case fmt of
        [] \<Rightarrow> None
      | c # cs \<Rightarrow>
          if c \<noteq> CHR ''.'' then Some (-1, fmt, args)
          else (case cs of
                  [] \<Rightarrow> None
                | d # ds \<Rightarrow>
                    if is_digit d then (let (p, rest) = skip_atoi cs 0 in Some (max p 0, rest, args))
                    else if d = CHR ''*'' then
                      (case va_int args of
                         None \<Rightarrow> None
                       | Some (n, args') \<Rightarrow> Some (max (sint n) 0, cs, args'))
                    else Some (0, cs, args)))"

definition skip_length :: "char list \<Rightarrow> char list" where
  "skip_length fmt =
     (case fmt of c # cs \<Rightarrow> if c = CHR ''h'' \<or> c = CHR ''l'' \<or> c = CHR ''L'' then cs else fmt | [] \<Rightarrow> [])"

definition out_number ::
    "u32 \<Rightarrow> int \<Rightarrow> int \<Rightarrow> u32 \<Rightarrow> kv_state \<Rightarrow> kv_state option" where
  "out_number base field_width precision flags k =
     (case va_int (kv_args k) of
        None \<Rightarrow> None
      | Some (n, args') \<Rightarrow>
          (case number n base field_width precision flags of
             None \<Rightarrow> None
           | Some s \<Rightarrow> Some (k\<lparr>kv_out := kv_out k @ s, kv_args := args'\<rparr>)))"

definition out_string :: "int \<Rightarrow> int \<Rightarrow> u32 \<Rightarrow> kv_state \<Rightarrow> kv_state option" where
  "out_string field_width precision flags k =
     (case va_str (kv_args k) of
        None \<Rightarrow> None
      | Some (s, args') \<Rightarrow>
          (case strlen s of
             None \<Rightarrow> None
           | Some n \<Rightarrow>
               (let len = (if precision < 0 then int n else if int n > precision then precision else int n);
                    pad = replicate (nat (field_width - len)) (CHR '' '')
                in Some (k\<lparr>kv_args := args',
                          kv_out := kv_out k @ (if has flags LEFT then [] else pad)
                            @ (case s of None \<Rightarrow> [] | Some cs \<Rightarrow> take (nat len) cs)
                            @ (if has flags LEFT then pad else [])\<rparr>))))"

definition out_char :: "int \<Rightarrow> u32 \<Rightarrow> kv_state \<Rightarrow> kv_state option" where
  "out_char field_width flags k =
     (case va_int (kv_args k) of
        None \<Rightarrow> None
      | Some (n, args') \<Rightarrow>
          (let pad = replicate (nat (field_width - 1)) (CHR '' '')
           in Some (k\<lparr>kv_args := args',
                     kv_out := kv_out k @ (if has flags LEFT then [] else pad)
                       @ [char_of (unat n mod 256)] @ (if has flags LEFT then pad else [])\<rparr>)))"

text \<open>The conversion at the head of the format, and the rest of the format after it.\<close>

definition convert ::
    "u32 \<Rightarrow> int \<Rightarrow> int \<Rightarrow> char list \<Rightarrow> kv_state \<Rightarrow> (char list \<times> kv_state) option" where
  "convert flags field_width precision fmt k =
     (case fmt of
        [] \<Rightarrow> None
      | c # cs \<Rightarrow>
          if c = CHR ''c'' then map_option (Pair cs) (out_char field_width flags k)
          else if c = CHR ''s'' then map_option (Pair cs) (out_string field_width precision flags k)
          else if c = CHR ''o'' then map_option (Pair cs) (out_number 8 field_width precision flags k)
          else if c = CHR ''p'' then
            map_option (Pair cs)
              (if field_width = -1 then out_number 16 8 precision (flags OR ZEROPAD) k
               else out_number 16 field_width precision flags k)
          else if c = CHR ''x'' then
            map_option (Pair cs) (out_number 16 field_width precision (flags OR SMALL) k)
          else if c = CHR ''X'' then map_option (Pair cs) (out_number 16 field_width precision flags k)
          else if c = CHR ''d'' \<or> c = CHR ''i'' then
            map_option (Pair cs) (out_number 10 field_width precision (flags OR SIGN) k)
          else if c = CHR ''u'' then map_option (Pair cs) (out_number 10 field_width precision flags k)
          else if c = CHR ''n'' then
            (case va_ptr (kv_args k) of
               None \<Rightarrow> None
             | Some (p, args') \<Rightarrow>
                 Some (cs, k\<lparr>kv_args := args', kv_stores := kv_stores k @ [(p, int (length (kv_out k)))]\<rparr>))
          else (let k1 = (if c \<noteq> CHR ''%'' then k\<lparr>kv_out := kv_out k @ ''%''\<rparr> else k)
                in if c \<noteq> NUL then Some (cs, k1\<lparr>kv_out := kv_out k1 @ [c]\<rparr>) else Some (fmt, k1)))"

text \<open>One directive after its percent sign.\<close>

definition directive :: "char list \<Rightarrow> kv_state \<Rightarrow> (char list \<times> kv_state) option" where
  "directive fmt k =
     (let (flags, f1) = parse_flags fmt 0
      in (case parse_width f1 flags (kv_args k) of
            None \<Rightarrow> None
          | Some (w, flags', f2, args2) \<Rightarrow>
              (case parse_precision f2 args2 of
                 None \<Rightarrow> None
               | Some (p, f3, args3) \<Rightarrow>
                   convert flags' w p (skip_length f3) (k\<lparr>kv_args := args3\<rparr>))))"

lemma skip_atoi_length: "length (snd (skip_atoi cs i)) \<le> length cs"
  by (induction cs i rule: skip_atoi.induct) auto

lemma parse_flags_length: "length (snd (parse_flags cs i)) \<le> length cs"
  by (induction cs i rule: parse_flags.induct) auto

lemma parse_width_length:
  "parse_width fmt flags args = Some (w, flags', rest, args') \<Longrightarrow> length rest \<le> length fmt"
  using skip_atoi_length [of fmt 0]
  by (auto simp: parse_width_def split: list.splits if_splits option.splits prod.splits)

lemma parse_precision_length:
  "parse_precision fmt args = Some (p, rest, args') \<Longrightarrow> length rest \<le> length fmt"
  using skip_atoi_length [of "tl fmt" 0]
  by (auto simp: parse_precision_def split: list.splits if_splits option.splits prod.splits)

lemma skip_length_length: "length (skip_length fmt) \<le> length fmt"
  by (auto simp: skip_length_def split: list.split)

lemma convert_length: "convert flags w p fmt k = Some (rest, k') \<Longrightarrow> length rest \<le> length fmt"
  by (auto simp: convert_def Let_def split: list.splits if_splits option.splits)

lemma directive_length: "directive fmt k = Some (rest, k') \<Longrightarrow> length rest \<le> length fmt"
proof -
  assume run: "directive fmt k = Some (rest, k')"
  obtain flags f1 where f1: "parse_flags fmt 0 = (flags, f1)" by (cases "parse_flags fmt 0")
  from run f1 obtain w flags' f2 args2 where f2: "parse_width f1 flags (kv_args k) = Some (w, flags', f2, args2)"
    by (auto simp: directive_def split: option.splits)
  with run f1 obtain p f3 args3 where f3: "parse_precision f2 args2 = Some (p, f3, args3)"
    by (auto simp: directive_def split: option.splits)
  with run f1 f2 have "convert flags' w p (skip_length f3) (k\<lparr>kv_args := args3\<rparr>) = Some (rest, k')"
    by (simp add: directive_def)
  from convert_length [OF this] skip_length_length [of f3] parse_precision_length [OF f3]
    parse_width_length [OF f2] parse_flags_length [of fmt 0] f1 show ?thesis by simp
qed

function kvsprintf_from :: "char list \<Rightarrow> kv_state \<Rightarrow> kv_state option" where
  "kvsprintf_from fmt k =
     (case fmt of
        [] \<Rightarrow> None
      | c # cs \<Rightarrow>
          if c = NUL then Some k
          else if c \<noteq> CHR ''%'' then kvsprintf_from cs (k\<lparr>kv_out := kv_out k @ [c]\<rparr>)
          else (case directive cs k of
                  None \<Rightarrow> None
                | Some (rest, k') \<Rightarrow> kvsprintf_from rest k'))"
  by pat_completeness auto

termination
  by (relation "measure (\<lambda>(fmt, k). length fmt)") (auto dest: directive_length)

declare kvsprintf_from.simps [simp del]

text \<open>The string that \<open>kvsprintf\<close> leaves in its buffer, without the NUL it appends.\<close>

definition kvsprintf :: "char list \<Rightarrow> karg list \<Rightarrow> char list option" where
  "kvsprintf fmt args = map_option kv_out (kvsprintf_from fmt \<lparr>kv_out = [], kv_args = args, kv_stores = []\<rparr>)"

definition BUF_SIZE :: nat where "BUF_SIZE = 1024"

text \<open>
  \<open>kprintf\<close> formats into a static buffer of \<open>BUF_SIZE\<close> characters without a check: a longer text,
  which would be written behind the buffer, is \<open>None\<close>. Its value is the text given to
  \<open>console_puts\<close>.
\<close>

definition kprintf :: "char list \<Rightarrow> karg list \<Rightarrow> char list option" where
  "kprintf fmt args =
     (case kvsprintf fmt args of
        None \<Rightarrow> None
      | Some s \<Rightarrow> if length s < BUF_SIZE then Some s else None)"

definition ksprintf :: "char list \<Rightarrow> char list \<Rightarrow> karg list \<Rightarrow> char list option" where
  "ksprintf str fmt args =
     (case kvsprintf fmt args of
        None \<Rightarrow> None
      | Some s \<Rightarrow> if length s < length str then Some (s @ NUL # drop (Suc (length s)) str) else None)"

text \<open>The text that a sequence of calls of \<open>kprintf\<close> gives to the console.\<close>

definition LF :: char where "LF = CHR 0x0A"
definition TAB :: char where "TAB = CHR 0x09"

fun prints :: "char list option list \<Rightarrow> char list option" where
  "prints [] = Some []"
| "prints (p # ps) =
     (case p of None \<Rightarrow> None | Some s \<Rightarrow> map_option ((@) s) (prints ps))"

section \<open>What the conversions print\<close>

text \<open>The reference: the positional numeral of a natural number, most significant digit first.\<close>

function numeral_text :: "bool \<Rightarrow> nat \<Rightarrow> nat \<Rightarrow> char list" where
  "numeral_text small b n =
     (if n < b \<or> b < 2 then [digit_chars small ! n]
      else numeral_text small b (n div b) @ [digit_chars small ! (n mod b)])"
  by pat_completeness auto

termination
  by (relation "measure (\<lambda>(small, b, n). n)") auto

declare numeral_text.simps [simp del]

text \<open>The value of a character as a digit, and of a text as a numeral.\<close>

definition digit_value :: "char \<Rightarrow> nat" where
  "digit_value c =
     (if char_in (CHR ''0'') (CHR ''9'') c then nat (schar c - 48)
      else if char_in (CHR ''a'') (CHR ''z'') c then nat (schar c - 87)
      else nat (schar c - 55))"

definition text_value :: "nat \<Rightarrow> char list \<Rightarrow> nat" where
  "text_value b cs = foldl (\<lambda>v c. v * b + digit_value c) 0 cs"

lemma text_value_snoc: "text_value b (cs @ [c]) = text_value b cs * b + digit_value c"
  by (simp add: text_value_def)

lemma digit_value_digit_chars:
  assumes "n < 36"
  shows "digit_value (digit_chars small ! n) = n"
proof -
  have "list_all (\<lambda>i. digit_value (digit_chars True ! i) = i) [0..<36]" by code_simp
  moreover have "list_all (\<lambda>i. digit_value (digit_chars False ! i) = i) [0..<36]" by code_simp
  ultimately show ?thesis using assms by (cases small) (simp_all add: list_all_iff)
qed

lemma numeral_text_value:
  "2 \<le> b \<Longrightarrow> b \<le> 36 \<Longrightarrow> text_value b (numeral_text small b n) = n"
proof (induction n rule: less_induct)
  case (less n)
  show ?case
  proof (cases "n < b")
    case True
    with less.prems show ?thesis
      by (simp add: numeral_text.simps [of small b n] text_value_def digit_value_digit_chars)
  next
    case False
    with less have "text_value b (numeral_text small b (n div b)) = n div b" by simp
    moreover have "n mod b < 36" using less.prems by (intro less_le_trans [OF mod_less_divisor]) auto
    ultimately show ?thesis
      using False less.prems
      by (simp add: numeral_text.simps [of small b n] text_value_snoc digit_value_digit_chars)
  qed
qed

lemma number_digits_numeral:
  assumes "2 \<le> unat base"
  shows "num \<noteq> 0 \<Longrightarrow> rev (number_digits small base num) = numeral_text small (unat base) (unat num)"
proof (induction "unat num" arbitrary: num rule: less_induct)
  case less
  have b: "\<not> base < 2" using assms by (simp add: word_less_nat_alt)
  have step: "number_digits small base num
              = digit_chars small ! (unat num mod unat base) # number_digits small base (num div base)"
    using less.prems b by (simp add: number_digits.simps [of small base num] do_div_def unat_mod)
  show ?case
  proof (cases "unat num < unat base")
    case True
    then have "num div base = 0" by (simp add: unat_eq_zero [symmetric] unat_div)
    then show ?thesis
      using True by (simp add: step number_digits.simps [of small base 0]
          numeral_text.simps [of small "unat base" "unat num"])
  next
    case False
    then have nz: "num div base \<noteq> 0" using assms
      by (simp add: unat_eq_zero [symmetric] unat_div div_eq_0_iff)
    have "rev (number_digits small base (num div base))
          = numeral_text small (unat base) (unat (num div base))"
      using less.hyps [OF do_div_decreases [OF less.prems b] nz] .
    then show ?thesis
      using False assms by (simp add: step unat_div numeral_text.simps [of small "unat base" "unat num"])
  qed
qed

lemma numeral_text_length: "0 < length (numeral_text small b n)"
  by (simp add: numeral_text.simps [of small b n])

text \<open>The parts of a converted number.\<close>

definition magnitude :: "u32 \<Rightarrow> u32 \<Rightarrow> nat" where
  "magnitude flags num = (if has flags SIGN \<and> sint num < 0 then unat (- num) else unat num)"

definition sign_text :: "u32 \<Rightarrow> u32 \<Rightarrow> char list" where
  "sign_text flags num =
     (if has flags SIGN \<and> sint num < 0 then ''-''
      else if has flags PLUS then ''+'' else if has flags SPACE then '' '' else [])"

definition prefix_text :: "u32 \<Rightarrow> u32 \<Rightarrow> char list" where
  "prefix_text flags base =
     (if \<not> has flags SPECIAL then []
      else if base = 8 then ''0''
      else if base = 16 then (if has flags SMALL then ''0x'' else ''0X'') else [])"

definition digits_text :: "u32 \<Rightarrow> u32 \<Rightarrow> u32 \<Rightarrow> int \<Rightarrow> char list" where
  "digits_text flags num base precision =
     (let ds = numeral_text (has flags SMALL) (unat base) (magnitude flags num)
      in replicate (nat precision - length ds) (CHR ''0'') @ ds)"

text \<open>The field: left justified, filled with zeros behind sign and prefix, or right justified.\<close>

definition number_text :: "u32 \<Rightarrow> u32 \<Rightarrow> int \<Rightarrow> int \<Rightarrow> u32 \<Rightarrow> char list" where
  "number_text num base sz precision flags =
     (let sp = sign_text flags num @ prefix_text flags base;
          ds = digits_text flags num base precision;
          fill = nat sz - length (sp @ ds)
      in if has flags LEFT then sp @ ds @ replicate fill (CHR '' '')
         else if has flags ZEROPAD then sp @ replicate fill (CHR ''0'') @ ds
         else replicate fill (CHR '' '') @ sp @ ds)"

lemma has_bits:
  "has f ZEROPAD = bit f 0" "has f SIGN = bit f 1" "has f PLUS = bit f 2" "has f SPACE = bit f 3"
  "has f LEFT = bit f 4" "has f SPECIAL = bit f 5" "has f SMALL = bit f 6"
  using and_exp_eq_0_iff_not_bit [of f 0] and_exp_eq_0_iff_not_bit [of f 1]
    and_exp_eq_0_iff_not_bit [of f 2] and_exp_eq_0_iff_not_bit [of f 3]
    and_exp_eq_0_iff_not_bit [of f 4] and_exp_eq_0_iff_not_bit [of f 5]
    and_exp_eq_0_iff_not_bit [of f 6]
  by (simp_all add: has_def flag_defs)

lemma has_zeropad_left: "has f (ZEROPAD + LEFT) \<longleftrightarrow> has f ZEROPAD \<or> has f LEFT"
proof -
  have "ZEROPAD + LEFT = (ZEROPAD OR LEFT)" by (simp add: flag_defs)
  then show ?thesis by (simp add: has_def bit.conj_disj_distrib or_eq_0_iff)
qed

lemma has_clear_zeropad:
  "\<not> has (f AND NOT ZEROPAD) ZEROPAD"
  "has (f AND NOT ZEROPAD) SIGN = has f SIGN" "has (f AND NOT ZEROPAD) PLUS = has f PLUS"
  "has (f AND NOT ZEROPAD) SPACE = has f SPACE" "has (f AND NOT ZEROPAD) LEFT = has f LEFT"
  "has (f AND NOT ZEROPAD) SPECIAL = has f SPECIAL"
  by (simp add: has_def ZEROPAD_def and.assoc)
    (simp_all add: has_bits bit_and_iff bit_not_iff ZEROPAD_def)

lemma number_flags:
  assumes "f' = (if has f LEFT then f AND NOT ZEROPAD else f)"
  shows "has f' ZEROPAD \<longleftrightarrow> has f ZEROPAD \<and> \<not> has f LEFT"
    "has f' (ZEROPAD + LEFT) \<longleftrightarrow> has f ZEROPAD \<or> has f LEFT"
    "has f' SIGN = has f SIGN" "has f' PLUS = has f PLUS" "has f' SPACE = has f SPACE"
    "has f' LEFT = has f LEFT" "has f' SPECIAL = has f SPECIAL"
  using assms by (auto simp: has_clear_zeropad has_zeropad_left)

lemma digit_chars_33: "digit_chars small ! 33 = (if small then CHR ''x'' else CHR ''X'')"
  by (simp add: digit_chars_def)

lemma tmp_numeral:
  assumes "2 \<le> unat base"
  shows "rev (if num = 0 then ''0'' else number_digits small base num)
         = numeral_text small (unat base) (unat num)"
  using assms number_digits_numeral [OF assms, of num small]
  by (simp add: numeral_text.simps [of small "unat base" 0] digit_chars_def)

text \<open>The length of the sign and the prefix, as the source subtracts it from the width.\<close>

lemma sign_text_cases:
  fixes num flags :: u32
  defines "sign_ch \<equiv> (if has flags SIGN \<and> sint num < 0 then Some (CHR ''-'')
                       else if has flags PLUS then Some (CHR ''+'')
                       else if has flags SPACE then Some (CHR '' '') else None)"
  shows "(case sign_ch of None \<Rightarrow> [] | Some ch \<Rightarrow> [ch]) = sign_text flags num"
    and "(if sign_ch \<noteq> None then sz - 1 else sz) = sz - int (length (sign_text flags num))"
  by (simp_all add: sign_ch_def sign_text_def)

lemma prefix_text_cases:
  "(if has flags SPECIAL
    then (if base = 8 then ''0'' else if base = 16 then [CHR ''0'', digit_chars (has flags SMALL) ! 33] else [])
    else []) = prefix_text flags base"
  "(if has flags SPECIAL then (if base = 16 then s - 2 else if base = 8 then s - 1 else s) else s)
    = s - int (length (prefix_text flags base))"
  by (simp_all add: prefix_text_def digit_chars_33)

lemma number_layout:
  assumes ds: "ds = rev tmp" and p: "p1 = (if int (length tmp) > precision then int (length tmp) else precision)"
    and s: "s3 = sz - int (length sp) - int (length px) - p1"
  shows "(if \<not> (Z \<or> L) then pad_out s3 (CHR '' '') else []) @ sp @ px
      @ (if \<not> L then pad_out (if \<not> (Z \<or> L) then pad_left s3 else s3)
                      (if Z \<and> \<not> L then CHR ''0'' else CHR '' '') else [])
      @ pad_out (p1 - int (length tmp)) (CHR ''0'') @ rev tmp
      @ pad_out (if \<not> L then pad_left (if \<not> (Z \<or> L) then pad_left s3 else s3)
                 else if \<not> (Z \<or> L) then pad_left s3 else s3) (CHR '' '')
    = (let sp' = sp @ px; ds' = replicate (nat precision - length ds) (CHR ''0'') @ ds;
           fill = nat sz - length (sp' @ ds')
       in if L then sp' @ ds' @ replicate fill (CHR '' '')
          else if Z then sp' @ replicate fill (CHR ''0'') @ ds'
          else replicate fill (CHR '' '') @ sp' @ ds')"
proof -
  have zeros: "nat (p1 - int (length tmp)) = nat precision - length ds"
    using p ds by (cases "int (length tmp) > precision") (simp_all, linarith?)
  have fill: "nat s3 = nat sz - (length (sp @ px) + (nat precision - length ds + length ds))"
    using s p ds by auto
  show ?thesis
    by (cases L; cases Z) (simp_all add: Let_def pad_out_def pad_left_def zeros fill ds)
qed

lemma number_eq_text:
  assumes "2 \<le> unat base" and "unat base \<le> 36"
  shows "number num base sz precision flags = Some (number_text num base sz precision flags)"
proof -
  define f where "f = (if has flags LEFT then flags AND NOT ZEROPAD else flags)"
  note f = number_flags [OF f_def]
  define num1 where "num1 = (if has flags SIGN \<and> sint num < 0 then - num else num)"
  define tmp where "tmp = (if num1 = 0 then ''0'' else number_digits (has flags SMALL) base num1)"
  have base: "\<not> (base < 2 \<or> base > 36)"
    using assms by (simp add: word_less_nat_alt)
  have m: "unat num1 = magnitude flags num" by (simp add: num1_def magnitude_def)
  have ds: "numeral_text (has flags SMALL) (unat base) (magnitude flags num) = rev tmp"
    unfolding tmp_def tmp_numeral [OF assms(1)] m ..
  define p1 where "p1 = (if int (length tmp) > precision then int (length tmp) else precision)"
  show ?thesis
    unfolding number_def Let_def f_def [symmetric] f
      num1_def [symmetric] tmp_def [symmetric] p1_def [symmetric]
    unfolding sign_text_cases prefix_text_cases number_text_def digits_text_def
    using number_layout [OF ds p1_def refl, where Z = "has flags ZEROPAD" and L = "has flags LEFT"
        and sz = sz and sp = "sign_text flags num" and px = "prefix_text flags base"] base
    by (cases "has flags LEFT"; cases "has flags ZEROPAD") (simp_all add: Let_def ds)
qed

text \<open>C8. The conversion of a number prints, for every value, base from 2 to 36, width, precision and
  combination of flags, the sign, the prefix and the positional numeral of the magnitude, padded to
  the precision with zeros and to the width by the one rule of the flags (blanks behind it, zeros
  behind sign and prefix, or blanks before it), and the numeral has the magnitude as its value.\<close>

theorem number_correct:
  assumes "2 \<le> unat base" and "unat base \<le> 36"
  shows "number num base sz precision flags = Some (number_text num base sz precision flags)
    \<and> length (number_text num base sz precision flags)
        = max (nat sz) (length (sign_text flags num @ prefix_text flags base
            @ digits_text flags num base precision))
    \<and> text_value (unat base) (digits_text flags num base precision) = magnitude flags num"
proof (intro conjI)
  have zeros: "text_value b (replicate n (CHR ''0'') @ cs) = text_value b cs" for b n cs
    by (induction n) (simp_all add: text_value_def digit_value_def char_in_def schar_def)
  show "text_value (unat base) (digits_text flags num base precision) = magnitude flags num"
    using numeral_text_value assms by (simp add: digits_text_def Let_def zeros)
  show "length (number_text num base sz precision flags)
        = max (nat sz) (length (sign_text flags num @ prefix_text flags base
            @ digits_text flags num base precision))"
    by (simp add: number_text_def Let_def split: if_splits) linarith
qed (rule number_eq_text [OF assms])

theorem number_correct_witness:
  "number (- 255) 16 8 4 (SIGN + SPECIAL + ZEROPAD) = Some ''-0X000FF'' "
proof -
  have "number (- 255) 16 8 4 (SIGN + SPECIAL + ZEROPAD)
        = Some (number_text (- 255) 16 8 4 (SIGN + SPECIAL + ZEROPAD))"
    using number_correct [of 16 "- 255" 8 4 "SIGN + SPECIAL + ZEROPAD"] by simp
  also have "number_text (- 255) 16 8 4 (SIGN + SPECIAL + ZEROPAD) = ''-0X000FF''"
    by code_simp
  finally show ?thesis .
qed

end
