(* ===== verification/Token.thy ===== *)
theory Token
  imports Kstdio
begin

text \<open>
  The tokens of the boot shell (\<open>sh/include/token.h\<close>, \<open>sh/token.c\<close>). The union of a token is
  its 16 characters of storage \<open>tok_u\<close>; the integer, the boolean and the error code are read from
  and written to its first bytes, so that a read through the wrong member yields what it yields on
  the machine. A lexeme is the pair of the indices of its first and its last character in the line.
  \<open>None\<close> is a read or write outside the line or the token.
\<close>

section \<open>Token types\<close>

definition SIGIL_STR_VAR :: char where "SIGIL_STR_VAR = CHR ''$''"
definition SIGIL_INT_VAR :: char where "SIGIL_INT_VAR = CHR ''%''"
definition SIGIL_BOOL_VAR :: char where "SIGIL_BOOL_VAR = CHR ''.''"
definition DELIMITER_STR :: char where "DELIMITER_STR = CHR ''!''"
definition TOKEN_STR_LEN_MAX :: nat where "TOKEN_STR_LEN_MAX = 15"

datatype token_type = VOID | ERROR | UNKNOWN | IDENTIFIER | VARIABLE | LSTRING | LUINTEGER | EOI

datatype token_error =
  ERR_GENERIC | ERR_NUM_STR_TOO_LONG | ERR_STR_TOO_LONG | ERR_NUM_STR_TOO_SHORT | ERR_WRONG_NUM

fun token_error_code :: "token_error \<Rightarrow> u32" where
  "token_error_code ERR_GENERIC = 0"
| "token_error_code ERR_NUM_STR_TOO_LONG = 1"
| "token_error_code ERR_STR_TOO_LONG = 2"
| "token_error_code ERR_NUM_STR_TOO_SHORT = 3"
| "token_error_code ERR_WRONG_NUM = 4"

record token =
  tok_type :: token_type
  tok_u :: "char list"

definition token_ok :: "token \<Rightarrow> bool" where
  "token_ok t \<longleftrightarrow> length (tok_u t) = TOKEN_STR_LEN_MAX + 1"

section \<open>The members of the union\<close>

definition token_str :: "token \<Rightarrow> char list" where
  "token_str t = tok_u t"

definition token_integer :: "token \<Rightarrow> u32" where
  "token_integer t = le32 (map char_byte (tok_u t)) 0"

text \<open>A \<open>bool\<close> is one byte; any value of it that is not zero is true.\<close>

definition token_boolean :: "token \<Rightarrow> bool" where
  "token_boolean t \<longleftrightarrow> tok_u t ! 0 \<noteq> NUL"

definition token_err_code :: "token \<Rightarrow> u32" where
  "token_err_code t = le32 (map char_byte (tok_u t)) 0"

definition put_word :: "u32 \<Rightarrow> token \<Rightarrow> token" where
  "put_word w t = t\<lparr>tok_u := map byte_char (le32_bytes w) @ drop 4 (tok_u t)\<rparr>"

section \<open>Operations\<close>

definition token_is_void :: "token \<Rightarrow> bool" where "token_is_void t \<longleftrightarrow> tok_type t = VOID"
definition token_is_unknown :: "token \<Rightarrow> bool" where "token_is_unknown t \<longleftrightarrow> tok_type t = UNKNOWN"
definition token_is_identifier :: "token \<Rightarrow> bool" where
  "token_is_identifier t \<longleftrightarrow> tok_type t = IDENTIFIER"
definition token_is_variable :: "token \<Rightarrow> bool" where "token_is_variable t \<longleftrightarrow> tok_type t = VARIABLE"
definition token_is_luinteger :: "token \<Rightarrow> bool" where
  "token_is_luinteger t \<longleftrightarrow> tok_type t = LUINTEGER"
definition token_is_lstring :: "token \<Rightarrow> bool" where "token_is_lstring t \<longleftrightarrow> tok_type t = LSTRING"
definition token_is_error :: "token \<Rightarrow> bool" where "token_is_error t \<longleftrightarrow> tok_type t = ERROR"
definition token_is_eoi :: "token \<Rightarrow> bool" where "token_is_eoi t \<longleftrightarrow> tok_type t = EOI"

lemmas token_is_defs = token_is_void_def token_is_unknown_def token_is_identifier_def
  token_is_variable_def token_is_luinteger_def token_is_lstring_def token_is_error_def token_is_eoi_def

definition token_init :: "token \<Rightarrow> token" where
  "token_init t = t\<lparr>tok_type := VOID\<rparr>"

definition token_set_eoi :: "token \<Rightarrow> token" where
  "token_set_eoi t = t\<lparr>tok_type := EOI\<rparr>"

definition token_set_error :: "token \<Rightarrow> token_error \<Rightarrow> token" where
  "token_set_error t e = put_word (token_error_code e) (t\<lparr>tok_type := ERROR\<rparr>)"

definition token_set_unknown :: "token \<Rightarrow> token" where
  "token_set_unknown t = t\<lparr>tok_type := UNKNOWN\<rparr>"

definition lexeme_len :: "nat \<Rightarrow> nat \<Rightarrow> nat" where
  "lexeme_len lo hi = hi + 1 - lo"

definition set_strlex :: "token \<Rightarrow> token_type \<Rightarrow> char list \<Rightarrow> nat \<Rightarrow> nat \<Rightarrow> token option" where
  "set_strlex t ty line lo hi =
     (if lexeme_len lo hi > TOKEN_STR_LEN_MAX then Some (token_set_error t ERR_STR_TOO_LONG)
      else (case strncpy (tok_u t) (drop lo line) (lexeme_len lo hi) of
              None \<Rightarrow> None
            | Some u \<Rightarrow>
                if lexeme_len lo hi < length u
                then Some (t\<lparr>tok_type := ty, tok_u := u[lexeme_len lo hi := NUL]\<rparr>)
                else None))"

definition token_set_identifier :: "token \<Rightarrow> char list \<Rightarrow> nat \<Rightarrow> nat \<Rightarrow> token option" where
  "token_set_identifier t line lo hi = set_strlex t IDENTIFIER line lo hi"

definition token_set_variable :: "token \<Rightarrow> char list \<Rightarrow> nat \<Rightarrow> nat \<Rightarrow> token option" where
  "token_set_variable t line lo hi = set_strlex t VARIABLE line lo hi"

definition token_set_lstring :: "token \<Rightarrow> char list \<Rightarrow> nat \<Rightarrow> nat \<Rightarrow> token option" where
  "token_set_lstring t line lo hi = set_strlex t LSTRING line lo hi"

text \<open>The converters of one digit; \<open>-1\<close> is their error.\<close>

definition oct_char2int :: "char \<Rightarrow> u32" where
  "oct_char2int c = (if char_in (CHR ''0'') (CHR ''7'') c then of_int (schar c - schar (CHR ''0'')) else - 1)"

definition dec_char2int :: "char \<Rightarrow> u32" where
  "dec_char2int c = (if char_in (CHR ''0'') (CHR ''9'') c then of_int (schar c - schar (CHR ''0'')) else - 1)"

definition hex_char2int :: "char \<Rightarrow> u32" where
  "hex_char2int c =
     (if char_in (CHR ''0'') (CHR ''9'') c then of_int (schar c - schar (CHR ''0''))
      else if char_in (CHR ''a'') (CHR ''f'') c then of_int (10 + schar c - schar (CHR ''a''))
      else if char_in (CHR ''A'') (CHR ''F'') c then of_int (10 + schar c - schar (CHR ''A''))
      else - 1)"

text \<open>The loop over the lexeme from its last character to its first: \<open>Some None\<close> is its error exit.\<close>

function luinteger_loop ::
    "u32 \<Rightarrow> (char \<Rightarrow> u32) \<Rightarrow> char list \<Rightarrow> nat \<Rightarrow> nat \<Rightarrow> u32 \<Rightarrow> u32 \<Rightarrow> u32 option option" where
  "luinteger_loop base converter line lo hi num factor =
     (if hi < length line
      then (let digit = converter (line ! hi)
            in if digit = - 1 then Some None
               else if hi > lo
                    then luinteger_loop base converter line lo (hi - 1)
                           (num + digit * factor) (factor * base)
                    else Some (Some (num + digit * factor)))
      else None)"
  by pat_completeness auto

termination
  by (relation "measure (\<lambda>(base, converter, line, lo, hi, num, factor). hi)") auto

declare luinteger_loop.simps [simp del]

definition set_luinteger ::
    "token \<Rightarrow> u32 \<Rightarrow> (char \<Rightarrow> u32) \<Rightarrow> char list \<Rightarrow> nat \<Rightarrow> nat \<Rightarrow> token option" where
  "set_luinteger t base converter line lo hi =
     (case luinteger_loop base converter line lo hi 0 1 of
        None \<Rightarrow> None
      | Some None \<Rightarrow> Some (token_set_error t ERR_WRONG_NUM)
      | Some (Some num) \<Rightarrow> Some (put_word num (t\<lparr>tok_type := LUINTEGER\<rparr>)))"

definition token_set_luinteger8 :: "token \<Rightarrow> char list \<Rightarrow> nat \<Rightarrow> nat \<Rightarrow> token option" where
  "token_set_luinteger8 t line lo hi =
     (if lexeme_len lo hi > 10 + 1 then Some (token_set_error t ERR_NUM_STR_TOO_LONG)
      else set_luinteger t 8 oct_char2int line lo hi)"

definition token_set_luinteger10 :: "token \<Rightarrow> char list \<Rightarrow> nat \<Rightarrow> nat \<Rightarrow> token option" where
  "token_set_luinteger10 t line lo hi =
     (if lexeme_len lo hi > 9 then Some (token_set_error t ERR_NUM_STR_TOO_LONG)
      else set_luinteger t 10 dec_char2int line lo hi)"

definition token_set_luinteger16 :: "token \<Rightarrow> char list \<Rightarrow> nat \<Rightarrow> nat \<Rightarrow> token option" where
  "token_set_luinteger16 t line lo hi =
     (if lexeme_len lo hi > 8 then Some (token_set_error t ERR_NUM_STR_TOO_LONG)
      else set_luinteger t 16 hex_char2int line lo hi)"

definition token_display :: "token \<Rightarrow> char list option" where
  "token_display t =
     prints
       (kprintf (''TOKEN'' @ [LF, NUL]) []
        # (if token_is_void t then [kprintf ([TAB] @ ''void'' @ [LF, NUL]) []]
           else if token_is_identifier t then
             [kprintf ([TAB] @ ''identifier'' @ [LF, NUL]) [],
              kprintf ([TAB] @ ''<%s>'' @ [LF, NUL]) [Arg_str (Some (token_str t))]]
           else if token_is_variable t then
             [kprintf ([TAB] @ ''variable'' @ [LF, NUL]) [],
              kprintf ([TAB] @ ''<%s>'' @ [LF, NUL]) [Arg_str (Some (token_str t))]]
           else if token_is_lstring t then
             [kprintf ([TAB] @ ''lstring'' @ [LF, NUL]) [],
              kprintf ([TAB] @ ''<%s>'' @ [LF, NUL]) [Arg_str (Some (token_str t))]]
           else if token_is_eoi t then [kprintf ([TAB] @ ''EOI'' @ [LF, NUL]) []]
           else if token_is_luinteger t then
             [kprintf ([TAB] @ ''luinteger'' @ [LF, NUL]) [],
              kprintf ([TAB] @ ''<0x%x>'' @ [LF, NUL]) [Arg_int (token_integer t)]]
           else if token_is_error t then [kprintf ([TAB] @ ''error'' @ [LF, NUL]) []]
           else if token_is_unknown t then
             [kprintf ([TAB] @ ''%s...'' @ [LF, NUL]) [Arg_str (Some (token_str t))]]
           else []))"

section \<open>Storage and members\<close>

lemma token_integer_put_word:
  assumes "token_ok t"
  shows "token_integer (put_word w t) = w"
  using le32_le32_bytes [of w "map char_byte (drop 4 (tok_u t))"]
  by (simp add: token_integer_def put_word_def comp_def)

lemma token_err_code_put_word: "token_ok t \<Longrightarrow> token_err_code (put_word w t) = w"
  using token_integer_put_word [of t w] by (simp add: token_integer_def token_err_code_def)

lemma token_ok_put_word: "token_ok t \<Longrightarrow> token_ok (put_word w t)"
  by (simp add: token_ok_def put_word_def le32_bytes_def TOKEN_STR_LEN_MAX_def)

lemma token_ok_set_type [simp]: "token_ok (t\<lparr>tok_type := ty\<rparr>) = token_ok t"
  by (simp add: token_ok_def)

lemma tok_type_put_word [simp]: "tok_type (put_word w t) = tok_type t"
  by (simp add: put_word_def)

text \<open>The lexeme between two indices of the line.\<close>

definition lexeme :: "char list \<Rightarrow> nat \<Rightarrow> nat \<Rightarrow> char list" where
  "lexeme line lo hi = take (lexeme_len lo hi) (drop lo line)"

lemma lexeme_single: "hi < length line \<Longrightarrow> lexeme line hi hi = [line ! hi]"
  by (simp add: lexeme_def lexeme_len_def take_Suc_conv_app_nth)

lemma lexeme_snoc:
  "lo < hi \<Longrightarrow> hi < length line \<Longrightarrow>
   lexeme line lo hi = lexeme line lo (hi - 1) @ [line ! hi]"
  by (simp add: lexeme_def lexeme_len_def take_Suc_conv_app_nth Suc_diff_le)

lemma set_strlex_ok:
  assumes t: "token_ok t" and hi: "hi < length line" and nul: "NUL \<notin> set (lexeme line lo hi)"
    and len: "lexeme_len lo hi \<le> TOKEN_STR_LEN_MAX" and lo: "lo \<le> hi + 1"
  shows "\<exists>t'. set_strlex t ty line lo hi = Some t' \<and> tok_type t' = ty \<and> token_ok t'
              \<and> c_string (token_str t') (lexeme line lo hi)"
proof -
  let ?n = "lexeme_len lo hi"
  have n: "?n \<le> length (drop lo line)" "?n < length (tok_u t)"
    using hi len lo t by (auto simp: lexeme_len_def token_ok_def)
  have copy: "strncpy (tok_u t) (drop lo line) ?n = Some (lexeme line lo hi @ drop ?n (tok_u t))"
    using strncpy_full [of ?n "drop lo line" "tok_u t"] n nul by (simp add: lexeme_def)
  have llen: "length (lexeme line lo hi) = ?n" using n by (simp add: lexeme_def)
  from n have "drop ?n (tok_u t) \<noteq> []" by simp
  then obtain y ys where ys: "drop ?n (tok_u t) = y # ys" by (cases "drop ?n (tok_u t)") auto
  have "(lexeme line lo hi @ y # ys)[?n := NUL] = lexeme line lo hi @ NUL # ys"
    using llen by (simp add: list_update_append)
  moreover have "length ys = length (tok_u t) - ?n - 1"
    using arg_cong [OF ys, of length] by simp
  ultimately show ?thesis
    using copy len llen n nul t ys
    by (auto simp: set_strlex_def c_string_def token_str_def token_ok_def)
qed

lemma set_strlex_too_long:
  "lexeme_len lo hi > TOKEN_STR_LEN_MAX \<Longrightarrow>
   set_strlex t ty line lo hi = Some (token_set_error t ERR_STR_TOO_LONG)"
  by (simp add: set_strlex_def)

section \<open>Numbers\<close>

text \<open>
  What the number loop needs of the converter it is given: on the digits of its base it yields the
  value of the digit, on every other character \<open>-1\<close>.
\<close>

locale digit_converter =
  fixes base :: u32 and conv :: "char \<Rightarrow> u32" and is_dig :: "char \<Rightarrow> bool"
  assumes conv_digit: "is_dig c \<Longrightarrow> conv c = of_nat (digit_value c) \<and> digit_value c < 36"
    and conv_other: "\<not> is_dig c \<Longrightarrow> conv c = - 1"
    and digit_bound: "is_dig c \<Longrightarrow> digit_value c < unat base"
begin

lemma digit_not_error: "is_dig c \<Longrightarrow> (of_nat (digit_value c) :: u32) \<noteq> - 1"
proof
  assume "is_dig c" and "(of_nat (digit_value c) :: u32) = - 1"
  then have "unat (of_nat (digit_value c) :: u32) = unat (- 1 :: u32)" and "digit_value c < 36"
    using conv_digit by auto
  then show False by (simp add: unat_of_nat_u32 unsigned_minus_1_eq_mask mask_eq_exp_minus_1)
qed

lemma conv_error_iff: "conv c = - 1 \<longleftrightarrow> \<not> is_dig c"
  using conv_digit conv_other digit_not_error by metis

lemma loop_value:
  "lo \<le> hi \<Longrightarrow> hi < length line \<Longrightarrow> list_all is_dig (lexeme line lo hi) \<Longrightarrow>
   luinteger_loop base conv line lo hi num factor
   = Some (Some (num + factor * of_nat (text_value (unat base) (lexeme line lo hi))))"
proof (induction hi arbitrary: num factor)
  case 0
  then show ?case
    by (simp add: luinteger_loop.simps [of base conv line 0 0] lexeme_single conv_error_iff
        text_value_def conv_digit digit_not_error Let_def mult.commute)
next
  case (Suc hi)
  show ?case
  proof (cases "lo = Suc hi")
    case True
    with Suc.prems show ?thesis
      by (simp add: luinteger_loop.simps [of base conv line "Suc hi" "Suc hi"] lexeme_single
          conv_error_iff text_value_def conv_digit digit_not_error Let_def mult.commute)
  next
    case False
    with Suc.prems have lx: "lexeme line lo (Suc hi) = lexeme line lo hi @ [line ! Suc hi]"
      by (simp add: lexeme_snoc)
    with Suc.prems False show ?thesis
      using Suc.IH [of "num + conv (line ! Suc hi) * factor" "factor * base"]
      by (simp add: luinteger_loop.simps [of base conv line lo "Suc hi"] conv_error_iff lx
          text_value_snoc conv_digit digit_not_error Let_def algebra_simps)
  qed
qed

lemma loop_error:
  "lo \<le> hi \<Longrightarrow> hi < length line \<Longrightarrow> \<not> list_all is_dig (lexeme line lo hi) \<Longrightarrow>
   luinteger_loop base conv line lo hi num factor = Some None"
proof (induction hi arbitrary: num factor)
  case 0
  then show ?case
    by (simp add: luinteger_loop.simps [of base conv line 0 0] lexeme_single conv_error_iff)
next
  case (Suc hi)
  show ?case
  proof (cases "lo = Suc hi")
    case True
    with Suc.prems show ?thesis
      by (simp add: luinteger_loop.simps [of base conv line "Suc hi" "Suc hi"] lexeme_single
          conv_error_iff)
  next
    case False
    with Suc.prems have "lexeme line lo (Suc hi) = lexeme line lo hi @ [line ! Suc hi]"
      by (simp add: lexeme_snoc)
    with Suc.prems False Suc.IH [of "num + conv (line ! Suc hi) * factor" "factor * base"] show ?thesis
      by (auto simp: luinteger_loop.simps [of base conv line lo "Suc hi"] conv_error_iff Let_def)
  qed
qed

lemma value_bound: "list_all is_dig cs \<Longrightarrow> text_value (unat base) cs < unat base ^ length cs"
proof (induction cs rule: rev_induct)
  case Nil
  then show ?case by (simp add: text_value_def)
next
  case (snoc c cs)
  then have "text_value (unat base) cs + 1 \<le> unat base ^ length cs" "digit_value c < unat base"
    using digit_bound by auto
  then have "text_value (unat base) cs * unat base + digit_value c < unat base ^ length cs * unat base"
    using mult_le_mono1 [of "text_value (unat base) cs + 1" "unat base ^ length cs" "unat base"]
    by simp
  then show ?case by (simp add: text_value_snoc mult.commute)
qed

lemma set_luinteger_value:
  assumes "lo \<le> hi" and "hi < length line" and "list_all is_dig (lexeme line lo hi)"
  shows "set_luinteger t base conv line lo hi
    = Some (put_word (of_nat (text_value (unat base) (lexeme line lo hi))) (t\<lparr>tok_type := LUINTEGER\<rparr>))"
  using loop_value [OF assms] by (simp add: set_luinteger_def)

lemma set_luinteger_error:
  assumes "lo \<le> hi" and "hi < length line" and "\<not> list_all is_dig (lexeme line lo hi)"
  shows "set_luinteger t base conv line lo hi = Some (token_set_error t ERR_WRONG_NUM)"
  using loop_error [OF assms] by (simp add: set_luinteger_def)

end

lemma schar_literal_digits:
  "schar (CHR ''0'') = 48" "schar (CHR ''7'') = 55" "schar (CHR ''9'') = 57" "schar (CHR ''a'') = 97"
  "schar (CHR ''f'') = 102" "schar (CHR ''z'') = 122" "schar (CHR ''A'') = 65" "schar (CHR ''F'') = 70"
  "schar (CHR ''Z'') = 90" "schar (CHR ''_'') = 95"
  by (simp_all add: schar_def)

interpretation dec: digit_converter 10 dec_char2int "char_in (CHR ''0'') (CHR ''9'')"
  by unfold_locales
    (auto simp: dec_char2int_def digit_value_def char_in_def schar_literal_digits)

interpretation oct: digit_converter 8 oct_char2int "char_in (CHR ''0'') (CHR ''7'')"
  by unfold_locales
    (auto simp: oct_char2int_def digit_value_def char_in_def schar_literal_digits)

definition is_hex_digit :: "char \<Rightarrow> bool" where
  "is_hex_digit c \<longleftrightarrow>
     char_in (CHR ''0'') (CHR ''9'') c \<or> char_in (CHR ''a'') (CHR ''f'') c \<or> char_in (CHR ''A'') (CHR ''F'') c"

interpretation hex: digit_converter 16 hex_char2int is_hex_digit
  by unfold_locales
    (auto simp: hex_char2int_def is_hex_digit_def digit_value_def char_in_def schar_literal_digits)

end
