(* ===== verification/Lexer.thy ===== *)
theory Lexer
  imports Token
begin

text \<open>
  The lexical analyser of the shell (\<open>sh/lexer.c\<close>). The pointers \<open>begin\<close> and \<open>forward\<close> are indices
  into the line, the characters from the start of the line to the end of its buffer; a read behind
  the buffer is \<open>None\<close>. The uninitialised local variable \<open>token\<close> of the source is the parameter
  \<open>junk\<close>. The loops that move \<open>forward\<close> are bounded by the buffer, so they need no fuel.
\<close>

section \<open>State\<close>

record lexer =
  lx_line :: "char list"
  lx_begin :: nat
  lx_forward :: nat
  lx_eoi_reached :: bool
  lx_token :: token
  lx_token_available :: bool

datatype num_base = BASE_OCT | BASE_DEC | BASE_HEX

definition cur_char :: "lexer \<Rightarrow> char option" where
  "cur_char lx = (if lx_forward lx < length (lx_line lx) then Some (lx_line lx ! lx_forward lx) else None)"

definition flush_buffer :: "lexer \<Rightarrow> lexer" where
  "flush_buffer lx = lx\<lparr>lx_begin := lx_forward lx\<rparr>"

section \<open>Classes of characters\<close>

definition char_is_skippable :: "char \<Rightarrow> bool" where
  "char_is_skippable c \<longleftrightarrow> c = CHR '' ''"

definition char_is_alpha :: "char \<Rightarrow> bool" where
  "char_is_alpha c \<longleftrightarrow>
     char_in (CHR ''a'') (CHR ''z'') c \<or> char_in (CHR ''A'') (CHR ''Z'') c \<or> c = CHR ''_''"

definition char_is_digit :: "char \<Rightarrow> bool" where
  "char_is_digit c \<longleftrightarrow> char_in (CHR ''0'') (CHR ''9'') c"

definition char_is_oct :: "char \<Rightarrow> bool" where
  "char_is_oct c \<longleftrightarrow> char_in (CHR ''0'') (CHR ''7'') c"

definition char_is_hex :: "char \<Rightarrow> bool" where
  "char_is_hex c \<longleftrightarrow>
     char_is_digit c \<or> char_in (CHR ''a'') (CHR ''f'') c \<or> char_in (CHR ''A'') (CHR ''F'') c"

definition char_is_alphanum :: "char \<Rightarrow> bool" where
  "char_is_alphanum c \<longleftrightarrow> char_is_alpha c \<or> char_is_digit c"

definition is_valid16 :: "char \<Rightarrow> bool" where
  "is_valid16 c \<longleftrightarrow>
     char_in (CHR ''0'') (CHR ''9'') c \<or> char_in (CHR ''a'') (CHR ''f'') c \<or> char_in (CHR ''A'') (CHR ''F'') c"

section \<open>Moving through the line\<close>

text \<open>\<open>do { _move_forward(); } while (P(_cur_char()));\<close>\<close>

function advance_while :: "(char \<Rightarrow> bool) \<Rightarrow> char list \<Rightarrow> nat \<Rightarrow> nat option" where
  "advance_while P line i =
     (if Suc i < length line
      then (if P (line ! Suc i) then advance_while P line (Suc i) else Some (Suc i))
      else None)"
  by pat_completeness auto

termination
  by (relation "measure (\<lambda>(P, line, i). length line - i)") auto

declare advance_while.simps [simp del]

function scan_from :: "char list \<Rightarrow> nat \<Rightarrow> nat option" where
  "scan_from line i =
     (if i < length line
      then (if char_is_skippable (line ! i) then scan_from line (Suc i) else Some i)
      else None)"
  by pat_completeness auto

termination
  by (relation "measure (\<lambda>(line, i). length line - i)") auto

declare scan_from.simps [simp del]

definition scan :: "lexer \<Rightarrow> lexer option" where
  "scan lx = map_option (\<lambda>i. lx\<lparr>lx_forward := i\<rparr>) (scan_from (lx_line lx) (lx_forward lx))"

section \<open>Operations\<close>

text \<open>\<open>NULL\<close> is \<open>None\<close>; the previous state keeps its token.\<close>

definition lexer_init :: "char list option \<Rightarrow> lexer \<Rightarrow> int \<times> lexer" where
  "lexer_init line lx =
     (case line of
        None \<Rightarrow> (1, lx)
      | Some l \<Rightarrow>
          (0, lx\<lparr>lx_line := l, lx_begin := 0, lx_forward := 0, lx_token_available := False,
                 lx_eoi_reached := False\<rparr>))"

definition set_token :: "token \<Rightarrow> lexer \<Rightarrow> lexer" where
  "set_token t lx = lx\<lparr>lx_token_available := True, lx_token := t\<rparr>"

text \<open>Each \<open>_process\<close> function: the token it returns, and the state with \<open>forward\<close> moved.\<close>

definition process_eoi :: "token \<Rightarrow> lexer \<Rightarrow> (token \<times> lexer) option" where
  "process_eoi junk lx = Some (token_set_eoi junk, lx)"

definition process_identifier :: "token \<Rightarrow> lexer \<Rightarrow> (token \<times> lexer) option" where
  "process_identifier junk lx =
     (case advance_while char_is_alphanum (lx_line lx) (lx_forward lx) of
        None \<Rightarrow> None
      | Some f \<Rightarrow>
          map_option (\<lambda>t. (t, lx\<lparr>lx_forward := f\<rparr>))
            (token_set_identifier (token_init junk) (lx_line lx) (lx_begin lx) (f - 1)))"

definition process_luinteger :: "token \<Rightarrow> lexer \<Rightarrow> (token \<times> lexer) option" where
  "process_luinteger junk lx =
     (let line = lx_line lx; f0 = lx_forward lx
      in if \<not> f0 < length line then None
         else if line ! f0 = CHR ''0'' \<and> \<not> Suc f0 < length line then None
         else
           (let base = (if line ! f0 = CHR ''0''
                        then (if line ! Suc f0 = CHR ''x'' \<or> line ! Suc f0 = CHR ''X'' then BASE_HEX
                              else BASE_OCT)
                        else BASE_DEC);
                f1 = (if base = BASE_HEX then f0 + 2 else f0)
            in if base = BASE_HEX \<and> \<not> f1 < length line then None
               else if base = BASE_HEX \<and> \<not> char_is_hex (line ! f1)
               then Some (token_set_error junk ERR_WRONG_NUM, lx\<lparr>lx_forward := f1\<rparr>)
               else (case advance_while is_valid16 line f1 of
                       None \<Rightarrow> None
                     | Some f \<Rightarrow>
                         map_option (\<lambda>t. (t, lx\<lparr>lx_forward := f\<rparr>))
                           (case base of
                              BASE_OCT \<Rightarrow> token_set_luinteger8 junk line (lx_begin lx) (f - 1)
                            | BASE_DEC \<Rightarrow> token_set_luinteger10 junk line (lx_begin lx) (f - 1)
                            | BASE_HEX \<Rightarrow> token_set_luinteger16 junk line (lx_begin lx + 2) (f - 1)))))"

definition process_variable :: "token \<Rightarrow> lexer \<Rightarrow> (token \<times> lexer) option" where
  "process_variable junk lx =
     (case advance_while char_is_alphanum (lx_line lx) (lx_forward lx) of
        None \<Rightarrow> None
      | Some f \<Rightarrow>
          map_option (\<lambda>t. (t, lx\<lparr>lx_forward := f\<rparr>))
            (token_set_variable junk (lx_line lx) (lx_begin lx) (f - 1)))"

text \<open>Neither of the next two loops stops at the NUL that ends the line.\<close>

definition process_string :: "token \<Rightarrow> lexer \<Rightarrow> (token \<times> lexer) option" where
  "process_string junk lx =
     (case advance_while (\<lambda>c. c \<noteq> DELIMITER_STR) (lx_line lx) (lx_forward lx) of
        None \<Rightarrow> None
      | Some f \<Rightarrow>
          map_option (\<lambda>t. (t, lx\<lparr>lx_forward := Suc f\<rparr>))
            (token_set_lstring junk (lx_line lx) (lx_begin lx + 1) (Suc f - 2)))"

definition process_unknown :: "token \<Rightarrow> lexer \<Rightarrow> (token \<times> lexer) option" where
  "process_unknown junk lx =
     (case advance_while (\<lambda>c. c \<noteq> CHR '' '') (lx_line lx) (lx_forward lx) of
        None \<Rightarrow> None
      | Some f \<Rightarrow> Some (token_set_unknown junk, lx\<lparr>lx_forward := f\<rparr>))"

text \<open>The function that the switch of \<open>lexer_process\<close> selects for the current character.\<close>

definition select_process :: "char \<Rightarrow> token \<Rightarrow> lexer \<Rightarrow> (token \<times> lexer) option" where
  "select_process c =
     (if c = NUL then process_eoi
      else if c = SIGIL_STR_VAR \<or> c = SIGIL_INT_VAR \<or> c = SIGIL_BOOL_VAR then process_variable
      else if c = DELIMITER_STR then process_string
      else if char_is_alpha c then process_identifier
      else if char_is_digit c then process_luinteger
      else process_unknown)"

definition lexer_process :: "token \<Rightarrow> lexer \<Rightarrow> lexer option" where
  "lexer_process junk lx =
     (if lx_eoi_reached lx then Some lx
      else (case scan lx of
              None \<Rightarrow> None
            | Some lx1 \<Rightarrow>
                (let lx2 = flush_buffer lx1
                 in (case cur_char lx2 of
                       None \<Rightarrow> None
                     | Some c \<Rightarrow>
                         (case select_process c junk
                                 (if c = NUL then lx2\<lparr>lx_eoi_reached := True\<rparr> else lx2) of
                            None \<Rightarrow> None
                          | Some (t, lx3) \<Rightarrow> Some (set_token t lx3))))))"

definition lexer_has_token :: "lexer \<Rightarrow> bool" where
  "lexer_has_token lx \<longleftrightarrow> lx_token_available lx"

definition lexer_get_token :: "lexer \<Rightarrow> token \<times> lexer" where
  "lexer_get_token lx = (lx_token lx, lx\<lparr>lx_token_available := False\<rparr>)"

end
