(* ===== verification/Lexer_Spec.thy ===== *)
theory Lexer_Spec
  imports Lexer
begin

text \<open>
  What the lexical analyser accepts: the words of the shell language, how each is written, and the
  round trip that analysing a written word gives back the word. A number may be written in base 10,
  8 or 16.
\<close>

section \<open>Words and how they are written\<close>

datatype shell_word =
    W_ident "char list" | W_var "char list" | W_str "char list"
  | W_dec nat | W_oct nat | W_hex nat

fun render :: "shell_word \<Rightarrow> char list" where
  "render (W_ident s) = s"
| "render (W_var s) = s"
| "render (W_str s) = DELIMITER_STR # s @ [DELIMITER_STR]"
| "render (W_dec n) = numeral_text True 10 n"
| "render (W_oct n) = CHR ''0'' # numeral_text True 8 n"
| "render (W_hex n) = CHR ''0'' # CHR ''x'' # numeral_text True 16 n"

definition is_sigil :: "char \<Rightarrow> bool" where
  "is_sigil c \<longleftrightarrow> c = SIGIL_STR_VAR \<or> c = SIGIL_INT_VAR \<or> c = SIGIL_BOOL_VAR"

fun word_ok :: "shell_word \<Rightarrow> bool" where
  "word_ok (W_ident s) \<longleftrightarrow>
     s \<noteq> [] \<and> char_is_alpha (hd s) \<and> list_all char_is_alphanum (tl s) \<and> length s \<le> TOKEN_STR_LEN_MAX"
| "word_ok (W_var s) \<longleftrightarrow>
     s \<noteq> [] \<and> is_sigil (hd s) \<and> list_all char_is_alphanum (tl s) \<and> length s \<le> TOKEN_STR_LEN_MAX"
| "word_ok (W_str s) \<longleftrightarrow>
     list_all (\<lambda>c. c \<noteq> NUL \<and> c \<noteq> DELIMITER_STR) s \<and> length s \<le> TOKEN_STR_LEN_MAX"
| "word_ok (W_dec n) \<longleftrightarrow> 0 < n \<and> n < 10 ^ 9"
| "word_ok (W_oct n) \<longleftrightarrow> n < 8 ^ 10"
| "word_ok (W_hex n) \<longleftrightarrow> n < 16 ^ 8"

fun token_denotes :: "token \<Rightarrow> shell_word \<Rightarrow> bool" where
  "token_denotes t (W_ident s) \<longleftrightarrow> tok_type t = IDENTIFIER \<and> c_string (token_str t) s"
| "token_denotes t (W_var s) \<longleftrightarrow> tok_type t = VARIABLE \<and> c_string (token_str t) s"
| "token_denotes t (W_str s) \<longleftrightarrow> tok_type t = LSTRING \<and> c_string (token_str t) s"
| "token_denotes t (W_dec n) \<longleftrightarrow> tok_type t = LUINTEGER \<and> unat (token_integer t) = n"
| "token_denotes t (W_oct n) \<longleftrightarrow> tok_type t = LUINTEGER \<and> unat (token_integer t) = n"
| "token_denotes t (W_hex n) \<longleftrightarrow> tok_type t = LUINTEGER \<and> unat (token_integer t) = n"

section \<open>Moving through the line\<close>

lemma drop_Cons_nth: "drop i line = c # cs \<Longrightarrow> i < length line \<and> line ! i = c \<and> drop (Suc i) line = cs"
  by (metis Cons_nth_drop_Suc drop_all list.distinct(1) list.inject not_le)

lemma advance_while_run:
  "drop (Suc i) line = xs @ y # ys \<Longrightarrow> list_all P xs \<Longrightarrow> \<not> P y \<Longrightarrow>
   advance_while P line i = Some (Suc i + length xs)"
proof (induction xs arbitrary: i)
  case Nil
  then show ?case
    using drop_Cons_nth [of "Suc i" line y ys] by (simp add: advance_while.simps [of P line i])
next
  case (Cons x xs)
  then show ?case
    using drop_Cons_nth [of "Suc i" line x "xs @ y # ys"] Cons.IH [of "Suc i"]
    by (simp add: advance_while.simps [of P line i])
qed

lemma scan_from_run:
  "drop i line = replicate k (CHR '' '') @ y # ys \<Longrightarrow> y \<noteq> CHR '' '' \<Longrightarrow>
   scan_from line i = Some (i + k)"
proof (induction k arbitrary: i)
  case 0
  then show ?case
    using drop_Cons_nth [of i line y ys] by (simp add: scan_from.simps [of line i] char_is_skippable_def)
next
  case (Suc k)
  then show ?case
    using drop_Cons_nth [of i line "CHR '' ''" "replicate k (CHR '' '') @ y # ys"] Suc.IH [of "Suc i"]
    by (simp add: scan_from.simps [of line i] char_is_skippable_def)
qed

lemma lexeme_prefix:
  assumes "drop b line = w @ r" and "w \<noteq> []"
  shows "lexeme line b (b + length w - 1) = w" and "b + length w - 1 < length line"
    and "lexeme_len b (b + length w - 1) = length w"
proof -
  have "length line - b = length w + length r" using arg_cong [OF assms(1), of length] by simp
  moreover have "0 < length w" using assms(2) by simp
  ultimately show "b + length w - 1 < length line" and "lexeme_len b (b + length w - 1) = length w"
    by (simp_all add: lexeme_len_def del: length_greater_0_conv)
  then show "lexeme line b (b + length w - 1) = w" using assms by (simp add: lexeme_def)
qed

section \<open>Classes of the first character\<close>

lemma alpha_not_special:
  "char_is_alpha c \<Longrightarrow> c \<noteq> NUL \<and> \<not> is_sigil c \<and> c \<noteq> DELIMITER_STR \<and> c \<noteq> CHR '' ''"
  by (auto simp: char_is_alpha_def char_in_def schar_def is_sigil_def SIGIL_STR_VAR_def
      SIGIL_INT_VAR_def SIGIL_BOOL_VAR_def DELIMITER_STR_def)

lemma digit_not_special:
  "char_is_digit c \<Longrightarrow>
   c \<noteq> NUL \<and> \<not> is_sigil c \<and> c \<noteq> DELIMITER_STR \<and> c \<noteq> CHR '' '' \<and> \<not> char_is_alpha c"
  by (auto simp: char_is_digit_def char_is_alpha_def char_in_def schar_literal_digits is_sigil_def
      SIGIL_STR_VAR_def SIGIL_INT_VAR_def SIGIL_BOOL_VAR_def DELIMITER_STR_def)
    (simp_all add: schar_def)

lemma end_not_word: "c = CHR '' '' \<or> c = NUL \<Longrightarrow> \<not> char_is_alphanum c \<and> \<not> is_valid16 c"
  by (auto simp: char_is_alphanum_def char_is_alpha_def char_is_digit_def is_valid16_def char_in_def
      schar_literal_digits) (simp_all add: schar_def)

lemma sigil_not_special: "is_sigil c \<Longrightarrow> c \<noteq> NUL \<and> c \<noteq> CHR '' ''"
  by (auto simp: is_sigil_def SIGIL_STR_VAR_def SIGIL_INT_VAR_def SIGIL_BOOL_VAR_def)

lemma alphanum_not_NUL: "char_is_alphanum c \<Longrightarrow> c \<noteq> NUL"
  using end_not_word by blast

section \<open>Numerals\<close>

lemma numeral_text_length_bound: "n < b ^ k \<Longrightarrow> 0 < k \<Longrightarrow> length (numeral_text small b n) \<le> k"
proof (induction k arbitrary: n)
  case (Suc k)
  show ?case
  proof (cases "n < b \<or> b < 2")
    case True
    then show ?thesis by (simp add: numeral_text.simps [of small b n])
  next
    case False
    with Suc.prems have "n div b < b ^ k" by (simp add: less_mult_imp_div_less mult.commute)
    moreover have "0 < k" using False Suc.prems by (cases k) auto
    ultimately have "length (numeral_text small b (n div b)) \<le> k" using Suc.IH by simp
    with False show ?thesis by (simp add: numeral_text.simps [of small b n])
  qed
qed simp

lemma numeral_text_digits:
  assumes "2 \<le> b" and "\<And>d. d < b \<Longrightarrow> P (digit_chars small ! d)"
  shows "list_all P (numeral_text small b n)"
proof (induction n rule: less_induct)
  case (less n)
  show ?case
    using assms less.IH [of "n div b"] by (simp add: numeral_text.simps [of small b n])
qed

lemma numeral_text_hd:
  assumes "2 \<le> b"
  shows "0 < n \<Longrightarrow> \<exists>d cs. 0 < d \<and> d < b \<and> numeral_text small b n = digit_chars small ! d # cs"
proof (induction n rule: less_induct)
  case (less n)
  show ?case
  proof (cases "n < b")
    case True
    with less.prems assms show ?thesis by (auto simp: numeral_text.simps [of small b n])
  next
    case False
    then have "0 < n div b" using assms by (simp add: div_greater_zero_iff)
    from less.IH [OF _ this] assms less.prems False show ?thesis
      by (auto simp: numeral_text.simps [of small b n])
  qed
qed

section \<open>One step of the analyser\<close>

lemma lexer_process_step:
  assumes line: "drop (lx_forward lx) (lx_line lx) = replicate k (CHR '' '') @ y # ys"
    and y: "y \<noteq> CHR '' ''" and run: "\<not> lx_eoi_reached lx"
  shows "lexer_process junk lx =
    (let b = lx_forward lx + k
     in (case select_process y junk
           ((if y = NUL then lx\<lparr>lx_eoi_reached := True\<rparr> else lx)\<lparr>lx_begin := b, lx_forward := b\<rparr>) of
           None \<Rightarrow> None
         | Some (t, lx3) \<Rightarrow> Some (set_token t lx3)))"
proof -
  let ?b = "lx_forward lx + k"
  have "drop ?b (lx_line lx) = drop k (drop (lx_forward lx) (lx_line lx))" by (simp add: add.commute)
  also have "\<dots> = y # ys" using line by simp
  finally have d: "drop ?b (lx_line lx) = y # ys" .
  from drop_Cons_nth [OF d] have cur: "cur_char (lx\<lparr>lx_forward := ?b, lx_begin := ?b\<rparr>) = Some y" by (simp add: cur_char_def)
  have sc: "scan lx = Some (lx\<lparr>lx_forward := ?b\<rparr>)" by (simp add: scan_def scan_from_run [OF line y])
  have fl: "flush_buffer (lx\<lparr>lx_forward := ?b\<rparr>) = lx\<lparr>lx_forward := ?b, lx_begin := ?b\<rparr>"
    by (simp add: flush_buffer_def)
  have st: "(if y = NUL then lx\<lparr>lx_forward := ?b, lx_begin := ?b\<rparr>\<lparr>lx_eoi_reached := True\<rparr>
             else lx\<lparr>lx_forward := ?b, lx_begin := ?b\<rparr>)
      = (if y = NUL then lx\<lparr>lx_eoi_reached := True\<rparr> else lx)\<lparr>lx_begin := ?b, lx_forward := ?b\<rparr>"
    by (cases "y = NUL") simp_all
  show ?thesis
    unfolding lexer_process_def sc option.case Let_def fl cur st using run by (simp only: if_False)
qed

text \<open>The state in which a \<open>_process\<close> function starts on a word, and what it has to deliver.\<close>

definition at_word :: "lexer \<Rightarrow> char list \<Rightarrow> bool" where
  "at_word lx w \<longleftrightarrow> lx_begin lx = lx_forward lx \<and>
     (\<exists>c rest. drop (lx_forward lx) (lx_line lx) = w @ c # rest \<and> (c = CHR '' '' \<or> c = NUL))"

definition delivers :: "(token \<times> lexer) option \<Rightarrow> lexer \<Rightarrow> shell_word \<Rightarrow> bool" where
  "delivers r lx w \<longleftrightarrow>
     (\<exists>t. r = Some (t, lx\<lparr>lx_forward := lx_forward lx + length (render w)\<rparr>) \<and> token_denotes t w \<and> token_ok t)"

lemma at_word_lexeme:
  assumes "at_word lx w" and "w \<noteq> []"
  shows "lexeme (lx_line lx) (lx_begin lx) (lx_forward lx + length w - 1) = w"
    and "lx_forward lx + length w - 1 < length (lx_line lx)"
    and "lexeme_len (lx_begin lx) (lx_forward lx + length w - 1) = length w"
  using assms lexeme_prefix [of "lx_forward lx" "lx_line lx" w] by (auto simp: at_word_def)

lemma at_word_advance:
  assumes "at_word lx (v # w)" and "list_all P w" and "\<not> P (CHR '' '')" and "\<not> P NUL"
  shows "advance_while P (lx_line lx) (lx_forward lx) = Some (lx_forward lx + length (v # w))"
proof -
  from assms(1) obtain c rest where
      d: "drop (lx_forward lx) (lx_line lx) = v # w @ c # rest" and c: "c = CHR '' '' \<or> c = NUL"
    by (auto simp: at_word_def)
  from drop_Cons_nth [OF d] have "drop (Suc (lx_forward lx)) (lx_line lx) = w @ c # rest" by simp
  from advance_while_run [OF this, of P] assms(2,3,4) c show ?thesis by auto
qed

lemma alphanum_no_NUL: "list_all char_is_alphanum s \<Longrightarrow> NUL \<notin> set s"
  using alphanum_not_NUL by (auto simp: list_all_iff)

lemma at_word_strlex:
  assumes "at_word lx s" and "s \<noteq> []" and "NUL \<notin> set s" and "length s \<le> TOKEN_STR_LEN_MAX"
    and "token_ok junk"
  shows "\<exists>t. set_strlex junk ty (lx_line lx) (lx_begin lx) (lx_forward lx + length s - 1) = Some t
             \<and> tok_type t = ty \<and> token_ok t \<and> c_string (token_str t) s"
proof -
  note lex = at_word_lexeme [OF assms(1,2)]
  have first: "lx_begin lx \<le> lx_forward lx + length s - 1 + 1"
    using assms(1,2) by (simp add: at_word_def)
  from set_strlex_ok [OF assms(5) lex(2) _ _ first, of ty, unfolded lex] assms(3,4) show ?thesis
    by blast
qed

lemma process_identifier_word:
  assumes "at_word lx s" and "word_ok (W_ident s)" and "token_ok junk"
  shows "delivers (process_identifier junk lx) lx (W_ident s)"
proof -
  from assms(2) obtain a as where s: "s = a # as" by (cases s) auto
  have "NUL \<notin> set s" using assms(2) alpha_not_special [of a] alphanum_no_NUL [of as] by (auto simp: s)
  with at_word_strlex [OF assms(1), of "token_init junk" IDENTIFIER] assms(2,3) s
  obtain t where t: "set_strlex (token_init junk) IDENTIFIER (lx_line lx) (lx_begin lx)
      (lx_forward lx + length s - 1) = Some t" "tok_type t = IDENTIFIER" "token_ok t" "c_string (token_str t) s"
    by (auto simp: token_init_def)
  have "advance_while char_is_alphanum (lx_line lx) (lx_forward lx) = Some (lx_forward lx + length s)"
    using at_word_advance [of lx a as char_is_alphanum] assms(1,2) end_not_word s by auto
  with t show ?thesis
    by (simp add: process_identifier_def delivers_def token_set_identifier_def)
qed

lemma process_variable_word:
  assumes "at_word lx s" and "word_ok (W_var s)" and "token_ok junk"
  shows "delivers (process_variable junk lx) lx (W_var s)"
proof -
  from assms(2) obtain a as where s: "s = a # as" by (cases s) auto
  have "NUL \<notin> set s" using assms(2) sigil_not_special [of a] alphanum_no_NUL [of as] by (auto simp: s)
  with at_word_strlex [OF assms(1), of junk VARIABLE] assms(2,3) s
  obtain t where t: "set_strlex junk VARIABLE (lx_line lx) (lx_begin lx)
      (lx_forward lx + length s - 1) = Some t" "tok_type t = VARIABLE" "token_ok t" "c_string (token_str t) s"
    by auto
  have "advance_while char_is_alphanum (lx_line lx) (lx_forward lx) = Some (lx_forward lx + length s)"
    using at_word_advance [of lx a as char_is_alphanum] assms(1,2) end_not_word s by auto
  with t show ?thesis
    by (simp add: process_variable_def delivers_def token_set_variable_def)
qed

lemma process_string_word:
  assumes "at_word lx (render (W_str s))" and "word_ok (W_str s)" and "token_ok junk"
  shows "delivers (process_string junk lx) lx (W_str s)"
proof -
  let ?f = "lx_forward lx" and ?l = "lx_line lx"
  from assms(1) obtain rest where d: "drop ?f ?l = DELIMITER_STR # s @ DELIMITER_STR # rest"
      and b: "lx_begin lx = ?f"
    by (auto simp: at_word_def)
  from drop_Cons_nth [OF d] have d1: "drop (Suc ?f) ?l = s @ DELIMITER_STR # rest" by simp
  have adv: "advance_while (\<lambda>c. c \<noteq> DELIMITER_STR) ?l ?f = Some (Suc ?f + length s)"
    using advance_while_run [OF d1, of "\<lambda>c. c \<noteq> DELIMITER_STR"] assms(2) by (auto simp: list_all_iff)
  have "length ?l - Suc ?f = length s + Suc (length rest)" using arg_cong [OF d1, of length] by simp
  then have bound: "?f + length s < length ?l" by simp
  have lex: "lexeme ?l (Suc ?f) (?f + length s) = s" "lexeme_len (Suc ?f) (?f + length s) = length s"
    using d1 by (simp_all add: lexeme_def lexeme_len_def)
  have "NUL \<notin> set s" "length s \<le> TOKEN_STR_LEN_MAX" using assms(2) by (auto simp: list_all_iff)
  with set_strlex_ok [OF assms(3) bound, of "Suc ?f" LSTRING] lex
  obtain t where "set_strlex junk LSTRING ?l (Suc ?f) (?f + length s) = Some t" "tok_type t = LSTRING"
      "token_ok t" "c_string (token_str t) s" by auto
  with adv b show ?thesis
    by (simp add: process_string_def delivers_def token_set_lstring_def)
qed

section \<open>Numbers\<close>

lemma digit_chars_classes:
  "d < 10 \<Longrightarrow> char_in (CHR ''0'') (CHR ''9'') (digit_chars True ! d)"
  "d < 8 \<Longrightarrow> char_in (CHR ''0'') (CHR ''7'') (digit_chars True ! d)"
  "d < 16 \<Longrightarrow> is_hex_digit (digit_chars True ! d)"
  "d < 10 \<Longrightarrow> 0 < d \<Longrightarrow> digit_chars True ! d \<noteq> CHR ''0''"
proof -
  have "list_all (\<lambda>d. char_in (CHR ''0'') (CHR ''9'') (digit_chars True ! d)) [0..<10]" by code_simp
  then show "d < 10 \<Longrightarrow> char_in (CHR ''0'') (CHR ''9'') (digit_chars True ! d)"
    by (simp add: list_all_iff)
  have "list_all (\<lambda>d. char_in (CHR ''0'') (CHR ''7'') (digit_chars True ! d)) [0..<8]" by code_simp
  then show "d < 8 \<Longrightarrow> char_in (CHR ''0'') (CHR ''7'') (digit_chars True ! d)"
    by (simp add: list_all_iff)
  have "list_all (\<lambda>d. is_hex_digit (digit_chars True ! d)) [0..<16]" by code_simp
  then show "d < 16 \<Longrightarrow> is_hex_digit (digit_chars True ! d)"
    by (simp add: list_all_iff)
  have "list_all (\<lambda>d. digit_chars True ! d \<noteq> CHR ''0'') [1..<10]" by code_simp
  then show "d < 10 \<Longrightarrow> 0 < d \<Longrightarrow> digit_chars True ! d \<noteq> CHR ''0''"
    by (simp add: list_all_iff)
qed

lemma digit_subclasses:
  "char_in (CHR ''0'') (CHR ''9'') c \<Longrightarrow> is_valid16 c"
  "char_in (CHR ''0'') (CHR ''7'') c \<Longrightarrow> char_in (CHR ''0'') (CHR ''9'') c \<and> c \<noteq> CHR ''x'' \<and> c \<noteq> CHR ''X''"
  "is_valid16 = is_hex_digit" "char_is_hex = is_hex_digit"
  by (auto simp: fun_eq_iff is_valid16_def is_hex_digit_def char_is_hex_def char_is_digit_def)
    (auto simp: char_in_def schar_def)

lemma numeral_lists:
  "list_all (char_in (CHR ''0'') (CHR ''9'')) (numeral_text True 10 n)"
  "list_all (char_in (CHR ''0'') (CHR ''7'')) (numeral_text True 8 n)"
  "list_all is_hex_digit (numeral_text True 16 n)"
  by (simp_all add: numeral_text_digits digit_chars_classes)

lemma list_all_weaken: "list_all P xs \<Longrightarrow> (\<And>x. P x \<Longrightarrow> Q x) \<Longrightarrow> list_all Q xs"
  by (simp add: list_all_iff)

lemma number_token:
  assumes "token_ok junk" and "n < 4294967296"
  shows "token_denotes (put_word (of_nat n) (junk\<lparr>tok_type := LUINTEGER\<rparr>)) (W_dec n)
    \<and> token_ok (put_word (of_nat n) (junk\<lparr>tok_type := LUINTEGER\<rparr>))"
  using assms by (simp add: token_integer_put_word token_ok_put_word unat_of_nat_u32)

lemma at_word_first: "at_word lx (v # w) \<Longrightarrow> lx_forward lx < length (lx_line lx) \<and> lx_line lx ! lx_forward lx = v"
  by (auto simp: at_word_def dest: drop_Cons_nth)

lemma at_word_second:
  assumes "at_word lx (v # u # w)"
  shows "Suc (lx_forward lx) < length (lx_line lx) \<and> lx_line lx ! Suc (lx_forward lx) = u"
proof -
  from assms obtain r where "drop (lx_forward lx) (lx_line lx) = v # u # r" by (auto simp: at_word_def)
  from drop_Cons_nth [OF conjunct2 [OF conjunct2 [OF drop_Cons_nth [OF this]]]] show ?thesis by simp
qed

lemma process_dec_word:
  assumes at: "at_word lx (render (W_dec n))" and n: "word_ok (W_dec n)" and junk: "token_ok junk"
  shows "delivers (process_luinteger junk lx) lx (W_dec n)"
proof -
  let ?w = "numeral_text True 10 n" and ?l = "lx_line lx" and ?f = "lx_forward lx"
  obtain d ds where d: "0 < d" "d < 10" "?w = digit_chars True ! d # ds"
    using numeral_text_hd [of 10 n True] n by auto
  note at' = at [unfolded render.simps]
  have first: "?f < length ?l" "?l ! ?f \<noteq> CHR ''0''"
    using at_word_first [OF at' [unfolded d(3)]] digit_chars_classes(4) d by auto
  have all: "list_all is_valid16 ?w"
    using list_all_weaken [OF numeral_lists(1) digit_subclasses(1)] .
  then have adv: "advance_while is_valid16 ?l ?f = Some (?f + length ?w)"
    using at_word_advance [OF at' [unfolded d(3)], of is_valid16] end_not_word d(3) by auto
  note lex = at_word_lexeme [OF at']
  have ne: "?w \<noteq> []" using d(3) by simp
  have len: "length ?w \<le> 9" using numeral_text_length_bound [of n 10 9] n by simp
  have lo: "lx_begin lx \<le> ?f + length ?w - 1" using at' d(3) by (simp add: at_word_def)
  have "token_set_luinteger10 junk ?l (lx_begin lx) (?f + length ?w - 1)
        = Some (put_word (of_nat n) (junk\<lparr>tok_type := LUINTEGER\<rparr>))"
    using dec.set_luinteger_value [OF lo lex(2) [OF ne], unfolded lex(1) [OF ne], OF numeral_lists(1)]
      len lex(3) [OF ne] numeral_text_value [of 10 True n]
    by (simp add: token_set_luinteger10_def)
  with adv first number_token [OF junk, of n] n show ?thesis
    by (simp add: process_luinteger_def delivers_def Let_def)
qed

lemma process_oct_word:
  assumes at: "at_word lx (render (W_oct n))" and n: "word_ok (W_oct n)" and junk: "token_ok junk"
  shows "delivers (process_luinteger junk lx) lx (W_oct n)"
proof -
  let ?ds = "numeral_text True 8 n"
  let ?w = "CHR ''0'' # ?ds" and ?l = "lx_line lx" and ?f = "lx_forward lx"
  obtain d ds where d: "?ds = d # ds" using numeral_text_length [of True 8 n] by (cases ?ds) auto
  note at' = at [unfolded render.simps]
  have oct: "list_all (char_in (CHR ''0'') (CHR ''7'')) ?w"
    using numeral_lists(2) by (simp add: char_in_def schar_def)
  have first: "?f < length ?l" "?l ! ?f = CHR ''0''" "Suc ?f < length ?l" "?l ! Suc ?f = d"
    using at_word_first [OF at'] at_word_second [OF at' [unfolded d]] by auto
  have notx: "d \<noteq> CHR ''x'' \<and> d \<noteq> CHR ''X''" using oct d digit_subclasses(2) by auto
  have "list_all is_valid16 ?ds"
    using list_all_weaken [OF numeral_lists(2)] digit_subclasses(1,2) by blast
  then have adv: "advance_while is_valid16 ?l ?f = Some (?f + length ?w)"
    using at_word_advance [OF at', of is_valid16] end_not_word by auto
  note lex = at_word_lexeme [OF at' list.distinct(2)]
  have len: "length ?w \<le> 11" using numeral_text_length_bound [of n 8 10] n by simp
  have lo: "lx_begin lx \<le> ?f + length ?w - 1" using at' by (auto simp: at_word_def)
  have val: "text_value 8 ?w = n"
    using numeral_text_value [of 8 True n] by (simp add: text_value_def digit_value_def char_in_def schar_def)
  have "token_set_luinteger8 junk ?l (lx_begin lx) (?f + length ?w - 1)
        = Some (put_word (of_nat n) (junk\<lparr>tok_type := LUINTEGER\<rparr>))"
    using oct.set_luinteger_value [OF lo lex(2), unfolded lex(1), OF oct] len lex(3) val
    by (simp add: token_set_luinteger8_def)
  with adv first notx number_token [OF junk, of n] n show ?thesis
    by (simp add: process_luinteger_def delivers_def Let_def)
qed

lemma process_hex_word:
  assumes at: "at_word lx (render (W_hex n))" and n: "word_ok (W_hex n)" and junk: "token_ok junk"
  shows "delivers (process_luinteger junk lx) lx (W_hex n)"
proof -
  let ?ds = "numeral_text True 16 n" and ?l = "lx_line lx" and ?f = "lx_forward lx"
  obtain d ds where d: "?ds = d # ds" using numeral_text_length [of True 16 n] by (cases ?ds) auto
  note at' = at [unfolded render.simps]
  from at' obtain c rest where l: "drop ?f ?l = CHR ''0'' # CHR ''x'' # ?ds @ c # rest"
      and c: "c = CHR '' '' \<or> c = NUL" and b: "lx_begin lx = ?f" by (auto simp: at_word_def)
  have first: "?f < length ?l" "?l ! ?f = CHR ''0''" "Suc ?f < length ?l" "?l ! Suc ?f = CHR ''x''"
    using at_word_first [OF at'] at_word_second [OF at'] by auto
  have l2: "drop (?f + 2) ?l = ?ds @ c # rest" using l drop_Cons_nth by (metis add_2_eq_Suc')
  let ?lx2 = "lx\<lparr>lx_begin := ?f + 2, lx_forward := ?f + 2\<rparr>"
  have at2: "at_word ?lx2 ?ds" using l2 c by (auto simp: at_word_def)
  note lex = at_word_lexeme [OF at2, unfolded lexer.simps]
  have ne: "?ds \<noteq> []" using d by simp
  have third: "?f + 2 < length ?l" "?l ! (?f + 2) = d"
    using at_word_first [OF at2 [unfolded d]] by simp_all
  have dig: "is_hex_digit d" using numeral_lists(3) [of n] d by simp
  have adv: "advance_while is_valid16 ?l (?f + 2) = Some (?f + 2 + length ?ds)"
    using at_word_advance [OF at2 [unfolded d], of is_valid16] numeral_lists(3) [of n] end_not_word
    by (simp add: d digit_subclasses(3))
  have len: "length ?ds \<le> 8" using numeral_text_length_bound [of n 16 8] n by simp
  have lo: "?f + 2 \<le> ?f + 2 + length ?ds - 1" using d by simp
  have "token_set_luinteger16 junk ?l (?f + 2) (?f + 2 + length ?ds - 1)
        = Some (put_word (of_nat n) (junk\<lparr>tok_type := LUINTEGER\<rparr>))"
    using hex.set_luinteger_value [OF lo] lex(1,2,3) [OF ne] numeral_lists(3) [of n]
      len numeral_text_value [of 16 True n]
    by (simp add: token_set_luinteger16_def)
  with adv first third dig b number_token [OF junk, of n] n show ?thesis
    by (simp add: process_luinteger_def delivers_def Let_def digit_subclasses)
qed

section \<open>A word of the language\<close>

fun word_process :: "shell_word \<Rightarrow> token \<Rightarrow> lexer \<Rightarrow> (token \<times> lexer) option" where
  "word_process (W_ident s) = process_identifier"
| "word_process (W_var s) = process_variable"
| "word_process (W_str s) = process_string"
| "word_process (W_dec n) = process_luinteger"
| "word_process (W_oct n) = process_luinteger"
| "word_process (W_hex n) = process_luinteger"

lemma word_process_delivers:
  "at_word lx (render w) \<Longrightarrow> word_ok w \<Longrightarrow> token_ok junk \<Longrightarrow> delivers (word_process w junk lx) lx w"
  using process_identifier_word process_variable_word process_string_word process_dec_word
    process_oct_word process_hex_word
  by (cases w) (simp_all del: word_ok.simps)

lemma select_process_digit: "char_is_digit c \<Longrightarrow> select_process c = process_luinteger"
  using digit_not_special [of c] by (simp add: select_process_def is_sigil_def)

lemma render_first:
  assumes "word_ok w"
  shows "\<exists>y ys. render w = y # ys \<and> y \<noteq> CHR '' '' \<and> y \<noteq> NUL \<and> select_process y = word_process w"
proof (cases w)
  case (W_ident s)
  then show ?thesis
    using assms alpha_not_special [of "hd s"] by (cases s) (auto simp: select_process_def is_sigil_def)
next
  case (W_var s)
  then show ?thesis
    using assms sigil_not_special [of "hd s"] by (cases s) (auto simp: select_process_def is_sigil_def)
next
  case (W_str s)
  then show ?thesis
    by (auto simp: select_process_def DELIMITER_STR_def SIGIL_STR_VAR_def SIGIL_INT_VAR_def SIGIL_BOOL_VAR_def)
next
  case (W_dec n)
  then obtain d ds where "d < 10" "numeral_text True 10 n = digit_chars True ! d # ds"
    using numeral_text_hd [of 10 n True] assms by auto
  with W_dec show ?thesis
    using digit_chars_classes(1) [of d] digit_not_special [of "digit_chars True ! d"]
      select_process_digit [of "digit_chars True ! d"]
    by (simp add: char_is_digit_def)
next
  case (W_oct n)
  then show ?thesis
    using select_process_digit [of "CHR ''0''"] by (simp add: char_is_digit_def char_in_def schar_def)
next
  case (W_hex n)
  then show ?thesis
    using select_process_digit [of "CHR ''0''"] by (simp add: char_is_digit_def char_in_def schar_def)
qed

text \<open>One call of the analyser on blanks, a word and the blank or NUL behind it.\<close>

lemma lexer_process_word:
  assumes line: "drop (lx_forward lx) (lx_line lx) = replicate k (CHR '' '') @ render w @ c # rest"
    and c: "c = CHR '' '' \<or> c = NUL" and run: "\<not> lx_eoi_reached lx"
    and w: "word_ok w" and junk: "token_ok junk"
  shows "\<exists>t. lexer_process junk lx
      = Some (lx\<lparr>lx_begin := lx_forward lx + k, lx_forward := lx_forward lx + k + length (render w),
                lx_token := t, lx_token_available := True\<rparr>)
    \<and> token_denotes t w \<and> token_ok t"
proof -
  let ?b = "lx_forward lx + k"
  let ?lx = "lx\<lparr>lx_begin := ?b, lx_forward := ?b\<rparr>"
  from render_first [OF w] obtain y ys where y: "render w = y # ys" "y \<noteq> CHR '' ''" "y \<noteq> NUL"
      "select_process y = word_process w" by blast
  have "drop ?b (lx_line lx) = drop k (drop (lx_forward lx) (lx_line lx))" by (simp add: add.commute)
  also have "\<dots> = render w @ c # rest" using line by simp
  finally have "at_word ?lx (render w)" using c by (auto simp: at_word_def)
  from word_process_delivers [OF this w junk] obtain t where
    t: "word_process w junk ?lx = Some (t, ?lx\<lparr>lx_forward := ?b + length (render w)\<rparr>)"
      "token_denotes t w" "token_ok t" by (auto simp: delivers_def)
  have "drop (lx_forward lx) (lx_line lx) = replicate k (CHR '' '') @ y # (ys @ c # rest)"
    using line y(1) by simp
  from lexer_process_step [OF this y(2) run, of junk] y(3,4) t
  show ?thesis by (intro exI [of _ t]) (simp add: set_token_def Let_def)
qed

lemma lexer_process_end:
  assumes line: "drop (lx_forward lx) (lx_line lx) = replicate k (CHR '' '') @ NUL # rest"
    and run: "\<not> lx_eoi_reached lx"
  shows "lexer_process junk lx
      = Some (lx\<lparr>lx_begin := lx_forward lx + k, lx_forward := lx_forward lx + k, lx_eoi_reached := True,
                lx_token := token_set_eoi junk, lx_token_available := True\<rparr>)"
  using lexer_process_step [OF line _ run, of junk]
  by (simp add: set_token_def Let_def select_process_def process_eoi_def)

text \<open>A character that begins no word, in a line without a blank behind it: the analyser leaves the
  buffer.\<close>

lemma advance_while_none:
  "i < length line \<Longrightarrow> list_all P (drop (Suc i) line) \<Longrightarrow> advance_while P line i = None"
proof (induction P line i rule: advance_while.induct)
  case (1 P line i)
  show ?case
  proof (cases "Suc i < length line")
    case True
    with 1 show ?thesis
      by (simp add: advance_while.simps [of P line i] Cons_nth_drop_Suc [symmetric])
  next
    case False
    then show ?thesis by (simp add: advance_while.simps [of P line i])
  qed
qed

section \<open>Properties\<close>

text \<open>C5. The analyser reads back every word of the shell language as it is written: from any position
  of the line, over any number of blanks, an identifier, a variable with its sigil, a quoted string of
  at most 15 characters, or a number in decimal (below $10^9$), octal (below $8^{10}$) or hexadecimal
  (below $2^{32}$) becomes the token of that word with its exact value, and \<open>forward\<close> stops behind
  the word.\<close>

theorem lexer_roundtrip:
  assumes "drop (lx_forward lx) (lx_line lx) = replicate k (CHR '' '') @ render w @ c # rest"
    and "c = CHR '' '' \<or> c = NUL" and "\<not> lx_eoi_reached lx" and "word_ok w" and "token_ok junk"
  shows "\<exists>lx'. lexer_process junk lx = Some lx' \<and> lexer_has_token lx'
    \<and> token_denotes (fst (lexer_get_token lx')) w
    \<and> drop (lx_forward lx') (lx_line lx') = c # rest \<and> \<not> lx_eoi_reached lx'"
proof -
  from lexer_process_word [OF assms] obtain t where t: "lexer_process junk lx
      = Some (lx\<lparr>lx_begin := lx_forward lx + k, lx_forward := lx_forward lx + k + length (render w),
                lx_token := t, lx_token_available := True\<rparr>)" "token_denotes t w" by blast
  have "drop (lx_forward lx + k + length (render w)) (lx_line lx)
        = drop (k + length (render w)) (drop (lx_forward lx) (lx_line lx))" by (simp add: ac_simps)
  also have "\<dots> = c # rest" using assms(1) by simp
  finally show ?thesis using t assms(3) by (simp add: lexer_has_token_def lexer_get_token_def)
qed

definition blank_token :: token where
  "blank_token = \<lparr>tok_type = VOID, tok_u = replicate 16 NUL\<rparr>"

definition blank_lexer :: lexer where
  "blank_lexer = \<lparr>lx_line = [], lx_begin = 0, lx_forward = 0, lx_eoi_reached = False,
     lx_token = blank_token, lx_token_available = False\<rparr>"

theorem lexer_roundtrip_witness:
  "\<exists>lx'. lexer_process blank_token (snd (lexer_init (Some (''  0xcafe'' @ [NUL])) blank_lexer)) = Some lx'
     \<and> token_integer (fst (lexer_get_token lx')) = 0xcafe"
proof -
  define lx where "lx = snd (lexer_init (Some (''  0xcafe'' @ [NUL])) blank_lexer)"
  have "render (W_hex 0xcafe) = ''0xcafe''" by (simp add: numeral_text.simps digit_chars_def)
  then have line: "drop (lx_forward lx) (lx_line lx) = replicate 2 (CHR '' '') @ render (W_hex 0xcafe) @ NUL # []"
    by (simp add: lx_def lexer_init_def numeral_2_eq_2)
  have eoi: "\<not> lx_eoi_reached lx" by (simp add: lx_def lexer_init_def)
  have junk: "token_ok blank_token" by (simp add: blank_token_def token_ok_def TOKEN_STR_LEN_MAX_def)
  have word: "word_ok (W_hex 0xcafe)" by simp
  from lexer_roundtrip [OF line disjI2 [OF refl] eoi word junk] obtain lx'
    where lx': "lexer_process blank_token lx = Some lx'"
      and n: "unat (token_integer (fst (lexer_get_token lx'))) = 0xcafe" by auto
  from arg_cong [OF n, of "of_nat :: nat \<Rightarrow> u32"]
  have "token_integer (fst (lexer_get_token lx')) = 0xcafe" by simp
  with lx' show ?thesis unfolding lx_def by blast
qed

text \<open>A quoted string whose closing delimiter is missing, and an unknown character with no blank
  behind it, make the analyser run past the NUL of the line and leave its buffer.\<close>

theorem lexer_leaves_buffer:
  assumes "drop (lx_forward lx) (lx_line lx) = replicate k (CHR '' '') @ y # ys"
    and "\<not> lx_eoi_reached lx"
    and "(y = DELIMITER_STR \<and> DELIMITER_STR \<notin> set ys) \<or>
         (select_process y = process_unknown \<and> y \<noteq> CHR '' '' \<and> CHR '' '' \<notin> set ys)"
  shows "lexer_process junk lx = None"
proof -
  let ?b = "lx_forward lx + k"
  have "drop ?b (lx_line lx) = drop k (drop (lx_forward lx) (lx_line lx))" by (simp add: add.commute)
  also have "\<dots> = y # ys" using assms(1) by simp
  finally have "drop ?b (lx_line lx) = y # ys" .
  from drop_Cons_nth [OF this] have d: "?b < length (lx_line lx)" "drop (Suc ?b) (lx_line lx) = ys"
    by (rule conjunct1, rule conjunct2 [OF conjunct2])
  have y: "y \<noteq> CHR '' ''" using assms(3) by (auto simp: DELIMITER_STR_def)
  from assms(3) show ?thesis
  proof
    assume s: "y = DELIMITER_STR \<and> DELIMITER_STR \<notin> set ys"
    then have "advance_while (\<lambda>c. c \<noteq> DELIMITER_STR) (lx_line lx) ?b = None"
      by (intro advance_while_none [OF d(1)], unfold d(2)) (auto simp: list_all_iff)
    moreover have "select_process y = process_string" "y \<noteq> NUL"
      using s render_first [of "W_str []"] by auto
    ultimately show ?thesis
      using lexer_process_step [OF assms(1) y assms(2), of junk] by (simp add: process_string_def Let_def)
  next
    assume s: "select_process y = process_unknown \<and> y \<noteq> CHR '' '' \<and> CHR '' '' \<notin> set ys"
    then have "advance_while (\<lambda>c. c \<noteq> CHR '' '') (lx_line lx) ?b = None"
      by (intro advance_while_none [OF d(1)], unfold d(2)) (auto simp: list_all_iff)
    then show ?thesis
      using lexer_process_step [OF assms(1) y assms(2), of junk] s by (simp add: process_unknown_def Let_def)
  qed
qed

theorem lexer_leaves_buffer_witness:
  "lexer_process blank_token (snd (lexer_init (Some (''!abc'' @ [NUL])) blank_lexer)) = None"
  using lexer_leaves_buffer [of "snd (lexer_init (Some (''!abc'' @ [NUL])) blank_lexer)" 0 DELIMITER_STR
      "''abc'' @ [NUL]" blank_token]
  by (simp add: lexer_init_def blank_lexer_def DELIMITER_STR_def)

end
