(* ===== verification/Parser.thy ===== *)
theory Parser
  imports Lexer_Spec
begin

text \<open>
  The parser of the shell (\<open>sh/parser.c\<close>): it collects the tokens of a line up to the end of input
  in a vector of four. The state holds the vector, the error code and the lexer. The uninitialised
  local token of the \<open>i\<close>-th call of the lexer is \<open>junk i\<close>.
\<close>

section \<open>State\<close>

definition SYNTAX_VEC_LEN :: nat where "SYNTAX_VEC_LEN = 4"

datatype err_code = ERR_TOO_MANY_TOKENS | ERR_ERROR_TOKEN | ERR_UNKNOWN_TOKEN | ERR_INTERNAL

record parser =
  ps_vec :: "token list"
  ps_err :: err_code
  ps_lexer :: lexer

section \<open>Operations\<close>

definition parser_reset :: "parser \<Rightarrow> parser" where
  "parser_reset ps = ps\<lparr>ps_vec := map token_init (ps_vec ps)\<rparr>"

text \<open>
  The loop over the vector: \<open>n\<close> iterations are left. The result is the last token, \<open>None\<close> for an
  early \<open>return NULL\<close>; the parameter \<open>token\<close> is the local variable of the same name.
\<close>

fun parse_from :: "(nat \<Rightarrow> token) \<Rightarrow> nat \<Rightarrow> nat \<Rightarrow> token \<Rightarrow> parser \<Rightarrow> (token option \<times> parser) option" where
  "parse_from junk vec_idx 0 token ps = Some (Some token, ps)"
| "parse_from junk vec_idx (Suc n) token ps =
     (case lexer_process (junk vec_idx) (ps_lexer ps) of
        None \<Rightarrow> None
      | Some lx \<Rightarrow>
          if \<not> lexer_has_token lx then Some (None, ps\<lparr>ps_lexer := lx, ps_err := ERR_INTERNAL\<rparr>)
          else (let (t, lx') = lexer_get_token lx
                in if token_is_error t then Some (None, ps\<lparr>ps_lexer := lx', ps_err := ERR_ERROR_TOKEN\<rparr>)
                   else if token_is_unknown t
                     then Some (None, ps\<lparr>ps_lexer := lx', ps_err := ERR_UNKNOWN_TOKEN\<rparr>)
                   else (let ps' = ps\<lparr>ps_lexer := lx', ps_vec := (ps_vec ps)[vec_idx := t]\<rparr>
                         in if token_is_eoi t then Some (Some t, ps')
                            else parse_from junk (Suc vec_idx) n t ps')))"

text \<open>The flag says whether the pointer to the vector was returned, and not \<open>NULL\<close>.\<close>

definition parser_do :: "(nat \<Rightarrow> token) \<Rightarrow> char list option \<Rightarrow> parser \<Rightarrow> (bool \<times> parser) option" where
  "parser_do junk str ps =
     (case str of
        None \<Rightarrow> Some (False, ps\<lparr>ps_err := ERR_INTERNAL\<rparr>)
      | Some line \<Rightarrow>
          (let (rc, lx) = lexer_init (Some line) (ps_lexer ps)
           in if rc \<noteq> 0 then Some (False, ps\<lparr>ps_lexer := lx, ps_err := ERR_INTERNAL\<rparr>)
              else (let ps1 = parser_reset (ps\<lparr>ps_lexer := snd (lexer_init (Some line) lx)\<rparr>)
                    in (case parse_from junk 0 SYNTAX_VEC_LEN (junk SYNTAX_VEC_LEN) ps1 of
                          None \<Rightarrow> None
                        | Some (None, ps2) \<Rightarrow> Some (False, ps2)
                        | Some (Some t, ps2) \<Rightarrow>
                            if \<not> token_is_eoi t
                            then Some (False, ps2\<lparr>ps_err := ERR_TOO_MANY_TOKENS\<rparr>)
                            else Some (True, ps2)))))"

fun err_str :: "err_code \<Rightarrow> char list" where
  "err_str ERR_TOO_MANY_TOKENS = ''the given line contains too many elements''"
| "err_str ERR_ERROR_TOKEN = ''error token''"
| "err_str ERR_UNKNOWN_TOKEN = ''unknown token''"
| "err_str ERR_INTERNAL = ''internal error''"

definition parser_strerror :: "parser \<Rightarrow> char list" where
  "parser_strerror ps = err_str (ps_err ps)"

fun data_len_from :: "token list \<Rightarrow> nat \<Rightarrow> nat \<Rightarrow> u32" where
  "data_len_from sx i 0 = - 1"
| "data_len_from sx i (Suc n) = (if token_is_eoi (sx ! i) then of_nat i else data_len_from sx (Suc i) n)"

definition parser_data_len :: "token list \<Rightarrow> u32" where
  "parser_data_len sx = data_len_from sx 0 SYNTAX_VEC_LEN"

section \<open>Written lines\<close>

text \<open>Words with the blanks before them; between two words there is at least one blank.\<close>

fun written :: "(nat \<times> shell_word) list \<Rightarrow> char list" where
  "written [] = []"
| "written ((k, w) # ws) = replicate k (CHR '' '') @ render w @ written ws"

definition written_line :: "(nat \<times> shell_word) list \<Rightarrow> nat \<Rightarrow> char list \<Rightarrow> char list" where
  "written_line ws e rest = written ws @ replicate e (CHR '' '') @ NUL # rest"

definition separated :: "(nat \<times> shell_word) list \<Rightarrow> bool" where
  "separated ws \<longleftrightarrow> list_all (\<lambda>(k, w). 0 < k) (tl ws)"

lemma written_line_next:
  assumes "list_all (\<lambda>(k, w). 0 < k) ws"
  shows "\<exists>c r. written_line ws e rest = c # r \<and> (c = CHR '' '' \<or> c = NUL)"
proof (cases ws)
  case Nil
  then show ?thesis by (cases e) (simp_all add: written_line_def)
next
  case (Cons x xs)
  obtain k w where "x = (k, w)" by (cases x)
  with Cons assms show ?thesis by (cases k) (auto simp: written_line_def)
qed

text \<open>The lexer in front of a written rest of the line.\<close>

definition lexer_at :: "lexer \<Rightarrow> char list \<Rightarrow> bool" where
  "lexer_at lx cs \<longleftrightarrow> drop (lx_forward lx) (lx_line lx) = cs \<and> \<not> lx_eoi_reached lx"

lemma lexer_at_word:
  assumes at: "lexer_at lx (written_line ((k, w) # ws) e rest)" and w: "word_ok w" and junk: "token_ok junk"
    and sep: "list_all (\<lambda>(k, w). 0 < k) ws"
  shows "\<exists>lx' t. lexer_process junk lx = Some lx' \<and> lexer_has_token lx' \<and>
    fst (lexer_get_token lx') = t \<and> token_denotes t w \<and> lexer_at (snd (lexer_get_token lx')) (written_line ws e rest)"
proof -
  from written_line_next [OF sep] obtain c r where
    c: "written_line ws e rest = c # r" "c = CHR '' '' \<or> c = NUL" by blast
  have line: "drop (lx_forward lx) (lx_line lx) = replicate k (CHR '' '') @ render w @ c # r"
    and run: "\<not> lx_eoi_reached lx"
    using at c(1) by (simp_all add: lexer_at_def written_line_def)
  from lexer_process_word [OF line c(2) run w junk] obtain t where t: "lexer_process junk lx
      = Some (lx\<lparr>lx_begin := lx_forward lx + k, lx_forward := lx_forward lx + k + length (render w),
                lx_token := t, lx_token_available := True\<rparr>)" "token_denotes t w" by blast
  have "drop (lx_forward lx + k + length (render w)) (lx_line lx)
        = drop (k + length (render w)) (drop (lx_forward lx) (lx_line lx))" by (simp add: ac_simps)
  also have "\<dots> = c # r" using line by simp
  finally show ?thesis
    using t run c(1) by (simp add: lexer_has_token_def lexer_get_token_def lexer_at_def)
qed

lemma lexer_at_end:
  assumes "lexer_at lx (written_line [] e rest)"
  shows "\<exists>lx' t. lexer_process junk lx = Some lx' \<and> lexer_has_token lx' \<and>
    fst (lexer_get_token lx') = t \<and> tok_type t = EOI"
  using lexer_process_end [of lx e rest junk] assms
  by (simp add: lexer_at_def written_line_def lexer_has_token_def lexer_get_token_def token_set_eoi_def)

lemma denotes_not_special:
  "token_denotes t w \<Longrightarrow> \<not> token_is_error t \<and> \<not> token_is_unknown t \<and> \<not> token_is_eoi t"
  by (cases w) (simp_all add: token_is_defs)

section \<open>The loop on a written line\<close>

text \<open>One iteration on a word.\<close>

lemma parse_from_word:
  assumes "lexer_at (ps_lexer ps) (written_line ((k, w) # ws) e rest)" and "word_ok w"
    and "token_ok (junk idx)" and "list_all (\<lambda>(k, w). 0 < k) ws"
  shows "\<exists>t lx. token_denotes t w \<and> lexer_at lx (written_line ws e rest) \<and>
    parse_from junk idx (Suc n) tok ps
      = parse_from junk (Suc idx) n t (ps\<lparr>ps_lexer := lx, ps_vec := (ps_vec ps)[idx := t]\<rparr>)"
proof -
  from lexer_at_word [OF assms] obtain lx' t where t: "lexer_process (junk idx) (ps_lexer ps) = Some lx'"
      "lexer_has_token lx'" "fst (lexer_get_token lx') = t" "token_denotes t w"
      "lexer_at (snd (lexer_get_token lx')) (written_line ws e rest)" by blast
  note ns = denotes_not_special [OF t(4)]
  have "parse_from junk idx (Suc n) tok ps
      = parse_from junk (Suc idx) n t
          (ps\<lparr>ps_lexer := snd (lexer_get_token lx'), ps_vec := (ps_vec ps)[idx := t]\<rparr>)"
    using t(1,2) t(3) [symmetric] ns by (simp add: case_prod_beta Let_def)
  with t(4,5) show ?thesis by blast
qed

lemma parse_from_end:
  assumes "lexer_at (ps_lexer ps) (written_line [] e rest)"
  shows "\<exists>t lx. tok_type t = EOI \<and>
    parse_from junk idx (Suc n) tok ps = Some (Some t, ps\<lparr>ps_lexer := lx, ps_vec := (ps_vec ps)[idx := t]\<rparr>)"
proof -
  from lexer_at_end [OF assms, of "junk idx"] obtain lx' t where
    t: "lexer_process (junk idx) (ps_lexer ps) = Some lx'" "lexer_has_token lx'"
      "fst (lexer_get_token lx') = t" "tok_type t = EOI" by blast
  then have "parse_from junk idx (Suc n) tok ps
      = Some (Some t, ps\<lparr>ps_lexer := snd (lexer_get_token lx'), ps_vec := (ps_vec ps)[idx := t]\<rparr>)"
    by (simp add: token_is_defs Let_def case_prod_beta)
  with t(4) show ?thesis by blast
qed

lemma parse_from_short:
  "lexer_at (ps_lexer ps) (written_line ws e rest) \<Longrightarrow> list_all (\<lambda>(k, w). word_ok w) ws \<Longrightarrow>
   separated ws \<Longrightarrow> \<forall>i. token_ok (junk i) \<Longrightarrow> length ws < n \<Longrightarrow> length (ps_vec ps) = idx + n \<Longrightarrow>
   \<exists>ps' t toks vs. parse_from junk idx n tok ps = Some (Some t, ps') \<and> tok_type t = EOI \<and>
     list_all2 token_denotes toks (map snd ws) \<and> ps_vec ps' = take idx (ps_vec ps) @ toks @ t # vs \<and>
     length (ps_vec ps') = length (ps_vec ps)"
proof (induction ws arbitrary: idx n tok ps)
  case Nil
  then obtain m where m: "n = Suc m" by (cases n) auto
  from parse_from_end [OF Nil.prems(1), of junk idx m tok] m obtain t lx where "tok_type t = EOI"
      "parse_from junk idx n tok ps = Some (Some t, ps\<lparr>ps_lexer := lx, ps_vec := (ps_vec ps)[idx := t]\<rparr>)" by blast
  moreover have "(ps_vec ps)[idx := t] = take idx (ps_vec ps) @ [] @ t # drop (Suc idx) (ps_vec ps)"
    using Nil.prems(6) m by (simp add: upd_conv_take_nth_drop)
  ultimately show ?case
    using Nil.prems(6) m
    by (intro exI [of _ "ps\<lparr>ps_lexer := lx, ps_vec := (ps_vec ps)[idx := t]\<rparr>"] exI [of _ t] exI [of _ "[]"]
        exI [of _ "drop (Suc idx) (ps_vec ps)"]) simp
next
  case (Cons kw ws)
  obtain k w where kw: "kw = (k, w)" by (cases kw)
  from Cons.prems obtain m where m: "n = Suc m" by (cases n) auto
  have sep: "list_all (\<lambda>(k, w). 0 < k) ws" using Cons.prems(3) by (simp add: separated_def)
  then have sep': "separated ws" by (cases ws) (simp_all add: separated_def)
  from parse_from_word [OF Cons.prems(1) [unfolded kw], of junk idx m tok] Cons.prems(2,4) sep m kw
  obtain t lx where t: "token_denotes t w" "lexer_at lx (written_line ws e rest)"
      "parse_from junk idx n tok ps
        = parse_from junk (Suc idx) m t (ps\<lparr>ps_lexer := lx, ps_vec := (ps_vec ps)[idx := t]\<rparr>)" by auto
  let ?ps = "ps\<lparr>ps_lexer := lx, ps_vec := (ps_vec ps)[idx := t]\<rparr>"
  have "lexer_at (ps_lexer ?ps) (written_line ws e rest)" "length (ps_vec ?ps) = Suc idx + m"
    "list_all (\<lambda>(k, w). word_ok w) ws" "length ws < m"
    using t(2) Cons.prems m by simp_all
  from Cons.IH [OF this(1,3) sep' Cons.prems(4) this(4,2)] obtain ps' t' toks vs where
    r: "parse_from junk (Suc idx) m t ?ps = Some (Some t', ps')" "tok_type t' = EOI"
      "list_all2 token_denotes toks (map snd ws)" "ps_vec ps' = take (Suc idx) (ps_vec ?ps) @ toks @ t' # vs"
      "length (ps_vec ps') = length (ps_vec ?ps)" by blast
  have "take (Suc idx) (ps_vec ?ps) = take idx (ps_vec ps) @ [t]"
    using Cons.prems(6) m by (simp add: take_Suc_conv_app_nth)
  with r t(1,3) kw show ?case by (intro exI [of _ ps'] exI [of _ t'] exI [of _ "t # toks"] exI [of _ vs]) simp
qed

lemma parse_from_long:
  "lexer_at (ps_lexer ps) (written_line ws e rest) \<Longrightarrow> list_all (\<lambda>(k, w). word_ok w) ws \<Longrightarrow>
   separated ws \<Longrightarrow> \<forall>i. token_ok (junk i) \<Longrightarrow> n \<le> length ws \<Longrightarrow> \<not> token_is_eoi tok \<or> 0 < n \<Longrightarrow>
   \<exists>ps' t. parse_from junk idx n tok ps = Some (Some t, ps') \<and> \<not> token_is_eoi t"
proof (induction n arbitrary: ws idx tok ps)
  case 0
  then show ?case by simp
next
  case (Suc n)
  then obtain k w ws' where ws: "ws = (k, w) # ws'" by (cases ws) auto
  have sep: "list_all (\<lambda>(k, w). 0 < k) ws'" using Suc.prems(3) ws by (simp add: separated_def)
  then have sep': "separated ws'" by (cases ws') (simp_all add: separated_def)
  from parse_from_word [OF Suc.prems(1) [unfolded ws], of junk idx n tok] Suc.prems(2,4) sep ws
  obtain t lx where t: "token_denotes t w" "lexer_at lx (written_line ws' e rest)"
      "parse_from junk idx (Suc n) tok ps
        = parse_from junk (Suc idx) n t (ps\<lparr>ps_lexer := lx, ps_vec := (ps_vec ps)[idx := t]\<rparr>)" by auto
  from Suc.IH [of "ps\<lparr>ps_lexer := lx, ps_vec := (ps_vec ps)[idx := t]\<rparr>" ws' t] t Suc.prems(2,4,5) sep' ws
    denotes_not_special [OF t(1)]
  show ?case by simp
qed

lemma data_len_from_eoi:
  "i + n = length sx \<Longrightarrow> drop i sx = toks @ t # vs \<Longrightarrow> list_all (\<lambda>t. \<not> token_is_eoi t) toks \<Longrightarrow>
   token_is_eoi t \<Longrightarrow> data_len_from sx i n = of_nat (i + length toks)"
proof (induction n arbitrary: i toks)
  case (Suc n)
  show ?case
  proof (cases toks)
    case Nil
    with Suc.prems have "sx ! i = t" using drop_Cons_nth [of i sx t vs] by simp
    with Suc.prems(4) Nil show ?thesis by simp
  next
    case (Cons t' toks')
    with Suc.prems have "sx ! i = t'" "drop (Suc i) sx = toks' @ t # vs"
      using drop_Cons_nth [of i sx t' "toks' @ t # vs"] by auto
    with Suc.IH [of "Suc i" toks'] Suc.prems Cons show ?thesis by (simp add: algebra_simps)
  qed
qed simp

section \<open>A whole line\<close>

lemma parser_do_runs:
  "parser_do junk (Some line) ps =
     (case parse_from junk 0 SYNTAX_VEC_LEN (junk SYNTAX_VEC_LEN)
             (parser_reset (ps\<lparr>ps_lexer := snd (lexer_init (Some line) (ps_lexer ps))\<rparr>)) of
        None \<Rightarrow> None
      | Some (None, ps2) \<Rightarrow> Some (False, ps2)
      | Some (Some t, ps2) \<Rightarrow>
          if \<not> token_is_eoi t then Some (False, ps2\<lparr>ps_err := ERR_TOO_MANY_TOKENS\<rparr>) else Some (True, ps2))"
  by (simp add: parser_do_def lexer_init_def Let_def)

lemma parser_start:
  "lexer_at (ps_lexer (parser_reset (ps\<lparr>ps_lexer := snd (lexer_init (Some line) lx)\<rparr>))) line"
  by (simp add: parser_reset_def lexer_init_def lexer_at_def)

lemma parser_do_short:
  assumes "list_all (\<lambda>(k, w). word_ok w) ws" and "separated ws" and "\<forall>i. token_ok (junk i)"
    and "length (ps_vec ps) = SYNTAX_VEC_LEN" and "length ws < SYNTAX_VEC_LEN"
  shows "\<exists>ps' toks t vs. parser_do junk (Some (written_line ws e rest)) ps = Some (True, ps') \<and>
    ps_vec ps' = toks @ t # vs \<and> list_all2 token_denotes toks (map snd ws) \<and> tok_type t = EOI \<and>
    parser_data_len (ps_vec ps') = of_nat (length ws)"
proof -
  let ?ps = "parser_reset (ps\<lparr>ps_lexer := snd (lexer_init (Some (written_line ws e rest)) (ps_lexer ps))\<rparr>)"
  have "length (ps_vec ?ps) = 0 + SYNTAX_VEC_LEN" using assms(4) by (simp add: parser_reset_def)
  from parse_from_short [OF parser_start assms(1,2,3,5) this, where tok = "junk SYNTAX_VEC_LEN"] assms(4)
  obtain ps' t toks vs where
    r: "parse_from junk 0 SYNTAX_VEC_LEN (junk SYNTAX_VEC_LEN) ?ps = Some (Some t, ps')" "tok_type t = EOI"
      "list_all2 token_denotes toks (map snd ws)" "ps_vec ps' = toks @ t # vs"
      "length (ps_vec ps') = SYNTAX_VEC_LEN"
    by (auto simp: parser_reset_def)
  have len: "length toks = length ws" using list_all2_lengthD [OF r(3)] by simp
  have "list_all (\<lambda>t. \<not> token_is_eoi t) toks"
    using r(3) denotes_not_special by (fastforce simp: list_all2_conv_all_nth list_all_length)
  then have "parser_data_len (ps_vec ps') = of_nat (length ws)"
    using data_len_from_eoi [of 0 SYNTAX_VEC_LEN "ps_vec ps'" toks t vs] r(2,4,5) len
    by (simp add: parser_data_len_def token_is_eoi_def)
  with r show ?thesis
    by (intro exI [of _ ps'] exI [of _ toks] exI [of _ t] exI [of _ vs])
      (simp add: parser_do_runs token_is_eoi_def)
qed

lemma parser_do_long:
  assumes "list_all (\<lambda>(k, w). word_ok w) ws" and "separated ws" and "\<forall>i. token_ok (junk i)"
    and "SYNTAX_VEC_LEN \<le> length ws"
  shows "\<exists>ps'. parser_do junk (Some (written_line ws e rest)) ps = Some (False, ps') \<and>
    ps_err ps' = ERR_TOO_MANY_TOKENS"
proof -
  let ?ps = "parser_reset (ps\<lparr>ps_lexer := snd (lexer_init (Some (written_line ws e rest)) (ps_lexer ps))\<rparr>)"
  have start: "lexer_at (ps_lexer ?ps) (written_line ws e rest)" by (rule parser_start)
  have "\<not> token_is_eoi (junk SYNTAX_VEC_LEN) \<or> 0 < SYNTAX_VEC_LEN" by (simp add: SYNTAX_VEC_LEN_def)
  from parse_from_long [OF start assms this, of 0] obtain ps' t where
    "parse_from junk 0 SYNTAX_VEC_LEN (junk SYNTAX_VEC_LEN) ?ps = Some (Some t, ps')" "\<not> token_is_eoi t"
    by blast
  then show ?thesis by (simp add: parser_do_runs)
qed

section \<open>Well-formed tokens\<close>

text \<open>Every token the lexer makes keeps the 16 bytes of storage of the uninitialised token it fills.\<close>

lemma strncpy_length: "strncpy d s n = Some d' \<Longrightarrow> length d' = length d"
proof -
  have "strncpy_loop d s i n = Some d' \<Longrightarrow> length d' = length d" for i
    by (induction n arbitrary: d i) (auto simp: Let_def split: if_splits)
  then show "strncpy d s n = Some d' \<Longrightarrow> length d' = length d" by (simp add: strncpy_def)
qed

lemma put_word_ok: "token_ok t \<Longrightarrow> token_ok (put_word w t)"
  by (simp add: token_ok_def put_word_def le32_bytes_def TOKEN_STR_LEN_MAX_def)

lemma token_type_ok [simp]: "token_ok (t\<lparr>tok_type := ty\<rparr>) = token_ok t"
  by (simp add: token_ok_def)

lemma set_error_ok: "token_ok t \<Longrightarrow> token_ok (token_set_error t e)"
  by (simp add: token_set_error_def put_word_ok)

lemma set_strlex_keeps_ok:
  assumes "set_strlex t ty line lo hi = Some t'" "token_ok t"
  shows "token_ok t'"
proof (cases "lexeme_len lo hi > TOKEN_STR_LEN_MAX")
  case True
  with assms show ?thesis by (auto simp: set_strlex_def set_error_ok)
next
  case False
  with assms(1) obtain u where "strncpy (tok_u t) (drop lo line) (lexeme_len lo hi) = Some u"
    "t' = t\<lparr>tok_type := ty, tok_u := u[lexeme_len lo hi := NUL]\<rparr>"
    by (auto simp: set_strlex_def split: if_splits option.splits)
  with assms(2) strncpy_length show ?thesis by (simp add: token_ok_def)
qed

lemma set_luinteger_keeps_ok: "set_luinteger t b f line lo hi = Some t' \<Longrightarrow> token_ok t \<Longrightarrow> token_ok t'"
  by (auto simp: set_luinteger_def set_error_ok put_word_ok split: option.splits)

lemmas token_set_defs = token_set_identifier_def token_set_variable_def token_set_lstring_def
  token_set_luinteger8_def token_set_luinteger10_def token_set_luinteger16_def token_set_unknown_def
  token_set_eoi_def token_init_def

lemma select_process_keeps_ok:
  assumes "select_process c junk lx = Some (t, lx')" "token_ok junk"
  shows "token_ok t"
proof -
  have num: "token_set_luinteger8 junk line lo hi = Some t \<Longrightarrow> token_ok t"
    "token_set_luinteger10 junk line lo hi = Some t \<Longrightarrow> token_ok t"
    "token_set_luinteger16 junk line lo hi = Some t \<Longrightarrow> token_ok t" for line lo hi
    using assms(2) by (auto simp: token_set_defs set_error_ok intro: set_luinteger_keeps_ok split: if_splits)
  have lit: "process_luinteger junk lx = Some (t, lx') \<Longrightarrow> token_ok t"
    using assms(2) num
    by (auto simp: process_luinteger_def Let_def set_error_ok split: if_splits option.splits num_base.splits)
  have "process_identifier junk lx = Some (t, lx') \<Longrightarrow> token_ok t"
    "process_variable junk lx = Some (t, lx') \<Longrightarrow> token_ok t"
    "process_string junk lx = Some (t, lx') \<Longrightarrow> token_ok t"
    using assms(2) by (auto simp: process_identifier_def process_variable_def process_string_def token_set_defs
        intro: set_strlex_keeps_ok split: option.splits)
  moreover have "process_eoi junk lx = Some (t, lx') \<Longrightarrow> token_ok t"
    "process_unknown junk lx = Some (t, lx') \<Longrightarrow> token_ok t"
    using assms(2) by (auto simp: process_eoi_def process_unknown_def token_set_defs split: option.splits)
  ultimately show ?thesis using assms(1) lit by (auto simp: select_process_def split: if_splits)
qed

lemma lexer_process_keeps_ok:
  assumes "lexer_process junk lx = Some lx'" "token_ok junk" "token_ok (lx_token lx)"
  shows "token_ok (lx_token lx')"
  using assms by (auto simp: lexer_process_def Let_def set_token_def
      split: if_splits option.splits prod.splits dest: select_process_keeps_ok)

lemma parse_from_keeps_ok:
  assumes "parse_from junk i n tok ps = Some (r, ps')" "\<forall>i. token_ok (junk i)"
    "list_all token_ok (ps_vec ps)" "token_ok (lx_token (ps_lexer ps))"
  shows "list_all token_ok (ps_vec ps') \<and> token_ok (lx_token (ps_lexer ps'))"
  using assms
proof (induction n arbitrary: i tok ps)
  case (Suc n)
  obtain lx where lx: "lexer_process (junk i) (ps_lexer ps) = Some lx"
    using Suc.prems(1) by (auto split: option.splits)
  then have ok: "token_ok (lx_token lx)"
    using lexer_process_keeps_ok Suc.prems(2,4) by blast
  have vec: "list_all token_ok ((ps_vec ps)[i := lx_token lx])"
    using Suc.prems(3) ok set_update_subset_insert [of "ps_vec ps" i "lx_token lx"]
    by (auto simp: list_all_iff)
  have gt: "fst (lexer_get_token lx) = lx_token lx" "lx_token (snd (lexer_get_token lx)) = lx_token lx"
    by (simp_all add: lexer_get_token_def)
  obtain t lx' where tl: "lexer_get_token lx = (t, lx')" by (cases "lexer_get_token lx")
  with gt have t: "t = lx_token lx" "lx_token lx' = lx_token lx" by simp_all
  let ?ps = "ps\<lparr>ps_lexer := lx', ps_vec := (ps_vec ps)[i := t]\<rparr>"
  have step: "parse_from junk i (Suc n) tok ps =
     (if \<not> lexer_has_token lx then Some (None, ps\<lparr>ps_lexer := lx, ps_err := ERR_INTERNAL\<rparr>)
      else if token_is_error t then Some (None, ps\<lparr>ps_lexer := lx', ps_err := ERR_ERROR_TOKEN\<rparr>)
      else if token_is_unknown t then Some (None, ps\<lparr>ps_lexer := lx', ps_err := ERR_UNKNOWN_TOKEN\<rparr>)
      else if token_is_eoi t then Some (Some t, ?ps) else parse_from junk (Suc i) n t ?ps)"
    by (simp only: parse_from.simps lx tl option.case Let_def prod.case)
  have early: "list_all token_ok (ps_vec ps') \<and> token_ok (lx_token (ps_lexer ps'))"
    if "ps_vec ps' = ps_vec ps" "lx_token (ps_lexer ps') = lx_token lx"
    using that ok Suc.prems(3) by simp
  show ?case
  proof (cases "\<not> lexer_has_token lx \<or> token_is_error t \<or> token_is_unknown t")
    case True
    with Suc.prems(1) step t(2) show ?thesis by (intro early) (auto split: if_splits)
  next
    case False
    show ?thesis
    proof (cases "token_is_eoi t")
      case True
      with False Suc.prems(1) step have "ps' = ?ps" by simp
      with vec ok t show ?thesis by simp
    next
      case more: False
      with False Suc.prems(1) step have "parse_from junk (Suc i) n t ?ps = Some (r, ps')" by simp
      from Suc.IH [OF this Suc.prems(2)] vec ok t show ?thesis by simp
    qed
  qed
qed simp

lemma parser_do_keeps_ok:
  assumes "parser_do junk (Some line) ps = Some (r, ps')" "\<forall>i. token_ok (junk i)"
    "list_all token_ok (ps_vec ps)" "token_ok (lx_token (ps_lexer ps))"
  shows "list_all token_ok (ps_vec ps') \<and> token_ok (lx_token (ps_lexer ps'))"
proof -
  let ?ps = "parser_reset (ps\<lparr>ps_lexer := snd (lexer_init (Some line) (ps_lexer ps))\<rparr>)"
  have "list_all token_ok (ps_vec ?ps)" "token_ok (lx_token (ps_lexer ?ps))"
    using assms(3,4) by (auto simp: parser_reset_def list_all_iff token_init_def lexer_init_def)
  moreover from assms(1) obtain r2 ps2 where
    "parse_from junk 0 SYNTAX_VEC_LEN (junk SYNTAX_VEC_LEN) ?ps = Some (r2, ps2)"
    "ps_vec ps' = ps_vec ps2" "ps_lexer ps' = ps_lexer ps2"
    by (auto simp: parser_do_runs split: option.splits if_splits)
  ultimately show ?thesis using parse_from_keeps_ok assms(2) by metis
qed

lemma parse_from_keeps_length:
  "parse_from junk i n tok ps = Some (r, ps') \<Longrightarrow> length (ps_vec ps') = length (ps_vec ps)"
proof (induction n arbitrary: i tok ps)
  case (Suc n)
  obtain lx where lx: "lexer_process (junk i) (ps_lexer ps) = Some lx"
    using Suc.prems by (auto split: option.splits)
  obtain t lx' where tl: "lexer_get_token lx = (t, lx')" by (cases "lexer_get_token lx")
  from Suc.prems consider "ps_vec ps' = ps_vec ps" | "ps' = ps\<lparr>ps_lexer := lx', ps_vec := (ps_vec ps)[i := t]\<rparr>"
    | "parse_from junk (Suc i) n t (ps\<lparr>ps_lexer := lx', ps_vec := (ps_vec ps)[i := t]\<rparr>) = Some (r, ps')"
    by (simp only: parse_from.simps lx tl option.case Let_def prod.case) (auto split: if_splits)
  then show ?case by cases (use Suc.IH in force)+
qed simp

lemma parser_do_keeps_length:
  assumes "parser_do junk (Some line) ps = Some (r, ps')"
  shows "length (ps_vec ps') = length (ps_vec ps)"
proof -
  let ?ps = "parser_reset (ps\<lparr>ps_lexer := snd (lexer_init (Some line) (ps_lexer ps))\<rparr>)"
  from assms obtain r2 ps2 where "parse_from junk 0 SYNTAX_VEC_LEN (junk SYNTAX_VEC_LEN) ?ps = Some (r2, ps2)"
    "ps_vec ps' = ps_vec ps2"
    by (auto simp: parser_do_runs split: option.splits if_splits)
  from parse_from_keeps_length [OF this(1)] this(2) show ?thesis by (simp add: parser_reset_def)
qed

text \<open>C17. The parser on a line of written words: with at most three words it returns the vector that
  holds their tokens, followed by the end of input, and the number of words as its length; with more
  it returns \<open>NULL\<close> and the message that there are too many.\<close>

theorem parser_do_correct:
  assumes "list_all (\<lambda>(k, w). word_ok w) ws" and "separated ws" and "\<forall>i. token_ok (junk i)"
    and "length (ps_vec ps) = SYNTAX_VEC_LEN"
  shows "\<exists>ok ps'. parser_do junk (Some (written_line ws e rest)) ps = Some (ok, ps') \<and>
    (ok \<longleftrightarrow> length ws \<le> 3) \<and>
    (ok \<longrightarrow> parser_data_len (ps_vec ps') = of_nat (length ws) \<and>
       list_all2 token_denotes (take (length ws) (ps_vec ps')) (map snd ws) \<and>
       token_is_eoi (ps_vec ps' ! length ws)) \<and>
    (\<not> ok \<longrightarrow> parser_strerror ps' = ''the given line contains too many elements'')"
proof (cases "length ws < SYNTAX_VEC_LEN")
  case True
  from parser_do_short [OF assms True, of e rest] obtain ps' toks t vs where
    r: "parser_do junk (Some (written_line ws e rest)) ps = Some (True, ps')" "ps_vec ps' = toks @ t # vs"
      "list_all2 token_denotes toks (map snd ws)" "tok_type t = EOI"
      "parser_data_len (ps_vec ps') = of_nat (length ws)" by blast
  have "length toks = length ws" using list_all2_lengthD [OF r(3)] by simp
  with r True show ?thesis
    by (intro exI [of _ True] exI [of _ ps']) (simp add: SYNTAX_VEC_LEN_def token_is_eoi_def nth_append)
next
  case False
  with parser_do_long [OF assms(1,2,3), of e rest ps] obtain ps' where
    r: "parser_do junk (Some (written_line ws e rest)) ps = Some (False, ps')"
      "ps_err ps' = ERR_TOO_MANY_TOKENS" by auto
  with False show ?thesis
    by (intro exI [of _ False] exI [of _ ps']) (simp add: SYNTAX_VEC_LEN_def parser_strerror_def)
qed

definition blank_parser :: parser where
  "blank_parser = \<lparr>ps_vec = replicate 4 blank_token, ps_err = ERR_INTERNAL, ps_lexer = blank_lexer\<rparr>"

theorem parser_do_correct_witness:
  "\<exists>ps'. parser_do (\<lambda>i. blank_token) (Some (''help set'' @ [NUL])) blank_parser = Some (True, ps') \<and>
     parser_data_len (ps_vec ps') = 2"
proof -
  let ?ws = "[(0, W_ident ''help''), (1, W_ident ''set'')]"
  have "char_is_alphanum c" if "c \<in> set ''helpset''" for c
    using that by (auto simp: char_is_alphanum_def char_is_alpha_def char_in_def schar_def)
  moreover have "char_is_alpha (CHR ''h'')" "char_is_alpha (CHR ''s'')"
    by (simp_all add: char_is_alpha_def char_in_def schar_def)
  ultimately have ok: "list_all (\<lambda>(k, w). word_ok w) ?ws" by (simp add: TOKEN_STR_LEN_MAX_def)
  have sep: "separated ?ws" by (simp add: separated_def)
  have junk: "\<forall>i. token_ok ((\<lambda>i. blank_token) i)" by (simp add: blank_token_def token_ok_def TOKEN_STR_LEN_MAX_def)
  have vec: "length (ps_vec blank_parser) = SYNTAX_VEC_LEN"
    by (simp add: blank_parser_def SYNTAX_VEC_LEN_def)
  have line: "written_line ?ws 0 [] = ''help set'' @ [NUL]" by (simp add: written_line_def)
  from parser_do_correct [OF ok sep junk vec, of 0 "[]"] show ?thesis unfolding line by auto
qed

end
