(* ===== verification/Var_Table.thy ===== *)
theory Var_Table
  imports Lexer_Spec
begin

text \<open>
  The table of the shell variables (\<open>sh/var_table.c\<close>, \<open>sh/include/var_entry.h\<close>): eight static
  entries. A pointer to an entry is its index, \<open>NULL\<close> is \<open>None\<close>; the outer \<open>None\<close> is a read outside
  a string. The second half states what the table promises: it is a map from a name and a type to a
  value with room for eight keys.
\<close>

section \<open>Entries\<close>

definition VAR_NAME_STR_LEN_MAX :: nat where "VAR_NAME_STR_LEN_MAX = TOKEN_STR_LEN_MAX"
definition VAR_VAL_STR_LEN_MAX :: nat where "VAR_VAL_STR_LEN_MAX = 15"
definition TABLE_LEN :: nat where "TABLE_LEN = 8"

definition TYPE_STR :: int where "TYPE_STR = 1"
definition TYPE_INT :: int where "TYPE_INT = 2"
definition TYPE_BOOL :: int where "TYPE_BOOL = 4"

lemmas var_consts = VAR_NAME_STR_LEN_MAX_def VAR_VAL_STR_LEN_MAX_def TABLE_LEN_def
  TYPE_STR_def TYPE_INT_def TYPE_BOOL_def TOKEN_STR_LEN_MAX_def

record var_entry =
  ve_name :: "char list"
  ve_used :: bool
  ve_type :: int
  ve_int_val :: u32
  ve_str_val :: "char list"
  ve_bool_val :: bool

definition var_entry_is_int :: "var_entry \<Rightarrow> bool" where
  "var_entry_is_int e \<longleftrightarrow> ve_type e = TYPE_INT"

definition var_entry_is_str :: "var_entry \<Rightarrow> bool" where
  "var_entry_is_str e \<longleftrightarrow> ve_type e = TYPE_STR"

section \<open>Operations\<close>

definition init_entry :: "var_entry \<Rightarrow> var_entry" where
  "init_entry e = e\<lparr>ve_used := False\<rparr>"

definition var_table_init :: "var_entry list \<Rightarrow> var_entry list" where
  "var_table_init tab = map init_entry tab"

fun get_entry_from :: "var_entry list \<Rightarrow> nat \<Rightarrow> char list \<Rightarrow> int \<Rightarrow> nat option option" where
  "get_entry_from [] i name ty = Some None"
| "get_entry_from (e # es) i name ty =
     (if \<not> ve_used e then get_entry_from es (Suc i) name ty
      else if ty \<noteq> ve_type e then get_entry_from es (Suc i) name ty
      else (case strcmp (ve_name e) name of
              None \<Rightarrow> None
            | Some r \<Rightarrow> if r = 0 then Some (Some i) else get_entry_from es (Suc i) name ty))"

definition get_entry :: "var_entry list \<Rightarrow> char list \<Rightarrow> int \<Rightarrow> nat option option" where
  "get_entry tab name ty = get_entry_from tab 0 name ty"

fun free_from :: "var_entry list \<Rightarrow> nat \<Rightarrow> nat option" where
  "free_from [] i = None"
| "free_from (e # es) i = (if \<not> ve_used e then Some i else free_from es (Suc i))"

definition get_free_entry :: "var_entry list \<Rightarrow> nat option \<times> var_entry list" where
  "get_free_entry tab =
     (case free_from tab 0 of
        None \<Rightarrow> (None, tab)
      | Some i \<Rightarrow> (Some i, tab[i := (tab ! i)\<lparr>ve_used := True\<rparr>]))"

definition get_variable_token_type :: "token \<Rightarrow> int" where
  "get_variable_token_type var_name =
     (let c = token_str var_name ! 0
      in if c = SIGIL_STR_VAR then TYPE_STR
         else if c = SIGIL_INT_VAR then TYPE_INT
         else if c = SIGIL_BOOL_VAR then TYPE_BOOL
         else -1)"

text \<open>The name of a newly allocated entry.\<close>

definition set_entry_name :: "token \<Rightarrow> var_entry \<Rightarrow> var_entry option" where
  "set_entry_name var_name e =
     (case strncpy (ve_name e) (tl (token_str var_name)) VAR_NAME_STR_LEN_MAX of
        None \<Rightarrow> None
      | Some n \<Rightarrow> Some (e\<lparr>ve_name := n[VAR_NAME_STR_LEN_MAX := NUL]\<rparr>))"

text \<open>The type and the value of an entry.\<close>

definition set_entry_value :: "int \<Rightarrow> token \<Rightarrow> var_entry \<Rightarrow> var_entry option" where
  "set_entry_value ty v e =
     (let e1 = e\<lparr>ve_type := ty\<rparr>
      in if ty = TYPE_STR then
           (case strncpy (ve_str_val e1) (token_str v) VAR_VAL_STR_LEN_MAX of
              None \<Rightarrow> None
            | Some s \<Rightarrow> Some (e1\<lparr>ve_str_val := s[VAR_VAL_STR_LEN_MAX := NUL]\<rparr>))
         else if ty = TYPE_INT then Some (e1\<lparr>ve_int_val := token_integer v\<rparr>)
         else if ty = TYPE_BOOL then Some (e1\<lparr>ve_bool_val := token_boolean v\<rparr>)
         else Some e1)"

definition var_set_entry :: "token \<Rightarrow> token \<Rightarrow> var_entry list \<Rightarrow> (int \<times> var_entry list) option" where
  "var_set_entry var_name v tab =
     (if \<not> token_is_variable var_name then Some (1, tab)
      else (let ty = get_variable_token_type var_name
            in if ty = -1 then Some (1, tab)
               else if ty = TYPE_STR \<and> \<not> token_is_lstring v then Some (1, tab)
               else if (ty = TYPE_INT \<or> ty = TYPE_BOOL) \<and> \<not> token_is_luinteger v then Some (1, tab)
               else (case get_entry tab (tl (token_str var_name)) ty of
                       None \<Rightarrow> None
                     | Some (Some i) \<Rightarrow>
                         map_option (\<lambda>e. (0, tab[i := e])) (set_entry_value ty v (tab ! i))
                     | Some None \<Rightarrow>
                         (case get_free_entry tab of
                            (None, tab1) \<Rightarrow> Some (1, tab1)
                          | (Some i, tab1) \<Rightarrow>
                              (case set_entry_name var_name (tab1 ! i) of
                                 None \<Rightarrow> None
                               | Some e1 \<Rightarrow>
                                   map_option (\<lambda>e. (0, tab1[i := e])) (set_entry_value ty v e1))))))"

definition var_get_entry :: "token \<Rightarrow> var_entry list \<Rightarrow> nat option option" where
  "var_get_entry var_name tab =
     (if \<not> token_is_variable var_name then Some None
      else (let ty = get_variable_token_type var_name
            in if ty = -1 then Some None else get_entry tab (tl (token_str var_name)) ty))"

text \<open>The callback gets an entry and the state it works on; a result other than 0 ends the loop.\<close>

fun var_foreach :: "(var_entry \<Rightarrow> 's \<Rightarrow> (int \<times> 's) option) \<Rightarrow> var_entry list \<Rightarrow> 's \<Rightarrow> (int \<times> 's) option" where
  "var_foreach f [] s = Some (0, s)"
| "var_foreach f (e # es) s =
     (if \<not> ve_used e then var_foreach f es s
      else (case f e s of
              None \<Rightarrow> None
            | Some (rc, s') \<Rightarrow> if rc \<noteq> 0 then Some (1, s') else var_foreach f es s'))"

section \<open>The table as a map\<close>

datatype var_value = V_int u32 | V_str "char list" | V_bool bool

definition cstr :: "char list \<Rightarrow> char list" where
  "cstr buf = takeWhile (\<lambda>c. c \<noteq> NUL) buf"

definition entry_value :: "var_entry \<Rightarrow> var_value" where
  "entry_value e =
     (if ve_type e = TYPE_STR then V_str (cstr (ve_str_val e))
      else if ve_type e = TYPE_INT then V_int (ve_int_val e) else V_bool (ve_bool_val e))"

definition entry_key :: "var_entry \<Rightarrow> char list \<times> int" where
  "entry_key e = (cstr (ve_name e), ve_type e)"

definition table_map :: "var_entry list \<Rightarrow> (char list \<times> int) \<Rightarrow> var_value option" where
  "table_map tab k = map_option entry_value (find (\<lambda>e. ve_used e \<and> entry_key e = k) tab)"

definition entry_ok :: "var_entry \<Rightarrow> bool" where
  "entry_ok e \<longleftrightarrow> length (ve_name e) = VAR_NAME_STR_LEN_MAX + 1 \<and>
     length (ve_str_val e) = VAR_VAL_STR_LEN_MAX + 1 \<and> (ve_used e \<longrightarrow> NUL \<in> set (ve_name e))"

text \<open>The invariant: no two used entries have the same name and type.\<close>

definition table_ok :: "var_entry list \<Rightarrow> bool" where
  "table_ok tab \<longleftrightarrow> length tab = TABLE_LEN \<and> list_all entry_ok tab \<and>
     (\<forall>i < TABLE_LEN. \<forall>j < TABLE_LEN. ve_used (tab ! i) \<and> ve_used (tab ! j) \<and>
        entry_key (tab ! i) = entry_key (tab ! j) \<longrightarrow> i = j)"

section \<open>Lookup\<close>

lemma c_string_cstr: "c_string buf s \<Longrightarrow> cstr buf = s"
proof (induction buf arbitrary: s)
  case (Cons b bs)
  then show ?case by (cases s) (auto simp: cstr_def)
qed simp

lemma cstr_c_string: "NUL \<in> set buf \<Longrightarrow> c_string buf (cstr buf)"
proof (induction buf)
  case (Cons b bs)
  then show ?case by (cases "b = NUL") (auto simp: cstr_def)
qed simp

lemma get_entry_from_found:
  "list_all entry_ok es \<Longrightarrow> c_string name n \<Longrightarrow> get_entry_from es i name ty = Some (Some k) \<Longrightarrow>
   i \<le> k \<and> k < i + length es \<and> ve_used (es ! (k - i)) \<and> entry_key (es ! (k - i)) = (n, ty)"
proof (induction es i name ty rule: get_entry_from.induct)
  case (2 e es i name ty)
  show ?case
  proof (cases "ve_used e \<and> ty = ve_type e \<and> strcmp (ve_name e) name = Some 0")
    case True
    then have "c_string (ve_name e) (cstr (ve_name e))"
      using "2.prems"(1) by (intro cstr_c_string) (simp add: entry_ok_def)
    with True "2.prems"(2) have "cstr (ve_name e) = n" by (simp add: strcmp_zero_eq)
    with True "2.prems"(3) show ?thesis by (simp add: entry_key_def)
  next
    case False
    with "2.prems"(3) have "get_entry_from es (Suc i) name ty = Some (Some k)"
      by (auto split: if_splits option.splits)
    with False "2.IH" "2.prems" show ?thesis
      by (auto simp: nth_Cons' Suc_le_eq split: if_splits option.splits)
  qed
qed simp

lemma get_entry_from_total:
  "list_all entry_ok es \<Longrightarrow> c_string name n \<Longrightarrow> \<exists>r. get_entry_from es i name ty = Some r \<and>
     (r = None \<longrightarrow> list_all (\<lambda>e. \<not> (ve_used e \<and> entry_key e = (n, ty))) es)"
proof (induction es i name ty rule: get_entry_from.induct)
  case (2 e es i name ty)
  show ?case
  proof (cases "ve_used e \<and> ty = ve_type e")
    case True
    then have c: "c_string (ve_name e) (cstr (ve_name e))"
      using "2.prems"(1) by (intro cstr_c_string) (simp add: entry_ok_def)
    from strcmp_returns [OF c "2.prems"(2)] obtain r where r: "strcmp (ve_name e) name = Some r" by blast
    with strcmp_zero_eq [OF c "2.prems"(2)] True "2.IH"(3) [of r] "2.prems" show ?thesis
      by (cases "r = 0") (auto simp: entry_key_def)
  next
    case False
    with "2.IH"(1,2) "2.prems" show ?thesis by (auto simp: entry_key_def)
  qed
qed simp

lemma get_entry_found:
  "table_ok tab \<Longrightarrow> c_string name n \<Longrightarrow> get_entry tab name ty = Some (Some i) \<Longrightarrow>
   i < TABLE_LEN \<and> ve_used (tab ! i) \<and> entry_key (tab ! i) = (n, ty)"
  using get_entry_from_found [of tab name n 0 ty i] by (auto simp: get_entry_def table_ok_def)

lemma get_entry_total:
  "table_ok tab \<Longrightarrow> c_string name n \<Longrightarrow> \<exists>r. get_entry tab name ty = Some r \<and>
     (r = None \<longrightarrow> (\<forall>j < TABLE_LEN. \<not> (ve_used (tab ! j) \<and> entry_key (tab ! j) = (n, ty))))"
  using get_entry_from_total [of tab name n 0 ty] by (auto simp: get_entry_def table_ok_def list_all_length)

lemma table_map_iff:
  assumes "table_ok tab"
  shows "table_map tab k = Some v \<longleftrightarrow>
    (\<exists>i < TABLE_LEN. ve_used (tab ! i) \<and> entry_key (tab ! i) = k \<and> entry_value (tab ! i) = v)"
proof
  assume "table_map tab k = Some v"
  then show "\<exists>i < TABLE_LEN. ve_used (tab ! i) \<and> entry_key (tab ! i) = k \<and> entry_value (tab ! i) = v"
    using assms by (auto simp: table_map_def table_ok_def find_Some_iff)
next
  assume "\<exists>i < TABLE_LEN. ve_used (tab ! i) \<and> entry_key (tab ! i) = k \<and> entry_value (tab ! i) = v"
  then obtain i where i: "i < TABLE_LEN" "ve_used (tab ! i)" "entry_key (tab ! i) = k" "entry_value (tab ! i) = v"
    by blast
  have "\<forall>j < i. \<not> (ve_used (tab ! j) \<and> entry_key (tab ! j) = k)"
    using assms i unfolding table_ok_def by (metis less_trans nat_neq_iff)
  with i assms have "find (\<lambda>e. ve_used e \<and> entry_key e = k) tab = Some (tab ! i)"
    by (auto simp: find_Some_iff table_ok_def)
  with i(4) show "table_map tab k = Some v" by (simp add: table_map_def)
qed

lemma table_map_None:
  "table_ok tab \<Longrightarrow> table_map tab k = None \<longleftrightarrow>
   (\<forall>j < TABLE_LEN. \<not> (ve_used (tab ! j) \<and> entry_key (tab ! j) = k))"
  by (auto simp: table_map_def table_ok_def find_None_iff in_set_conv_nth)

section \<open>Update\<close>

lemma some_eqI: "(\<And>v. x = Some v \<longleftrightarrow> y = Some v) \<Longrightarrow> x = y"
  by (cases x; cases y) auto

lemma table_update:
  assumes ok: "table_ok tab" and i: "i < TABLE_LEN" and e: "entry_ok e" "ve_used e"
    and same: "ve_used (tab ! i) \<longrightarrow> entry_key (tab ! i) = entry_key e"
    and other: "\<forall>j < TABLE_LEN. j \<noteq> i \<and> ve_used (tab ! j) \<longrightarrow> entry_key (tab ! j) \<noteq> entry_key e"
  shows "table_ok (tab[i := e])"
    and "table_map (tab[i := e]) = (table_map tab)(entry_key e \<mapsto> entry_value e)"
proof -
  have len: "length tab = TABLE_LEN" using ok by (simp add: table_ok_def)
  show ok': "table_ok (tab[i := e])"
    using ok i e(1) other len
    unfolding table_ok_def list_all_length by (auto simp: nth_list_update)
  show "table_map (tab[i := e]) = (table_map tab)(entry_key e \<mapsto> entry_value e)"
  proof (rule ext, rule some_eqI)
    fix k v
    show "table_map (tab[i := e]) k = Some v \<longleftrightarrow> ((table_map tab)(entry_key e \<mapsto> entry_value e)) k = Some v"
    proof (cases "k = entry_key e")
      case True
      then show ?thesis using i e(2) other len by (auto simp: table_map_iff [OF ok'] nth_list_update)
    next
      case False
      then show ?thesis using same len i
        by (auto simp: table_map_iff [OF ok'] table_map_iff [OF ok] nth_list_update)
    qed
  qed
qed

lemma set_entry_value_str:
  assumes "entry_ok e" and "token_ok v" and "c_string (token_str v) s" and "length s \<le> VAR_VAL_STR_LEN_MAX"
  shows "\<exists>b. set_entry_value TYPE_STR v e = Some (e\<lparr>ve_type := TYPE_STR, ve_str_val := b\<rparr>) \<and>
    length b = VAR_VAL_STR_LEN_MAX + 1 \<and> cstr b = s"
proof -
  have len: "length (ve_str_val e) = 16" "length (token_str v) = 16"
    using assms(1,2) by (simp_all add: entry_ok_def token_ok_def token_str_def var_consts)
  show ?thesis
  proof (cases "length s < 15")
    case True
    then have "strncpy (ve_str_val e) (token_str v) 15 = Some (s @ NUL # drop (Suc (length s)) (ve_str_val e))"
      using strncpy_c_string [OF assms(3), of 15 "ve_str_val e"] len by simp
    moreover have "c_string ((s @ NUL # drop (Suc (length s)) (ve_str_val e))[15 := NUL]) s"
      using assms(3) True by (auto simp: c_string_def list_update_append split: nat.split)
    ultimately show ?thesis
      using True len by (auto simp: set_entry_value_def var_consts c_string_cstr)
  next
    case False
    with assms(4) have s: "length s = 15" by (simp add: var_consts)
    then have tk: "take 15 (token_str v) = s" and nul: "NUL \<notin> set s"
      using assms(3) by (auto simp: c_string_def)
    then have "strncpy (ve_str_val e) (token_str v) 15 = Some (s @ drop 15 (ve_str_val e))"
      using strncpy_full [of 15 "token_str v" "ve_str_val e"] len by simp
    moreover have "(s @ drop 15 (ve_str_val e))[15 := NUL] = s @ [NUL]"
      using s len by (cases "drop 15 (ve_str_val e)") (auto simp: list_update_append dest: arg_cong [of _ _ length])
    moreover have "cstr (s @ [NUL]) = s" using nul by (intro c_string_cstr) (simp add: c_string_def)
    ultimately show ?thesis using s by (auto simp: set_entry_value_def var_consts)
  qed
qed

text \<open>The value that a token stands for, when its type is the one of the variable.\<close>

fun token_value :: "int \<Rightarrow> token \<Rightarrow> var_value \<Rightarrow> bool" where
  "token_value ty t (V_str s) \<longleftrightarrow>
     ty = TYPE_STR \<and> token_is_lstring t \<and> c_string (token_str t) s \<and> length s \<le> VAR_VAL_STR_LEN_MAX"
| "token_value ty t (V_int n) \<longleftrightarrow> ty = TYPE_INT \<and> token_is_luinteger t \<and> token_integer t = n"
| "token_value ty t (V_bool b) \<longleftrightarrow> ty = TYPE_BOOL \<and> token_is_luinteger t \<and> token_boolean t = b"

lemma set_entry_value_ok:
  assumes "entry_ok e" and "token_ok t" and "token_value ty t v"
  shows "\<exists>e'. set_entry_value ty t e = Some e' \<and> entry_ok e' \<and> ve_used e' = ve_used e \<and>
    entry_key e' = (cstr (ve_name e), ty) \<and> entry_value e' = v"
proof (cases v)
  case (V_str s)
  with assms(3) have ty: "ty = TYPE_STR" and s: "c_string (token_str t) s" "length s \<le> VAR_VAL_STR_LEN_MAX"
    by simp_all
  from set_entry_value_str [OF assms(1,2) s] obtain b where
    "set_entry_value TYPE_STR t e = Some (e\<lparr>ve_type := TYPE_STR, ve_str_val := b\<rparr>)"
    "length b = VAR_VAL_STR_LEN_MAX + 1" "cstr b = s" by blast
  with ty V_str assms(1) show ?thesis by (simp add: entry_ok_def entry_key_def entry_value_def)
next
  case (V_int n)
  with assms show ?thesis by (simp add: set_entry_value_def entry_ok_def entry_key_def entry_value_def var_consts)
next
  case (V_bool b)
  with assms show ?thesis by (simp add: set_entry_value_def entry_ok_def entry_key_def entry_value_def var_consts)
qed

text \<open>A variable token: the type given by its sigil and the name behind it.\<close>

definition variable_token :: "token \<Rightarrow> char list \<Rightarrow> int \<Rightarrow> bool" where
  "variable_token t n ty \<longleftrightarrow> token_ok t \<and> token_is_variable t \<and>
     (\<exists>c. c_string (token_str t) (c # n) \<and> get_variable_token_type t = ty \<and> ty \<noteq> -1)"

lemma variable_token_name:
  assumes "variable_token t n ty"
  shows "c_string (tl (token_str t)) n" and "length n < VAR_NAME_STR_LEN_MAX"
proof -
  from assms obtain c where c: "c_string (token_str t) (c # n)" and len: "length (token_str t) = 16"
    by (auto simp: variable_token_def token_ok_def token_str_def TOKEN_STR_LEN_MAX_def)
  from c show "c_string (tl (token_str t)) n" by (cases "token_str t") simp_all
  from c_string_length [OF c] len show "length n < VAR_NAME_STR_LEN_MAX" by (simp add: var_consts)
qed

lemma set_entry_name_ok:
  assumes "entry_ok e" and "variable_token t n ty"
  shows "\<exists>e'. set_entry_name t (e\<lparr>ve_used := True\<rparr>) = Some e' \<and> entry_ok e' \<and> ve_used e' \<and> cstr (ve_name e') = n"
proof -
  note nm = variable_token_name [OF assms(2)]
  have len: "length (ve_name e) = 16" using assms(1) by (simp add: entry_ok_def var_consts)
  let ?b = "n @ NUL # drop (Suc (length n)) (ve_name e)"
  have copy: "strncpy (ve_name e) (tl (token_str t)) 15 = Some ?b"
    using strncpy_c_string [OF nm(1), of 15 "ve_name e"] nm(2) len by (simp add: var_consts)
  have cs: "c_string (?b[15 := NUL]) n"
    using nm by (auto simp: c_string_def var_consts list_update_append split: nat.split)
  then have "NUL \<in> set (?b[15 := NUL])" by (auto simp: c_string_def)
  moreover have "length (?b[15 := NUL]) = 16" using nm(2) len by (simp add: var_consts)
  ultimately show ?thesis
    using copy assms(1) c_string_cstr [OF cs]
    by (simp add: set_entry_name_def entry_ok_def var_consts)
qed

lemma free_from_cases:
  "case free_from es i of
     None \<Rightarrow> list_all ve_used es
   | Some k \<Rightarrow> i \<le> k \<and> k < i + length es \<and> \<not> ve_used (es ! (k - i))"
proof (induction es i rule: free_from.induct)
  case (2 e es i)
  then show ?case by (auto simp: nth_Cons' Suc_le_eq split: option.splits)
qed simp

lemma variable_token_type_cases: "get_variable_token_type t \<in> {TYPE_STR, TYPE_INT, TYPE_BOOL, -1}"
  by (simp add: get_variable_token_type_def Let_def)

lemma var_set_entry_guards:
  assumes "variable_token t n ty" and "token_value ty vt v"
  shows "var_set_entry t vt tab =
    (case get_entry tab (tl (token_str t)) ty of
       None \<Rightarrow> None
     | Some (Some i) \<Rightarrow> map_option (\<lambda>e. (0, tab[i := e])) (set_entry_value ty vt (tab ! i))
     | Some None \<Rightarrow>
         (case get_free_entry tab of
            (None, tab1) \<Rightarrow> Some (1, tab1)
          | (Some i, tab1) \<Rightarrow>
              (case set_entry_name t (tab1 ! i) of
                 None \<Rightarrow> None
               | Some e1 \<Rightarrow> map_option (\<lambda>e. (0, tab1[i := e])) (set_entry_value ty vt e1))))"
  using assms unfolding var_set_entry_def variable_token_def
  by (cases v) (auto simp: Let_def var_consts token_is_defs)

text \<open>Assigning a value to a variable updates the map, unless a new variable finds the table full.\<close>

lemma table_full_iff:
  assumes ok: "table_ok tab"
  shows "list_all ve_used tab \<longleftrightarrow> \<not> card (dom (table_map tab)) < TABLE_LEN"
proof -
  let ?I = "{i. i < TABLE_LEN \<and> ve_used (tab ! i)}"
  have "dom (table_map tab) = (\<lambda>i. entry_key (tab ! i)) ` ?I"
    by (auto simp: dom_def table_map_iff [OF ok] intro!: rev_image_eqI)
  moreover have "inj_on (\<lambda>i. entry_key (tab ! i)) ?I" using ok by (auto simp: inj_on_def table_ok_def)
  ultimately have card: "card (dom (table_map tab)) = card ?I" by (simp add: card_image)
  have sub: "?I \<subseteq> {..<TABLE_LEN}" by auto
  have le: "card ?I \<le> TABLE_LEN" using card_mono [OF finite_lessThan sub] by simp
  have "list_all ve_used tab \<longleftrightarrow> ?I = {..<TABLE_LEN}"
    using ok by (auto simp: list_all_length table_ok_def)
  also have "\<dots> \<longleftrightarrow> card ?I = TABLE_LEN"
    using card_subset_eq [OF finite_lessThan sub] by (metis card_lessThan)
  also have "\<dots> \<longleftrightarrow> \<not> card ?I < TABLE_LEN" using le by linarith
  finally show ?thesis using card by simp
qed

lemma var_set_entry_found:
  assumes ok: "table_ok tab" and t: "variable_token t n ty" and vt: "token_ok vt" "token_value ty vt v"
    and found: "get_entry tab (tl (token_str t)) ty = Some (Some i)"
  shows "\<exists>tab'. var_set_entry t vt tab = Some (0, tab') \<and> table_ok tab' \<and> (n, ty) \<in> dom (table_map tab) \<and>
    table_map tab' = (table_map tab)((n, ty) \<mapsto> v)"
proof -
  have eok: "\<And>i. i < TABLE_LEN \<Longrightarrow> entry_ok (tab ! i)" using ok by (auto simp: table_ok_def list_all_length)
  from get_entry_found [OF ok variable_token_name(1) [OF t]] found
  have i: "i < TABLE_LEN" "ve_used (tab ! i)" "entry_key (tab ! i) = (n, ty)" by auto
  from set_entry_value_ok [OF eok [OF i(1)] vt] i obtain e where
    e: "set_entry_value ty vt (tab ! i) = Some e" "entry_ok e" "ve_used e" "entry_key e = (n, ty)" "entry_value e = v"
    by (auto simp: entry_key_def)
  have other: "\<forall>j < TABLE_LEN. j \<noteq> i \<and> ve_used (tab ! j) \<longrightarrow> entry_key (tab ! j) \<noteq> entry_key e"
    using ok i e(4) unfolding table_ok_def by metis
  have same: "ve_used (tab ! i) \<longrightarrow> entry_key (tab ! i) = entry_key e" using i(3) e(4) by simp
  from table_update [OF ok i(1) e(2,3) same other] e(4,5)
  have "table_ok (tab[i := e])" "table_map (tab[i := e]) = (table_map tab)((n, ty) \<mapsto> v)" by simp_all
  moreover have "(n, ty) \<in> dom (table_map tab)" using i table_map_iff [OF ok] by auto
  moreover have "var_set_entry t vt tab = Some (0, tab[i := e])"
    using var_set_entry_guards [OF t vt(2), of tab] found e(1) by simp
  ultimately show ?thesis by auto
qed

lemma var_set_entry_new:
  assumes ok: "table_ok tab" and t: "variable_token t n ty" and vt: "token_ok vt" "token_value ty vt v"
    and new: "get_entry tab (tl (token_str t)) ty = Some None" "table_map tab (n, ty) = None" "free_from tab 0 = Some i"
  shows "\<exists>tab'. var_set_entry t vt tab = Some (0, tab') \<and> table_ok tab' \<and> card (dom (table_map tab)) < TABLE_LEN \<and>
    table_map tab' = (table_map tab)((n, ty) \<mapsto> v)"
proof -
  have len: "length tab = TABLE_LEN" and eok: "\<And>i. i < TABLE_LEN \<Longrightarrow> entry_ok (tab ! i)"
    using ok by (auto simp: table_ok_def list_all_length)
  from new(3) free_from_cases [of tab 0] len have i: "i < TABLE_LEN" "\<not> ve_used (tab ! i)" by simp_all
  let ?e0 = "(tab ! i)\<lparr>ve_used := True\<rparr>"
  have free: "get_free_entry tab = (Some i, tab[i := ?e0])" using new(3) by (simp add: get_free_entry_def)
  from set_entry_name_ok [OF eok [OF i(1)] t] obtain e1 where
    e1: "set_entry_name t ?e0 = Some e1" "entry_ok e1" "ve_used e1" "cstr (ve_name e1) = n" by blast
  from set_entry_value_ok [OF e1(2) vt] e1 obtain e where
    e: "set_entry_value ty vt e1 = Some e" "entry_ok e" "ve_used e" "entry_key e = (n, ty)" "entry_value e = v" by auto
  have other: "\<forall>j < TABLE_LEN. j \<noteq> i \<and> ve_used (tab ! j) \<longrightarrow> entry_key (tab ! j) \<noteq> entry_key e"
    using new(2) e(4) table_map_None [OF ok] by auto
  have same: "ve_used (tab ! i) \<longrightarrow> entry_key (tab ! i) = entry_key e" using i(2) by simp
  from table_update [OF ok i(1) e(2,3) same other] e(4,5)
  have "table_ok (tab[i := e])" "table_map (tab[i := e]) = (table_map tab)((n, ty) \<mapsto> v)" by simp_all
  moreover have "card (dom (table_map tab)) < TABLE_LEN"
    using i len table_full_iff [OF ok] by (auto simp: list_all_length)
  moreover have "var_set_entry t vt tab = Some (0, tab[i := e])"
    using var_set_entry_guards [OF t vt(2), of tab] new(1) free i(1) len e1(1) e(1) by simp
  ultimately show ?thesis by auto
qed

lemma var_set_entry_spec:
  assumes ok: "table_ok tab" and t: "variable_token t n ty" and vt: "token_ok vt" "token_value ty vt v"
  shows "\<exists>rc tab'. var_set_entry t vt tab = Some (rc, tab') \<and> table_ok tab' \<and>
    (if (n, ty) \<in> dom (table_map tab) \<or> card (dom (table_map tab)) < TABLE_LEN
     then rc = 0 \<and> table_map tab' = (table_map tab)((n, ty) \<mapsto> v)
     else rc = 1 \<and> tab' = tab)"
proof -
  from get_entry_total [OF ok variable_token_name(1) [OF t], of ty] obtain r where
    r: "get_entry tab (tl (token_str t)) ty = Some r" and none: "r = None \<longrightarrow> table_map tab (n, ty) = None"
    using table_map_None [OF ok] by blast
  consider (found) i where "r = Some i" | (new) i where "r = None" "free_from tab 0 = Some i"
    | (full) "r = None" "free_from tab 0 = None" by blast
  then show ?thesis
  proof cases
    case found
    with var_set_entry_found [OF ok t vt] r show ?thesis by auto
  next
    case new
    with var_set_entry_new [OF ok t vt] r none show ?thesis by auto
  next
    case full
    with free_from_cases [of tab 0] have used: "list_all ve_used tab" by simp
    have "var_set_entry t vt tab = Some (1, tab)"
      using var_set_entry_guards [OF t vt(2), of tab] r full by (simp add: get_free_entry_def)
    then show ?thesis using ok used none full(1) table_full_iff [OF ok] by auto
  qed
qed

section \<open>Lookup through the interface\<close>

lemma var_get_entry_spec:
  assumes ok: "table_ok tab" and t: "variable_token t n ty"
  shows "\<exists>r. var_get_entry t tab = Some r \<and>
    table_map tab (n, ty) = map_option (\<lambda>i. entry_value (tab ! i)) r \<and> (\<forall>i. r = Some i \<longrightarrow> i < TABLE_LEN)"
proof -
  note nm = variable_token_name(1) [OF t]
  have run: "var_get_entry t tab = get_entry tab (tl (token_str t)) ty"
    using t by (auto simp: var_get_entry_def variable_token_def Let_def)
  from get_entry_total [OF ok nm, of ty] obtain r where r: "get_entry tab (tl (token_str t)) ty = Some r"
    and none: "r = None \<longrightarrow> table_map tab (n, ty) = None" using table_map_None [OF ok] by blast
  show ?thesis
  proof (cases r)
    case None
    with r none run show ?thesis by simp
  next
    case (Some i)
    with get_entry_found [OF ok nm] r have "i < TABLE_LEN" "ve_used (tab ! i)" "entry_key (tab ! i) = (n, ty)"
      by auto
    with table_map_iff [OF ok] run r Some show ?thesis by auto
  qed
qed

section \<open>The contract of a bounded store\<close>

text \<open>A sequence of assignments: whether all of them were accepted, and the final state.\<close>

definition assign_all :: "('k \<Rightarrow> 'v \<Rightarrow> 's \<Rightarrow> bool \<times> 's) \<Rightarrow> ('k \<times> 'v) list \<Rightarrow> 's \<Rightarrow> bool \<times> 's" where
  "assign_all put kvs s = fold (\<lambda>(k, v) (ok, s). (ok \<and> fst (put k v s), snd (put k v s))) kvs (True, s)"

lemma assign_all_snoc:
  "assign_all put (kvs @ [(k, v)]) s =
     (fst (assign_all put kvs s) \<and> fst (put k v (snd (assign_all put kvs s))),
      snd (put k v (snd (assign_all put kvs s))))"
  by (simp add: assign_all_def case_prod_beta)

text \<open>
  What the commands of the shell rely on: assigning to a key that is already there always works and
  replaces its value, a new key needs a free place, and a refused assignment changes nothing.
\<close>

locale bounded_store =
  fixes look :: "'s \<Rightarrow> 'k \<Rightarrow> 'v option" and put :: "'k \<Rightarrow> 'v \<Rightarrow> 's \<Rightarrow> bool \<times> 's"
    and invar :: "'s \<Rightarrow> bool" and good :: "'k \<Rightarrow> 'v \<Rightarrow> bool" and cap :: nat
  assumes put_invar: "invar s \<Longrightarrow> good k v \<Longrightarrow> invar (snd (put k v s))"
    and put_look: "invar s \<Longrightarrow> good k v \<Longrightarrow> k \<in> dom (look s) \<or> card (dom (look s)) < cap \<Longrightarrow>
      fst (put k v s) \<and> look (snd (put k v s)) = (look s)(k \<mapsto> v)"
    and put_full: "invar s \<Longrightarrow> good k v \<Longrightarrow> \<not> (k \<in> dom (look s) \<or> card (dom (look s)) < cap) \<Longrightarrow>
      put k v s = (False, s)"
    and look_bound: "invar s \<Longrightarrow> finite (dom (look s)) \<and> card (dom (look s)) \<le> cap"
begin

lemma assign_all_fit:
  "invar s \<Longrightarrow> list_all (\<lambda>(k, v). good k v) kvs \<Longrightarrow>
   card (dom (look s) \<union> fst ` set kvs) \<le> cap \<Longrightarrow>
   fst (assign_all put kvs s) \<and> invar (snd (assign_all put kvs s)) \<and> look (snd (assign_all put kvs s)) = look s ++ map_of (rev kvs)"
proof (induction kvs rule: rev_induct)
  case Nil
  then show ?case by (simp add: assign_all_def)
next
  case (snoc kv kvs)
  obtain k v where kv: "kv = (k, v)" by (cases kv)
  let ?D = "dom (look s) \<union> fst ` set kvs"
  have fin: "finite ?D" using look_bound [OF snoc.prems(1)] by simp
  have ins: "dom (look s) \<union> fst ` set (kvs @ [kv]) = insert k ?D" by (auto simp: kv)
  then have "card ?D \<le> cap" using snoc.prems(3) card_insert_le [of ?D k] by simp
  with snoc.IH snoc.prems have IH: "fst (assign_all put kvs s)" "invar (snd (assign_all put kvs s))"
    "look (snd (assign_all put kvs s)) = look s ++ map_of (rev kvs)" by auto
  have dom: "dom (look (snd (assign_all put kvs s))) = ?D" by (auto simp: IH(3) dom_map_of_conv_image_fst)
  have room: "k \<in> dom (look (snd (assign_all put kvs s))) \<or> card (dom (look (snd (assign_all put kvs s)))) < cap"
    unfolding dom using snoc.prems(3) fin ins by (cases "k \<in> ?D") auto
  have good: "good k v" using snoc.prems(2) kv by simp
  from put_look [OF IH(2) good room] put_invar [OF IH(2) good] IH show ?case
    by (auto simp: kv assign_all_snoc map_add_def fun_eq_iff split: option.split)
qed

end

section \<open>The variable table provides the contract\<close>

definition sigil_of :: "int \<Rightarrow> char" where
  "sigil_of ty = (if ty = TYPE_STR then SIGIL_STR_VAR else if ty = TYPE_INT then SIGIL_INT_VAR else SIGIL_BOOL_VAR)"

definition var_token :: "char list \<times> int \<Rightarrow> token" where
  "var_token k = \<lparr>tok_type = VARIABLE, tok_u = sigil_of (snd k) # fst k @ replicate (15 - length (fst k)) NUL\<rparr>"

fun value_token :: "var_value \<Rightarrow> token" where
  "value_token (V_str s) = \<lparr>tok_type = LSTRING, tok_u = s @ replicate (16 - length s) NUL\<rparr>"
| "value_token (V_int n) = put_word n \<lparr>tok_type = LUINTEGER, tok_u = replicate 16 NUL\<rparr>"
| "value_token (V_bool b) = put_word (if b then 1 else 0) \<lparr>tok_type = LUINTEGER, tok_u = replicate 16 NUL\<rparr>"

fun value_type :: "var_value \<Rightarrow> int" where
  "value_type (V_str s) = TYPE_STR"
| "value_type (V_int n) = TYPE_INT"
| "value_type (V_bool b) = TYPE_BOOL"

fun good_value :: "var_value \<Rightarrow> bool" where
  "good_value (V_str s) \<longleftrightarrow> NUL \<notin> set s \<and> length s \<le> VAR_VAL_STR_LEN_MAX"
| "good_value v \<longleftrightarrow> True"

definition good_key :: "char list \<times> int \<Rightarrow> bool" where
  "good_key k \<longleftrightarrow> NUL \<notin> set (fst k) \<and> length (fst k) < VAR_NAME_STR_LEN_MAX \<and>
     snd k \<in> {TYPE_STR, TYPE_INT, TYPE_BOOL}"

definition good_var :: "char list \<times> int \<Rightarrow> var_value \<Rightarrow> bool" where
  "good_var k v \<longleftrightarrow> good_key k \<and> snd k = value_type v \<and> good_value v"

definition var_put :: "char list \<times> int \<Rightarrow> var_value \<Rightarrow> var_entry list \<Rightarrow> bool \<times> var_entry list" where
  "var_put k v tab =
     (case var_set_entry (var_token k) (value_token v) tab of
        None \<Rightarrow> (False, tab)
      | Some (rc, tab') \<Rightarrow> (rc = 0, tab'))"

lemmas sigil_defs = SIGIL_STR_VAR_def SIGIL_INT_VAR_def SIGIL_BOOL_VAR_def

lemma variable_token_var_token:
  assumes "good_key k"
  shows "variable_token (var_token k) (fst k) (snd k)"
proof -
  let ?c = "sigil_of (snd k)"
  have c: "?c \<noteq> NUL" by (simp add: sigil_of_def sigil_defs)
  have ty: "get_variable_token_type (var_token k) = snd k" "snd k \<noteq> -1"
    using assms by (auto simp: get_variable_token_type_def var_token_def token_str_def sigil_of_def
        sigil_defs var_consts good_key_def)
  obtain m where "15 - length (fst k) = Suc m"
    using assms by (cases "15 - length (fst k)") (auto simp: good_key_def var_consts)
  then have "c_string (token_str (var_token k)) (?c # fst k)"
    using assms c by (auto simp: c_string_def var_token_def token_str_def good_key_def)
  with ty assms show ?thesis
    by (auto simp: variable_token_def var_token_def token_ok_def token_is_variable_def var_consts good_key_def)
qed

lemma token_boolean_put_word: "token_boolean (put_word n t) \<longleftrightarrow> unat n mod 256 \<noteq> 0"
proof -
  have "tok_u (put_word n t) ! 0 = byte_char (ucast n)" by (simp add: put_word_def le32_bytes_def)
  moreover have "byte_char b = NUL \<longleftrightarrow> b = 0" for b
  proof
    assume "byte_char b = NUL"
    then have "char_byte (byte_char b) = char_byte NUL" by (rule arg_cong)
    moreover have "char_byte NUL = 0" by (simp add: char_byte_def)
    ultimately show "b = 0" by simp
  qed (simp add: byte_char_def char_of_def)
  moreover have "(ucast n :: u8) = 0 \<longleftrightarrow> unat n mod 256 = 0"
    by (simp add: word_unat_eq_iff unsigned_ucast_eq take_bit_eq_mod)
  ultimately show ?thesis by (simp add: token_boolean_def)
qed

lemma value_token_ok:
  assumes "good_var k v"
  shows "token_ok (value_token v) \<and> token_value (snd k) (value_token v) v"
proof (cases v)
  case (V_str s)
  with assms have s: "NUL \<notin> set s" "length s \<le> 15" by (simp_all add: good_var_def var_consts)
  then obtain m where "16 - length s = Suc m" by (cases "16 - length s") auto
  with s V_str assms show ?thesis
    by (auto simp: token_ok_def token_str_def c_string_def token_is_lstring_def good_var_def var_consts)
next
  case (V_int n)
  have "token_ok \<lparr>tok_type = LUINTEGER, tok_u = replicate 16 NUL\<rparr>" by (simp add: token_ok_def var_consts)
  with V_int assms show ?thesis
    by (simp add: token_ok_put_word token_integer_put_word token_is_luinteger_def good_var_def)
next
  case (V_bool b)
  have "token_ok \<lparr>tok_type = LUINTEGER, tok_u = replicate 16 NUL\<rparr>" by (simp add: token_ok_def var_consts)
  with V_bool assms show ?thesis
    by (simp add: token_ok_put_word token_boolean_put_word token_is_luinteger_def good_var_def)
qed

lemma table_map_bound:
  assumes "table_ok tab"
  shows "finite (dom (table_map tab)) \<and> card (dom (table_map tab)) \<le> TABLE_LEN"
proof -
  have "dom (table_map tab) \<subseteq> (\<lambda>i. entry_key (tab ! i)) ` {..<TABLE_LEN}"
    by (auto simp: dom_def table_map_iff [OF assms] intro!: rev_image_eqI)
  from finite_subset [OF this] card_mono [OF _ this] card_image_le [of "{..<TABLE_LEN}" "\<lambda>i. entry_key (tab ! i)"]
  show ?thesis by simp
qed

lemma var_put_spec:
  assumes "table_ok tab" and "good_var k v"
  shows "table_ok (snd (var_put k v tab)) \<and>
    (if k \<in> dom (table_map tab) \<or> card (dom (table_map tab)) < TABLE_LEN
     then fst (var_put k v tab) \<and> table_map (snd (var_put k v tab)) = (table_map tab)(k \<mapsto> v)
     else var_put k v tab = (False, tab))"
proof -
  have "good_key k" using assms(2) by (simp add: good_var_def)
  from var_set_entry_spec [OF assms(1) variable_token_var_token [OF this], of "value_token v" v]
    value_token_ok [OF assms(2)]
  obtain rc tab' where "var_set_entry (var_token k) (value_token v) tab = Some (rc, tab')" "table_ok tab'"
    "if k \<in> dom (table_map tab) \<or> card (dom (table_map tab)) < TABLE_LEN
     then rc = 0 \<and> table_map tab' = (table_map tab)(k \<mapsto> v) else rc = 1 \<and> tab' = tab"
    by auto
  then show ?thesis by (simp add: var_put_def split: if_splits)
qed

interpretation vars: bounded_store table_map var_put table_ok good_var TABLE_LEN
proof
  fix s k v assume a: "table_ok s" "good_var k v"
  note sp = var_put_spec [OF a]
  show "table_ok (snd (var_put k v s))" using sp by simp
  show "fst (var_put k v s) \<and> table_map (snd (var_put k v s)) = (table_map s)(k \<mapsto> v)"
    if "k \<in> dom (table_map s) \<or> card (dom (table_map s)) < TABLE_LEN" using sp that by simp
  show "var_put k v s = (False, s)"
    if "\<not> (k \<in> dom (table_map s) \<or> card (dom (table_map s)) < TABLE_LEN)" using sp that by simp
qed (rule table_map_bound)

section \<open>Properties\<close>

text \<open>Every lookup reads the map: it finds an entry with the value of the variable, or nothing.\<close>

definition lookups_agree :: "var_entry list \<Rightarrow> bool" where
  "lookups_agree tab \<longleftrightarrow> (\<forall>t n ty. variable_token t n ty \<longrightarrow>
     (\<exists>r. var_get_entry t tab = Some r \<and> map_option (\<lambda>i. entry_value (tab ! i)) r = table_map tab (n, ty)))"

lemma table_lookups_agree: "table_ok tab \<Longrightarrow> lookups_agree tab"
  unfolding lookups_agree_def by (metis var_get_entry_spec)

text \<open>The guards: a value of the wrong type, a word that is not a variable.\<close>

definition ill_typed :: "int \<Rightarrow> token \<Rightarrow> bool" where
  "ill_typed ty vt \<longleftrightarrow> (if ty = TYPE_STR then \<not> token_is_lstring vt else \<not> token_is_luinteger vt)"

lemma var_set_entry_ill_typed:
  assumes "variable_token t n ty" and "ill_typed ty vt"
  shows "var_set_entry t vt tab = Some (1, tab)"
  using assms variable_token_type_cases [of t]
  by (auto simp: var_set_entry_def variable_token_def ill_typed_def Let_def split: if_splits)

lemma var_no_variable:
  assumes "\<not> token_is_variable u"
  shows "var_set_entry u vt tab = Some (1, tab)" and "var_get_entry u tab = Some None"
  using assms by (simp_all add: var_set_entry_def var_get_entry_def)

text \<open>C18. The variable table is a finite map with room for eight keys, a key being a name with a type.
  \<open>var_set_entry\<close> refines the update of the map: with a value of the type of the variable (a string of
  at most 15 characters, or a number, of which a boolean variable takes whether the lowest byte is not
  zero), if the variable is already in the table or a place is free, it returns 0 and the table
  afterwards maps the variable to the new value and every other variable to its old one, otherwise it
  returns 1 and the table is unchanged; no two entries ever share name and type. It returns 1 and
  leaves the table unchanged for a value of another type, and for a word that is not a variable.
  \<open>var_get_entry\<close> refines the lookup: in the table before and after, it finds for every variable an
  entry with the value in the map, or \<open>NULL\<close> if the map has none, and \<open>NULL\<close> for a word that is not a
  variable.\<close>

theorem var_set_entry_refines_update:
  assumes "table_ok tab" and "variable_token t n ty" and "token_ok vt"
  shows "(\<forall>v. token_value ty vt v \<longrightarrow> (\<exists>rc tab'. var_set_entry t vt tab = Some (rc, tab') \<and> table_ok tab' \<and>
       (if (n, ty) \<in> dom (table_map tab) \<or> card (dom (table_map tab)) < TABLE_LEN
        then rc = 0 \<and> table_map tab' = (table_map tab)((n, ty) \<mapsto> v)
        else rc = 1 \<and> tab' = tab) \<and> lookups_agree tab')) \<and>
    (ill_typed ty vt \<longrightarrow> var_set_entry t vt tab = Some (1, tab)) \<and> lookups_agree tab \<and>
    (\<forall>u. \<not> token_is_variable u \<longrightarrow> var_set_entry u vt tab = Some (1, tab) \<and> var_get_entry u tab = Some None)"
proof (intro conjI allI impI)
  fix v assume "token_value ty vt v"
  from var_set_entry_spec [OF assms this]
  show "\<exists>rc tab'. var_set_entry t vt tab = Some (rc, tab') \<and> table_ok tab' \<and>
       (if (n, ty) \<in> dom (table_map tab) \<or> card (dom (table_map tab)) < TABLE_LEN
        then rc = 0 \<and> table_map tab' = (table_map tab)((n, ty) \<mapsto> v)
        else rc = 1 \<and> tab' = tab) \<and> lookups_agree tab'"
    using table_lookups_agree by blast
qed (use var_set_entry_ill_typed [OF assms(2)] table_lookups_agree [OF assms(1)] var_no_variable in simp_all)

definition blank_entry :: var_entry where
  "blank_entry = \<lparr>ve_name = replicate 16 NUL, ve_used = False, ve_type = 0, ve_int_val = 0,
     ve_str_val = replicate 16 NUL, ve_bool_val = False\<rparr>"

definition blank_table :: "var_entry list" where
  "blank_table = replicate TABLE_LEN blank_entry"

lemma blank_table_ok: "table_ok blank_table" "table_map blank_table = Map.empty"
  by (simp_all add: blank_table_def blank_entry_def table_ok_def entry_ok_def table_map_def fun_eq_iff
      list_all_iff find_None_iff var_consts)

theorem var_set_entry_refines_update_witness:
  "\<exists>tab' i. var_set_entry (var_token (''x'', TYPE_INT)) (value_token (V_int 113)) blank_table = Some (0, tab') \<and>
     table_map tab' (''x'', TYPE_INT) = Some (V_int 113) \<and>
     var_get_entry (var_token (''x'', TYPE_INT)) tab' = Some (Some i) \<and> entry_value (tab' ! i) = V_int 113 \<and>
     var_set_entry (var_token (''x'', TYPE_INT)) (value_token (V_str ''q'')) blank_table = Some (1, blank_table)"
proof -
  have k: "good_var (''x'', TYPE_INT) (V_int 113)" and s: "good_var (''x'', TYPE_STR) (V_str ''q'')"
    by (simp_all add: good_var_def good_key_def var_consts)
  then have "good_key (''x'', TYPE_INT)" by (simp add: good_var_def)
  from variable_token_var_token [OF this] have t: "variable_token (var_token (''x'', TYPE_INT)) ''x'' TYPE_INT" by simp
  have ill: "ill_typed TYPE_INT (value_token (V_str ''q''))"
    by (simp add: ill_typed_def token_is_luinteger_def var_consts)
  note store = var_set_entry_refines_update [OF blank_table_ok(1) t]
  have ok: "token_ok (value_token (V_int 113))" "token_value TYPE_INT (value_token (V_int 113)) (V_int 113)"
    "token_ok (value_token (V_str ''q''))"
    using value_token_ok [OF k] value_token_ok [OF s] by simp_all
  from store [OF ok(1), THEN conjunct1, rule_format, OF ok(2)] obtain tab' where
    tab': "var_set_entry (var_token (''x'', TYPE_INT)) (value_token (V_int 113)) blank_table = Some (0, tab')"
      "table_map tab' (''x'', TYPE_INT) = Some (V_int 113)" "lookups_agree tab'"
    using blank_table_ok(2) by (auto simp: TABLE_LEN_def)
  from tab'(3) [unfolded lookups_agree_def, rule_format, OF t] tab'(2)
  obtain i where "var_get_entry (var_token (''x'', TYPE_INT)) tab' = Some (Some i)" "entry_value (tab' ! i) = V_int 113"
    by auto
  moreover have "var_set_entry (var_token (''x'', TYPE_INT)) (value_token (V_str ''q'')) blank_table = Some (1, blank_table)"
    using store [OF ok(3)] ill by blast
  ultimately show ?thesis using tab'(1,2) by blast
qed

text \<open>A session: starting from the empty table, any sequence of assignments that names at most
  eight different variables is accepted completely, and afterwards the lookup of every variable finds
  the value of its last assignment, or nothing if it was never assigned.\<close>

theorem var_session_correct:
  assumes "length tab = TABLE_LEN" and "list_all entry_ok tab"
    and "list_all (\<lambda>(k, v). good_var k v) kvs" and "card (fst ` set kvs) \<le> TABLE_LEN"
  shows "fst (assign_all var_put kvs (var_table_init tab)) \<and>
    (\<forall>k. good_key k \<longrightarrow>
       (\<exists>r. var_get_entry (var_token k) (snd (assign_all var_put kvs (var_table_init tab))) = Some r \<and>
          map_option (\<lambda>i. entry_value (snd (assign_all var_put kvs (var_table_init tab)) ! i)) r
            = map_of (rev kvs) k))"
proof -
  have ok: "table_ok (var_table_init tab)" and empty: "table_map (var_table_init tab) = Map.empty"
    using assms(1,2)
    by (auto simp: var_table_init_def init_entry_def table_ok_def entry_ok_def table_map_def fun_eq_iff
        list_all_iff find_None_iff)
  have "card (dom (table_map (var_table_init tab)) \<union> fst ` set kvs) \<le> TABLE_LEN"
    using assms(4) empty by simp
  from vars.assign_all_fit [OF ok assms(3) this] empty
  have run: "fst (assign_all var_put kvs (var_table_init tab))"
    "table_ok (snd (assign_all var_put kvs (var_table_init tab)))"
    "table_map (snd (assign_all var_put kvs (var_table_init tab))) = map_of (rev kvs)" by auto
  show ?thesis
  proof (intro conjI allI impI)
    fix k assume "good_key k"
    from var_get_entry_spec [OF run(2) variable_token_var_token [OF this]] run(3)
    show "\<exists>r. var_get_entry (var_token k) (snd (assign_all var_put kvs (var_table_init tab))) = Some r \<and>
          map_option (\<lambda>i. entry_value (snd (assign_all var_put kvs (var_table_init tab)) ! i)) r
            = map_of (rev kvs) k"
      by auto
  qed (rule run(1))
qed

theorem var_session_correct_witness:
  "fst (assign_all var_put [((''a'', TYPE_INT), V_int 1), ((''a'', TYPE_INT), V_int 2)] (var_table_init blank_table))
   \<and> (\<exists>r. var_get_entry (var_token (''a'', TYPE_INT)) (snd (assign_all var_put
         [((''a'', TYPE_INT), V_int 1), ((''a'', TYPE_INT), V_int 2)] (var_table_init blank_table))) = Some r \<and> r \<noteq> None)"
proof -
  let ?kvs = "[((''a'', TYPE_INT), V_int 1), ((''a'', TYPE_INT), V_int 2)]"
  have k: "good_key (''a'', TYPE_INT)" by (simp add: good_key_def var_consts)
  have "list_all (\<lambda>(k, v). good_var k v) ?kvs" by (simp add: good_var_def k)
  moreover have "card (fst ` set ?kvs) \<le> TABLE_LEN" by (simp add: var_consts)
  moreover have "list_all entry_ok blank_table" "length blank_table = TABLE_LEN"
    using blank_table_ok(1) by (simp_all add: table_ok_def)
  ultimately have "fst (assign_all var_put ?kvs (var_table_init blank_table))"
    and "\<exists>r. var_get_entry (var_token (''a'', TYPE_INT)) (snd (assign_all var_put ?kvs (var_table_init blank_table)))
        = Some r \<and> map_option (\<lambda>i. entry_value (snd (assign_all var_put ?kvs (var_table_init blank_table)) ! i)) r
            = map_of (rev ?kvs) (''a'', TYPE_INT)"
    using var_session_correct [of blank_table ?kvs] k by blast+
  then show ?thesis by (fastforce simp: option.map_sel)
qed

text \<open>Assigning a number to a boolean variable stores whether the lowest byte of the number is
  not zero, since the value is read through the wrong member of the token: 256 is stored as false.\<close>

theorem bool_assignment_reads_low_byte:
  assumes "table_ok tab" and "variable_token t n TYPE_BOOL" and "token_ok vt" and "tok_type vt = LUINTEGER"
    and "(n, TYPE_BOOL) \<in> dom (table_map tab)"
  shows "\<exists>tab'. var_set_entry t (put_word w vt) tab = Some (0, tab') \<and>
    table_map tab' (n, TYPE_BOOL) = Some (V_bool (unat w mod 256 \<noteq> 0))"
proof -
  have "token_ok (put_word w vt)" "token_value TYPE_BOOL (put_word w vt) (V_bool (unat w mod 256 \<noteq> 0))"
    using assms(3,4) by (simp_all add: token_ok_put_word token_boolean_put_word token_is_luinteger_def)
  from var_set_entry_spec [OF assms(1,2) this] assms(5) show ?thesis by auto
qed

theorem bool_assignment_reads_low_byte_witness:
  "\<exists>tab tab'. var_set_entry (var_token (''b'', TYPE_BOOL)) (put_word 256 (blank_token\<lparr>tok_type := LUINTEGER\<rparr>)) tab
     = Some (0, tab') \<and> table_map tab' (''b'', TYPE_BOOL) = Some (V_bool False)"
proof -
  have g: "good_var (''b'', TYPE_BOOL) (V_bool True)" by (simp add: good_var_def good_key_def var_consts)
  define tab where "tab = snd (var_put (''b'', TYPE_BOOL) (V_bool True) blank_table)"
  from var_put_spec [OF blank_table_ok(1) g] blank_table_ok(2)
  have tab: "table_ok tab" "(''b'', TYPE_BOOL) \<in> dom (table_map tab)" by (auto simp: tab_def TABLE_LEN_def)
  have t: "variable_token (var_token (''b'', TYPE_BOOL)) ''b'' TYPE_BOOL"
    using variable_token_var_token [of "(''b'', TYPE_BOOL)"] g by (simp add: good_var_def)
  have v: "token_ok (blank_token\<lparr>tok_type := LUINTEGER\<rparr>)"
    by (simp add: blank_token_def token_ok_def var_consts)
  from bool_assignment_reads_low_byte [OF tab(1) t v _ tab(2), of 256] show ?thesis
    by auto
qed

end
