(* ===== verification/Vga.thy ===== *)
theory Vga
  imports Port_Io
begin

text \<open>
  The text screen (\<open>drivers/vga.c\<close>): the video memory as a function from the 16-bit cell index that
  \<open>_xy2idx\<close> computes, of which the first 2000 cells are visible, and the writes to the ports of the
  cursor controller, latest first.
\<close>

section \<open>State\<close>

definition VGA_NUM_COLS :: nat where "VGA_NUM_COLS = 80"
definition VGA_NUM_ROWS :: nat where "VGA_NUM_ROWS = 25"
definition VGA_ATTR_GREEN :: u8 where "VGA_ATTR_GREEN = 0x0a"
definition VGA_ATTR_WHITE_ON_BLUE :: u8 where "VGA_ATTR_WHITE_ON_BLUE = 0x1f"

lemmas vga_consts = VGA_NUM_COLS_def VGA_NUM_ROWS_def VGA_ATTR_GREEN_def VGA_ATTR_WHITE_ON_BLUE_def

record vga =
  vga_mem :: "u16 \<Rightarrow> u16"
  vga_crtc :: "(u16 \<times> u8) list"

section \<open>Operations\<close>

definition xy2idx :: "u32 \<Rightarrow> u32 \<Rightarrow> u16" where
  "xy2idx col row = ucast (row * of_nat VGA_NUM_COLS + col)"

text \<open>The signed character is extended before the attribute is added.\<close>

definition encode_char_attr :: "char \<Rightarrow> u8 \<Rightarrow> u16" where
  "encode_char_attr c attr = push_bit 8 (ucast attr) OR of_int (schar c)"

definition vga_writec_attr_xy :: "char \<Rightarrow> u8 \<Rightarrow> u32 \<Rightarrow> u32 \<Rightarrow> vga \<Rightarrow> vga" where
  "vga_writec_attr_xy c attr x y v = v\<lparr>vga_mem := (vga_mem v)(xy2idx x y := encode_char_attr c attr)\<rparr>"

definition vga_draw_cursor_xy :: "u32 \<Rightarrow> u32 \<Rightarrow> vga \<Rightarrow> vga" where
  "vga_draw_cursor_xy x y v =
     (let idx = xy2idx x y
      in v\<lparr>vga_crtc := (0x3d5, ucast (0x00ff AND drop_bit 8 idx)) # (0x3d4, 0x0e) #
                       (0x3d5, ucast (0x00ff AND idx)) # (0x3d4, 0x0f) # vga_crtc v\<rparr>)"

definition vga_clear_row :: "u32 \<Rightarrow> vga \<Rightarrow> vga" where
  "vga_clear_row y v =
     fold (\<lambda>i. vga_writec_attr_xy (CHR '' '') VGA_ATTR_GREEN (of_nat i) y) [0..<VGA_NUM_COLS] v"

definition vga_scroll_down :: "vga \<Rightarrow> vga" where
  "vga_scroll_down v =
     vga_clear_row (of_nat VGA_NUM_ROWS - 1)
       (fold (\<lambda>i v. v\<lparr>vga_mem := (vga_mem v)(of_nat i := vga_mem v (of_nat (i + VGA_NUM_COLS)))\<rparr>)
          [0..<VGA_NUM_COLS * VGA_NUM_ROWS - VGA_NUM_COLS] v)"

definition vga_clear :: "vga \<Rightarrow> vga" where
  "vga_clear v = fold (\<lambda>y. vga_clear_row (of_nat y)) [0..<VGA_NUM_ROWS] v"

text \<open>The blue screen keeps the characters and changes the attribute of every visible cell.\<close>

definition vga_set_bsod :: "vga \<Rightarrow> vga" where
  "vga_set_bsod v =
     fold (\<lambda>i. fold (\<lambda>j v.
         (let idx = xy2idx (of_nat i) (of_nat j)
          in v\<lparr>vga_mem := (vga_mem v)(idx := encode_char_attr
                (char_of (unat (vga_mem v idx AND 0xff))) VGA_ATTR_WHITE_ON_BLUE)\<rparr>))
       [0..<VGA_NUM_ROWS]) [0..<VGA_NUM_COLS] v"

section \<open>Cells\<close>

lemma xy2idx_nat:
  assumes "80 * y + x < 65536"
  shows "xy2idx (of_nat x) (of_nat y) = of_nat (80 * y + x)"
proof -
  have "of_nat y * of_nat VGA_NUM_COLS + of_nat x = (of_nat (80 * y + x) :: u32)"
    by (simp add: VGA_NUM_COLS_def mult.commute)
  then show ?thesis using assms by (simp only: xy2idx_def unsigned_of_nat)
      (simp add: take_bit_nat_eq_self)
qed

lemma of_nat_u16_eq_iff: "a < 65536 \<Longrightarrow> b < 65536 \<Longrightarrow> (of_nat a :: u16) = of_nat b \<longleftrightarrow> a = b"
  by (auto simp: word_of_nat_eq_iff take_bit_nat_eq_self)

lemma unat_of_nat_u16: "a < 65536 \<Longrightarrow> unat (of_nat a :: u16) = a"
  by (simp add: unsigned_of_nat take_bit_nat_eq_self)

abbreviation blank_cell :: u16 where
  "blank_cell \<equiv> encode_char_attr (CHR '' '') VGA_ATTR_GREEN"

lemma vga_eqI: "vga_mem v = vga_mem w \<Longrightarrow> vga_crtc v = vga_crtc w \<Longrightarrow> v = (w :: vga)"
  by (cases v; cases w) simp

lemma u16_eq_nat: "n < 65536 \<Longrightarrow> k = of_nat n \<longleftrightarrow> unat (k :: u16) = n"
  using unat_of_nat_u16 [of n] by (auto simp: word_unat_eq_iff)

lemma clear_row_prefix:
  assumes "80 * y + n \<le> 65536"
  shows "fold (\<lambda>i. vga_writec_attr_xy (CHR '' '') VGA_ATTR_GREEN (of_nat i) (of_nat y)) [0..<n] v
    = v\<lparr>vga_mem := \<lambda>k. if 80 * y \<le> unat k \<and> unat k < 80 * y + n then blank_cell else vga_mem v k\<rparr>"
  using assms
proof (induction n)
  case 0
  show ?case by (rule vga_eqI) (auto simp: fun_eq_iff)
next
  case (Suc n)
  then have "xy2idx (of_nat n) (of_nat y) = of_nat (80 * y + n)" by (intro xy2idx_nat) simp
  then have cell: "k = xy2idx (of_nat n) (of_nat y) \<longleftrightarrow> unat k = 80 * y + n" for k
    using u16_eq_nat [of "80 * y + n" k] Suc.prems by (simp only:)
  have "fold (\<lambda>i. vga_writec_attr_xy (CHR '' '') VGA_ATTR_GREEN (of_nat i) (of_nat y)) [0..<Suc n] v
    = vga_writec_attr_xy (CHR '' '') VGA_ATTR_GREEN (of_nat n) (of_nat y)
        (v\<lparr>vga_mem := \<lambda>k. if 80 * y \<le> unat k \<and> unat k < 80 * y + n then blank_cell else vga_mem v k\<rparr>)"
    using Suc by simp
  also have "\<dots> = v\<lparr>vga_mem := \<lambda>k. if 80 * y \<le> unat k \<and> unat k < 80 * y + Suc n then blank_cell
      else vga_mem v k\<rparr>"
    by (rule vga_eqI) (auto simp: vga_writec_attr_xy_def cell fun_eq_iff)
  finally show ?case .
qed

text \<open>Clearing a row of the screen blanks exactly its cells.\<close>

lemma vga_clear_row_mem:
  assumes "y < VGA_NUM_ROWS"
  shows "vga_clear_row (of_nat y) v
    = v\<lparr>vga_mem := \<lambda>k. if 80 * y \<le> unat k \<and> unat k < 80 * y + 80 then blank_cell else vga_mem v k\<rparr>"
  using clear_row_prefix [of y 80 v] assms by (simp add: vga_clear_row_def vga_consts)

lemma clear_prefix:
  "n \<le> VGA_NUM_ROWS \<Longrightarrow> fold (\<lambda>y. vga_clear_row (of_nat y)) [0..<n] v
    = v\<lparr>vga_mem := \<lambda>k. if unat k < 80 * n then blank_cell else vga_mem v k\<rparr>"
proof (induction n)
  case (Suc n)
  then have "fold (\<lambda>y. vga_clear_row (of_nat y)) [0..<Suc n] v
    = vga_clear_row (of_nat n) (v\<lparr>vga_mem := \<lambda>k. if unat k < 80 * n then blank_cell else vga_mem v k\<rparr>)"
    by simp
  also have "\<dots> = v\<lparr>vga_mem := \<lambda>k. if unat k < 80 * Suc n then blank_cell else vga_mem v k\<rparr>"
    unfolding vga_clear_row_mem [OF Suc_le_lessD [OF Suc.prems]]
    by (rule vga_eqI) (auto simp: fun_eq_iff)
  finally show ?case .
qed simp

lemma vga_clear_mem:
  "vga_clear v = v\<lparr>vga_mem := \<lambda>k. if unat k < 2000 then blank_cell else vga_mem v k\<rparr>"
  using clear_prefix [of 25 v] by (simp add: vga_clear_def vga_consts)

lemma scroll_prefix:
  "n \<le> 1920 \<Longrightarrow>
   fold (\<lambda>i (v :: vga). v\<lparr>vga_mem := (vga_mem v)(of_nat i := vga_mem v (of_nat (i + VGA_NUM_COLS)))\<rparr>) [0..<n] v
    = v\<lparr>vga_mem := \<lambda>k. if unat k < n then vga_mem v (k + 80) else vga_mem v k\<rparr>"
proof (induction n)
  case (Suc n)
  let ?w = "v\<lparr>vga_mem := \<lambda>k. if unat k < n then vga_mem v (k + 80) else vga_mem v k\<rparr>"
  have cell: "k = of_nat n \<longleftrightarrow> unat k = n" for k :: u16 using Suc.prems by (intro u16_eq_nat) simp
  have src: "vga_mem ?w (of_nat (n + VGA_NUM_COLS)) = vga_mem v (of_nat n + 80)"
    using Suc.prems unat_of_nat_u16 [of "n + 80"] by (simp add: VGA_NUM_COLS_def)
  let ?f = "\<lambda>i (v :: vga). v\<lparr>vga_mem := (vga_mem v)(of_nat i := vga_mem v (of_nat (i + VGA_NUM_COLS)))\<rparr>"
  have IH: "fold ?f [0..<n] v = ?w" using Suc.prems by (intro Suc.IH) simp
  have "fold ?f [0..<Suc n] v = ?f n (fold ?f [0..<n] v)" by simp
  also have "\<dots> = ?f n ?w" unfolding IH ..
  also have "\<dots> = v\<lparr>vga_mem := \<lambda>k. if unat k < Suc n then vga_mem v (k + 80) else vga_mem v k\<rparr>"
    unfolding src by (rule vga_eqI) (auto simp: cell less_Suc_eq fun_eq_iff)
  finally show ?case .
qed simp

text \<open>Scrolling moves every row up by one and blanks the last one.\<close>

lemma vga_scroll_down_mem:
  "vga_scroll_down v = v\<lparr>vga_mem := \<lambda>k. if unat k < 1920 then vga_mem v (k + 80)
      else if unat k < 2000 then blank_cell else vga_mem v k\<rparr>"
proof -
  let ?w = "v\<lparr>vga_mem := \<lambda>k. if unat k < 1920 then vga_mem v (k + 80) else vga_mem v k\<rparr>"
  have row: "of_nat VGA_NUM_ROWS - 1 = (of_nat 24 :: u32)" by (simp add: VGA_NUM_ROWS_def)
  have rows: "VGA_NUM_COLS * VGA_NUM_ROWS - VGA_NUM_COLS = 1920" "24 < VGA_NUM_ROWS" by (simp_all add: vga_consts)
  have "vga_scroll_down v = vga_clear_row (of_nat 24) ?w"
    unfolding vga_scroll_down_def row rows using scroll_prefix [of 1920 v] by simp
  also have "\<dots> = v\<lparr>vga_mem := \<lambda>k. if unat k < 1920 then vga_mem v (k + 80)
      else if unat k < 2000 then blank_cell else vga_mem v k\<rparr>"
    unfolding vga_clear_row_mem [OF rows(2)] by (rule vga_eqI) (auto simp: fun_eq_iff)
  finally show ?thesis .
qed

end
