(* ===== verification/Console.thy ===== *)
theory Console
  imports Vga Strings
begin

text \<open>
  The console (\<open>drivers/console.c\<close>): cursor and attribute on the screen, and the line buffer that the
  keyboard fills. \<open>_putc\<close> is recursive in the source only through blanks, which are no control
  characters, so the calls \<open>_putc(' ', true)\<close> are written as what they do, \<open>putc_attr\<close>.
\<close>

section \<open>State\<close>

definition ATTR_GREEN_ON_BLACK :: u8 where "ATTR_GREEN_ON_BLACK = 0x0a"
definition ATTR_RED_ON_BLUE :: u8 where "ATTR_RED_ON_BLUE = 0x14"
definition IBUF_SIZE :: nat where "IBUF_SIZE = 128"
definition TAB_WIDTH :: nat where "TAB_WIDTH = 4"

record console =
  con_attr :: u8
  curs_x :: u8
  curs_y :: u8
  line_completed :: bool
  ibuf :: "char list"
  widx :: nat
  cleared :: bool
  con_vga :: vga

definition ch_bs :: char where "ch_bs = CHR 0x08"
definition ch_tab :: char where "ch_tab = CHR 0x09"
definition ch_lf :: char where "ch_lf = CHR 0x0A"
definition ch_cr :: char where "ch_cr = CHR 0x0D"
definition ch_del :: char where "ch_del = CHR 0x7F"

lemmas ch_defs = ch_bs_def ch_tab_def ch_lf_def ch_cr_def ch_del_def

section \<open>Cursor\<close>

definition line_feed :: "console \<Rightarrow> console" where
  "line_feed s =
     (let s1 = s\<lparr>curs_x := 0, curs_y := curs_y s + 1\<rparr>
      in if curs_y s1 = of_nat VGA_NUM_ROWS
         then s1\<lparr>con_vga := vga_scroll_down (con_vga s1), curs_y := of_nat VGA_NUM_ROWS - 1\<rparr>
         else s1)"

definition curs_forward :: "console \<Rightarrow> console" where
  "curs_forward s =
     (let s1 = s\<lparr>curs_x := curs_x s + 1\<rparr>
      in if curs_x s1 = of_nat VGA_NUM_COLS then line_feed s1 else s1)"

definition curs_backward :: "console \<Rightarrow> console" where
  "curs_backward s =
     (if curs_x s = 0 then s\<lparr>curs_x := of_nat VGA_NUM_COLS - 1, curs_y := curs_y s - 1\<rparr>
      else s\<lparr>curs_x := curs_x s - 1\<rparr>)"

definition putc_attr :: "char \<Rightarrow> u8 \<Rightarrow> console \<Rightarrow> console" where
  "putc_attr c attr s =
     curs_forward (s\<lparr>con_vga := vga_writec_attr_xy c attr (ucast (curs_x s)) (ucast (curs_y s)) (con_vga s)\<rparr>)"

definition draw_cursor :: "console \<Rightarrow> console" where
  "draw_cursor s = s\<lparr>con_vga := vga_draw_cursor_xy (ucast (curs_x s)) (ucast (curs_y s)) (con_vga s)\<rparr>"

definition console_tab :: "console \<Rightarrow> console" where
  "console_tab s = ((\<lambda>s. putc_attr (CHR '' '') (con_attr s) s) ^^ TAB_WIDTH) s"

definition console_clear :: "console \<Rightarrow> console" where
  "console_clear s = s\<lparr>con_vga := vga_clear (con_vga s), curs_x := 0, curs_y := 0, cleared := True\<rparr>"

section \<open>The line buffer\<close>

definition ibuf_is_full :: "console \<Rightarrow> bool" where
  "ibuf_is_full s \<longleftrightarrow> IBUF_SIZE = widx s"

definition ibuf_is_empty :: "console \<Rightarrow> bool" where
  "ibuf_is_empty s \<longleftrightarrow> widx s = 0"

definition reset_ibuf :: "console \<Rightarrow> console" where
  "reset_ibuf s = s\<lparr>widx := 0, line_completed := False\<rparr>"

definition del_ibuf :: "console \<Rightarrow> int \<times> console" where
  "del_ibuf s =
     (if line_completed s then (-1, s)
      else if ibuf_is_empty s then (-1, s)
      else (let s1 = curs_backward (s\<lparr>widx := widx s - 1\<rparr>);
                s2 = curs_backward (putc_attr (CHR '' '') (con_attr s1) s1)
            in (0, draw_cursor s2)))"

lemma curs_widx [simp]:
  "widx (line_feed s) = widx s" "widx (curs_forward s) = widx s" "widx (curs_backward s) = widx s"
  "widx (putc_attr c a s) = widx s" "widx (draw_cursor s) = widx s" "widx (console_clear s) = widx s"
  by (simp_all add: line_feed_def curs_forward_def curs_backward_def putc_attr_def draw_cursor_def
      console_clear_def Let_def)

lemma del_ibuf_decreases: "fst (del_ibuf s) = 0 \<Longrightarrow> widx (snd (del_ibuf s)) < widx s"
  by (simp add: del_ibuf_def ibuf_is_empty_def Let_def split: if_splits)

function console_kill :: "console \<Rightarrow> console" where
  "console_kill s = (let (rc, s') = del_ibuf s in if rc = 0 then console_kill s' else s')"
  by pat_completeness auto

termination
  by (relation "measure widx") (simp_all, metis del_ibuf_decreases fst_conv snd_conv)

declare console_kill.simps [simp del]

section \<open>Output and input of characters\<close>

text \<open>The result is 0 for a control character, which is not stored in the line buffer.\<close>

definition console_putc :: "char \<Rightarrow> bool \<Rightarrow> console \<Rightarrow> int \<times> console" where
  "console_putc c display s =
     (if c = ch_lf then (0, line_feed s)
      else if c = ch_tab then (0, console_tab s)
      else if c = ch_cr then (0, console_kill s)
      else if c = ch_del then (0, console_clear s)
      else if c = ch_bs then (0, snd (del_ibuf s))
      else (1, if display then putc_attr c (con_attr s) s else s))"

fun puts_from :: "char list \<Rightarrow> nat \<Rightarrow> console \<Rightarrow> (nat \<times> console) option" where
  "puts_from [] i s = None"
| "puts_from (c # cs) i s =
     (if c = NUL then Some (i, s) else puts_from cs (Suc i) (snd (console_putc c True s)))"

definition console_puts :: "char list option \<Rightarrow> console \<Rightarrow> (int \<times> console) option" where
  "console_puts str s =
     (case str of
        None \<Rightarrow> Some (0, s)
      | Some cs \<Rightarrow> map_option (\<lambda>(i, s'). (int i, draw_cursor s')) (puts_from cs 0 s))"

definition console_puts_err :: "char list option \<Rightarrow> console \<Rightarrow> (int \<times> console) option" where
  "console_puts_err str s =
     map_option (\<lambda>(r, s'). (r, s'\<lparr>con_attr := con_attr s\<rparr>))
       (console_puts str (s\<lparr>con_attr := ATTR_RED_ON_BLUE\<rparr>))"

text \<open>Called from the keyboard interrupt.\<close>

definition console_put_ibuf :: "char \<Rightarrow> console \<Rightarrow> console" where
  "console_put_ibuf c s =
     (let s1 = (if c = ch_lf then s\<lparr>line_completed := True\<rparr> else s);
          (printable, s2) = console_putc c (\<not> ibuf_is_full s1) s1
      in if printable \<noteq> 0 \<and> \<not> ibuf_is_full s2
         then draw_cursor (s2\<lparr>ibuf := (ibuf s2)[widx s2 := c], widx := widx s2 + 1\<rparr>)
         else s2)"

definition display_ibuf :: "console \<Rightarrow> console" where
  "display_ibuf s = draw_cursor (fold (\<lambda>i s. snd (console_putc (ibuf s ! i) True s)) [0..<widx s] s)"

text \<open>The part of \<open>console_init\<close> before the keyboard is initialised.\<close>

definition console_init :: "console \<Rightarrow> console" where
  "console_init s =
     console_clear (s\<lparr>con_attr := ATTR_GREEN_ON_BLACK, curs_x := 0, curs_y := 0,
                      line_completed := False, widx := 0\<rparr>)"

section \<open>A terminal of 2000 cells\<close>

text \<open>
  What the console promises, without rows, columns and the wrapping of the 8-bit cursor: a flat array of
  cells and a position in it. The position moves on by one, or to the start of the next row, and the
  array is shifted by a row when the position leaves it.
\<close>

type_synonym terminal = "(nat \<Rightarrow> u16) \<times> nat"

definition SCREEN :: nat where "SCREEN = 2000"

definition term_settle :: "terminal \<Rightarrow> terminal" where
  "term_settle t = (case t of (cells, p) \<Rightarrow>
     if p < SCREEN then (cells, p)
     else (\<lambda>k. if k < SCREEN - 80 then cells (k + 80) else if k < SCREEN then blank_cell else 0, p - 80))"

definition term_put :: "u8 \<Rightarrow> char \<Rightarrow> terminal \<Rightarrow> terminal" where
  "term_put a c t = (case t of (cells, p) \<Rightarrow> term_settle (cells(p := encode_char_attr c a), p + 1))"

definition term_newline :: "terminal \<Rightarrow> terminal" where
  "term_newline t = (case t of (cells, p) \<Rightarrow> term_settle (cells, 80 * (p div 80 + 1)))"

definition term_char :: "u8 \<Rightarrow> char \<Rightarrow> terminal \<Rightarrow> terminal" where
  "term_char a c t =
     (if c = ch_lf then term_newline t
      else if c = ch_tab then (term_put a (CHR '' '') ^^ 4) t
      else if c = ch_del then (\<lambda>k. if k < SCREEN then blank_cell else 0, 0)
      else term_put a c t)"

definition terminal_of :: "console \<Rightarrow> terminal" where
  "terminal_of s = (\<lambda>k. if k < SCREEN then vga_mem (con_vga s) (of_nat k) else 0,
                80 * unat (curs_y s) + unat (curs_x s))"

definition on_screen :: "console \<Rightarrow> bool" where
  "on_screen s \<longleftrightarrow> unat (curs_x s) < VGA_NUM_COLS \<and> unat (curs_y s) < VGA_NUM_ROWS"

text \<open>The parts of the console that output does not touch: the memory behind the screen and the line.\<close>

definition same_rest :: "console \<Rightarrow> console \<Rightarrow> bool" where
  "same_rest s s' \<longleftrightarrow> (\<forall>k. SCREEN \<le> unat k \<longrightarrow> vga_mem (con_vga s') k = vga_mem (con_vga s) k)
     \<and> con_attr s' = con_attr s \<and> widx s' = widx s \<and> ibuf s' = ibuf s
     \<and> line_completed s' = line_completed s"

definition displays :: "console \<Rightarrow> terminal \<Rightarrow> console \<Rightarrow> bool" where
  "displays s t s' \<longleftrightarrow> on_screen s' \<and> terminal_of s' = t \<and> same_rest s s'"

lemma same_rest_trans: "same_rest s1 s2 \<Longrightarrow> same_rest s2 s3 \<Longrightarrow> same_rest s1 s3"
  by (simp add: same_rest_def)

lemma displays_trans: "displays s1 t s2 \<Longrightarrow> displays s2 u s3 \<Longrightarrow> displays s1 u s3"
  by (auto simp: displays_def intro: same_rest_trans)

lemma unat_u8_add1: "unat (x :: u8) < 255 \<Longrightarrow> unat (x + 1) = unat x + 1"
  by (simp add: unat_word_ariths)

lemma u8_eq_nat: "n < 256 \<Longrightarrow> k = of_nat n \<longleftrightarrow> unat (k :: u8) = n"
  by (auto simp: word_unat_eq_iff unsigned_of_nat take_bit_nat_eq_self)

lemma line_feed_terminal:
  assumes "unat (curs_x s) \<le> 80" "unat (curs_y s) < 25"
  shows "displays s (term_settle (fst (terminal_of s), 80 * (unat (curs_y s) + 1))) (line_feed s)"
proof -
  have y1: "unat (curs_y s + 1) = unat (curs_y s) + 1" using assms(2) by (intro unat_u8_add1) simp
  have full: "curs_y s + 1 = of_nat VGA_NUM_ROWS \<longleftrightarrow> unat (curs_y s) = 24"
    using u8_eq_nat [of VGA_NUM_ROWS "curs_y s + 1"] y1 by (simp add: VGA_NUM_ROWS_def)
  show ?thesis
  proof (cases "unat (curs_y s) = 24")
    case True
    have cell: "(of_nat k :: u16) + 80 = of_nat (k + 80)" for k by simp
    have mem: "vga_mem (con_vga (line_feed s)) (of_nat k)
        = (if k < 1920 then vga_mem (con_vga s) (of_nat (k + 80)) else blank_cell)" if "k < 2000" for k
      using that True full unat_of_nat_u16 [of k]
      by (simp add: line_feed_def Let_def vga_scroll_down_mem)
    have row: "unat (curs_y (line_feed s)) = 24" "curs_x (line_feed s) = 0"
      using True full by (simp_all add: line_feed_def Let_def VGA_NUM_ROWS_def)
    have rest: "same_rest s (line_feed s)"
      using True full by (simp add: same_rest_def line_feed_def Let_def vga_scroll_down_mem SCREEN_def)
    show ?thesis using row rest mem True
      by (auto simp: displays_def on_screen_def terminal_of_def term_settle_def SCREEN_def vga_consts fun_eq_iff)
  next
    case False
    then have "line_feed s = s\<lparr>curs_x := 0, curs_y := curs_y s + 1\<rparr>"
      using full by (simp add: line_feed_def Let_def)
    then show ?thesis using False assms y1
      by (auto simp: displays_def on_screen_def terminal_of_def term_settle_def SCREEN_def vga_consts same_rest_def)
  qed
qed

lemma curs_forward_terminal:
  assumes "on_screen s"
  shows "displays s (term_settle (fst (terminal_of s), snd (terminal_of s) + 1)) (curs_forward s)"
proof -
  let ?s = "s\<lparr>curs_x := curs_x s + 1\<rparr>"
  have b: "unat (curs_x s) < 80" "unat (curs_y s) < 25" using assms by (simp_all add: on_screen_def vga_consts)
  then have x1: "unat (curs_x s + 1) = unat (curs_x s) + 1" by (intro unat_u8_add1) simp
  have last_col: "curs_x s + 1 = of_nat VGA_NUM_COLS \<longleftrightarrow> unat (curs_x s) = 79"
    using u8_eq_nat [of VGA_NUM_COLS "curs_x s + 1"] x1 by (simp add: VGA_NUM_COLS_def)
  have cells: "fst (terminal_of ?s) = fst (terminal_of s)" by (simp add: terminal_of_def fun_eq_iff)
  have rest: "same_rest s ?s" by (simp add: same_rest_def)
  show ?thesis
  proof (cases "unat (curs_x s) = 79")
    case True
    have "displays ?s (term_settle (fst (terminal_of s), 80 * (unat (curs_y s) + 1))) (line_feed ?s)"
      using line_feed_terminal [of ?s] b x1 cells by simp
    moreover have "curs_forward s = line_feed ?s" using True last_col by (simp add: curs_forward_def)
    moreover have "snd (terminal_of s) + 1 = 80 * (unat (curs_y s) + 1)" using True by (simp add: terminal_of_def)
    ultimately show ?thesis using rest
      by (simp only: displays_def) (auto intro: same_rest_trans)
  next
    case False
    then show ?thesis using last_col rest b x1
      by (auto simp: curs_forward_def displays_def terminal_of_def term_settle_def on_screen_def vga_consts
          SCREEN_def fun_eq_iff)
  qed
qed

lemma xy_cell:
  assumes "on_screen s"
  shows "xy2idx (ucast (curs_x s)) (ucast (curs_y s)) = of_nat (snd (terminal_of s))"
    and "snd (terminal_of s) < SCREEN"
proof -
  have b: "unat (curs_x s) < 80" "unat (curs_y s) < 25" using assms by (simp_all add: on_screen_def vga_consts)
  have uc: "ucast (x :: u8) = (of_nat (unat x) :: u32)" for x by (simp add: word_unat_eq_iff)
  show "xy2idx (ucast (curs_x s)) (ucast (curs_y s)) = of_nat (snd (terminal_of s))"
    unfolding uc terminal_of_def snd_conv using b by (intro xy2idx_nat) simp
  show "snd (terminal_of s) < SCREEN" using b by (simp add: terminal_of_def SCREEN_def)
qed

lemma putc_attr_terminal:
  assumes "on_screen s"
  shows "displays s (term_put a c (terminal_of s)) (putc_attr c a s)"
proof -
  let ?s = "s\<lparr>con_vga := vga_writec_attr_xy c a (ucast (curs_x s)) (ucast (curs_y s)) (con_vga s)\<rparr>"
  define p where "p = snd (terminal_of s)"
  note pos = xy_cell [OF assms, folded p_def]
  have cell: "(of_nat k :: u16) = of_nat p \<longleftrightarrow> k = p" if "k < SCREEN" for k
    using that pos(2) by (intro of_nat_u16_eq_iff) (simp_all add: SCREEN_def)
  have "fst (terminal_of ?s) = (fst (terminal_of s))(p := encode_char_attr c a)"
    using pos(2) by (auto simp: terminal_of_def vga_writec_attr_xy_def pos(1) cell fun_eq_iff)
  moreover have "snd (terminal_of ?s) = p" by (simp add: terminal_of_def p_def)
  ultimately have t: "terminal_of ?s = ((fst (terminal_of s))(p := encode_char_attr c a), p)"
    by (simp add: prod_eq_iff)
  have "k \<noteq> of_nat p" if "SCREEN \<le> unat k" for k :: u16
    using that pos(2) unat_of_nat_u16 [of p] by (auto simp: SCREEN_def)
  then have rest: "same_rest s ?s"
    by (auto simp: same_rest_def vga_writec_attr_xy_def pos(1))
  have "on_screen ?s" using assms by (simp add: on_screen_def)
  from curs_forward_terminal [OF this] rest show ?thesis
    by (auto simp: putc_attr_def term_put_def t displays_def case_prod_beta p_def intro: same_rest_trans)
qed

lemma tab_terminal:
  assumes "on_screen s"
  shows "displays s ((term_put (con_attr s) (CHR '' '') ^^ n) (terminal_of s))
    (((\<lambda>s. putc_attr (CHR '' '') (con_attr s) s) ^^ n) s)"
proof (induction n)
  case 0
  show ?case using assms by (simp add: displays_def same_rest_def)
next
  case (Suc n)
  let ?s = "((\<lambda>s. putc_attr (CHR '' '') (con_attr s) s) ^^ n) s"
  have a: "on_screen ?s" "con_attr ?s = con_attr s"
    using Suc by (simp_all add: displays_def same_rest_def)
  have "displays ?s (term_put (con_attr s) (CHR '' '') (terminal_of ?s)) (putc_attr (CHR '' '') (con_attr ?s) ?s)"
    using putc_attr_terminal [OF a(1), of "con_attr s"] a(2) by simp
  moreover have "terminal_of ?s = (term_put (con_attr s) (CHR '' '') ^^ n) (terminal_of s)"
    using Suc by (simp add: displays_def)
  ultimately show ?case using displays_trans [OF Suc] by simp
qed

lemma clear_terminal:
  "displays s (\<lambda>k. if k < SCREEN then blank_cell else 0, 0) (console_clear s)"
  by (auto simp: displays_def on_screen_def terminal_of_def console_clear_def vga_consts same_rest_def
      vga_clear_mem SCREEN_def unat_of_nat_u16 fun_eq_iff)

lemma newline_terminal:
  assumes "on_screen s"
  shows "displays s (term_newline (terminal_of s)) (line_feed s)"
proof -
  have b: "unat (curs_x s) < 80" "unat (curs_y s) < 25" using assms by (simp_all add: on_screen_def vga_consts)
  have "(80 * unat (curs_y s) + unat (curs_x s)) div 80 = unat (curs_y s)" using b(1) by simp
  then show ?thesis using line_feed_terminal [of s] b
    by (simp add: term_newline_def terminal_of_def)
qed

lemma console_putc_terminal:
  assumes "on_screen s" "c \<noteq> ch_bs" "c \<noteq> ch_cr"
  shows "displays s (term_char (con_attr s) c (terminal_of s)) (snd (console_putc c True s))"
proof -
  consider "c = ch_lf" | "c = ch_tab" | "c = ch_del" | "c \<notin> {ch_lf, ch_tab, ch_del}" by blast
  then show ?thesis
  proof cases
    case 1
    then show ?thesis using newline_terminal [OF assms(1)] by (simp add: console_putc_def term_char_def)
  next
    case 2
    then show ?thesis using tab_terminal [OF assms(1), of TAB_WIDTH]
      by (simp add: console_putc_def term_char_def ch_defs console_tab_def TAB_WIDTH_def)
  next
    case 3
    then show ?thesis using clear_terminal
      by (simp add: console_putc_def term_char_def ch_defs)
  next
    case 4
    then show ?thesis using putc_attr_terminal [OF assms(1)] assms(2,3)
      by (simp add: console_putc_def term_char_def)
  qed
qed

text \<open>The position of the hardware cursor, from the registers 0x0e and 0x0f of its controller.\<close>

fun crtc_reg :: "u8 \<Rightarrow> (u16 \<times> u8) list \<Rightarrow> nat option" where
  "crtc_reg r ((p, v) # (q, i) # rest) =
     (if p = 0x3d5 \<and> q = 0x3d4 then (if i = r then Some (unat v) else crtc_reg r rest) else None)"
| "crtc_reg r _ = None"

definition hw_cursor :: "console \<Rightarrow> nat option" where
  "hw_cursor s = (case (crtc_reg 0x0e (vga_crtc (con_vga s)), crtc_reg 0x0f (vga_crtc (con_vga s))) of
     (Some hi, Some lo) \<Rightarrow> Some (256 * hi + lo) | _ \<Rightarrow> None)"

lemma draw_cursor_shows:
  assumes "on_screen s"
  shows "displays s (terminal_of s) (draw_cursor s)" "hw_cursor (draw_cursor s) = Some (snd (terminal_of s))"
proof -
  show "displays s (terminal_of s) (draw_cursor s)"
    using assms by (simp add: displays_def draw_cursor_def vga_draw_cursor_xy_def Let_def terminal_of_def
        on_screen_def same_rest_def fun_eq_iff)
  define p where "p = snd (terminal_of s)"
  note pos = xy_cell [OF assms, folded p_def]
  have low: "unat (ucast (0x00ff AND w) :: u8) = unat w mod 256" for w :: u16
  proof -
    have "0x00ff AND w = take_bit 8 w" by (simp add: take_bit_eq_mask mask_eq_exp_minus_1 and.commute)
    then show ?thesis by (simp add: unsigned_ucast_eq take_bit_eq_mod unat_mod)
  qed
  have lo: "unat (ucast (0x00ff AND (of_nat p :: u16)) :: u8) = p mod 256"
    unfolding low using pos(2) by (simp add: SCREEN_def unat_of_nat_u16)
  have hi: "unat (ucast (0x00ff AND drop_bit 8 (of_nat p :: u16)) :: u8) = p div 256"
    unfolding low using pos(2) by (simp add: SCREEN_def drop_bit_eq_div unat_div unat_of_nat_u16)
  show "hw_cursor (draw_cursor s) = Some (snd (terminal_of s))"
    by (simp add: hw_cursor_def draw_cursor_def vga_draw_cursor_xy_def Let_def pos(1) lo hi flip: p_def)
qed

lemma puts_from_terminal:
  assumes "c_string buf cs" "on_screen s" "ch_bs \<notin> set cs" "ch_cr \<notin> set cs"
  shows "\<exists>s'. puts_from buf i s = Some (i + length cs, s')
    \<and> displays s (fold (term_char (con_attr s)) cs (terminal_of s)) s'"
  using assms
proof (induction cs arbitrary: buf i s)
  case Nil
  then obtain rest where "buf = NUL # rest" by (auto simp: c_string_def)
  then show ?case using Nil by (simp add: displays_def same_rest_def)
next
  case (Cons c cs)
  from Cons.prems(1) obtain bs where buf: "buf = c # bs" "c \<noteq> NUL" "c_string bs cs"
    by (cases buf) auto
  let ?s = "snd (console_putc c True s)"
  have d: "displays s (term_char (con_attr s) c (terminal_of s)) ?s"
    using Cons.prems by (intro console_putc_terminal) auto
  then have a: "on_screen ?s" "con_attr ?s = con_attr s" "terminal_of ?s = term_char (con_attr s) c (terminal_of s)"
    by (simp_all add: displays_def same_rest_def)
  obtain s' where s': "puts_from bs (Suc i) ?s = Some (Suc i + length cs, s')"
    "displays ?s (fold (term_char (con_attr ?s)) cs (terminal_of ?s)) s'"
    using Cons.IH [OF buf(3) a(1), of "Suc i"] Cons.prems by auto
  from displays_trans [OF d s'(2)] s'(1) show ?case by (auto simp: buf(1,2) a)
qed

section \<open>The line editor\<close>

text \<open>
  What the line buffer promises: a line that characters are appended to, that backspace shortens and
  control-u (the carriage return) empties until the line is complete, of at most 128 characters; tabs,
  line feeds and the clear character are not stored.
\<close>

type_synonym edited_line = "char list \<times> bool"

definition edit :: "char \<Rightarrow> edited_line \<Rightarrow> edited_line" where
  "edit c e = (case e of (l, complete) \<Rightarrow>
     if c = ch_lf then (l, True)
     else if c = ch_cr then (if complete then l else [], complete)
     else if c = ch_bs then (if complete then l else butlast l, complete)
     else if c = ch_tab \<or> c = ch_del \<or> length l = IBUF_SIZE then (l, complete)
     else (l @ [c], complete))"

definition line_of :: "console \<Rightarrow> edited_line" where
  "line_of s = (take (widx s) (ibuf s), line_completed s)"

definition ibuf_ok :: "console \<Rightarrow> bool" where
  "ibuf_ok s \<longleftrightarrow> length (ibuf s) = IBUF_SIZE \<and> widx s \<le> IBUF_SIZE"

lemma curs_ibuf [simp]:
  "ibuf (line_feed s) = ibuf s" "ibuf (curs_forward s) = ibuf s" "ibuf (curs_backward s) = ibuf s"
  "ibuf (putc_attr c a s) = ibuf s" "ibuf (draw_cursor s) = ibuf s" "ibuf (console_clear s) = ibuf s"
  "line_completed (line_feed s) = line_completed s" "line_completed (curs_forward s) = line_completed s"
  "line_completed (curs_backward s) = line_completed s" "line_completed (putc_attr c a s) = line_completed s"
  "line_completed (draw_cursor s) = line_completed s" "line_completed (console_clear s) = line_completed s"
  by (simp_all add: line_feed_def curs_forward_def curs_backward_def putc_attr_def draw_cursor_def
      console_clear_def Let_def)

lemma console_tab_ibuf [simp]:
  "widx (console_tab s) = widx s" "ibuf (console_tab s) = ibuf s"
  "line_completed (console_tab s) = line_completed s"
  by (simp_all add: console_tab_def TAB_WIDTH_def eval_nat_numeral)

lemma del_ibuf_ibuf [simp]:
  "ibuf (snd (del_ibuf s)) = ibuf s" "line_completed (snd (del_ibuf s)) = line_completed s"
  "widx (snd (del_ibuf s)) = (if line_completed s then widx s else widx s - 1)"
  "fst (del_ibuf s) = 0 \<longleftrightarrow> \<not> line_completed s \<and> widx s \<noteq> 0"
  by (simp_all add: del_ibuf_def ibuf_is_empty_def Let_def)

lemma console_kill_ibuf [simp]:
  "ibuf (console_kill s) = ibuf s \<and> line_completed (console_kill s) = line_completed s
    \<and> widx (console_kill s) = (if line_completed s then widx s else 0)"
proof (induction s rule: console_kill.induct)
  case (1 s)
  show ?case
  proof (cases "fst (del_ibuf s) = 0")
    case True
    from 1 [OF refl prod.collapse True] True show ?thesis
      by (subst (1 2 3) console_kill.simps) (simp add: case_prod_beta)
  next
    case False
    then show ?thesis by (subst (1 2 3) console_kill.simps) (auto simp: case_prod_beta)
  qed
qed

lemma console_put_ibuf_edits:
  assumes "ibuf_ok s"
  shows "line_of (console_put_ibuf c s) = edit c (line_of s)" "ibuf_ok (console_put_ibuf c s)"
proof -
  have b: "length (ibuf s) = 128" "widx s \<le> 128" using assms by (simp_all add: ibuf_ok_def IBUF_SIZE_def)
  consider "c = ch_lf" | "c = ch_cr" | "c = ch_bs" | "c = ch_tab" | "c = ch_del"
    | "c \<notin> {ch_lf, ch_cr, ch_bs, ch_tab, ch_del}" by blast
  then have "line_of (console_put_ibuf c s) = edit c (line_of s) \<and> ibuf_ok (console_put_ibuf c s)"
  proof cases
    case 3
    then show ?thesis using b
      by (auto simp: console_put_ibuf_def console_putc_def edit_def line_of_def ibuf_ok_def
          IBUF_SIZE_def ch_defs Let_def butlast_take)
  next
    case 6
    have "take (Suc (widx s)) ((ibuf s)[widx s := c]) = take (widx s) (ibuf s) @ [c]" if "widx s < 128"
      using that b by (simp add: take_Suc_conv_app_nth)
    then show ?thesis using b 6
      by (auto simp: console_put_ibuf_def console_putc_def edit_def line_of_def ibuf_ok_def ibuf_is_full_def
          IBUF_SIZE_def Let_def)
  qed (use b in \<open>simp add: console_put_ibuf_def console_putc_def edit_def line_of_def ibuf_ok_def
          IBUF_SIZE_def ch_defs Let_def\<close>)+
  then show "line_of (console_put_ibuf c s) = edit c (line_of s)" "ibuf_ok (console_put_ibuf c s)"
    by simp_all
qed

lemma fold_put_ibuf_edits:
  "ibuf_ok s \<Longrightarrow> line_of (fold console_put_ibuf cs s) = fold edit cs (line_of s)
    \<and> ibuf_ok (fold console_put_ibuf cs s)"
  by (induction cs arbitrary: s) (simp_all add: console_put_ibuf_edits)

lemma console_puts_displays:
  assumes "c_string buf cs" "on_screen s" "ch_bs \<notin> set cs" "ch_cr \<notin> set cs"
  shows "\<exists>s'. console_puts (Some buf) s = Some (int (length cs), s')
    \<and> displays s (fold (term_char (con_attr s)) cs (terminal_of s)) s' \<and> hw_cursor s' = Some (snd (terminal_of s'))"
proof -
  obtain s1 where s1: "puts_from buf 0 s = Some (length cs, s1)"
    "displays s (fold (term_char (con_attr s)) cs (terminal_of s)) s1"
    using puts_from_terminal [OF assms, of 0] by auto
  then have on: "on_screen s1" by (simp add: displays_def)
  note d = displays_trans [OF s1(2) draw_cursor_shows(1) [OF on]]
  have "hw_cursor (draw_cursor s1) = Some (snd (terminal_of (draw_cursor s1)))"
    using draw_cursor_shows [OF on] by (simp add: displays_def)
  moreover have "terminal_of (draw_cursor s1) = terminal_of s1" using draw_cursor_shows [OF on] by (simp add: displays_def)
  ultimately show ?thesis using d s1 by (intro exI [of _ "draw_cursor s1"]) (simp add: console_puts_def displays_def)
qed

section \<open>Properties\<close>

text \<open>C24. Console output. Writing a C string that holds neither a backspace nor a carriage return
  implements the terminal: the visible cells and the position are those of the flat terminal after all
  characters of the string, whatever the scrolling, the cursor stays on the screen and the hardware
  cursor shows it, the number of characters is returned, and neither the memory behind the screen nor
  the line being edited changes.\<close>

theorem console_puts_implements_terminal:
  assumes "c_string buf cs" "on_screen s" "ch_bs \<notin> set cs" "ch_cr \<notin> set cs"
  shows "\<exists>s'. console_puts (Some buf) s = Some (int (length cs), s')
    \<and> terminal_of s' = fold (term_char (con_attr s)) cs (terminal_of s)
    \<and> on_screen s' \<and> hw_cursor s' = Some (80 * unat (curs_y s') + unat (curs_x s'))
    \<and> (\<forall>k. SCREEN \<le> unat k \<longrightarrow> vga_mem (con_vga s') k = vga_mem (con_vga s) k)
    \<and> con_attr s' = con_attr s \<and> widx s' = widx s \<and> ibuf s' = ibuf s \<and> line_completed s' = line_completed s"
  using console_puts_displays [OF assms] by (auto simp: displays_def same_rest_def terminal_of_def)

definition blank_console :: console where
  "blank_console = \<lparr>con_attr = ATTR_GREEN_ON_BLACK, curs_x = 0, curs_y = 0, line_completed = False,
     ibuf = replicate IBUF_SIZE NUL, widx = 0, cleared = False,
     con_vga = \<lparr>vga_mem = (\<lambda>_. 0), vga_crtc = []\<rparr>\<rparr>"

theorem console_puts_implements_terminal_witness:
  "\<exists>s'. console_puts (Some [CHR ''h'', CHR ''i'', ch_lf, NUL]) (blank_console\<lparr>curs_x := 79, curs_y := 24\<rparr>) = Some (3, s')
    \<and> on_screen s' \<and> terminal_of s' = fold (term_char ATTR_GREEN_ON_BLACK) [CHR ''h'', CHR ''i'', ch_lf]
        (terminal_of (blank_console\<lparr>curs_x := 79, curs_y := 24\<rparr>))"
proof -
  have "c_string [CHR ''h'', CHR ''i'', ch_lf, NUL] [CHR ''h'', CHR ''i'', ch_lf]"
    "on_screen (blank_console\<lparr>curs_x := 79, curs_y := 24\<rparr>)"
    "ch_bs \<notin> set [CHR ''h'', CHR ''i'', ch_lf]" "ch_cr \<notin> set [CHR ''h'', CHR ''i'', ch_lf]"
    by (simp_all add: ch_defs on_screen_def vga_consts)
  from console_puts_implements_terminal [OF this] show ?thesis by (auto simp: blank_console_def)
qed

text \<open>C25. The line editor. Whatever characters the keyboard delivers, the line buffer holds the line that
  the abstract editor gives for them and its index stays inside its 128 characters. In particular a
  character delivered after the line feed is still appended, so it joins the completed line.\<close>

theorem console_put_ibuf_implements_editor:
  assumes "ibuf_ok s"
  shows "line_of (fold console_put_ibuf cs s) = fold edit cs (line_of s) \<and>
    ibuf_ok (fold console_put_ibuf cs s) \<and>
    (line_completed s \<and> widx s < IBUF_SIZE \<longrightarrow>
      line_of (console_put_ibuf (CHR ''x'') s) = (fst (line_of s) @ ''x'', True))"
  using fold_put_ibuf_edits [OF assms] console_put_ibuf_edits(1) [OF assms] assms
  by (auto simp: edit_def line_of_def ch_defs ibuf_ok_def)

theorem console_put_ibuf_implements_editor_witness:
  "line_of (fold console_put_ibuf [CHR ''l'', CHR ''x'', ch_bs, ch_tab, CHR ''s'', ch_lf, CHR ''q''] blank_console)
    = (''lsq'', True)"
proof -
  have "ibuf_ok blank_console" by (simp add: blank_console_def ibuf_ok_def)
  from console_put_ibuf_implements_editor [OF this, of "[CHR ''l'', CHR ''x'', ch_bs, ch_tab, CHR ''s'', ch_lf, CHR ''q'']", THEN conjunct1]
  show ?thesis by (simp add: edit_def line_of_def ch_defs blank_console_def IBUF_SIZE_def)
qed

text \<open>Backspace after a clear. A backspace that arrives after the screen was cleared while a line is being
  edited, before the line is displayed again, moves the cursor from the first cell to row 255: the blank
  is written to cell 20479, far behind the 2000 cells of the screen, and the cursor is left off the
  screen.\<close>

theorem backspace_after_clear_leaves_screen:
  assumes "widx s \<noteq> 0" "\<not> line_completed s"
  defines "s' \<equiv> console_put_ibuf ch_bs (console_put_ibuf ch_del s)"
  shows "vga_mem (con_vga s') 20479 = encode_char_attr (CHR '' '') (con_attr s) \<and> curs_y s' = 255 \<and> \<not> on_screen s'"
proof -
  have "console_put_ibuf ch_del s = console_clear s"
    by (simp add: console_put_ibuf_def console_putc_def ch_defs)
  moreover have "console_put_ibuf ch_bs u = snd (del_ibuf u)" for u
    by (simp add: console_put_ibuf_def console_putc_def ch_defs)
  ultimately have e: "s' = snd (del_ibuf (console_clear s))" by (simp add: s'_def)
  have m1: "(ucast (- 1 :: u8) :: u32) = 255"
    by (simp add: word_unat_eq_iff unsigned_minus_1_eq_mask mask_eq_exp_minus_1)
  have idx: "(ucast (ucast (- 1 :: u8) * 80 + 79 :: u32) :: u16) = 20479" unfolding m1 by simp
  note defs = del_ibuf_def ibuf_is_empty_def curs_backward_def putc_attr_def curs_forward_def line_feed_def
    draw_cursor_def Let_def vga_consts vga_writec_attr_xy_def vga_draw_cursor_xy_def xy2idx_def
  have "vga_mem (con_vga s') 20479 = encode_char_attr (CHR '' '') (con_attr s)"
    unfolding e using assms(1,2) idx by (simp add: defs console_clear_def)
  moreover have "curs_y s' = 255"
    unfolding e using assms(1,2) by (simp add: defs console_clear_def)
  ultimately show ?thesis by (simp add: on_screen_def vga_consts)
qed

theorem backspace_after_clear_leaves_screen_witness:
  "curs_y (console_put_ibuf ch_bs (console_put_ibuf ch_del (console_put_ibuf (CHR ''a'') blank_console))) = 255"
proof -
  have "widx (console_put_ibuf (CHR ''a'') blank_console) \<noteq> 0" "\<not> line_completed (console_put_ibuf (CHR ''a'') blank_console)"
    by (simp_all add: console_put_ibuf_def console_putc_def ch_defs blank_console_def ibuf_is_full_def IBUF_SIZE_def)
  from backspace_after_clear_leaves_screen [OF this] show ?thesis by simp
qed

end
