(* ===== verification/Pic.thy ===== *)
theory Pic
  imports Port_Io
begin

text \<open>
  The driver of the two 8259A interrupt controllers (\<open>drivers/pic.c\<close>). The controllers are not part of
  the sources: the driver takes the port operations of the machine, and \<open>pic_contract\<close> states the
  part of the data sheet it relies on, over a view of the machine that holds the state of the two chips.
\<close>

section \<open>The driver\<close>

definition MASTER_CMD :: u16 where "MASTER_CMD = 0x20"
definition MASTER_DATA :: u16 where "MASTER_DATA = MASTER_CMD + 1"
definition SLAVE_CMD :: u16 where "SLAVE_CMD = 0xa0"
definition SLAVE_DATA :: u16 where "SLAVE_DATA = SLAVE_CMD + 1"
definition CMD_8086 :: u8 where "CMD_8086 = 0x01"
definition CMD_INIT :: u8 where "CMD_INIT = 0x11"
definition CMD_EOI :: u8 where "CMD_EOI = 0x20"
definition MASTER_OFFSET :: u8 where "MASTER_OFFSET = 32"
definition SLAVE_OFFSET :: u8 where "SLAVE_OFFSET = 40"

definition master_send_cmd :: "'d ports \<Rightarrow> u8 \<Rightarrow> 'd \<Rightarrow> 'd" where
  "master_send_cmd io c = outb io MASTER_CMD c"

definition slave_send_cmd :: "'d ports \<Rightarrow> u8 \<Rightarrow> 'd \<Rightarrow> 'd" where
  "slave_send_cmd io c = outb io SLAVE_CMD c"

definition master_get_imr :: "'d ports \<Rightarrow> 'd \<Rightarrow> u8 \<times> 'd" where
  "master_get_imr io = inb io MASTER_DATA"

definition slave_get_imr :: "'d ports \<Rightarrow> 'd \<Rightarrow> u8 \<times> 'd" where
  "slave_get_imr io = inb io SLAVE_DATA"

definition master_set_data :: "'d ports \<Rightarrow> u8 \<Rightarrow> 'd \<Rightarrow> 'd" where
  "master_set_data io v = outb io MASTER_DATA v"

definition slave_set_data :: "'d ports \<Rightarrow> u8 \<Rightarrow> 'd \<Rightarrow> 'd" where
  "slave_set_data io v = outb io SLAVE_DATA v"

definition pic_remap :: "'d ports \<Rightarrow> u8 \<Rightarrow> u8 \<Rightarrow> 'd \<Rightarrow> 'd" where
  "pic_remap io master_off slave_off d =
     (let (master_imr, d) = master_get_imr io d;
          (slave_imr, d) = slave_get_imr io d;
          d = master_send_cmd io CMD_INIT d;
          d = slave_send_cmd io CMD_INIT d;
          d = master_set_data io master_off d;
          d = slave_set_data io slave_off d;
          d = master_set_data io 4 d;
          d = slave_set_data io 2 d;
          d = master_set_data io CMD_8086 d;
          d = slave_set_data io CMD_8086 d;
          d = master_set_data io master_imr d
      in slave_set_data io slave_imr d)"

definition pic_disable :: "'d ports \<Rightarrow> 'd \<Rightarrow> 'd" where
  "pic_disable io d = slave_set_data io 0xff (master_set_data io 0xff d)"

definition pic_send_eoi :: "'d ports \<Rightarrow> u8 \<Rightarrow> 'd \<Rightarrow> 'd" where
  "pic_send_eoi io irq d =
     master_send_cmd io CMD_EOI (if irq \<ge> 8 then slave_send_cmd io CMD_EOI d else d)"

definition pic_init :: "'d ports \<Rightarrow> 'd \<Rightarrow> 'd" where
  "pic_init io d =
     fold (\<lambda>irq. pic_send_eoi io (of_nat irq)) [0..<16]
       (pic_remap io MASTER_OFFSET SLAVE_OFFSET (pic_disable io d))"

text \<open>
  The mask is computed in 32 bits and cut to a byte when it is stored.
\<close>

definition pic_enable_irq :: "'d ports \<Rightarrow> u8 \<Rightarrow> 'd \<Rightarrow> 'd" where
  "pic_enable_irq io irq d =
     (let (get_imr, set_imr, irq) =
            (if irq < 8 then (master_get_imr io, master_set_data io, irq)
             else (slave_get_imr io, slave_set_data io, irq - 8));
          (imr, d) = get_imr d
      in set_imr (ucast ((ucast imr :: u32) AND NOT (push_bit (unat irq) 1))) d)"

definition pic_disable_irq :: "'d ports \<Rightarrow> u8 \<Rightarrow> 'd \<Rightarrow> 'd" where
  "pic_disable_irq io irq d =
     (let (get_imr, set_imr, irq) =
            (if irq < 8 then (master_get_imr io, master_set_data io, irq)
             else (slave_get_imr io, slave_set_data io, irq - 8));
          (imr, d) = get_imr d
      in set_imr (ucast ((ucast imr :: u32) OR push_bit (unat irq) 1)) d)"

section \<open>The contract of the controllers\<close>

text \<open>
  A chip: mask, interrupts in service, the number of initialisation words it still expects, and the
  words it was initialised with.
\<close>

record chip =
  imr :: u8
  in_service :: u8
  expects :: nat
  vec :: u8
  cascade :: u8
  mode :: u8

record pics =
  master :: chip
  slave :: chip

text \<open>A non-specific end of interrupt clears the bit of the highest priority, line 0 first.\<close>

fun clear_first :: "nat list \<Rightarrow> u8 \<Rightarrow> u8" where
  "clear_first [] x = x"
| "clear_first (n # ns) x = (if bit x n then unset_bit n x else clear_first ns x)"

definition chip_eoi :: "chip \<Rightarrow> chip" where
  "chip_eoi c = c\<lparr>in_service := clear_first [0..<8] (in_service c)\<rparr>"

text \<open>The first initialisation word 0x11 clears the mask and announces three more.\<close>

definition chip_init :: "chip \<Rightarrow> chip" where
  "chip_init c = c\<lparr>imr := 0, expects := 3\<rparr>"

definition chip_data :: "u8 \<Rightarrow> chip \<Rightarrow> chip" where
  "chip_data v c =
     (if expects c = 3 then c\<lparr>vec := v, expects := 2\<rparr>
      else if expects c = 2 then c\<lparr>cascade := v, expects := 1\<rparr>
      else if expects c = 1 then c\<lparr>mode := v, expects := 0\<rparr>
      else c\<lparr>imr := v\<rparr>)"

definition pic_contract :: "'d ports \<Rightarrow> ('d \<Rightarrow> pics) \<Rightarrow> bool" where
  "pic_contract io view \<longleftrightarrow>
     (\<forall>d. view (outb io 0x20 0x11 d) = (view d)\<lparr>master := chip_init (master (view d))\<rparr>) \<and>
     (\<forall>d. view (outb io 0xa0 0x11 d) = (view d)\<lparr>slave := chip_init (slave (view d))\<rparr>) \<and>
     (\<forall>d. view (outb io 0x20 0x20 d) = (view d)\<lparr>master := chip_eoi (master (view d))\<rparr>) \<and>
     (\<forall>d. view (outb io 0xa0 0x20 d) = (view d)\<lparr>slave := chip_eoi (slave (view d))\<rparr>) \<and>
     (\<forall>v d. view (outb io 0x21 v d) = (view d)\<lparr>master := chip_data v (master (view d))\<rparr>) \<and>
     (\<forall>v d. view (outb io 0xa1 v d) = (view d)\<lparr>slave := chip_data v (slave (view d))\<rparr>) \<and>
     (\<forall>d. inb io 0x21 d = (imr (master (view d)), snd (inb io 0x21 d)) \<and> view (snd (inb io 0x21 d)) = view d) \<and>
     (\<forall>d. inb io 0xa1 d = (imr (slave (view d)), snd (inb io 0xa1 d)) \<and> view (snd (inb io 0xa1 d)) = view d)"

lemma pic_step:
  assumes "pic_contract io view"
  shows "view (master_send_cmd io CMD_INIT d) = (view d)\<lparr>master := chip_init (master (view d))\<rparr>"
    and "view (slave_send_cmd io CMD_INIT d) = (view d)\<lparr>slave := chip_init (slave (view d))\<rparr>"
    and "view (master_send_cmd io CMD_EOI d) = (view d)\<lparr>master := chip_eoi (master (view d))\<rparr>"
    and "view (slave_send_cmd io CMD_EOI d) = (view d)\<lparr>slave := chip_eoi (slave (view d))\<rparr>"
    and "view (master_set_data io v d) = (view d)\<lparr>master := chip_data v (master (view d))\<rparr>"
    and "view (slave_set_data io v d) = (view d)\<lparr>slave := chip_data v (slave (view d))\<rparr>"
    and "fst (master_get_imr io d) = imr (master (view d))" "view (snd (master_get_imr io d)) = view d"
    and "fst (slave_get_imr io d) = imr (slave (view d))" "view (snd (slave_get_imr io d)) = view d"
  using assms unfolding pic_contract_def master_send_cmd_def slave_send_cmd_def master_set_data_def
    slave_set_data_def master_get_imr_def slave_get_imr_def MASTER_CMD_def MASTER_DATA_def SLAVE_CMD_def
    SLAVE_DATA_def CMD_INIT_def CMD_EOI_def
  by (simp_all, metis fst_conv, metis fst_conv)

section \<open>End of interrupt\<close>

lemma clear_first_bit:
  "\<exists>n\<in>set ns. bit x n \<Longrightarrow> \<exists>n\<in>set ns. bit x n \<and> clear_first ns x = unset_bit n x"
  by (induction ns) auto

lemma clear_first_none: "\<forall>n\<in>set ns. \<not> bit x n \<Longrightarrow> clear_first ns x = x"
  by (induction ns) auto

definition num_in_service :: "u8 \<Rightarrow> nat" where
  "num_in_service x = card {n. n < 8 \<and> bit x n}"

lemma num_in_service_le: "num_in_service x \<le> 8"
proof -
  have "card {n. n < 8 \<and> bit x n} \<le> card {..<8 :: nat}" by (rule card_mono) auto
  then show ?thesis by (simp add: num_in_service_def)
qed

lemma clear_first_num: "num_in_service (clear_first [0..<8] x) = num_in_service x - 1"
proof (cases "\<exists>n\<in>set [0..<8]. bit x n")
  case True
  then obtain n where n: "n < 8" "bit x n" "clear_first [0..<8] x = unset_bit n x"
    using clear_first_bit [OF True] by auto
  then have "{m. m < 8 \<and> bit (clear_first [0..<8] x) m} = {m. m < 8 \<and> bit x m} - {n}"
    by (auto simp: bit_unset_bit_iff)
  then show ?thesis using n by (simp add: num_in_service_def)
next
  case False
  then have e: "{n. n < 8 \<and> bit x n} = {}" by auto
  show ?thesis using clear_first_none [of "[0..<8]" x] False
    by (simp add: num_in_service_def e)
qed

lemma clear_first_funpow: "num_in_service ((clear_first [0..<8] ^^ k) x) = num_in_service x - k"
  by (induction k) (simp_all add: clear_first_num)

lemma clear_first_8: "8 \<le> k \<Longrightarrow> (clear_first [0..<8] ^^ k) x = 0"
proof -
  assume "8 \<le> k"
  then have "num_in_service ((clear_first [0..<8] ^^ k) x) = 0"
    using num_in_service_le [of x] by (simp add: clear_first_funpow)
  then have "{n. n < 8 \<and> bit ((clear_first [0..<8] ^^ k) x) n} = {}"
    by (simp add: num_in_service_def)
  then show ?thesis by (auto simp: bit_eq_iff dest: bit_imp_le_length)
qed

lemma chip_eoi_funpow: "(chip_eoi ^^ k) c = c\<lparr>in_service := (clear_first [0..<8] ^^ k) (in_service c)\<rparr>"
  by (induction k) (simp_all add: chip_eoi_def)

section \<open>Initialisation\<close>

lemma pic_disable_view:
  assumes "pic_contract io view"
  shows "view (pic_disable io d) = (view d)\<lparr>master := chip_data 0xff (master (view d)),
    slave := chip_data 0xff (slave (view d))\<rparr>"
  by (simp add: pic_disable_def pic_step [OF assms])

lemma pic_remap_view:
  assumes "pic_contract io view" "expects (master (view d)) = 0" "expects (slave (view d)) = 0"
  shows "view (pic_remap io m s d) =
    \<lparr>master = (master (view d))\<lparr>expects := 0, vec := m, cascade := 4, mode := 1\<rparr>,
     slave = (slave (view d))\<lparr>expects := 0, vec := s, cascade := 2, mode := 1\<rparr>\<rparr>"
  using assms(2,3)
  by (cases "view d"; cases "master (view d)"; cases "slave (view d)")
    (simp add: pic_remap_def case_prod_beta Let_def pic_step [OF assms(1)] chip_init_def chip_data_def CMD_8086_def)

lemma pic_send_eoi_view:
  assumes "pic_contract io view"
  shows "view (pic_send_eoi io irq d) = (view d)\<lparr>master := chip_eoi (master (view d)),
    slave := (if irq < 8 then slave (view d) else chip_eoi (slave (view d)))\<rparr>"
  by (auto simp: pic_send_eoi_def pic_step [OF assms])

lemma pic_eois_view:
  assumes "pic_contract io view"
  shows "n \<le> 16 \<Longrightarrow> view (fold (\<lambda>irq. pic_send_eoi io (of_nat irq)) [0..<n] d) =
    (view d)\<lparr>master := (chip_eoi ^^ n) (master (view d)), slave := (chip_eoi ^^ (n - 8)) (slave (view d))\<rparr>"
proof (induction n)
  case (Suc n)
  have "unat (of_nat n :: u8) = n" using Suc.prems by (simp add: unsigned_of_nat take_bit_nat_eq_self)
  then have "(of_nat n :: u8) < 8 \<longleftrightarrow> n < 8" by (simp add: word_less_nat_alt)
  moreover have "Suc n - 8 = Suc (n - 8)" if "\<not> n < 8" using that by simp
  ultimately show ?case using Suc by (simp add: pic_send_eoi_view [OF assms])
qed simp

lemma pic_init_view:
  assumes "pic_contract io view" "expects (master (view d)) = 0" "expects (slave (view d)) = 0"
  shows "view (pic_init io d) =
    \<lparr>master = \<lparr>imr = 0xff, in_service = 0, expects = 0, vec = 32, cascade = 4, mode = 1\<rparr>,
     slave = \<lparr>imr = 0xff, in_service = 0, expects = 0, vec = 40, cascade = 2, mode = 1\<rparr>\<rparr>"
proof -
  have "view (pic_remap io MASTER_OFFSET SLAVE_OFFSET (pic_disable io d)) =
    \<lparr>master = (master (view d))\<lparr>imr := 0xff, expects := 0, vec := 32, cascade := 4, mode := 1\<rparr>,
     slave = (slave (view d))\<lparr>imr := 0xff, expects := 0, vec := 40, cascade := 2, mode := 1\<rparr>\<rparr>"
    using assms(2,3)
    by (subst pic_remap_view [OF assms(1)])
      (simp_all add: pic_disable_view [OF assms(1)] chip_data_def MASTER_OFFSET_def SLAVE_OFFSET_def)
  then show ?thesis
    by (simp add: pic_init_def pic_eois_view [OF assms(1)] chip_eoi_funpow clear_first_8)
qed

section \<open>Masking of lines\<close>

text \<open>Whether a line of the pair of controllers is masked.\<close>

definition line_masked :: "pics \<Rightarrow> nat \<Rightarrow> bool" where
  "line_masked p n = (if n < 8 then bit (imr (master p)) n else bit (imr (slave p)) (n - 8))"

definition mask_line :: "nat \<Rightarrow> bool \<Rightarrow> pics \<Rightarrow> pics" where
  "mask_line n b p =
     (let f = (\<lambda>k c. c\<lparr>imr := (if b then set_bit k (imr c) else unset_bit k (imr c))\<rparr>)
      in if n < 8 then p\<lparr>master := f n (master p)\<rparr> else p\<lparr>slave := f (n - 8) (slave p)\<rparr>)"

lemma imr_bits:
  "n < 8 \<Longrightarrow> ucast ((ucast x :: u32) AND NOT (push_bit n 1)) = (unset_bit n x :: u8)"
  "n < 8 \<Longrightarrow> ucast ((ucast x :: u32) OR push_bit n 1) = (set_bit n x :: u8)"
  by (rule bit_word_eqI; auto simp: bit_ucast_iff bit_simps)+

lemma pic_irq_view:
  assumes "pic_contract io view" "expects (master (view d)) = 0" "expects (slave (view d)) = 0" "unat irq < 16"
  shows "view (pic_enable_irq io irq d) = mask_line (unat irq) False (view d)"
    and "view (pic_disable_irq io irq d) = mask_line (unat irq) True (view d)"
proof -
  have lt: "irq < 8 \<longleftrightarrow> unat irq < 8" by (simp add: word_less_nat_alt)
  have sub: "unat (irq - 8) = unat irq - 8" if "\<not> unat irq < 8"
    using that by (simp add: unat_sub word_le_nat_alt)
  show "view (pic_enable_irq io irq d) = mask_line (unat irq) False (view d)"
    "view (pic_disable_irq io irq d) = mask_line (unat irq) True (view d)"
  proof -
    consider (m) "unat irq < 8" | (s) "\<not> unat irq < 8" "unat irq - 8 < 8" using assms(4) by linarith
    then have "view (pic_enable_irq io irq d) = mask_line (unat irq) False (view d) \<and>
      view (pic_disable_irq io irq d) = mask_line (unat irq) True (view d)"
    proof cases
      case m
      then have "irq < 8" by (simp add: lt)
      then have "pic_enable_irq io irq d = master_set_data io (unset_bit (unat irq) (imr (master (view d)))) (snd (master_get_imr io d))"
        "pic_disable_irq io irq d = master_set_data io (set_bit (unat irq) (imr (master (view d)))) (snd (master_get_imr io d))"
        by (simp_all only: pic_enable_irq_def pic_disable_irq_def if_True Let_def case_prod_beta fst_conv snd_conv
            imr_bits [OF m] pic_step(7) [OF assms(1)])
      then show ?thesis using m assms(2)
        by (simp add: pic_step [OF assms(1)] mask_line_def Let_def chip_data_def)
    next
      case s
      then have "\<not> irq < 8" by (simp add: lt)
      then have "pic_enable_irq io irq d = slave_set_data io (unset_bit (unat irq - 8) (imr (slave (view d)))) (snd (slave_get_imr io d))"
        "pic_disable_irq io irq d = slave_set_data io (set_bit (unat irq - 8) (imr (slave (view d)))) (snd (slave_get_imr io d))"
        by (simp_all only: pic_enable_irq_def pic_disable_irq_def if_False Let_def case_prod_beta fst_conv snd_conv
            sub [OF s(1)] imr_bits [OF s(2)] pic_step(9) [OF assms(1)])
      then show ?thesis using s assms(3)
        by (simp add: pic_step [OF assms(1)] mask_line_def Let_def chip_data_def)
    qed
    then show "view (pic_enable_irq io irq d) = mask_line (unat irq) False (view d)"
      "view (pic_disable_irq io irq d) = mask_line (unat irq) True (view d)" by simp_all
  qed
qed

section \<open>Properties\<close>

text \<open>\<open>pic_init\<close>. From any state of the two controllers outside an initialisation sequence they end with
  the vectors 32 and 40, cascaded over line 2, in 8086 mode, every line masked, and no interrupt in
  service, whatever interrupts were in service before.\<close>

theorem pic_init_correct:
  assumes "pic_contract io view" "expects (master (view d)) = 0" "expects (slave (view d)) = 0"
  shows "view (pic_init io d) =
    \<lparr>master = \<lparr>imr = 0xff, in_service = 0, expects = 0, vec = 32, cascade = 4, mode = 1\<rparr>,
     slave = \<lparr>imr = 0xff, in_service = 0, expects = 0, vec = 40, cascade = 2, mode = 1\<rparr>\<rparr>"
  using assms by (rule pic_init_view)

text \<open>Controllers that do what the data sheet says, as a device of their own.\<close>

definition model_pics :: "pics ports" where
  "model_pics = \<lparr>inb = (\<lambda>p d. (if p = 0x21 then imr (master d) else if p = 0xa1 then imr (slave d) else 0xff, d)),
     inw = (\<lambda>p d. (0xffff, d)),
     outb = (\<lambda>p v d.
       if p = 0x20 then d\<lparr>master := (if v = 0x11 then chip_init else if v = 0x20 then chip_eoi else id) (master d)\<rparr>
       else if p = 0xa0 then d\<lparr>slave := (if v = 0x11 then chip_init else if v = 0x20 then chip_eoi else id) (slave d)\<rparr>
       else if p = 0x21 then d\<lparr>master := chip_data v (master d)\<rparr>
       else if p = 0xa1 then d\<lparr>slave := chip_data v (slave d)\<rparr> else d)\<rparr>"

lemma model_pics_contract: "pic_contract model_pics (\<lambda>d. d)"
  by (simp add: pic_contract_def model_pics_def)

definition bios_chip :: chip where
  "bios_chip = \<lparr>imr = 0xb8, in_service = 0x05, expects = 0, vec = 8, cascade = 4, mode = 1\<rparr>"

theorem pic_init_correct_witness:
  "vec (slave (pic_init model_pics \<lparr>master = bios_chip, slave = bios_chip\<rparr>)) = 40 \<and>
   in_service (master (pic_init model_pics \<lparr>master = bios_chip, slave = bios_chip\<rparr>)) = 0"
  by (subst (1 2) pic_init_correct [OF model_pics_contract]) (simp_all add: bios_chip_def)

text \<open>Enabling or disabling a line changes the mask of this line only; every other line and the rest of
  both controllers stay as they are.\<close>

theorem pic_irq_masks_one_line:
  assumes "pic_contract io view" "expects (master (view d)) = 0" "expects (slave (view d)) = 0" "unat irq < 16"
  shows "(\<forall>n < 16. line_masked (view (pic_enable_irq io irq d)) n \<longleftrightarrow> n \<noteq> unat irq \<and> line_masked (view d) n) \<and>
    (\<forall>n < 16. line_masked (view (pic_disable_irq io irq d)) n \<longleftrightarrow> n = unat irq \<or> line_masked (view d) n) \<and>
    (\<forall>f \<in> {pic_enable_irq, pic_disable_irq}. \<exists>i j. view (f io irq d) =
       (view d)\<lparr>master := (master (view d))\<lparr>imr := i\<rparr>, slave := (slave (view d))\<lparr>imr := j\<rparr>\<rparr>)"
proof (intro conjI ballI)
  note v = pic_irq_view [OF assms]
  show "\<forall>n < 16. line_masked (view (pic_enable_irq io irq d)) n \<longleftrightarrow> n \<noteq> unat irq \<and> line_masked (view d) n"
    "\<forall>n < 16. line_masked (view (pic_disable_irq io irq d)) n \<longleftrightarrow> n = unat irq \<or> line_masked (view d) n"
    using assms(4) unfolding v by (auto simp: line_masked_def mask_line_def Let_def bit_simps)
  have m: "\<exists>i j. mask_line n b p = p\<lparr>master := (master p)\<lparr>imr := i\<rparr>, slave := (slave p)\<lparr>imr := j\<rparr>\<rparr>" for n b p
  proof (cases "n < 8")
    case True
    then show ?thesis by (intro exI [of _ "imr (master (mask_line n b p))"] exI [of _ "imr (slave p)"])
        (simp add: mask_line_def Let_def)
  next
    case False
    then show ?thesis by (intro exI [of _ "imr (master p)"] exI [of _ "imr (slave (mask_line n b p))"])
        (simp add: mask_line_def Let_def)
  qed
  fix f assume "f \<in> {pic_enable_irq, pic_disable_irq :: 'a ports \<Rightarrow> u8 \<Rightarrow> 'a \<Rightarrow> 'a}"
  then show "\<exists>i j. view (f io irq d) = (view d)\<lparr>master := (master (view d))\<lparr>imr := i\<rparr>, slave := (slave (view d))\<lparr>imr := j\<rparr>\<rparr>"
    using m v by auto
qed

theorem pic_irq_masks_one_line_witness:
  "line_masked (pic_disable_irq model_pics 12 \<lparr>master = bios_chip, slave = bios_chip\<rparr>) 12 \<and>
   \<not> line_masked (pic_disable_irq model_pics 12 \<lparr>master = bios_chip, slave = bios_chip\<rparr>) 14"
proof -
  have "unat (12 :: u8) < 16" by simp
  note mask = pic_irq_masks_one_line [OF model_pics_contract _ _ this, of "\<lparr>master = bios_chip, slave = bios_chip\<rparr>",
      THEN conjunct2, THEN conjunct1, rule_format]
  show ?thesis using mask [of 12] mask [of 14] by (simp add: bios_chip_def line_masked_def bit_simps)
qed

end
