(* ===== verification/Idt.thy ===== *)
theory Idt
  imports Port_Io
begin

text \<open>
  The interrupt descriptor table (\<open>lib/idt.c\<close>) and the registration of interrupt handlers
  (\<open>lib/intr.c\<close>). The addresses of the handlers are fixed by the linker, so they are parameters. The
  second section reads a gate the way the processor does, from its eight bytes.
\<close>

section \<open>Gates\<close>

definition IDT_CS :: u16 where "IDT_CS = 0x0008"
definition IDT_NUM_GATES_MAX :: u32 where "IDT_NUM_GATES_MAX = 0x100"
definition GATE_TRAP :: int where "GATE_TRAP = 0"
definition GATE_INTR :: int where "GATE_INTR = 1"
definition GATE_TASK :: int where "GATE_TASK = 2"
definition IRQ_OFFSET :: u32 where "IRQ_OFFSET = 0x20"

record gate_attr =
  gate_type :: "4 word"
  gate_s :: "1 word"
  gate_dpl :: "2 word"
  gate_p :: "1 word"

record idt_gate =
  offset_lo :: u16
  selector :: u16
  gate_zero :: u8
  attr :: gate_attr
  offset_hi :: u16

text \<open>The table, the IDTR register (limit and base) and the flags.\<close>

record cpu =
  idt :: "idt_gate list"
  idtr :: "u16 \<times> u32"
  eflags :: u32

definition gate_type_of :: "int \<Rightarrow> 4 word option" where
  "gate_type_of type =
     (if type = GATE_TRAP then Some 0xf
      else if type = GATE_INTR then Some 0xe
      else if type = GATE_TASK then Some 0x5
      else None)"

definition set_gate :: "u32 \<Rightarrow> u32 \<Rightarrow> u16 \<Rightarrow> u32 \<Rightarrow> int \<Rightarrow> cpu \<Rightarrow> int \<times> cpu" where
  "set_gate index isr sel privi_level type c =
     (if index \<ge> IDT_NUM_GATES_MAX then (1, c)
      else if privi_level \<ge> 4 then (1, c)
      else case gate_type_of type of
        None \<Rightarrow> (1, c)
      | Some t \<Rightarrow>
          (0, c\<lparr>idt := (idt c)[unat index :=
             \<lparr>offset_lo = ucast (0xffff AND isr), selector = sel, gate_zero = 0,
              attr = \<lparr>gate_type = t, gate_s = 0, gate_dpl = ucast privi_level, gate_p = 1\<rparr>,
              offset_hi = ucast (drop_bit 16 (0xffff0000 AND isr))\<rparr>]\<rparr>))"

definition idt_set_trap_gate :: "u32 \<Rightarrow> u32 \<Rightarrow> cpu \<Rightarrow> int \<times> cpu" where
  "idt_set_trap_gate index isr = set_gate index isr IDT_CS 0 GATE_TRAP"

definition idt_set_intr_gate :: "u32 \<Rightarrow> u32 \<Rightarrow> cpu \<Rightarrow> int \<times> cpu" where
  "idt_set_intr_gate index isr = set_gate index isr IDT_CS 0 GATE_INTR"

definition idt_set_task_gate :: "u32 \<Rightarrow> u32 \<Rightarrow> cpu \<Rightarrow> int \<times> cpu" where
  "idt_set_task_gate index isr = set_gate index isr IDT_CS 0 GATE_TASK"

definition intr_register_irq :: "u8 \<Rightarrow> u32 \<Rightarrow> cpu \<Rightarrow> int \<times> cpu" where
  "intr_register_irq irq_num isr = idt_set_intr_gate (IRQ_OFFSET + ucast irq_num) isr"

text \<open>
  \<open>base\<close> is the address of the table, \<open>exc\<close> that of \<open>exception_handler\<close> and \<open>isrs n\<close> that of the
  handler named \<open>isr<n>\<close>. The pairs are the calls of the source, in their order: the handler 42 goes to
  the gate 41.
\<close>

definition irq_gates :: "(nat \<times> nat) list" where
  "irq_gates = [(32, 32), (33, 33), (34, 34), (35, 35), (36, 36), (37, 37), (38, 38), (39, 39),
     (40, 40), (41, 41), (41, 42), (43, 43), (44, 44), (45, 45), (46, 46), (47, 47)]"

definition idt_init :: "u32 \<Rightarrow> u32 \<Rightarrow> (nat \<Rightarrow> u32) \<Rightarrow> cpu \<Rightarrow> int \<times> cpu" where
  "idt_init base exc isrs c =
     (let intr_flag = eflags_get_intr_flag (eflags c);
          c = c\<lparr>eflags := intr_disable (eflags c)\<rparr>;
          c = fold (\<lambda>i c. snd (idt_set_intr_gate (of_nat i) 0 c)) [0..<unat IDT_NUM_GATES_MAX] c;
          c = fold (\<lambda>i c. snd (idt_set_intr_gate (of_nat i) exc c)) [0..<32] c;
          c = fold (\<lambda>(i, n) c. snd (idt_set_intr_gate (of_nat i) (isrs n) c)) irq_gates c;
          c = c\<lparr>idtr := (ucast (IDT_NUM_GATES_MAX * 8 - 1), base)\<rparr>
      in (0, c\<lparr>eflags := eflags_set_intr_flag intr_flag (eflags c)\<rparr>))"

section \<open>What the processor reads\<close>

text \<open>The eight bytes of a gate as one 64-bit word, and the fields at the positions of the manual.\<close>

definition gate_word :: "idt_gate \<Rightarrow> 64 word" where
  "gate_word g = ucast (offset_lo g) OR push_bit 16 (ucast (selector g)) OR push_bit 32 (ucast (gate_zero g))
     OR push_bit 40 (ucast (gate_type (attr g))) OR push_bit 44 (ucast (gate_s (attr g)))
     OR push_bit 45 (ucast (gate_dpl (attr g))) OR push_bit 47 (ucast (gate_p (attr g)))
     OR push_bit 48 (ucast (offset_hi g))"

definition hw_offset :: "64 word \<Rightarrow> u32" where
  "hw_offset w = ucast (take_bit 16 w) OR push_bit 16 (ucast (drop_bit 48 w))"

definition hw_selector :: "64 word \<Rightarrow> u16" where
  "hw_selector w = ucast (drop_bit 16 w)"

text \<open>Bits 40 to 47: type, the zero bit S, privilege level and the present bit.\<close>

definition hw_access :: "64 word \<Rightarrow> u8" where
  "hw_access w = ucast (drop_bit 40 w)"

text \<open>A present interrupt gate of privilege level 0 in the code segment of the loader.\<close>

definition intr_gate_to :: "u32 \<Rightarrow> idt_gate \<Rightarrow> bool" where
  "intr_gate_to isr g \<longleftrightarrow> hw_offset (gate_word g) = isr \<and> hw_selector (gate_word g) = 0x0008
     \<and> hw_access (gate_word g) = 0x8e"

definition make_intr_gate :: "u32 \<Rightarrow> idt_gate" where
  "make_intr_gate isr = \<lparr>offset_lo = ucast (0xffff AND isr), selector = 8, gate_zero = 0,
     attr = \<lparr>gate_type = 0xe, gate_s = 0, gate_dpl = 0, gate_p = 1\<rparr>,
     offset_hi = ucast (drop_bit 16 (0xffff0000 AND isr))\<rparr>"

lemma high_half: "(0xffff0000 :: u32) = push_bit 16 (mask 16)"
  by (simp add: mask_eq_exp_minus_1 push_bit_eq_mult)

lemma make_intr_gate_hw: "intr_gate_to isr (make_intr_gate isr)"
proof -
  have m: "(0xffff :: u32) = mask 16" by (simp add: mask_eq_exp_minus_1)
  have "hw_offset (gate_word (make_intr_gate isr)) = isr"
  proof (rule bit_word_eqI)
    fix n assume "n < LENGTH(32)"
    then show "bit (hw_offset (gate_word (make_intr_gate isr))) n \<longleftrightarrow> bit isr n"
      by (cases "n < 16") (auto simp: hw_offset_def gate_word_def make_intr_gate_def m high_half bit_simps
          dest: bit_imp_le_length)
  qed
  moreover have "hw_selector (gate_word (make_intr_gate isr)) = 8"
  proof (rule bit_word_eqI)
    fix n assume "n < LENGTH(16)"
    then have "n = 0 \<or> n = 1 \<or> n \<in> set [2..<16]"
      unfolding set_upt atLeastLessThan_iff by (simp, linarith)
    then have "n \<in> {0, 1, 2, 3, 4, 5, 6, 7, 8, 9, 10, 11, 12, 13, 14, 15}" by (auto simp: upt_rec_numeral)
    then show "bit (hw_selector (gate_word (make_intr_gate isr))) n \<longleftrightarrow> bit (8 :: u16) n"
      by (auto simp: hw_selector_def gate_word_def make_intr_gate_def bit_simps dest: bit_imp_le_length)
  qed
  moreover have "hw_access (gate_word (make_intr_gate isr)) = 0x8e"
  proof (rule bit_word_eqI)
    fix n assume "n < LENGTH(8)"
    then have "n \<in> {0, 1, 2, 3, 4, 5, 6, 7}" by auto
    then show "bit (hw_access (gate_word (make_intr_gate isr))) n \<longleftrightarrow> bit (0x8e :: u8) n"
      by (auto simp: hw_access_def gate_word_def make_intr_gate_def bit_simps dest: bit_imp_le_length)
  qed
  ultimately show ?thesis by (simp add: intr_gate_to_def)
qed

lemma idt_set_intr_gate_eq:
  "idt_set_intr_gate i isr c = (if i \<ge> IDT_NUM_GATES_MAX then (1, c)
     else (0, c\<lparr>idt := (idt c)[unat i := make_intr_gate isr]\<rparr>))"
  by (simp add: idt_set_intr_gate_def set_gate_def gate_type_of_def GATE_INTR_def GATE_TRAP_def
      IDT_CS_def make_intr_gate_def)

lemma intr_gate_nat:
  "i < 256 \<Longrightarrow> snd (idt_set_intr_gate (of_nat i) isr c) = c\<lparr>idt := (idt c)[i := make_intr_gate isr]\<rparr>"
  using unat_of_nat_u32 [of i] by (simp add: idt_set_intr_gate_eq IDT_NUM_GATES_MAX_def word_le_nat_alt)

section \<open>Initialisation\<close>

lemma fold_gates:
  assumes "\<forall>(i, n) \<in> set gs. i < 256"
  shows "fold (\<lambda>(i, n) c. snd (idt_set_intr_gate (of_nat i) (isrs n) c)) gs c
    = c\<lparr>idt := fold (\<lambda>(i, n) t. t[i := make_intr_gate (isrs n)]) gs (idt c)\<rparr>"
  using assms
proof (induction gs arbitrary: c)
  case (Cons g gs)
  then have "case g of (i, n) \<Rightarrow> i < 256" by (cases g) simp
  then have "(case g of (i, n) \<Rightarrow> \<lambda>c. snd (idt_set_intr_gate (of_nat i) (isrs n) c)) c
    = c\<lparr>idt := (case g of (i, n) \<Rightarrow> \<lambda>t. t[i := make_intr_gate (isrs n)]) (idt c)\<rparr>"
    by (cases g) (simp add: intr_gate_nat)
  then show ?case using Cons by simp
qed simp

lemma fold_range:
  assumes "n \<le> 256"
  shows "fold (\<lambda>i c. snd (idt_set_intr_gate (of_nat i) isr c)) [0..<n] c
    = c\<lparr>idt := fold (\<lambda>i t. t[i := make_intr_gate isr]) [0..<n] (idt c)\<rparr>"
  using assms by (induction n) (simp_all add: intr_gate_nat)

lemma fill_range:
  "n \<le> length t \<Longrightarrow> fold (\<lambda>i t. t[i := g]) [0..<n] t = replicate n g @ drop n t"
proof (induction n)
  case (Suc n)
  then have "drop n t = t ! n # drop (Suc n) t" by (simp add: Cons_nth_drop_Suc)
  then have "(replicate n g @ drop n t)[n := g] = replicate n g @ g # drop (Suc n) t"
    by (simp add: list_update_append)
  then show ?case using Suc by (simp add: replicate_append_same)
qed simp

definition handler :: "u32 \<Rightarrow> (nat \<Rightarrow> u32) \<Rightarrow> nat \<Rightarrow> u32" where
  "handler exc isrs i =
     (if i < 32 then exc else if i = 41 then isrs 42 else if i < 48 \<and> i \<noteq> 42 then isrs i else 0)"

lemma idt_init_eq:
  assumes "length (idt c) = 256"
  shows "idt_init base exc isrs c = (0, c\<lparr>idt := map (\<lambda>i. make_intr_gate (handler exc isrs i)) [0..<256],
    idtr := (2047, base)\<rparr>)"
proof -
  let ?t = "fold (\<lambda>(i, n) t. t[i := make_intr_gate (isrs n)]) irq_gates
    (replicate 32 (make_intr_gate exc) @ replicate 224 (make_intr_gate 0))"
  have g: "\<forall>(i, n) \<in> set irq_gates. i < 256" by (simp add: irq_gates_def)
  have m: "unat IDT_NUM_GATES_MAX = 256" by (simp add: IDT_NUM_GATES_MAX_def)
  have "idt_init base exc isrs c = (0, c\<lparr>idt := ?t, idtr := (2047, base)\<rparr>)"
    using assms
    by (simp add: idt_init_def Let_def m fold_range fold_gates [OF g] fill_range restore_intr_flag IDT_NUM_GATES_MAX_def)
  moreover have "?t = map (\<lambda>i. make_intr_gate (handler exc isrs i)) [0..<256]"
  proof (rule nth_equalityI)
    show "length ?t = length (map (\<lambda>i. make_intr_gate (handler exc isrs i)) [0..<256])"
      by (simp add: irq_gates_def)
    fix i assume "i < length ?t"
    then have i: "i < 256" by (simp add: irq_gates_def)
    show "?t ! i = map (\<lambda>i. make_intr_gate (handler exc isrs i)) [0..<256] ! i"
    proof (cases "i \<in> set [32..<48]")
      case True
      then have "i \<in> {32, 33, 34, 35, 36, 37, 38, 39, 40, 41, 42, 43, 44, 45, 46, 47}"
        by (simp add: upt_rec_numeral)
      then show ?thesis
        by (elim insertE emptyE) (simp_all add: irq_gates_def nth_append handler_def)
    next
      case False
      then have "i < 32 \<or> 48 \<le> i" unfolding set_upt atLeastLessThan_iff by linarith
      then show ?thesis using i by (elim disjE) (simp_all add: irq_gates_def nth_append handler_def)
    qed
  qed
  ultimately show ?thesis by simp
qed

section \<open>Properties\<close>

text \<open>C30. \<open>idt_init\<close>. The IDTR describes the whole table, the interrupt flag is what it was, and the processor
  finds in every one of the 256 gates a present interrupt gate: to the exception handler for the vectors
  0 to 31, to the handler of its own number for the lines of the interrupt controllers, except that gate
  41 leads to the handler 42 and gate 42 to address 0 like the unused gates.\<close>

theorem idt_init_correct:
  assumes "length (idt c) = 256"
  shows "\<exists>c'. idt_init base exc isrs c = (0, c') \<and> idtr c' = (256 * 8 - 1, base) \<and> eflags c' = eflags c
    \<and> length (idt c') = 256
    \<and> (\<forall>i < 32. intr_gate_to exc (idt c' ! i))
    \<and> (\<forall>i. 32 \<le> i \<and> i < 48 \<and> i \<notin> {41, 42} \<longrightarrow> intr_gate_to (isrs i) (idt c' ! i))
    \<and> intr_gate_to (isrs 42) (idt c' ! 41) \<and> intr_gate_to 0 (idt c' ! 42)
    \<and> (\<forall>i. 48 \<le> i \<and> i < 256 \<longrightarrow> intr_gate_to 0 (idt c' ! i))"
  unfolding idt_init_eq [OF assms] using make_intr_gate_hw
  by (intro exI [of _ "c\<lparr>idt := map (\<lambda>i. make_intr_gate (handler exc isrs i)) [0..<256], idtr := (2047, base)\<rparr>"])
    (simp add: handler_def)

definition reset_cpu :: cpu where
  "reset_cpu = \<lparr>idt = replicate 256 (make_intr_gate 0), idtr = (0, 0), eflags = 0x202\<rparr>"

theorem idt_init_correct_witness:
  "intr_gate_to 0x9000 (idt (snd (idt_init 0x8000 0x9000 (\<lambda>n. 0xa000 + 16 * of_nat n) reset_cpu)) ! 13) \<and>
   intr_gate_to 0xa2a0 (idt (snd (idt_init 0x8000 0x9000 (\<lambda>n. 0xa000 + 16 * of_nat n) reset_cpu)) ! 41)"
proof -
  have "length (idt reset_cpu) = 256" by (simp add: reset_cpu_def)
  from idt_init_correct [OF this, of "0x8000" "0x9000" "\<lambda>n. 0xa000 + 16 * of_nat n"]
  show ?thesis by (elim exE conjE) simp
qed

end
