(* ===== verification/Timer.thy ===== *)
theory Timer
  imports Port_Io
begin

text \<open>
  The timers (\<open>lib/timer.c\<close>) and the doubly linked list that the interrupt of the interval timer walks
  (\<open>lib/timer_list.c\<close>). The timers live in the memory of their owners, so they are the nodes of a heap,
  addressed by pointers of which \<open>None\<close> is \<open>NULL\<close>.
\<close>

section \<open>State\<close>

type_synonym ref = "nat option"

record timer =
  initial_counter :: u32
  counter :: u32
  in_list :: bool
  prev_ref :: ref
  next_ref :: ref

record timers =
  head :: ref
  node :: "nat \<Rightarrow> timer"
  tm_eflags :: u32

definition modify :: "nat \<Rightarrow> (timer \<Rightarrow> timer) \<Rightarrow> timers \<Rightarrow> timers" where
  "modify t f s = s\<lparr>node := (node s)(t := f (node s t))\<rparr>"

definition modify_ref :: "ref \<Rightarrow> (timer \<Rightarrow> timer) \<Rightarrow> timers \<Rightarrow> timers" where
  "modify_ref r f s = (case r of None \<Rightarrow> s | Some t \<Rightarrow> modify t f s)"

text \<open>A critical section: interrupts are disabled and the flag gets its old value back.\<close>

definition critical :: "(timers \<Rightarrow> timers) \<Rightarrow> timers \<Rightarrow> timers" where
  "critical body s =
     (let intr_flag = eflags_get_intr_flag (tm_eflags s);
          s = body (s\<lparr>tm_eflags := intr_disable (tm_eflags s)\<rparr>)
      in s\<lparr>tm_eflags := eflags_set_intr_flag intr_flag (tm_eflags s)\<rparr>)"

section \<open>The list\<close>

definition timer_list_init :: "timers \<Rightarrow> timers" where
  "timer_list_init s = s\<lparr>head := None\<rparr>"

definition timer_list_add_timer :: "nat \<Rightarrow> timers \<Rightarrow> timers" where
  "timer_list_add_timer t s =
     (if counter (node s t) = 0 then s
      else critical (\<lambda>s.
        let s = modify t (\<lambda>n. n\<lparr>next_ref := head s\<rparr>) s;
            s = modify_ref (head s) (\<lambda>n. n\<lparr>prev_ref := Some t\<rparr>) s;
            s = s\<lparr>head := Some t\<rparr>
        in modify t (\<lambda>n. n\<lparr>in_list := True\<rparr>) s) s)"

definition timer_list_remove_timer :: "nat \<Rightarrow> timers \<Rightarrow> timers" where
  "timer_list_remove_timer t s =
     (if \<not> in_list (node s t) then s
      else (let s = critical (\<lambda>s.
              let s = modify_ref (prev_ref (node s t)) (\<lambda>n. n\<lparr>next_ref := next_ref (node s t)\<rparr>) s;
                  s = modify_ref (next_ref (node s t)) (\<lambda>n. n\<lparr>prev_ref := prev_ref (node s t)\<rparr>) s;
                  s = (if Some t = head s then s\<lparr>head := next_ref (node s t)\<rparr> else s)
              in modify t (\<lambda>n. n\<lparr>in_list := False\<rparr>) s) s
            in modify t (\<lambda>n. n\<lparr>prev_ref := None, next_ref := None\<rparr>) s))"

text \<open>
  The walk of the interrupt handler reads the link of a timer after it may have been removed, when the
  link is \<open>NULL\<close>. A cyclic list may be walked for ever.
\<close>

partial_function (option) update_from :: "ref \<Rightarrow> timers \<Rightarrow> timers option" where
  "update_from r s =
     (case r of
        None \<Rightarrow> Some s
      | Some t \<Rightarrow>
          (let s = modify t (\<lambda>n. n\<lparr>counter := counter n - 1\<rparr>) s;
               s = (if counter (node s t) = 0 then timer_list_remove_timer t s else s)
           in update_from (next_ref (node s t)) s))"

definition timer_list_update :: "timers \<Rightarrow> timers option" where
  "timer_list_update s = update_from (head s) s"

section \<open>Timers\<close>

definition timer_start :: "nat \<Rightarrow> u32 \<Rightarrow> timers \<Rightarrow> timers" where
  "timer_start t timeout s =
     timer_list_add_timer t (modify t (\<lambda>n. n\<lparr>prev_ref := None, next_ref := None, in_list := False,
       initial_counter := timeout, counter := timeout\<rparr>) s)"

definition timer_end :: "nat \<Rightarrow> timers \<Rightarrow> timers" where
  "timer_end t s = timer_list_remove_timer t s"

definition timer_stop :: "nat \<Rightarrow> timers \<Rightarrow> timers" where
  "timer_stop t s = timer_list_remove_timer t s"

definition timer_pause :: "nat \<Rightarrow> timers \<Rightarrow> timers" where
  "timer_pause t s = timer_list_remove_timer t s"

definition timer_resume :: "nat \<Rightarrow> timers \<Rightarrow> timers" where
  "timer_resume t s = (if counter (node s t) \<noteq> 0 then timer_list_add_timer t s else s)"

text \<open>
  \<open>irq\<close> is what the interrupts do that arrive between the first test and the critical section. The
  recursive call of the source finds the timer outside the list, so it takes the first branch.
\<close>

definition restart_triggered :: "nat \<Rightarrow> timers \<Rightarrow> timers" where
  "restart_triggered t s = timer_list_add_timer t (modify t (\<lambda>n. n\<lparr>counter := initial_counter n\<rparr>) s)"

definition timer_restart :: "(timers \<Rightarrow> timers) \<Rightarrow> nat \<Rightarrow> timers \<Rightarrow> timers" where
  "timer_restart irq t s =
     (if \<not> in_list (node s t) then restart_triggered t s
      else critical (\<lambda>s.
        if \<not> in_list (node s t) then restart_triggered t s
        else modify t (\<lambda>n. n\<lparr>counter := initial_counter n\<rparr>) s) (irq s))"

definition timer_is_triggered :: "nat \<Rightarrow> timers \<Rightarrow> bool" where
  "timer_is_triggered t s \<longleftrightarrow> counter (node s t) = 0"

section \<open>The abstract list\<close>

text \<open>
  \<open>linked h p r ts m\<close>: from \<open>r\<close> the forward links lead through the nodes \<open>ts\<close> to \<open>m\<close>, and the
  backward links lead back to \<open>p\<close>.
\<close>

fun linked :: "(nat \<Rightarrow> timer) \<Rightarrow> ref \<Rightarrow> ref \<Rightarrow> nat list \<Rightarrow> ref \<Rightarrow> bool" where
  "linked h p r [] m \<longleftrightarrow> r = m"
| "linked h p r (t # ts) m \<longleftrightarrow>
     r = Some t \<and> prev_ref (h t) = p \<and> in_list (h t) \<and> linked h (Some t) (next_ref (h t)) ts m"

text \<open>
  The list holds the timers \<open>ts\<close>, and the timers of \<open>live\<close> that are not in it, which have been started
  before, are unlinked. In the invariant the timers of the list are moreover not triggered.
\<close>

definition chain :: "timers \<Rightarrow> nat list \<Rightarrow> nat set \<Rightarrow> bool" where
  "chain s ts live \<longleftrightarrow> linked (node s) None (head s) ts None \<and> distinct ts \<and> set ts \<subseteq> live \<and>
     (\<forall>t \<in> live - set ts. \<not> in_list (node s t) \<and> prev_ref (node s t) = None \<and> next_ref (node s t) = None)"

definition timers_ok :: "timers \<Rightarrow> nat list \<Rightarrow> nat set \<Rightarrow> bool" where
  "timers_ok s ts live \<longleftrightarrow> chain s ts live \<and> (\<forall>t \<in> set ts. counter (node s t) \<noteq> 0)"

abbreviation counters :: "timers \<Rightarrow> nat \<Rightarrow> u32" where
  "counters s \<equiv> \<lambda>t. counter (node s t)"

text \<open>What a tick does: timers count down in the order of the list until one of them triggers.\<close>

fun tick :: "nat list \<Rightarrow> (nat \<Rightarrow> u32) \<Rightarrow> nat list \<times> (nat \<Rightarrow> u32)" where
  "tick [] c = ([], c)"
| "tick (t # ts) c =
     (if c t = 1 then (ts, c(t := 0))
      else (let (ts', c') = tick ts (c(t := c t - 1)) in (t # ts', c')))"

definition last_ref :: "ref \<Rightarrow> nat list \<Rightarrow> ref" where
  "last_ref p ts = (if ts = [] then p else Some (last ts))"

lemma linked_append:
  "linked h p r (as @ bs) m \<longleftrightarrow> (\<exists>k. linked h p r as k \<and> linked h (last_ref p as) k bs m)"
  by (induction as arbitrary: p r) (auto simp: last_ref_def)

lemma linked_cong:
  assumes "\<And>t. t \<in> set ts \<Longrightarrow> prev_ref (h' t) = prev_ref (h t) \<and> next_ref (h' t) = next_ref (h t) \<and> in_list (h' t) = in_list (h t)"
  shows "linked h' p r ts m = linked h p r ts m"
  using assms by (induction ts arbitrary: p r) auto

lemma linked_in_list: "linked h p r ts m \<Longrightarrow> t \<in> set ts \<Longrightarrow> in_list (h t)"
  by (induction ts arbitrary: p r) auto

section \<open>Adding\<close>

lemma add_eq:
  assumes "counter (node s t) \<noteq> 0" "head s \<noteq> Some t"
  shows "timer_list_add_timer t s = s\<lparr>head := Some t,
    node := (case head s of None \<Rightarrow> node s | Some u \<Rightarrow> (node s)(u := (node s u)\<lparr>prev_ref := Some t\<rparr>))
      (t := (node s t)\<lparr>next_ref := head s, in_list := True\<rparr>)\<rparr>"
  using assms
  by (cases "head s") (auto simp: timer_list_add_timer_def critical_def modify_def modify_ref_def Let_def
      restore_intr_flag fun_upd_twist)

lemma add_chain:
  assumes "chain s ts live" "t \<notin> set ts" "counter (node s t) \<noteq> 0" "prev_ref (node s t) = None"
  shows "chain (timer_list_add_timer t s) (t # ts) (insert t live)"
    and "counters (timer_list_add_timer t s) = counters s"
proof -
  have h: "head s \<noteq> Some t" using assms(1,2) by (cases ts) (auto simp: chain_def)
  note eq = add_eq [OF assms(3) h]
  show "chain (timer_list_add_timer t s) (t # ts) (insert t live)"
  proof (cases ts)
    case Nil
    then show ?thesis using assms unfolding eq by (auto simp: chain_def)
  next
    case (Cons u us)
    then have u: "head s = Some u" "t \<noteq> u" "u \<notin> set us" using assms(1,2) by (auto simp: chain_def)
    let ?h = "(node s)(u := (node s u)\<lparr>prev_ref := Some t\<rparr>, t := (node s t)\<lparr>next_ref := Some u, in_list := True\<rparr>)"
    have "linked ?h (Some u) (next_ref (node s u)) us None = linked (node s) (Some u) (next_ref (node s u)) us None"
      using u Cons assms(2) by (intro linked_cong) auto
    then show ?thesis using assms u unfolding eq Cons by (auto simp: chain_def)
  qed
  show "counters (timer_list_add_timer t s) = counters s"
    unfolding eq by (auto simp: fun_eq_iff split: option.splits)
qed

section \<open>Removing\<close>

lemma remove_eq:
  assumes "in_list (node s t)" "prev_ref (node s t) \<noteq> Some t" "next_ref (node s t) \<noteq> Some t"
    "prev_ref (node s t) = None \<or> prev_ref (node s t) \<noteq> next_ref (node s t)"
  shows "timer_list_remove_timer t s = s\<lparr>head := (if head s = Some t then next_ref (node s t) else head s),
    node := (\<lambda>u. if u = t then (node s t)\<lparr>in_list := False, prev_ref := None, next_ref := None\<rparr>
      else if prev_ref (node s t) = Some u then (node s u)\<lparr>next_ref := next_ref (node s t)\<rparr>
      else if next_ref (node s t) = Some u then (node s u)\<lparr>prev_ref := prev_ref (node s t)\<rparr>
      else node s u)\<rparr>"
  using assms
  by (cases "prev_ref (node s t)"; cases "next_ref (node s t)")
    (auto simp: timer_list_remove_timer_def critical_def modify_def modify_ref_def Let_def
      restore_intr_flag fun_eq_iff)

lemma linked_first: "linked h p r ts None \<Longrightarrow> r = (case ts of [] \<Rightarrow> None | t # _ \<Rightarrow> Some t)"
  by (cases ts) auto

lemma remove_chain:
  assumes "chain s (as @ t # bs) live"
  shows "chain (timer_list_remove_timer t s) (as @ bs) live"
    and "counters (timer_list_remove_timer t s) = counters s"
    and "next_ref (node (timer_list_remove_timer t s) t) = None"
    and "initial_counter (node (timer_list_remove_timer t s) u) = initial_counter (node s u)"
proof -
  let ?h = "node s" and ?s = "timer_list_remove_timer t s"
  have d: "t \<notin> set as" "t \<notin> set bs" "distinct as" "distinct bs" "set as \<inter> set bs = {}"
    using assms by (auto simp: chain_def)
  have l: "linked ?h None (head s) as (Some t)" "in_list (?h t)" "prev_ref (?h t) = last_ref None as"
    "linked ?h (Some t) (next_ref (?h t)) bs None"
    using assms by (auto simp: chain_def linked_append)
  have nx: "next_ref (?h t) = (case bs of [] \<Rightarrow> None | b # _ \<Rightarrow> Some b)" by (rule linked_first) (rule l(4))
  have pv: "prev_ref (?h t) = (if as = [] then None else Some (last as))" using l(3) by (simp add: last_ref_def)
  have ne: "prev_ref (?h t) \<noteq> Some t" "next_ref (?h t) \<noteq> Some t"
    "prev_ref (?h t) = None \<or> prev_ref (?h t) \<noteq> next_ref (?h t)"
    using d by (auto simp: nx pv split: list.splits dest: last_in_set)
  note eq = remove_eq [OF l(2) ne]
  have hd_s: "head s = Some t \<longleftrightarrow> as = []" using l(1) d(1) by (cases as) auto
  have n: "node ?s u = (if u = t then (?h t)\<lparr>in_list := False, prev_ref := None, next_ref := None\<rparr>
      else if prev_ref (?h t) = Some u then (?h u)\<lparr>next_ref := next_ref (?h t)\<rparr>
      else if next_ref (?h t) = Some u then (?h u)\<lparr>prev_ref := prev_ref (?h t)\<rparr> else ?h u)" for u
    unfolding eq by simp
  have bwd: "linked (node ?s) (last_ref None as) (next_ref (?h t)) bs None"
  proof (cases bs)
    case (Cons b bs')
    have "linked (node ?s) (Some b) (next_ref (?h b)) bs' None = linked ?h (Some b) (next_ref (?h b)) bs' None"
      using d Cons by (intro linked_cong) (auto simp: n pv nx dest: last_in_set)
    moreover have "node ?s b = (?h b)\<lparr>prev_ref := prev_ref (?h t)\<rparr>"
      using d Cons by (auto simp: n pv nx dest: last_in_set)
    ultimately show ?thesis using l(3,4) Cons by auto
  qed (simp add: nx)
  have fwd: "linked (node ?s) None (head ?s) as (next_ref (?h t))"
  proof (cases as rule: rev_cases)
    case Nil
    then show ?thesis using hd_s unfolding eq by simp
  next
    case (snoc as' a)
    have h: "head ?s = head s" using hd_s snoc unfolding eq by simp
    have "linked (node ?s) None (head s) as' (Some a) = linked ?h None (head s) as' (Some a)"
      using d snoc by (intro linked_cong) (auto simp: n pv nx split: list.splits)
    moreover have "node ?s a = (?h a)\<lparr>next_ref := next_ref (?h t)\<rparr>" using d snoc by (auto simp: n pv)
    ultimately show ?thesis using l(1) snoc h by (auto simp: linked_append)
  qed
  have "\<not> in_list (node ?s u) \<and> prev_ref (node ?s u) = None \<and> next_ref (node ?s u) = None"
    if "u \<in> live - set (as @ bs)" for u
    using that assms d by (auto simp: n pv nx chain_def split: list.splits dest: last_in_set)
  then show "chain ?s (as @ bs) live" using fwd bwd assms d by (auto simp: chain_def linked_append)
  show "counters ?s = counters s" by (auto simp: fun_eq_iff n)
  show "next_ref (node ?s t) = None" by (simp add: n)
  show "initial_counter (node ?s u) = initial_counter (?h u)" by (simp add: n)
qed

lemma chain_in_list: "chain s ts live \<Longrightarrow> t \<in> live \<Longrightarrow> in_list (node s t) \<longleftrightarrow> t \<in> set ts"
  by (auto simp: chain_def dest: linked_in_list)

lemma remove_chain1:
  assumes "chain s ts live" "t \<in> live"
  shows "chain (timer_list_remove_timer t s) (remove1 t ts) live"
    and "counters (timer_list_remove_timer t s) = counters s"
proof -
  have "chain (timer_list_remove_timer t s) (remove1 t ts) live \<and> counters (timer_list_remove_timer t s) = counters s"
  proof (cases "t \<in> set ts")
    case True
    then obtain as bs where ts: "ts = as @ t # bs" "t \<notin> set as" by (meson split_list_first)
    then show ?thesis using remove_chain [of s as t bs live] assms(1) by (simp add: remove1_append)
  next
    case False
    then have "\<not> in_list (node s t)" using assms chain_in_list by blast
    then show ?thesis using False assms(1) by (simp add: timer_list_remove_timer_def remove1_idem)
  qed
  then show "chain (timer_list_remove_timer t s) (remove1 t ts) live"
    "counters (timer_list_remove_timer t s) = counters s" by simp_all
qed

section \<open>The tick\<close>

lemma modify_chain:
  assumes "\<And>n. prev_ref (f n) = prev_ref n \<and> next_ref (f n) = next_ref n \<and> in_list (f n) = in_list n"
  shows "chain (modify t f s) ts live = chain s ts live"
proof -
  have "linked (node (modify t f s)) p r ts None = linked (node s) p r ts None" for p r
    by (intro linked_cong) (auto simp: modify_def assms)
  then show ?thesis by (auto simp: chain_def modify_def assms)
qed

lemma update_from_tick:
  assumes "chain s (as @ bs) live" "\<forall>t \<in> set bs. counter (node s t) \<noteq> 0"
    "r = (case bs of [] \<Rightarrow> None | b # _ \<Rightarrow> Some b)"
  shows "\<exists>s'. update_from r s = Some s' \<and> chain s' (as @ fst (tick bs (counters s))) live
    \<and> counters s' = snd (tick bs (counters s))"
  using assms
proof (induction bs arbitrary: as r s)
  case Nil
  then show ?case by (simp add: update_from.simps)
next
  case (Cons t bs)
  let ?s = "modify t (\<lambda>n. n\<lparr>counter := counter n - 1\<rparr>) s"
  have ch: "chain ?s (as @ t # bs) live" using Cons.prems(1) by (simp add: modify_chain)
  have c: "counters ?s = (counters s)(t := counter (node s t) - 1)" by (auto simp: modify_def fun_eq_iff)
  have r: "r = Some t" using Cons.prems(3) by simp
  show ?case
  proof (cases "counter (node s t) = 1")
    case True
    note rm = remove_chain [OF ch]
    have "update_from r s = Some (timer_list_remove_timer t ?s)"
      using True rm(3) by (simp add: r update_from.simps [of "Some t"] update_from.simps [of None] modify_def Let_def)
    then show ?thesis using rm(1,2) c True by (simp add: fun_upd_def)
  next
    case False
    have "linked (node ?s) None (head ?s) ((as @ [t]) @ bs) None" using ch by (simp add: chain_def)
    then have nx: "next_ref (node ?s t) = (case bs of [] \<Rightarrow> None | b # _ \<Rightarrow> Some b)"
      by (auto simp: linked_append intro: linked_first)
    have st: "update_from r s = update_from (next_ref (node ?s t)) ?s"
      using False by (simp add: r update_from.simps [of "Some t"] modify_def Let_def)
    have "distinct (t # bs)" using Cons.prems(1) by (auto simp: chain_def)
    then have nz: "\<forall>u \<in> set bs. counter (node ?s u) \<noteq> 0" using Cons.prems(2) by (auto simp: modify_def)
    have "chain ?s ((as @ [t]) @ bs) live" using ch by simp
    from Cons.IH [OF this nz nx] show ?thesis
      using False by (auto simp: st c case_prod_beta Let_def fun_upd_def)
  qed
qed

lemma tick_other: "t \<notin> set ts \<Longrightarrow> snd (tick ts c) t = c t"
  by (induction ts arbitrary: c) (auto simp: case_prod_beta Let_def)

lemma tick_nonzero:
  "distinct ts \<Longrightarrow> \<forall>t \<in> set ts. c t \<noteq> 0 \<Longrightarrow> t \<in> set (fst (tick ts c)) \<Longrightarrow> snd (tick ts c) t \<noteq> 0"
proof (induction ts arbitrary: c)
  case (Cons u ts)
  let ?c = "c(u := c u - 1)"
  have keep: "snd (tick ts ?c) u = c u - 1" using Cons.prems(1) by (simp add: tick_other)
  have nz: "\<forall>t \<in> set ts. ?c t \<noteq> 0" using Cons.prems(1,2) by auto
  show ?case
  proof (cases "c u = 1")
    case True
    then show ?thesis using Cons.prems by auto
  next
    case False
    have step: "tick (u # ts) c = (u # fst (tick ts ?c), snd (tick ts ?c))"
      using False by (simp add: case_prod_beta Let_def fun_upd_def)
    then have "t = u \<or> t \<in> set (fst (tick ts ?c))" using Cons.prems(3) by simp
    then show ?thesis using False keep Cons.IH [of ?c, OF _ nz] Cons.prems(1) by (auto simp only: step fst_conv snd_conv distinct.simps list.set) simp_all
  qed
qed simp

lemma update_tick:
  assumes "timers_ok s ts live"
  shows "\<exists>s'. timer_list_update s = Some s' \<and> timers_ok s' (fst (tick ts (counters s))) live
    \<and> counters s' = snd (tick ts (counters s))"
proof -
  have h: "head s = (case ts of [] \<Rightarrow> None | b # _ \<Rightarrow> Some b)"
    using assms by (auto simp: timers_ok_def chain_def intro: linked_first)
  have d: "distinct ts" "\<forall>t \<in> set ts. counters s t \<noteq> 0" using assms by (auto simp: timers_ok_def chain_def)
  from update_from_tick [of s "[]" ts live "head s"] assms h obtain s' where
    s': "timer_list_update s = Some s'" "chain s' (fst (tick ts (counters s))) live"
    "counters s' = snd (tick ts (counters s))"
    by (auto simp: timers_ok_def timer_list_update_def)
  then show ?thesis using tick_nonzero [OF d]
    by (intro exI [of _ s'] conjI) (auto simp: timers_ok_def fun_eq_iff)
qed

section \<open>Starting, stopping, restarting\<close>

lemma modify_counters: "counters (modify t f s) = (counters s)(t := counter (f (node s t)))"
  by (auto simp: modify_def fun_eq_iff)

lemma start_ok:
  assumes "timers_ok s ts live" "t \<notin> set ts"
  shows "timers_ok (timer_start t n s) (if n = 0 then ts else t # ts) (insert t live)"
    and "counters (timer_start t n s) = (counters s)(t := n)"
proof -
  let ?s = "modify t (\<lambda>x. x\<lparr>prev_ref := None, next_ref := None, in_list := False, initial_counter := n, counter := n\<rparr>) s"
  have "linked (node ?s) p r ts None = linked (node s) p r ts None" for p r
    using assms(2) by (intro linked_cong) (auto simp: modify_def)
  then have ch: "chain ?s ts (insert t live)" using assms by (auto simp: timers_ok_def chain_def modify_def)
  have c: "counter (node ?s t) = n" "prev_ref (node ?s t) = None" by (simp_all add: modify_def)
  have cs: "counters ?s = (counters s)(t := n)" by (simp add: modify_counters)
  then have nz: "\<forall>u \<in> set ts. counter (node ?s u) \<noteq> 0"
    using assms by (auto simp: timers_ok_def modify_def)
  have "timers_ok (timer_start t n s) (if n = 0 then ts else t # ts) (insert t live)
    \<and> counters (timer_start t n s) = (counters s)(t := n)"
  proof (cases "n = 0")
    case True
    then have "timer_start t n s = ?s" using c by (simp add: timer_start_def timer_list_add_timer_def)
    then show ?thesis using True ch nz cs by (simp add: timers_ok_def)
  next
    case False
    then have "chain (timer_start t n s) (t # ts) (insert t live)" "counters (timer_start t n s) = counters ?s"
      using add_chain [OF ch assms(2), of] c by (simp_all add: timer_start_def)
    moreover have "counters (timer_start t n s) u = counters ?s u" for u using calculation(2) by (rule fun_cong)
    ultimately show ?thesis using False nz cs c by (auto simp: timers_ok_def)
  qed
  then show "timers_ok (timer_start t n s) (if n = 0 then ts else t # ts) (insert t live)"
    "counters (timer_start t n s) = (counters s)(t := n)" by simp_all
qed

lemma stop_ok:
  assumes "timers_ok s ts live" "t \<in> live"
  shows "timers_ok (timer_list_remove_timer t s) (remove1 t ts) live"
    and "counters (timer_list_remove_timer t s) = counters s"
proof -
  note r = remove_chain1 [OF _ assms(2), of s ts]
  have ch: "chain s ts live" using assms(1) by (simp add: timers_ok_def)
  show c: "counters (timer_list_remove_timer t s) = counters s" by (rule r(2) [OF ch])
  have "counters (timer_list_remove_timer t s) u = counters s u" for u using c by (rule fun_cong)
  then show "timers_ok (timer_list_remove_timer t s) (remove1 t ts) live"
    using r(1) [OF ch] assms(1) notin_set_remove1 by (fastforce simp: timers_ok_def)
qed

lemma critical_ok:
  "timers_ok (critical f s) = timers_ok (f (s\<lparr>tm_eflags := intr_disable (tm_eflags s)\<rparr>))"
  "counters (critical f s) = counters (f (s\<lparr>tm_eflags := intr_disable (tm_eflags s)\<rparr>))"
  by (simp_all add: critical_def timers_ok_def chain_def fun_eq_iff Let_def)

lemma restart_triggered_ok:
  assumes "timers_ok s ts live" "t \<in> live" "t \<notin> set ts" "initial_counter (node s t) \<noteq> 0"
  shows "timers_ok (restart_triggered t s) (t # ts) live"
    and "counters (restart_triggered t s) = (counters s)(t := initial_counter (node s t))"
proof -
  let ?s = "modify t (\<lambda>n. n\<lparr>counter := initial_counter n\<rparr>) s"
  have ch: "chain ?s ts live" using assms(1) by (simp add: timers_ok_def modify_chain)
  have c: "counters ?s = (counters s)(t := initial_counter (node s t))" by (simp add: modify_counters)
  have t: "counter (node ?s t) \<noteq> 0" "prev_ref (node ?s t) = None"
    using assms by (auto simp: modify_def timers_ok_def chain_def)
  note a = add_chain [OF ch assms(3) t]
  show cs: "counters (restart_triggered t s) = (counters s)(t := initial_counter (node s t))"
    using a(2) c by (simp add: restart_triggered_def)
  have "counter (node (restart_triggered t s) u) = ((counters s)(t := initial_counter (node s t))) u" for u
    using cs by (rule fun_cong)
  then show "timers_ok (restart_triggered t s) (t # ts) live"
    using a(1) assms by (auto simp: timers_ok_def restart_triggered_def insert_absorb)
qed

lemma restart_ok:
  assumes "timers_ok s ts live" "timers_ok (irq s) ts' live" "t \<in> live"
    "initial_counter (node s t) \<noteq> 0" "initial_counter (node (irq s) t) = initial_counter (node s t)"
  defines "s1 \<equiv> if t \<in> set ts then irq s else s" and "ts1 \<equiv> if t \<in> set ts then ts' else ts"
  shows "timers_ok (timer_restart irq t s) (if t \<in> set ts1 then ts1 else t # ts1) live \<and>
    counters (timer_restart irq t s) = (counters s1)(t := initial_counter (node s t))"
proof (cases "t \<in> set ts")
  case False
  then have "\<not> in_list (node s t)" using assms(1,3) chain_in_list by (auto simp: timers_ok_def)
  then show ?thesis using restart_triggered_ok [OF assms(1,3) False assms(4)] False
    by (simp add: timer_restart_def s1_def ts1_def)
next
  case True
  then have i: "in_list (node s t)" using assms(1,3) chain_in_list by (auto simp: timers_ok_def)
  let ?s = "(irq s)\<lparr>tm_eflags := intr_disable (tm_eflags (irq s))\<rparr>"
  have ok: "timers_ok ?s ts' live" using assms(2) by (simp add: timers_ok_def chain_def)
  have li: "in_list (node ?s t) \<longleftrightarrow> t \<in> set ts'" using chain_in_list [of ?s ts' live t] ok assms(3) by (simp add: timers_ok_def)
  have n: "initial_counter (node ?s t) \<noteq> 0" using assms(4,5) by simp
  show ?thesis
  proof (cases "t \<in> set ts'")
    case T: True
    let ?m = "modify t (\<lambda>n. n\<lparr>counter := initial_counter n\<rparr>) ?s"
    have "timers_ok ?m ts' live" using ok n by (auto simp: timers_ok_def modify_chain) (auto simp: modify_def split: if_splits)
    moreover have "counters ?m = (counters (irq s))(t := initial_counter (node s t))"
      using assms(5) by (simp add: modify_counters)
    ultimately show ?thesis using i li T True
      by (simp add: timer_restart_def critical_ok s1_def ts1_def)
  next
    case False
    note r = restart_triggered_ok [OF ok assms(3) False n]
    show ?thesis using i li r False True assms(5)
      by (simp add: timer_restart_def critical_ok s1_def ts1_def)
  qed
qed

section \<open>Time\<close>

fun run_ticks :: "nat \<Rightarrow> timers \<Rightarrow> timers option" where
  "run_ticks 0 s = Some s"
| "run_ticks (Suc k) s = Option.bind (timer_list_update s) (run_ticks k)"

definition position :: "nat \<Rightarrow> nat list \<Rightarrow> nat" where
  "position t ts = length (takeWhile (\<lambda>u. u \<noteq> t) ts)"

text \<open>Every tick brings a timer either down by one or forward by one.\<close>

lemma tick_progress:
  assumes "distinct ts" "\<forall>u \<in> set ts. c u \<noteq> 0" "t \<in> set ts"
  shows "(t \<notin> set (fst (tick ts c)) \<and> c t = 1 \<and> snd (tick ts c) t = 0)
    \<or> (t \<in> set (fst (tick ts c)) \<and> unat (c t) \<le> unat (snd (tick ts c) t) + 1 \<and>
        unat (snd (tick ts c) t) + position t (fst (tick ts c)) + 1 = unat (c t) + position t ts)"
  using assms
proof (induction ts arbitrary: c)
  case (Cons u ts)
  define d where "d = c(u := c u - 1)"
  show ?case
  proof (cases "c u = 1")
    case True
    then show ?thesis using Cons.prems by (auto simp: position_def)
  next
    case False
    have step: "tick (u # ts) c = (u # fst (tick ts d), snd (tick ts d))"
      using False by (simp add: case_prod_beta Let_def d_def fun_upd_def)
    show ?thesis
    proof (cases "t = u")
      case True
      then have "snd (tick ts d) t = c t - 1" using Cons.prems(1) by (simp add: tick_other d_def)
      moreover have "unat (c t) = unat (c t - 1) + 1"
        using Cons.prems(2) True by (simp add: unat_minus_one unat_gt_0)
      ultimately show ?thesis unfolding step using True by (simp add: position_def)
    next
      case F: False
      have nz: "\<forall>t \<in> set ts. d t \<noteq> 0" using Cons.prems(1,2) by (auto simp: d_def)
      have "distinct ts" "t \<in> set ts" "d t = c t" using Cons.prems F by (auto simp: d_def)
      with Cons.IH [of d] nz F show ?thesis unfolding step by (simp add: position_def)
    qed
  qed
qed simp

lemma run_ticks_idle:
  assumes "timers_ok s ts live" "t \<notin> set ts"
  shows "\<exists>s'. run_ticks k s = Some s' \<and> counter (node s' t) = counter (node s t)"
  using assms
proof (induction k arbitrary: s ts)
  case (Suc k)
  obtain s1 where s1: "timer_list_update s = Some s1" "timers_ok s1 (fst (tick ts (counters s))) live"
    "counters s1 = snd (tick ts (counters s))" using update_tick [OF Suc.prems(1)] by blast
  have sub: "set (fst (tick us c)) \<subseteq> set us" for us c
    by (induction us arbitrary: c) (auto simp: case_prod_beta Let_def dest: subsetD)
  then have "t \<notin> set (fst (tick ts (counters s)))" using Suc.prems(2) by blast
  moreover have "counter (node s1 t) = counter (node s t)"
    using fun_cong [OF s1(3), of t] tick_other [OF Suc.prems(2)] by simp
  ultimately show ?case using Suc.IH [OF s1(2)] s1(1) by simp
qed simp

lemma run_ticks_time:
  assumes "timers_ok s ts live" "t \<in> set ts"
  shows "\<exists>s'. run_ticks k s = Some s' \<and>
    (k < unat (counter (node s t)) \<longrightarrow> \<not> timer_is_triggered t s') \<and>
    (unat (counter (node s t)) + position t ts \<le> k \<longrightarrow> timer_is_triggered t s')"
  using assms
proof (induction k arbitrary: s ts)
  case 0
  then show ?case by (auto simp: timers_ok_def timer_is_triggered_def unat_eq_0)
next
  case (Suc k)
  obtain s1 where s1: "timer_list_update s = Some s1" "timers_ok s1 (fst (tick ts (counters s))) live"
    "counters s1 = snd (tick ts (counters s))" using update_tick [OF Suc.prems(1)] by blast
  have c1: "snd (tick ts (counters s)) t = counter (node s1 t)" using fun_cong [OF s1(3), of t] by simp
  have "distinct ts" "\<forall>u \<in> set ts. counters s u \<noteq> 0" using Suc.prems(1) by (auto simp: timers_ok_def chain_def)
  from tick_progress [OF this Suc.prems(2)] consider
    (fires) "t \<notin> set (fst (tick ts (counters s)))" "counter (node s t) = 1" "counter (node s1 t) = 0"
    | (waits) "t \<in> set (fst (tick ts (counters s)))" "unat (counter (node s t)) \<le> unat (counter (node s1 t)) + 1"
      "unat (counter (node s1 t)) + position t (fst (tick ts (counters s))) + 1 = unat (counter (node s t)) + position t ts"
    unfolding c1 by blast
  then show ?case
  proof cases
    case fires
    from run_ticks_idle [OF s1(2) fires(1), of k] fires(2,3) show ?thesis
      by (auto simp: s1(1) timer_is_triggered_def)
  next
    case waits
    from Suc.IH [OF s1(2) waits(1)] waits(2,3) show ?thesis by (force simp: s1(1))
  qed
qed

section \<open>Starting a running timer\<close>

lemma self_loop:
  assumes "counter (node s t) \<noteq> 0" "next_ref (node s t) = Some t" "prev_ref (node s t) = Some t"
    "in_list (node s t)" "head s = Some t"
  shows "\<exists>s'. update_from (Some t) s = Some s' \<and> counter (node s' t) = 0 \<and> next_ref (node s' t) = None \<and> head s' = Some t"
  using assms
proof (induction "unat (counter (node s t))" arbitrary: s)
  case 0
  then show ?case by (simp add: unat_eq_0)
next
  case (Suc n)
  let ?s = "modify t (\<lambda>n. n\<lparr>counter := counter n - 1\<rparr>) s"
  show ?case
  proof (cases "counter (node s t) = 1")
    case True
    then show ?thesis using Suc.prems
      by (simp add: update_from.simps [of "Some t"] update_from.simps [of None] modify_def modify_ref_def
          timer_list_remove_timer_def critical_def Let_def)
  next
    case False
    have n: "n = unat (counter (node ?s t))" "counter (node ?s t) \<noteq> 0"
      using Suc.hyps(2) Suc.prems(1) False by (simp_all add: modify_def unat_minus_one)
    have "next_ref (node ?s t) = Some t" "prev_ref (node ?s t) = Some t" "in_list (node ?s t)" "head ?s = Some t"
      using Suc.prems by (simp_all add: modify_def)
    from Suc.hyps(1) [OF n this] n(2) \<open>next_ref (node ?s t) = Some t\<close> show ?thesis
      by (simp add: update_from.simps [of "Some t" s] Let_def)
  qed
qed

text \<open>The forward links alone, which are what the walk follows: they lead along one path only.\<close>

fun forward :: "(nat \<Rightarrow> timer) \<Rightarrow> ref \<Rightarrow> nat list \<Rightarrow> ref \<Rightarrow> bool" where
  "forward h r [] m \<longleftrightarrow> r = m"
| "forward h r (t # ts) m \<longleftrightarrow> r = Some t \<and> forward h (next_ref (h t)) ts m"

lemma linked_forward: "linked h p r ts m \<Longrightarrow> forward h r ts m"
  by (induction ts arbitrary: p r) auto

lemma forward_cong:
  "(\<And>t. t \<in> set ts \<Longrightarrow> next_ref (h' t) = next_ref (h t)) \<Longrightarrow> forward h' r ts m = forward h r ts m"
  by (induction ts arbitrary: r) auto

lemma forward_prefix: "forward h r us None \<Longrightarrow> forward h r as (Some t) \<Longrightarrow> \<exists>vs. us = as @ t # vs"
proof (induction as arbitrary: r us)
  case Nil
  then show ?case by (cases us) auto
next
  case (Cons a as)
  then show ?case by (cases us) auto
qed

lemma timer_start_links:
  "head (timer_start t n s) = (if n = 0 then head s else Some t)"
  "next_ref (node (timer_start t n s) u) =
    (if u = t then if n = 0 then None else head s else next_ref (node s u))"
  "n = 0 \<Longrightarrow> \<not> in_list (node (timer_start t n s) t)"
  by (cases "head s"; auto simp: timer_start_def timer_list_add_timer_def modify_def modify_ref_def
      critical_def Let_def)+

text \<open>Whatever list it is in, starting a running timer leaves no well-formed list behind.\<close>

lemma start_running:
  assumes "timers_ok s ts live" "t \<in> set ts"
  shows "\<not> timers_ok (timer_start t n s) us live'"
proof
  let ?s = "timer_start t n s"
  assume "timers_ok ?s us live'"
  then have us: "linked (node ?s) None (head ?s) us None" "distinct us"
    by (simp_all add: timers_ok_def chain_def)
  note fwd = linked_forward [OF us(1)]
  obtain as bs where ts: "ts = as @ t # bs" "t \<notin> set as" using assms(2) by (meson split_list_first)
  have "linked (node s) None (head s) (as @ t # bs) None" using assms(1) ts by (simp add: timers_ok_def chain_def)
  then have "linked (node s) None (head s) as (Some t)" by (auto simp: linked_append)
  from linked_forward [OF this] have path: "forward (node ?s) (head s) as (Some t)"
    using ts(2) by (subst forward_cong [of _ _ "node s"]) (auto simp: timer_start_links)
  show False
  proof (cases "n = 0")
    case True
    then have "forward (node ?s) (head ?s) as (Some t)" using path by (simp add: timer_start_links)
    from forward_prefix [OF fwd this] have "t \<in> set us" by auto
    from linked_in_list [OF us(1) this] True show False by (simp add: timer_start_links)
  next
    case False
    then have "forward (node ?s) (head ?s) (t # as) (Some t)" using path by (simp add: timer_start_links)
    from forward_prefix [OF fwd this] us(2) show False by auto
  qed
qed

lemma restart_zero_ok:
  assumes "timers_ok s ts live" "t \<in> live" "t \<notin> set ts" "initial_counter (node s t) = 0"
  shows "timers_ok (timer_restart irq t s) ts live" and "counters (timer_restart irq t s) = (counters s)(t := 0)"
proof -
  let ?s = "modify t (\<lambda>n. n\<lparr>counter := initial_counter n\<rparr>) s"
  have ch: "chain s ts live" using assms(1) by (simp add: timers_ok_def)
  have "counter (node ?s t) = 0" using assms(4) by (simp add: modify_def)
  then have eq: "timer_restart irq t s = ?s"
    using chain_in_list [OF ch assms(2)] assms(3)
    by (simp add: timer_restart_def restart_triggered_def timer_list_add_timer_def)
  show "counters (timer_restart irq t s) = (counters s)(t := 0)"
    unfolding eq using assms(4) by (simp add: modify_counters)
  show "timers_ok (timer_restart irq t s) ts live"
    unfolding eq using assms(1,3) by (auto simp: timers_ok_def modify_chain) (auto simp: modify_def split: if_splits)
qed

section \<open>Properties\<close>

text \<open>C26. The timer list. On a well-formed list that holds the timers \<open>ts\<close>, where \<open>live\<close> are the timers
  that have been started at some time, the operations keep the doubly linked list well formed and do
  to its timers what the abstract operations say. Starting a timer that is not in the list puts it at
  the front, or leaves the list as it is for the timeout 0. Starting a timer that is in the list always
  destroys it: there is no well-formed list afterwards, since the code does not look whether the timer
  runs. Stopping a live timer takes it out of the list. Restarting a live timer with a nonzero initial
  value gives it that value and has it in the list, also when interrupts between the test and the
  critical section have changed the list; a timer with the initial value 0 that is not in the list
  stays outside. A tick counts the timers down in their order and ends with the first one that
  triggers, which leaves the list, so the timers behind it miss the tick.\<close>

theorem timer_operations_correct:
  assumes "timers_ok s ts live"
  shows "(t \<notin> set ts \<longrightarrow> timers_ok (timer_start t n s) (if n = 0 then ts else t # ts) (insert t live) \<and>
       counters (timer_start t n s) = (counters s)(t := n)) \<and>
    (t \<in> set ts \<longrightarrow> \<not> (\<exists>us live'. timers_ok (timer_start t n s) us live')) \<and>
    (t \<in> live \<longrightarrow> timers_ok (timer_stop t s) (remove1 t ts) live \<and> counters (timer_stop t s) = counters s) \<and>
    (t \<in> live \<and> timers_ok (irq s) ts' live \<and> initial_counter (node s t) \<noteq> 0 \<and>
       initial_counter (node (irq s) t) = initial_counter (node s t) \<longrightarrow>
       timers_ok (timer_restart irq t s)
         (let us = (if t \<in> set ts then ts' else ts) in if t \<in> set us then us else t # us) live \<and>
       counters (timer_restart irq t s) =
         (counters (if t \<in> set ts then irq s else s))(t := initial_counter (node s t))) \<and>
    (t \<in> live \<and> t \<notin> set ts \<and> initial_counter (node s t) = 0 \<longrightarrow>
       timers_ok (timer_restart irq t s) ts live \<and> counters (timer_restart irq t s) = (counters s)(t := 0)) \<and>
    (\<exists>s'. timer_list_update s = Some s' \<and> timers_ok s' (fst (tick ts (counters s))) live \<and>
       counters s' = snd (tick ts (counters s)))"
proof (intro conjI impI)
  assume "t \<in> live \<and> timers_ok (irq s) ts' live \<and> initial_counter (node s t) \<noteq> 0 \<and>
       initial_counter (node (irq s) t) = initial_counter (node s t)"
  then have r: "timers_ok (timer_restart irq t s)
      (if t \<in> set (if t \<in> set ts then ts' else ts) then if t \<in> set ts then ts' else ts
       else t # (if t \<in> set ts then ts' else ts)) live"
    "counters (timer_restart irq t s) = (counters (if t \<in> set ts then irq s else s))(t := initial_counter (node s t))"
    using restart_ok [OF assms, of irq ts' t] by simp_all
  then show "timers_ok (timer_restart irq t s)
      (let us = (if t \<in> set ts then ts' else ts) in if t \<in> set us then us else t # us) live"
    by (simp only: Let_def)
  show "counters (timer_restart irq t s) =
      (counters (if t \<in> set ts then irq s else s))(t := initial_counter (node s t))" by (rule r(2))
qed (use start_ok [OF assms] start_running [OF assms] stop_ok [OF assms] restart_zero_ok [OF assms]
    update_tick [OF assms] in \<open>auto simp: timer_stop_def\<close>)

definition no_timers :: timers where
  "no_timers = timer_list_init \<lparr>head = Some 7, node = (\<lambda>_. \<lparr>initial_counter = 0, counter = 9, in_list = True,
     prev_ref = Some 3, next_ref = Some 4\<rparr>), tm_eflags = 0x202\<rparr>"

lemma no_timers_ok: "timers_ok no_timers [] {}"
  by (simp add: no_timers_def timer_list_init_def timers_ok_def chain_def)

theorem timer_operations_correct_witness:
  "timers_ok (timer_start 1 3 no_timers) [1] {1} \<and> counter (node (timer_start 1 3 no_timers) 1) = 3"
  using timer_operations_correct [OF no_timers_ok, of 1 3, THEN conjunct1]
  by (auto dest: fun_cong [where x = 1])

text \<open>C27. Timers fire in time. A timer of the list with \<open>i\<close> timers in front of it, none started or stopped any
  more, is not triggered before as many ticks as its counter says, and is triggered at the latest \<open>i\<close> ticks
  after that; no tick runs for ever.\<close>

theorem timer_fires_in_time:
  assumes "timers_ok s ts live" "t \<in> set ts"
  shows "\<exists>s'. run_ticks k s = Some s' \<and>
    (k < unat (counter (node s t)) \<longrightarrow> \<not> timer_is_triggered t s') \<and>
    (unat (counter (node s t)) + position t ts \<le> k \<longrightarrow> timer_is_triggered t s')"
  using assms by (rule run_ticks_time)

theorem timer_fires_in_time_witness:
  "\<exists>s'. run_ticks 6 (timer_start 2 5 (timer_start 1 5 no_timers)) = Some s' \<and> timer_is_triggered 1 s'"
proof -
  note one = start_ok [OF no_timers_ok, of 1 5]
  have one_ok: "timers_ok (timer_start 1 5 no_timers) [1] {1}" using one(1) by simp
  note two = start_ok [OF one_ok, of 2 5]
  have two_ok: "timers_ok (timer_start 2 5 (timer_start 1 5 no_timers)) [2, 1] {2, 1}" using two(1) by simp
  have "counter (node (timer_start 2 5 (timer_start 1 5 no_timers)) 1) = 5"
    using fun_cong [OF two(2), of 1] fun_cong [OF one(2), of 1] by simp
  moreover have "position 1 [2, 1] = 1" by (simp add: position_def)
  ultimately show ?thesis using timer_fires_in_time [OF two_ok, of 1 6] by auto
qed

text \<open>Starting a timer that is already running. \<open>timer_start\<close> on the only timer of the list links the
  timer to itself: whatever its timeout, it triggers at the very next tick, the list keeps pointing to
  it, and the tick after that wraps its counter around, so that it counts as running again.\<close>

theorem timer_start_running_timer:
  assumes "timers_ok s [t] live" "n \<noteq> 0"
  shows "\<exists>s1 s2. timer_list_update (timer_start t n s) = Some s1 \<and> timer_is_triggered t s1 \<and> head s1 = Some t \<and>
    timer_list_update s1 = Some s2 \<and> counter (node s2 t) = 0xffffffff \<and> \<not> timer_is_triggered t s2"
proof -
  have h: "head s = Some t" using assms(1) by (simp add: timers_ok_def chain_def)
  let ?s = "timer_start t n s"
  have st: "counter (node ?s t) \<noteq> 0" "next_ref (node ?s t) = Some t" "prev_ref (node ?s t) = Some t"
    "in_list (node ?s t)" "head ?s = Some t"
    using h assms(2) by (simp_all add: timer_start_def timer_list_add_timer_def modify_def modify_ref_def
        critical_def Let_def)
  from self_loop [OF this] st(5) obtain s1 where s1: "timer_list_update ?s = Some s1" "counter (node s1 t) = 0"
    "next_ref (node s1 t) = None" "head s1 = Some t" by (auto simp: timer_list_update_def)
  let ?s2 = "modify t (\<lambda>n. n\<lparr>counter := counter n - 1\<rparr>) s1"
  have "timer_list_update s1 = Some ?s2"
    using s1 by (simp add: timer_list_update_def update_from.simps [of "Some t"] update_from.simps [of None]
        Let_def modify_def)
  then show ?thesis using s1
    by (intro exI [of _ s1] exI [of _ ?s2]) (simp add: timer_is_triggered_def modify_def)
qed

theorem timer_start_running_timer_witness:
  "\<exists>s1. timer_list_update (timer_start 1 100 (timer_start 1 100 no_timers)) = Some s1 \<and> timer_is_triggered 1 s1"
proof -
  have "timers_ok (timer_start 1 100 no_timers) [1] {1}" using start_ok(1) [OF no_timers_ok, of 1 100] by simp
  from timer_start_running_timer [OF this, of 100] show ?thesis by auto
qed

end
