(* ===== verification/Pit.thy ===== *)
theory Pit
  imports Pic Idt Timer
begin

text \<open>
  The interval timer (\<open>drivers/pit.c\<close>): its frequency, its initialisation, and its interrupt, which
  advances the timer list. The chip is a parameter; \<open>pit_contract\<close> states how it takes a command and
  the two bytes of its divisor.
\<close>

section \<open>The driver\<close>

definition PIT_IRQ_NUM :: u8 where "PIT_IRQ_NUM = 0x00"
definition PIT_CMD :: u16 where "PIT_CMD = 0x43"
definition PIT_DATA :: u16 where "PIT_DATA = 0x40"
definition FREQ_HZ_MAX :: u32 where "FREQ_HZ_MAX = 1193180"
definition DIV_MAX :: u32 where "DIV_MAX = 0xffff"
definition FREQ_HZ_MIN :: u32 where "FREQ_HZ_MIN = FREQ_HZ_MAX div DIV_MAX"

record cmd_reg =
  cmd_bcd :: "1 word"
  cmd_mode :: "3 word"
  cmd_rw :: "2 word"
  cmd_cntr :: "2 word"

text \<open>The bit fields in the order of the compiler, from bit 0.\<close>

definition cmd_byte :: "cmd_reg \<Rightarrow> u8" where
  "cmd_byte r = ucast (cmd_bcd r) OR push_bit 1 (ucast (cmd_mode r)) OR push_bit 4 (ucast (cmd_rw r))
     OR push_bit 6 (ucast (cmd_cntr r))"

definition set_cmd_reg :: "'d ports \<Rightarrow> cmd_reg \<Rightarrow> 'd \<Rightarrow> 'd" where
  "set_cmd_reg io r = outb io PIT_CMD (cmd_byte r)"

definition set_freq_hz :: "'d ports \<Rightarrow> u32 \<Rightarrow> 'd \<Rightarrow> int \<times> 'd" where
  "set_freq_hz io freq_hz d =
     (if freq_hz = 0 \<or> freq_hz > FREQ_HZ_MAX \<or> freq_hz < FREQ_HZ_MIN then (1, d)
      else (let dv = (ucast (FREQ_HZ_MAX div freq_hz) :: u16);
                d = set_cmd_reg io \<lparr>cmd_bcd = 0, cmd_mode = 3, cmd_rw = 3, cmd_cntr = 0\<rparr> d;
                d = outb io PIT_DATA (ucast (0xff AND dv)) d
            in (0, outb io PIT_DATA (ucast (drop_bit 8 dv AND 0xff)) d)))"

record 'd pit_machine =
  pit_proc :: cpu
  pit_dev :: 'd
  num_ticks :: u32
  pit_timers :: timers

text \<open>The timer list works on the flags of the processor.\<close>

definition timer_section :: "(timers \<Rightarrow> timers option) \<Rightarrow> 'd pit_machine \<Rightarrow> 'd pit_machine option" where
  "timer_section f s =
     map_option (\<lambda>t. s\<lparr>pit_timers := t, pit_proc := (pit_proc s)\<lparr>eflags := tm_eflags t\<rparr>\<rparr>)
       (f ((pit_timers s)\<lparr>tm_eflags := eflags (pit_proc s)\<rparr>))"

definition pit_init :: "'d ports \<Rightarrow> u32 \<Rightarrow> 'd pit_machine \<Rightarrow> int \<times> 'd pit_machine" where
  "pit_init io isr s =
     (let intr_flag = eflags_get_intr_flag (eflags (pit_proc s));
          s = s\<lparr>pit_proc := (pit_proc s)\<lparr>eflags := intr_disable (eflags (pit_proc s))\<rparr>\<rparr>;
          s = s\<lparr>num_ticks := 0\<rparr>;
          s = s\<lparr>pit_proc := snd (intr_register_irq PIT_IRQ_NUM isr (pit_proc s))\<rparr>;
          (rc, d) = set_freq_hz io 40 (pit_dev s);
          s = s\<lparr>pit_dev := d\<rparr>;
          s = s\<lparr>pit_proc := (pit_proc s)\<lparr>eflags := eflags_set_intr_flag intr_flag (eflags (pit_proc s))\<rparr>\<rparr>;
          s = s\<lparr>pit_timers := timer_list_init (pit_timers s)\<rparr>;
          s = s\<lparr>pit_dev := pic_send_eoi io PIT_IRQ_NUM (pit_dev s)\<rparr>;
          s = s\<lparr>pit_dev := pic_enable_irq io PIT_IRQ_NUM (pit_dev s)\<rparr>
      in (if rc \<noteq> 0 then 1 else 0, s))"

definition pit_isr :: "'d ports \<Rightarrow> 'd pit_machine \<Rightarrow> 'd pit_machine option" where
  "pit_isr io s =
     map_option (\<lambda>s. s\<lparr>pit_dev := pic_send_eoi io PIT_IRQ_NUM (pit_dev s)\<rparr>)
       (timer_section timer_list_update (s\<lparr>num_ticks := num_ticks s + 1\<rparr>))"

section \<open>The contract of the chip\<close>

text \<open>The command, the low byte when it is still waiting for the high one, and the divisor.\<close>

record pit_chip =
  pit_mode :: u8
  pit_low :: "u8 option"
  pit_divisor :: u16

text \<open>With the access mode 3 of counter 0 the low byte is written first, then the high one.\<close>

definition chip_write :: "u8 \<Rightarrow> pit_chip \<Rightarrow> pit_chip" where
  "chip_write v c =
     (case pit_low c of
        None \<Rightarrow> c\<lparr>pit_low := Some v\<rparr>
      | Some lo \<Rightarrow> c\<lparr>pit_low := None, pit_divisor := ucast lo OR push_bit 8 (ucast v)\<rparr>)"

definition pit_contract :: "'d ports \<Rightarrow> ('d \<Rightarrow> pit_chip) \<Rightarrow> bool" where
  "pit_contract io pv \<longleftrightarrow>
     (\<forall>d. pv (outb io 0x43 0x36 d) = (pv d)\<lparr>pit_mode := 0x36, pit_low := None\<rparr>) \<and>
     (\<forall>v d. pit_mode (pv d) = 0x36 \<longrightarrow> pv (outb io 0x40 v d) = chip_write v (pv d))"

lemma cmd_byte_mode3: "cmd_byte \<lparr>cmd_bcd = 0, cmd_mode = 3, cmd_rw = 3, cmd_cntr = 0\<rparr> = 0x36"
  by (simp add: cmd_byte_def push_bit_eq_mult)

lemma two_bytes: "(ucast (ucast (0xff AND w) :: u8) :: u16) OR push_bit 8 (ucast (ucast (drop_bit 8 w AND 0xff) :: u8)) = w"
proof (rule bit_word_eqI)
  have m: "(0xff :: u16) = mask 8" by (simp add: mask_eq_exp_minus_1)
  fix n assume "n < LENGTH(16)"
  then show "bit ((ucast (ucast (0xff AND w) :: u8) :: u16) OR push_bit 8 (ucast (ucast (drop_bit 8 w AND 0xff) :: u8))) n = bit w n"
    by (cases "n < 8") (auto simp: m bit_simps)
qed

lemma set_freq_hz_view:
  assumes "pit_contract io pv" "FREQ_HZ_MIN \<le> f" "f \<le> FREQ_HZ_MAX"
  shows "fst (set_freq_hz io f d) = 0"
    and "pv (snd (set_freq_hz io f d)) = \<lparr>pit_mode = 0x36, pit_low = None, pit_divisor = ucast (FREQ_HZ_MAX div f)\<rparr>"
proof -
  have nz: "f \<noteq> 0" using assms(2) by (auto simp: FREQ_HZ_MIN_def FREQ_HZ_MAX_def DIV_MAX_def)
  show "fst (set_freq_hz io f d) = 0" using nz assms(2,3) by (auto simp: set_freq_hz_def Let_def)
  define d1 where "d1 = outb io 0x43 0x36 d"
  have v1: "pv d1 = (pv d)\<lparr>pit_mode := 0x36, pit_low := None\<rparr>"
    using assms(1) by (simp add: pit_contract_def d1_def)
  have w: "pv (outb io 0x40 v e) = chip_write v (pv e)" if "pit_mode (pv e) = 0x36" for v e
    using assms(1) that by (simp add: pit_contract_def)
  show "pv (snd (set_freq_hz io f d)) = \<lparr>pit_mode = 0x36, pit_low = None, pit_divisor = ucast (FREQ_HZ_MAX div f)\<rparr>"
    using nz assms(2,3)
    by (auto simp: set_freq_hz_def Let_def set_cmd_reg_def cmd_byte_mode3 PIT_CMD_def PIT_DATA_def w v1
        chip_write_def two_bytes simp flip: d1_def)
qed

section \<open>Properties\<close>

text \<open>C31. The frequency of the interval timer. From 19 Hz to the frequency of the chip the chip gets mode 3 and
  exactly the divisor 1193180 div \<open>f\<close>; other frequencies but 18 Hz are refused without touching a port; 18
  Hz is accepted, but its divisor does not fit in 16 bits, and the chip is set to 751, which is 1588 Hz.\<close>

theorem set_freq_hz_correct:
  assumes "pit_contract io pv"
  shows "(19 \<le> unat f \<and> unat f \<le> 1193180 \<longrightarrow> fst (set_freq_hz io f d) = 0 \<and>
       unat (pit_divisor (pv (snd (set_freq_hz io f d)))) = 1193180 div unat f \<and>
       pit_low (pv (snd (set_freq_hz io f d))) = None \<and> pit_mode (pv (snd (set_freq_hz io f d))) = 0x36) \<and>
    (unat f < 18 \<or> 1193180 < unat f \<longrightarrow> set_freq_hz io f d = (1, d)) \<and>
    (f = 18 \<longrightarrow> fst (set_freq_hz io f d) = 0 \<and> unat (pit_divisor (pv (snd (set_freq_hz io f d)))) = 751)"
proof (intro conjI impI)
  have mx: "unat FREQ_HZ_MAX = 1193180" "unat FREQ_HZ_MIN = 18"
    by (simp_all add: FREQ_HZ_MAX_def FREQ_HZ_MIN_def DIV_MAX_def unat_div)
  {
    assume f: "19 \<le> unat f \<and> unat f \<le> 1193180"
    then have r: "FREQ_HZ_MIN \<le> f" "f \<le> FREQ_HZ_MAX" by (simp_all add: word_le_nat_alt mx)
    have "1193180 div unat f \<le> 1193180 div 19" using f by (intro div_le_mono2) simp_all
    then have dv: "1193180 div unat f < 65536" by simp
    note v = set_freq_hz_view [OF assms r, of d]
    show "fst (set_freq_hz io f d) = 0" by (rule v(1))
    show "unat (pit_divisor (pv (snd (set_freq_hz io f d)))) = 1193180 div unat f"
      using dv by (simp add: v(2) unsigned_ucast_eq unat_div mx take_bit_nat_eq_self)
    show "pit_low (pv (snd (set_freq_hz io f d))) = None" "pit_mode (pv (snd (set_freq_hz io f d))) = 0x36"
      by (simp_all add: v(2))
  }
  show "set_freq_hz io f d = (1, d)" if "unat f < 18 \<or> 1193180 < unat f"
    using that by (auto simp: set_freq_hz_def word_less_nat_alt mx)
  {
    assume f: "f = 18"
    have r: "FREQ_HZ_MIN \<le> 18" "18 \<le> FREQ_HZ_MAX" by (simp_all add: word_le_nat_alt mx)
    note v = set_freq_hz_view [OF assms r, of d]
    show "fst (set_freq_hz io f d) = 0" using v(1) f by simp
    show "unat (pit_divisor (pv (snd (set_freq_hz io f d)))) = 751"
      by (simp add: f v(2) unsigned_ucast_eq unat_div mx take_bit_eq_mod)
  }
qed

definition model_pit :: "pit_chip ports" where
  "model_pit = \<lparr>inb = (\<lambda>p d. (0xff, d)), inw = (\<lambda>p d. (0xffff, d)),
     outb = (\<lambda>p v d. if p = 0x43 then d\<lparr>pit_mode := v, pit_low := None\<rparr> else if p = 0x40 then chip_write v d else d)\<rparr>"

lemma model_pit_contract: "pit_contract model_pit (\<lambda>d. d)"
  by (simp add: pit_contract_def model_pit_def)

theorem set_freq_hz_correct_witness:
  "unat (pit_divisor (snd (set_freq_hz model_pit 40 \<lparr>pit_mode = 0, pit_low = Some 3, pit_divisor = 0\<rparr>))) = 29829"
  using set_freq_hz_correct [OF model_pit_contract, of 40 "\<lparr>pit_mode = 0, pit_low = Some 3, pit_divisor = 0\<rparr>", THEN conjunct1]
  by simp

end
