(* ===== verification/Displays.thy ===== *)
theory Displays
  imports Kstdio Hdd Fat16 Elf32
begin

text \<open>
  What the drivers print about themselves: \<open>ata_display_info\<close>, \<open>mbr_display\<close>, \<open>fat16_display_vid\<close>,
  \<open>fat16_display_root\<close>, \<open>elf32_display\<close> and the messages of \<open>elf32_strerror\<close>. The result is the list
  of the texts given to \<open>console_puts\<close>, one for every call of \<open>kprintf\<close>; \<open>None\<close> is a fault of one
  of the calls. The first section has the rules by which \<open>kvsprintf\<close> runs through a format.
\<close>

section \<open>Formats\<close>

definition QUOTE :: char where "QUOTE = CHR 0x22"

definition plain :: "char \<Rightarrow> bool" where
  "plain c \<longleftrightarrow> c \<noteq> NUL \<and> c \<noteq> CHR ''%''"

lemma format_end: "kvsprintf_from (NUL # r) k = Some k"
  by (simp add: kvsprintf_from.simps)

lemma format_plain:
  "list_all plain p \<Longrightarrow> kvsprintf_from (p @ r) k = kvsprintf_from r (k\<lparr>kv_out := kv_out k @ p\<rparr>)"
  by (induction p arbitrary: k) (simp_all add: kvsprintf_from.simps [of "_ # _"] plain_def)

lemma flags_off [simp]: "\<not> has 0 f"
  by (simp add: has_def)

lemma format_char: "plain c \<Longrightarrow> kvsprintf_from (c # r) k = kvsprintf_from r (k\<lparr>kv_out := kv_out k @ [c]\<rparr>)"
  by (simp add: kvsprintf_from.simps [of "_ # _"] plain_def)

lemmas run_directive = kvsprintf_from.simps [of "_ # _"] directive_def parse_width_def parse_precision_def
  skip_length_def convert_def is_digit_def char_in_def schar_def Let_def

lemma format_s:
  assumes "kv_args k = Arg_str (Some b) # as" "c_string b s"
  shows "kvsprintf_from (CHR ''%'' # CHR ''s'' # r) k
    = kvsprintf_from r (k\<lparr>kv_args := as, kv_out := kv_out k @ s\<rparr>)"
proof -
  have "strlen (Some b) = Some (length s)" "take (length s) b = s"
    using assms(2) strlen_c_string [OF assms(2)] by (auto simp: c_string_def)
  then show ?thesis using assms(1) by (simp add: run_directive out_string_def)
qed

lemma format_d:
  assumes "kv_args k = Arg_int n # as"
  shows "kvsprintf_from (CHR ''%'' # CHR ''d'' # r) k
    = kvsprintf_from r (k\<lparr>kv_out := kv_out k @ number_text n 10 (-1) (-1) SIGN, kv_args := as\<rparr>)"
  using assms by (simp add: run_directive out_number_def number_eq_text)

lemma format_x:
  assumes "kv_args k = Arg_int n # as"
  shows "kvsprintf_from (CHR ''%'' # CHR ''x'' # r) k
    = kvsprintf_from r (k\<lparr>kv_out := kv_out k @ number_text n 16 (-1) (-1) SMALL, kv_args := as\<rparr>)"
  using assms by (simp add: run_directive out_number_def number_eq_text)

text \<open>Running a format with literal characters and the conversions above.\<close>

lemmas run_format = kprintf_def kvsprintf_def format_char format_end format_s format_d format_x plain_def
  QUOTE_def LF_def TAB_def Kstdio.BUF_SIZE_def

text \<open>The numeral printed by \<open>%x\<close> and by \<open>%d\<close> for a number below 2^31.\<close>

lemma hex_text: "number_text n 16 (-1) (-1) SMALL = numeral_text True 16 (unat n)"
  by (simp add: number_text_def Let_def sign_text_def prefix_text_def digits_text_def has_def flag_defs magnitude_def)

lemma dec_text: "sint n \<ge> 0 \<Longrightarrow> number_text n 10 (-1) (-1) SIGN = numeral_text False 10 (unat n)"
  by (simp add: number_text_def Let_def sign_text_def prefix_text_def digits_text_def has_def flag_defs magnitude_def)

section \<open>Disk, partitions, volume\<close>

definition ata_display_info :: "ata_id \<Rightarrow> char list list option" where
  "ata_display_info idd =
     (if \<not> id_valid idd then those [kprintf (''no info to display'' @ [LF, NUL]) []]
      else those
        [kprintf (''model: %s'' @ [LF, NUL]) [Arg_str (Some (id_model_number idd))],
         kprintf (''capacity:  %8d sectors'' @ [LF, NUL]) [Arg_int (id_num_sectors idd)],
         kprintf (''cylinders: %7d'' @ [LF, NUL]) [Arg_int (ucast (id_cylinders idd))],
         kprintf (''heads:     %7d'' @ [LF, NUL]) [Arg_int (ucast (id_heads idd))],
         kprintf (''spt:       %7d'' @ [LF, NUL]) [Arg_int (ucast (id_spt idd))]])"

definition display_partition_entry :: "mpe \<Rightarrow> char list option list" where
  "display_partition_entry pe =
     (if \<not> mpe_valid pe then [kprintf (''unused'' @ [LF, NUL]) []]
      else (if mpe_bootable pe then [kprintf ('' * '' @ [LF, NUL]) []] else []) @
        [kprintf (''starting sector lba:   %8d'' @ [LF, NUL]) [Arg_int (mpe_starting_sec_lba pe)],
         kprintf (''size in sectors:       %8d'' @ [LF, NUL]) [Arg_int (mpe_num_secs pe)]])"

definition mbr_display :: "mbr_state \<Rightarrow> char list list option" where
  "mbr_display ms =
     those (concat (map (\<lambda>i. kprintf (''partition %1d'' @ [LF, NUL]) [Arg_int (of_nat i)]
                              # display_partition_entry (partition_entry ms ! i)) [0..<NUM_PARTITIONS_MAX]))"

definition hdd_display_mbr :: "'d disk \<Rightarrow> char list list option" where
  "hdd_display_mbr s = mbr_display (disk_mbr s)"

definition fat16_display_vid :: "vid \<Rightarrow> char list list option" where
  "fat16_display_vid v = those
     [kprintf (''bytes per sector:       %8d'' @ [LF, NUL]) [Arg_int (ucast (vid_bytes_per_sector v))],
      kprintf (''sectors per cluster:    %8d'' @ [LF, NUL]) [Arg_int (ucast (vid_sectors_per_cluster v))],
      kprintf (''reserved sectors:       %8d'' @ [LF, NUL]) [Arg_int (ucast (vid_reserved_sectors v))],
      kprintf (''num fats:               %8d'' @ [LF, NUL]) [Arg_int (ucast (vid_num_fats v))],
      kprintf (''max roots entries:      %8d'' @ [LF, NUL]) [Arg_int (ucast (vid_max_root_entries v))],
      kprintf (''sectors per FAT:        %8d'' @ [LF, NUL]) [Arg_int (ucast (vid_sectors_per_fat v))],
      kprintf (''signature:              %8x'' @ [LF, NUL]) [Arg_int (ucast (vid_signature v))],
      kprintf (''label: <%s>'' @ [LF, NUL]) [Arg_str (Some (vid_vol_label v))],
      kprintf (''type:  <%s>'' @ [LF, NUL]) [Arg_str (Some (vid_type v))]]"

text \<open>
  The entry at offset \<open>de\<close> of the sector buffer; \<open>junk\<close> is what the local buffer of 16 characters
  holds before.
\<close>

definition dir_display_entry :: "char list \<Rightarrow> nat \<Rightarrow> u8 list \<Rightarrow> char list list option" where
  "dir_display_entry junk de b =
     (case strncpy junk (map byte_char (drop de b)) FILE_BASENAME_LEN of
        None \<Rightarrow> None
      | Some s1 \<Rightarrow>
          (case strncpy (s1[FILE_BASENAME_LEN := NUL]) (map byte_char (drop (de + FILE_BASENAME_LEN) b))
                  FILE_EXTENSION_LEN of
             None \<Rightarrow> None
           | Some s2 \<Rightarrow> those
               [kprintf (''name: <%s>'' @ [NUL]) [Arg_str (Some (s1[FILE_BASENAME_LEN := NUL]))],
                kprintf ('', extension: <%s>'' @ [LF, NUL]) [Arg_str (Some (s2[FILE_EXTENSION_LEN := NUL]))]]))"

partial_function (option) display_root_from ::
    "'s reader \<Rightarrow> char list \<Rightarrow> nat \<Rightarrow> char list list \<Rightarrow> 's fat \<Rightarrow> (char list list \<times> 's fat) option" where
  "display_root_from rd junk i out s =
     (case rootdir_get_entry_num rd (of_nat i) s of
        None \<Rightarrow> None
      | Some (None, s') \<Rightarrow> Some (out, s')
      | Some (Some de, s') \<Rightarrow>
          if dir_entry_is_end de (buf_sec s')
          then map_option (\<lambda>t. (out @ [t], s')) (kprintf (''end reached'' @ [LF, NUL]) [])
          else if dir_entry_is_unused de (buf_sec s') then display_root_from rd junk (Suc i) out s'
          else if dir_entry_has_long_name de (buf_sec s') then display_root_from rd junk (Suc i) out s'
          else (case (kprintf (''entry %03d '' @ [NUL]) [Arg_int (of_nat i)], dir_display_entry junk de (buf_sec s')) of
                  (Some t, Some ts) \<Rightarrow> display_root_from rd junk (Suc i) (out @ t # ts) s'
                | _ \<Rightarrow> None))"

definition fat16_display_root :: "'s reader \<Rightarrow> char list \<Rightarrow> 's fat \<Rightarrow> (char list list \<times> 's fat) option" where
  "fat16_display_root rd junk s = display_root_from rd junk 0 [] s"

definition fat16_display_dir_entry ::
    "'s reader \<Rightarrow> char list \<Rightarrow> char list \<Rightarrow> 's fat \<Rightarrow> (char list list \<times> 's fat) option" where
  "fat16_display_dir_entry rd junk filename s =
     (case rootdir_find_entry rd filename s of
        None \<Rightarrow> None
      | Some (None, s') \<Rightarrow>
          map_option (\<lambda>t. ([t], s'))
            (kprintf (''entry '' @ QUOTE # ''%s'' @ QUOTE # '' not found'' @ [LF, NUL]) [Arg_str (Some filename)])
      | Some (Some de, s') \<Rightarrow> map_option (\<lambda>ts. (ts, s')) (dir_display_entry junk de (buf_sec s')))"

section \<open>ELF images\<close>

definition PF_X :: u32 where "PF_X = 1"
definition PF_R :: u32 where "PF_R = 4"

definition progseg_is_executable where
  "progseg_is_executable ld ph s = map_option (\<lambda>f. f AND PF_X \<noteq> 0) (p_flags ld ph s)"

definition progseg_is_readable where
  "progseg_is_readable ld ph s = map_option (\<lambda>f. f AND PF_R \<noteq> 0) (p_flags ld ph s)"

text \<open>The address of a program header; \<open>NULL\<close> is \<open>Some None\<close>.\<close>

definition get_phdr :: "(u32 \<Rightarrow> 's \<Rightarrow> u8 option) \<Rightarrow> u32 \<Rightarrow> u32 \<Rightarrow> 's \<Rightarrow> u32 option option" where
  "get_phdr ld eh idx s =
     (if eh = 0 then Some None
      else (case e_phnum ld eh s of
              None \<Rightarrow> None
            | Some n \<Rightarrow> if idx \<ge> ucast n then Some None
                else map_option (\<lambda>tab. Some (tab + idx * SIZEOF_PHDR)) (get_progtab ld eh s)))"

definition print_field :: "char list \<Rightarrow> u32 option \<Rightarrow> char list option list" where
  "print_field fmt w = [case w of None \<Rightarrow> None | Some n \<Rightarrow> kprintf fmt [Arg_int n]]"

definition print_flag :: "char list \<Rightarrow> bool option \<Rightarrow> char list option list" where
  "print_flag fmt b = (case b of None \<Rightarrow> [None] | Some True \<Rightarrow> [kprintf fmt []] | Some False \<Rightarrow> [])"

definition display_pentry :: "(u32 \<Rightarrow> 's \<Rightarrow> u8 option) \<Rightarrow> u32 \<Rightarrow> 's \<Rightarrow> char list option list" where
  "display_pentry ld ph s =
     print_flag (''load'' @ [LF, NUL]) (progseg_is_loadable ld ph s)
     @ print_field (''vaddr: %x'' @ [LF, NUL]) (p_vaddr ld ph s)
     @ print_field (''paddr: %x'' @ [LF, NUL]) (p_paddr ld ph s)
     @ print_field (''filesz: %d'' @ [LF, NUL]) (p_filesz ld ph s)
     @ print_field (''memsz: %d'' @ [LF, NUL]) (p_memsz ld ph s)
     @ print_flag ('' execute'' @ [LF, NUL]) (progseg_is_executable ld ph s)
     @ print_flag ('' write'' @ [LF, NUL]) (progseg_is_writable ld ph s)
     @ print_flag ('' read'' @ [LF, NUL]) (progseg_is_readable ld ph s)"

text \<open>No header is \<open>NULL\<close> inside the loop unless the image is at address 0, where the code faults.\<close>

definition elf32_display_pentries :: "(u32 \<Rightarrow> 's \<Rightarrow> u8 option) \<Rightarrow> u32 \<Rightarrow> 's \<Rightarrow> char list list option" where
  "elf32_display_pentries ld eh s =
     (case e_phnum ld eh s of
        None \<Rightarrow> None
      | Some n \<Rightarrow> those (concat (map (\<lambda>i.
          (case get_phdr ld eh (of_nat i) s of
             None \<Rightarrow> [None]
           | Some None \<Rightarrow> display_pentry ld 0 s
           | Some (Some ph) \<Rightarrow> display_pentry ld ph s)
          @ [kprintf (''----------------------'' @ [LF, NUL]) []]) [0..<unat n])))"

definition elf32_display :: "(u32 \<Rightarrow> 's \<Rightarrow> u8 option) \<Rightarrow> u32 \<Rightarrow> 's \<Rightarrow> char list list option" where
  "elf32_display ld eh s = elf32_display_pentries ld eh s"

text \<open>
  The message of an error. Those with a number are formatted into the 128 characters of
  \<open>_dyn_str_error\<close>, whose old contents are \<open>dyn\<close>.
\<close>

definition elf32_strerror :: "char list \<Rightarrow> elf_error \<Rightarrow> char list option" where
  "elf32_strerror dyn err =
     (case err of
        Unknown_error \<Rightarrow> Some (''unknown error'' @ [NUL])
      | Invalid_magic \<Rightarrow> Some (''invalid ELF magin number'' @ [NUL])
      | Not_32bit \<Rightarrow> Some (''not 32-bit'' @ [NUL])
      | Not_little_endian \<Rightarrow> Some (''not little-endian'' @ [NUL])
      | Not_386 \<Rightarrow> Some (''not 386'' @ [NUL])
      | Not_executable \<Rightarrow> Some (''not executable'' @ [NUL])
      | Paddr_not_aligned w \<Rightarrow> ksprintf dyn (''starting physical address not page-aligned: %x'' @ [NUL]) [Arg_int w]
      | Vaddr_not_aligned w \<Rightarrow> ksprintf dyn (''starting virtual address not page-aligned: %x'' @ [NUL]) [Arg_int w]
      | Paddr_out_of_range w \<Rightarrow> ksprintf dyn (''physical address out of range: %x'' @ [NUL]) [Arg_int w]
      | Vaddr_out_of_range w \<Rightarrow> ksprintf dyn (''virtual address out of range: %x'' @ [NUL]) [Arg_int w]
      | Mapping_file_page_failed \<Rightarrow> Some (''mapping a in-image-present failed'' @ [NUL])
      | Mapping_zero_page_failed \<Rightarrow> Some (''mapping of a to-be-zeroed page failed'' @ [NUL])
      | Too_much_memory w \<Rightarrow>
          ksprintf dyn (''required %d bytes, only %d supported'' @ [NUL]) [Arg_int w, Arg_int KERNEL_MEMSZ_MAX])"

end
