(* ===== verification/Keyboard.thy ===== *)
theory Keyboard
  imports Console Pic Idt "HOL-Library.Sublist"
begin

text \<open>
  The keyboard driver (\<open>drivers/keyboard.c\<close>, \<open>drivers/keymap.h\<close>) and the reading of a line by the
  main program (\<open>console_get_line\<close> of \<open>drivers/console.c\<close>), which sleeps until the keyboard interrupt
  has completed the line. The hardware behind the ports is a parameter: \<open>press c d\<close> is the machine
  after the keyboard has put the scan code \<open>c\<close> into its buffer and the controller has delivered the
  interrupt.
\<close>

section \<open>State\<close>

definition LCTRL :: u8 where "LCTRL = 0x1d"
definition LSHIFT :: u8 where "LSHIFT = 0x2a"
definition RSHIFT :: u8 where "RSHIFT = 0x36"
definition KEYBOARD_IRQ_NUM :: u8 where "KEYBOARD_IRQ_NUM = 0x01"
definition DATA_REG :: u16 where "DATA_REG = 0x60"

text \<open>Scan code to characters, without and with shift.\<close>

definition keymap :: "(char \<times> char) list" where
  "keymap = [
     (NUL, NUL), (NUL, NUL), (CHR ''1'', CHR ''!''), (CHR ''2'', NUL),
     (CHR ''3'', NUL), (CHR ''4'', CHR ''$''), (CHR ''5'', CHR ''%''), (CHR ''6'', NUL),
     (CHR ''7'', NUL), (CHR ''8'', NUL), (CHR ''9'', NUL), (CHR ''0'', NUL),
     (NUL, NUL), (NUL, NUL), (ch_del, NUL), (NUL, NUL),
     (CHR ''q'', CHR ''Q''), (CHR ''w'', CHR ''W''), (CHR ''e'', CHR ''E''), (CHR ''r'', CHR ''R''),
     (CHR ''t'', CHR ''T''), (CHR ''y'', CHR ''Y''), (CHR ''u'', CHR ''U''), (CHR ''i'', CHR ''I''),
     (CHR ''o'', CHR ''O''), (CHR ''p'', CHR ''P''), (CHR 0x60, NUL), (CHR ''+'', NUL),
     (ch_lf, NUL), (CHR ''X'', NUL), (CHR ''a'', CHR ''A''), (CHR ''s'', CHR ''S''),
     (CHR ''d'', CHR ''D''), (CHR ''f'', CHR ''F''), (CHR ''g'', CHR ''G''), (CHR ''h'', CHR ''H''),
     (CHR ''j'', CHR ''J''), (CHR ''k'', CHR ''K''), (CHR ''l'', CHR ''L''), (CHR ''Y'', NUL),
     (CHR ''Y'', NUL), (CHR ''Y'', NUL), (CHR ''X'', NUL), (CHR ''Y'', NUL),
     (CHR ''z'', CHR ''Z''), (CHR ''x'', CHR ''X''), (CHR ''c'', CHR ''C''), (CHR ''v'', CHR ''V''),
     (CHR ''b'', CHR ''B''), (CHR ''n'', CHR ''N''), (CHR ''m'', CHR ''M''), (CHR '','', NUL),
     (CHR ''.'', NUL), (CHR ''-'', NUL), (CHR ''X'', NUL), (CHR ''Z'', NUL),
     (CHR ''Z'', NUL), (CHR '' '', CHR '' ''), (CHR ''Z'', NUL), (NUL, NUL),
     (NUL, NUL), (NUL, NUL), (NUL, NUL), (NUL, NUL),
     (NUL, NUL), (NUL, NUL), (NUL, NUL), (NUL, NUL),
     (NUL, NUL), (NUL, NUL), (NUL, NUL), (NUL, NUL),
     (NUL, NUL), (NUL, NUL), (NUL, NUL), (NUL, NUL),
     (NUL, NUL), (NUL, NUL), (NUL, NUL), (NUL, NUL),
     (NUL, NUL), (NUL, NUL), (NUL, NUL), (NUL, NUL),
     (NUL, NUL), (NUL, NUL), (NUL, NUL), (NUL, NUL),
     (NUL, NUL), (NUL, NUL), (NUL, NUL), (NUL, NUL),
     (NUL, NUL), (NUL, NUL), (NUL, NUL), (NUL, NUL),
     (NUL, NUL), (NUL, NUL), (NUL, NUL), (NUL, NUL),
     (NUL, NUL), (NUL, NUL), (NUL, NUL), (NUL, NUL),
     (NUL, NUL), (NUL, NUL), (NUL, NUL), (NUL, NUL),
     (NUL, NUL), (NUL, NUL), (NUL, NUL), (NUL, NUL),
     (NUL, NUL), (NUL, NUL), (NUL, NUL), (NUL, NUL),
     (NUL, NUL), (NUL, NUL), (NUL, NUL), (NUL, NUL),
     (NUL, NUL), (NUL, NUL), (NUL, NUL), (NUL, NUL),
     (NUL, NUL), (NUL, NUL), (NUL, NUL), (NUL, NUL)]"

record keyboard =
  kb_shift :: bool
  kb_rshift :: bool
  kb_lshift :: bool
  kb_ctrl :: bool

record 'd machine =
  con :: console
  kbd :: keyboard
  proc :: cpu
  dev :: 'd

section \<open>The driver\<close>

definition read_buf :: "'d ports \<Rightarrow> 'd \<Rightarrow> u8 \<times> 'd" where
  "read_buf io = inb io DATA_REG"

definition keyboard_enable_irq :: "'d ports \<Rightarrow> 'd machine \<Rightarrow> 'd machine" where
  "keyboard_enable_irq io s = s\<lparr>dev := pic_enable_irq io KEYBOARD_IRQ_NUM (dev s)\<rparr>"

definition keyboard_disable_irq :: "'d ports \<Rightarrow> 'd machine \<Rightarrow> 'd machine" where
  "keyboard_disable_irq io s = s\<lparr>dev := pic_disable_irq io KEYBOARD_IRQ_NUM (dev s)\<rparr>"

text \<open>\<open>isr\<close> is the address of the assembly wrapper of the handler.\<close>

definition keyboard_init :: "'d ports \<Rightarrow> u32 \<Rightarrow> 'd machine \<Rightarrow> int \<times> 'd machine" where
  "keyboard_init io isr s =
     (let s = s\<lparr>kbd := \<lparr>kb_shift = False, kb_rshift = False, kb_lshift = False, kb_ctrl = False\<rparr>\<rparr>;
          intr_flag = eflags_get_intr_flag (eflags (proc s));
          s = s\<lparr>proc := (proc s)\<lparr>eflags := intr_disable (eflags (proc s))\<rparr>\<rparr>;
          s = s\<lparr>proc := snd (intr_register_irq KEYBOARD_IRQ_NUM isr (proc s))\<rparr>;
          s = s\<lparr>dev := pic_send_eoi io KEYBOARD_IRQ_NUM (dev s)\<rparr>;
          s = keyboard_enable_irq io s
      in (0, s\<lparr>proc := (proc s)\<lparr>eflags := eflags_set_intr_flag intr_flag (eflags (proc s))\<rparr>\<rparr>))"

definition console_start :: "'d ports \<Rightarrow> u32 \<Rightarrow> 'd machine \<Rightarrow> int \<times> 'd machine" where
  "console_start io isr s =
     (let (rc, s) = keyboard_init io isr (s\<lparr>con := console_init (con s)\<rparr>)
      in (if rc \<noteq> 0 then 1 else 0, s))"

text \<open>The character of a key, with the control characters; NUL stands for none.\<close>

definition map_key :: "u8 \<Rightarrow> keyboard \<Rightarrow> char" where
  "map_key code k =
     (let c = (if kb_shift k then snd else fst) (keymap ! unat code)
      in if c = CHR ''u'' then if kb_ctrl k then ch_cr else c
         else if c = CHR ''l'' then if kb_ctrl k then ch_del else c
         else if c = ch_del then ch_bs
         else c)"

definition isr_end :: "'d ports \<Rightarrow> 'd machine \<Rightarrow> 'd machine" where
  "isr_end io s =
     s\<lparr>kbd := (kbd s)\<lparr>kb_shift := kb_lshift (kbd s) \<or> kb_rshift (kbd s)\<rparr>,
       dev := pic_send_eoi io KEYBOARD_IRQ_NUM (dev s)\<rparr>"

definition keyboard_isr :: "'d ports \<Rightarrow> 'd machine \<Rightarrow> 'd machine" where
  "keyboard_isr io s =
     (let (scancode, d) = read_buf io (dev s);
          s = s\<lparr>dev := d\<rparr>;
          make = (0x80 AND scancode = 0);
          scancode = scancode AND 0x7f
      in if scancode = LCTRL then isr_end io (s\<lparr>kbd := (kbd s)\<lparr>kb_ctrl := make\<rparr>\<rparr>)
         else if scancode = LSHIFT then isr_end io (s\<lparr>kbd := (kbd s)\<lparr>kb_lshift := make\<rparr>\<rparr>)
         else if scancode = RSHIFT then isr_end io (s\<lparr>kbd := (kbd s)\<lparr>kb_rshift := make\<rparr>\<rparr>)
         else if \<not> make then isr_end io s
         else (let c = map_key scancode (kbd s)
               in isr_end io (if c \<noteq> NUL then s\<lparr>con := console_put_ibuf c (con s)\<rparr> else s)))"

section \<open>Reading a line\<close>

text \<open>The interrupts taken while the line is unmasked, in their order.\<close>

definition take_irqs :: "'d ports \<Rightarrow> (u8 \<Rightarrow> 'd \<Rightarrow> 'd) \<Rightarrow> u8 list \<Rightarrow> 'd machine \<Rightarrow> 'd machine" where
  "take_irqs io press codes s = fold (\<lambda>c s. keyboard_isr io (s\<lparr>dev := press c (dev s)\<rparr>)) codes s"

text \<open>
  One element of \<open>bs\<close> holds the scan codes that arrive from one \<open>keyboard_enable_irq\<close> until the
  processor, woken by an interrupt, masks the line again. \<open>None\<close>: the call does not return. That is so
  when the events are exhausted, and also when interrupts are disabled, since \<open>hlt\<close> then sleeps for
  ever.
\<close>

fun get_line_from :: "'d ports \<Rightarrow> (u8 \<Rightarrow> 'd \<Rightarrow> 'd) \<Rightarrow> u8 list list \<Rightarrow> 'd machine
    \<Rightarrow> (int \<times> u8 list list \<times> 'd machine) option" where
  "get_line_from io press bs s =
     (let s = keyboard_disable_irq io s
      in if line_completed (con s) then Some (0, bs, s)
         else if cleared (con s) then Some (1, bs, keyboard_enable_irq io s)
         else (let s = keyboard_enable_irq io s
               in if \<not> eflags_get_intr_flag (eflags (proc s)) then None
                  else (case bs of [] \<Rightarrow> None
                        | b # bs' \<Rightarrow> get_line_from io press bs' (take_irqs io press b s))))"

declare get_line_from.simps [simp del]

text \<open>The buffer and the length on return, the events left, and the machine.\<close>

definition console_get_line :: "'d ports \<Rightarrow> (u8 \<Rightarrow> 'd \<Rightarrow> 'd) \<Rightarrow> u8 list list \<Rightarrow> char list \<Rightarrow> nat \<Rightarrow> 'd machine
    \<Rightarrow> (int \<times> char list \<times> nat \<times> u8 list list \<times> 'd machine) option" where
  "console_get_line io press bs buf buf_len s =
     (let s = (if cleared (con s) then s\<lparr>con := (display_ibuf (con s))\<lparr>cleared := False\<rparr>\<rparr> else s)
      in case get_line_from io press bs s of
           None \<Rightarrow> None
         | Some (rc, bs', s) \<Rightarrow>
             if rc \<noteq> 0 then Some (1, buf, buf_len, bs', s)
             else (let len = (if buf_len < widx (con s) then buf_len else widx (con s))
                   in case memcpy buf (ibuf (con s)) len of
                        None \<Rightarrow> None
                      | Some buf' \<Rightarrow> Some (0, buf', len, bs', s\<lparr>con := reset_ibuf (con s)\<rparr>)))"

section \<open>The hardware\<close>

text \<open>
  The contract of the machine: the interrupt controllers, and a keyboard interrupt puts the scan code
  into the data register, where reading it changes nothing else, and the line in service.
\<close>

definition keyboard_contract :: "'d ports \<Rightarrow> ('d \<Rightarrow> pics) \<Rightarrow> (u8 \<Rightarrow> 'd \<Rightarrow> 'd) \<Rightarrow> bool" where
  "keyboard_contract io view press \<longleftrightarrow> pic_contract io view \<and>
     (\<forall>c d. fst (inb io 0x60 (press c d)) = c) \<and> (\<forall>d. view (snd (inb io 0x60 d)) = view d) \<and>
     (\<forall>c d. view (press c d) = (view d)\<lparr>master := (master (view d))\<lparr>in_service := set_bit 1 (in_service (master (view d)))\<rparr>\<rparr>)"

definition pics_ready :: "pics \<Rightarrow> bool" where
  "pics_ready p \<longleftrightarrow> expects (master p) = 0 \<and> expects (slave p) = 0"

lemma kbd_line: "unat KEYBOARD_IRQ_NUM = 1" "KEYBOARD_IRQ_NUM < 8" "unat KEYBOARD_IRQ_NUM < 16"
  by (simp_all add: KEYBOARD_IRQ_NUM_def)

lemma irq_view:
  assumes "keyboard_contract io view press" "pics_ready (view (dev s))"
  shows "view (dev (keyboard_enable_irq io s)) = mask_line 1 False (view (dev s))"
    and "view (dev (keyboard_disable_irq io s)) = mask_line 1 True (view (dev s))"
  using assms pic_irq_view [of io view "dev s" KEYBOARD_IRQ_NUM]
  by (simp_all add: keyboard_contract_def pics_ready_def keyboard_enable_irq_def keyboard_disable_irq_def kbd_line)

lemma mask_line_ready [simp]: "pics_ready (mask_line n b p) = pics_ready p"
  by (simp add: pics_ready_def mask_line_def Let_def)

section \<open>The effect of a scan code\<close>

text \<open>On the console and on the modifiers, without the hardware.\<close>

definition key_event :: "u8 \<Rightarrow> console \<times> keyboard \<Rightarrow> console \<times> keyboard" where
  "key_event code ck = (case ck of (c, k) \<Rightarrow>
     (let make = \<not> bit code 7;
          sc = take_bit 7 code;
          ch = map_key sc k;
          k' = (if sc = LCTRL then k\<lparr>kb_ctrl := make\<rparr> else if sc = LSHIFT then k\<lparr>kb_lshift := make\<rparr>
                else if sc = RSHIFT then k\<lparr>kb_rshift := make\<rparr> else k)
      in (if make \<and> sc \<notin> {LCTRL, LSHIFT, RSHIFT} \<and> ch \<noteq> NUL then console_put_ibuf ch c else c,
          k'\<lparr>kb_shift := kb_lshift k' \<or> kb_rshift k'\<rparr>)))"

lemma make_bit: "0x80 AND (code :: u8) = 0 \<longleftrightarrow> \<not> bit code 7"
  using and_exp_eq_0_iff_not_bit [of code 7] by (simp add: and.commute)

lemma code_bits: "(code :: u8) AND 0x7f = take_bit 7 code"
  by (simp add: take_bit_eq_mask mask_eq_exp_minus_1)

lemma modifiers_differ: "LCTRL \<noteq> LSHIFT" "LCTRL \<noteq> RSHIFT" "LSHIFT \<noteq> RSHIFT"
  by (simp_all add: LCTRL_def LSHIFT_def RSHIFT_def)

lemma keyboard_isr_event:
  assumes "keyboard_contract io view press"
  shows "(con (keyboard_isr io (s\<lparr>dev := press code (dev s)\<rparr>)), kbd (keyboard_isr io (s\<lparr>dev := press code (dev s)\<rparr>)))
      = key_event code (con s, kbd s)"
    and "proc (keyboard_isr io (s\<lparr>dev := press code (dev s)\<rparr>)) = proc s"
proof -
  obtain d where d: "read_buf io (press code (dev s)) = (code, d)"
    using assms by (metis DATA_REG_def keyboard_contract_def prod.collapse read_buf_def)
  show "(con (keyboard_isr io (s\<lparr>dev := press code (dev s)\<rparr>)), kbd (keyboard_isr io (s\<lparr>dev := press code (dev s)\<rparr>)))
      = key_event code (con s, kbd s)"
    using modifiers_differ by (simp add: keyboard_isr_def d make_bit code_bits key_event_def isr_end_def Let_def)
  show "proc (keyboard_isr io (s\<lparr>dev := press code (dev s)\<rparr>)) = proc s"
    by (simp add: keyboard_isr_def d isr_end_def Let_def)
qed

lemma keyboard_isr_pics:
  assumes "keyboard_contract io view press" "pics_ready (view (dev s))"
  shows "pics_ready (view (dev (keyboard_isr io (s\<lparr>dev := press code (dev s)\<rparr>))))"
proof -
  obtain d where d: "read_buf io (press code (dev s)) = (code, d)" "view d = view (press code (dev s))"
    by (rule that [of "snd (inb io 0x60 (press code (dev s)))"])
      (use assms(1) in \<open>simp_all add: keyboard_contract_def read_buf_def DATA_REG_def prod_eq_iff\<close>)
  have p: "pic_contract io view" using assms(1) by (simp add: keyboard_contract_def)
  have r: "pics_ready (view (press code (dev s)))" using assms by (simp add: keyboard_contract_def pics_ready_def)
  have e: "pics_ready (view (pic_send_eoi io KEYBOARD_IRQ_NUM d))"
    using r d(2) by (simp add: pic_send_eoi_view [OF p] kbd_line pics_ready_def chip_eoi_def)
  then show ?thesis by (simp add: keyboard_isr_def d(1) isr_end_def Let_def)
qed

lemma take_irqs_event_Cons:
  "take_irqs io press (c # cs) s = take_irqs io press cs (keyboard_isr io (s\<lparr>dev := press c (dev s)\<rparr>))"
  by (simp add: take_irqs_def)

lemma take_irqs_event:
  assumes "keyboard_contract io view press"
  shows "(con (take_irqs io press codes s), kbd (take_irqs io press codes s)) = fold key_event codes (con s, kbd s)"
    and "proc (take_irqs io press codes s) = proc s"
    and "pics_ready (view (dev s)) \<Longrightarrow> pics_ready (view (dev (take_irqs io press codes s)))"
proof -
  note ev = keyboard_isr_event [OF assms]
  show "(con (take_irqs io press codes s), kbd (take_irqs io press codes s)) = fold key_event codes (con s, kbd s)"
  proof (induction codes arbitrary: s)
    case (Cons c cs)
    show ?case unfolding take_irqs_event_Cons Cons.IH ev(1) by simp
  qed (simp add: take_irqs_def)
  show "proc (take_irqs io press codes s) = proc s"
  proof (induction codes arbitrary: s)
    case (Cons c cs)
    show ?case unfolding take_irqs_event_Cons Cons.IH ev(2) ..
  qed (simp add: take_irqs_def)
  show "pics_ready (view (dev (take_irqs io press codes s)))" if "pics_ready (view (dev s))"
    using that
  proof (induction codes arbitrary: s)
    case (Cons c cs)
    show ?case unfolding take_irqs_event_Cons by (intro Cons.IH keyboard_isr_pics [OF assms] Cons.prems)
  qed (simp add: take_irqs_def)
qed

section \<open>Waiting for the line\<close>

abbreviation waiting :: "console \<times> keyboard \<Rightarrow> bool" where
  "waiting ck \<equiv> \<not> line_completed (fst ck) \<and> \<not> cleared (fst ck)"

lemma irq_masks_rest:
  "con (keyboard_disable_irq io s) = con s" "kbd (keyboard_disable_irq io s) = kbd s" "proc (keyboard_disable_irq io s) = proc s"
  "con (keyboard_enable_irq io s) = con s" "kbd (keyboard_enable_irq io s) = kbd s" "proc (keyboard_enable_irq io s) = proc s"
  by (simp_all add: keyboard_disable_irq_def keyboard_enable_irq_def)

text \<open>The loop looks at the console: it returns, or sleeps until the next interrupts.\<close>

lemma get_line_from_returns:
  assumes "keyboard_contract io view press" "pics_ready (view (dev s))" "\<not> waiting (con s, kbd s)"
  shows "\<exists>s'. get_line_from io press bs s = Some (if line_completed (con s) then 0 else 1, bs, s') \<and>
    (con s', kbd s') = (con s, kbd s) \<and> proc s' = proc s \<and> pics_ready (view (dev s')) \<and>
    (line_completed (con s) \<longrightarrow> line_masked (view (dev s')) 1)"
proof -
  let ?d = "keyboard_disable_irq io s"
  have vd: "view (dev ?d) = mask_line 1 True (view (dev s))" by (rule irq_view [OF assms(1,2)])
  then have rd: "pics_ready (view (dev ?d))" using assms(2) by simp
  moreover have "line_masked (view (dev ?d)) 1" unfolding vd by (simp add: line_masked_def mask_line_def bit_simps)
  moreover have "pics_ready (view (dev (keyboard_enable_irq io ?d)))" using irq_view(1) [OF assms(1) rd] rd by simp
  ultimately show ?thesis using assms(3)
    by (intro exI [of _ "if line_completed (con s) then ?d else keyboard_enable_irq io ?d"])
      (auto simp: get_line_from.simps [of io press bs s] Let_def irq_masks_rest)
qed

lemma get_line_from_sleeps:
  assumes "keyboard_contract io view press" "eflags_get_intr_flag (eflags (proc s))" "pics_ready (view (dev s))" "waiting (con s, kbd s)"
  shows "\<exists>s'. get_line_from io press (b # bs) s = get_line_from io press bs s' \<and>
    (con s', kbd s') = fold key_event b (con s, kbd s) \<and> proc s' = proc s \<and> pics_ready (view (dev s'))"
proof -
  let ?e = "keyboard_enable_irq io (keyboard_disable_irq io s)"
  have "pics_ready (view (dev (keyboard_disable_irq io s)))" using irq_view(2) [OF assms(1,3)] assms(3) by simp
  then have "pics_ready (view (dev ?e))" using irq_view(1) [OF assms(1)] by simp
  with take_irqs_event [OF assms(1), where codes = b and s = ?e] assms(2,4) show ?thesis
    by (intro exI [of _ "take_irqs io press b ?e"])
      (simp add: get_line_from.simps [of io press "b # bs" s] Let_def irq_masks_rest)
qed

lemma get_line_from_ends:
  assumes "keyboard_contract io view press" "eflags_get_intr_flag (eflags (proc s))" "pics_ready (view (dev s))"
    and "\<forall>p. strict_prefix p (concat bs) \<longrightarrow> waiting (fold key_event p (con s, kbd s))"
    and "fold key_event (concat bs) (con s, kbd s) = (c, k)" "\<not> waiting (c, k)"
  shows "\<exists>bs' s'. get_line_from io press bs s = Some (if line_completed c then 0 else 1, bs', s') \<and> concat bs' = [] \<and>
    (con s', kbd s') = (c, k) \<and> proc s' = proc s \<and> pics_ready (view (dev s')) \<and>
    (line_completed c \<longrightarrow> line_masked (view (dev s')) 1)"
  using assms(2-5)
proof (induction bs arbitrary: s)
  case Nil
  then show ?case using get_line_from_returns [OF assms(1) Nil.prems(2), of "[]"] assms(6) by fastforce
next
  case (Cons b bs)
  show ?case
  proof (cases "concat (b # bs) = []")
    case True
    then have "(con s, kbd s) = (c, k)" using Cons.prems(4) by (simp only: fold_simps id_apply)
    then show ?thesis using get_line_from_returns [OF assms(1) Cons.prems(2), of "b # bs"] assms(6) True by fastforce
  next
    case False
    then have "strict_prefix [] (concat (b # bs))" by (simp add: strict_prefix_def)
    then have "waiting (con s, kbd s)" using Cons.prems(3) by force
    from get_line_from_sleeps [OF assms(1) Cons.prems(1,2) this, of b bs] obtain s1 where
      s1: "get_line_from io press (b # bs) s = get_line_from io press bs s1"
        "(con s1, kbd s1) = fold key_event b (con s, kbd s)" "proc s1 = proc s" "pics_ready (view (dev s1))" by blast
    have "\<forall>p. strict_prefix p (concat bs) \<longrightarrow> waiting (fold key_event p (con s1, kbd s1))"
    proof (intro allI impI)
      fix p assume "strict_prefix p (concat bs)"
      then have "strict_prefix (b @ p) (concat (b # bs))" by (auto simp: strict_prefix_def)
      then have "waiting (fold key_event (b @ p) (con s, kbd s))" using Cons.prems(3) by blast
      then show "waiting (fold key_event p (con s1, kbd s1))" by (simp add: s1(2))
    qed
    from Cons.IH [OF _ s1(4) this] Cons.prems(1,4) s1(2,3) show ?thesis unfolding s1(1) by simp
  qed
qed

section \<open>Typing\<close>

definition idle_keys :: keyboard where
  "idle_keys = \<lparr>kb_shift = False, kb_rshift = False, kb_lshift = False, kb_ctrl = False\<rparr>"

definition shifted_keys :: keyboard where
  "shifted_keys = \<lparr>kb_shift = True, kb_rshift = False, kb_lshift = True, kb_ctrl = False\<rparr>"

definition character_keys :: "nat list" where
  "character_keys = filter (\<lambda>k. k \<notin> {0x1d, 0x2a, 0x36}) [0..<128]"

text \<open>The scan codes of a character: make and break of its key, inside make and break of shift.\<close>

definition keystrokes :: "char \<Rightarrow> u8 list" where
  "keystrokes c =
     (case find (\<lambda>k. map_key (of_nat k) idle_keys = c) character_keys of
        Some k \<Rightarrow> [of_nat k, of_nat (k + 128)]
      | None \<Rightarrow>
          (case find (\<lambda>k. map_key (of_nat k) shifted_keys = c) character_keys of
             Some k \<Rightarrow> [LSHIFT, of_nat k, of_nat (k + 128), LSHIFT + 128]
           | None \<Rightarrow> []))"

definition typable :: "char \<Rightarrow> bool" where
  "typable c \<longleftrightarrow> c \<noteq> NUL \<and> keystrokes c \<noteq> []"

lemma key_code_bits:
  assumes "k < 128"
  shows "\<not> bit (of_nat k :: u8) 7" "take_bit 7 (of_nat k :: u8) = of_nat k"
    "bit (of_nat (k + 128) :: u8) 7" "take_bit 7 (of_nat (k + 128) :: u8) = of_nat k"
proof -
  have t: "take_bit 7 (of_nat n :: u8) = of_nat (n mod 128)" for n
    by (simp add: take_bit_eq_mod of_nat_mod unat_mod word_unat_eq_iff unsigned_of_nat take_bit_eq_mod mod_mod_cancel)
  have b: "bit (of_nat n :: u8) 7 \<longleftrightarrow> odd (n div 128)" for n
    unfolding bit_of_nat_iff by (simp add: bit_iff_odd)
  show "\<not> bit (of_nat k :: u8) 7" "take_bit 7 (of_nat k :: u8) = of_nat k"
    "bit (of_nat (k + 128) :: u8) 7" "take_bit 7 (of_nat (k + 128) :: u8) = of_nat k"
    unfolding t b using assms div_add_self2 [of 128 k] by simp_all
qed

lemma character_key:
  assumes "k \<in> set character_keys"
  shows "k < 128" "of_nat k \<notin> {LCTRL, LSHIFT, RSHIFT}"
proof -
  show k: "k < 128" using assms by (simp add: character_keys_def)
  have "unat (of_nat k :: u8) = k" using k by (simp add: unsigned_of_nat take_bit_nat_eq_self)
  moreover have "unat LCTRL = 0x1d" "unat LSHIFT = 0x2a" "unat RSHIFT = 0x36"
    by (simp_all add: LCTRL_def LSHIFT_def RSHIFT_def)
  ultimately show "of_nat k \<notin> {LCTRL, LSHIFT, RSHIFT}"
    using assms by (auto simp: character_keys_def)
qed

lemma press_key:
  assumes "k \<in> set character_keys" "ks \<in> {idle_keys, shifted_keys}" "map_key (of_nat k) ks \<noteq> NUL"
  shows "key_event (of_nat k) (c, ks) = (console_put_ibuf (map_key (of_nat k) ks) c, ks)"
    and "key_event (of_nat (k + 128)) (c, ks) = (c, ks)"
  using assms(2,3) character_key [OF assms(1)] key_code_bits [OF character_key(1) [OF assms(1)]]
  by (auto simp: key_event_def Let_def idle_keys_def shifted_keys_def)

lemma press_shift:
  "key_event LSHIFT (c, idle_keys) = (c, shifted_keys)" "key_event (LSHIFT + 128) (c, shifted_keys) = (c, idle_keys)"
proof -
  have l: "of_nat 42 = LSHIFT" "of_nat (42 + 128) = LSHIFT + 128" by (simp_all add: LSHIFT_def)
  have "\<not> bit LSHIFT 7" "take_bit 7 LSHIFT = LSHIFT" "bit (LSHIFT + 128) 7" "take_bit 7 (LSHIFT + 128) = LSHIFT"
    using key_code_bits [of 42] unfolding l by simp_all
  then show "key_event LSHIFT (c, idle_keys) = (c, shifted_keys)" "key_event (LSHIFT + 128) (c, shifted_keys) = (c, idle_keys)"
    using modifiers_differ by (simp_all add: key_event_def Let_def idle_keys_def shifted_keys_def)
qed

text \<open>While the codes of a character arrive the console is the old one or the new one.\<close>

lemma type_char:
  assumes "typable ch"
  shows "fold key_event (keystrokes ch) (c, idle_keys) = (console_put_ibuf ch c, idle_keys)"
    and "prefix p (keystrokes ch) \<Longrightarrow> fst (fold key_event p (c, idle_keys)) \<in> {c, console_put_ibuf ch c}"
proof -
  have "fold key_event (keystrokes ch) (c, idle_keys) = (console_put_ibuf ch c, idle_keys)
    \<and> (\<forall>p. prefix p (keystrokes ch) \<longrightarrow> fst (fold key_event p (c, idle_keys)) \<in> {c, console_put_ibuf ch c})"
  proof (cases "find (\<lambda>k. map_key (of_nat k) idle_keys = ch) character_keys")
    case (Some k)
    then have k: "k \<in> set character_keys" "map_key (of_nat k) idle_keys = ch" by (auto simp: find_Some_iff)
    then show ?thesis using assms press_key [OF k(1), of idle_keys]
      by (auto simp: keystrokes_def Some typable_def prefix_Cons)
  next
    case None
    then obtain k where s: "find (\<lambda>k. map_key (of_nat k) shifted_keys = ch) character_keys = Some k"
      using assms by (auto simp: typable_def keystrokes_def split: option.splits)
    then have k: "k \<in> set character_keys" "map_key (of_nat k) shifted_keys = ch" by (auto simp: find_Some_iff)
    then show ?thesis using assms press_key [OF k(1), of shifted_keys] press_shift
      by (auto simp: keystrokes_def None s typable_def prefix_Cons)
  qed
  then show "fold key_event (keystrokes ch) (c, idle_keys) = (console_put_ibuf ch c, idle_keys)"
    "prefix p (keystrokes ch) \<Longrightarrow> fst (fold key_event p (c, idle_keys)) \<in> {c, console_put_ibuf ch c}" by auto
qed

lemma type_text:
  "list_all typable cs \<Longrightarrow>
   fold key_event (concat (map keystrokes cs)) (c, idle_keys) = (fold console_put_ibuf cs c, idle_keys)"
  by (induction cs arbitrary: c) (simp_all add: type_char)

lemma type_text_prefix:
  assumes "list_all typable cs" "prefix p (concat (map keystrokes cs))"
  shows "\<exists>t. prefix t cs \<and> fst (fold key_event p (c, idle_keys)) = fold console_put_ibuf t c"
  using assms
proof (induction cs arbitrary: c p)
  case (Cons ch cs)
  consider (in_char) "prefix p (keystrokes ch)"
    | (later) q where "p = keystrokes ch @ q" "prefix q (concat (map keystrokes cs))"
    using Cons.prems(2) by (auto simp: prefix_append)
  then show ?case
  proof cases
    case in_char
    then have "fst (fold key_event p (c, idle_keys)) \<in> {c, console_put_ibuf ch c}"
      using Cons.prems(1) type_char(2) by simp
    moreover have "prefix [] (ch # cs)" "prefix [ch] (ch # cs)" by simp_all
    ultimately show ?thesis by (metis fold_simps insert_iff singletonD)
  next
    case later
    then obtain t where "prefix t cs"
      "fst (fold key_event q (console_put_ibuf ch c, idle_keys)) = fold console_put_ibuf t (console_put_ibuf ch c)"
      using Cons.IH Cons.prems(1) by force
    then show ?thesis using later(1) Cons.prems(1) type_char(1) [of ch c]
      by (intro exI [of _ "ch # t"]) simp
  qed
qed simp

section \<open>A typed line\<close>

lemma cleared_putc: "c \<noteq> ch_del \<Longrightarrow> cleared (snd (console_putc c b s)) = cleared s"
proof -
  assume c: "c \<noteq> ch_del"
  have u: "cleared (line_feed s) = cleared s" "cleared (curs_forward s) = cleared s"
    "cleared (curs_backward s) = cleared s" "cleared (putc_attr ch a s) = cleared s"
    "cleared (draw_cursor s) = cleared s" for s ch a
    by (simp_all add: line_feed_def curs_forward_def curs_backward_def putc_attr_def draw_cursor_def Let_def)
  have t: "cleared (console_tab s) = cleared s" for s by (simp add: console_tab_def TAB_WIDTH_def eval_nat_numeral u)
  have d: "cleared (snd (del_ibuf s)) = cleared s" for s by (simp add: del_ibuf_def Let_def u)
  have k: "cleared (console_kill s) = cleared s" for s
  proof (induction s rule: console_kill.induct)
    case (1 s)
    show ?case
    proof (cases "fst (del_ibuf s) = 0")
      case True
      have "console_kill s = console_kill (snd (del_ibuf s))"
        by (subst console_kill.simps) (simp only: Let_def case_prod_beta True if_True refl)
      with 1 [OF refl prod.collapse True] d show ?thesis by simp
    next
      case False
      have "console_kill s = snd (del_ibuf s)"
        by (subst console_kill.simps) (simp only: Let_def case_prod_beta False if_False)
      with d show ?thesis by simp
    qed
  qed
  show ?thesis using c by (simp add: console_putc_def u t d k)
qed

lemma cleared_draw: "cleared (draw_cursor s) = cleared s"
  by (simp add: draw_cursor_def Let_def)

lemma cleared_put_ibuf: "c \<noteq> ch_del \<Longrightarrow> cleared (console_put_ibuf c s) = cleared s"
  by (simp add: console_put_ibuf_def case_prod_beta Let_def cleared_putc cleared_draw)

lemma cleared_puts_from:
  "c_string buf cs \<Longrightarrow> ch_del \<notin> set cs \<Longrightarrow> puts_from buf i s = Some (n, s') \<Longrightarrow> cleared s' = cleared s"
proof (induction cs arbitrary: buf i s)
  case Nil
  then show ?case by (auto simp: c_string_def)
next
  case (Cons c cs)
  then obtain rest where buf: "buf = c # rest" "c_string rest cs" "c \<noteq> NUL" by (auto simp: c_string_def)
  then show ?case using Cons.IH [OF buf(2)] Cons.prems cleared_putc [of c]
    by (auto simp: case_prod_beta Let_def split: if_splits)
qed

lemma cleared_puts:
  "c_string buf cs \<Longrightarrow> ch_del \<notin> set cs \<Longrightarrow> console_puts (Some buf) s = Some (n, s') \<Longrightarrow> cleared s' = cleared s"
  by (auto simp: console_puts_def cleared_draw dest!: cleared_puts_from split: option.splits)

lemma fold_put_ibuf_cleared: "ch_del \<notin> set cs \<Longrightarrow> cleared (fold console_put_ibuf cs s) = cleared s"
proof (induction cs arbitrary: s)
  case (Cons c cs)
  then have "c \<noteq> ch_del" "ch_del \<notin> set cs" by auto
  then show ?case
    using Cons.IH [of "console_put_ibuf c s"] cleared_put_ibuf [of c s] by simp
qed simp

lemma fold_put_ibuf_waits:
  assumes "ibuf_ok s" "ch_lf \<notin> set cs" "ch_del \<notin> set cs" "\<not> line_completed s" "\<not> cleared s"
  shows "\<not> line_completed (fold console_put_ibuf cs s)" "\<not> cleared (fold console_put_ibuf cs s)"
proof -
  have "snd (fold edit cs e) = snd e" for e
    using assms(2) by (induction cs arbitrary: e) (auto simp: edit_def case_prod_beta)
  moreover have "line_completed (fold console_put_ibuf cs s) = snd (fold edit cs (line_of s))"
    using fold_put_ibuf_edits [OF assms(1), of cs] by (simp add: line_of_def prod_eq_iff)
  ultimately show "\<not> line_completed (fold console_put_ibuf cs s)" using assms(4) by (simp add: line_of_def)
  show "\<not> cleared (fold console_put_ibuf cs s)"
    using assms(5) fold_put_ibuf_cleared [OF assms(3)] by simp
qed

text \<open>
  The cursor stands at least as many cells behind the start of the screen as the line has characters, so a
  backspace never takes it off the screen.
\<close>

definition roomy :: "console \<Rightarrow> bool" where
  "roomy s \<longleftrightarrow> on_screen s \<and> widx s \<le> IBUF_SIZE \<and> widx s \<le> snd (terminal_of s)"

lemma putc_position:
  assumes "on_screen s"
  shows "on_screen (putc_attr c a s)" "snd (terminal_of (putc_attr c a s)) =
    (if snd (terminal_of s) = SCREEN - 1 then SCREEN - 80 else snd (terminal_of s) + 1)"
  using putc_attr_terminal [OF assms, where a = a and c = c] xy_cell(2) [OF assms]
  by (auto simp: displays_def term_put_def term_settle_def SCREEN_def case_prod_beta)

lemma draw_position: "on_screen (draw_cursor s) = on_screen s" "snd (terminal_of (draw_cursor s)) = snd (terminal_of s)"
  by (simp_all add: draw_cursor_def on_screen_def terminal_of_def)

lemma backward_position:
  assumes "on_screen s" "0 < snd (terminal_of s)"
  shows "on_screen (curs_backward s)" "snd (terminal_of (curs_backward s)) = snd (terminal_of s) - 1"
proof -
  have b: "unat (curs_x s) < 80" "unat (curs_y s) < 25" "0 < 80 * unat (curs_y s) + unat (curs_x s)"
    using assms by (simp_all add: on_screen_def vga_consts terminal_of_def)
  have "unat (curs_x (curs_backward s)) < 80 \<and> unat (curs_y (curs_backward s)) < 25 \<and>
    80 * unat (curs_y (curs_backward s)) + unat (curs_x (curs_backward s)) = 80 * unat (curs_y s) + unat (curs_x s) - 1"
  proof (cases "curs_x s = 0")
    case True
    then have "curs_y s \<noteq> 0" using b(3) by auto
    then have "unat (curs_y s - 1) = unat (curs_y s) - 1" "0 < unat (curs_y s)" by (simp_all add: unat_minus_one unat_gt_0)
    moreover from this(2) obtain k where "unat (curs_y s) = Suc k" by (auto simp: gr0_conv_Suc)
    ultimately show ?thesis using b(2) True by (simp add: curs_backward_def VGA_NUM_COLS_def)
  next
    case False
    then have "unat (curs_x s - 1) = unat (curs_x s) - 1" "0 < unat (curs_x s)" by (simp_all add: unat_minus_one unat_gt_0)
    then show ?thesis using b(1,2) False by (simp add: curs_backward_def)
  qed
  then show "on_screen (curs_backward s)" "snd (terminal_of (curs_backward s)) = snd (terminal_of s) - 1"
    by (simp_all add: on_screen_def vga_consts terminal_of_def)
qed

lemma del_ibuf_roomy:
  assumes "roomy s"
  shows "roomy (snd (del_ibuf s))"
proof (cases "line_completed s \<or> widx s = 0")
  case True
  then show ?thesis using assms by (auto simp: del_ibuf_def ibuf_is_empty_def)
next
  case False
  let ?s = "s\<lparr>widx := widx s - 1\<rparr>"
  have p: "on_screen ?s" "0 < snd (terminal_of ?s)" "snd (terminal_of ?s) = snd (terminal_of s)"
    using assms False by (auto simp: roomy_def on_screen_def terminal_of_def)
  note b = backward_position [OF p(1,2)]
  let ?t = "putc_attr (CHR '' '') (con_attr (curs_backward ?s)) (curs_backward ?s)"
  have "snd (terminal_of s) < SCREEN" using assms xy_cell(2) by (simp add: roomy_def)
  then have t: "on_screen ?t" "snd (terminal_of ?t) = snd (terminal_of s)"
    using putc_position [OF b(1), of "CHR '' ''"] b(2) p(2,3) by auto
  then have q: "on_screen (curs_backward ?t)" "snd (terminal_of (curs_backward ?t)) = snd (terminal_of s) - 1"
    using backward_position [OF t(1)] p(2,3) by auto
  have e: "snd (del_ibuf s) = draw_cursor (curs_backward ?t)" using False by (simp add: del_ibuf_def ibuf_is_empty_def Let_def)
  moreover have "widx (draw_cursor (curs_backward ?t)) = widx s - 1" by simp
  then show ?thesis using assms q unfolding e roomy_def draw_position by auto
qed

lemma console_kill_roomy: "roomy s \<Longrightarrow> roomy (console_kill s)"
proof (induction s rule: console_kill.induct)
  case (1 s)
  have d: "roomy (snd (del_ibuf s))" by (rule del_ibuf_roomy [OF 1(2)])
  have "console_kill s = (if fst (del_ibuf s) = 0 then console_kill (snd (del_ibuf s)) else snd (del_ibuf s))"
    by (subst console_kill.simps) (simp only: Let_def case_prod_beta)
  with d 1(1) [OF refl prod.collapse _ d] show ?case by (simp split: if_splits)
qed

lemma feed_position:
  assumes "on_screen s"
  shows "on_screen (line_feed s)" "SCREEN - 80 \<le> snd (terminal_of (line_feed s)) \<or> snd (terminal_of s) < snd (terminal_of (line_feed s))"
  using newline_terminal [OF assms] xy_cell(2) [OF assms]
  by (auto simp: displays_def term_newline_def term_settle_def SCREEN_def case_prod_beta split: if_splits)

lemma tab_position:
  assumes "on_screen s" "p \<le> snd (terminal_of s)" "p \<le> SCREEN - 80"
  shows "on_screen (console_tab s) \<and> p \<le> snd (terminal_of (console_tab s))"
proof -
  have "on_screen (((\<lambda>s. putc_attr (CHR '' '') (con_attr s) s) ^^ n) s) \<and>
    p \<le> snd (terminal_of (((\<lambda>s. putc_attr (CHR '' '') (con_attr s) s) ^^ n) s))" for n
    by (induction n) (use assms putc_position in \<open>auto split: if_splits\<close>)
  then show ?thesis by (simp add: console_tab_def)
qed

lemma put_ibuf_roomy:
  assumes "roomy s" "c \<noteq> ch_del"
  shows "roomy (console_put_ibuf c s)"
proof -
  have on: "on_screen s" "widx s \<le> 128" "widx s \<le> snd (terminal_of s)" using assms(1) by (simp_all add: roomy_def IBUF_SIZE_def)
  consider "c = ch_lf" | "c = ch_cr" | "c = ch_bs" | "c = ch_tab" | "c \<notin> {ch_lf, ch_cr, ch_bs, ch_tab}" by blast
  then show ?thesis
  proof cases
    case 1
    have "line_feed (s\<lparr>line_completed := True\<rparr>) = (line_feed s)\<lparr>line_completed := True\<rparr>"
      by (simp add: line_feed_def Let_def)
    moreover have "on_screen (u\<lparr>line_completed := True\<rparr>) = on_screen u" "terminal_of (u\<lparr>line_completed := True\<rparr>) = terminal_of u" for u
      by (simp_all add: on_screen_def terminal_of_def fun_eq_iff)
    ultimately show ?thesis using 1 on feed_position [OF on(1)]
      by (auto simp: console_put_ibuf_def console_putc_def roomy_def IBUF_SIZE_def SCREEN_def)
  next
    case 2
    then show ?thesis using console_kill_roomy [OF assms(1)] by (simp add: console_put_ibuf_def console_putc_def ch_defs)
  next
    case 3
    then show ?thesis using del_ibuf_roomy [OF assms(1)] by (simp add: console_put_ibuf_def console_putc_def ch_defs)
  next
    case 4
    then show ?thesis using tab_position [OF on(1,3)] on(2)
      by (simp add: console_put_ibuf_def console_putc_def ch_defs roomy_def IBUF_SIZE_def SCREEN_def)
  next
    case 5
    have p: "on_screen (putc_attr c a s)" "widx s < 128 \<Longrightarrow> Suc (widx s) \<le> snd (terminal_of (putc_attr c a s))" for a
      using putc_position [OF on(1), of c a] on by (auto simp: SCREEN_def)
    let ?u = "\<lambda>u. draw_cursor (u\<lparr>ibuf := (ibuf u)[widx u := c], widx := widx u + 1\<rparr>)"
    have u: "on_screen (?u v) = on_screen v" "snd (terminal_of (?u v)) = snd (terminal_of v)" "widx (?u v) = widx v + 1" for v
      by (simp_all add: draw_position) (simp_all add: on_screen_def terminal_of_def)
    show ?thesis
    proof (cases "widx s = 128")
      case True
      then have "console_put_ibuf c s = s"
        using 5 assms(2) by (simp add: console_put_ibuf_def console_putc_def ibuf_is_full_def IBUF_SIZE_def)
      then show ?thesis using assms(1) by simp
    next
      case False
      then have e: "console_put_ibuf c s = ?u (putc_attr c (con_attr s) s)"
        using 5 assms(2) by (simp add: console_put_ibuf_def console_putc_def ibuf_is_full_def IBUF_SIZE_def)
      show ?thesis unfolding roomy_def e u using p on(2) False by (simp add: IBUF_SIZE_def)
    qed
  qed
qed

lemma fold_put_ibuf_roomy: "roomy s \<Longrightarrow> ch_del \<notin> set cs \<Longrightarrow> roomy (fold console_put_ibuf cs s)"
  by (induction cs arbitrary: s) (auto simp: put_ibuf_roomy)

lemma map_key_not_del: "kb_ctrl k = False \<Longrightarrow> map_key sc k \<noteq> ch_del"
  by (auto simp: map_key_def Let_def ch_defs)

lemma typable_not_del: "typable c \<Longrightarrow> c \<noteq> ch_del"
  using map_key_not_del [of idle_keys] map_key_not_del [of shifted_keys]
  by (auto simp: typable_def keystrokes_def find_Some_iff idle_keys_def shifted_keys_def split: option.splits)

text \<open>The make code of the enter key.\<close>

definition ENTER :: u8 where "ENTER = 0x1c"

lemma press_enter: "key_event ENTER (c, idle_keys) = (console_put_ibuf ch_lf c, idle_keys)"
proof -
  have k: "(28 :: nat) \<in> set character_keys" by (simp add: character_keys_def)
  have m: "map_key (of_nat 28) idle_keys = ch_lf"
    by (simp add: map_key_def keymap_def idle_keys_def ch_defs)
  show ?thesis using press_key(1) [OF k, of idle_keys c] m by (simp add: ENTER_def ch_defs)
qed

lemma typed_line:
  assumes "list_all typable cs" "ch_lf \<notin> set cs" "ibuf_ok s" "\<not> line_completed s" "\<not> cleared s"
  defines "codes \<equiv> concat (map keystrokes cs) @ [ENTER]"
  shows "\<forall>p. strict_prefix p codes \<longrightarrow> waiting (fold key_event p (s, idle_keys))"
    and "fold key_event codes (s, idle_keys) = (fold console_put_ibuf (cs @ [ch_lf]) s, idle_keys)"
proof -
  show "fold key_event codes (s, idle_keys) = (fold console_put_ibuf (cs @ [ch_lf]) s, idle_keys)"
    by (simp add: codes_def type_text [OF assms(1)] press_enter)
  show "\<forall>p. strict_prefix p codes \<longrightarrow> waiting (fold key_event p (s, idle_keys))"
  proof (intro allI impI)
    fix p assume "strict_prefix p codes"
    then have "prefix p (concat (map keystrokes cs))" by (auto simp: codes_def strict_prefix_def)
    from type_text_prefix [OF assms(1) this, of s]
    obtain t where t: "prefix t cs" "fst (fold key_event p (s, idle_keys)) = fold console_put_ibuf t s" by blast
    have "ch_lf \<notin> set t" "ch_del \<notin> set t"
      using set_mono_prefix [OF t(1)] assms(1,2) typable_not_del by (auto simp: list_all_iff)
    from fold_put_ibuf_waits [OF assms(3) this assms(4,5)] show "waiting (fold key_event p (s, idle_keys))"
      by (simp add: t(2))
  qed
qed

text \<open>A completed line is copied to the caller.\<close>

lemma console_get_line_done:
  assumes "get_line_from io press bs (if cleared (con s) then s\<lparr>con := (display_ibuf (con s))\<lparr>cleared := False\<rparr>\<rparr> else s) = Some (0, bs', s')"
    and "line_of (con s') = (l, True)" "ibuf_ok (con s')" "buf_len \<le> length buf"
  shows "console_get_line io press bs buf buf_len s = Some (0, take buf_len l @ drop (min buf_len (length l)) buf,
    min buf_len (length l), bs', s'\<lparr>con := reset_ibuf (con s')\<rparr>)"
proof -
  have l: "take (widx (con s')) (ibuf (con s')) = l" "widx (con s') \<le> length (ibuf (con s'))"
    using assms(2,3) by (simp_all add: line_of_def ibuf_ok_def)
  then have len: "widx (con s') = length l" by (metis length_take min.absorb2)
  have "take (min buf_len (length l)) (ibuf (con s')) = take buf_len l"
    unfolding l(1) [symmetric] by (simp add: l(2) min_def)
  then have "memcpy buf (ibuf (con s')) (min buf_len (length l)) = Some (take buf_len l @ drop (min buf_len (length l)) buf)"
    using memcpy_loop_eq [of 0 "min buf_len (length l)" "ibuf (con s')" buf] assms(4) l(2) len
    by (simp add: memcpy_def)
  moreover have n: "(if buf_len < widx (con s') then buf_len else widx (con s')) = min buf_len (length l)" using len by simp
  ultimately show ?thesis by (simp only: console_get_line_def Let_def assms(1) option.case prod.case n) simp
qed

lemma get_typed_line:
  assumes "keyboard_contract io view press" "pics_ready (view (dev s))"
    and "eflags_get_intr_flag (eflags (proc s))" "kbd s = idle_keys"
    and "ibuf_ok (con s)" "widx (con s) = 0" "\<not> line_completed (con s)" "\<not> cleared (con s)"
    and "list_all typable cs" "ch_lf \<notin> set cs"
    and "concat bs = concat (map keystrokes cs) @ [ENTER]" "buf_len \<le> length buf"
  shows "\<exists>bs' s'. console_get_line io press bs buf buf_len s
      = Some (0, take buf_len (fst (fold edit cs ([], False)))
                 @ drop (min buf_len (length (fst (fold edit cs ([], False))))) buf,
              min buf_len (length (fst (fold edit cs ([], False)))), bs', s')
    \<and> concat bs' = [] \<and> line_of (con s') = ([], False) \<and> kbd s' = idle_keys \<and> proc s' = proc s
    \<and> line_masked (view (dev s')) 1 \<and> pics_ready (view (dev s'))
    \<and> con s' = reset_ibuf (fold console_put_ibuf (cs @ [ch_lf]) (con s))"
proof -
  define c where "c = fold console_put_ibuf (cs @ [ch_lf]) (con s)"
  let ?l = "fst (fold edit cs ([], False))"
  note line = typed_line [OF assms(9,10,5,7,8), folded assms(11) c_def]
  have ed: "line_of c = (?l, True)" "ibuf_ok c"
    using fold_put_ibuf_edits [OF assms(5), of "cs @ [ch_lf]", folded c_def] assms(6,7)
    by (simp_all add: line_of_def edit_def case_prod_beta)
  obtain bs' s' where g: "get_line_from io press bs s = Some (0, bs', s')" "concat bs' = []" "con s' = c"
    "kbd s' = idle_keys" "proc s' = proc s" "line_masked (view (dev s')) 1" "pics_ready (view (dev s'))"
    using get_line_from_ends [OF assms(1,3,2), of bs c idle_keys] line ed(1) unfolding assms(4) by (auto simp: line_of_def)
  have "get_line_from io press bs (if cleared (con s) then s\<lparr>con := (display_ibuf (con s))\<lparr>cleared := False\<rparr>\<rparr> else s) = Some (0, bs', s')"
    using g(1) assms(8) by simp
  from console_get_line_done [OF this _ _ assms(12), of ?l] ed g show ?thesis
    by (intro exI [of _ bs'] exI [of _ "s'\<lparr>con := reset_ibuf c\<rparr>"]) (simp add: reset_ibuf_def line_of_def c_def)
qed

section \<open>Properties\<close>

text \<open>C19. Typing a line. Interrupts are enabled, no key is held, and no line is in the making. If the key
  presses and releases of the characters \<open>cs\<close>, and then of enter, arrive in any portions while the main
  program sleeps in \<open>console_get_line\<close>, the call returns 0 with the line that the line editor makes of
  the characters, cut to the size of the caller's buffer, whose remaining bytes keep their values. The
  line buffer is empty again and the keyboard interrupt is masked.\<close>

theorem console_get_line_returns_typed_line:
  assumes "keyboard_contract io view press" "pics_ready (view (dev s))"
    and "eflags_get_intr_flag (eflags (proc s))" "kbd s = idle_keys"
    and "ibuf_ok (con s)" "widx (con s) = 0" "\<not> line_completed (con s)" "\<not> cleared (con s)"
    and "list_all typable cs" "ch_lf \<notin> set cs"
    and "concat bs = concat (map keystrokes cs) @ [ENTER]" "buf_len \<le> length buf"
  shows "\<exists>bs' s'. console_get_line io press bs buf buf_len s
      = Some (0, take buf_len (fst (fold edit cs ([], False)))
                 @ drop (min buf_len (length (fst (fold edit cs ([], False))))) buf,
              min buf_len (length (fst (fold edit cs ([], False)))), bs', s')
    \<and> concat bs' = [] \<and> line_of (con s') = ([], False) \<and> kbd s' = idle_keys \<and> proc s' = proc s
    \<and> line_masked (view (dev s')) 1"
  using get_typed_line [OF assms] by blast

text \<open>A machine with the model controllers and a keyboard buffer.\<close>

definition model_pc :: "(pics \<times> u8) ports" where
  "model_pc = \<lparr>inb = (\<lambda>p d. if p = 0x60 then (snd d, d) else (fst (inb model_pics p (fst d)), d)),
     inw = (\<lambda>p d. (0xffff, d)),
     outb = (\<lambda>p v d. (outb model_pics p v (fst d), snd d))\<rparr>"

definition model_press :: "u8 \<Rightarrow> pics \<times> u8 \<Rightarrow> pics \<times> u8" where
  "model_press c d = ((fst d)\<lparr>master := (master (fst d))\<lparr>in_service := set_bit 1 (in_service (master (fst d)))\<rparr>\<rparr>, c)"

lemma model_pc_contract: "keyboard_contract model_pc fst model_press"
  by (simp add: keyboard_contract_def pic_contract_def model_pc_def model_press_def model_pics_def)

definition quiet_machine :: "(pics \<times> u8) machine" where
  "quiet_machine = \<lparr>con = blank_console, kbd = idle_keys, proc = reset_cpu,
     dev = (\<lparr>master = bios_chip, slave = bios_chip\<rparr>, 0)\<rparr>"

lemma map_key_idle:
  "map_key 0x26 idle_keys = CHR ''l''" "map_key 0x1f idle_keys = CHR ''s''" "map_key 0x0e idle_keys = ch_bs"
  by (simp_all add: map_key_def keymap_def idle_keys_def ch_defs)

text \<open>The keys l, x, backspace and s, with enter, in two portions and one interrupt of another device.\<close>

theorem console_get_line_returns_typed_line_witness:
  "\<exists>bs' s'. console_get_line model_pc model_press
      [concat (map keystrokes ''lx''), [], concat (map keystrokes [ch_bs, CHR ''s'']) @ [ENTER]]
      (replicate 8 NUL) 7 quiet_machine = Some (0, ''ls'' @ replicate 6 NUL, 2, bs', s')"
proof -
  have key: "keystrokes c \<noteq> []" if "k \<in> set character_keys" "map_key (of_nat k) idle_keys = c" for c k
    using that by (auto simp: keystrokes_def find_None_iff split: option.splits)
  have "keystrokes c \<noteq> []" if "c \<in> {CHR ''l'', CHR ''x'', CHR ''s'', ch_bs}" for c
    using that key [of 38 c] key [of 45 c] key [of 31 c] key [of 14 c]
    by (auto simp: character_keys_def map_key_def keymap_def idle_keys_def ch_defs)
  then have "list_all typable [CHR ''l'', CHR ''x'', ch_bs, CHR ''s'']" "ch_lf \<notin> set [CHR ''l'', CHR ''x'', ch_bs, CHR ''s'']"
    by (simp_all add: typable_def ch_defs)
  moreover have "pics_ready (fst (dev quiet_machine))" "eflags_get_intr_flag (eflags (proc quiet_machine))"
    "kbd quiet_machine = idle_keys" "ibuf_ok (con quiet_machine)" "widx (con quiet_machine) = 0"
    "\<not> line_completed (con quiet_machine)" "\<not> cleared (con quiet_machine)"
    by (simp_all add: quiet_machine_def pics_ready_def bios_chip_def reset_cpu_def eflags_get_intr_flag_def
        EFLAGS_IF_def blank_console_def ibuf_ok_def)
  moreover have "concat [concat (map keystrokes ''lx''), [], concat (map keystrokes [ch_bs, CHR ''s'']) @ [ENTER]]
    = concat (map keystrokes [CHR ''l'', CHR ''x'', ch_bs, CHR ''s'']) @ [ENTER]" by simp
  moreover have "fst (fold edit [CHR ''l'', CHR ''x'', ch_bs, CHR ''s''] ([], False)) = ''ls''"
    by (simp add: edit_def ch_defs IBUF_SIZE_def)
  moreover have "(7 :: nat) \<le> length (replicate 8 NUL)" by simp
  ultimately show ?thesis
    using console_get_line_returns_typed_line [OF model_pc_contract, of quiet_machine
        "[CHR ''l'', CHR ''x'', ch_bs, CHR ''s'']"
        "[concat (map keystrokes ''lx''), [], concat (map keystrokes [ch_bs, CHR ''s'']) @ [ENTER]]" 7 "replicate 8 NUL"]
    by (simp add: eval_nat_numeral) blast
qed

text \<open>Sleeping with interrupts disabled. When the interrupt flag is clear and no line is complete, the call
  never returns, whatever keys are pressed: the processor halts without anything that could wake it.\<close>

theorem console_get_line_sleeps_for_ever:
  assumes "\<not> eflags_get_intr_flag (eflags (proc s))" "\<not> line_completed (con s)" "\<not> cleared (con s)"
  shows "console_get_line io press bs buf buf_len s = None"
  using assms
  by (simp add: console_get_line_def get_line_from.simps [of io press bs] keyboard_disable_irq_def keyboard_enable_irq_def)

theorem console_get_line_sleeps_for_ever_witness:
  "console_get_line model_pc model_press [[ENTER], [ENTER]] (replicate 8 NUL) 7
     (quiet_machine\<lparr>proc := reset_cpu\<lparr>eflags := intr_disable 0x202\<rparr>\<rparr>) = None"
  by (rule console_get_line_sleeps_for_ever)
    (simp_all add: quiet_machine_def eflags_get_intr_flag_def intr_disable_def EFLAGS_IF_def blank_console_def
      bit_unset_bit_iff)

end
