(* ===== verification/Shell.thy ===== *)
theory Shell
  imports Displays Parser Var_Table Keyboard
begin

text \<open>
  The boot shell (\<open>sh/shell.c\<close>, \<open>sh/commands.h\<close>): the command table, the commands, and one turn of the
  loop of \<open>shell_do\<close>: prompt, reading a line, parsing it and calling the command. Output is the list
  of the texts given to the console. \<open>pj\<close> is what the uninitialised tokens of the lexer hold, \<open>junk\<close>
  what the local buffer of the directory listing holds.
\<close>

section \<open>The command table\<close>

definition SHELL_BUF_SIZE :: nat where "SHELL_BUF_SIZE = 512"

datatype cmd_func = Cmd_lscmd | Cmd_help | Cmd_set | Cmd_show | Cmd_vars | Cmd_ataid | Cmd_mbr | Cmd_vid | Cmd_ls

record cmd_entry =
  cmd_name :: "char list"
  cmd_arity :: u32
  cmd_fun :: cmd_func
  cmd_desc :: "char list"
  cmd_example :: "char list"

definition add_cmd :: "char list \<Rightarrow> u32 \<Rightarrow> cmd_func \<Rightarrow> char list \<Rightarrow> char list \<Rightarrow> cmd_entry" where
  "add_cmd name arity f desc usage =
     \<lparr>cmd_name = name @ [NUL], cmd_arity = arity, cmd_fun = f, cmd_desc = desc @ [NUL], cmd_example = usage @ [NUL]\<rparr>"

definition cmd_table :: "cmd_entry list" where
  "cmd_table =
     [add_cmd ''lscmd'' 0 Cmd_lscmd ''display the list of all the commands'' ''lscmd'',
      add_cmd ''help'' 1 Cmd_help ''display the help for the given command'' ''help set'',
      add_cmd ''set'' 2 Cmd_set ''sets a variable to the given value''
        (''set '' @ [SIGIL_INT_VAR] @ ''var 113'' @ [LF, TAB] @ ''set '' @ [SIGIL_STR_VAR] @ ''var '' @
         [DELIMITER_STR] @ ''hello world'' @ [DELIMITER_STR] @ [LF, TAB] @ ''set '' @ [SIGIL_BOOL_VAR] @ ''var 1''),
      add_cmd ''show'' 1 Cmd_show ''shows the value of a variable'' ''show $var'',
      add_cmd ''vars'' 0 Cmd_vars ''displays all defined variables and their values'' ''vars'',
      add_cmd ''ataid'' 0 Cmd_ataid ''displays ATA IDENTIFY command'' ''ataid'',
      add_cmd ''mbr'' 0 Cmd_mbr ''dsiplays MBR information'' ''mbr'',
      add_cmd ''vid'' 0 Cmd_vid ''displays FAT16 Volume ID'' ''vid'',
      add_cmd ''ls'' 0 Cmd_ls ''list FAT16 root's directory'' ''ls'']"

text \<open>The search in the table from one entry on; the result of \<open>strcmp\<close> is \<open>None\<close> for a fault.\<close>

fun get_cmd_from :: "char list \<Rightarrow> cmd_entry list \<Rightarrow> cmd_entry option option" where
  "get_cmd_from name [] = Some None"
| "get_cmd_from name (e # es) =
     (case strcmp name (cmd_name e) of
        None \<Rightarrow> None
      | Some r \<Rightarrow> if r = 0 then Some (Some e) else get_cmd_from name es)"

definition get_cmd_entry :: "char list \<Rightarrow> cmd_entry option option" where
  "get_cmd_entry name = get_cmd_from name cmd_table"

fun foreach_cmd_entry :: "(cmd_entry \<Rightarrow> 's \<Rightarrow> (int \<times> 's) option) \<Rightarrow> cmd_entry list \<Rightarrow> 's \<Rightarrow> 's option" where
  "foreach_cmd_entry f [] s = Some s"
| "foreach_cmd_entry f (e # es) s =
     (case f e s of
        None \<Rightarrow> None
      | Some (rc, s') \<Rightarrow> if rc \<noteq> 0 then Some s' else foreach_cmd_entry f es s')"

section \<open>The commands\<close>

record 'd shell =
  sh_parser :: parser
  sh_vars :: "var_entry list"
  sh_fat :: "'d disk fat"

text \<open>One more text behind the output so far.\<close>

definition print_on :: "char list list \<Rightarrow> char list option \<Rightarrow> char list list option" where
  "print_on out t = map_option (\<lambda>t. out @ [t]) t"

definition display_cmd_name :: "cmd_entry \<Rightarrow> char list list \<Rightarrow> (int \<times> char list list) option" where
  "display_cmd_name e out = map_option (Pair 0) (print_on out (kprintf (''%s'' @ [LF, NUL]) [Arg_str (Some (cmd_name e))]))"

definition cmd_lscmd :: "(int \<times> char list list) option" where
  "cmd_lscmd = map_option (Pair 0) (foreach_cmd_entry display_cmd_name cmd_table [])"

definition cmd_help :: "token \<Rightarrow> (int \<times> char list list) option" where
  "cmd_help t =
     (if \<not> token_is_identifier t
      then map_option (Pair 1) (those [kprintf (''wrong parameters, not a command name'' @ [LF, NUL]) []])
      else (case get_cmd_entry (token_str t) of
              None \<Rightarrow> None
            | Some None \<Rightarrow> map_option (Pair 1) (those
                [kprintf (''no command with the name '' @ QUOTE # ''%s'' @ [QUOTE, LF, NUL]) [Arg_str (Some (token_str t))]])
            | Some (Some cte) \<Rightarrow> map_option (Pair 0) (those
                [kprintf (''%s'' @ [NUL]) [Arg_str (Some (cmd_name cte))],
                 kprintf ('' - %s'' @ [LF, NUL]) [Arg_str (Some (cmd_desc cte))],
                 kprintf (''usage:'' @ [LF, TAB] @ ''%s'' @ [LF, NUL]) [Arg_str (Some (cmd_example cte))]])))"

definition cmd_set :: "token \<Rightarrow> token \<Rightarrow> var_entry list \<Rightarrow> (int \<times> var_entry list) option" where
  "cmd_set var_name val tab =
     map_option (\<lambda>(rc, tab'). (if rc \<noteq> 0 then 1 else 0, tab')) (var_set_entry var_name val tab)"

definition type_str :: "int \<Rightarrow> char list" where
  "type_str ty = (if ty = TYPE_STR then ''str '' else if ty = TYPE_INT then ''int ''
     else if ty = TYPE_BOOL then ''bool'' else ''?'') @ [NUL]"

definition display_var :: "var_entry \<Rightarrow> char list list \<Rightarrow> (int \<times> char list list) option" where
  "display_var ve out =
     map_option (\<lambda>ts. (0, out @ ts)) (those
       [kprintf (''%s(%s)'' @ [TAB, NUL]) [Arg_str (Some (ve_name ve)), Arg_str (Some (type_str (ve_type ve)))],
        (if ve_type ve = TYPE_STR then kprintf (QUOTE # ''%s'' @ [QUOTE, NUL]) [Arg_str (Some (ve_str_val ve))]
         else if ve_type ve = TYPE_INT then kprintf (''0x%x'' @ [NUL]) [Arg_int (ve_int_val ve)]
         else if ve_type ve = TYPE_BOOL then
           kprintf (''%s'' @ [NUL]) [Arg_str (Some ((if ve_bool_val ve then ''true'' else ''false'') @ [NUL]))]
         else kprintf (''???'' @ [NUL]) []),
        kprintf [LF, NUL] []])"

text \<open>A variable that is found is not displayed.\<close>

definition cmd_show :: "token \<Rightarrow> var_entry list \<Rightarrow> (int \<times> char list list) option" where
  "cmd_show var_name tab =
     (case var_get_entry var_name tab of
        None \<Rightarrow> None
      | Some None \<Rightarrow> map_option (Pair 1) (those
          [kprintf (''no variable with the name '' @ QUOTE # ''%s'' @ [QUOTE, LF, NUL]) [Arg_str (Some (token_str var_name))]])
      | Some (Some i) \<Rightarrow> Some (0, []))"

definition cmd_vars :: "var_entry list \<Rightarrow> (int \<times> char list list) option" where
  "cmd_vars tab = var_foreach display_var tab []"

definition cmd_ataid :: "ata_id \<Rightarrow> (int \<times> char list list) option" where
  "cmd_ataid a = map_option (\<lambda>out. (0, out)) (ata_display_info a)"

definition cmd_mbr :: "'d disk \<Rightarrow> (int \<times> char list list) option" where
  "cmd_mbr d = map_option (\<lambda>out. (0, out)) (hdd_display_mbr d)"

definition cmd_vid :: "vid \<Rightarrow> (int \<times> char list list) option" where
  "cmd_vid v = map_option (\<lambda>out. (0, out)) (fat16_display_vid v)"

definition cmd_ls :: "'d ports \<Rightarrow> char list \<Rightarrow> 'd disk fat \<Rightarrow> (int \<times> char list list \<times> 'd disk fat) option" where
  "cmd_ls io junk fs = map_option (\<lambda>(out, fs). (0, out, fs)) (fat16_display_root (hdd_read_sector io) junk fs)"

text \<open>
  The calls by arity. A function pointer called with the wrong number of parameters is \<open>None\<close>. The file
  system reads through \<open>hdd_read_sector\<close>.
\<close>

definition call_cmd0 :: "'d ports \<Rightarrow> char list \<Rightarrow> cmd_func \<Rightarrow> 'd shell \<Rightarrow> (int \<times> char list list \<times> 'd shell) option" where
  "call_cmd0 io junk f sh =
     (case f of
        Cmd_lscmd \<Rightarrow> map_option (\<lambda>(rc, out). (rc, out, sh)) cmd_lscmd
      | Cmd_vars \<Rightarrow> map_option (\<lambda>(rc, out). (rc, out, sh)) (cmd_vars (sh_vars sh))
      | Cmd_ataid \<Rightarrow> map_option (\<lambda>(rc, out). (rc, out, sh)) (cmd_ataid (disk_id (fat_disk (sh_fat sh))))
      | Cmd_mbr \<Rightarrow> map_option (\<lambda>(rc, out). (rc, out, sh)) (cmd_mbr (fat_disk (sh_fat sh)))
      | Cmd_vid \<Rightarrow> map_option (\<lambda>(rc, out). (rc, out, sh)) (cmd_vid (fat_vid (sh_fat sh)))
      | Cmd_ls \<Rightarrow> map_option (\<lambda>(rc, out, fs). (rc, out, sh\<lparr>sh_fat := fs\<rparr>)) (cmd_ls io junk (sh_fat sh))
      | _ \<Rightarrow> None)"

definition call_cmd1 :: "cmd_func \<Rightarrow> token \<Rightarrow> 'd shell \<Rightarrow> (int \<times> char list list \<times> 'd shell) option" where
  "call_cmd1 f t sh =
     (case f of
        Cmd_help \<Rightarrow> map_option (\<lambda>(rc, out). (rc, out, sh)) (cmd_help t)
      | Cmd_show \<Rightarrow> map_option (\<lambda>(rc, out). (rc, out, sh)) (cmd_show t (sh_vars sh))
      | _ \<Rightarrow> None)"

definition call_cmd2 :: "cmd_func \<Rightarrow> token \<Rightarrow> token \<Rightarrow> 'd shell \<Rightarrow> (int \<times> char list list \<times> 'd shell) option" where
  "call_cmd2 f t u sh =
     (case f of
        Cmd_set \<Rightarrow> map_option (\<lambda>(rc, tab). (rc, [], sh\<lparr>sh_vars := tab\<rparr>)) (cmd_set t u (sh_vars sh))
      | _ \<Rightarrow> None)"

definition call_cmd ::
    "'d ports \<Rightarrow> char list \<Rightarrow> cmd_func \<Rightarrow> u32 \<Rightarrow> token list \<Rightarrow> 'd shell \<Rightarrow> (int \<times> char list list \<times> 'd shell) option" where
  "call_cmd io junk f arity tokens sh =
     (if arity = 0 then call_cmd0 io junk f sh
      else if arity = 1 then call_cmd1 f (tokens ! 1) sh
      else if arity = 2 then call_cmd2 f (tokens ! 1) (tokens ! 2) sh
      else Some (1, [], sh))"

section \<open>The loop\<close>

definition prompt :: "char list" where "prompt = ''shell-> '' @ [NUL]"

text \<open>The rest of the loop body after a line has been read.\<close>

definition shell_line ::
    "'d ports \<Rightarrow> char list \<Rightarrow> (nat \<Rightarrow> token) \<Rightarrow> char list \<Rightarrow> 'd shell \<Rightarrow> (char list list \<times> 'd shell) option" where
  "shell_line io junk pj buf sh =
     (case parser_do pj (Some buf) (sh_parser sh) of
        None \<Rightarrow> None
      | Some (ok, ps) \<Rightarrow>
          (let sh = sh\<lparr>sh_parser := ps\<rparr>; sx = ps_vec ps; word = Arg_str (Some (token_str (sx ! 0)))
           in if \<not> ok then map_option (\<lambda>out. (out, sh)) (those
                [kprintf (''syntax error: '' @ [NUL]) [],
                 kprintf (''%s'' @ [LF, NUL]) [Arg_str (Some (parser_strerror ps @ [NUL]))]])
              else if token_is_eoi (sx ! 0) then Some ([], sh)
              else if \<not> token_is_identifier (sx ! 0) then map_option (\<lambda>out. (out, sh)) (those
                [kprintf (''semantic error: '' @ [NUL]) [],
                 kprintf (''first word must be an identifier'' @ [LF, NUL]) []])
              else (case get_cmd_entry (token_str (sx ! 0)) of
                      None \<Rightarrow> None
                    | Some None \<Rightarrow> map_option (\<lambda>out. (out, sh)) (those
                        [kprintf (''no command '' @ QUOTE # ''%s'' @ QUOTE # '' found'' @ [LF, NUL]) [word]])
                    | Some (Some cte) \<Rightarrow>
                        if cmd_arity cte \<noteq> parser_data_len sx - 1 then
                          (case (kprintf (''command '' @ QUOTE # ''%s'' @ QUOTE # '' takes %d parameter(s)'' @ [LF, NUL])
                                   [Arg_str (Some (cmd_name cte)), Arg_int (cmd_arity cte)], cmd_help (sx ! 0)) of
                             (Some t, Some (rc, help)) \<Rightarrow> Some (t # help, sh)
                           | _ \<Rightarrow> None)
                        else (case call_cmd io junk (cmd_fun cte) (cmd_arity cte) sx sh of
                                None \<Rightarrow> None
                              | Some (rc, out, sh) \<Rightarrow>
                                  if rc \<noteq> 0 then map_option (\<lambda>out. (out, sh))
                                    (print_on out (kprintf (''command '' @ QUOTE # ''%s'' @ QUOTE # '' error'' @ [LF, NUL]) [word]))
                                  else Some (out, sh)))))"

text \<open>The texts reach the console one after the other.\<close>

fun print_all :: "char list list \<Rightarrow> console \<Rightarrow> console option" where
  "print_all [] c = Some c"
| "print_all (t # ts) c =
     (case console_puts (Some (t @ [NUL])) c of None \<Rightarrow> None | Some (n, c') \<Rightarrow> print_all ts c')"

record 'd world =
  mach :: "'d machine"
  sh :: "'d shell"
  line_buf :: "char list"

text \<open>The disk and the rest of the machine share the device.\<close>

definition run_line ::
    "'d ports \<Rightarrow> char list \<Rightarrow> (nat \<Rightarrow> token) \<Rightarrow> 'd world \<Rightarrow> 'd world option" where
  "run_line io junk pj w =
     (let m = mach w; fs = sh_fat (sh w);
          fs = fs\<lparr>fat_disk := (fat_disk fs)\<lparr>disk_dev := dev m\<rparr>\<rparr>
      in case shell_line io junk pj (line_buf w) ((sh w)\<lparr>sh_fat := fs\<rparr>) of
           None \<Rightarrow> None
         | Some (out, sh') \<Rightarrow>
             map_option (\<lambda>c. w\<lparr>mach := m\<lparr>con := c, dev := disk_dev (fat_disk (sh_fat sh'))\<rparr>, sh := sh'\<rparr>)
               (print_all out (con m)))"

definition shell_turn ::
    "'d ports \<Rightarrow> (u8 \<Rightarrow> 'd \<Rightarrow> 'd) \<Rightarrow> char list \<Rightarrow> (nat \<Rightarrow> token) \<Rightarrow> u8 list list \<Rightarrow> 'd world
       \<Rightarrow> (u8 list list \<times> 'd world) option" where
  "shell_turn io press junk pj bs w =
     (let buf = (line_buf w)[0 := NUL]
      in case kprintf (''%s'' @ [NUL]) [Arg_str (Some prompt)] of
           None \<Rightarrow> None
         | Some t \<Rightarrow>
             (case print_all [t] (con (mach w)) of
                None \<Rightarrow> None
              | Some c \<Rightarrow>
                  (case console_get_line io press bs buf (SHELL_BUF_SIZE - 1) ((mach w)\<lparr>con := c\<rparr>) of
                     None \<Rightarrow> None
                   | Some (rc, buf, len, bs', m) \<Rightarrow>
                       if rc \<noteq> 0 then Some (bs', w\<lparr>mach := m, line_buf := buf\<rparr>)
                       else map_option (Pair bs')
                         (run_line io junk pj (w\<lparr>mach := m, line_buf := buf[len := NUL]\<rparr>)))))"

text \<open>\<open>shell_do\<close>: \<open>n\<close> turns of the endless loop.\<close>

fun shell_turns ::
    "nat \<Rightarrow> 'd ports \<Rightarrow> (u8 \<Rightarrow> 'd \<Rightarrow> 'd) \<Rightarrow> char list \<Rightarrow> (nat \<Rightarrow> token) \<Rightarrow> u8 list list \<Rightarrow> 'd world
       \<Rightarrow> (u8 list list \<times> 'd world) option" where
  "shell_turns 0 io press junk pj bs w = Some (bs, w)"
| "shell_turns (Suc n) io press junk pj bs w =
     Option.bind (shell_turn io press junk pj bs w) (\<lambda>(bs', w'). shell_turns n io press junk pj bs' w')"

definition shell_do ::
    "nat \<Rightarrow> 'd ports \<Rightarrow> (u8 \<Rightarrow> 'd \<Rightarrow> 'd) \<Rightarrow> char list \<Rightarrow> (nat \<Rightarrow> token) \<Rightarrow> u8 list list \<Rightarrow> 'd world
       \<Rightarrow> (u8 list list \<times> 'd world) option" where
  "shell_do n io press junk pj bs w =
     (case kprintf (''welcome to the boot shell'' @ [LF, NUL]) [] of
        None \<Rightarrow> None
      | Some t \<Rightarrow>
          (case print_all [t] (con (mach w)) of
             None \<Rightarrow> None
           | Some c \<Rightarrow> shell_turns n io press junk pj bs (w\<lparr>mach := (mach w)\<lparr>con := c\<rparr>\<rparr>)))"

section \<open>The table\<close>

text \<open>The first entry with a name.\<close>

definition command_named :: "char list \<Rightarrow> cmd_entry option" where
  "command_named s = find (\<lambda>e. cmd_name e = s @ [NUL]) cmd_table"

lemma get_cmd_from_find:
  assumes "c_string name s" "list_all (\<lambda>e. \<exists>n. NUL \<notin> set n \<and> cmd_name e = n @ [NUL]) es"
  shows "get_cmd_from name es = Some (find (\<lambda>e. cmd_name e = s @ [NUL]) es)"
  using assms(2)
proof (induction es)
  case (Cons e es)
  then obtain n where n: "NUL \<notin> set n" "cmd_name e = n @ [NUL]" by auto
  then have c: "c_string (cmd_name e) n" by (simp add: c_string_def)
  from strcmp_returns [OF assms(1) c] obtain r where r: "strcmp name (cmd_name e) = Some r" by blast
  have "r = 0 \<longleftrightarrow> s = n" using strcmp_zero_eq [OF assms(1) c] r by simp
  then show ?case using Cons r n by auto
qed simp

lemma cmd_table_names:
  "list_all (\<lambda>e. \<exists>n. NUL \<notin> set n \<and> cmd_name e = n @ [NUL]) cmd_table"
  by (simp add: cmd_table_def add_cmd_def)

lemma get_cmd_entry_named: "c_string name s \<Longrightarrow> get_cmd_entry name = Some (command_named s)"
  using get_cmd_from_find [OF _ cmd_table_names] by (simp add: get_cmd_entry_def command_named_def)

lemma command_named_in: "command_named s = Some cte \<Longrightarrow> cte \<in> set cmd_table \<and> cmd_name cte = s @ [NUL]"
  by (auto simp: command_named_def find_Some_iff)

text \<open>The texts of the table, all printable in one piece.\<close>

lemma cmd_table_texts:
  assumes "cte \<in> set cmd_table"
  shows "\<exists>n d u. cmd_name cte = n @ [NUL] \<and> cmd_desc cte = d @ [NUL] \<and> cmd_example cte = u @ [NUL] \<and>
    NUL \<notin> set n \<and> NUL \<notin> set d \<and> NUL \<notin> set u \<and> length n \<le> 5 \<and> length d \<le> 60 \<and> length u \<le> 60 \<and> unat (cmd_arity cte) \<le> 2"
  using assms by (auto simp: cmd_table_def add_cmd_def LF_def TAB_def SIGIL_INT_VAR_def SIGIL_STR_VAR_def
      SIGIL_BOOL_VAR_def DELIMITER_STR_def)

lemma cmd_table_cstr:
  assumes "cte \<in> set cmd_table"
  shows "c_string (cmd_name cte) (cstr (cmd_name cte))" "c_string (cmd_desc cte) (cstr (cmd_desc cte))"
    "c_string (cmd_example cte) (cstr (cmd_example cte))"
    "length (cstr (cmd_name cte)) \<le> 5" "length (cstr (cmd_desc cte)) \<le> 60" "length (cstr (cmd_example cte)) \<le> 60"
    "unat (cmd_arity cte) \<le> 2"
proof -
  from cmd_table_texts [OF assms] obtain n d u where t: "cmd_name cte = n @ [NUL]" "cmd_desc cte = d @ [NUL]"
    "cmd_example cte = u @ [NUL]" "NUL \<notin> set n" "NUL \<notin> set d" "NUL \<notin> set u"
    "length n \<le> 5" "length d \<le> 60" "length u \<le> 60" "unat (cmd_arity cte) \<le> 2" by blast
  then have c: "c_string (cmd_name cte) n" "c_string (cmd_desc cte) d" "c_string (cmd_example cte) u"
    by (simp_all add: c_string_def)
  show "c_string (cmd_name cte) (cstr (cmd_name cte))" "c_string (cmd_desc cte) (cstr (cmd_desc cte))"
    "c_string (cmd_example cte) (cstr (cmd_example cte))"
    "length (cstr (cmd_name cte)) \<le> 5" "length (cstr (cmd_desc cte)) \<le> 60" "length (cstr (cmd_example cte)) \<le> 60"
    "unat (cmd_arity cte) \<le> 2"
    using c t by (simp_all add: c_string_cstr)
qed

section \<open>The messages\<close>

lemma print_s:
  "c_string b s \<Longrightarrow> length s \<le> 900 \<Longrightarrow> kprintf (''%s'' @ [NUL]) [Arg_str (Some b)] = Some s"
  "c_string b s \<Longrightarrow> length s \<le> 900 \<Longrightarrow> kprintf (''%s'' @ [LF, NUL]) [Arg_str (Some b)] = Some (s @ [LF])"
  "c_string b s \<Longrightarrow> length s \<le> 900 \<Longrightarrow> kprintf ('' - %s'' @ [LF, NUL]) [Arg_str (Some b)] = Some ('' - '' @ s @ [LF])"
  "c_string b s \<Longrightarrow> length s \<le> 900 \<Longrightarrow>
     kprintf (''usage:'' @ [LF, TAB] @ ''%s'' @ [LF, NUL]) [Arg_str (Some b)] = Some (''usage:'' @ [LF, TAB] @ s @ [LF])"
  "c_string b s \<Longrightarrow> length s \<le> 900 \<Longrightarrow>
     kprintf (''no command '' @ QUOTE # ''%s'' @ QUOTE # '' found'' @ [LF, NUL]) [Arg_str (Some b)]
       = Some (''no command '' @ [QUOTE] @ s @ [QUOTE] @ '' found'' @ [LF])"
  "c_string b s \<Longrightarrow> length s \<le> 900 \<Longrightarrow>
     kprintf (''no command with the name '' @ QUOTE # ''%s'' @ [QUOTE, LF, NUL]) [Arg_str (Some b)]
       = Some (''no command with the name '' @ [QUOTE] @ s @ [QUOTE, LF])"
  "c_string b s \<Longrightarrow> length s \<le> 900 \<Longrightarrow>
     kprintf (''command '' @ QUOTE # ''%s'' @ QUOTE # '' error'' @ [LF, NUL]) [Arg_str (Some b)]
       = Some (''command '' @ [QUOTE] @ s @ [QUOTE] @ '' error'' @ [LF])"
  by (simp_all add: run_format)

lemma print_literals:
  "kprintf (''syntax error: '' @ [NUL]) [] = Some ''syntax error: ''"
  "kprintf (''semantic error: '' @ [NUL]) [] = Some ''semantic error: ''"
  "kprintf (''first word must be an identifier'' @ [LF, NUL]) [] = Some (''first word must be an identifier'' @ [LF])"
  by (simp_all add: run_format)

lemma print_arity:
  assumes "c_string b s" "length s \<le> 900" "unat n \<le> 2"
  shows "kprintf (''command '' @ QUOTE # ''%s'' @ QUOTE # '' takes %d parameter(s)'' @ [LF, NUL]) [Arg_str (Some b), Arg_int n]
    = Some (''command '' @ [QUOTE] @ s @ [QUOTE] @ '' takes '' @ [digit_chars False ! unat n] @ '' parameter(s)'' @ [LF])"
proof -
  have "unat n = 0 \<or> unat n = 1 \<or> unat n = 2" using assms(3) by linarith
  then have "n = 0 \<or> n = 1 \<or> n = 2" by (auto simp: word_unat_eq_iff)
  then have "0 \<le> sint n" by auto
  moreover have "numeral_text False 10 (unat n) = [digit_chars False ! unat n]"
    using assms(3) by (subst numeral_text.simps) simp
  ultimately have "number_text n 10 (-1) (-1) SIGN = [digit_chars False ! unat n]" by (simp add: dec_text)
  then show ?thesis using assms(1,2) by (simp add: run_format)
qed

lemmas print_texts = print_s [unfolded append_Cons append_Nil] print_literals [unfolded append_Cons append_Nil]
  print_arity [unfolded append_Cons append_Nil]

section \<open>What a line is answered with\<close>

definition help_reply :: "cmd_entry \<Rightarrow> char list list" where
  "help_reply cte = [cstr (cmd_name cte), '' - '' @ cstr (cmd_desc cte) @ [LF],
     ''usage:'' @ [LF, TAB] @ cstr (cmd_example cte) @ [LF]]"

definition arity_reply :: "cmd_entry \<Rightarrow> char list list" where
  "arity_reply cte =
     (''command '' @ [QUOTE] @ cstr (cmd_name cte) @ [QUOTE] @ '' takes '' @ [digit_chars False ! unat (cmd_arity cte)]
        @ '' parameter(s)'' @ [LF]) # help_reply cte"

definition error_reply :: "char list \<Rightarrow> char list" where
  "error_reply s = ''command '' @ [QUOTE] @ s @ [QUOTE] @ '' error'' @ [LF]"

lemma cmd_help_named:
  assumes "token_is_identifier t" "c_string (token_str t) s" "command_named s = Some cte"
  shows "cmd_help t = Some (0, help_reply cte)"
proof -
  note c = cmd_table_cstr [OF conjunct1 [OF command_named_in [OF assms(3)]]]
  show ?thesis using assms(1,3) c
    by (simp add: cmd_help_def get_cmd_entry_named [OF assms(2)] print_texts help_reply_def)
qed

lemma first_word:
  assumes "list_all2 token_denotes (take (length ws) v) (map snd ws)" "ws \<noteq> []"
  shows "token_denotes (v ! 0) (snd (hd ws))"
proof -
  have "0 < length ws" "length (take (length ws) v) = length ws"
    using assms list_all2_lengthD [OF assms(1)] by simp_all
  then show ?thesis using list_all2_nthD [OF assms(1), of 0] assms(2) by (simp add: hd_conv_nth)
qed

text \<open>The answer to a line whose first word is an identifier, after it has been parsed.\<close>

lemma answer_identifier:
  assumes p: "parser_do pj (Some buf) (sh_parser s0) = Some (True, ps)"
    and t: "token_is_identifier (ps_vec ps ! 0)" "c_string (token_str (ps_vec ps ! 0)) s" "length s \<le> 15"
    and n: "parser_data_len (ps_vec ps) = of_nat n" "0 < n" "n \<le> 3"
  shows "shell_line io junk pj buf s0 = (case command_named s of
      None \<Rightarrow> Some ([''no command '' @ [QUOTE] @ s @ [QUOTE] @ '' found'' @ [LF]], s0\<lparr>sh_parser := ps\<rparr>)
    | Some cte \<Rightarrow>
        if unat (cmd_arity cte) \<noteq> n - 1 then Some (arity_reply cte, s0\<lparr>sh_parser := ps\<rparr>)
        else (case call_cmd io junk (cmd_fun cte) (cmd_arity cte) (ps_vec ps) (s0\<lparr>sh_parser := ps\<rparr>) of
                None \<Rightarrow> None
              | Some (rc, out, sh2) \<Rightarrow> Some (if rc = 0 then out else out @ [error_reply s], sh2)))"
proof -
  have ne: "\<not> token_is_eoi (ps_vec ps ! 0)"
    using t(1) by (simp add: token_is_identifier_def token_is_eoi_def)
  have len: "parser_data_len (ps_vec ps) - 1 = of_nat (n - 1)" using n by (cases n) simp_all
  show ?thesis
  proof (cases "command_named s")
    case None
    then show ?thesis using t p ne
      by (simp add: shell_line_def Let_def get_cmd_entry_named [OF t(2)] print_texts)
  next
    case (Some cte)
    note c = cmd_table_cstr [OF conjunct1 [OF command_named_in [OF Some]]]
    have "n - 1 < 4294967296" "n - 1 \<le> 2" using n by simp_all
    then have ar: "cmd_arity cte = of_nat (n - 1) \<longleftrightarrow> unat (cmd_arity cte) = n - 1"
      by (auto simp: word_unat_eq_iff unat_of_nat_u32)
    show ?thesis
    proof (cases "unat (cmd_arity cte) = n - 1")
      case False
      then show ?thesis using t p ne Some len ar c
        by (simp add: shell_line_def Let_def get_cmd_entry_named [OF t(2)] print_texts arity_reply_def
            cmd_help_named [OF t(1,2) Some])
    next
      case True
      then have a: "cmd_arity cte = parser_data_len (ps_vec ps) - 1" using len ar by simp
      show ?thesis using t p ne Some True a
        by (simp add: shell_line_def Let_def get_cmd_entry_named [OF t(2)] print_texts print_on_def error_reply_def
            split: option.splits)
    qed
  qed
qed

end
