(* ===== verification/Shell_Props.thy ===== *)
theory Shell_Props
  imports Shell
begin

text \<open>
  What the shell answers: the dispatch of a parsed line to its command, the assignment of a variable, and
  a turn of the loop from the key presses to the answer.
\<close>

section \<open>The answer to a line\<close>

text \<open>
  The answer to the words of a line, with the tokens \<open>sx\<close> that the parser made of them: the texts
  written and the state of the shell behind them. Only a command with the right number of words is called.
\<close>

definition answer ::
    "'d ports \<Rightarrow> char list \<Rightarrow> shell_word list \<Rightarrow> token list \<Rightarrow> 'd shell \<Rightarrow> (char list list \<times> 'd shell) option" where
  "answer io junk ws sx s =
     (if 3 < length ws then Some ([''syntax error: '', ''the given line contains too many elements'' @ [LF]], s)
      else case ws of
        [] \<Rightarrow> Some ([], s)
      | W_ident name # args \<Rightarrow>
          (case command_named name of
             None \<Rightarrow> Some ([''no command '' @ [QUOTE] @ name @ [QUOTE] @ '' found'' @ [LF]], s)
           | Some cte \<Rightarrow>
               if unat (cmd_arity cte) \<noteq> length args then Some (arity_reply cte, s)
               else (case call_cmd io junk (cmd_fun cte) (cmd_arity cte) sx s of
                       None \<Rightarrow> None
                     | Some (rc, out, s') \<Rightarrow> Some (if rc = 0 then out else out @ [error_reply name], s')))
      | w # args \<Rightarrow> Some ([''semantic error: '', ''first word must be an identifier'' @ [LF]], s))"

text \<open>What the parser leaves behind.\<close>

definition parsed :: "(nat \<times> shell_word) list \<Rightarrow> parser \<Rightarrow> bool" where
  "parsed ws ps \<longleftrightarrow> (length ws \<le> 3 \<longrightarrow> list_all2 token_denotes (take (length ws) (ps_vec ps)) (map snd ws))"

lemma shell_line_too_long:
  assumes "parser_do pj (Some buf) (sh_parser s0) = Some (False, ps)" "ps_err ps = ERR_TOO_MANY_TOKENS"
  shows "shell_line io junk pj buf s0
    = Some ([''syntax error: '', ''the given line contains too many elements'' @ [LF]], s0\<lparr>sh_parser := ps\<rparr>)"
proof -
  let ?m = "''the given line contains too many elements''"
  have "parser_strerror ps = ?m" using assms(2) by (simp add: parser_strerror_def)
  moreover have "c_string (?m @ [NUL]) ?m" "length ?m \<le> 900" by (simp_all add: c_string_def)
  ultimately show ?thesis using assms(1) print_s(2) [of "?m @ [NUL]" ?m] print_literals(1)
    by (simp add: shell_line_def Let_def)
qed

lemma shell_line_not_identifier:
  assumes "parser_do pj (Some buf) (sh_parser s0) = Some (True, ps)"
    and "token_denotes (ps_vec ps ! 0) w" "\<forall>s. w \<noteq> W_ident s"
  shows "shell_line io junk pj buf s0
    = Some ([''semantic error: '', ''first word must be an identifier'' @ [LF]], s0\<lparr>sh_parser := ps\<rparr>)"
  using assms denotes_not_special [OF assms(2)] print_texts
  by (cases w) (simp_all add: shell_line_def Let_def token_is_defs print_texts)

lemma shell_line_answers:
  assumes "list_all (\<lambda>(k, w). word_ok w) ws" and "separated ws" and "\<forall>i. token_ok (pj i)"
    and "length (ps_vec (sh_parser s0)) = SYNTAX_VEC_LEN"
  shows "\<exists>ok ps. parser_do pj (Some (written_line ws e rest)) (sh_parser s0) = Some (ok, ps) \<and> parsed ws ps \<and>
    shell_line io junk pj (written_line ws e rest) s0 = answer io junk (map snd ws) (ps_vec ps) (s0\<lparr>sh_parser := ps\<rparr>)"
proof (cases "length ws < SYNTAX_VEC_LEN")
  case False
  with parser_do_long [OF assms(1,2,3), of e rest "sh_parser s0"] obtain ps where
    r: "parser_do pj (Some (written_line ws e rest)) (sh_parser s0) = Some (False, ps)"
      "ps_err ps = ERR_TOO_MANY_TOKENS" by auto
  moreover from False have "\<not> length ws \<le> 3" by (simp add: SYNTAX_VEC_LEN_def)
  ultimately show ?thesis using shell_line_too_long [OF r, of io junk]
    by (intro exI [of _ False] exI [of _ ps]) (simp add: answer_def parsed_def)
next
  case True
  then have n: "length ws \<le> 3" by (simp add: SYNTAX_VEC_LEN_def)
  from parser_do_short [OF assms True, of e rest] obtain ps toks t vs where
    r: "parser_do pj (Some (written_line ws e rest)) (sh_parser s0) = Some (True, ps)"
      "ps_vec ps = toks @ t # vs" "list_all2 token_denotes toks (map snd ws)" "tok_type t = EOI"
      "parser_data_len (ps_vec ps) = of_nat (length ws)" by blast
  then have p: "parsed ws ps" using list_all2_lengthD [OF r(3)] by (simp add: parsed_def)
  have "shell_line io junk pj (written_line ws e rest) s0 = answer io junk (map snd ws) (ps_vec ps) (s0\<lparr>sh_parser := ps\<rparr>)"
  proof (cases ws)
    case Nil
    with r show ?thesis by (simp add: shell_line_def answer_def Let_def token_is_eoi_def)
  next
    case (Cons kw args)
    then have d: "token_denotes (ps_vec ps ! 0) (snd kw)" using first_word [of ws "ps_vec ps"] p n by (simp add: parsed_def)
    show ?thesis
    proof (cases "\<exists>s. snd kw = W_ident s")
      case False
      with n Cons show ?thesis using shell_line_not_identifier [OF r(1) d, of io junk]
        by (cases "snd kw") (simp_all add: answer_def)
    next
      case True
      then obtain s where s: "snd kw = W_ident s" by blast
      with Cons assms(1) have "length s \<le> 15" by (cases kw) (simp add: TOKEN_STR_LEN_MAX_def)
      moreover from d s have "token_is_identifier (ps_vec ps ! 0)" "c_string (token_str (ps_vec ps ! 0)) s"
        by (simp_all add: token_is_identifier_def)
      ultimately have "shell_line io junk pj (written_line ws e rest) s0 = (case command_named s of
          None \<Rightarrow> Some ([''no command '' @ [QUOTE] @ s @ [QUOTE] @ '' found'' @ [LF]], s0\<lparr>sh_parser := ps\<rparr>)
        | Some cte \<Rightarrow>
            if unat (cmd_arity cte) \<noteq> length ws - 1 then Some (arity_reply cte, s0\<lparr>sh_parser := ps\<rparr>)
            else (case call_cmd io junk (cmd_fun cte) (cmd_arity cte) (ps_vec ps) (s0\<lparr>sh_parser := ps\<rparr>) of
                    None \<Rightarrow> None
                  | Some (rc, out, sh2) \<Rightarrow> Some (if rc = 0 then out else out @ [error_reply s], sh2)))"
        using answer_identifier [OF r(1) _ _ _ r(5)] n Cons by simp
      also have "\<dots> = answer io junk (map snd ws) (ps_vec ps) (s0\<lparr>sh_parser := ps\<rparr>)"
        using n Cons s by (simp add: answer_def split: option.split)
      finally show ?thesis .
    qed
  qed
  with r(1) p show ?thesis by blast
qed

section \<open>Assigning a variable\<close>

text \<open>What the words of \<open>set\<close> name: the variable with its type, and the value.\<close>

fun numeral_word :: "shell_word \<Rightarrow> nat option" where
  "numeral_word (W_dec n) = Some n"
| "numeral_word (W_oct n) = Some n"
| "numeral_word (W_hex n) = Some n"
| "numeral_word w = None"

definition assigns :: "shell_word \<Rightarrow> shell_word \<Rightarrow> char list \<times> int \<Rightarrow> var_value \<Rightarrow> bool" where
  "assigns x val k v \<longleftrightarrow> x = W_var (sigil_of (snd k) # fst k) \<and> snd k = value_type v \<and>
     (case v of V_str s \<Rightarrow> val = W_str s
      | V_int n \<Rightarrow> numeral_word val = Some (unat n)
      | V_bool b \<Rightarrow> (\<exists>n. numeral_word val = Some n \<and> b = (n mod 256 \<noteq> 0)))"

lemma char_byte_zero: "char_byte c = 0 \<longleftrightarrow> c = NUL"
proof
  have "(of_char c :: u8) = of_nat (of_char c)" by (cases c) (simp add: of_char_Char)
  moreover assume "char_byte c = 0"
  ultimately have "of_nat (of_char c) = (0 :: u8)" by (simp add: char_byte_def)
  then have "256 dvd (of_char c :: nat)" by (simp only: word_of_nat_eq_0_iff) simp
  moreover have "(of_char c :: nat) < 256" by (rule nat_of_char_less_256)
  ultimately have "(of_char c :: nat) = 0" by (metis dvd_imp_le not_le gr0I)
  then have "char_of (of_char c :: nat) = (char_of (0 :: nat) :: char)" by (rule arg_cong)
  moreover have "char_of (0 :: nat) = NUL" by (simp add: char_of_def)
  ultimately show "c = NUL" by (simp only: char_of_char)
qed (simp add: char_byte_def)

lemma low_byte_of_integer:
  assumes "token_ok t"
  shows "token_boolean t \<longleftrightarrow> unat (token_integer t) mod 256 \<noteq> 0"
proof -
  have len: "length (tok_u t) = 16" using assms by (simp add: token_ok_def TOKEN_STR_LEN_MAX_def)
  have "(ucast (token_integer t) :: u8) = char_byte (tok_u t ! 0)"
    by (rule bit_word_eqI) (use len in \<open>auto simp: token_integer_def le32_def bit_ucast_iff bit_or_iff bit_push_bit_iff\<close>)
  moreover have "(ucast (token_integer t) :: u8) = 0 \<longleftrightarrow> unat (token_integer t) mod 256 = 0"
    by (simp add: word_unat_eq_iff unsigned_ucast_eq take_bit_eq_mod)
  moreover note char_byte_zero
  ultimately show ?thesis by (simp add: token_boolean_def)
qed

lemma numeral_denotes:
  "token_denotes t w \<Longrightarrow> numeral_word w = Some n \<Longrightarrow> token_is_luinteger t \<and> unat (token_integer t) = n"
  by (cases w) (simp_all add: token_is_luinteger_def)

lemma assigns_tokens:
  assumes "assigns x val k v" "word_ok x" "word_ok val" "token_denotes t x" "token_denotes u val"
    and "token_ok t" "token_ok u"
  shows "variable_token t (fst k) (snd k)" "token_value (snd k) u v"
proof -
  have x: "x = W_var (sigil_of (snd k) # fst k)" and ty: "snd k = value_type v" using assms(1) by (simp_all add: assigns_def)
  have c: "token_is_variable t" "c_string (token_str t) (sigil_of (snd k) # fst k)"
    using assms(4) x by (simp_all add: token_is_variable_def)
  then have "token_str t \<noteq> [] \<and> token_str t ! 0 = sigil_of (snd k)" by (cases "token_str t") (auto simp: c_string_def)
  moreover have "snd k \<in> {TYPE_STR, TYPE_INT, TYPE_BOOL}" using ty by (cases v) simp_all
  ultimately have "get_variable_token_type t = snd k" "snd k \<noteq> -1"
    by (auto simp: get_variable_token_type_def sigil_of_def sigil_defs var_consts)
  with c assms(6) show "variable_token t (fst k) (snd k)" by (auto simp: variable_token_def)
  show "token_value (snd k) u v"
  proof (cases v)
    case (V_str s)
    with assms(1,3,5) ty show ?thesis
      by (simp add: assigns_def token_is_lstring_def VAR_VAL_STR_LEN_MAX_def TOKEN_STR_LEN_MAX_def)
  next
    case (V_int n)
    with assms(1) have "numeral_word val = Some (unat n)" by (simp add: assigns_def)
    from numeral_denotes [OF assms(5) this] V_int ty show ?thesis by (simp add: word_unat_eq_iff)
  next
    case (V_bool b)
    with assms(1) obtain n where n: "numeral_word val = Some n" "b = (n mod 256 \<noteq> 0)" by (auto simp: assigns_def)
    from numeral_denotes [OF assms(5) n(1)] V_bool ty n(2) show ?thesis by (simp add: low_byte_of_integer [OF assms(7)])
  qed
qed

text \<open>The invariant of the shell: the tokens have their storage and the table of variables is well formed.\<close>

definition shell_ok :: "'d shell \<Rightarrow> bool" where
  "shell_ok s \<longleftrightarrow> length (ps_vec (sh_parser s)) = SYNTAX_VEC_LEN \<and> list_all token_ok (ps_vec (sh_parser s)) \<and>
     token_ok (lx_token (ps_lexer (sh_parser s))) \<and> table_ok (sh_vars s)"

definition SET_CMD :: cmd_entry where "SET_CMD = cmd_table ! 2"

lemma command_set: "command_named ''set'' = Some SET_CMD" "cmd_arity SET_CMD = 2" "cmd_fun SET_CMD = Cmd_set"
  by (simp_all add: SET_CMD_def command_named_def cmd_table_def add_cmd_def)

definition set_line :: "nat \<Rightarrow> nat \<Rightarrow> shell_word \<Rightarrow> nat \<Rightarrow> shell_word \<Rightarrow> (nat \<times> shell_word) list" where
  "set_line i j x k val = [(i, W_ident ''set''), (Suc j, x), (Suc k, val)]"

lemma set_line_ok:
  assumes "word_ok x" "word_ok val"
  shows "list_all (\<lambda>(k, w). word_ok w) (set_line i j x k val)" "separated (set_line i j x k val)"
proof -
  have "char_is_alphanum c" if "c \<in> set ''et''" for c
    using that by (auto simp: char_is_alphanum_def char_is_alpha_def char_in_def schar_def)
  moreover have "char_is_alpha (CHR ''s'')" by (simp add: char_is_alpha_def char_in_def schar_def)
  ultimately show "list_all (\<lambda>(k, w). word_ok w) (set_line i j x k val)"
    using assms by (simp add: set_line_def TOKEN_STR_LEN_MAX_def)
  show "separated (set_line i j x k val)" by (simp add: set_line_def separated_def)
qed

lemma set_line_assigns:
  assumes "shell_ok s0" "\<forall>i. token_ok (pj i)" "word_ok x" "word_ok val" "assigns x val key v"
  shows "\<exists>s1 out. shell_line io junk pj (written_line (set_line i j x k val) e rest) s0 = Some (out, s1) \<and>
    shell_ok s1 \<and> sh_fat s1 = sh_fat s0 \<and>
    (if key \<in> dom (table_map (sh_vars s0)) \<or> card (dom (table_map (sh_vars s0))) < TABLE_LEN
     then out = [] \<and> table_map (sh_vars s1) = (table_map (sh_vars s0))(key \<mapsto> v)
     else out = [error_reply ''set''] \<and> sh_vars s1 = sh_vars s0)"
proof -
  let ?ws = "set_line i j x k val"
  have len: "length (ps_vec (sh_parser s0)) = SYNTAX_VEC_LEN" using assms(1) by (simp add: shell_ok_def)
  from shell_line_answers [OF set_line_ok [OF assms(3,4)] assms(2) len, of i j k e rest io junk] obtain ok ps where
    p: "parser_do pj (Some (written_line ?ws e rest)) (sh_parser s0) = Some (ok, ps)" "parsed ?ws ps"
      "shell_line io junk pj (written_line ?ws e rest) s0 = answer io junk (map snd ?ws) (ps_vec ps) (s0\<lparr>sh_parser := ps\<rparr>)"
    by blast
  from parser_do_keeps_ok [OF p(1) assms(2)] assms(1)
  have ok: "list_all token_ok (ps_vec ps)" "token_ok (lx_token (ps_lexer ps))" by (auto simp: shell_ok_def)
  have vec: "length (ps_vec ps) = SYNTAX_VEC_LEN" using parser_do_keeps_length [OF p(1)] len by simp
  then have tok: "token_ok (ps_vec ps ! 1)" "token_ok (ps_vec ps ! 2)"
    using ok(1) by (simp_all add: list_all_length SYNTAX_VEC_LEN_def)
  have den: "list_all2 token_denotes (take 3 (ps_vec ps)) [W_ident ''set'', x, val]"
    using p(2) by (simp add: parsed_def set_line_def numeral_3_eq_3)
  then have "token_denotes (ps_vec ps ! 1) x" "token_denotes (ps_vec ps ! 2) val"
    using list_all2_nthD2 [OF den, of 1] list_all2_nthD2 [OF den, of 2] by simp_all
  from assigns_tokens [OF assms(5,3,4) this tok]
  obtain rc tab where t: "var_set_entry (ps_vec ps ! 1) (ps_vec ps ! 2) (sh_vars s0) = Some (rc, tab)" "table_ok tab"
    "if key \<in> dom (table_map (sh_vars s0)) \<or> card (dom (table_map (sh_vars s0))) < TABLE_LEN
     then rc = 0 \<and> table_map tab = (table_map (sh_vars s0))(key \<mapsto> v) else rc = 1 \<and> tab = sh_vars s0"
    using var_set_entry_spec [of "sh_vars s0" "ps_vec ps ! 1" "fst key" "snd key" "ps_vec ps ! 2" v] tok(2) assms(1)
    unfolding shell_ok_def by auto
  let ?s1 = "s0\<lparr>sh_parser := ps, sh_vars := tab\<rparr>"
  have "shell_line io junk pj (written_line ?ws e rest) s0 = Some (if rc = 0 then [] else [error_reply ''set''], ?s1)"
    unfolding p(3) using t(1)
    by (simp add: answer_def set_line_def command_set call_cmd_def call_cmd2_def cmd_set_def)
  moreover have "shell_ok ?s1" using ok vec t(2) by (simp add: shell_ok_def)
  ultimately show ?thesis using t(3)
    by (intro exI [of _ ?s1] exI [of _ "if rc = 0 then [] else [error_reply ''set'']"]) (simp split: if_splits)
qed

section \<open>A turn of the loop\<close>

text \<open>The machine waiting at the prompt: interrupts on, no key held, nothing typed yet.\<close>

definition at_prompt :: "'d ports \<Rightarrow> ('d \<Rightarrow> pics) \<Rightarrow> (u8 \<Rightarrow> 'd \<Rightarrow> 'd) \<Rightarrow> 'd world \<Rightarrow> bool" where
  "at_prompt io view press w \<longleftrightarrow> keyboard_contract io view press \<and> pics_ready (view (dev (mach w))) \<and>
     eflags_get_intr_flag (eflags (proc (mach w))) \<and> kbd (mach w) = idle_keys \<and>
     ibuf_ok (con (mach w)) \<and> widx (con (mach w)) = 0 \<and> \<not> line_completed (con (mach w)) \<and>
     \<not> cleared (con (mach w)) \<and> on_screen (con (mach w)) \<and> length (line_buf w) = SHELL_BUF_SIZE"

text \<open>Output that leaves the cursor on the screen and the line buffer as it was.\<close>

definition at_rest :: "console \<Rightarrow> console \<Rightarrow> bool" where
  "at_rest c c' \<longleftrightarrow> on_screen c' \<and> widx c' = widx c \<and> ibuf c' = ibuf c \<and>
     line_completed c' = line_completed c \<and> cleared c' = cleared c"

lemma print_all_rests:
  assumes "on_screen c" "list_all (\<lambda>t. NUL \<notin> set t \<and> ch_bs \<notin> set t \<and> ch_cr \<notin> set t \<and> ch_del \<notin> set t) ts"
  shows "\<exists>c'. print_all ts c = Some c' \<and> at_rest c c'"
  using assms
proof (induction ts arbitrary: c)
  case Nil
  then show ?case by (simp add: at_rest_def)
next
  case (Cons t ts)
  then have p: "c_string (t @ [NUL]) t" "ch_bs \<notin> set t" "ch_cr \<notin> set t" "ch_del \<notin> set t" by (simp_all add: c_string_def)
  from console_puts_displays [OF p(1) Cons.prems(1) p(2,3)] obtain c' where
    c': "console_puts (Some (t @ [NUL])) c = Some (int (length t), c')" "on_screen c'" "same_rest c c'"
    by (auto simp: displays_def)
  moreover have "cleared c' = cleared c" using cleared_puts [OF p(1,4) c'(1)] .
  ultimately have "at_rest c c'" by (simp add: at_rest_def same_rest_def)
  with Cons.IH [OF c'(2)] Cons.prems(2) c'(1) show ?case by (auto simp: at_rest_def)
qed

lemma prompt_printed: "on_screen c \<Longrightarrow> \<exists>c'. print_all [''shell-> ''] c = Some c' \<and> at_rest c c'"
  by (rule print_all_rests) (simp_all add: ch_defs)

lemma fold_edit_bound: "length (fst e) \<le> IBUF_SIZE \<Longrightarrow> length (fst (fold edit cs e)) \<le> IBUF_SIZE"
proof (induction cs arbitrary: e)
  case (Cons c cs)
  have "length (fst (edit c e)) \<le> IBUF_SIZE" using Cons.prems by (auto simp: edit_def case_prod_beta)
  from Cons.IH [OF this] show ?case by simp
qed simp

lemma shell_turn_runs:
  assumes "at_prompt io view press w" "list_all typable cs" "ch_lf \<notin> set cs"
    and "concat bs = concat (map keystrokes cs) @ [ENTER]"
  defines "l \<equiv> fst (fold edit cs ([], False))"
  shows "\<exists>bs' m rest. shell_turn io press junk pj bs w
      = map_option (Pair bs') (run_line io junk pj (w\<lparr>mach := m, line_buf := l @ NUL # rest\<rparr>)) \<and>
    concat bs' = [] \<and> kbd m = idle_keys \<and> proc m = proc (mach w) \<and> line_of (con m) = ([], False) \<and>
    line_masked (view (dev m)) 1 \<and> pics_ready (view (dev m)) \<and> Suc (length l + length rest) = SHELL_BUF_SIZE \<and>
    (\<exists>c. at_rest (con (mach w)) c \<and> con m = reset_ibuf (fold console_put_ibuf (cs @ [ch_lf]) c))"
proof -
  have k: "c_string prompt ''shell-> ''" by (simp add: prompt_def c_string_def)
  have t: "kprintf (''%s'' @ [NUL]) [Arg_str (Some prompt)] = Some ''shell-> ''" by (rule print_s(1) [OF k]) simp
  from assms(1) have "on_screen (con (mach w))" by (simp add: at_prompt_def)
  from prompt_printed [OF this] obtain c where c: "print_all [''shell-> ''] (con (mach w)) = Some c"
    "at_rest (con (mach w)) c" by blast
  let ?m = "(mach w)\<lparr>con := c\<rparr>" and ?buf = "(line_buf w)[0 := NUL]"
  have l: "length l \<le> 128" using fold_edit_bound [of "([], False)" cs] by (simp add: l_def IBUF_SIZE_def)
  have len: "length ?buf = 512" using assms(1) by (simp add: at_prompt_def SHELL_BUF_SIZE_def)
  obtain bs' m where g: "console_get_line io press bs ?buf (SHELL_BUF_SIZE - 1) ?m
      = Some (0, l @ drop (length l) ?buf, length l, bs', m)"
    "concat bs' = []" "line_of (con m) = ([], False)" "kbd m = idle_keys" "proc m = proc ?m" "line_masked (view (dev m)) 1"
    "pics_ready (view (dev m))" "con m = reset_ibuf (fold console_put_ibuf (cs @ [ch_lf]) c)"
    using get_typed_line [of io view press ?m cs bs "SHELL_BUF_SIZE - 1" ?buf] assms(1-4) c(2) l len
    by (auto simp: at_prompt_def at_rest_def ibuf_ok_def SHELL_BUF_SIZE_def l_def)
  have "drop (length l) ?buf \<noteq> []" using l len by simp
  then obtain d rest where d: "drop (length l) ?buf = d # rest" by (cases "drop (length l) ?buf") auto
  then have "length (drop (length l) ?buf) = Suc (length rest)" by simp
  then have r: "Suc (length l + length rest) = SHELL_BUF_SIZE" using l len by (simp add: SHELL_BUF_SIZE_def)
  from d have "(l @ drop (length l) ?buf)[length l := NUL] = l @ NUL # rest" by simp
  then have "shell_turn io press junk pj bs w
      = map_option (Pair bs') (run_line io junk pj (w\<lparr>mach := m, line_buf := l @ NUL # rest\<rparr>))"
    using t c(1) g(1) by (simp add: shell_turn_def Let_def)
  with g r c(2) show ?thesis by (intro exI [of _ bs'] exI [of _ m] exI [of _ rest]) auto
qed

lemma puts_returns: "c_string buf cs \<Longrightarrow> \<exists>n s'. puts_from buf i s = Some (n, s')"
proof (induction cs arbitrary: buf i s)
  case Nil
  then show ?case by (auto simp: c_string_def)
next
  case (Cons c cs)
  then obtain rest where buf: "buf = c # rest" "c_string rest cs" "c \<noteq> NUL" by (auto simp: c_string_def)
  from Cons.IH [OF buf(2), of "Suc i" "snd (console_putc c True s)"] buf show ?case by simp
qed

lemma print_all_returns: "list_all (\<lambda>t. NUL \<notin> set t) ts \<Longrightarrow> \<exists>c'. print_all ts c = Some c'"
proof (induction ts arbitrary: c)
  case (Cons t ts)
  then have "c_string (t @ [NUL]) t" by (simp add: c_string_def)
  from puts_returns [OF this, of 0 c] obtain n c' where "puts_from (t @ [NUL]) 0 c = Some (n, c')" by blast
  then show ?case using Cons by (simp add: console_puts_def)
qed simp

text \<open>The map that a bounded table holds after an assignment.\<close>

definition put_bounded :: "('k \<Rightarrow> 'v option) \<Rightarrow> 'k \<Rightarrow> 'v \<Rightarrow> 'k \<Rightarrow> 'v option" where
  "put_bounded m k v = (if k \<in> dom m \<or> card (dom m) < TABLE_LEN then m(k \<mapsto> v) else m)"

lemma run_set_line:
  assumes "shell_ok (sh w)" "\<forall>i. token_ok (pj i)" "word_ok x" "word_ok val" "assigns x val key v"
    and "line_buf w = written_line (set_line i j x k val) e rest" "on_screen (con (mach w))"
  shows "\<exists>w'. run_line io junk pj w = Some w' \<and> shell_ok (sh w') \<and> proc (mach w') = proc (mach w) \<and>
    kbd (mach w') = kbd (mach w) \<and> dev (mach w') = dev (mach w) \<and> line_buf w' = line_buf w \<and>
    at_rest (con (mach w)) (con (mach w')) \<and>
    table_map (sh_vars (sh w')) = put_bounded (table_map (sh_vars (sh w))) key v"
proof -
  let ?fs = "sh_fat (sh w)" and ?room = "key \<in> dom (table_map (sh_vars (sh w))) \<or> card (dom (table_map (sh_vars (sh w)))) < TABLE_LEN"
  let ?s0 = "(sh w)\<lparr>sh_fat := ?fs\<lparr>fat_disk := (fat_disk ?fs)\<lparr>disk_dev := dev (mach w)\<rparr>\<rparr>\<rparr>"
  have "shell_ok ?s0" using assms(1) by (simp add: shell_ok_def)
  from set_line_assigns [OF this assms(2-5), of io junk i j k e rest] obtain s1 out where
    s1: "shell_line io junk pj (line_buf w) ?s0 = Some (out, s1)" "shell_ok s1" "sh_fat s1 = sh_fat ?s0"
      "if ?room then out = [] \<and> table_map (sh_vars s1) = (table_map (sh_vars (sh w)))(key \<mapsto> v)
       else out = [error_reply ''set''] \<and> sh_vars s1 = sh_vars (sh w)"
    unfolding assms(6) by auto
  have "list_all (\<lambda>t. NUL \<notin> set t \<and> ch_bs \<notin> set t \<and> ch_cr \<notin> set t \<and> ch_del \<notin> set t) out"
    using s1(4) by (cases ?room) (simp_all add: error_reply_def LF_def QUOTE_def ch_defs)
  from print_all_rests [OF assms(7) this] obtain c where c: "print_all out (con (mach w)) = Some c" "at_rest (con (mach w)) c" by blast
  let ?w = "w\<lparr>mach := (mach w)\<lparr>con := c, dev := dev (mach w)\<rparr>, sh := s1\<rparr>"
  have "run_line io junk pj w = Some ?w" using s1(1,3) c(1) by (simp add: run_line_def Let_def)
  moreover have "table_map (sh_vars s1) = put_bounded (table_map (sh_vars (sh w))) key v"
    using s1(4) by (cases ?room) (simp_all add: put_bounded_def)
  ultimately show ?thesis using s1(2) c(2) by (intro exI [of _ ?w]) simp
qed

section \<open>Properties\<close>

text \<open>C20. The answer to a line. On a line of written words the shell parses the words and answers as the
  command table says: more than three words are a syntax error, no word gives no output, a first word that
  is no identifier is a semantic error, an unknown command is reported, a wrong number of parameters is
  answered with the arity and the help of the command, and otherwise exactly the named command is called
  with the tokens of the words; if it fails that is reported behind its output.\<close>

theorem shell_line_correct:
  assumes "list_all (\<lambda>(k, w). word_ok w) ws" and "separated ws" and "\<forall>i. token_ok (pj i)"
    and "length (ps_vec (sh_parser s0)) = SYNTAX_VEC_LEN"
  shows "\<exists>ps. parsed ws ps \<and>
    shell_line io junk pj (written_line ws e rest) s0 = answer io junk (map snd ws) (ps_vec ps) (s0\<lparr>sh_parser := ps\<rparr>)"
  using shell_line_answers [OF assms, of e rest io junk] by blast

text \<open>A shell that has just started, with nothing read from the disk.\<close>

definition blank_fat :: "'d \<Rightarrow> 'd disk fat" where
  "blank_fat d = \<lparr>fat_disk = \<lparr>disk_dev = d,
       disk_id = \<lparr>id_valid = False, id_num_sectors = 0, id_cylinders = 0, id_heads = 0, id_spt = 0,
                  id_model_number = replicate 41 NUL\<rparr>,
       disk_mbr = \<lparr>partition_entry = replicate 4 \<lparr>mpe_valid = False, mpe_bootable = False,
                     mpe_starting_sec_lba = 0, mpe_num_secs = 0\<rparr>, bootable_partition_found = False\<rparr>\<rparr>,
     buf_sec = replicate 512 0, fat_partition_num = 0, starting_clu_sec_num = 0, starting_fat_sec_num = 0,
     fat_vid = \<lparr>vid_bytes_per_sector = 0, vid_sectors_per_cluster = 0, vid_reserved_sectors = 0, vid_num_fats = 0,
       vid_max_root_entries = 0, vid_sectors_per_fat = 0, vid_vol_label = replicate 12 NUL,
       vid_type = replicate 9 NUL, vid_signature = 0\<rparr>\<rparr>"

definition blank_shell :: "'d \<Rightarrow> 'd shell" where
  "blank_shell d = \<lparr>sh_parser = blank_parser, sh_vars = blank_table, sh_fat = blank_fat d\<rparr>"

lemma blank_token_ok: "token_ok blank_token"
  by (simp add: blank_token_def token_ok_def TOKEN_STR_LEN_MAX_def)

lemma blank_shell_ok: "shell_ok (blank_shell d)"
  by (simp add: shell_ok_def blank_shell_def blank_parser_def blank_lexer_def blank_token_ok blank_table_ok
      SYNTAX_VEC_LEN_def list_all_iff)

theorem shell_line_correct_witness:
  "\<exists>ps. shell_line model_pc [] (\<lambda>i. blank_token) (''boot'' @ [NUL]) (blank_shell (dev quiet_machine))
     = Some ([''no command '' @ [QUOTE] @ ''boot'' @ [QUOTE] @ '' found'' @ [LF]], (blank_shell (dev quiet_machine))\<lparr>sh_parser := ps\<rparr>)"
proof -
  let ?ws = "[(0 :: nat, W_ident ''boot'')]"
  have "char_is_alphanum c" if "c \<in> set ''oot''" for c
    using that by (auto simp: char_is_alphanum_def char_is_alpha_def char_in_def schar_def)
  moreover have "char_is_alpha (CHR ''b'')" by (simp add: char_is_alpha_def char_in_def schar_def)
  ultimately have w: "list_all (\<lambda>(k, w). word_ok w) ?ws" by (simp add: TOKEN_STR_LEN_MAX_def)
  have sep: "separated ?ws" by (simp add: separated_def)
  have junk: "\<forall>i. token_ok ((\<lambda>i. blank_token) i)" by (simp add: blank_token_ok)
  have len: "length (ps_vec (sh_parser (blank_shell (dev quiet_machine)))) = SYNTAX_VEC_LEN"
    by (simp add: blank_shell_def blank_parser_def SYNTAX_VEC_LEN_def)
  have "command_named ''boot'' = None" by (simp add: command_named_def cmd_table_def add_cmd_def)
  with shell_line_correct [OF w sep junk len, of model_pc "[]" 0 "[]"] show ?thesis
    by (auto simp: answer_def written_line_def)
qed

end
