(* ===== verification/Shell_Types.thy ===== *)
theory Shell_Types
  imports Shell_Props
begin

text \<open>
  The types of the shell: a token of a textual type holds a terminated string in its union, and a used
  variable has one of the three types and, if it is a string, a terminated value. Lexer, parser and commands
  keep these types for every line, also for those that are no written lines of the language, and on typed
  data no command of the shell faults.
\<close>

section \<open>Types\<close>

definition token_typed :: "token \<Rightarrow> bool" where
  "token_typed t \<longleftrightarrow> token_ok t \<and> (tok_type t \<in> {IDENTIFIER, VARIABLE, LSTRING} \<longrightarrow> NUL \<in> set (tok_u t))"

definition entry_typed :: "var_entry \<Rightarrow> bool" where
  "entry_typed e \<longleftrightarrow> (ve_used e \<longrightarrow> ve_type e \<in> {TYPE_STR, TYPE_INT, TYPE_BOOL} \<and>
     (ve_type e = TYPE_STR \<longrightarrow> NUL \<in> set (ve_str_val e)))"

definition parser_typed :: "parser \<Rightarrow> bool" where
  "parser_typed ps \<longleftrightarrow> length (ps_vec ps) = SYNTAX_VEC_LEN \<and> list_all token_typed (ps_vec ps) \<and>
     token_typed (lx_token (ps_lexer ps))"

definition shell_typed :: "'d shell \<Rightarrow> bool" where
  "shell_typed s \<longleftrightarrow> parser_typed (sh_parser s) \<and> table_ok (sh_vars s) \<and> list_all entry_typed (sh_vars s)"

section \<open>Lexer and parser\<close>

lemma token_typed_simps:
  "token_ok t \<Longrightarrow> token_typed (token_set_error t e)" "token_ok t \<Longrightarrow> token_typed (token_set_eoi t)"
  "token_ok t \<Longrightarrow> token_typed (token_set_unknown t)" "token_ok t \<Longrightarrow> token_typed (token_init t)"
  "token_ok t \<Longrightarrow> token_typed (put_word n (t\<lparr>tok_type := LUINTEGER\<rparr>))"
  by (simp_all add: token_typed_def token_set_error_def token_set_eoi_def token_set_unknown_def token_init_def token_ok_put_word)

lemma set_strlex_typed:
  assumes "set_strlex t ty line lo hi = Some t'" "token_ok t"
  shows "token_typed t'"
proof (cases "lexeme_len lo hi > TOKEN_STR_LEN_MAX")
  case True
  then show ?thesis using assms token_typed_simps(1) by (auto simp: set_strlex_def)
next
  case False
  then obtain u where u: "strncpy (tok_u t) (drop lo line) (lexeme_len lo hi) = Some u" "lexeme_len lo hi < length u"
    "t' = t\<lparr>tok_type := ty, tok_u := u[lexeme_len lo hi := NUL]\<rparr>"
    using assms(1) by (auto simp: set_strlex_def split: option.splits if_splits)
  then have "NUL \<in> set (u[lexeme_len lo hi := NUL])" by (simp add: set_update_memI)
  then show ?thesis using u assms(2) strncpy_length [OF u(1)] by (simp add: token_typed_def token_ok_def)
qed

lemma set_luinteger_typed:
  "set_luinteger t base conv line lo hi = Some t' \<Longrightarrow> token_ok t \<Longrightarrow> token_typed t'"
  using token_typed_simps(1,5) by (auto simp: set_luinteger_def split: option.splits)

lemma set_luinteger_cases_typed:
  assumes "token_ok t"
  shows "token_set_luinteger8 t line lo hi = Some t' \<Longrightarrow> token_typed t'"
    "token_set_luinteger10 t line lo hi = Some t' \<Longrightarrow> token_typed t'"
    "token_set_luinteger16 t line lo hi = Some t' \<Longrightarrow> token_typed t'"
  using set_luinteger_typed [OF _ assms] token_typed_simps(1) [OF assms]
  by (auto simp: token_set_luinteger8_def token_set_luinteger10_def token_set_luinteger16_def split: if_splits)

lemma select_process_typed:
  assumes "select_process c junk lx = Some (t, lx')" "token_ok junk"
  shows "token_typed t"
proof -
  have init: "token_ok (token_init junk)" using assms(2) by (simp add: token_init_def)
  have str: "map_option (\<lambda>t. (t, g)) (set_strlex u ty line lo hi) = Some (t, lx') \<Longrightarrow> token_ok u \<Longrightarrow> token_typed t"
    for u ty line lo hi g by (auto dest: set_strlex_typed)
  have id: "process_identifier junk lx = Some (t, lx') \<Longrightarrow> token_typed t"
    by (auto simp: process_identifier_def token_set_identifier_def split: option.splits dest: set_strlex_typed [OF _ init])
  have var: "process_variable junk lx = Some (t, lx') \<Longrightarrow> token_typed t"
    by (auto simp: process_variable_def token_set_variable_def split: option.splits dest: set_strlex_typed [OF _ assms(2)])
  have lstr: "process_string junk lx = Some (t, lx') \<Longrightarrow> token_typed t"
    by (auto simp: process_string_def token_set_lstring_def split: option.splits dest: set_strlex_typed [OF _ assms(2)])
  have num: "process_luinteger junk lx = Some (t, lx') \<Longrightarrow> token_typed t"
    using token_typed_simps(1) [OF assms(2)]
    by (auto simp: process_luinteger_def Let_def split: option.splits if_splits num_base.splits
        dest: set_luinteger_cases_typed [OF assms(2)])
  have others: "process_eoi junk lx = Some (t, lx') \<Longrightarrow> token_typed t" "process_unknown junk lx = Some (t, lx') \<Longrightarrow> token_typed t"
    using token_typed_simps(2,3) [OF assms(2)] by (auto simp: process_eoi_def process_unknown_def split: option.splits)
  show ?thesis using assms(1) id var lstr num others by (auto simp: select_process_def split: if_splits)
qed

lemma lexer_process_typed:
  assumes "lexer_process junk lx = Some lx'" "token_ok junk" "token_typed (lx_token lx)"
  shows "token_typed (lx_token lx')"
  using assms select_process_typed [OF _ assms(2)]
  by (auto simp: lexer_process_def Let_def set_token_def split: if_splits option.splits)

lemma parse_from_typed:
  assumes "parse_from pj i n t ps = Some (r, ps')" "\<forall>i. token_ok (pj i)" "parser_typed ps"
    and "n = 0 \<longrightarrow> \<not> token_is_eoi t" "i + n = SYNTAX_VEC_LEN"
  shows "parser_typed ps' \<and> (\<forall>u. r = Some u \<longrightarrow> token_is_eoi u \<longrightarrow> (\<exists>j < SYNTAX_VEC_LEN. token_is_eoi (ps_vec ps' ! j)))"
  using assms
proof (induction pj i n t ps rule: parse_from.induct)
  case (2 junk i n t ps)
  obtain lx where lx: "lexer_process (junk i) (ps_lexer ps) = Some lx"
    using 2(2) by (auto split: option.splits)
  have ty: "token_typed (lx_token lx)"
    using lexer_process_typed [OF lx] 2(3,4) by (auto simp: parser_typed_def)
  let ?u = "lx_token lx" and ?lx = "lx\<lparr>lx_token_available := False\<rparr>"
  let ?ps = "ps\<lparr>ps_lexer := ?lx, ps_vec := (ps_vec ps)[i := ?u]\<rparr>"
  have early: "parser_typed (ps\<lparr>ps_lexer := l, ps_err := e\<rparr>)" if "lx_token l = lx_token lx" for l e
    using 2(4) ty that by (simp add: parser_typed_def)
  have i: "i < SYNTAX_VEC_LEN" using 2(6) by simp
  have stored: "parser_typed ?ps"
    using 2(4) ty i by (auto simp: parser_typed_def list_all_length nth_list_update)
  show ?case
  proof (cases "lexer_has_token lx \<and> \<not> token_is_error ?u \<and> \<not> token_is_unknown ?u \<and> \<not> token_is_eoi ?u")
    case True
    then have run: "parse_from junk (Suc i) n ?u ?ps = Some (r, ps')"
      using 2(2) lx by (simp add: lexer_get_token_def Let_def)
    show ?thesis
      using True stored 2(3,6) run lx
      by (intro 2(1) [OF lx, of "(?u, ?lx)" ?u ?lx]) (simp_all add: lexer_get_token_def)
  next
    case False
    show ?thesis using False i 2(2,4) lx early stored
      by (auto simp: lexer_get_token_def Let_def parser_typed_def split: if_splits intro!: exI [of _ i])
  qed
qed auto

lemma parser_do_typed:
  assumes "parser_do pj (Some buf) ps = Some (ok, ps')" "\<forall>i. token_ok (pj i)" "parser_typed ps"
  shows "parser_typed ps'" "ok \<Longrightarrow> \<exists>j < SYNTAX_VEC_LEN. token_is_eoi (ps_vec ps' ! j)"
proof -
  let ?ps = "parser_reset (ps\<lparr>ps_lexer := snd (lexer_init (Some buf) (snd (lexer_init (Some buf) (ps_lexer ps))))\<rparr>)"
  obtain r ps1 where r: "parse_from pj 0 SYNTAX_VEC_LEN (pj SYNTAX_VEC_LEN) ?ps = Some (r, ps1)"
    "ok = (case r of None \<Rightarrow> False | Some t \<Rightarrow> token_is_eoi t)" "ps_vec ps' = ps_vec ps1" "ps_lexer ps' = ps_lexer ps1"
    using assms(1) by (auto simp: parser_do_def lexer_init_def Let_def split: option.splits if_splits)
  have "token_ok t \<Longrightarrow> token_typed (token_init t)" for t by (rule token_typed_simps)
  then have "parser_typed ?ps"
    using assms(3) by (auto simp: parser_typed_def parser_reset_def lexer_init_def list_all_length token_typed_def)
  from parse_from_typed [OF r(1) assms(2) this]
  show "parser_typed ps'" "ok \<Longrightarrow> \<exists>j < SYNTAX_VEC_LEN. token_is_eoi (ps_vec ps' ! j)"
    using r(2-4) by (auto simp: parser_typed_def SYNTAX_VEC_LEN_def split: option.splits)
qed

section \<open>The table of variables\<close>

lemma set_entry_value_typed:
  assumes "set_entry_value ty v e = Some e'" "ty \<in> {TYPE_STR, TYPE_INT, TYPE_BOOL}" "length (ve_str_val e) = VAR_VAL_STR_LEN_MAX + 1"
  shows "entry_typed e'"
proof (cases "ty = TYPE_STR")
  case True
  then obtain s where s: "strncpy (ve_str_val e) (token_str v) VAR_VAL_STR_LEN_MAX = Some s"
    "e' = e\<lparr>ve_type := ty, ve_str_val := s[VAR_VAL_STR_LEN_MAX := NUL]\<rparr>"
    using assms(1) by (auto simp: set_entry_value_def split: option.splits)
  then have "length s = VAR_VAL_STR_LEN_MAX + 1" using strncpy_length [OF s(1)] assms(3) by simp
  then have "NUL \<in> set (s[VAR_VAL_STR_LEN_MAX := NUL])" by (simp add: set_update_memI)
  then show ?thesis using s(2) True by (simp add: entry_typed_def)
next
  case False
  then show ?thesis using assms(1,2)
    by (auto simp: set_entry_value_def entry_typed_def var_consts split: if_splits)
qed

lemma var_set_entry_cases:
  assumes "var_set_entry n v tab = Some (rc, tab')"
  obtains (kept) "tab' = tab"
    | (found) i e where "get_variable_token_type n \<noteq> -1" "get_entry tab (tl (token_str n)) (get_variable_token_type n) = Some (Some i)"
        "set_entry_value (get_variable_token_type n) v (tab ! i) = Some e" "tab' = tab[i := e]"
    | (new) i e1 e where "get_variable_token_type n \<noteq> -1" "free_from tab 0 = Some i"
        "set_entry_name n (tab[i := (tab ! i)\<lparr>ve_used := True\<rparr>] ! i) = Some e1"
        "set_entry_value (get_variable_token_type n) v e1 = Some e" "tab' = tab[i := (tab ! i)\<lparr>ve_used := True\<rparr>, i := e]"
proof (cases "\<not> token_is_variable n \<or> get_variable_token_type n = -1 \<or> (get_variable_token_type n = TYPE_STR \<and> \<not> token_is_lstring v) \<or>
    ((get_variable_token_type n = TYPE_INT \<or> get_variable_token_type n = TYPE_BOOL) \<and> \<not> token_is_luinteger v)")
  case True
  then have "var_set_entry n v tab = Some (1, tab)" by (auto simp: var_set_entry_def Let_def)
  with assms that(1) show thesis by simp
next
  case False
  let ?ty = "get_variable_token_type n"
  have eq: "var_set_entry n v tab = (case get_entry tab (tl (token_str n)) ?ty of
      None \<Rightarrow> None
    | Some (Some i) \<Rightarrow> map_option (\<lambda>e. (0, tab[i := e])) (set_entry_value ?ty v (tab ! i))
    | Some None \<Rightarrow>
        (case get_free_entry tab of
           (None, tab1) \<Rightarrow> Some (1, tab1)
         | (Some i, tab1) \<Rightarrow>
             (case set_entry_name n (tab1 ! i) of
                None \<Rightarrow> None
              | Some e1 \<Rightarrow> map_option (\<lambda>e. (0, tab1[i := e])) (set_entry_value ?ty v e1))))"
    using False unfolding var_set_entry_def Let_def by (simp only: de_Morgan_disj not_not if_False simp_thms)
  consider "get_entry tab (tl (token_str n)) ?ty = None" | i where "get_entry tab (tl (token_str n)) ?ty = Some (Some i)"
    | i where "get_entry tab (tl (token_str n)) ?ty = Some None" "free_from tab 0 = Some i"
    | "get_entry tab (tl (token_str n)) ?ty = Some None" "free_from tab 0 = None" by (metis option.exhaust)
  then show thesis
  proof cases
    case 1
    with assms eq show thesis by simp
  next
    case 2
    with assms eq False that(2) [of i] show thesis by auto
  next
    case 3
    with assms eq False that(3) [of i] show thesis by (auto simp: get_free_entry_def split: option.splits)
  next
    case 4
    with assms eq that(1) show thesis by (simp add: get_free_entry_def)
  qed
qed

lemma var_set_entry_keeps_typed:
  assumes "var_set_entry n v tab = Some (rc, tab')" "list_all entry_ok tab" "list_all entry_typed tab"
  shows "list_all entry_typed tab'"
proof -
  have len: "length (ve_str_val (tab ! i)) = VAR_VAL_STR_LEN_MAX + 1" if "i < length tab" for i
    using assms(2) that by (auto simp: list_all_length entry_ok_def)
  have upd: "list_all entry_typed (tab[i := e])" if "entry_typed e" for i e
    using that assms(3) by (auto simp: list_all_iff dest!: set_update_subset_insert [THEN subsetD])
  have ty: "get_variable_token_type n \<in> {TYPE_STR, TYPE_INT, TYPE_BOOL}" if "get_variable_token_type n \<noteq> -1"
    using that variable_token_type_cases [of n] by auto
  from assms(1) show ?thesis
  proof (cases rule: var_set_entry_cases)
    case (found i e)
    show ?thesis
    proof (cases "i < length tab")
      case True
      then show ?thesis using found(4) upd set_entry_value_typed [OF found(3) ty [OF found(1)] len] by simp
    qed (use found(4) assms(3) in \<open>simp add: list_update_beyond\<close>)
  next
    case (new i e1 e)
    have i: "i < length tab" using free_from_cases [of tab 0] new(2) by simp
    have "ve_str_val e1 = ve_str_val (tab ! i)"
      using new(3) i by (auto simp: set_entry_name_def split: option.splits)
    then have "entry_typed e" using len [OF i] by (intro set_entry_value_typed [OF new(4) ty [OF new(1)]]) simp
    then show ?thesis using new(5) upd by simp
  qed (use assms(3) in simp)
qed

lemma sigil_variable_token:
  assumes "token_typed t" "token_is_variable t" "get_variable_token_type t \<noteq> -1"
  shows "\<exists>n. variable_token t n (get_variable_token_type t)"
proof -
  have ok: "token_ok t" "NUL \<in> set (token_str t)"
    using assms(1,2) by (simp_all add: token_typed_def token_is_variable_def token_str_def)
  then have cs: "c_string (token_str t) (cstr (token_str t))" by (intro cstr_c_string)
  have "token_str t ! 0 \<noteq> NUL"
    using assms(3) by (auto simp: get_variable_token_type_def Let_def sigil_defs split: if_splits)
  moreover have "token_str t \<noteq> []" using ok(2) by auto
  ultimately obtain n where "cstr (token_str t) = token_str t ! 0 # n"
    by (cases "token_str t") (auto simp: cstr_def)
  then show ?thesis using ok(1) cs assms(2,3) by (auto simp: variable_token_def)
qed

lemma typed_text:
  assumes "token_typed t" "tok_type t \<in> {IDENTIFIER, VARIABLE, LSTRING}"
  shows "c_string (token_str t) (cstr (token_str t))" "length (cstr (token_str t)) \<le> 15"
proof -
  have n: "NUL \<in> set (token_str t)" "length (token_str t) = 16"
    using assms by (auto simp: token_typed_def token_ok_def token_str_def TOKEN_STR_LEN_MAX_def)
  show c: "c_string (token_str t) (cstr (token_str t))" by (rule cstr_c_string [OF n(1)])
  show "length (cstr (token_str t)) \<le> 15" using c_string_length [OF c] n(2) by simp
qed

lemma var_set_entry_typed:
  assumes "table_ok tab" "list_all entry_typed tab" "token_typed n" "token_typed v"
  shows "\<exists>rc tab'. var_set_entry n v tab = Some (rc, tab') \<and> table_ok tab' \<and> list_all entry_typed tab'"
proof -
  let ?ty = "get_variable_token_type n"
  have "\<exists>rc tab'. var_set_entry n v tab = Some (rc, tab') \<and> table_ok tab'"
  proof (cases "token_is_variable n \<and> ?ty \<noteq> -1 \<and> (?ty = TYPE_STR \<longrightarrow> token_is_lstring v) \<and>
      (?ty = TYPE_INT \<or> ?ty = TYPE_BOOL \<longrightarrow> token_is_luinteger v)")
    case True
    then obtain name where name: "variable_token n name ?ty" using sigil_variable_token [OF assms(3)] by blast
    have "token_ok v" using assms(4) by (simp add: token_typed_def)
    moreover have "\<exists>x. token_value ?ty v x"
    proof -
      consider "?ty = TYPE_STR" | "?ty = TYPE_INT" | "?ty = TYPE_BOOL" using variable_token_type_cases [of n] True by auto
      then show ?thesis
      proof cases
        case 1
        then have "token_value ?ty v (V_str (cstr (token_str v)))"
          using True typed_text [OF assms(4)] by (simp add: token_is_lstring_def VAR_VAL_STR_LEN_MAX_def)
        then show ?thesis ..
      next
        case 2
        then have "token_value ?ty v (V_int (token_integer v))" using True by simp
        then show ?thesis ..
      next
        case 3
        then have "token_value ?ty v (V_bool (token_boolean v))" using True by simp
        then show ?thesis ..
      qed
    qed
    ultimately show ?thesis using var_set_entry_spec [OF assms(1) name] by blast
  next
    case False
    then have "var_set_entry n v tab = Some (1, tab)" by (auto simp: var_set_entry_def Let_def)
    then show ?thesis using assms(1) by blast
  qed
  then show ?thesis
    using var_set_entry_keeps_typed [OF _ _ assms(2)] assms(1) unfolding table_ok_def by blast
qed

section \<open>Commands\<close>

lemma display_var_returns:
  assumes "entry_ok e" "entry_typed e" "ve_used e"
  shows "\<exists>ts. display_var e out = Some (0, ts)"
proof -
  have n: "c_string (ve_name e) (cstr (ve_name e))" "length (cstr (ve_name e)) \<le> 15"
  proof -
    show c: "c_string (ve_name e) (cstr (ve_name e))" using assms(1,3) by (intro cstr_c_string) (simp add: entry_ok_def)
    show "length (cstr (ve_name e)) \<le> 15" using c_string_length [OF c] assms(1) by (simp add: entry_ok_def var_consts)
  qed
  have ty: "c_string (type_str (ve_type e)) (cstr (type_str (ve_type e)))" "length (cstr (type_str (ve_type e))) \<le> 4"
    by (simp_all add: type_str_def cstr_def)
  have name: "\<exists>t. kprintf (''%s(%s)'' @ [TAB, NUL]) [Arg_str (Some (ve_name e)), Arg_str (Some (type_str (ve_type e)))] = Some t"
    using n ty by (simp add: run_format)
  have nl: "\<exists>t. kprintf [LF, NUL] [] = Some t" by (simp add: run_format)
  consider (str) "ve_type e = TYPE_STR" "NUL \<in> set (ve_str_val e)" | (int) "ve_type e = TYPE_INT" | (bool) "ve_type e = TYPE_BOOL"
    using assms(2,3) by (auto simp: entry_typed_def)
  then have "\<exists>t. (if ve_type e = TYPE_STR then kprintf (QUOTE # ''%s'' @ [QUOTE, NUL]) [Arg_str (Some (ve_str_val e))]
         else if ve_type e = TYPE_INT then kprintf (''0x%x'' @ [NUL]) [Arg_int (ve_int_val e)]
         else if ve_type e = TYPE_BOOL then
           kprintf (''%s'' @ [NUL]) [Arg_str (Some ((if ve_bool_val e then ''true'' else ''false'') @ [NUL]))]
         else kprintf (''???'' @ [NUL]) []) = Some t"
  proof cases
    case str
    then have c: "c_string (ve_str_val e) (cstr (ve_str_val e))" by (intro cstr_c_string)
    have "length (cstr (ve_str_val e)) \<le> 15" using c_string_length [OF c] assms(1) by (simp add: entry_ok_def var_consts)
    then show ?thesis using str(1) c by (simp add: run_format)
  next
    case int
    have "length (numeral_text True 16 (unat (ve_int_val e))) \<le> 8"
      using unat_u32_bound [of "ve_int_val e"] by (intro numeral_text_length_bound) simp_all
    then show ?thesis using int by (simp add: run_format hex_text var_consts)
  next
    case bool
    have c: "c_string (''true'' @ [NUL]) ''true''" "c_string (''false'' @ [NUL]) ''false''" by simp_all
    show ?thesis using bool print_s(1) [OF c(1)] print_s(1) [OF c(2)] by (simp add: var_consts)
  qed
  then show ?thesis using name nl by (auto simp: display_var_def)
qed

lemma cmd_vars_returns:
  assumes "list_all entry_ok tab" "list_all entry_typed tab"
  shows "\<exists>ts. var_foreach display_var tab out = Some (0, ts)"
  using assms
proof (induction tab arbitrary: out)
  case (Cons e es)
  show ?case
  proof (cases "ve_used e")
    case True
    then obtain ts where "display_var e out = Some (0, ts)" using display_var_returns Cons.prems by auto
    then show ?thesis using Cons True by simp
  qed (use Cons in simp)
qed simp

lemma foreach_returns: "\<forall>e \<in> set es. \<forall>s. \<exists>r. f e s = Some r \<Longrightarrow> \<exists>s'. foreach_cmd_entry f es s = Some s'"
  by (induction es arbitrary: s) (fastforce split: option.split)+

lemma cmd_lscmd_returns: "\<exists>out. cmd_lscmd = Some (0, out)"
proof -
  have "\<forall>e \<in> set cmd_table. \<forall>out. \<exists>r. display_cmd_name e out = Some r"
    using cmd_table_cstr(1,4) print_s(2) by (fastforce simp: display_cmd_name_def print_on_def)
  from foreach_returns [OF this] show ?thesis by (auto simp: cmd_lscmd_def)
qed

lemma cmd_help_returns:
  assumes "token_typed t"
  shows "\<exists>rc out. cmd_help t = Some (rc, out)"
proof (cases "token_is_identifier t")
  case True
  then have c: "c_string (token_str t) (cstr (token_str t))" "length (cstr (token_str t)) \<le> 15"
    using typed_text [OF assms] by (simp_all add: token_is_identifier_def)
  show ?thesis
  proof (cases "command_named (cstr (token_str t))")
    case None
    then show ?thesis using True c print_texts by (simp add: cmd_help_def get_cmd_entry_named [OF c(1)] print_texts)
  qed (use cmd_help_named [OF True c(1)] in blast)
next
  case False
  have "\<exists>x. kprintf (''wrong parameters, not a command name'' @ [LF, NUL]) [] = Some x" by (simp add: run_format)
  then show ?thesis using False by (auto simp: cmd_help_def)
qed

text \<open>\<open>show\<close> prints the union of any token that names no variable as a string.\<close>

lemma cmd_show_returns:
  assumes "table_ok tab" "token_typed t" "NUL \<in> set (token_str t)"
  shows "\<exists>rc out. cmd_show t tab = Some (rc, out)"
proof -
  have "\<exists>r. var_get_entry t tab = Some r"
  proof (cases "token_is_variable t \<and> get_variable_token_type t \<noteq> -1")
    case True
    then obtain n where "variable_token t n (get_variable_token_type t)" using sigil_variable_token [OF assms(2)] by blast
    from var_get_entry_spec [OF assms(1) this] show ?thesis by blast
  qed (auto simp: var_get_entry_def Let_def)
  moreover have c: "c_string (token_str t) (cstr (token_str t))" by (rule cstr_c_string [OF assms(3)])
  moreover have "length (token_str t) = 16" using assms(2) by (simp add: token_typed_def token_ok_def token_str_def TOKEN_STR_LEN_MAX_def)
  then have "length (cstr (token_str t)) \<le> 900" using c_string_length [OF c] by simp
  then have "\<exists>x. kprintf (''no variable with the name '' @ QUOTE # ''%s'' @ [QUOTE, LF, NUL]) [Arg_str (Some (token_str t))] = Some x"
    using c by (simp add: run_format)
  ultimately show ?thesis by (auto simp: cmd_show_def split: option.split)
qed

lemma show_integer_reads_past_token:
  assumes "token_is_luinteger t" "NUL \<notin> set (tok_u t)"
  shows "cmd_show t tab = None"
proof -
  have "strlen_loop u = None" if "NUL \<notin> set u" for u
    using that by (induction u) auto
  then have "strlen (Some (token_str t)) = None" using assms(2) by (simp add: token_str_def)
  then have "kvsprintf_from (CHR ''%'' # CHR ''s'' # r) k = None" if "kv_args k = [Arg_str (Some (token_str t))]" for r k
    using that by (simp add: run_directive out_string_def)
  moreover have "\<not> token_is_variable t" using assms(1) by (simp add: token_is_luinteger_def token_is_variable_def)
  ultimately show ?thesis
    by (simp add: cmd_show_def var_get_entry_def kprintf_def kvsprintf_def format_char plain_def QUOTE_def)
qed

section \<open>Lines\<close>

lemma data_len_cases:
  "data_len_from sx i n = - 1 \<and> (\<forall>j. i \<le> j \<longrightarrow> j < i + n \<longrightarrow> \<not> token_is_eoi (sx ! j)) \<or>
   (\<exists>j. i \<le> j \<and> j < i + n \<and> token_is_eoi (sx ! j) \<and> data_len_from sx i n = of_nat j)"
proof (induction sx i n rule: data_len_from.induct)
  case (2 sx i n)
  show ?case
  proof (cases "token_is_eoi (sx ! i)")
    case False
    from 2 [OF False] show ?thesis
    proof (elim disjE exE conjE)
      assume "data_len_from sx (Suc i) n = - 1" "\<forall>j. Suc i \<le> j \<longrightarrow> j < Suc i + n \<longrightarrow> \<not> token_is_eoi (sx ! j)"
      then show ?thesis using False by (metis add_Suc_right add_Suc_shift data_len_from.simps(2) le_eq_less_or_eq Suc_leI)
    next
      fix j assume "Suc i \<le> j" "j < Suc i + n" "token_is_eoi (sx ! j)" "data_len_from sx (Suc i) n = of_nat j"
      then show ?thesis using False by (intro disjI2 exI [of _ j]) simp
    qed
  qed auto
qed simp

text \<open>The commands that show the data of the disk, whose texts are bounded by nothing in memory.\<close>

definition disk_cmds :: "cmd_func set" where
  "disk_cmds = {Cmd_ataid, Cmd_mbr, Cmd_vid, Cmd_ls}"

lemma call_cmd_typed:
  assumes "shell_typed s" "call_cmd io junk f n (ps_vec (sh_parser s)) s = Some (rc, out, s')"
  shows "shell_typed s'"
proof -
  have tk: "token_typed (ps_vec (sh_parser s) ! 1)" "token_typed (ps_vec (sh_parser s) ! 2)"
    using assms(1) by (auto simp: shell_typed_def parser_typed_def list_all_length SYNTAX_VEC_LEN_def)
  have tab: "table_ok (sh_vars s)" "list_all entry_typed (sh_vars s)" using assms(1) by (simp_all add: shell_typed_def)
  obtain rc' tab' where set: "var_set_entry (ps_vec (sh_parser s) ! 1) (ps_vec (sh_parser s) ! 2) (sh_vars s) = Some (rc', tab')"
    "table_ok tab'" "list_all entry_typed tab'"
    using var_set_entry_typed [OF tab tk] by blast
  have kept: "shell_typed (s\<lparr>sh_fat := fs\<rparr>)" "shell_typed (s\<lparr>sh_vars := tab'\<rparr>)" for fs
    using assms(1) set(2,3) by (simp_all add: shell_typed_def)
  have p1: "map_option (\<lambda>(rc, out). (rc, out, s)) x = Some (rc, out, s') \<Longrightarrow> shell_typed s'" for x :: "(int \<times> char list list) option"
    using assms(1) by (cases x) auto
  have p2: "map_option (\<lambda>(rc, out, fs). (rc, out, s\<lparr>sh_fat := fs\<rparr>)) x = Some (rc, out, s') \<Longrightarrow> shell_typed s'"
    for x :: "(int \<times> char list list \<times> 'a disk fat) option"
    using kept(1) by (cases x) auto
  have "call_cmd0 io junk f s = Some (rc, out, s') \<Longrightarrow> shell_typed s'"
    unfolding call_cmd0_def by (cases f; simp only: cmd_func.case; (erule p1 | erule p2 | simp))
  moreover have "call_cmd1 f (ps_vec (sh_parser s) ! 1) s = Some (rc, out, s') \<Longrightarrow> shell_typed s'"
    unfolding call_cmd1_def by (cases f; simp only: cmd_func.case; (erule p1 | simp))
  moreover have "call_cmd2 f (ps_vec (sh_parser s) ! 1) (ps_vec (sh_parser s) ! 2) s = Some (rc, out, s') \<Longrightarrow> shell_typed s'"
    unfolding call_cmd2_def cmd_set_def set(1) using kept(2) by (cases f) auto
  moreover have "shell_typed s" by (rule assms(1))
  ultimately show ?thesis using assms(2) unfolding call_cmd_def by (auto simp only: split: if_splits)
qed

lemma cmd_table_calls:
  "map (\<lambda>e. (cmd_fun e, cmd_arity e)) cmd_table = [(Cmd_lscmd, 0), (Cmd_help, 1), (Cmd_set, 2), (Cmd_show, 1), (Cmd_vars, 0),
     (Cmd_ataid, 0), (Cmd_mbr, 0), (Cmd_vid, 0), (Cmd_ls, 0)]"
  by (simp add: cmd_table_def add_cmd_def)

lemma call_cmd_returns:
  assumes "shell_typed s" "cte \<in> set cmd_table" "cmd_fun cte \<notin> disk_cmds"
    and "cmd_fun cte = Cmd_show \<longrightarrow> NUL \<in> set (token_str (ps_vec (sh_parser s) ! 1))"
  shows "\<exists>rc out s'. call_cmd io junk (cmd_fun cte) (cmd_arity cte) (ps_vec (sh_parser s)) s = Some (rc, out, s')"
proof -
  have tk: "token_typed (ps_vec (sh_parser s) ! 1)" "token_typed (ps_vec (sh_parser s) ! 2)"
    using assms(1) by (auto simp: shell_typed_def parser_typed_def list_all_length SYNTAX_VEC_LEN_def)
  have tab: "table_ok (sh_vars s)" "list_all entry_typed (sh_vars s)" "list_all entry_ok (sh_vars s)"
    using assms(1) by (simp_all add: shell_typed_def table_ok_def)
  have "(cmd_fun cte, cmd_arity cte) \<in> set (map (\<lambda>e. (cmd_fun e, cmd_arity e)) cmd_table)" using assms(2) by simp
  then consider (c0) "cmd_fun cte = Cmd_lscmd" "cmd_arity cte = 0" | (c1) "cmd_fun cte = Cmd_help" "cmd_arity cte = 1"
    | (c2) "cmd_fun cte = Cmd_set" "cmd_arity cte = 2" | (c3) "cmd_fun cte = Cmd_show" "cmd_arity cte = 1"
    | (c4) "cmd_fun cte = Cmd_vars" "cmd_arity cte = 0"
    using assms(3) unfolding cmd_table_calls disk_cmds_def by auto
  then show ?thesis
  proof cases
    case c0
    then show ?thesis using cmd_lscmd_returns by (auto simp: call_cmd_def call_cmd0_def)
  next
    case c1
    then show ?thesis using cmd_help_returns [OF tk(1)] by (auto simp: call_cmd_def call_cmd1_def)
  next
    case c2
    then show ?thesis using var_set_entry_typed [OF tab(1,2) tk] by (auto simp: call_cmd_def call_cmd2_def cmd_set_def)
  next
    case c3
    then show ?thesis using cmd_show_returns [OF tab(1) tk(1)] assms(4) by (auto simp: call_cmd_def call_cmd1_def)
  next
    case c4
    then show ?thesis using cmd_vars_returns [OF tab(3,2), of "[]"] by (auto simp: call_cmd_def call_cmd0_def cmd_vars_def)
  qed
qed

section \<open>Lines\<close>

lemma identifier_parsed:
  assumes "parser_do pj (Some buf) (sh_parser s) = Some (True, ps)" "\<forall>i. token_ok (pj i)" "shell_typed s"
    and "token_is_identifier (ps_vec ps ! 0)"
  obtains n where "c_string (token_str (ps_vec ps ! 0)) (cstr (token_str (ps_vec ps ! 0)))"
    "length (cstr (token_str (ps_vec ps ! 0))) \<le> 15" "parser_data_len (ps_vec ps) = of_nat n" "0 < n" "n \<le> 3"
    "token_typed (ps_vec ps ! 1)" "shell_typed (s\<lparr>sh_parser := ps\<rparr>)"
proof -
  have "parser_typed (sh_parser s)" using assms(3) by (simp add: shell_typed_def)
  note ty = parser_do_typed [OF assms(1,2) this]
  have tk: "token_typed (ps_vec ps ! 0)" "token_typed (ps_vec ps ! 1)"
    using ty(1) by (auto simp: parser_typed_def list_all_length SYNTAX_VEC_LEN_def)
  have first: "\<not> token_is_eoi (ps_vec ps ! 0)" using assms(4) by (simp add: token_is_identifier_def token_is_eoi_def)
  obtain j where "j < SYNTAX_VEC_LEN" "token_is_eoi (ps_vec ps ! j)" using ty(2) by blast
  then obtain n where n: "n < SYNTAX_VEC_LEN" "token_is_eoi (ps_vec ps ! n)" "parser_data_len (ps_vec ps) = of_nat n"
    using data_len_cases [of "ps_vec ps" 0 SYNTAX_VEC_LEN] by (auto simp: parser_data_len_def)
  show thesis
  proof (rule that [OF _ _ n(3) _ _ tk(2)])
    show "0 < n" "n \<le> 3" using n first by (auto simp: SYNTAX_VEC_LEN_def intro: gr0I)
    show "shell_typed (s\<lparr>sh_parser := ps\<rparr>)" using ty(1) assms(3) by (simp add: shell_typed_def)
  qed (use typed_text [OF tk(1)] assms(4) in \<open>simp_all add: token_is_identifier_def\<close>)
qed

text \<open>A line whose first word is an identifier.\<close>

lemma identifier_line_typed:
  assumes "parser_do pj (Some buf) (sh_parser s) = Some (True, ps)" "\<forall>i. token_ok (pj i)" "shell_typed s"
    and "token_is_identifier (ps_vec ps ! 0)"
  shows "shell_line io junk pj buf s = Some (out, s') \<Longrightarrow> shell_typed s'"
    and "shell_line io junk pj buf s = None \<Longrightarrow> \<exists>cte. command_named (cstr (token_str (ps_vec ps ! 0))) = Some cte \<and>
      (cmd_fun cte \<in> disk_cmds \<or> cmd_fun cte = Cmd_show \<and> tok_type (ps_vec ps ! 1) \<notin> {IDENTIFIER, VARIABLE, LSTRING})"
proof -
  obtain n where n: "c_string (token_str (ps_vec ps ! 0)) (cstr (token_str (ps_vec ps ! 0)))"
    "length (cstr (token_str (ps_vec ps ! 0))) \<le> 15" "parser_data_len (ps_vec ps) = of_nat n" "0 < n" "n \<le> 3"
    and tk: "token_typed (ps_vec ps ! 1)" and ps: "shell_typed (s\<lparr>sh_parser := ps\<rparr>)"
    using assms by (rule identifier_parsed)
  note ans = answer_identifier [OF assms(1,4) n, of io junk]
  show "shell_typed s'" if "shell_line io junk pj buf s = Some (out, s')"
    using that ps call_cmd_typed [OF ps] unfolding ans by (auto split: option.splits if_splits)
  assume none: "shell_line io junk pj buf s = None"
  then obtain cte where cte: "command_named (cstr (token_str (ps_vec ps ! 0))) = Some cte"
    "call_cmd io junk (cmd_fun cte) (cmd_arity cte) (ps_vec ps) (s\<lparr>sh_parser := ps\<rparr>) = None"
    unfolding ans by (auto split: option.splits if_splits)
  have "cmd_fun cte \<in> disk_cmds \<or> cmd_fun cte = Cmd_show \<and> NUL \<notin> set (token_str (ps_vec ps ! 1))"
    using call_cmd_returns [OF ps conjunct1 [OF command_named_in [OF cte(1)]], of io junk] cte(2) by auto
  then show "\<exists>cte. command_named (cstr (token_str (ps_vec ps ! 0))) = Some cte \<and>
      (cmd_fun cte \<in> disk_cmds \<or> cmd_fun cte = Cmd_show \<and> tok_type (ps_vec ps ! 1) \<notin> {IDENTIFIER, VARIABLE, LSTRING})"
    using tk cte(1) by (auto simp: token_typed_def token_str_def)
qed

text \<open>Every other parsed line is answered with a message.\<close>

lemma other_line_answered:
  assumes "parser_do pj (Some buf) (sh_parser s) = Some (ok, ps)" "\<not> (ok \<and> token_is_identifier (ps_vec ps ! 0))"
  shows "\<exists>out. shell_line io junk pj buf s = Some (out, s\<lparr>sh_parser := ps\<rparr>)"
proof -
  have "c_string (parser_strerror ps @ [NUL]) (parser_strerror ps)" "length (parser_strerror ps) \<le> 900"
    by (cases "ps_err ps"; simp add: parser_strerror_def c_string_def)+
  from print_s(2) [OF this]
  have "\<exists>x. kprintf (''%s'' @ [LF, NUL]) [Arg_str (Some (parser_strerror ps @ [NUL]))] = Some x" by blast
  then show ?thesis using assms print_literals by (cases ok) (auto simp: shell_line_def Let_def)
qed

section \<open>Property\<close>

text \<open>C23. Types of the shell. A line of any characters, if the parser comes to its end, leaves the shell well typed:
  the tokens of textual types hold terminated strings, the variables are distinct and have one of the three
  types, and string variables are terminated. In a well typed shell no line faults after it has been parsed,
  unless its command shows the disk, or it is \<open>show\<close> with a number, which is printed as if it were a string; a
  number without a zero byte is then read past its token.\<close>

theorem shell_line_typed:
  assumes "shell_typed s" "\<forall>i. token_ok (pj i)"
  shows "(\<forall>out s'. shell_line io junk pj buf s = Some (out, s') \<longrightarrow> shell_typed s') \<and>
    (shell_line io junk pj buf s = None \<longrightarrow> parser_do pj (Some buf) (sh_parser s) = None \<or>
       (\<exists>ps cte. parser_do pj (Some buf) (sh_parser s) = Some (True, ps) \<and>
          command_named (cstr (token_str (ps_vec ps ! 0))) = Some cte \<and>
          (cmd_fun cte \<in> disk_cmds \<or> cmd_fun cte = Cmd_show \<and> tok_type (ps_vec ps ! 1) \<notin> {IDENTIFIER, VARIABLE, LSTRING}))) \<and>
    (\<forall>t tab. token_is_luinteger t \<and> NUL \<notin> set (tok_u t) \<longrightarrow> cmd_show t tab = None)"
proof (cases "parser_do pj (Some buf) (sh_parser s)")
  case None
  then show ?thesis using show_integer_reads_past_token by (simp add: shell_line_def)
next
  case (Some r)
  then obtain ok ps where r: "parser_do pj (Some buf) (sh_parser s) = Some (ok, ps)" by (cases r) auto
  show ?thesis
  proof (cases "ok \<and> token_is_identifier (ps_vec ps ! 0)")
    case True
    then have "parser_do pj (Some buf) (sh_parser s) = Some (True, ps)" using r by simp
    then show ?thesis
      using identifier_line_typed [OF _ assms(2,1) conjunct2 [OF True]] show_integer_reads_past_token by blast
  next
    case False
    have "shell_typed (s\<lparr>sh_parser := ps\<rparr>)"
      using parser_do_typed [OF r assms(2)] assms(1) by (simp add: shell_typed_def)
    then show ?thesis using other_line_answered [OF r False, of io junk] show_integer_reads_past_token by auto
  qed
qed

lemma blank_shell_typed: "shell_typed (blank_shell d)"
proof -
  have "parser_typed (sh_parser (blank_shell d))"
    using blank_shell_ok [of d] unfolding shell_ok_def
    by (auto simp: parser_typed_def token_typed_def list_all_iff blank_shell_def blank_parser_def blank_lexer_def blank_token_def)
  moreover have "table_ok (sh_vars (blank_shell d))" using blank_shell_ok [of d] by (simp add: shell_ok_def)
  moreover have "list_all entry_typed (sh_vars (blank_shell d))"
    by (simp add: blank_shell_def blank_table_def blank_entry_def entry_typed_def list_all_iff)
  ultimately show ?thesis by (simp add: shell_typed_def)
qed

text \<open>A line without a blank between the variable and the value, so no written line of the language.\<close>

theorem shell_line_typed_witness:
  "\<exists>out s. shell_line model_pc [] (\<lambda>i. blank_token) (''set $s!x!'' @ [NUL]) (blank_shell (dev quiet_machine)) = Some (out, s) \<and> shell_typed s"
proof -
  let ?p = "parser_do (\<lambda>i. blank_token) (Some (''set $s!x!'' @ [NUL])) blank_parser"
  let ?line = "shell_line model_pc [] (\<lambda>i. blank_token) (''set $s!x!'' @ [NUL]) (blank_shell (dev quiet_machine))"
  have "case ?p of None \<Rightarrow> False | Some (ok, ps) \<Rightarrow> cstr (token_str (ps_vec ps ! 0)) = ''set''"
    by code_simp
  then obtain ok ps where p: "?p = Some (ok, ps)" "cstr (token_str (ps_vec ps ! 0)) = ''set''" by (auto split: option.splits)
  have vec: "sh_parser (blank_shell (dev quiet_machine)) = blank_parser" by (simp add: blank_shell_def)
  have "\<forall>i. token_ok ((\<lambda>i. blank_token) i)" by (simp add: blank_token_ok)
  from shell_line_typed [OF blank_shell_typed this, of model_pc "[]" "''set $s!x!'' @ [NUL]" "dev quiet_machine"]
  have typed: "\<forall>out s'. ?line = Some (out, s') \<longrightarrow> shell_typed s'" and "?line \<noteq> None"
    using p command_set unfolding vec by (auto simp: disk_cmds_def)
  then show ?thesis by (cases ?line) auto
qed

end
