(* ===== verification/Shell_Session.thy ===== *)
theory Shell_Session
  imports Shell_Props
begin

text \<open>
  Sessions of the shell: the turns of its loop while lines are typed at the keyboard. After a turn the machine
  waits at the prompt again, with the cursor on the screen whatever was typed and edited.
\<close>

section \<open>A turn ends at the prompt\<close>

lemma typed_at_rest:
  assumes "at_prompt io view press w" "list_all typable cs" "at_rest (con (mach w)) c"
    and "con m = reset_ibuf (fold console_put_ibuf (cs @ [ch_lf]) c)"
  shows "on_screen (con m)" "ibuf_ok (con m)" "widx (con m) = 0" "\<not> line_completed (con m)" "\<not> cleared (con m)"
proof -
  let ?c = "fold console_put_ibuf (cs @ [ch_lf]) c"
  have c: "on_screen c" "widx c = 0" "ibuf_ok c" "\<not> cleared c"
    using assms(1,3) by (simp_all add: at_prompt_def at_rest_def ibuf_ok_def)
  have del: "ch_del \<notin> set (cs @ [ch_lf])" using assms(2) typable_not_del by (auto simp: list_all_iff ch_defs)
  have "roomy c" using c by (simp add: roomy_def)
  then have "on_screen ?c" using fold_put_ibuf_roomy [OF _ del] by (simp add: roomy_def)
  moreover have "on_screen (reset_ibuf u) = on_screen u" "ibuf_ok (reset_ibuf u) \<longleftrightarrow> length (ibuf u) = IBUF_SIZE"
    "cleared (reset_ibuf u) = cleared u" for u
    by (simp_all add: reset_ibuf_def on_screen_def ibuf_ok_def)
  moreover have "ibuf_ok ?c" using fold_put_ibuf_edits [OF c(3)] by blast
  then have "length (ibuf ?c) = IBUF_SIZE" by (simp only: ibuf_ok_def)
  moreover have "\<not> cleared ?c" using fold_put_ibuf_cleared [OF del] c(4) by simp
  ultimately show "on_screen (con m)" "ibuf_ok (con m)" "\<not> cleared (con m)" unfolding assms(4) by simp_all
  show "widx (con m) = 0" "\<not> line_completed (con m)" by (simp_all add: assms(4) reset_ibuf_def)
qed

text \<open>
  The keys \<open>cs\<close> make up, after editing, the line \<open>set\<close>, a variable and a value of its type, in any writing
  and spacing.
\<close>

definition types_assignment :: "char list \<Rightarrow> char list \<times> int \<Rightarrow> var_value \<Rightarrow> bool" where
  "types_assignment cs key v \<longleftrightarrow> list_all typable cs \<and> ch_lf \<notin> set cs \<and>
     (\<exists>i j x k val e. fst (fold edit cs ([], False)) = written (set_line i j x k val) @ replicate e (CHR '' '') \<and>
        word_ok x \<and> word_ok val \<and> assigns x val key v)"

lemma set_turn:
  assumes "at_prompt io view press w" "shell_ok (sh w)" "\<forall>i. token_ok (pj i)"
    and "types_assignment cs key v" "concat bs = concat (map keystrokes cs) @ [ENTER]"
  shows "\<exists>bs' w'. shell_turn io press junk pj bs w = Some (bs', w') \<and> concat bs' = [] \<and>
    at_prompt io view press w' \<and> shell_ok (sh w') \<and>
    table_map (sh_vars (sh w')) = put_bounded (table_map (sh_vars (sh w))) key v"
proof -
  obtain i j x k val e where line: "fst (fold edit cs ([], False)) = written (set_line i j x k val) @ replicate e (CHR '' '')"
    "word_ok x" "word_ok val" "assigns x val key v" and cs: "list_all typable cs" "ch_lf \<notin> set cs"
    using assms(4) by (auto simp: types_assignment_def)
  let ?l = "written (set_line i j x k val) @ replicate e (CHR '' '')"
  from shell_turn_runs [OF assms(1) cs assms(5), of junk pj] obtain bs' m rest c where
    t: "shell_turn io press junk pj bs w = map_option (Pair bs') (run_line io junk pj (w\<lparr>mach := m, line_buf := ?l @ NUL # rest\<rparr>))"
      "concat bs' = []" "kbd m = idle_keys" "proc m = proc (mach w)" "pics_ready (view (dev m))"
      "Suc (length ?l + length rest) = SHELL_BUF_SIZE" "at_rest (con (mach w)) c"
      "con m = reset_ibuf (fold console_put_ibuf (cs @ [ch_lf]) c)"
    unfolding line(1) by auto
  note rest = typed_at_rest [OF assms(1) cs(1) t(7,8)]
  let ?w = "w\<lparr>mach := m, line_buf := ?l @ NUL # rest\<rparr>"
  have "shell_ok (sh ?w)" "line_buf ?w = written_line (set_line i j x k val) e rest" "on_screen (con (mach ?w))"
    using assms(2) rest(1) by (simp_all add: written_line_def)
  from run_set_line [OF this(1) assms(3) line(2-4) this(2,3), of io junk] obtain w' where
    w': "run_line io junk pj ?w = Some w'" "shell_ok (sh w')" "proc (mach w') = proc m" "kbd (mach w') = kbd m"
    "dev (mach w') = dev m" "line_buf w' = ?l @ NUL # rest" "at_rest (con m) (con (mach w'))"
    "table_map (sh_vars (sh w')) = put_bounded (table_map (sh_vars (sh w))) key v" by auto
  have "at_prompt io view press w'"
    using assms(1) t(3-6) w'(3-7) rest unfolding at_prompt_def by (simp add: at_rest_def ibuf_ok_def)
  with t(1,2) w' show ?thesis by (intro exI [of _ bs'] exI [of _ w']) simp
qed

section \<open>Later key presses\<close>

text \<open>Portions of codes that arrive later do not matter to what returns before.\<close>

lemma get_line_more:
  "get_line_from io press bs m = Some (rc, bs', m') \<Longrightarrow>
   get_line_from io press (bs @ rest) m = Some (rc, bs' @ rest, m')"
proof (induction bs arbitrary: m)
  case Nil
  then show ?case by (auto simp: get_line_from.simps [of io press _ m] Let_def split: if_splits)
next
  case (Cons b bs)
  then show ?case by (auto simp: get_line_from.simps [of io press _ m] Let_def split: if_splits)
qed

lemma console_get_line_more:
  assumes "console_get_line io press bs buf n m = Some (rc, buf', len, bs', m')"
  shows "console_get_line io press (bs @ rest) buf n m = Some (rc, buf', len, bs' @ rest, m')"
proof -
  let ?t = "if cleared (con m) then m\<lparr>con := (display_ibuf (con m))\<lparr>cleared := False\<rparr>\<rparr> else m"
  obtain r b s where g: "get_line_from io press bs ?t = Some (r, b, s)"
    using assms by (cases "get_line_from io press bs ?t") (auto simp only: console_get_line_def Let_def option.case)
  define k where "k = (if n < widx (con s) then n else widx (con s))"
  have eq: "console_get_line io press bs buf n m = (if r \<noteq> 0 then Some (1, buf, n, b, s)
      else case memcpy buf (ibuf (con s)) k of None \<Rightarrow> None | Some buf' \<Rightarrow> Some (0, buf', k, b, s\<lparr>con := reset_ibuf (con s)\<rparr>))"
    if "get_line_from io press bs ?t = Some (r, b, s)" for bs b
    unfolding console_get_line_def Let_def k_def that by simp
  show ?thesis
    using assms unfolding eq [OF g] eq [OF get_line_more [OF g]]
    by (cases "r = 0"; cases "memcpy buf (ibuf (con s)) k") simp_all
qed

lemma shell_turn_more:
  assumes "shell_turn io press junk pj bs w = Some (bs', w')"
  shows "shell_turn io press junk pj (bs @ rest) w = Some (bs' @ rest, w')"
  using assms unfolding shell_turn_def Let_def
  by (auto simp: console_get_line_more split: option.splits if_splits)

lemma shell_turns_assign:
  assumes "at_prompt io view press w" "shell_ok (sh w)" "\<forall>i. token_ok (pj i)"
    and "\<forall>(cs, key, v, bs) \<in> set ls. types_assignment cs key v \<and> concat bs = concat (map keystrokes cs) @ [ENTER]"
    and "concat pre = []"
  shows "\<exists>bs' w'. shell_turns (length ls) io press junk pj (pre @ concat (map (\<lambda>(cs, key, v, bs). bs) ls)) w = Some (bs', w') \<and>
    concat bs' = [] \<and> at_prompt io view press w' \<and> shell_ok (sh w') \<and>
    table_map (sh_vars (sh w')) = fold (\<lambda>(cs, key, v, bs) t. put_bounded t key v) ls (table_map (sh_vars (sh w)))"
  using assms(1,2,4,5)
proof (induction ls arbitrary: pre w)
  case (Cons l ls)
  obtain cs key v bs where l: "l = (cs, key, v, bs)" by (cases l)
  then have c: "types_assignment cs key v" "concat (pre @ bs) = concat (map keystrokes cs) @ [ENTER]"
    using Cons.prems(3,4) by auto
  from set_turn [OF Cons.prems(1,2) assms(3) c, of junk] obtain pre1 w1 where
    t: "shell_turn io press junk pj (pre @ bs) w = Some (pre1, w1)" "concat pre1 = []" "at_prompt io view press w1" "shell_ok (sh w1)"
      "table_map (sh_vars (sh w1)) = put_bounded (table_map (sh_vars (sh w))) key v" by blast
  let ?later = "concat (map (\<lambda>(cs, key, v, bs). bs) ls)"
  have turn: "shell_turn io press junk pj (pre @ bs @ ?later) w = Some (pre1 @ ?later, w1)"
    using shell_turn_more [OF t(1), of ?later] by simp
  have "\<forall>(cs, key, v, bs) \<in> set ls. types_assignment cs key v \<and> concat bs = concat (map keystrokes cs) @ [ENTER]"
    using Cons.prems(3) by simp
  from Cons.IH [OF t(3,4) this t(2)] show ?case by (simp add: l turn t(5))
qed simp

section \<open>Property\<close>

text \<open>C21. Sessions of the shell. The machine waits with interrupts on and no key held. The keys of any number of lines
  are pressed, in any portions, each line, after editing, the command \<open>set\<close> with a variable and a value of
  its type, in any writing and spacing. Then the shell greets and takes one turn for each line, every turn
  ends, and afterwards the table of variables is the result of the assignments in their order, where an
  assignment of a new variable to a full table has no effect; all keys have been taken, and the machine
  waits at the prompt again.\<close>

theorem shell_session_assigns:
  assumes "at_prompt io view press w" "shell_ok (sh w)" "\<forall>i. token_ok (pj i)"
    and "\<forall>(cs, key, v, bs) \<in> set ls. types_assignment cs key v \<and> concat bs = concat (map keystrokes cs) @ [ENTER]"
  shows "\<exists>bs' w'. shell_do (length ls) io press junk pj (concat (map (\<lambda>(cs, key, v, bs). bs) ls)) w = Some (bs', w') \<and>
    concat bs' = [] \<and> at_prompt io view press w' \<and> shell_ok (sh w') \<and>
    table_map (sh_vars (sh w')) = fold (\<lambda>(cs, key, v, bs) t. put_bounded t key v) ls (table_map (sh_vars (sh w)))"
proof -
  let ?t = "''welcome to the boot shell'' @ [LF]"
  have "kprintf (''welcome to the boot shell'' @ [LF, NUL]) [] = Some ?t" by (simp add: run_format)
  moreover have "on_screen (con (mach w))" using assms(1) by (simp add: at_prompt_def)
  then obtain c where c: "print_all [?t] (con (mach w)) = Some c" "at_rest (con (mach w)) c"
    using print_all_rests [of "con (mach w)" "[?t]"] by (auto simp: LF_def ch_defs)
  moreover have "at_prompt io view press (w\<lparr>mach := (mach w)\<lparr>con := c\<rparr>\<rparr>)"
    using assms(1) c(2) by (simp add: at_prompt_def at_rest_def ibuf_ok_def)
  note shell_turns_assign [OF this _ assms(3,4), of "[]" junk]
  ultimately show ?thesis using assms(2) by (simp add: shell_do_def)
qed

text \<open>The keys of \<open>set %x 113\<close> and \<open>set %x 31\<close>, the percent sign with shift held.\<close>

definition start_world :: "(pics \<times> u8) world" where
  "start_world = \<lparr>mach = quiet_machine, sh = blank_shell (dev quiet_machine), line_buf = replicate 512 NUL\<rparr>"

lemma start_world_ready: "at_prompt model_pc fst model_press start_world" "shell_ok (sh start_world)"
  "table_map (sh_vars (sh start_world)) = Map.empty"
proof -
  show "at_prompt model_pc fst model_press start_world"
    by (simp add: at_prompt_def model_pc_contract start_world_def quiet_machine_def pics_ready_def bios_chip_def
        reset_cpu_def eflags_get_intr_flag_def EFLAGS_IF_def blank_console_def ibuf_ok_def on_screen_def vga_consts SHELL_BUF_SIZE_def)
  show "shell_ok (sh start_world)" by (simp add: start_world_def blank_shell_ok)
  show "table_map (sh_vars (sh start_world)) = Map.empty"
    by (simp add: start_world_def blank_shell_def blank_table_ok)
qed

lemma typed_set_x:
  assumes "numeral_text True 10 n = ds" "set ds \<subseteq> set ''13''" "0 < n" "n < 1000000000" "length ds \<le> 3"
  shows "types_assignment (''set '' @ SIGIL_INT_VAR # ''x '' @ ds) (''x'', TYPE_INT) (V_int (of_nat n))"
proof -
  let ?cs = "''set '' @ SIGIL_INT_VAR # ''x '' @ ds" and ?x = "W_var (SIGIL_INT_VAR # ''x'')"
  have key: "keystrokes c \<noteq> []" if "k \<in> set character_keys" "map_key (of_nat k) s = c" "s \<in> {idle_keys, shifted_keys}" for c k s
    using that by (auto simp: keystrokes_def find_None_iff split: option.splits)
  have "keystrokes c \<noteq> []" if "c \<in> set ''set x13''" for c
    using that key [of 31 idle_keys c] key [of 18 idle_keys c] key [of 20 idle_keys c] key [of 57 idle_keys c]
      key [of 45 idle_keys c] key [of 2 idle_keys c] key [of 4 idle_keys c]
    by (auto simp: character_keys_def map_key_def keymap_def idle_keys_def ch_defs Let_def)
  moreover have "keystrokes SIGIL_INT_VAR \<noteq> []"
    using key [of 6 shifted_keys SIGIL_INT_VAR]
    by (simp add: character_keys_def map_key_def keymap_def shifted_keys_def SIGIL_INT_VAR_def ch_defs Let_def)
  ultimately have typed: "list_all typable ?cs" "ch_lf \<notin> set ?cs"
    using assms(2) by (auto simp: typable_def ch_defs SIGIL_INT_VAR_def list_all_iff)
  have plain: "fold edit t (l, False) = (l @ t, False)"
    if "set t \<subseteq> insert SIGIL_INT_VAR (set ''set x13'')" "length (l @ t) \<le> 128" for t l
    using that
  proof (induction t arbitrary: l)
    case (Cons c t)
    then have "edit c (l, False) = (l @ [c], False)" by (auto simp: edit_def ch_defs IBUF_SIZE_def SIGIL_INT_VAR_def)
    then show ?case using Cons by simp
  qed simp
  have "set ?cs \<subseteq> insert SIGIL_INT_VAR (set ''set x13'')" "length ([] @ ?cs) \<le> 128" using assms(2,5) by auto
  from plain [OF this] have "fst (fold edit ?cs ([], False)) = ?cs" by simp
  also have "?cs = written (set_line 0 0 ?x 0 (W_dec n)) @ replicate 0 (CHR '' '')"
    by (simp add: set_line_def assms(1))
  finally have line: "fst (fold edit ?cs ([], False)) = written (set_line 0 0 ?x 0 (W_dec n)) @ replicate 0 (CHR '' '')" .
  have words: "word_ok ?x" "word_ok (W_dec n)"
    using assms(3,4) by (simp_all add: is_sigil_def SIGIL_INT_VAR_def TOKEN_STR_LEN_MAX_def char_is_alphanum_def char_is_alpha_def char_in_def schar_def)
  have "assigns ?x (W_dec n) (''x'', TYPE_INT) (V_int (of_nat n))"
    using assms(4) by (simp add: assigns_def sigil_of_def var_consts unat_of_nat_u32)
  with typed line words show ?thesis unfolding types_assignment_def by blast
qed

theorem shell_session_assigns_witness:
  "\<exists>bs' w'. shell_do 2 model_pc model_press [] (\<lambda>i. blank_token)
      [concat (map keystrokes (''set '' @ SIGIL_INT_VAR # ''x 113'')) @ [ENTER],
       concat (map keystrokes (''set '' @ SIGIL_INT_VAR # ''x 31'')), [ENTER]] start_world = Some (bs', w')
    \<and> table_map (sh_vars (sh w')) (''x'', TYPE_INT) = Some (V_int 31)"
proof -
  let ?a = "''set '' @ SIGIL_INT_VAR # ''x '' @ ''113''" and ?b = "''set '' @ SIGIL_INT_VAR # ''x '' @ ''31''"
  let ?ls = "[(?a, (''x'', TYPE_INT), V_int 113, [concat (map keystrokes ?a) @ [ENTER]]),
    (?b, (''x'', TYPE_INT), V_int 31, [concat (map keystrokes ?b), [ENTER]])]"
  have "numeral_text True 10 113 = ''113''" "numeral_text True 10 31 = ''31''"
    by (simp_all add: numeral_text.simps digit_chars_def)
  then have "types_assignment ?a (''x'', TYPE_INT) (V_int 113)" "types_assignment ?b (''x'', TYPE_INT) (V_int 31)"
    using typed_set_x [of 113 "''113''"] typed_set_x [of 31 "''31''"] by simp_all
  then have ls: "\<forall>(cs, key, v, bs) \<in> set ?ls. types_assignment cs key v \<and> concat bs = concat (map keystrokes cs) @ [ENTER]"
    by (simp del: append_Cons append_Nil)
  have junk: "\<forall>i. token_ok ((\<lambda>i. blank_token) i)" by (simp add: blank_token_ok)
  from shell_session_assigns [OF start_world_ready(1,2) junk ls, of "[]"] obtain bs' w' where
    "shell_do (length ?ls) model_pc model_press [] (\<lambda>i. blank_token) (concat (map (\<lambda>(cs, key, v, bs). bs) ?ls)) start_world = Some (bs', w')"
    and t: "table_map (sh_vars (sh w')) = fold (\<lambda>(cs, key, v, bs) t. put_bounded t key v) ?ls Map.empty"
    unfolding start_world_ready(3) by blast
  then have "shell_do 2 model_pc model_press [] (\<lambda>i. blank_token)
      [concat (map keystrokes (''set '' @ SIGIL_INT_VAR # ''x 113'')) @ [ENTER],
       concat (map keystrokes (''set '' @ SIGIL_INT_VAR # ''x 31'')), [ENTER]] start_world = Some (bs', w')"
    by (simp add: numeral_2_eq_2)
  moreover have "table_map (sh_vars (sh w')) (''x'', TYPE_INT) = Some (V_int 31)"
    unfolding t by (simp add: put_bounded_def TABLE_LEN_def)
  ultimately show ?thesis by blast
qed

end
