(* ===== verification/Clear_Key.thy ===== *)
theory Clear_Key
  imports Shell_Session
begin

text \<open>
  The clear key, control and l, while a line is typed: the reading of the line is given up, the shell prompts
  again, and the line typed so far is shown behind the prompt and goes on.
\<close>

section \<open>The codes of the key\<close>

definition ctrl_keys :: keyboard where "ctrl_keys = idle_keys\<lparr>kb_ctrl := True\<rparr>"
definition L_KEY :: u8 where "L_KEY = 0x26"

lemma put_clear: "console_put_ibuf ch_del c = console_clear c"
  by (simp add: console_put_ibuf_def console_putc_def ch_defs)

lemma clear_key_events:
  "key_event LCTRL (c, idle_keys) = (c, ctrl_keys)" "key_event L_KEY (c, ctrl_keys) = (console_clear c, ctrl_keys)"
  "key_event (L_KEY + 128) (c, ctrl_keys) = (c, ctrl_keys)" "key_event (LCTRL + 128) (c, ctrl_keys) = (c, idle_keys)"
proof -
  have n: "of_nat 29 = LCTRL" "of_nat (29 + 128) = LCTRL + 128" "of_nat 38 = L_KEY" "of_nat (38 + 128) = L_KEY + 128"
    by (simp_all add: LCTRL_def L_KEY_def)
  note b = key_code_bits [of 29, unfolded n, simplified] key_code_bits [of 38, unfolded n, simplified]
  have "map_key L_KEY ctrl_keys = ch_del" "L_KEY \<notin> {LCTRL, LSHIFT, RSHIFT}"
    by (simp_all add: map_key_def keymap_def L_KEY_def ctrl_keys_def idle_keys_def Let_def LCTRL_def LSHIFT_def RSHIFT_def)
  moreover have "ch_del \<noteq> NUL" by (simp add: ch_defs)
  moreover note b modifiers_differ
  ultimately show
    "key_event LCTRL (c, idle_keys) = (c, ctrl_keys)" "key_event L_KEY (c, ctrl_keys) = (console_clear c, ctrl_keys)"
    "key_event (L_KEY + 128) (c, ctrl_keys) = (c, ctrl_keys)" "key_event (LCTRL + 128) (c, ctrl_keys) = (c, idle_keys)"
    by (simp_all add: key_event_def Let_def ctrl_keys_def idle_keys_def put_clear)
qed

lemma strict_prefix_two: "strict_prefix p (xs @ [a, b]) \<Longrightarrow> prefix p xs \<or> p = xs @ [a]"
  by (induction xs arbitrary: p) (auto simp: strict_prefix_def prefix_Cons split: list.splits)

text \<open>A line cut off by the clear key: the loop waits up to its last code.\<close>

lemma cleared_line:
  assumes "list_all typable cs" "ch_lf \<notin> set cs" "ibuf_ok s" "\<not> line_completed s" "\<not> cleared s"
  defines "codes \<equiv> concat (map keystrokes cs) @ [LCTRL, L_KEY]"
  shows "\<forall>p. strict_prefix p codes \<longrightarrow> waiting (fold key_event p (s, idle_keys))"
    and "fold key_event codes (s, idle_keys) = (console_clear (fold console_put_ibuf cs s), ctrl_keys)"
proof -
  show "fold key_event codes (s, idle_keys) = (console_clear (fold console_put_ibuf cs s), ctrl_keys)"
    by (simp add: codes_def type_text [OF assms(1)] clear_key_events)
  show "\<forall>p. strict_prefix p codes \<longrightarrow> waiting (fold key_event p (s, idle_keys))"
  proof (intro allI impI)
    fix p assume p: "strict_prefix p codes"
    from strict_prefix_two [OF p [unfolded codes_def]]
    consider (typed) "prefix p (concat (map keystrokes cs))" | (ctrl) "p = concat (map keystrokes cs) @ [LCTRL]" by blast
    then obtain t where t: "prefix t cs" "fst (fold key_event p (s, idle_keys)) = fold console_put_ibuf t s"
    proof cases
      case typed
      then show ?thesis using type_text_prefix [OF assms(1) typed, of s] that by blast
    next
      case ctrl
      then show ?thesis by (intro that [of cs]) (simp_all add: type_text [OF assms(1)] clear_key_events)
    qed
    have "ch_lf \<notin> set t" "ch_del \<notin> set t"
      using set_mono_prefix [OF t(1)] assms(1,2) typable_not_del by (auto simp: list_all_iff)
    from fold_put_ibuf_waits [OF assms(3) this assms(4,5)] show "waiting (fold key_event p (s, idle_keys))"
      by (simp add: t(2))
  qed
qed

text \<open>A line that goes on with the releases of the clear key.\<close>

lemma released_line:
  assumes "list_all typable cs" "ch_lf \<notin> set cs" "ibuf_ok s" "\<not> line_completed s" "\<not> cleared s"
  defines "codes \<equiv> [L_KEY + 128, LCTRL + 128] @ concat (map keystrokes cs) @ [ENTER]"
  shows "\<forall>p. strict_prefix p codes \<longrightarrow> waiting (fold key_event p (s, ctrl_keys))"
    and "fold key_event codes (s, ctrl_keys) = (fold console_put_ibuf (cs @ [ch_lf]) s, idle_keys)"
proof -
  note l = typed_line [OF assms(1-5)]
  show "fold key_event codes (s, ctrl_keys) = (fold console_put_ibuf (cs @ [ch_lf]) s, idle_keys)"
    using l(2) by (simp add: codes_def clear_key_events)
  show "\<forall>p. strict_prefix p codes \<longrightarrow> waiting (fold key_event p (s, ctrl_keys))"
  proof (intro allI impI)
    fix p assume p: "strict_prefix p codes"
    consider "p = []" | "p = [L_KEY + 128]" | q where "p = [L_KEY + 128, LCTRL + 128] @ q" "strict_prefix q (concat (map keystrokes cs) @ [ENTER])"
      using p unfolding codes_def strict_prefix_def by (auto simp: prefix_Cons)
    then show "waiting (fold key_event p (s, ctrl_keys))"
      by cases (use assms(4,5) l(1) in \<open>simp_all add: clear_key_events\<close>)
  qed
qed

section \<open>The line on the cleared screen\<close>

definition blank_terminal :: terminal where
  "blank_terminal = (\<lambda>k. if k < SCREEN then blank_cell else 0, 0)"

lemma edited_chars:
  "set (fst (fold edit cs (l, b))) \<subseteq> set l \<union> (set cs - {ch_lf, ch_cr, ch_bs, ch_tab, ch_del})"
proof (induction cs arbitrary: l b)
  case (Cons c cs)
  obtain l' b' where e: "edit c (l, b) = (l', b')" by (cases "edit c (l, b)")
  have "set l' \<subseteq> set l \<union> ({c} - {ch_lf, ch_cr, ch_bs, ch_tab, ch_del})"
    using e by (auto simp: edit_def split: if_splits dest: in_set_butlastD)
  with Cons.IH [of l' b'] show ?case by (auto simp: e)
qed simp

lemma fold_put_position:
  assumes "set cs \<inter> {ch_lf, ch_tab, ch_del} = {}" "snd t + length cs < SCREEN"
  shows "snd (fold (term_char a) cs t) = snd t + length cs"
  using assms
proof (induction cs arbitrary: t)
  case (Cons c cs)
  then have "snd (term_char a c t) = snd t + 1"
    by (auto simp: term_char_def term_put_def term_settle_def case_prod_beta)
  with Cons show ?case by simp
qed simp

lemma prompt_displays:
  assumes "on_screen c"
  shows "\<exists>c'. print_all [''shell-> ''] c = Some c' \<and> cleared c' = cleared c \<and>
    displays c (fold (term_char (con_attr c)) ''shell-> '' (terminal_of c)) c'"
proof -
  have p: "c_string (''shell-> '' @ [NUL]) ''shell-> ''" "ch_bs \<notin> set ''shell-> ''" "ch_cr \<notin> set ''shell-> ''"
    "ch_del \<notin> set ''shell-> ''"
    by (simp_all add: c_string_def ch_defs)
  from console_puts_displays [OF p(1) assms p(2,3)] obtain c' where
    "console_puts (Some (''shell-> '' @ [NUL])) c = Some (int (length ''shell-> ''), c')"
    "displays c (fold (term_char (con_attr c)) ''shell-> '' (terminal_of c)) c'" by blast
  with cleared_puts [OF p(1,4)] show ?thesis by (intro exI [of _ c']) simp
qed

lemma display_ibuf_displays:
  assumes "on_screen c" "line_of c = (l, b)" "ibuf_ok c" "ch_bs \<notin> set l" "ch_cr \<notin> set l"
  shows "displays c (fold (term_char (con_attr c)) l (terminal_of c)) (display_ibuf c)"
proof -
  have l: "l = take (widx c) (ibuf c)" "widx c \<le> length (ibuf c)" using assms(2,3) by (simp_all add: line_of_def ibuf_ok_def)
  let ?f = "\<lambda>i s. snd (console_putc (ibuf s ! i) True s)"
  have "displays c (fold (term_char (con_attr c)) (take n l) (terminal_of c)) (fold ?f [0..<n] c)" if "n \<le> widx c" for n
    using that
  proof (induction n)
    case 0
    show ?case using assms(1) by (simp add: displays_def same_rest_def)
  next
    case (Suc n)
    let ?s = "fold ?f [0..<n] c"
    have d: "displays c (fold (term_char (con_attr c)) (take n l) (terminal_of c)) ?s" using Suc by simp
    then have s: "on_screen ?s" "ibuf ?s = ibuf c" "con_attr ?s = con_attr c"
      "terminal_of ?s = fold (term_char (con_attr c)) (take n l) (terminal_of c)"
      by (simp_all add: displays_def same_rest_def)
    have n: "n < length l" "l ! n = ibuf c ! n" using Suc.prems l by simp_all
    have "l ! n \<in> set l" by (rule nth_mem [OF n(1)])
    then have "l ! n \<noteq> ch_bs" "l ! n \<noteq> ch_cr" using assms(4,5) by auto
    from console_putc_terminal [OF s(1) this] displays_trans [OF d] show ?case
      by (simp add: take_Suc_conv_app_nth n s)
  qed
  from this [of "widx c"] have d: "displays c (fold (term_char (con_attr c)) l (terminal_of c)) (fold ?f [0..<widx c] c)"
    using l by simp
  then have "on_screen (fold ?f [0..<widx c] c)" by (simp add: displays_def)
  from displays_trans [OF d draw_cursor_shows(1) [OF this]] d show ?thesis by (simp add: display_ibuf_def displays_def)
qed

text \<open>The prompt and the line of a console that has been cleared.\<close>

lemma cleared_prompt:
  assumes "ibuf_ok c" "line_of c = (l, False)" "set l \<inter> {ch_lf, ch_cr, ch_bs, ch_tab, ch_del} = {}"
  defines "s \<equiv> console_clear c"
  shows "\<exists>c1. print_all [''shell-> ''] s = Some c1 \<and> cleared c1 \<and>
    roomy ((display_ibuf c1)\<lparr>cleared := False\<rparr>) \<and> ibuf_ok ((display_ibuf c1)\<lparr>cleared := False\<rparr>) \<and>
    line_of ((display_ibuf c1)\<lparr>cleared := False\<rparr>) = (l, False) \<and>
    terminal_of ((display_ibuf c1)\<lparr>cleared := False\<rparr>) = fold (term_char (con_attr c)) (''shell-> '' @ l) blank_terminal"
proof -
  have s: "displays c blank_terminal s" "cleared s" using clear_terminal [of c] by (simp_all add: s_def blank_terminal_def console_clear_def)
  then have on: "on_screen s" "con_attr s = con_attr c" "terminal_of s = blank_terminal" "ibuf_ok s" "line_of s = (l, False)"
    using assms(1,2) by (simp_all add: displays_def same_rest_def ibuf_ok_def line_of_def)
  obtain c1 where c1: "print_all [''shell-> ''] s = Some c1" "cleared c1"
    "displays s (fold (term_char (con_attr s)) ''shell-> '' (terminal_of s)) c1"
    using prompt_displays [OF on(1)] s(2) by auto
  then have c: "on_screen c1" "con_attr c1 = con_attr c" "ibuf_ok c1" "line_of c1 = (l, False)"
    using on by (simp_all add: displays_def same_rest_def ibuf_ok_def line_of_def)
  have plain: "ch_bs \<notin> set l" "ch_cr \<notin> set l" using assms(3) by auto
  note d = displays_trans [OF c1(3) display_ibuf_displays [OF c(1,4,3) plain]]
  let ?c = "(display_ibuf c1)\<lparr>cleared := False\<rparr>"
  have e: "on_screen ?c = on_screen (display_ibuf c1)" "terminal_of ?c = terminal_of (display_ibuf c1)"
    "ibuf_ok ?c = ibuf_ok (display_ibuf c1)" "line_of ?c = line_of (display_ibuf c1)"
    by (simp_all add: on_screen_def terminal_of_def ibuf_ok_def line_of_def fun_eq_iff)
  have t: "terminal_of ?c = fold (term_char (con_attr c)) (''shell-> '' @ l) blank_terminal"
    using d c1(3) on by (simp add: e displays_def c(2))
  have k: "on_screen ?c" "ibuf_ok ?c" "line_of ?c = (l, False)"
    using d on(4,5) unfolding e by (simp_all add: displays_def same_rest_def ibuf_ok_def line_of_def)
  have len: "length l \<le> 128" "widx ?c = length l" using k(2,3) by (auto simp: line_of_def ibuf_ok_def IBUF_SIZE_def)
  have "set (''shell-> '' @ l) \<inter> {ch_lf, ch_tab, ch_del} = {}" using assms(3) by (auto simp: ch_defs)
  from fold_put_position [OF this, of blank_terminal "con_attr c"] have "snd (terminal_of ?c) = 8 + length l"
    using len by (simp add: t blank_terminal_def SCREEN_def)
  then have "roomy ?c" using k(1) len by (simp add: roomy_def IBUF_SIZE_def)
  with c1(1,2) k t show ?thesis by blast
qed

section \<open>Two turns\<close>

lemma attr_kept: "con_attr (console_put_ibuf c s) = con_attr s"
proof -
  have u: "con_attr (line_feed s) = con_attr s" "con_attr (curs_forward s) = con_attr s"
    "con_attr (curs_backward s) = con_attr s" "con_attr (putc_attr ch a s) = con_attr s"
    "con_attr (draw_cursor s) = con_attr s" "con_attr (console_clear s) = con_attr s" for s ch a
    by (simp_all add: line_feed_def curs_forward_def curs_backward_def putc_attr_def draw_cursor_def console_clear_def Let_def)
  have t: "con_attr (console_tab s) = con_attr s" for s by (simp add: console_tab_def TAB_WIDTH_def eval_nat_numeral u)
  have d: "con_attr (snd (del_ibuf s)) = con_attr s" for s by (simp add: del_ibuf_def Let_def u)
  have k: "con_attr (console_kill s) = con_attr s" for s
  proof (induction s rule: console_kill.induct)
    case (1 s)
    have "console_kill s = (if fst (del_ibuf s) = 0 then console_kill (snd (del_ibuf s)) else snd (del_ibuf s))"
      by (subst console_kill.simps) (simp only: Let_def case_prod_beta)
    with 1 [OF refl prod.collapse] d show ?case by (simp split: if_splits)
  qed
  show ?thesis by (simp add: console_put_ibuf_def console_putc_def case_prod_beta Let_def u t d k)
qed

lemma attr_fold: "con_attr (fold console_put_ibuf cs s) = con_attr s"
  by (induction cs arbitrary: s) (simp_all add: attr_kept)

text \<open>The turn in which the key is pressed ends without a line.\<close>

lemma turn_cleared:
  assumes "at_prompt io view press w" "list_all typable cs" "ch_lf \<notin> set cs"
    and "concat bs = concat (map keystrokes cs) @ [LCTRL, L_KEY]"
  shows "\<exists>bs1 m c. shell_turn io press junk pj bs w = Some (bs1, w\<lparr>mach := m, line_buf := (line_buf w)[0 := NUL]\<rparr>) \<and>
    concat bs1 = [] \<and> con m = console_clear c \<and> ibuf_ok c \<and> con_attr c = con_attr (con (mach w)) \<and>
    line_of c = fold edit cs ([], False) \<and> \<not> line_completed c \<and> kbd m = ctrl_keys \<and> proc m = proc (mach w) \<and> pics_ready (view (dev m))"
proof -
  have w: "keyboard_contract io view press" "pics_ready (view (dev (mach w)))" "eflags_get_intr_flag (eflags (proc (mach w)))"
    "kbd (mach w) = idle_keys" "on_screen (con (mach w))" "ibuf_ok (con (mach w))" "widx (con (mach w)) = 0"
    "\<not> line_completed (con (mach w))" "\<not> cleared (con (mach w))"
    using assms(1) by (simp_all add: at_prompt_def)
  obtain c0 where c0: "print_all [''shell-> ''] (con (mach w)) = Some c0" "\<not> cleared c0"
    "displays (con (mach w)) (fold (term_char (con_attr (con (mach w)))) ''shell-> '' (terminal_of (con (mach w)))) c0"
    using prompt_displays [OF w(5)] w(9) by auto
  then have r: "ibuf_ok c0" "\<not> line_completed c0" "line_of c0 = ([], False)" "con_attr c0 = con_attr (con (mach w))"
    using w(6-8) by (simp_all add: displays_def same_rest_def ibuf_ok_def line_of_def)
  define c where "c = fold console_put_ibuf cs c0"
  note l = cleared_line [OF assms(2,3) r(1,2) c0(2), folded assms(4) c_def]
  have ed: "line_of c = fold edit cs ([], False)" "ibuf_ok c"
    using fold_put_ibuf_edits [OF r(1), of cs] r(3) by (simp_all add: c_def)
  have del: "ch_del \<notin> set cs" using assms(2) typable_not_del by (auto simp: list_all_iff)
  have nc: "\<not> line_completed c" unfolding c_def by (rule fold_put_ibuf_waits(1) [OF r(1) assms(3) del r(2) c0(2)])
  let ?m = "(mach w)\<lparr>con := c0\<rparr>"
  have "con ?m = c0" "kbd ?m = idle_keys" using w(4) by simp_all
  with get_line_from_ends [OF w(1), of ?m bs "console_clear c" ctrl_keys] w(2,3) l nc obtain bs1 m where
    g: "get_line_from io press bs ?m = Some (1, bs1, m)" "concat bs1 = []" "con m = console_clear c" "kbd m = ctrl_keys"
      "proc m = proc (mach w)" "pics_ready (view (dev m))"
    by (auto simp: console_clear_def)
  then have "console_get_line io press bs ((line_buf w)[0 := NUL]) (SHELL_BUF_SIZE - 1) ?m
      = Some (1, (line_buf w)[0 := NUL], SHELL_BUF_SIZE - 1, bs1, m)"
    using c0(2) by (simp add: console_get_line_def)
  moreover have "kprintf (''%s'' @ [NUL]) [Arg_str (Some prompt)] = Some ''shell-> ''"
    by (rule print_s(1)) (simp_all add: prompt_def c_string_def)
  ultimately have "shell_turn io press junk pj bs w = Some (bs1, w\<lparr>mach := m, line_buf := (line_buf w)[0 := NUL]\<rparr>)"
    using c0(1) by (simp add: shell_turn_def Let_def)
  moreover have "con_attr c = con_attr (con (mach w))" using attr_fold [of cs c0] r(4) by (simp add: c_def)
  ultimately show ?thesis using g(2-6) ed nc
    by (intro exI [of _ bs1] exI [of _ m] exI [of _ c]) simp
qed

text \<open>The next turn shows the line and goes on with it.\<close>

lemma turn_continues:
  assumes "keyboard_contract io view press" "eflags_get_intr_flag (eflags (proc (mach w)))" "pics_ready (view (dev (mach w)))"
    and "con (mach w) = console_clear c" "ibuf_ok c" "line_of c = (l, False)" "set l \<inter> {ch_lf, ch_cr, ch_bs, ch_tab, ch_del} = {}"
    and "kbd (mach w) = ctrl_keys" "length (line_buf w) = SHELL_BUF_SIZE"
    and "list_all typable ds" "ch_lf \<notin> set ds" "concat bs = [L_KEY + 128, LCTRL + 128] @ concat (map keystrokes ds) @ [ENTER]"
  defines "l2 \<equiv> fst (fold edit ds (l, False))"
  shows "\<exists>c1 bs' m rest. print_all [''shell-> ''] (con (mach w)) = Some c1 \<and>
    terminal_of (display_ibuf c1) = fold (term_char (con_attr c)) (''shell-> '' @ l) blank_terminal \<and>
    shell_turn io press junk pj bs w = map_option (Pair bs') (run_line io junk pj (w\<lparr>mach := m, line_buf := l2 @ NUL # rest\<rparr>)) \<and>
    concat bs' = [] \<and> on_screen (con m) \<and> kbd m = idle_keys \<and> proc m = proc (mach w)"
proof -
  obtain c1 where c1: "print_all [''shell-> ''] (con (mach w)) = Some c1" "cleared c1"
    "roomy ((display_ibuf c1)\<lparr>cleared := False\<rparr>)" "ibuf_ok ((display_ibuf c1)\<lparr>cleared := False\<rparr>)"
    "line_of ((display_ibuf c1)\<lparr>cleared := False\<rparr>) = (l, False)"
    "terminal_of ((display_ibuf c1)\<lparr>cleared := False\<rparr>) = fold (term_char (con_attr c)) (''shell-> '' @ l) blank_terminal"
    using cleared_prompt [OF assms(5-7)] unfolding assms(4) by blast
  let ?c = "(display_ibuf c1)\<lparr>cleared := False\<rparr>"
  have wait: "\<not> line_completed ?c" "\<not> cleared ?c" using c1(5) by (simp_all add: line_of_def)
  note line = released_line [OF assms(10,11) c1(4) wait, folded assms(12)]
  let ?e = "fold console_put_ibuf (ds @ [ch_lf]) ?c"
  have ed: "line_of ?e = (l2, True)" "ibuf_ok ?e"
    using fold_put_ibuf_edits [OF c1(4), of "ds @ [ch_lf]"] c1(5) by (simp_all add: l2_def edit_def case_prod_beta)
  let ?m = "(mach w)\<lparr>con := c1\<rparr>" and ?buf = "(line_buf w)[0 := NUL]"
  let ?t = "?m\<lparr>con := ?c\<rparr>"
  have "con ?t = ?c" "kbd ?t = ctrl_keys" using assms(8) by simp_all
  with get_line_from_ends [OF assms(1), of ?t bs ?e idle_keys] assms(2,3) line ed(1) obtain bs' m where
    g: "get_line_from io press bs ?t = Some (0, bs', m)" "concat bs' = []" "con m = ?e" "kbd m = idle_keys" "proc m = proc (mach w)"
    by (auto simp: line_of_def)
  have len: "length l2 \<le> 128" "length ?buf = 512"
    using ed assms(9) by (auto simp: line_of_def ibuf_ok_def IBUF_SIZE_def SHELL_BUF_SIZE_def)
  have "get_line_from io press bs (if cleared (con ?m) then ?m\<lparr>con := (display_ibuf (con ?m))\<lparr>cleared := False\<rparr>\<rparr> else ?m) = Some (0, bs', m)"
    using g(1) c1(2) by simp
  from console_get_line_done [OF this, of l2 "SHELL_BUF_SIZE - 1" ?buf] ed g(3) len
  have gl: "console_get_line io press bs ?buf (SHELL_BUF_SIZE - 1) ?m
      = Some (0, l2 @ drop (length l2) ?buf, length l2, bs', m\<lparr>con := reset_ibuf ?e\<rparr>)"
    by (simp add: SHELL_BUF_SIZE_def)
  have "drop (length l2) ?buf \<noteq> []" using len by simp
  then obtain d rest where "drop (length l2) ?buf = d # rest" by (cases "drop (length l2) ?buf") auto
  then have "(l2 @ drop (length l2) ?buf)[length l2 := NUL] = l2 @ NUL # rest" by simp
  moreover have "kprintf (''%s'' @ [NUL]) [Arg_str (Some prompt)] = Some ''shell-> ''"
    by (rule print_s(1)) (simp_all add: prompt_def c_string_def)
  ultimately have "shell_turn io press junk pj bs w
      = map_option (Pair bs') (run_line io junk pj (w\<lparr>mach := m\<lparr>con := reset_ibuf ?e\<rparr>, line_buf := l2 @ NUL # rest\<rparr>))"
    using c1(1) gl by (simp add: shell_turn_def Let_def)
  moreover have "ch_del \<notin> set (ds @ [ch_lf])" using assms(10) typable_not_del by (auto simp: list_all_iff ch_defs)
  then have "roomy ?e" by (rule fold_put_ibuf_roomy [OF c1(3)])
  then have "on_screen ?e" by (simp only: roomy_def)
  then have "on_screen (reset_ibuf ?e)" by (simp add: on_screen_def reset_ibuf_def)
  moreover have "terminal_of (display_ibuf c1) = terminal_of ?c" by (simp add: terminal_of_def fun_eq_iff)
  ultimately show ?thesis using c1(1,6) g
    by (intro exI [of _ c1] exI [of _ bs'] exI [of _ "m\<lparr>con := reset_ibuf ?e\<rparr>"] exI [of _ rest]) simp
qed

section \<open>Property\<close>

text \<open>C22. The clear key. At the prompt, characters \<open>cs\<close> are typed, then control and l are pressed, released,
  and the line goes on with \<open>ds\<close> and the enter key. The turn in which the key is pressed ends with no
  line, the screen blank and the shell as it was. The next turn writes the prompt and, behind it, what
  was typed so far, at the top of the screen, and runs the line that \<open>cs\<close> and \<open>ds\<close> make up together,
  after editing, as if the key had not been pressed; all keys have been taken.\<close>

theorem clear_key_keeps_line:
  assumes "at_prompt io view press w" "list_all typable (cs @ ds)" "ch_lf \<notin> set (cs @ ds)"
    and "concat bs = concat (map keystrokes cs) @ [LCTRL, L_KEY]"
    and "concat bs2 = [L_KEY + 128, LCTRL + 128] @ concat (map keystrokes ds) @ [ENTER]"
  shows "\<exists>bs1 w1 c1 bs' m rest. shell_turn io press junk pj (bs @ bs2) w = Some (bs1, w1) \<and>
    sh w1 = sh w \<and> terminal_of (con (mach w1)) = blank_terminal \<and>
    print_all [''shell-> ''] (con (mach w1)) = Some c1 \<and>
    terminal_of (display_ibuf c1)
      = fold (term_char (con_attr (con (mach w)))) (''shell-> '' @ fst (fold edit cs ([], False))) blank_terminal \<and>
    shell_turn io press junk pj bs1 w1 = map_option (Pair bs')
      (run_line io junk pj (w1\<lparr>mach := m, line_buf := fst (fold edit (cs @ ds) ([], False)) @ NUL # rest\<rparr>)) \<and>
    concat bs' = [] \<and> on_screen (con m) \<and> kbd m = idle_keys"
proof -
  have t: "list_all typable cs" "ch_lf \<notin> set cs" "list_all typable ds" "ch_lf \<notin> set ds" using assms(2,3) by simp_all
  let ?l = "fst (fold edit cs ([], False))"
  obtain e m1 c where m1: "shell_turn io press junk pj bs w = Some (e, w\<lparr>mach := m1, line_buf := (line_buf w)[0 := NUL]\<rparr>)"
    "concat e = []" "con m1 = console_clear c" "ibuf_ok c" "con_attr c = con_attr (con (mach w))" "line_of c = fold edit cs ([], False)" "\<not> line_completed c"
    "kbd m1 = ctrl_keys" "proc m1 = proc (mach w)" "pics_ready (view (dev m1))"
    using turn_cleared [OF assms(1) t(1,2) assms(4), of junk pj] by blast
  let ?w1 = "w\<lparr>mach := m1, line_buf := (line_buf w)[0 := NUL]\<rparr>"
  have l: "fold edit cs ([], False) = (?l, False)" "line_of c = (?l, False)" using m1(6,7) by (auto simp: line_of_def prod_eq_iff)
  have plain: "set ?l \<inter> {ch_lf, ch_cr, ch_bs, ch_tab, ch_del} = {}" using edited_chars [of cs "[]" False] by auto
  have more: "concat (e @ bs2) = [L_KEY + 128, LCTRL + 128] @ concat (map keystrokes ds) @ [ENTER]" by (simp add: m1(2) assms(5))
  have w1: "keyboard_contract io view press" "eflags_get_intr_flag (eflags (proc (mach ?w1)))" "pics_ready (view (dev (mach ?w1)))"
    "con (mach ?w1) = console_clear c" "kbd (mach ?w1) = ctrl_keys" "length (line_buf ?w1) = SHELL_BUF_SIZE"
    using assms(1) m1 by (simp_all add: at_prompt_def)
  from turn_continues [OF w1(1-4) m1(4) l(2) plain w1(5,6) t(3,4) more, of junk pj] obtain c1 bs' m rest where
    c: "print_all [''shell-> ''] (con (mach ?w1)) = Some c1"
      "terminal_of (display_ibuf c1) = fold (term_char (con_attr c)) (''shell-> '' @ ?l) blank_terminal"
      "shell_turn io press junk pj (e @ bs2) ?w1
        = map_option (Pair bs') (run_line io junk pj (?w1\<lparr>mach := m, line_buf := fst (fold edit ds (?l, False)) @ NUL # rest\<rparr>))"
      "concat bs' = []" "on_screen (con m)" "kbd m = idle_keys" by blast
  have l2: "fst (fold edit ds (?l, False)) = fst (fold edit (cs @ ds) ([], False))" using l(1) by simp
  have "terminal_of (con m1) = blank_terminal" using clear_terminal [of c] by (simp add: m1(3) blank_terminal_def displays_def)
  with c l2 m1(5) shell_turn_more [OF m1(1), of bs2] show ?thesis
    by (intro exI [of _ "e @ bs2"] exI [of _ ?w1] exI [of _ c1] exI [of _ bs'] exI [of _ m] exI [of _ rest]) simp
qed

text \<open>The keys of \<open>set %x 1\<close>, then the clear key, then \<open>13\<close>.\<close>

theorem clear_key_keeps_line_witness:
  "\<exists>bs1 w1 c1 bs' m rest. shell_turn model_pc model_press [] (\<lambda>i. blank_token)
      ([concat (map keystrokes (''set '' @ SIGIL_INT_VAR # ''x 1'')), [LCTRL, L_KEY]] @
       [[L_KEY + 128], [LCTRL + 128] @ concat (map keystrokes ''13'') @ [ENTER]]) start_world = Some (bs1, w1) \<and>
    print_all [''shell-> ''] (con (mach w1)) = Some c1 \<and>
    terminal_of (display_ibuf c1)
      = fold (term_char (con_attr (con quiet_machine))) (''shell-> set '' @ SIGIL_INT_VAR # ''x 1'') blank_terminal \<and>
    shell_turn model_pc model_press [] (\<lambda>i. blank_token) bs1 w1 = map_option (Pair bs')
      (run_line model_pc [] (\<lambda>i. blank_token) (w1\<lparr>mach := m, line_buf := (''set '' @ SIGIL_INT_VAR # ''x 113'') @ NUL # rest\<rparr>))"
proof -
  let ?cs = "''set '' @ SIGIL_INT_VAR # ''x 1''"
  have "numeral_text True 10 113 = ''113''" by (simp add: numeral_text.simps digit_chars_def)
  then have "types_assignment (''set '' @ SIGIL_INT_VAR # ''x '' @ ''113'') (''x'', TYPE_INT) (V_int 113)"
    using typed_set_x [of 113 "''113''"] by simp
  then have t: "list_all typable (?cs @ ''13'')" "ch_lf \<notin> set (?cs @ ''13'')" by (simp_all add: types_assignment_def)
  have e: "fst (fold edit ?cs ([], False)) = ?cs" "fst (fold edit (?cs @ ''13'') ([], False)) = ''set '' @ SIGIL_INT_VAR # ''x 113''"
    by (simp_all add: edit_def ch_defs SIGIL_INT_VAR_def IBUF_SIZE_def)
  have "concat [concat (map keystrokes ?cs), [LCTRL, L_KEY]] = concat (map keystrokes ?cs) @ [LCTRL, L_KEY]"
    "concat [[L_KEY + 128], [LCTRL + 128] @ concat (map keystrokes ''13'') @ [ENTER]]
      = [L_KEY + 128, LCTRL + 128] @ concat (map keystrokes ''13'') @ [ENTER]" by simp_all
  from clear_key_keeps_line [OF start_world_ready(1) t this, of "[]" "\<lambda>i. blank_token", unfolded e] show ?thesis
    by (simp only: start_world_def world.simps append.simps) blast
qed

end
