(* ===== verification/Timer_Steps.thy ===== *)
theory Timer_Steps
  imports Timer
begin

text \<open>
  The timer operations in the steps that an interrupt can separate. Outside its critical sections an
  operation of \<open>lib/timer.c\<close> can be interrupted by the interval timer, whose handler walks and changes the
  list. A system is the timers together with the place the main program has reached in an operation; its
  steps are those of the main program and the ticks. The invariant holds in every reachable state.
\<close>

section \<open>The parts of the operations\<close>

text \<open>\<open>timer_start\<close> before the call of \<open>timer_list_add_timer\<close>.\<close>

definition reset_timer :: "nat \<Rightarrow> u32 \<Rightarrow> timers \<Rightarrow> timers" where
  "reset_timer t timeout = modify t (\<lambda>n. n\<lparr>prev_ref := None, next_ref := None, in_list := False,
     initial_counter := timeout, counter := timeout\<rparr>)"

text \<open>\<open>timer_list_remove_timer\<close>: its critical section, and the assignment behind it.\<close>

definition remove_section :: "nat \<Rightarrow> timers \<Rightarrow> timers" where
  "remove_section t = critical (\<lambda>s.
     let s = modify_ref (prev_ref (node s t)) (\<lambda>n. n\<lparr>next_ref := next_ref (node s t)\<rparr>) s;
         s = modify_ref (next_ref (node s t)) (\<lambda>n. n\<lparr>prev_ref := prev_ref (node s t)\<rparr>) s;
         s = (if Some t = head s then s\<lparr>head := next_ref (node s t)\<rparr> else s)
     in modify t (\<lambda>n. n\<lparr>in_list := False\<rparr>) s)"

definition clear_links :: "nat \<Rightarrow> timers \<Rightarrow> timers" where
  "clear_links t = modify t (\<lambda>n. n\<lparr>prev_ref := None, next_ref := None\<rparr>)"

text \<open>\<open>timer_restart\<close>: the assignment of the first scenario, and the critical section.\<close>

definition reload :: "nat \<Rightarrow> timers \<Rightarrow> timers" where
  "reload t = modify t (\<lambda>n. n\<lparr>counter := initial_counter n\<rparr>)"

definition restart_section :: "nat \<Rightarrow> timers \<Rightarrow> timers" where
  "restart_section t = critical (\<lambda>s. if \<not> in_list (node s t) then restart_triggered t s else reload t s)"

text \<open>Without interrupts in between, the parts make up the operations.\<close>

lemma operations_in_parts:
  "timer_start t n s = timer_list_add_timer t (reset_timer t n s)"
  "timer_list_remove_timer t s = (if in_list (node s t) then clear_links t (remove_section t s) else s)"
  "timer_restart irq t s = (if in_list (node s t) then restart_section t (irq s) else timer_list_add_timer t (reload t s))"
  by (simp_all add: timer_start_def reset_timer_def timer_list_remove_timer_def clear_links_def remove_section_def
      timer_restart_def restart_section_def reload_def restart_triggered_def Let_def cong: if_cong)

section \<open>The system\<close>

text \<open>Between operations, before \<open>timer_list_add_timer\<close>, inside \<open>timer_list_remove_timer\<close> before and after its
  critical section, and inside \<open>timer_restart\<close> before its critical section.\<close>

datatype timer_pc = Ready | Adding nat | Removing nat | Clearing nat | Restarting nat

record timer_system =
  sys_timers :: timers
  sys_pc :: timer_pc
  sys_live :: "nat set"

abbreviation sys_node :: "timer_system \<Rightarrow> nat \<Rightarrow> timer" where
  "sys_node s \<equiv> node (sys_timers s)"

text \<open>
  \<open>sys_live\<close> is the set of the timers started so far. The main program keeps to the rules of the interface:
  it operates on timers it has started, and starts or resumes none that is in the list.
\<close>

inductive timer_step :: "timer_system \<Rightarrow> timer_system \<Rightarrow> bool" where
  start: "sys_pc s = Ready \<Longrightarrow> t \<in> sys_live s \<longrightarrow> \<not> in_list (sys_node s t) \<Longrightarrow>
    timer_step s (s\<lparr>sys_timers := reset_timer t n (sys_timers s), sys_pc := Adding t, sys_live := insert t (sys_live s)\<rparr>)"
| add: "sys_pc s = Adding t \<Longrightarrow>
    timer_step s (s\<lparr>sys_timers := timer_list_add_timer t (sys_timers s), sys_pc := Ready\<rparr>)"
| stop: "sys_pc s = Ready \<Longrightarrow> t \<in> sys_live s \<Longrightarrow> in_list (sys_node s t) \<Longrightarrow> timer_step s (s\<lparr>sys_pc := Removing t\<rparr>)"
| remove: "sys_pc s = Removing t \<Longrightarrow>
    timer_step s (s\<lparr>sys_timers := remove_section t (sys_timers s), sys_pc := Clearing t\<rparr>)"
| clear: "sys_pc s = Clearing t \<Longrightarrow> timer_step s (s\<lparr>sys_timers := clear_links t (sys_timers s), sys_pc := Ready\<rparr>)"
| resume: "sys_pc s = Ready \<Longrightarrow> t \<in> sys_live s \<Longrightarrow> \<not> in_list (sys_node s t) \<Longrightarrow> counter (sys_node s t) \<noteq> 0 \<Longrightarrow>
    timer_step s (s\<lparr>sys_pc := Adding t\<rparr>)"
| restart_idle: "sys_pc s = Ready \<Longrightarrow> t \<in> sys_live s \<Longrightarrow> \<not> in_list (sys_node s t) \<Longrightarrow>
    timer_step s (s\<lparr>sys_timers := reload t (sys_timers s), sys_pc := Adding t\<rparr>)"
| restart_running: "sys_pc s = Ready \<Longrightarrow> t \<in> sys_live s \<Longrightarrow> in_list (sys_node s t) \<Longrightarrow> timer_step s (s\<lparr>sys_pc := Restarting t\<rparr>)"
| restart: "sys_pc s = Restarting t \<Longrightarrow>
    timer_step s (s\<lparr>sys_timers := restart_section t (sys_timers s), sys_pc := Ready\<rparr>)"
| flags: "sys_pc s = Ready \<Longrightarrow> timer_step s (s\<lparr>sys_timers := (sys_timers s)\<lparr>tm_eflags := e\<rparr>\<rparr>)"
| tick: "eflags_get_intr_flag (tm_eflags (sys_timers s)) \<Longrightarrow> timer_list_update (sys_timers s) = Some tm \<Longrightarrow>
    timer_step s (s\<lparr>sys_timers := tm\<rparr>)"

text \<open>A system starts with \<open>timer_list_init\<close>, whatever memory holds.\<close>

inductive timer_reachable :: "timer_system \<Rightarrow> bool" where
  init: "timer_reachable \<lparr>sys_timers = timer_list_init tm, sys_pc = Ready, sys_live = {}\<rparr>"
| step: "timer_reachable s \<Longrightarrow> timer_step s s' \<Longrightarrow> timer_reachable s'"

section \<open>The invariant\<close>

definition links_live :: "timer_system \<Rightarrow> nat set" where
  "links_live s = (case sys_pc s of Clearing t \<Rightarrow> sys_live s - {t} | _ \<Rightarrow> sys_live s)"

definition pc_ok :: "timer_system \<Rightarrow> bool" where
  "pc_ok s \<longleftrightarrow> (case sys_pc s of
      Ready \<Rightarrow> True
    | Adding t \<Rightarrow> t \<in> sys_live s \<and> \<not> in_list (sys_node s t)
    | Removing t \<Rightarrow> t \<in> sys_live s
    | Clearing t \<Rightarrow> t \<in> sys_live s \<and> \<not> in_list (sys_node s t)
    | Restarting t \<Rightarrow> t \<in> sys_live s \<and> initial_counter (sys_node s t) \<noteq> 0)"

text \<open>The list holds the timers \<open>ts\<close>; a timer whose timeout is 0 has the counter 0.\<close>

definition timer_inv :: "timer_system \<Rightarrow> nat list \<Rightarrow> bool" where
  "timer_inv s ts \<longleftrightarrow> timers_ok (sys_timers s) ts (links_live s) \<and> pc_ok s \<and>
     (\<forall>t \<in> sys_live s. initial_counter (sys_node s t) = 0 \<longrightarrow> counter (sys_node s t) = 0)"

lemma modify_other:
  assumes "t \<notin> set ts" "t \<notin> live"
  shows "timers_ok (modify t f s) ts live = timers_ok s ts live"
proof -
  have "linked (node (modify t f s)) p r ts None = linked (node s) p r ts None" for p r
    using assms(1) by (intro linked_cong) (auto simp: modify_def)
  then show ?thesis using assms by (auto simp: timers_ok_def chain_def modify_def)
qed

lemma timers_ok_eflags [simp]: "timers_ok (s\<lparr>tm_eflags := e\<rparr>) ts live = timers_ok s ts live"
  by (simp add: timers_ok_def chain_def)

lemma timers_ok_fewer: "timers_ok s ts live \<Longrightarrow> t \<notin> set ts \<Longrightarrow> timers_ok s ts (live - {t})"
  by (auto simp: timers_ok_def chain_def)

lemma timers_ok_in_list: "timers_ok s ts live \<Longrightarrow> t \<in> live \<Longrightarrow> in_list (node s t) \<longleftrightarrow> t \<in> set ts"
  unfolding timers_ok_def using chain_in_list by blast

text \<open>The fields that the list does not touch.\<close>

lemma initial_kept [simp]:
  "initial_counter (node (timer_list_add_timer t s) u) = initial_counter (node s u)"
  "initial_counter (node (timer_list_remove_timer t s) u) = initial_counter (node s u)"
  "initial_counter (node (remove_section t s) u) = initial_counter (node s u)"
  "initial_counter (node (clear_links t s) u) = initial_counter (node s u)"
  "initial_counter (node (reload t s) u) = initial_counter (node s u)"
  by (simp_all add: timer_list_add_timer_def timer_list_remove_timer_def remove_section_def clear_links_def reload_def
      critical_def modify_def modify_ref_def Let_def split: option.split)

lemma initial_restart [simp]: "initial_counter (node (restart_section t s) u) = initial_counter (node s u)"
  by (simp add: restart_section_def critical_def restart_triggered_def reload_def [symmetric] Let_def)

lemma tick_induct:
  assumes "timer_list_update s = Some s'"
    and "\<And>s t f. f = (\<lambda>n. n\<lparr>counter := counter n - 1\<rparr>) \<Longrightarrow> Q s (modify t f s)"
    and "\<And>s t. Q s (timer_list_remove_timer t s)"
    and "\<And>s. Q s s" "\<And>r s t. Q r s \<Longrightarrow> Q s t \<Longrightarrow> Q r t"
  shows "Q s s'"
proof (rule update_from.raw_induct [where P = "\<lambda>_. Q", OF _ assms(1) [unfolded timer_list_update_def]])
  fix f r s s'
  assume IH: "\<And>r s s'. f r s = Some s' \<Longrightarrow> Q s s'"
    and run: "(case r of None \<Rightarrow> Some s
      | Some t \<Rightarrow> let s = modify t (\<lambda>n. n\<lparr>counter := counter n - 1\<rparr>) s;
            s = if counter (node s t) = 0 then timer_list_remove_timer t s else s
        in f (next_ref (node s t)) s) = Some s'"
  show "Q s s'"
  proof (cases r)
    case (Some t)
    let ?s = "modify t (\<lambda>n. n\<lparr>counter := counter n - 1\<rparr>) s"
    let ?s' = "if counter (node ?s t) = 0 then timer_list_remove_timer t ?s else ?s"
    have "f (next_ref (node ?s' t)) ?s' = Some s'" using run Some by (simp add: Let_def)
    then have "Q ?s' s'" by (rule IH)
    moreover have "Q s ?s" by (rule assms(2)) (rule refl)
    moreover have "Q ?s ?s'" using assms(3,4) by simp
    ultimately show ?thesis using assms(5) by blast
  qed (use run assms(4) in simp)
qed

lemma tick_keeps:
  assumes "timer_list_update s = Some s'"
  shows "initial_counter (node s' u) = initial_counter (node s u) \<and> (\<not> in_list (node s u) \<longrightarrow> \<not> in_list (node s' u))"
  by (rule tick_induct [where Q = "\<lambda>s s'. initial_counter (node s' u) = initial_counter (node s u) \<and>
        (\<not> in_list (node s u) \<longrightarrow> \<not> in_list (node s' u))", OF assms])
    (auto simp: modify_def timer_list_remove_timer_def critical_def modify_ref_def Let_def split: option.splits)

text \<open>Each step keeps the invariant.\<close>

lemma reset_step:
  assumes "timers_ok s ts live" "t \<notin> set ts"
  shows "timers_ok (reset_timer t n s) ts (insert t live)"
proof -
  have "timers_ok (reset_timer t n s) ts (live - {t})"
    using timers_ok_fewer [OF assms] assms(2) by (simp add: reset_timer_def modify_other)
  then show ?thesis
    by (auto simp: timers_ok_def chain_def reset_timer_def modify_def)
qed

lemma add_step:
  assumes "timers_ok s ts live" "t \<in> live" "t \<notin> set ts"
  shows "timers_ok (timer_list_add_timer t s) (if counter (node s t) = 0 then ts else t # ts) live"
    and "counters (timer_list_add_timer t s) = counters s"
proof -
  have "timers_ok (timer_list_add_timer t s) (if counter (node s t) = 0 then ts else t # ts) live \<and>
      counters (timer_list_add_timer t s) = counters s"
  proof (cases "counter (node s t) = 0")
    case True
    then show ?thesis using assms(1) by (simp add: timer_list_add_timer_def)
  next
    case False
    have ch: "chain s ts live" and pr: "prev_ref (node s t) = None"
      using assms by (auto simp: timers_ok_def chain_def)
    note a = add_chain [OF ch assms(3) False pr]
    have "counter (node (timer_list_add_timer t s) u) = counter (node s u)" for u using a(2) by (rule fun_cong)
    then show ?thesis using a assms False by (auto simp: timers_ok_def insert_absorb)
  qed
  then show "timers_ok (timer_list_add_timer t s) (if counter (node s t) = 0 then ts else t # ts) live"
    "counters (timer_list_add_timer t s) = counters s" by simp_all
qed

lemma remove_step:
  assumes "timers_ok s ts live" "t \<in> live"
  shows "timers_ok (remove_section t s) (remove1 t ts) (live - {t})" "\<not> in_list (node (remove_section t s) t)"
    and "counters (remove_section t s) = counters s"
proof -
  have fresh: "t \<notin> set (remove1 t ts)" using assms(1) by (simp add: timers_ok_def chain_def set_remove1_eq)
  show "\<not> in_list (node (remove_section t s) t)"
    by (simp add: remove_section_def critical_def modify_def Let_def)
  have "timers_ok (remove_section t s) (remove1 t ts) (live - {t}) \<and> counters (remove_section t s) = counters s"
  proof (cases "t \<in> set ts")
    case True
    then have "timer_list_remove_timer t s = clear_links t (remove_section t s)"
      using timers_ok_in_list [OF assms] by (simp add: operations_in_parts)
    with stop_ok [OF assms] have ok: "timers_ok (clear_links t (remove_section t s)) (remove1 t ts) live"
      "counters (clear_links t (remove_section t s)) = counters s" by simp_all
    have "timers_ok (remove_section t s) (remove1 t ts) (live - {t})"
      using timers_ok_fewer [OF ok(1) fresh] modify_other [OF fresh, of "live - {t}"] by (simp add: clear_links_def)
    moreover have "counters (clear_links t (remove_section t s)) = counters (remove_section t s)"
      by (simp add: clear_links_def modify_def fun_eq_iff)
    ultimately show ?thesis using ok(2) by simp
  next
    case False
    then have t: "prev_ref (node s t) = None" "next_ref (node s t) = None" "\<not> in_list (node s t)"
      using assms by (auto simp: timers_ok_def chain_def)
    have "head s \<noteq> Some t" using assms(1) False by (cases ts) (auto simp: timers_ok_def chain_def)
    then have "remove_section t s = modify t (\<lambda>n. n\<lparr>in_list := False\<rparr>) s"
      using t by (simp add: remove_section_def critical_def modify_ref_def modify_def Let_def restore_intr_flag)
    then show ?thesis
      using timers_ok_fewer [OF assms(1) False] False
      by (simp add: modify_other remove1_idem modify_counters fun_upd_idem)
  qed
  then show "timers_ok (remove_section t s) (remove1 t ts) (live - {t})" "counters (remove_section t s) = counters s"
    by simp_all
qed

lemma clear_step:
  assumes "timers_ok s ts (live - {t})" "t \<in> live" "\<not> in_list (node s t)"
  shows "timers_ok (clear_links t s) ts live"
proof -
  have "t \<notin> set ts" using assms(1) by (auto simp: timers_ok_def chain_def)
  then have "timers_ok (clear_links t s) ts (live - {t})" using assms(1) by (simp add: clear_links_def modify_other)
  with assms(2,3) show ?thesis by (auto simp: timers_ok_def chain_def clear_links_def modify_def)
qed

lemma reload_step:
  assumes "timers_ok s ts live" "t \<in> set ts \<longrightarrow> initial_counter (node s t) \<noteq> 0"
  shows "timers_ok (reload t s) ts live"
proof -
  have "chain (reload t s) ts live" using assms(1) by (simp add: timers_ok_def reload_def modify_chain)
  then show ?thesis using assms by (auto simp: timers_ok_def reload_def modify_def)
qed

lemma restart_step:
  assumes "timers_ok s ts live" "t \<in> live" "initial_counter (node s t) \<noteq> 0"
  shows "timers_ok (restart_section t s) (if t \<in> set ts then ts else t # ts) live"
    and "counters (restart_section t s) = (counters s)(t := initial_counter (node s t))"
proof -
  let ?s = "s\<lparr>tm_eflags := intr_disable (tm_eflags s)\<rparr>"
  have ok: "timers_ok ?s ts live" using assms(1) by simp
  have iff: "in_list (node s t) \<longleftrightarrow> t \<in> set ts" by (rule timers_ok_in_list [OF assms(1,2)])
  have "timers_ok (restart_section t s) (if t \<in> set ts then ts else t # ts) live \<and>
      counters (restart_section t s) = (counters s)(t := initial_counter (node s t))"
  proof (cases "t \<in> set ts")
    case True
    then show ?thesis
      using reload_step [OF ok, of t] assms(3) iff
      by (simp add: restart_section_def critical_ok) (simp add: reload_def modify_counters)
  next
    case False
    then show ?thesis
      using restart_triggered_ok [OF ok assms(2) False] assms(3) iff by (simp add: restart_section_def critical_ok)
  qed
  then show "timers_ok (restart_section t s) (if t \<in> set ts then ts else t # ts) live"
    "counters (restart_section t s) = (counters s)(t := initial_counter (node s t))" by simp_all
qed

lemma tick_step:
  assumes "timers_ok s ts live"
  shows "\<exists>s' ts'. timer_list_update s = Some s' \<and> timers_ok s' ts' live \<and>
    (\<forall>u. initial_counter (node s' u) = initial_counter (node s u) \<and> (\<not> in_list (node s u) \<longrightarrow> \<not> in_list (node s' u)) \<and>
       (counter (node s u) = 0 \<longrightarrow> counter (node s' u) = 0))"
proof -
  obtain s' where s': "timer_list_update s = Some s'" "timers_ok s' (fst (tick ts (counters s))) live"
    "counters s' = snd (tick ts (counters s))" using update_tick [OF assms] by blast
  have "counter (node s' u) = 0" if "counter (node s u) = 0" for u
  proof -
    have "u \<notin> set ts" using that assms by (auto simp: timers_ok_def)
    then show ?thesis using tick_other [of u ts "counters s"] fun_cong [OF s'(3), of u] that by simp
  qed
  then show ?thesis using s' tick_keeps [OF s'(1)] by blast
qed

lemma counters_eq: "counters s = counters s' \<Longrightarrow> counter (node s u) = counter (node s' u)"
  by (rule fun_cong)

lemma timer_inv_step:
  assumes "timer_inv s ts" "timer_step s s'"
  shows "\<exists>ts'. timer_inv s' ts'"
proof -
  let ?tm = "sys_timers s" and ?live = "sys_live s"
  have inv: "timers_ok ?tm ts (links_live s)" "pc_ok s"
    "\<And>t. t \<in> ?live \<Longrightarrow> initial_counter (node ?tm t) = 0 \<Longrightarrow> counter (node ?tm t) = 0"
    using assms(1) by (auto simp: timer_inv_def)
  show ?thesis
    using assms(2)
  proof (cases rule: timer_step.cases)
    case (start t n)
    then have ok: "timers_ok ?tm ts ?live" using inv(1) by (simp add: links_live_def)
    have "t \<notin> set ts"
      using start(3) ok timers_ok_in_list [OF ok, of t] by (auto simp: timers_ok_def chain_def)
    with reset_step [OF ok, of t n] show ?thesis
      using start inv(3) by (intro exI [of _ ts]) (auto simp: timer_inv_def links_live_def pc_ok_def reset_timer_def modify_def)
  next
    case (add t)
    then have ok: "timers_ok ?tm ts ?live" and t: "t \<in> ?live" "t \<notin> set ts"
      using inv(1,2) timers_ok_in_list [of ?tm ts ?live t] by (auto simp: links_live_def pc_ok_def)
    show ?thesis
      using add add_step(1) [OF ok t] counters_eq [OF add_step(2) [OF ok t]] inv(3)
      by (intro exI [of _ "if counter (node ?tm t) = 0 then ts else t # ts"]) (simp add: timer_inv_def links_live_def pc_ok_def)
  next
    case (remove t)
    then have ok: "timers_ok ?tm ts ?live" "t \<in> ?live" using inv(1,2) by (simp_all add: links_live_def pc_ok_def)
    show ?thesis
      using remove remove_step(1,2) [OF ok] counters_eq [OF remove_step(3) [OF ok]] ok(2) inv(3)
      by (intro exI [of _ "remove1 t ts"]) (simp add: timer_inv_def links_live_def pc_ok_def)
  next
    case (clear t)
    then have ok: "timers_ok ?tm ts (?live - {t})" "t \<in> ?live" "\<not> in_list (node ?tm t)"
      using inv(1,2) by (simp_all add: links_live_def pc_ok_def)
    have "counter (node (clear_links t ?tm) u) = counter (node ?tm u)" for u by (simp add: clear_links_def modify_def)
    with clear clear_step [OF ok] inv(3) show ?thesis
      by (intro exI [of _ ts]) (simp add: timer_inv_def links_live_def pc_ok_def)
  next
    case (restart_idle t)
    then have ok: "timers_ok ?tm ts ?live" using inv(1) by (simp add: links_live_def)
    have t: "t \<notin> set ts" using restart_idle timers_ok_in_list [OF ok] by simp
    show ?thesis
      using restart_idle reload_step [OF ok, of t] t inv(3)
      by (intro exI [of _ ts]) (auto simp: timer_inv_def links_live_def pc_ok_def reload_def modify_def)
  next
    case (restart_running t)
    then have ok: "timers_ok ?tm ts ?live" using inv(1) by (simp add: links_live_def)
    have "counter (node ?tm t) \<noteq> 0" using restart_running timers_ok_in_list [OF ok] ok by (auto simp: timers_ok_def)
    then show ?thesis
      using restart_running inv(1,3) by (intro exI [of _ ts]) (auto simp: timer_inv_def links_live_def pc_ok_def)
  next
    case (restart t)
    then have ok: "timers_ok ?tm ts ?live" "t \<in> ?live" "initial_counter (node ?tm t) \<noteq> 0"
      using inv(1,2) by (simp_all add: links_live_def pc_ok_def)
    show ?thesis
      using restart restart_step(1) [OF ok] fun_cong [OF restart_step(2) [OF ok]] ok(3) inv(3)
      by (intro exI [of _ "if t \<in> set ts then ts else t # ts"]) (simp add: timer_inv_def links_live_def pc_ok_def)
  next
    case (tick tm)
    obtain ts' where t: "timers_ok tm ts' (links_live s)"
      "\<forall>u. initial_counter (node tm u) = initial_counter (node ?tm u) \<and> (\<not> in_list (node ?tm u) \<longrightarrow> \<not> in_list (node tm u)) \<and>
         (counter (node ?tm u) = 0 \<longrightarrow> counter (node tm u) = 0)"
      using tick_step [OF inv(1)] tick(3) by auto
    have "links_live s' = links_live s" "pc_ok s'"
      using tick(1) inv(2) t(2) by (auto simp: links_live_def pc_ok_def split: timer_pc.splits)
    then show ?thesis using tick(1) t inv(3) by (intro exI [of _ ts']) (simp add: timer_inv_def)
  qed (use inv in \<open>auto simp: timer_inv_def links_live_def pc_ok_def split: timer_pc.splits\<close>)
qed

section \<open>Property\<close>

lemma timer_inv_reachable: "timer_reachable s \<Longrightarrow> \<exists>ts. timer_inv s ts"
proof (induction rule: timer_reachable.induct)
  case (init tm)
  show ?case
    by (intro exI [of _ "[]"]) (simp add: timer_inv_def links_live_def pc_ok_def timers_ok_def chain_def timer_list_init_def)
next
  case (step s s')
  then show ?case using timer_inv_step by blast
qed

text \<open>C28. The timers at every moment. However the interval timer interrupts the main program between the parts
  of its timer operations, the list is a well formed doubly linked list without repetitions, it holds exactly
  the started timers that are marked as being in it, none of them is triggered, and the interrupt handler
  that walks it comes to its end.\<close>

theorem timers_safe:
  assumes "timer_reachable s"
  shows "\<exists>ts. linked (sys_node s) None (head (sys_timers s)) ts None \<and> distinct ts \<and> set ts \<subseteq> sys_live s \<and>
    (\<forall>t \<in> sys_live s. in_list (sys_node s t) = (t \<in> set ts)) \<and>
    (\<forall>t \<in> set ts. \<not> timer_is_triggered t (sys_timers s)) \<and> (\<exists>tm. timer_list_update (sys_timers s) = Some tm)"
proof -
  obtain ts where inv: "timer_inv s ts" using timer_inv_reachable [OF assms] by blast
  then have ok: "timers_ok (sys_timers s) ts (links_live s)" by (simp add: timer_inv_def)
  have "in_list (sys_node s t) = (t \<in> set ts)" if "t \<in> sys_live s" for t
  proof (cases "t \<in> links_live s")
    case True
    then show ?thesis by (rule timers_ok_in_list [OF ok])
  next
    case False
    then have "t \<notin> set ts" "\<not> in_list (sys_node s t)"
      using that inv ok by (auto simp: timer_inv_def links_live_def pc_ok_def timers_ok_def chain_def split: timer_pc.splits)
    then show ?thesis by simp
  qed
  moreover have "links_live s \<subseteq> sys_live s" by (auto simp: links_live_def split: timer_pc.splits)
  ultimately show ?thesis
    using ok tick_step [OF ok] by (intro exI [of _ ts]) (auto simp: timers_ok_def chain_def timer_is_triggered_def)
qed

lemma reachable_started:
  "timer_reachable \<lparr>sys_timers = timer_list_add_timer t (reset_timer t n (timer_list_init tm)), sys_pc = Ready, sys_live = {t}\<rparr>"
proof -
  let ?s = "\<lparr>sys_timers = timer_list_init tm, sys_pc = Ready, sys_live = {}\<rparr>"
  have "timer_reachable (?s\<lparr>sys_timers := reset_timer t n (sys_timers ?s), sys_pc := Adding t, sys_live := insert t (sys_live ?s)\<rparr>)"
    by (rule timer_reachable.step [OF timer_reachable.init timer_step.start]) simp_all
  from timer_reachable.step [OF this timer_step.add] show ?thesis by simp
qed

theorem timers_safe_witness:
  "\<exists>s ts. timer_reachable s \<and> sys_pc s = Removing 1 \<and> sys_live s = {1} \<and> eflags_get_intr_flag (tm_eflags (sys_timers s)) \<and>
    linked (sys_node s) None (head (sys_timers s)) ts None \<and> (\<exists>tm. timer_list_update (sys_timers s) = Some tm)"
proof -
  let ?tm = "timer_list_add_timer 1 (reset_timer 1 3 no_timers)"
  let ?s = "\<lparr>sys_timers = ?tm, sys_pc = Ready, sys_live = {1}\<rparr>"
  have *: "timer_reachable ?s" using reachable_started by (simp add: no_timers_def)
  have "in_list (node ?tm 1) \<and> tm_eflags ?tm = 0x202"
    by (simp add: timer_list_add_timer_def reset_timer_def no_timers_def timer_list_init_def critical_def modify_def
        modify_ref_def restore_intr_flag Let_def)
  then have "in_list (node ?tm 1)" "eflags_get_intr_flag (tm_eflags ?tm)"
    by (simp_all add: eflags_get_intr_flag_def EFLAGS_IF_def)
  then have "timer_reachable (?s\<lparr>sys_pc := Removing 1\<rparr>)"
    by (intro timer_reachable.step [OF * timer_step.stop]) simp_all
  from this timers_safe [OF this] show ?thesis
    using \<open>eflags_get_intr_flag (tm_eflags ?tm)\<close> by (intro exI [of _ "?s\<lparr>sys_pc := Removing 1\<rparr>"]) auto
qed

end
