(* ===== verification/Irq_Interface.thy ===== *)
theory Irq_Interface
  imports Keyboard
begin

text \<open>
  The delivery of interrupts: which line of the controllers reaches the processor, where the processor goes,
  and what a handler owes to both. The locale \<open>irq_handler\<close> states the contract between the hardware and a
  handler: it returns and ends its interrupt. The handlers of the keyboard and of the interval timer provide
  it in \<open>Irq_Delivery\<close>.
\<close>

section \<open>Requests\<close>

text \<open>
  A chip passes on a line that is not masked when no line of the same or of a higher priority is in service;
  line 0 has the highest priority. The slave asks over line 2 of the master.
\<close>

definition chip_requests :: "chip \<Rightarrow> nat \<Rightarrow> bool" where
  "chip_requests c n \<longleftrightarrow> expects c = 0 \<and> \<not> bit (imr c) n \<and> list_all (\<lambda>k. \<not> bit (in_service c) k) [0..<Suc n]"

definition requests :: "pics \<Rightarrow> nat \<Rightarrow> bool" where
  "requests p n \<longleftrightarrow>
     (if n < 8 then chip_requests (master p) n else chip_requests (slave p) (n - 8) \<and> chip_requests (master p) 2)"

definition vector_of :: "pics \<Rightarrow> nat \<Rightarrow> nat" where
  "vector_of p n = (if n < 8 then unat (vec (master p)) + n else unat (vec (slave p)) + (n - 8))"

text \<open>The processor acknowledges a line of the master.\<close>

definition ack_line :: "nat \<Rightarrow> pics \<Rightarrow> pics" where
  "ack_line n p = p\<lparr>master := (master p)\<lparr>in_service := set_bit n (in_service (master p))\<rparr>\<rparr>"

definition end_line :: "pics \<Rightarrow> pics" where
  "end_line p = p\<lparr>master := chip_eoi (master p)\<rparr>"

text \<open>The processor takes the interrupt of a line and finds the gate of \<open>isr\<close> within its table.\<close>

definition delivered :: "cpu \<Rightarrow> pics \<Rightarrow> nat \<Rightarrow> u32 \<Rightarrow> bool" where
  "delivered c p n isr \<longleftrightarrow> eflags_get_intr_flag (eflags c) \<and> requests p n \<and>
     8 * vector_of p n + 7 \<le> unat (fst (idtr c)) \<and> intr_gate_to isr (idt c ! vector_of p n)"

text \<open>The end of interrupt ends the line that was acknowledged last.\<close>

lemma clear_first_set:
  assumes "n \<in> set ns" "sorted ns" "\<forall>k \<le> n. \<not> bit x k" "n < 8"
  shows "clear_first ns (set_bit n x) = x"
  using assms(1,2)
proof (induction ns)
  case (Cons m ns)
  have undo: "unset_bit n (set_bit n x) = x"
    using assms(3) by (intro bit_word_eqI) (auto simp: bit_simps)
  show ?case
  proof (cases "m = n")
    case True
    then show ?thesis using assms(4) undo by (simp add: bit_simps)
  next
    case False
    with Cons have "m \<le> n" "n \<in> set ns" by auto
    then have "\<not> bit (set_bit n x) m" using False assms(3) by (simp add: bit_simps)
    then show ?thesis using Cons \<open>n \<in> set ns\<close> by simp
  qed
qed simp

lemma end_ack:
  assumes "n < 8" "requests p n"
  shows "end_line (ack_line n p) = p"
proof -
  have "\<forall>k \<le> n. \<not> bit (in_service (master p)) k"
    using assms by (auto simp: requests_def chip_requests_def list_all_iff)
  then have "clear_first [0..<8] (set_bit n (in_service (master p))) = in_service (master p)"
    using assms(1) by (intro clear_first_set) simp_all
  then show ?thesis by (simp add: end_line_def ack_line_def chip_eoi_def)
qed

section \<open>Handlers\<close>

text \<open>The interrupts of one line, one after the other; \<open>enter e\<close> is the acknowledgement of the event \<open>e\<close>.\<close>

primrec serve :: "('e \<Rightarrow> 's \<Rightarrow> 's) \<Rightarrow> ('s \<Rightarrow> 's option) \<Rightarrow> 'e list \<Rightarrow> 's \<Rightarrow> 's option" where
  "serve enter isr [] s = Some s"
| "serve enter isr (e # es) s = Option.bind (isr (enter e s)) (serve enter isr es)"

locale irq_handler =
  fixes view :: "'s \<Rightarrow> pics" and enter :: "'e \<Rightarrow> 's \<Rightarrow> 's" and isr :: "'s \<Rightarrow> 's option"
    and line :: nat and invar :: "'s \<Rightarrow> bool"
  assumes line_master: "line < 8"
    and enter_view: "invar s \<Longrightarrow> view (enter e s) = ack_line line (view s)"
    and enter_invar: "invar s \<Longrightarrow> invar (enter e s)"
    and isr_returns: "invar s \<Longrightarrow> \<exists>s'. isr s = Some s' \<and> invar s' \<and> view s' = end_line (view s)"
begin

text \<open>A handled interrupt leaves the controllers as they were: the next one is passed on again.\<close>

lemma serve_one:
  assumes "invar s" "requests (view s) line"
  obtains s' where "isr (enter e s) = Some s'" "invar s'" "view s' = view s"
  using isr_returns [OF enter_invar [OF assms(1), of e]] end_ack [OF line_master assms(2)]
  by (auto simp: enter_view [OF assms(1)])

lemma serve_all:
  assumes "invar s" "requests (view s) line"
  shows "\<exists>s'. serve enter isr es s = Some s' \<and> invar s' \<and> view s' = view s"
  using assms
proof (induction es arbitrary: s)
  case (Cons e es)
  obtain s1 where s1: "isr (enter e s) = Some s1" "invar s1" "view s1 = view s"
    using Cons.prems by (rule serve_one)
  then show ?case using Cons.IH [of s1] Cons.prems by simp
qed simp

text \<open>While a line of the same or of a higher priority is in service nothing is passed on.\<close>

lemma blocked:
  assumes "bit (in_service (master (view s))) k" "k \<le> line"
  shows "\<not> requests (view s) line"
  using assms line_master by (auto simp: requests_def chip_requests_def list_all_iff simp del: upt_Suc)

end

end
