(* ===== verification/Boot.thy ===== *)
theory Boot
  imports Shell_Props Ata_Identify Fat16_Props Elf32_Load Pit
begin

text \<open>
  \<open>main\<close> (\<open>main.c\<close>) and the handler of processor exceptions (\<open>lib/faults.c\<close>): the order in which the
  loader starts its components, reads \<open>kernel.elf\<close>, maps it and jumps to it, and what happens on an
  error. A step is a part of \<open>main\<close> up to the next \<open>goto error\<close>; \<open>None\<close> is a fault or a call that does not
  return.
\<close>

section \<open>State\<close>

text \<open>
  What the linker, the processor and the stack fix: the ports, the effect of a key press, the addresses
  of the table and of the handlers, the contents of CR0, and the uninitialised sector buffers of
  \<open>hdd_init\<close>.
\<close>

record 'd platform =
  pf_io :: "'d ports"
  pf_press :: "u8 \<Rightarrow> 'd \<Rightarrow> 'd"
  pf_idt_base :: u32
  pf_exception_handler :: u32
  pf_isrs :: "nat \<Rightarrow> u32"
  pf_pit_isr :: u32
  pf_keyboard_isr :: u32
  pf_cr0 :: u32
  pf_stack1 :: "u8 list"
  pf_stack2 :: "u8 list"

text \<open>
  The machine, the shell and the line of \<open>world\<close>, the state of the other components, the error of the ELF
  loader with its two message buffers, and the local variable \<open>jmp_addr\<close>. The device of the disk is the
  one of the machine.
\<close>

record 'd loader =
  ld_world :: "'d world"
  ld_ticks :: u32
  ld_timers :: timers
  ld_mmu :: mmu
  ld_elf_error :: elf_error
  ld_dyn_str_error :: "char list"
  ld_str_error :: "char list"
  ld_jmp_addr :: u32

text \<open>A step says whether \<open>main\<close> goes on (\<open>True\<close>) or to the label \<open>error\<close>.\<close>

type_synonym 'd step = "'d loader \<Rightarrow> (bool \<times> 'd loader) option"

fun run_steps :: "'d step list \<Rightarrow> 'd step" where
  "run_steps [] s = Some (True, s)"
| "run_steps (f # fs) s =
     (case f s of
        None \<Rightarrow> None
      | Some (ok, s') \<Rightarrow> if ok then run_steps fs s' else Some (False, s'))"

definition ld_mach :: "'d loader \<Rightarrow> 'd machine" where
  "ld_mach s = mach (ld_world s)"

definition set_mach :: "'d machine \<Rightarrow> 'd loader \<Rightarrow> 'd loader" where
  "set_mach m s = s\<lparr>ld_world := (ld_world s)\<lparr>mach := m\<rparr>\<rparr>"

definition ld_fat :: "'d loader \<Rightarrow> 'd disk fat" where
  "ld_fat s = (let fs = sh_fat (sh (ld_world s)) in fs\<lparr>fat_disk := (fat_disk fs)\<lparr>disk_dev := dev (ld_mach s)\<rparr>\<rparr>)"

definition set_fat :: "'d disk fat \<Rightarrow> 'd loader \<Rightarrow> 'd loader" where
  "set_fat fs s =
     (let w = ld_world s
      in s\<lparr>ld_world := w\<lparr>mach := (mach w)\<lparr>dev := disk_dev (fat_disk fs)\<rparr>, sh := (sh w)\<lparr>sh_fat := fs\<rparr>\<rparr>\<rparr>)"

section \<open>The steps of main\<close>

definition FILENAME :: "char list" where "FILENAME = ''kernel'' @ CHR ''.'' # ''elf'' @ [NUL]"
definition LOAD_BUF_SIZE :: u32 where "LOAD_BUF_SIZE = 1048576"
definition mem_load_addr :: u32 where "mem_load_addr = 0x200000"

definition say :: "char list \<Rightarrow> karg list \<Rightarrow> 'd step" where
  "say fmt args s =
     (case kprintf fmt args of
        None \<Rightarrow> None
      | Some t \<Rightarrow> map_option (\<lambda>c. (True, set_mach ((ld_mach s)\<lparr>con := c\<rparr>) s)) (print_all [t] (con (ld_mach s))))"

definition interrupts_off :: "'d step" where
  "interrupts_off s =
     Some (True, set_mach ((ld_mach s)\<lparr>proc := (proc (ld_mach s))\<lparr>eflags := intr_disable (eflags (proc (ld_mach s)))\<rparr>\<rparr>) s)"

definition start_interrupts :: "'d platform \<Rightarrow> 'd step" where
  "start_interrupts pf s =
     (let m = ld_mach s;
          m = m\<lparr>dev := pic_init (pf_io pf) (dev m)\<rparr>;
          m = m\<lparr>proc := snd (idt_init (pf_idt_base pf) (pf_exception_handler pf) (pf_isrs pf) (proc m))\<rparr>
      in Some (True, set_mach m s))"

definition start_pit :: "'d platform \<Rightarrow> 'd step" where
  "start_pit pf s =
     (let m = ld_mach s;
          (rc, p) = pit_init (pf_io pf) (pf_pit_isr pf)
            \<lparr>pit_proc = proc m, pit_dev = dev m, num_ticks = ld_ticks s, pit_timers = ld_timers s\<rparr>
      in Some (rc = 0, set_mach (m\<lparr>proc := pit_proc p, dev := pit_dev p\<rparr>) s
                 \<lparr>ld_ticks := num_ticks p, ld_timers := pit_timers p\<rparr>))"

definition start_console :: "'d platform \<Rightarrow> 'd step" where
  "start_console pf s = Some (True, set_mach (snd (console_start (pf_io pf) (pf_keyboard_isr pf) (ld_mach s))) s)"

definition start_paging :: "'d step" where
  "start_paging s =
     (let (rc, m) = paging_init (ld_mmu s)
      in if rc \<noteq> 0 then Some (False, s\<lparr>ld_mmu := m\<rparr>)
         else (let (rc, m) = paging_unmap 0 m
               in if rc \<noteq> 0 then Some (False, s\<lparr>ld_mmu := m\<rparr>)
                  else Some (True, s\<lparr>ld_mmu := paging_enable m\<rparr>)))"

definition start_hdd :: "'d platform \<Rightarrow> 'd step" where
  "start_hdd pf s =
     (let fs = ld_fat s
      in case hdd_init (pf_io pf) (pf_stack1 pf) (pf_stack2 pf) (fat_disk fs) of
           None \<Rightarrow> None
         | Some (rc, d) \<Rightarrow>
             (let fs = fs\<lparr>fat_disk := d\<rparr>
              in if rc \<noteq> 0 then Some (False, set_fat fs s)
                 else map_option (\<lambda>(rc, fs). (rc = 0, set_fat fs s)) (fat16_init (hdd_read_sector (pf_io pf)) 0 fs)))"

definition say_file_size :: "'d platform \<Rightarrow> 'd step" where
  "say_file_size pf s =
     (case fat16_get_file_size (hdd_read_sector (pf_io pf)) FILENAME (ld_fat s) of
        None \<Rightarrow> None
      | Some (n, fs) \<Rightarrow> say (''file size: %d'' @ [LF, NUL]) [Arg_int (of_int n)] (set_fat fs s))"

text \<open>The bytes at an address, read and written through the translation in force.\<close>

fun read_block :: "nat \<Rightarrow> u32 \<Rightarrow> mmu \<Rightarrow> u8 list option" where
  "read_block 0 va m = Some []"
| "read_block (Suc n) va m =
     (case virt_read8 va m of None \<Rightarrow> None | Some b \<Rightarrow> map_option ((#) b) (read_block n (va + 1) m))"

fun write_block :: "u8 list \<Rightarrow> u32 \<Rightarrow> mmu \<Rightarrow> mmu option" where
  "write_block [] va m = Some m"
| "write_block (b # bs) va m = Option.bind (virt_write8 va b m) (write_block bs (va + 1))"

text \<open>The buffer of \<open>fat16_load\<close> is the memory at \<open>mem_load_addr\<close>.\<close>

definition load_file :: "'d platform \<Rightarrow> 'd step" where
  "load_file pf s =
     (case read_block (unat LOAD_BUF_SIZE) mem_load_addr (ld_mmu s) of
        None \<Rightarrow> None
      | Some buf \<Rightarrow>
          (case fat16_load (hdd_read_sector (pf_io pf)) FILENAME buf LOAD_BUF_SIZE (ld_fat s) of
             None \<Rightarrow> None
           | Some (count, buf, fs) \<Rightarrow>
               (case write_block buf mem_load_addr (ld_mmu s) of
                  None \<Rightarrow> None
                | Some m \<Rightarrow>
                    (let s = set_fat fs s\<lparr>ld_mmu := m\<rparr>
                     in if count = -1
                        then map_option (\<lambda>(_, s). (False, s))
                          (say (''error while loading file %s'' @ [LF, NUL]) [Arg_str (Some FILENAME)] s)
                        else say (''read: %d bytes'' @ [LF, NUL]) [Arg_int (of_int count)] s))))"

definition elf_error_screen :: "'d step" where
  "elf_error_screen s =
     (case elf32_strerror (ld_dyn_str_error s) (ld_elf_error s) of
        None \<Rightarrow> None
      | Some t \<Rightarrow>
          (case ksprintf (ld_str_error s) (''error while mapping ELF: %s'' @ [LF, NUL]) [Arg_str (Some t)] of
             None \<Rightarrow> None
           | Some str \<Rightarrow>
               (let c = con (ld_mach s)
                in map_option (\<lambda>(_, c). (False, set_mach ((ld_mach s)\<lparr>con := c\<rparr>) s\<lparr>ld_str_error := str\<rparr>))
                     (console_puts_err (Some str) (c\<lparr>con_vga := vga_set_bsod (con_vga c)\<rparr>)))))"

definition map_kernel :: "'d step" where
  "map_kernel s =
     (case kernel_elf32_map mem_load_addr (ld_elf_error s) (ld_mmu s) of
        None \<Rightarrow> None
      | Some (jmp_addr, err, m) \<Rightarrow>
          (let s = s\<lparr>ld_elf_error := err, ld_mmu := m, ld_jmp_addr := jmp_addr\<rparr>
           in if jmp_addr = 0 then elf_error_screen s else Some (True, s)))"

definition say_jmp_addr :: "'d step" where
  "say_jmp_addr s = say (''jmp addr: %x'' @ [LF, NUL]) [Arg_int (ld_jmp_addr s)] s"

definition say_paddr :: "'d step" where
  "say_paddr s =
     (case paging_vaddr2paddr (ld_jmp_addr s) (ld_mmu s) of
        None \<Rightarrow> None
      | Some paddr \<Rightarrow> say (''vaddr: %x => paddr: %x'' @ [LF, NUL]) [Arg_int (ld_jmp_addr s), Arg_int paddr] s)"

section \<open>main\<close>

definition start_up :: "'d platform \<Rightarrow> 'd step list" where
  "start_up pf =
     [interrupts_off, start_interrupts pf, start_pit pf, start_console pf,
      say (''kboot86'' @ [LF, NUL]) []]"

definition paging_steps :: "'d platform \<Rightarrow> 'd step list" where
  "paging_steps pf =
     [say (''initializing paging...'' @ [NUL]) [], start_paging, say (''ok'' @ [LF, NUL]) [],
      say (''CR0: %08x'' @ [LF, NUL]) [Arg_int (pf_cr0 pf)]]"

definition hdd_steps :: "'d platform \<Rightarrow> 'd step list" where
  "hdd_steps pf =
     [say (''initializing hdd...'' @ [NUL]) [], start_hdd pf, say (''ok'' @ [LF, NUL]) []]"

definition load_steps :: "'d platform \<Rightarrow> 'd step list" where
  "load_steps pf = [say_file_size pf, load_file pf, map_kernel, say_jmp_addr, say_paddr, interrupts_off]"

text \<open>Up to the jump (\<open>True\<close>, to \<open>ld_jmp_addr\<close>) or to the label \<open>error\<close>, with its message.\<close>

definition boot :: "'d platform \<Rightarrow> 'd step" where
  "boot pf s =
     (case run_steps (start_up pf @ paging_steps pf @ hdd_steps pf @ load_steps pf) s of
        None \<Rightarrow> None
      | Some (True, s) \<Rightarrow> Some (True, s)
      | Some (False, s) \<Rightarrow>
          map_option (\<lambda>(_, s). (False, s)) (say ([LF] @ ''*** ERROR! ***'' @ [LF, NUL]) [] s))"

datatype boot_exit = Jump u32 | Rescue_shell "u8 list list"

text \<open>\<open>main\<close>, with \<open>n\<close> turns of the shell after an error and the key presses \<open>bs\<close>.\<close>

definition boot_main ::
    "nat \<Rightarrow> char list \<Rightarrow> (nat \<Rightarrow> token) \<Rightarrow> 'd platform \<Rightarrow> u8 list list \<Rightarrow> 'd loader \<Rightarrow> (boot_exit \<times> 'd loader) option" where
  "boot_main n junk pj pf bs s =
     (case boot pf s of
        None \<Rightarrow> None
      | Some (True, s) \<Rightarrow> Some (Jump (ld_jmp_addr s), s)
      | Some (False, s) \<Rightarrow>
          map_option (\<lambda>(bs, w). (Rescue_shell bs, s\<lparr>ld_world := w\<rparr>))
            (shell_do n (pf_io pf) (pf_press pf) junk pj bs (ld_world s)))"

text \<open>The screen on which \<open>exception_handler\<close> stays in its endless loop.\<close>

definition exception_handler :: "console \<Rightarrow> console option" where
  "exception_handler c =
     map_option snd (console_puts_err (Some (''hardware exception!'' @ [NUL])) (c\<lparr>con_vga := vga_set_bsod (con_vga c)\<rparr>))"

end
