(* ===== verification/Boot_Steps.thy ===== *)
theory Boot_Steps
  imports Boot
begin

text \<open>
  The steps of \<open>main\<close>: what each of them keeps (interrupts off, no waiting line), and what they print. The
  screen is followed through the terminal that the console implements.
\<close>

section \<open>What every step keeps\<close>

text \<open>A step that keeps \<open>P\<close>, and one that establishes \<open>Q\<close> from \<open>P\<close>, wherever it goes on.\<close>

definition leads :: "('d loader \<Rightarrow> bool) \<Rightarrow> 'd step \<Rightarrow> ('d loader \<Rightarrow> bool) \<Rightarrow> bool" where
  "leads P f Q \<longleftrightarrow> (\<forall>s ok s'. P s \<longrightarrow> f s = Some (ok, s') \<longrightarrow> Q s')"

lemma leads_run:
  assumes "\<forall>f \<in> set fs. leads P f P"
  shows "leads P (run_steps fs) P"
  using assms
proof (induction fs)
  case (Cons f fs)
  have f: "leads P f P" and fs: "leads P (run_steps fs) P" using Cons by simp_all
  show ?case
    unfolding leads_def
  proof (intro allI impI)
    fix s ok s' assume s: "P s" "run_steps (f # fs) s = Some (ok, s')"
    then obtain ok1 s1 where s1: "f s = Some (ok1, s1)" "(if ok1 then run_steps fs s1 else Some (False, s1)) = Some (ok, s')"
      by (cases "f s") auto
    have "P s1" using f [unfolded leads_def, rule_format, OF s(1) s1(1)] .
    then show "P s'" using fs [unfolded leads_def, rule_format, of s1 ok s'] s1(2) by (cases ok1) auto
  qed
qed (simp add: leads_def)

lemma run_steps_append:
  "run_steps (fs @ gs) s =
     (case run_steps fs s of None \<Rightarrow> None | Some (ok, s') \<Rightarrow> if ok then run_steps gs s' else Some (False, s'))"
  by (induction fs arbitrary: s) (auto split: option.split)

definition interrupts_on :: "'d loader \<Rightarrow> bool" where
  "interrupts_on s \<longleftrightarrow> eflags_get_intr_flag (eflags (proc (ld_mach s)))"

text \<open>Interrupts are off, and no line is waiting in the console.\<close>

definition asleep :: "'d loader \<Rightarrow> bool" where
  "asleep s \<longleftrightarrow> \<not> interrupts_on s \<and> \<not> line_completed (con (ld_mach s))"

lemma ld_simps [simp]:
  "ld_mach (set_mach m s) = m" "ld_mmu (set_mach m s) = ld_mmu s" "sh (ld_world (set_mach m s)) = sh (ld_world s)"
  "ld_elf_error (set_mach m s) = ld_elf_error s" "ld_jmp_addr (set_mach m s) = ld_jmp_addr s"
  "ld_mach (s\<lparr>ld_mmu := p\<rparr>) = ld_mach s" "ld_mach (s\<lparr>ld_elf_error := e\<rparr>) = ld_mach s"
  "ld_mach (s\<lparr>ld_jmp_addr := a\<rparr>) = ld_mach s" "ld_mach (s\<lparr>ld_str_error := t\<rparr>) = ld_mach s"
  "ld_mach (s\<lparr>ld_ticks := k\<rparr>) = ld_mach s" "ld_mach (s\<lparr>ld_timers := ts\<rparr>) = ld_mach s"
  "ld_mach (set_fat fs s) = (ld_mach s)\<lparr>dev := disk_dev (fat_disk fs)\<rparr>" "ld_mmu (set_fat fs s) = ld_mmu s"
  "ld_elf_error (set_fat fs s) = ld_elf_error s"
  by (simp_all add: ld_mach_def set_mach_def set_fat_def Let_def)

lemma flag_off [simp]: "\<not> eflags_get_intr_flag (intr_disable e)"
  by (simp add: eflags_get_intr_flag_def intr_disable_def bit_unset_bit_iff)

lemma flag_restored [simp]: "eflags_get_intr_flag (eflags_set_intr_flag b e) = b"
  by (simp add: eflags_get_intr_flag_def eflags_set_intr_flag_def bit_set_bit_iff bit_unset_bit_iff EFLAGS_IF_def)

lemma putc_line [simp]: "line_completed (snd (console_putc c d s)) = line_completed s"
  by (simp add: console_putc_def case_prod_beta Let_def)

lemma puts_from_line: "puts_from buf i s = Some (n, s') \<Longrightarrow> line_completed s' = line_completed s"
  by (induction buf arbitrary: i s) (auto split: if_splits)

lemma console_puts_line: "console_puts t s = Some (n, s') \<Longrightarrow> line_completed s' = line_completed s"
  by (auto simp: console_puts_def split: option.splits dest: puts_from_line)

lemma print_all_line: "print_all ts c = Some c' \<Longrightarrow> line_completed c' = line_completed c"
  by (induction ts arbitrary: c) (auto split: option.splits dest: console_puts_line)

lemma console_puts_err_line: "console_puts_err t s = Some (n, s') \<Longrightarrow> line_completed s' = line_completed s"
  by (auto simp: console_puts_err_def dest: console_puts_line)

lemma say_asleep: "leads asleep (say fmt args) asleep"
  by (auto simp: leads_def say_def asleep_def interrupts_on_def split: option.splits dest: console_puts_line)

lemma pit_init_fine: "fst (pit_init io isr s) = 0"
  by (simp add: pit_init_def set_freq_hz_def FREQ_HZ_MAX_def FREQ_HZ_MIN_def DIV_MAX_def Let_def case_prod_beta)

text \<open>The first four steps always go on.\<close>

lemma devices_start:
  obtains s1 where "\<And>fs. run_steps (interrupts_off # start_interrupts pf # start_pit pf # start_console pf # fs) s = run_steps fs s1"
    and "\<not> interrupts_on s1" and "con (ld_mach s1) = console_init (con (ld_mach s))"
    and "ld_mmu s1 = ld_mmu s" and "sh (ld_world s1) = sh (ld_world s)"
    and "ld_elf_error s1 = ld_elf_error s"
proof -
  obtain s2 where s2: "interrupts_off s = Some (True, s2)" "\<not> interrupts_on s2" "con (ld_mach s2) = con (ld_mach s)"
    "ld_mmu s2 = ld_mmu s" "sh (ld_world s2) = sh (ld_world s)" "ld_elf_error s2 = ld_elf_error s"
    by (simp add: interrupts_off_def interrupts_on_def)
  obtain s3 where s3: "start_interrupts pf s2 = Some (True, s3)" "\<not> interrupts_on s3" "con (ld_mach s3) = con (ld_mach s2)"
    "ld_mmu s3 = ld_mmu s2" "sh (ld_world s3) = sh (ld_world s2)" "ld_elf_error s3 = ld_elf_error s2"
    using s2(2) by (simp add: start_interrupts_def interrupts_on_def Let_def idt_init_def)
  obtain s4 where s4: "start_pit pf s3 = Some (True, s4)" "\<not> interrupts_on s4" "con (ld_mach s4) = con (ld_mach s3)"
    "ld_mmu s4 = ld_mmu s3" "sh (ld_world s4) = sh (ld_world s3)" "ld_elf_error s4 = ld_elf_error s3"
  proof
    let ?p = "snd (pit_init (pf_io pf) (pf_pit_isr pf) \<lparr>pit_proc = proc (ld_mach s3), pit_dev = dev (ld_mach s3),
        num_ticks = ld_ticks s3, pit_timers = ld_timers s3\<rparr>)"
    let ?s = "set_mach ((ld_mach s3)\<lparr>proc := pit_proc ?p, dev := pit_dev ?p\<rparr>) s3\<lparr>ld_ticks := num_ticks ?p, ld_timers := pit_timers ?p\<rparr>"
    show "start_pit pf s3 = Some (True, ?s)"
      using pit_init_fine by (simp add: start_pit_def Let_def case_prod_beta)
    have "eflags_get_intr_flag (eflags (pit_proc ?p)) = interrupts_on s3"
      by (simp add: pit_init_def Let_def case_prod_beta interrupts_on_def)
    with s3(2) show "\<not> interrupts_on ?s" by (simp add: interrupts_on_def)
    show "sh (ld_world ?s) = sh (ld_world s3)" by (simp add: set_mach_def)
    show "ld_elf_error ?s = ld_elf_error s3" by (simp add: set_mach_def)
    show "ld_mmu ?s = ld_mmu s3" by (simp add: set_mach_def)
  qed simp
  obtain s5 where s5: "start_console pf s4 = Some (True, s5)" "\<not> interrupts_on s5" "con (ld_mach s5) = console_init (con (ld_mach s4))"
    "ld_mmu s5 = ld_mmu s4" "sh (ld_world s5) = sh (ld_world s4)" "ld_elf_error s5 = ld_elf_error s4"
    using s4(2) by (simp add: start_console_def console_start_def keyboard_init_def keyboard_enable_irq_def
        interrupts_on_def Let_def)
  show thesis
    by (rule that [of s5]) (use s2 s3 s4 s5 in simp_all)
qed

lemma elf_error_screen_asleep: "leads asleep elf_error_screen asleep"
  by (auto simp: leads_def elf_error_screen_def asleep_def interrupts_on_def Let_def split: option.splits
      dest: console_puts_err_line)

lemma elf_error_screen_asleepD: "elf_error_screen s = Some (ok, s') \<Longrightarrow> asleep s \<Longrightarrow> asleep s'"
  using elf_error_screen_asleep unfolding leads_def by blast

lemma set_fat_asleep [simp]: "asleep (set_fat fs s) = asleep s" "asleep (s\<lparr>ld_mmu := m\<rparr>) = asleep s"
    "asleep (s\<lparr>ld_elf_error := e\<rparr>) = asleep s" "asleep (s\<lparr>ld_jmp_addr := a\<rparr>) = asleep s"
  by (simp_all add: asleep_def interrupts_on_def)

lemma say_asleepD: "say fmt args s = Some (ok, s') \<Longrightarrow> asleep s \<Longrightarrow> asleep s'"
  using say_asleep unfolding leads_def by blast

lemma steps_asleep:
  "leads asleep interrupts_off asleep" "leads asleep start_paging asleep" "leads asleep (start_hdd pf) asleep"
  "leads asleep (say_file_size pf) asleep" "leads asleep (load_file pf) asleep" "leads asleep map_kernel asleep"
  "leads asleep say_jmp_addr asleep" "leads asleep say_paddr asleep"
proof -
  show "leads asleep interrupts_off asleep"
    by (simp add: leads_def interrupts_off_def asleep_def interrupts_on_def)
  show "leads asleep start_paging asleep"
    by (auto simp: leads_def start_paging_def Let_def case_prod_beta split: if_splits)
  show "leads asleep (start_hdd pf) asleep"
    by (auto simp: leads_def start_hdd_def Let_def split: option.splits if_splits)
  show "leads asleep (say_file_size pf) asleep"
    by (auto simp: leads_def say_file_size_def split: option.splits dest: say_asleepD)
  show "leads asleep (load_file pf) asleep"
    by (auto simp: leads_def load_file_def Let_def split: option.splits if_splits dest!: say_asleepD)
  show "leads asleep map_kernel asleep"
    by (auto simp: leads_def map_kernel_def Let_def split: option.splits if_splits dest!: elf_error_screen_asleepD)
  show "leads asleep say_jmp_addr asleep" "leads asleep say_paddr asleep"
    by (auto simp: leads_def say_jmp_addr_def say_paddr_def split: option.splits dest: say_asleepD)
qed

lemma boot_asleep: "boot pf s = Some (ok, s') \<Longrightarrow> asleep s'"
proof -
  assume b: "boot pf s = Some (ok, s')"
  let ?rest = "say (''kboot86'' @ [LF, NUL]) [] # paging_steps pf @ hdd_steps pf @ load_steps pf"
  obtain s1 where s1: "run_steps (start_up pf @ paging_steps pf @ hdd_steps pf @ load_steps pf) s = run_steps ?rest s1"
    "\<not> interrupts_on s1" "con (ld_mach s1) = console_init (con (ld_mach s))"
    by (rule devices_start [of pf s]) (simp add: start_up_def)
  have "asleep s1" using s1(2,3) by (simp add: asleep_def console_init_def)
  moreover have "leads asleep (run_steps ?rest) asleep"
    by (intro leads_run) (auto simp: paging_steps_def hdd_steps_def load_steps_def say_asleep steps_asleep)
  ultimately have "asleep s2" if "run_steps ?rest s1 = Some (ok', s2)" for ok' s2
    using that unfolding leads_def by blast
  with b show ?thesis
    unfolding boot_def s1(1) by (auto split: option.splits bool.splits dest: say_asleepD)
qed

section \<open>The rescue shell\<close>

lemma display_ibuf_line: "line_completed (display_ibuf c) = line_completed c"
proof -
  have "line_completed (fold (\<lambda>i s. snd (console_putc (f s i) True s)) xs c) = line_completed c" for f xs
    by (induction xs arbitrary: c) simp_all
  then show ?thesis by (simp add: display_ibuf_def)
qed

lemma get_line_asleep:
  assumes "\<not> eflags_get_intr_flag (eflags (proc m))" "\<not> line_completed (con m)"
  shows "console_get_line io press bs buf len m = None"
  using assms by (auto simp: console_get_line_def get_line_from.simps [of io press bs] keyboard_disable_irq_def
      keyboard_enable_irq_def display_ibuf_line)

lemma shell_asleep:
  assumes "\<not> eflags_get_intr_flag (eflags (proc (mach w)))" "\<not> line_completed (con (mach w))"
  shows "shell_do (Suc n) io press junk pj bs w = None"
proof -
  have "shell_turn io press junk pj bs (w\<lparr>mach := (mach w)\<lparr>con := c\<rparr>\<rparr>) = None" if "\<not> line_completed c" for c
    using that assms(1) by (auto simp: shell_turn_def Let_def get_line_asleep split: option.split dest: console_puts_line)
  then show ?thesis
    using assms(2) by (auto simp: shell_do_def split: option.split dest: console_puts_line)
qed

section \<open>What main prints\<close>

definition printable :: "char list \<Rightarrow> bool" where
  "printable t \<longleftrightarrow> NUL \<notin> set t \<and> ch_bs \<notin> set t \<and> ch_cr \<notin> set t"

lemma numeral_text_chars:
  assumes "2 \<le> b" "b \<le> 36"
  shows "set (numeral_text small b n) \<subseteq> set (digit_chars small)"
proof (induction n rule: less_induct)
  case (less n)
  have d: "length (digit_chars small) = 36" by (simp add: digit_chars_def)
  show ?case
  proof (cases "n < b")
    case True
    with d assms show ?thesis by (simp add: numeral_text.simps [of small b n])
  next
    case False
    then have "n div b < n" using assms by simp
    moreover have "n mod b < length (digit_chars small)"
      unfolding d using assms by (intro less_le_trans [OF mod_less_divisor]) auto
    ultimately show ?thesis
      using less.IH [of "n div b"] False assms by (simp add: numeral_text.simps [of small b n])
  qed
qed

lemma numeral_text_short:
  "2 \<le> b \<Longrightarrow> n < b ^ Suc k \<Longrightarrow> length (numeral_text small b n) \<le> Suc k"
proof (induction k arbitrary: n)
  case 0
  then show ?case by (simp add: numeral_text.simps [of small b n])
next
  case (Suc k)
  have "n div b < b ^ Suc k" using Suc.prems by (simp add: less_mult_imp_div_less mult.commute)
  with Suc show ?case by (simp add: numeral_text.simps [of small b n])
qed

lemma digit_chars_printable: "printable (digit_chars small)"
  by (simp add: printable_def digit_chars_def ch_defs)

lemma numeral_text_fine:
  "b = 10 \<or> b = 16 \<Longrightarrow> n < 2 ^ 32 \<Longrightarrow> printable (numeral_text small b n) \<and> length (numeral_text small b n) \<le> 10"
  using numeral_text_chars [of b small n] digit_chars_printable [of small] numeral_text_short [of 10 n 9 small]
    numeral_text_short [of 16 n 7 small]
  unfolding printable_def by auto

lemma number_text_fine:
  assumes "b = 10 \<or> b = 16" "w \<le> 8" "\<not> has f PLUS" "\<not> has f SPACE" "\<not> has f SPECIAL"
  shows "printable (number_text n b w (-1) f)" "length (number_text n b w (-1) f) \<le> 19"
proof -
  have b: "unat b = 10 \<or> unat b = 16" using assms(1) by auto
  have m: "magnitude f n < 2 ^ 32" using unsigned_less [of n, where 'a = nat] unsigned_less [of "- n", where 'a = nat] by (simp add: magnitude_def)
  note t = numeral_text_fine [OF b m, of "has f SMALL"]
  show "printable (number_text n b w (-1) f)" "length (number_text n b w (-1) f) \<le> 19"
    using t assms(2-5) by (auto simp: number_text_def Let_def sign_text_def prefix_text_def digits_text_def printable_def ch_defs)
qed

lemma format_08x:
  assumes "kv_args k = Arg_int n # as"
  shows "kvsprintf_from (CHR ''%'' # CHR ''0'' # CHR ''8'' # CHR ''x'' # r) k
    = kvsprintf_from r (k\<lparr>kv_out := kv_out k @ number_text n 16 8 (-1) (ZEROPAD OR SMALL), kv_args := as\<rparr>)"
  using assms by (simp add: run_directive out_number_def number_eq_text)

text \<open>The texts of \<open>main\<close>.\<close>

definition dec :: "nat \<Rightarrow> char list" where "dec n = numeral_text False 10 n"
definition hex :: "u32 \<Rightarrow> char list" where "hex n = numeral_text True 16 (unat n)"
definition hex8 :: "u32 \<Rightarrow> char list" where "hex8 n = replicate (8 - length (hex n)) (CHR ''0'') @ hex n"

lemma numbers_fine:
  "printable (hex n)" "length (hex n) \<le> 10" "k < 2 ^ 32 \<Longrightarrow> printable (dec k)" "k < 2 ^ 32 \<Longrightarrow> length (dec k) \<le> 10"
  using numeral_text_fine [of 16 "unat n" True] numeral_text_fine [of 10 k False] unsigned_less [of n, where 'a = nat]
  by (simp_all add: hex_def dec_def)

lemma hex8_fine: "printable (hex8 n)" "length (hex8 n) \<le> 18"
  using numbers_fine(1,2) [of n] by (auto simp: hex8_def printable_def ch_defs)

lemma sint_small: "k < 2147483648 \<Longrightarrow> sint (of_nat k :: u32) = int k"
  by (simp add: signed_of_nat signed_take_bit_int_eq_self)

lemma number_texts:
  "number_text n 16 (-1) (-1) SMALL = hex n" "number_text n 16 8 (-1) (ZEROPAD OR SMALL) = hex8 n"
  "k < 2147483648 \<Longrightarrow> number_text (of_nat k) 10 (-1) (-1) SIGN = dec k"
proof -
  show "number_text n 16 (-1) (-1) SMALL = hex n" by (simp add: hex_text hex_def)
  show "number_text n 16 8 (-1) (ZEROPAD OR SMALL) = hex8 n"
    by (simp add: number_text_def Let_def sign_text_def prefix_text_def digits_text_def has_def
        flag_defs magnitude_def hex8_def hex_def)
  assume k: "k < 2147483648"
  then have "unat (of_nat k :: u32) = k" by (simp add: unat_of_nat_u32)
  moreover have "0 \<le> sint (of_nat k :: u32)"
    using k by (simp add: sint_small)
  ultimately show "number_text (of_nat k) 10 (-1) (-1) SIGN = dec k" by (simp add: dec_text dec_def)
qed

lemma main_texts:
  "kprintf (''kboot86'' @ [LF, NUL]) [] = Some (''kboot86'' @ [LF])"
  "kprintf (''initializing paging...'' @ [NUL]) [] = Some ''initializing paging...''"
  "kprintf (''ok'' @ [LF, NUL]) [] = Some (''ok'' @ [LF])"
  "kprintf (''CR0: %08x'' @ [LF, NUL]) [Arg_int n] = Some (''CR0: '' @ hex8 n @ [LF])"
  "kprintf (''initializing hdd...'' @ [NUL]) [] = Some ''initializing hdd...''"
  "k < 2147483648 \<Longrightarrow> kprintf (''file size: %d'' @ [LF, NUL]) [Arg_int (of_nat k)] = Some (''file size: '' @ dec k @ [LF])"
  "k < 2147483648 \<Longrightarrow> kprintf (''read: %d bytes'' @ [LF, NUL]) [Arg_int (of_nat k)] = Some (''read: '' @ dec k @ '' bytes'' @ [LF])"
  "kprintf (''jmp addr: %x'' @ [LF, NUL]) [Arg_int n] = Some (''jmp addr: '' @ hex n @ [LF])"
  "kprintf (''vaddr: %x => paddr: %x'' @ [LF, NUL]) [Arg_int n, Arg_int m] = Some (''vaddr: '' @ hex n @ '' => paddr: '' @ hex m @ [LF])"
  "kprintf ([LF] @ ''*** ERROR! ***'' @ [LF, NUL]) [] = Some ([LF] @ ''*** ERROR! ***'' @ [LF])"
  using numbers_fine(2) [of n] numbers_fine(2) [of m] hex8_fine(2) [of n] numbers_fine(4) [of k]
  by (simp_all add: run_format format_08x number_texts)

section \<open>The screen\<close>

text \<open>The screen shows exactly the text \<open>t\<close>, written on the cleared screen.\<close>

definition shows_text :: "char list \<Rightarrow> console \<Rightarrow> bool" where
  "shows_text t c \<longleftrightarrow> on_screen c \<and> con_attr c = ATTR_GREEN_ON_BLACK \<and>
     terminal_of c = fold (term_char ATTR_GREEN_ON_BLACK) t (\<lambda>k. if k < SCREEN then blank_cell else 0, 0)"

definition with_con :: "console \<Rightarrow> 'd loader \<Rightarrow> 'd loader" where
  "with_con c s = set_mach ((ld_mach s)\<lparr>con := c\<rparr>) s"

lemma with_con_simps [simp]:
  "ld_mmu (with_con c s) = ld_mmu s" "ld_fat (with_con c s) = ld_fat s" "ld_elf_error (with_con c s) = ld_elf_error s"
  "ld_jmp_addr (with_con c s) = ld_jmp_addr s" "con (ld_mach (with_con c s)) = c"
  by (simp_all add: with_con_def set_mach_def ld_fat_def ld_mach_def)

lemma console_init_shows: "shows_text [] (console_init c)"
  using clear_terminal [of "c\<lparr>con_attr := ATTR_GREEN_ON_BLACK, curs_x := 0, curs_y := 0, line_completed := False, widx := 0\<rparr>"]
  by (simp add: shows_text_def console_init_def displays_def same_rest_def)

lemma say_shows:
  assumes "shows_text t (con (ld_mach s))" "kprintf fmt args = Some u" "printable u"
  obtains c where "say fmt args s = Some (True, with_con c s)" "shows_text (t @ u) c"
proof -
  have u: "c_string (u @ [NUL]) u" "ch_bs \<notin> set u" "ch_cr \<notin> set u"
    using assms(3) by (simp_all add: printable_def c_string_def)
  have "on_screen (con (ld_mach s))" using assms(1) by (simp add: shows_text_def)
  from console_puts_displays [OF u(1) this u(2,3)] obtain c where
    c: "console_puts (Some (u @ [NUL])) (con (ld_mach s)) = Some (int (length u), c)"
      "displays (con (ld_mach s)) (fold (term_char (con_attr (con (ld_mach s)))) u (terminal_of (con (ld_mach s)))) c"
    by blast
  show thesis
    by (rule that [of c]) (use c assms(1,2) in \<open>simp_all add: say_def with_con_def shows_text_def displays_def same_rest_def\<close>)
qed

end
