(* ===== verification/Boot_Memory.thy ===== *)
theory Boot_Memory
  imports Boot
begin

text \<open>
  The memory side of \<open>main\<close>: paging as \<open>main\<close> starts it, the buffer at \<open>mem_load_addr\<close> seen through the
  translation, and the ELF loader run on a system whose last directory entry is the directory itself, so
  that the translated entry point can be printed.
\<close>

section \<open>Paging with the self-map\<close>

definition mmu_self :: "mmu \<Rightarrow> bool" where
  "mmu_self m \<longleftrightarrow> mmu_ready m \<and> pde_present (pd m ! 1023)"

lemma paging_map_self:
  assumes "mmu_ready m" "paging_map v p w m = (rc, m')" "pde_present (pd m ! 1023)"
  shows "pde_present (pd m' ! 1023)"
proof -
  have inv: "mmu_inv m" using assms(1) by (simp add: mmu_ready_def)
  show ?thesis
  proof (cases "mappable v p")
    case True
    then have "unat (vaddr2pd_idx v) \<noteq> 1023"
      by (auto simp: mappable_def is_table_idx_implemented_def NUM_PAGE_TABLES_def)
    with assms(2,3) paging_map_mappable [OF inv True, of w] show ?thesis
      by (auto simp: with_tables_def dir_installed_def page_dir_set_entry_def)
  next
    case False
    with assms(2,3) paging_map_not_mappable [OF inv False, of w] show ?thesis by simp
  qed
qed

interpretation pself: paged_memory paging_map virt_read8 virt_write8 mmu_walk ram
    "\<lambda>m a. \<not> in_tables m a" mappable mmu_self
proof
  fix s s' :: mmu and v p u k :: u32 and w :: bool and rc :: int and b :: u8
  show "rc = 0 \<longleftrightarrow> mappable v p" if "mmu_self s" "paging_map v p w s = (rc, s')"
    using that pmem.map_rc [of s v p w rc s'] by (simp add: mmu_self_def)
  show "mmu_self s' \<and> ram s' = ram s \<and> (\<lambda>a. \<not> in_tables s' a) = (\<lambda>a. \<not> in_tables s a)"
    if "mmu_self s" "paging_map v p w s = (rc, s')"
    using that pmem.map_invar [of s v p w rc s'] paging_map_self [of s v p w rc s'] by (simp add: mmu_self_def)
  show "s' = s" if "mmu_self s" "paging_map v p w s = (rc, s')" "rc \<noteq> 0"
    using that pmem.map_fail [of s v p w rc s'] by (simp add: mmu_self_def)
  show "mmu_walk s' (v + k) = Some (p + k)"
    if "mmu_self s" "paging_map v p w s = (0, s')" "v AND 0xfff = 0" "p AND 0xfff = 0" "unat k < 4096"
    using that pmem.map_hit [of s v p w s' k] by (simp add: mmu_self_def)
  show "mmu_walk s' u = mmu_walk s u"
    if "mmu_self s" "paging_map v p w s = (0, s')" "v AND 0xfff = 0" "p AND 0xfff = 0"
      "drop_bit 22 u \<noteq> 0x3ff" "drop_bit 12 u \<noteq> drop_bit 12 v"
    using that pmem.map_miss [of s v p w s' u] by (simp add: mmu_self_def)
  show "drop_bit 22 v \<noteq> 0x3ff" if "mmu_self s" "paging_map v p w s = (0, s')"
    using that pmem.map_window [of s v p w s'] by (simp add: mmu_self_def)
  show "virt_read8 v s = Some (ram s p)" if "mmu_self s" "mmu_walk s v = Some p" "\<not> in_tables s p"
    using that pmem.load_plain [of s v p] by (simp add: mmu_self_def)
  show "\<exists>s'. virt_write8 v b s = Some s' \<and> mmu_self s' \<and> ram s' = (ram s)(p := b) \<and>
      mmu_walk s' = mmu_walk s \<and> (\<lambda>a. \<not> in_tables s' a) = (\<lambda>a. \<not> in_tables s a)"
    if "mmu_self s" "mmu_walk s v = Some p" "\<not> in_tables s p"
    using that pmem.store_plain [of s v p b] by (auto simp: mmu_self_def virt_write8_def)
qed

section \<open>The address space of main\<close>

text \<open>The first 15 MiB at their own addresses, without the first page.\<close>

definition boot_walk :: "u32 \<Rightarrow> u32 option" where
  "boot_walk v = (if 0x1000 \<le> v \<and> v \<le> PADDR_MAX then Some v else None)"

definition boot_space :: "mmu \<Rightarrow> mmu \<Rightarrow> bool" where
  "boot_space m0 m \<longleftrightarrow> mmu_self m \<and> in_tables m = in_tables m0 \<and>
     (\<forall>v. vaddr2pd_idx v \<noteq> 0x3ff \<longrightarrow> mmu_walk m v = boot_walk v)"

lemma start_paging_space:
  assumes "layout_ok (ld_mmu s)"
  obtains m where "start_paging s = Some (True, s\<lparr>ld_mmu := m\<rparr>)" "boot_space (ld_mmu s) m" "ram m = ram (ld_mmu s)"
proof -
  from paging_init_spec [OF assms] obtain m1 where m1: "paging_init (ld_mmu s) = (0, m1)" "mmu_inv m1"
      "pde_present (pd m1 ! 1023)" "ram m1 = ram (ld_mmu s)" "pd_addr m1 = pd_addr (ld_mmu s)" "pt_addr m1 = pt_addr (ld_mmu s)"
      "\<And>v. vaddr2pd_idx v \<noteq> 0x3ff \<Longrightarrow> lookup_walk m1 v = (if unat v < 0xf00000 then Some v else None)"
    by blast
  have "is_addr_page_aligned 0" "is_table_idx_implemented (vaddr2pd_idx 0)"
    by (simp_all add: is_addr_page_aligned_def is_table_idx_implemented_def vaddr2pd_idx_def NUM_PAGE_TABLES_def)
  from paging_unmap_spec [OF m1(2) this] obtain m2 where m2: "paging_unmap 0 m1 = (0, m2)" "mmu_inv m2"
      "ram m2 = ram m1" "pd m2 = pd m1" "pd_addr m2 = pd_addr m1" "pt_addr m2 = pt_addr m1"
      "\<And>v. vaddr2pd_idx v \<noteq> 0x3ff \<Longrightarrow>
         lookup_walk m2 v = (if drop_bit 12 v = drop_bit 12 0 then None else lookup_walk m1 v)"
    by blast
  let ?m = "paging_enable m2"
  have ready: "mmu_ready ?m"
    using m2(2) by (simp add: mmu_ready_def paging_enable_def mmu_inv_def layout_ok_def dir_entry_ok_def table_empty_def)
  have look: "lookup_walk ?m v = lookup_walk m2 v" for v by (simp add: paging_enable_def lookup_walk_def Let_def)
  have first: "drop_bit 12 v = 0 \<longleftrightarrow> \<not> 0x1000 \<le> v" for v :: u32
    by (simp add: drop_bit_eq_div word_unat_eq_iff unat_div div_eq_0_iff word_le_nat_alt not_le)
  have walk: "mmu_walk ?m v = boot_walk v" if "vaddr2pd_idx v \<noteq> 0x3ff" for v
    using m1(7) [OF that] m2(7) [OF that] first [of v]
    by (auto simp: mmu_walk_lookup [OF ready] look boot_walk_def PADDR_MAX_def word_le_nat_alt)
  have tabs: "in_tables ?m = in_tables (ld_mmu s)"
    using m1(5,6) m2(5,6) by (simp add: fun_eq_iff in_tables_def in_pd_def in_pts_def paging_enable_def)
  have "mmu_self ?m" using ready m1(3) m2(4) by (simp add: mmu_self_def paging_enable_def)
  with walk tabs have "boot_space (ld_mmu s) ?m" by (simp add: boot_space_def)
  moreover have "ram ?m = ram (ld_mmu s)" using m1(4) m2(3) by (simp add: paging_enable_def)
  ultimately show thesis
    by (intro that [of ?m]) (simp_all add: start_paging_def m1(1) m2(1))
qed

section \<open>The load buffer\<close>

lemma read_block_map:
  "(\<And>k. k < n \<Longrightarrow> virt_read8 (va + of_nat k) m = Some (f k)) \<Longrightarrow> read_block n va m = Some (map f [0..<n])"
proof (induction n arbitrary: va f)
  case (Suc n)
  have "read_block n (va + 1) m = Some (map (\<lambda>k. f (Suc k)) [0..<n])"
    by (rule Suc.IH) (use Suc.prems [of "Suc _"] in \<open>simp add: add.assoc\<close>)
  moreover have "map f [0..<Suc n] = f 0 # map (\<lambda>k. f (Suc k)) [0..<n]"
    by (simp add: map_upt_Suc del: upt_Suc)
  ultimately show ?case using Suc.prems [of 0] by simp
qed simp

text \<open>Memory with the bytes \<open>bs\<close> from the address \<open>p\<close> on.\<close>

definition overlay :: "u32 \<Rightarrow> u8 list \<Rightarrow> (u32 \<Rightarrow> u8) \<Rightarrow> u32 \<Rightarrow> u8" where
  "overlay p bs r a = (if unat (a - p) < length bs then bs ! unat (a - p) else r a)"

lemma overlay_Nil [simp]: "overlay p [] r = r"
  by (simp add: fun_eq_iff overlay_def)

lemma overlay_Cons:
  assumes "unat p + Suc (length bs) \<le> 4294967296"
  shows "overlay (p + 1) bs (r(p := b)) = overlay p (b # bs) r"
proof
  fix a
  show "overlay (p + 1) bs (r(p := b)) a = overlay p (b # bs) r a"
  proof (cases "a = p")
    case True
    have "unat (p - (p + 1)) = 4294967295" by (simp add: unsigned_minus_1_eq_mask mask_eq_exp_minus_1)
    then show ?thesis using assms True by (simp add: overlay_def)
  next
    case False
    then have "a - p \<noteq> 0" by simp
    then have "unat (a - p) = Suc (unat (a - p - 1))"
      by (metis Suc_pred' unat_gt_0 unat_minus_one)
    then show ?thesis using False by (simp add: overlay_def algebra_simps)
  qed
qed

lemma write_block_overlay:
  assumes "mmu_self m" "unat va + length bs \<le> 4294967296"
    and "\<And>k. k < length bs \<Longrightarrow> mmu_walk m (va + of_nat k) = Some (va + of_nat k) \<and> \<not> in_tables m (va + of_nat k)"
  shows "write_block bs va m = Some (m\<lparr>ram := overlay va bs (ram m)\<rparr>)"
  using assms
proof (induction bs arbitrary: va m)
  case Nil
  then show ?case by simp
next
  case (Cons b bs)
  have ready: "mmu_ready m" using Cons.prems(1) by (simp add: mmu_self_def)
  let ?m = "m\<lparr>ram := (ram m)(va := b)\<rparr>"
  have "mmu_walk m va = Some va" "\<not> in_tables m va" using Cons.prems(3) [of 0] by simp_all
  then have step: "virt_write8 va b m = Some ?m" by (simp add: virt_write8_def)
  have self: "mmu_self ?m" using Cons.prems(1) by (simp add: mmu_self_def)
  have walk: "mmu_walk ?m = mmu_walk m" "in_tables ?m = in_tables m"
    using ready by (simp_all add: fun_eq_iff mmu_walk_lookup in_tables_def in_pd_def in_pts_def)
  have next_ok: "mmu_walk ?m (va + 1 + of_nat k) = Some (va + 1 + of_nat k) \<and> \<not> in_tables ?m (va + 1 + of_nat k)"
    if "k < length bs" for k
    using Cons.prems(3) [of "Suc k"] that walk by (simp add: add.assoc)
  show ?case
  proof (cases "bs = []")
    case True
    then show ?thesis using step overlay_Cons [of va "[]" "ram m" b] Cons.prems(2) by simp
  next
    case False
    then have "unat (va + 1) = unat va + 1" using Cons.prems(2) by (subst unat_add_no_overflow) (cases bs; simp)+
    then have "unat (va + 1) + length bs \<le> 4294967296" using Cons.prems(2) by simp
    from Cons.IH [OF self this next_ok] overlay_Cons [of va bs "ram m" b] Cons.prems(2) step
    show ?thesis by (simp add: fun_upd_def)
  qed
qed

end
