(* ===== verification/Boot_Disk.thy ===== *)
theory Boot_Disk
  imports Boot
begin

text \<open>
  The disk side of \<open>main\<close>: which disk holds a file on a volume of its first partition, written in terms of
  the sectors alone, and that \<open>start_hdd\<close>, the directory search and the file loader find it there.
\<close>

section \<open>The disk\<close>

text \<open>A drive that keeps the ATA contracts and whose identification data \<open>ident\<close> give a geometry that
  covers its capacity.\<close>

definition drive_ok :: "'d ports \<Rightarrow> ('d \<Rightarrow> ata_view) \<Rightarrow> (nat \<Rightarrow> u8 list) \<Rightarrow> u8 list \<Rightarrow> bool" where
  "drive_ok io view D ident \<longleftrightarrow>
     (let H = unat (le16 ident 6); S = unat (le16 ident 12); N = unat (le32 ident 114)
      in ata_contract io view H S N D \<and> identify_contract io view ident \<and>
         0 < H \<and> H \<le> 16 \<and> 0 < S \<and> S \<le> 255 \<and> 0 < N \<and> N \<le> 1024 * H * S)"

text \<open>The sectors of the first partition.\<close>

definition part0 :: "(nat \<Rightarrow> u8 list) \<Rightarrow> u32 \<Rightarrow> u8 list" where
  "part0 D n = D (unat (pe_first_lba (D 0) 0 + n))"

definition in_part0 :: "(nat \<Rightarrow> u8 list) \<Rightarrow> u8 list \<Rightarrow> u32 \<Rightarrow> bool" where
  "in_part0 D ident n \<longleftrightarrow> n < pe_num_sectors (D 0) 0 \<and> pe_first_lba (D 0) 0 + n < le32 ident 114"

text \<open>The geometry that the boot sector \<open>b\<close> of a volume describes.\<close>

definition volume_at :: "u8 list \<Rightarrow> unit fat" where
  "volume_at b = \<lparr>fat_disk = (), buf_sec = [], fat_partition_num = 0,
     starting_clu_sec_num = of_nat (unat (le16 b 0xe) + unat (b ! 0x10) * unat (le16 b 0x16)),
     starting_fat_sec_num = of_nat (unat (le16 b 0xe)),
     fat_vid = \<lparr>vid_bytes_per_sector = 512, vid_sectors_per_cluster = b ! 0xd,
       vid_reserved_sectors = le16 b 0xe, vid_num_fats = b ! 0x10, vid_max_root_entries = le16 b 0x11,
       vid_sectors_per_fat = le16 b 0x16, vid_vol_label = [], vid_type = [], vid_signature = 0\<rparr>\<rparr>"

text \<open>The first partition is accepted and holds a volume whose boot sector and root directory can be read.\<close>

definition holds_volume :: "(nat \<Rightarrow> u8 list) \<Rightarrow> u8 list \<Rightarrow> bool" where
  "holds_volume D ident \<longleftrightarrow>
     (let v = volume_at (part0 D 0)
      in pe_accepted (D 0) 0 \<and> in_part0 D ident 0 \<and> 0 < spc v \<and>
         (\<forall>k < root_clus v * spc v * 16. in_part0 D ident (starting_clu_sec_num v + of_nat (k div 16))))"

text \<open>The volume has eight root directory clusters and a file \<open>fname\<close> whose bytes are \<open>img\<close>.\<close>

definition holds_file :: "(nat \<Rightarrow> u8 list) \<Rightarrow> u8 list \<Rightarrow> char list \<Rightarrow> u8 list \<Rightarrow> bool" where
  "holds_file D ident fname img \<longleftrightarrow> holds_volume D ident \<and>
     (let v = volume_at (part0 D 0)
      in root_clus v = 8 \<and>
         (\<exists>e. dir_search fname (root_entries (part0 D) v) = Some (Some e) \<and> unat (de_size 0 e) = length img \<and>
            file_readable (part0 D) (in_part0 D ident) v (de_starting_cluster 0 e) (length img) \<and>
            img = map (file_byte (part0 D) v (de_starting_cluster 0 e)) [0..<length img]))"

text \<open>The volume has no entry that the search takes for the file.\<close>

definition lacks_file :: "(nat \<Rightarrow> u8 list) \<Rightarrow> u8 list \<Rightarrow> char list \<Rightarrow> bool" where
  "lacks_file D ident fname \<longleftrightarrow> holds_volume D ident \<and>
     dir_search fname (root_entries (part0 D) (volume_at (part0 D 0))) = Some None"

section \<open>Volumes with the same geometry\<close>

definition same_geometry :: "'a fat \<Rightarrow> 'b fat \<Rightarrow> bool" where
  "same_geometry v w \<longleftrightarrow> spc v = spc w \<and> vid_max_root_entries (fat_vid v) = vid_max_root_entries (fat_vid w) \<and>
     starting_clu_sec_num v = starting_clu_sec_num w \<and> starting_fat_sec_num v = starting_fat_sec_num w"

lemma same_geometry_defs:
  assumes "same_geometry v w"
  shows "root_clus v = root_clus w" "root_entries cont v = root_entries cont w"
    "file_byte cont v = file_byte cont w" "file_readable cont avl v = file_readable cont avl w"
proof -
  show rc: "root_clus v = root_clus w" using assms by (simp add: same_geometry_def root_clus_def)
  show "root_entries cont v = root_entries cont w"
    using assms rc by (simp add: same_geometry_def root_entries_def root_entry_def)
  have fs: "fat_sector v c = fat_sector w c" for c
    using assms by (simp add: same_geometry_def fat_sector_def)
  have ch: "Fat16_Spec.chain cont v c k = Fat16_Spec.chain cont w c k" for c k
    by (induction k) (simp_all add: fat_entry_def fs)
  have cs: "file_sector cont v c i = file_sector cont w c i" for c i
    using assms rc ch by (simp add: same_geometry_def file_sector_def cluster_sector_def)
  show "file_byte cont v = file_byte cont w" by (simp add: fun_eq_iff file_byte_def cs)
  show "file_readable cont avl v = file_readable cont avl w"
    using assms by (simp add: fun_eq_iff file_readable_def cs ch fs same_geometry_def)
qed

lemma same_geometry_volume: "same_volume v v' \<Longrightarrow> same_geometry v w \<Longrightarrow> same_geometry v' w"
  by (simp add: same_volume_def same_geometry_def spc_def)

section \<open>Mounting\<close>

text \<open>What the linker gives the static variables of the disk drivers.\<close>

definition statics_ok :: "'d disk fat \<Rightarrow> bool" where
  "statics_ok fs \<longleftrightarrow> length (buf_sec fs) = SECTOR_LEN \<and>
     length (vid_vol_label (fat_vid fs)) = VOL_LABEL_LEN + 1 \<and> length (vid_type (fat_vid fs)) = TYPE_LEN + 1 \<and>
     length (id_model_number (disk_id (fat_disk fs))) = MODEL_NUMBER_STR_LEN + 1 \<and>
     length (partition_entry (disk_mbr (fat_disk fs))) = NUM_PARTITIONS_MAX"

text \<open>The volume is mounted: everything that reading a file relies on, over the sectors of the disk.\<close>

definition mounted :: "'d ports \<Rightarrow> ('d \<Rightarrow> ata_view) \<Rightarrow> (nat \<Rightarrow> u8 list) \<Rightarrow> u8 list \<Rightarrow> 'd disk fat \<Rightarrow> bool" where
  "mounted io view D ident fs \<longleftrightarrow>
     (\<exists>idd ms. volume_ready io view (unat (le16 ident 6)) (unat (le16 ident 12)) (unat (le32 ident 114)) D idd ms fs \<and>
        vol_content D ms fs = part0 D \<and> part_avail idd ms (fat_partition_num fs) = in_part0 D ident \<and>
        same_geometry fs (volume_at (part0 D 0)))"

lemma start_hdd_mounts:
  assumes drive: "drive_ok (pf_io pf) view D ident" and onto: "holds_volume D ident"
    and fs: "statics_ok (ld_fat s)" and stack: "length (pf_stack1 pf) = ATA_SECTOR_SIZE" "length (pf_stack2 pf) = ATA_SECTOR_SIZE"
  obtains fs' where "start_hdd pf s = Some (True, set_fat fs' s)" "mounted (pf_io pf) view D ident fs'"
proof -
  let ?io = "pf_io pf" and ?H = "unat (le16 ident 6)" and ?S = "unat (le16 ident 12)" and ?N = "unat (le32 ident 114)"
  let ?fs = "ld_fat s" and ?v = "volume_at (part0 D 0)"
  have con: "ata_contract ?io view ?H ?S ?N D" "identify_contract ?io view ident"
    and geo: "0 < ?H" "?H \<le> 16" "0 < ?S" "?S \<le> 255" "0 < ?N" "?N \<le> 1024 * ?H * ?S"
    using drive by (simp_all add: drive_ok_def Let_def)
  have lens: "length (buf_sec ?fs) = SECTOR_LEN" "length (vid_vol_label (fat_vid ?fs)) = VOL_LABEL_LEN + 1"
      "length (vid_type (fat_vid ?fs)) = TYPE_LEN + 1" "length (id_model_number (disk_id (fat_disk ?fs))) = MODEL_NUMBER_STR_LEN + 1"
      "length (partition_entry (disk_mbr (fat_disk ?fs))) = NUM_PARTITIONS_MAX"
    using fs by (simp_all add: statics_ok_def)
  from ata_init_reads [OF con stack(1) lens(4)] obtain idd d1 where
    d1: "ata_init ?io (pf_stack1 pf) (disk_id (fat_disk ?fs)) (disk_dev (fat_disk ?fs)) = Some (0, idd, d1)"
      "drive_ready (view d1)" "id_num_sectors idd = le32 ident 114" "id_heads idd = le16 ident 6" "id_spt idd = le16 ident 12"
    by blast
  have gok: "geometry_ok idd ?H ?S ?N" using geo d1(3-5) by (simp add: geometry_ok_def)
  have "0 < id_num_sectors idd" using geo(5) d1(3) by (simp add: word_less_nat_alt)
  from mbr_init_reads [OF con(1) d1(2) geometry_ok_drive [OF gok] stack(2) this lens(5)] obtain ms d2 where
    d2: "mbr_init ?io idd (pf_stack2 pf) (disk_mbr (fat_disk ?fs)) d1 = Some (0, ms, d2)" "drive_ready (view d2)"
      "entries_upto (D 0) NUM_PARTITIONS_MAX ms" by blast
  have acc: "pe_accepted (D 0) 0" using onto by (simp add: holds_volume_def Let_def)
  with d2(3) have info: "mbr_get_partition_info 0 ms = Some (Some (pe_first_lba (D 0) 0, pe_num_sectors (D 0) 0))"
    by (simp add: mbr_get_partition_info_def entries_upto_def NUM_PARTITIONS_MAX_def)
  have av: "part_avail idd ms 0 = in_part0 D ident" and cont: "part_content D ms 0 = part0 D"
    using d1(3) by (simp_all add: fun_eq_iff part_avail_def part_content_def info in_part0_def part0_def)
  let ?d = "(fat_disk ?fs)\<lparr>disk_id := idd, disk_dev := d2, disk_mbr := ms\<rparr>"
  have hdd: "hdd_init ?io (pf_stack1 pf) (pf_stack2 pf) (fat_disk ?fs) = Some (0, ?d)"
    by (simp add: hdd_init_def d1(1) d2(1))
  have rdy: "disk_ready ?io view ?H ?S ?N D idd ms 0 (fat_disk (?fs\<lparr>fat_disk := ?d\<rparr>))"
    using con(1) gok d2 by (simp add: disk_ready_def entries_upto_def NUM_PARTITIONS_MAX_def)
  have first: "part_avail idd ms 0 0" using onto by (simp add: av holds_volume_def Let_def)
  have zero: "(0 :: u32) < 4" by simp
  have lens': "length (buf_sec (?fs\<lparr>fat_disk := ?d\<rparr>)) = SECTOR_LEN"
      "length (vid_vol_label (fat_vid (?fs\<lparr>fat_disk := ?d\<rparr>))) = VOL_LABEL_LEN + 1"
      "length (vid_type (fat_vid (?fs\<lparr>fat_disk := ?d\<rparr>))) = TYPE_LEN + 1" using lens(1-3) by simp_all
  from fat16_init_reads [OF rdy zero first lens' refl, unfolded cont] obtain fs' where
    fs': "fat16_init (hdd_read_sector ?io) 0 (?fs\<lparr>fat_disk := ?d\<rparr>) = Some (0, fs')" "fat_partition_num fs' = 0"
      "spc fs' = unat (part0 D 0 ! 0xd)" "vid_max_root_entries (fat_vid fs') = le16 (part0 D 0) 0x11"
      "unat (starting_fat_sec_num fs') = unat (le16 (part0 D 0) 0xe)"
      "unat (starting_clu_sec_num fs') = unat (le16 (part0 D 0) 0xe) + unat (part0 D 0 ! 0x10) * unat (le16 (part0 D 0) 0x16)"
      "disk_ready ?io view ?H ?S ?N D idd ms 0 (fat_disk fs')" "length (buf_sec fs') = SECTOR_LEN"
    by blast
  have "starting_fat_sec_num fs' = starting_fat_sec_num ?v" "starting_clu_sec_num fs' = starting_clu_sec_num ?v"
    using arg_cong [OF fs'(5), of "of_nat :: nat \<Rightarrow> u32"] arg_cong [OF fs'(6), of "of_nat :: nat \<Rightarrow> u32"]
    by (simp_all add: volume_at_def)
  then have geom: "same_geometry fs' ?v"
    using fs'(3,4) by (simp add: same_geometry_def volume_at_def spc_def)
  have sg: "spc fs' = spc ?v" "root_clus fs' = root_clus ?v" "starting_clu_sec_num fs' = starting_clu_sec_num ?v"
    using geom same_geometry_defs(1) [OF geom] by (simp_all add: same_geometry_def)
  have "volume_ready ?io view ?H ?S ?N D idd ms fs'"
    using fs'(2,7,8) onto sg by (simp add: volume_ready_def av holds_volume_def Let_def)
  then have "mounted ?io view D ident fs'"
    using geom fs'(2) av cont by (auto simp: mounted_def vol_content_def)
  moreover have "start_hdd pf s = Some (True, set_fat fs' s)"
    using hdd fs'(1) by (simp add: start_hdd_def Let_def)
  ultimately show thesis by (rule that [rotated])
qed

section \<open>The file\<close>

lemma mounted_file_size:
  assumes "mounted io view D ident fs" "holds_file D ident fname img"
  obtains fs' where "fat16_get_file_size (hdd_read_sector io) fname fs = Some (sint (of_nat (length img) :: u32), fs')"
    "mounted io view D ident fs'"
proof -
  from assms(1) obtain idd ms where m:
    "volume_ready io view (unat (le16 ident 6)) (unat (le16 ident 12)) (unat (le32 ident 114)) D idd ms fs"
    "vol_content D ms fs = part0 D" "part_avail idd ms (fat_partition_num fs) = in_part0 D ident"
    "same_geometry fs (volume_at (part0 D 0))" by (auto simp: mounted_def)
  from assms(2) obtain e where e: "dir_search fname (root_entries (part0 D) (volume_at (part0 D 0))) = Some (Some e)"
    "unat (de_size 0 e) = length img" by (auto simp: holds_file_def Let_def)
  have size: "de_size 0 e = of_nat (length img)" using arg_cong [OF e(2), of "of_nat :: nat \<Rightarrow> u32"] by simp
  have found: "dir_search fname (root_entries (vol_content D ms fs) fs) = Some (Some e)"
    using e(1) m(2) same_geometry_defs(2) [OF m(4)] by simp
  from fat16_get_file_size_reads [OF m(1) found] obtain fs' where
    fs': "fat16_get_file_size (hdd_read_sector io) fname fs = Some (sint (of_nat (length img) :: u32), fs')"
      "volume_ready io view (unat (le16 ident 6)) (unat (le16 ident 12)) (unat (le32 ident 114)) D idd ms fs'"
      "same_volume fs fs'" by (auto simp: size)
  have pn: "fat_partition_num fs' = fat_partition_num fs" using fs'(3) by (simp add: same_volume_def)
  have "mounted io view D ident fs'"
    using fs'(2) m(2,3) same_geometry_volume [OF fs'(3) m(4)] by (auto simp: mounted_def vol_content_def pn)
  with fs'(1) show thesis by (rule that)
qed

lemma mounted_load:
  assumes "mounted io view D ident fs" "holds_file D ident fname img"
    and "length img \<le> unat buf_size" "unat buf_size \<le> length buf"
  obtains fs' where "fat16_load (hdd_read_sector io) fname buf buf_size fs =
      Some (sint (of_nat (length img) :: u32), img @ drop (length img) buf, fs')"
proof -
  from assms(1) obtain idd ms where m:
    "volume_ready io view (unat (le16 ident 6)) (unat (le16 ident 12)) (unat (le32 ident 114)) D idd ms fs"
    "vol_content D ms fs = part0 D" "part_avail idd ms (fat_partition_num fs) = in_part0 D ident"
    "same_geometry fs (volume_at (part0 D 0))" by (auto simp: mounted_def)
  note g = same_geometry_defs [OF m(4)]
  from assms(2) obtain e where e: "dir_search fname (root_entries (part0 D) (volume_at (part0 D 0))) = Some (Some e)"
    "unat (de_size 0 e) = length img"
    "file_readable (part0 D) (in_part0 D ident) (volume_at (part0 D 0)) (de_starting_cluster 0 e) (length img)"
    "img = map (file_byte (part0 D) (volume_at (part0 D 0)) (de_starting_cluster 0 e)) [0..<length img]"
    by (auto simp: holds_file_def Let_def)
  have rc: "root_clus fs = 8" using assms(2) g(1) by (simp add: holds_file_def Let_def)
  have spc: "0 < spc fs" and av: "\<And>k. k < root_clus fs * spc fs * 16 \<Longrightarrow>
      part_avail idd ms (fat_partition_num fs) (starting_clu_sec_num fs + of_nat (k div 16))"
    using m(1) by (simp_all add: volume_ready_def)
  have len: "length img = unat (min (de_size 0 e) buf_size)"
    using e(2) assms(3) by (simp add: min_def word_le_nat_alt)
  have c: "part_content D ms (fat_partition_num fs) = part0 D" using m(2) by (simp add: vol_content_def)
  have found: "dir_search fname (root_entries (part_content D ms (fat_partition_num fs)) fs) = Some (Some e)"
    using e(1) g(2) c by simp
  have rd: "file_readable (part_content D ms (fat_partition_num fs)) (part_avail idd ms (fat_partition_num fs)) fs
      (de_starting_cluster 0 e) (length img)"
    using e(3) g(4) c m(3) by simp
  have buf: "length img \<le> length buf" using assms(3,4) by simp
  from hd.fat16_load_file [OF volume_fat_ok [OF m(1)] rc spc av found len rd buf] obtain fs' where
    "fat16_load (hdd_read_sector io) fname buf buf_size fs = Some (sint (of_nat (length img) :: u32),
      map (file_byte (part_content D ms (fat_partition_num fs)) fs (de_starting_cluster 0 e)) [0..<length img] @ drop (length img) buf, fs')"
    by blast
  then show thesis using e(4) g(3) c by (intro that [of fs']) simp
qed

end
