(* ===== verification/Boot_Props.thy ===== *)
theory Boot_Props
  imports Boot_Steps Boot_Memory Boot_Disk
begin

text \<open>
  The whole way of \<open>main\<close> from the start of the devices to the jump into the kernel.
\<close>

section \<open>The three parts of main\<close>

lemma printable_append [simp]: "printable (a @ b) \<longleftrightarrow> printable a \<and> printable b"
  by (auto simp: printable_def)

lemma printable_literals:
  "printable ''kboot86''" "printable [LF]" "printable ''initializing paging...''" "printable ''ok''" "printable ''CR0: ''"
  "printable ''initializing hdd...''" "printable ''file size: ''" "printable ''read: ''" "printable '' bytes''"
  "printable ''jmp addr: ''" "printable ''vaddr: ''" "printable '' => paddr: ''" "printable ''*** ERROR! ***''"
  by (simp_all add: printable_def ch_defs LF_def)

lemmas printables = printable_append printable_literals numbers_fine(1,3) hex8_fine(1)

text \<open>Printing, with all that later steps rely on.\<close>

lemma say_step:
  assumes "shows_text t (con (ld_mach s))" "kprintf fmt args = Some u" "printable u"
  obtains s' where "say fmt args s = Some (True, s')" "shows_text (t @ u) (con (ld_mach s'))" "ld_mmu s' = ld_mmu s"
    "ld_fat s' = ld_fat s" "ld_elf_error s' = ld_elf_error s" "ld_jmp_addr s' = ld_jmp_addr s"
  by (rule say_shows [OF assms]) (auto intro: that)

lemma ld_fat_simps [simp]:
  "ld_fat (s\<lparr>ld_mmu := m\<rparr>) = ld_fat s" "ld_fat (set_fat fs s) = fs"
  "ld_jmp_addr (set_fat fs s) = ld_jmp_addr s"
  by (simp_all add: ld_fat_def ld_mach_def set_fat_def Let_def)

lemma statics_device: "sh (ld_world s') = sh (ld_world s) \<Longrightarrow> statics_ok (ld_fat s') = statics_ok (ld_fat s)"
  by (simp add: statics_ok_def ld_fat_def Let_def)

definition first_text :: "u32 \<Rightarrow> char list" where
  "first_text cr0 = (''kboot86'' @ [LF]) @ ''initializing paging...'' @ (''ok'' @ [LF]) @ (''CR0: '' @ hex8 cr0 @ [LF])"

lemma boot_starts:
  assumes "layout_ok (ld_mmu s)"
  obtains s' where "\<forall>fs. run_steps (start_up pf @ paging_steps pf @ fs) s = run_steps fs s'"
    "shows_text (first_text (pf_cr0 pf)) (con (ld_mach s'))" "boot_space (ld_mmu s) (ld_mmu s')" "ram (ld_mmu s') = ram (ld_mmu s)"
    "statics_ok (ld_fat s') = statics_ok (ld_fat s)" "ld_elf_error s' = ld_elf_error s"
proof -
  obtain s1 where s1: "\<And>fs. run_steps (interrupts_off # start_interrupts pf # start_pit pf # start_console pf # fs) s = run_steps fs s1"
    "shows_text [] (con (ld_mach s1))" "ld_mmu s1 = ld_mmu s" "sh (ld_world s1) = sh (ld_world s)" "ld_elf_error s1 = ld_elf_error s"
    by (rule devices_start [of pf s]) (simp add: console_init_shows)
  obtain s2 where s2: "say (''kboot86'' @ [LF, NUL]) [] s1 = Some (True, s2)" "shows_text ([] @ ''kboot86'' @ [LF]) (con (ld_mach s2))"
    "ld_mmu s2 = ld_mmu s1" "ld_fat s2 = ld_fat s1" "ld_elf_error s2 = ld_elf_error s1"
    by (rule say_step [OF s1(2) main_texts(1)]) (simp_all only: printables)
  obtain s3 where s3: "say (''initializing paging...'' @ [NUL]) [] s2 = Some (True, s3)"
    "shows_text (([] @ ''kboot86'' @ [LF]) @ ''initializing paging...'') (con (ld_mach s3))"
    "ld_mmu s3 = ld_mmu s2" "ld_fat s3 = ld_fat s2" "ld_elf_error s3 = ld_elf_error s2"
    by (rule say_step [OF s2(2) main_texts(2)]) (simp_all only: printables)
  have "layout_ok (ld_mmu s3)" using assms s1(3) s2(3) s3(3) by simp
  then obtain m where m: "start_paging s3 = Some (True, s3\<lparr>ld_mmu := m\<rparr>)" "boot_space (ld_mmu s3) m" "ram m = ram (ld_mmu s3)"
    by (rule start_paging_space)
  have sh4: "shows_text (([] @ ''kboot86'' @ [LF]) @ ''initializing paging...'') (con (ld_mach (s3\<lparr>ld_mmu := m\<rparr>)))"
    using s3(2) by simp
  obtain s5 where s5: "say (''ok'' @ [LF, NUL]) [] (s3\<lparr>ld_mmu := m\<rparr>) = Some (True, s5)"
    "shows_text ((([] @ ''kboot86'' @ [LF]) @ ''initializing paging...'') @ ''ok'' @ [LF]) (con (ld_mach s5))"
    "ld_mmu s5 = m" "ld_fat s5 = ld_fat s3" "ld_elf_error s5 = ld_elf_error s3"
    by (rule say_step [OF sh4 main_texts(3)]) (simp_all only: printables, simp_all)
  obtain s6 where s6: "say (''CR0: %08x'' @ [LF, NUL]) [Arg_int (pf_cr0 pf)] s5 = Some (True, s6)"
    "shows_text (((([] @ ''kboot86'' @ [LF]) @ ''initializing paging...'') @ ''ok'' @ [LF]) @ ''CR0: '' @ hex8 (pf_cr0 pf) @ [LF]) (con (ld_mach s6))"
    "ld_mmu s6 = ld_mmu s5" "ld_fat s6 = ld_fat s5" "ld_elf_error s6 = ld_elf_error s5"
    by (rule say_step [OF s5(2) main_texts(4)]) (simp_all only: printables)
  have "statics_ok (ld_fat s6) = statics_ok (ld_fat s)"
    using s6(4) s5(4) s3(4) s2(4) statics_device [OF s1(4)] by simp
  moreover have "\<forall>fs. run_steps (start_up pf @ paging_steps pf @ fs) s = run_steps fs s6"
    unfolding start_up_def paging_steps_def append_Cons append_Nil s1(1)
    using s2(1) s3(1) m(1) s5(1) s6(1) by simp
  ultimately show thesis
    using s6(2,3,5) s5(3,5) m(2,3) s3(3,5) s2(3,5) s1(3,5) by (intro that [of s6]) (simp_all add: first_text_def)
qed

definition second_text :: "char list" where
  "second_text = ''initializing hdd...'' @ (''ok'' @ [LF])"

lemma boot_mounts:
  assumes "drive_ok (pf_io pf) view D ident" "holds_volume D ident" "statics_ok (ld_fat s)"
    "length (pf_stack1 pf) = ATA_SECTOR_SIZE" "length (pf_stack2 pf) = ATA_SECTOR_SIZE" "shows_text t (con (ld_mach s))"
  obtains s' where "\<forall>fs. run_steps (hdd_steps pf @ fs) s = run_steps fs s'"
    "shows_text (t @ second_text) (con (ld_mach s'))" "ld_mmu s' = ld_mmu s"
    "mounted (pf_io pf) view D ident (ld_fat s')" "ld_elf_error s' = ld_elf_error s"
proof -
  obtain s1 where s1: "say (''initializing hdd...'' @ [NUL]) [] s = Some (True, s1)"
    "shows_text (t @ ''initializing hdd...'') (con (ld_mach s1))"
    "ld_mmu s1 = ld_mmu s" "ld_fat s1 = ld_fat s" "ld_elf_error s1 = ld_elf_error s"
    by (rule say_step [OF assms(6) main_texts(5)]) (simp_all only: printables)
  have st: "statics_ok (ld_fat s1)" using assms(3) s1(4) by simp
  obtain fs where fs: "start_hdd pf s1 = Some (True, set_fat fs s1)" "mounted (pf_io pf) view D ident fs"
    by (rule start_hdd_mounts [OF assms(1,2) st assms(4,5)])
  have sh: "shows_text (t @ ''initializing hdd...'') (con (ld_mach (set_fat fs s1)))" using s1(2) by simp
  obtain s3 where s3: "say (''ok'' @ [LF, NUL]) [] (set_fat fs s1) = Some (True, s3)"
    "shows_text ((t @ ''initializing hdd...'') @ ''ok'' @ [LF]) (con (ld_mach s3))"
    "ld_mmu s3 = ld_mmu s1" "ld_fat s3 = fs" "ld_elf_error s3 = ld_elf_error s1"
    by (rule say_step [OF sh main_texts(3)]) (simp_all only: printables, simp_all)
  show thesis
    using s1 fs s3 by (intro that [of s3]) (simp_all add: hdd_steps_def second_text_def)
qed

text \<open>The way to the mounted volume.\<close>

lemma boot_mounted:
  assumes "layout_ok (ld_mmu s)" "statics_ok (ld_fat s)" "length (pf_stack1 pf) = ATA_SECTOR_SIZE" "length (pf_stack2 pf) = ATA_SECTOR_SIZE"
    and "drive_ok (pf_io pf) view D ident" "holds_volume D ident"
  obtains s' where "\<forall>fs. run_steps (start_up pf @ paging_steps pf @ hdd_steps pf @ fs) s = run_steps fs s'"
    "shows_text (first_text (pf_cr0 pf) @ second_text) (con (ld_mach s'))" "boot_space (ld_mmu s) (ld_mmu s')"
    "ram (ld_mmu s') = ram (ld_mmu s)" "mounted (pf_io pf) view D ident (ld_fat s')"
proof -
  obtain s1 where s1: "\<forall>fs. run_steps (start_up pf @ paging_steps pf @ fs) s = run_steps fs s1"
    "shows_text (first_text (pf_cr0 pf)) (con (ld_mach s1))" "boot_space (ld_mmu s) (ld_mmu s1)" "ram (ld_mmu s1) = ram (ld_mmu s)"
    "statics_ok (ld_fat s1) = statics_ok (ld_fat s)"
    by (rule boot_starts [OF assms(1)])
  have st: "statics_ok (ld_fat s1)" using s1(5) assms(2) by simp
  obtain s2 where s2: "\<forall>fs. run_steps (hdd_steps pf @ fs) s1 = run_steps fs s2"
    "shows_text (first_text (pf_cr0 pf) @ second_text) (con (ld_mach s2))" "ld_mmu s2 = ld_mmu s1"
    "mounted (pf_io pf) view D ident (ld_fat s2)"
    by (rule boot_mounts [OF assms(5,6) st assms(3,4) s1(2)])
  show thesis using s1 s2 by (intro that [of s2]) simp_all
qed

text \<open>An image that the loader accepts at \<open>mem_load_addr\<close>, and that leaves the translation tables of \<open>m\<close> and
  itself alone.\<close>

definition bootable_image :: "mmu \<Rightarrow> u8 list \<Rightarrow> bool" where
  "bootable_image m img \<longleftrightarrow> 52 \<le> length img \<and> length img \<le> 1048576 \<and> phdr_off img (img_phnum img) \<le> length img \<and>
     mem_load_addr + le32 img 28 \<noteq> 0 \<and> header_ok img \<and>
     sum_list (map seg_memsz (segs_from img 0)) \<le> KERNEL_MEMSZ_MAX \<and>
     le32 img 24 \<noteq> 0 \<and> vaddr2pd_idx (le32 img 24) \<noteq> 0x3ff \<and>
     (\<forall>sg \<in> set (segs_from img 0). segment_fits (\<lambda>k. mem_load_addr + of_nat k) mem_load_addr img m sg)"

text \<open>Memory and address space when the kernel is entered.\<close>

definition kernel_ram :: "u8 list \<Rightarrow> (u32 \<Rightarrow> u8) \<Rightarrow> u32 \<Rightarrow> u8" where
  "kernel_ram img r = fold (load_seg img) (segs_from img 0) (overlay mem_load_addr img r)"

definition kernel_walk :: "u8 list \<Rightarrow> u32 \<Rightarrow> u32 option" where
  "kernel_walk img = fold map_seg (segs_from img 0) boot_walk"

definition third_text :: "u8 list \<Rightarrow> char list" where
  "third_text img = (''file size: '' @ dec (length img) @ [LF]) @ (''read: '' @ dec (length img) @ '' bytes'' @ [LF]) @
     (''jmp addr: '' @ hex (le32 img 24) @ [LF]) @
     (''vaddr: '' @ hex (le32 img 24) @ '' => paddr: '' @
        hex (case kernel_walk img (le32 img 24) of None \<Rightarrow> 0 | Some p \<Rightarrow> p) @ [LF])"

lemma load_address:
  assumes "k < 1048576"
  shows "unat (mem_load_addr + of_nat k) = 2097152 + k" "vaddr2pd_idx (mem_load_addr + of_nat k) \<noteq> 0x3ff"
    "boot_walk (mem_load_addr + of_nat k) = Some (mem_load_addr + of_nat k)"
proof -
  show u: "unat (mem_load_addr + of_nat k) = 2097152 + k"
    using assms unfolding mem_load_addr_def by (subst unat_add_no_overflow) (simp_all add: unat_of_nat_u32)
  have "unat (vaddr2pd_idx (mem_load_addr + of_nat k)) = (2097152 + k) div 4194304"
    using u by (simp add: vaddr2pd_idx_def drop_bit_eq_div unat_div)
  then have "unat (vaddr2pd_idx (mem_load_addr + of_nat k)) < 1023" using assms by simp
  then show "vaddr2pd_idx (mem_load_addr + of_nat k) \<noteq> 0x3ff" by auto
  show "boot_walk (mem_load_addr + of_nat k) = Some (mem_load_addr + of_nat k)"
    using u assms by (simp add: boot_walk_def PADDR_MAX_def word_le_nat_alt)
qed

lemma overlay_same:
  assumes "length img \<le> n" "n \<le> 1048576" "\<And>k. k < n \<Longrightarrow> f k = r (mem_load_addr + of_nat k)"
  shows "overlay mem_load_addr (img @ drop (length img) (map f [0..<n])) r = overlay mem_load_addr img r"
proof
  fix a :: u32
  have "mem_load_addr + of_nat (unat (a - mem_load_addr)) = a" by simp
  with assms show "overlay mem_load_addr (img @ drop (length img) (map f [0..<n])) r a = overlay mem_load_addr img r a"
    by (auto simp: overlay_def nth_append simp del: drop_map)
qed

lemma boot_space_load:
  assumes "boot_space m0 m" "k < 1048576" "\<forall>k < 1048576. \<not> in_tables m0 (mem_load_addr + of_nat k)"
  shows "mmu_walk m (mem_load_addr + of_nat k) = Some (mem_load_addr + of_nat k) \<and> \<not> in_tables m (mem_load_addr + of_nat k)"
  using assms load_address [OF assms(2)] by (simp add: boot_space_def)

lemma boot_space_ram:
  assumes "boot_space m0 m"
  shows "boot_space m0 (m\<lparr>ram := r\<rparr>)"
proof -
  have "mmu_ready m" using assms by (simp add: boot_space_def mmu_self_def)
  then have "mmu_walk (m\<lparr>ram := r\<rparr>) v = mmu_walk m v" for v by (simp add: mmu_walk_lookup)
  moreover have "in_tables (m\<lparr>ram := r\<rparr>) = in_tables m" by (simp add: fun_eq_iff in_tables_def in_pd_def in_pts_def)
  ultimately show ?thesis using assms by (simp add: boot_space_def mmu_self_def)
qed

text \<open>The file reaches the memory at \<open>mem_load_addr\<close>.\<close>

lemma load_file_places:
  assumes "mounted (pf_io pf) view D ident (ld_fat s)" "holds_file D ident FILENAME img" "length img \<le> 1048576"
    and "boot_space m0 (ld_mmu s)" "\<forall>k < 1048576. \<not> in_tables m0 (mem_load_addr + of_nat k)"
    and "shows_text t (con (ld_mach s))"
  obtains s' where "load_file pf s = Some (True, s')" "shows_text (t @ ''read: '' @ dec (length img) @ '' bytes'' @ [LF]) (con (ld_mach s'))"
    "ld_mmu s' = (ld_mmu s)\<lparr>ram := overlay mem_load_addr img (ram (ld_mmu s))\<rparr>" "ld_elf_error s' = ld_elf_error s"
proof -
  let ?m = "ld_mmu s" and ?f = "\<lambda>k. ram (ld_mmu s) (mem_load_addr + of_nat k)"
  let ?buf = "map ?f [0..<1048576]"
  have self: "mmu_self ?m" using assms(4) by (simp add: boot_space_def)
  note at = boot_space_load [OF assms(4) _ assms(5)]
  have n: "unat LOAD_BUF_SIZE = 1048576" by (simp add: LOAD_BUF_SIZE_def)
  have rd: "read_block (unat LOAD_BUF_SIZE) mem_load_addr ?m = Some ?buf"
    unfolding n by (rule read_block_map) (use at self pself.load_plain in blast)
  have le: "length img \<le> unat LOAD_BUF_SIZE" "unat LOAD_BUF_SIZE \<le> length ?buf" using assms(3) n by simp_all
  obtain fs where fs: "fat16_load (hdd_read_sector (pf_io pf)) FILENAME ?buf LOAD_BUF_SIZE (ld_fat s) =
      Some (sint (of_nat (length img) :: u32), img @ drop (length img) ?buf, fs)"
    by (rule mounted_load [OF assms(1,2) le])
  have len: "length (img @ drop (length img) ?buf) = 1048576" using assms(3) by simp
  have end_ok: "unat mem_load_addr + length (img @ drop (length img) ?buf) \<le> 4294967296"
    unfolding len by (simp add: mem_load_addr_def)
  have wr: "write_block (img @ drop (length img) ?buf) mem_load_addr ?m =
      Some (?m\<lparr>ram := overlay mem_load_addr (img @ drop (length img) ?buf) (ram ?m)\<rparr>)"
    by (rule write_block_overlay [OF self end_ok]) (unfold len, rule at)
  have ov: "overlay mem_load_addr (img @ drop (length img) ?buf) (ram ?m) = overlay mem_load_addr img (ram ?m)"
    by (rule overlay_same) (use assms(3) in simp_all)
  have cnt: "sint (of_nat (length img) :: u32) = int (length img)" using assms(3) by (intro sint_small) simp
  let ?s1 = "set_fat fs s\<lparr>ld_mmu := ?m\<lparr>ram := overlay mem_load_addr img (ram ?m)\<rparr>\<rparr>"
  have sh: "shows_text t (con (ld_mach ?s1))" using assms(6) by simp
  have k: "length img < 2147483648" "length img < 2 ^ 32" using assms(3) by simp_all
  obtain s2 where s2: "say (''read: %d bytes'' @ [LF, NUL]) [Arg_int (of_nat (length img))] ?s1 = Some (True, s2)"
    "shows_text (t @ ''read: '' @ dec (length img) @ '' bytes'' @ [LF]) (con (ld_mach s2))" "ld_mmu s2 = ld_mmu ?s1"
    "ld_elf_error s2 = ld_elf_error ?s1"
    by (rule say_step [OF sh main_texts(7) [OF k(1)]]) (simp_all only: printables k(2))
  have "load_file pf s = Some (True, s2)"
    unfolding load_file_def rd option.case fs prod.case wr ov Let_def cnt using s2(1) by simp
  then show thesis using s2(2-4) by (intro that [of s2]) simp_all
qed

lemma segment_fits_self: "segment_fits q eh img m sg = pself.seg_ok q eh img m sg"
  unfolding segment_fits_def pself.seg_ok_def pself.target_ok_def vaddr2pd_idx_def
  by (simp only: conj_assoc)

lemma segment_fits_tables: "in_tables m = in_tables m0 \<Longrightarrow> segment_fits q eh img m sg = segment_fits q eh img m0 sg"
  by (simp add: segment_fits_def)

text \<open>The loaded file is the image that \<open>elf32_map\<close> reads.\<close>

lemma loaded_image:
  assumes "length img \<le> 1048576" "boot_space m0 m" "\<forall>k < 1048576. \<not> in_tables m0 (mem_load_addr + of_nat k)"
  shows "pself.image_in (\<lambda>k. mem_load_addr + of_nat k) mem_load_addr img (m\<lparr>ram := overlay mem_load_addr img r\<rparr>)"
proof -
  let ?m = "m\<lparr>ram := overlay mem_load_addr img r\<rparr>" and ?q = "\<lambda>k. mem_load_addr + of_nat k :: u32"
  have sp: "boot_space m0 ?m" by (rule boot_space_ram [OF assms(2)])
  then have self: "mmu_self ?m" by (simp add: boot_space_def)
  have at: "mmu_walk ?m (?q k) = Some (?q k) \<and> \<not> in_tables ?m (?q k) \<and> ram ?m (?q k) = img ! k \<and> drop_bit 22 (?q k) \<noteq> 0x3ff"
    if "k < length img" for k
  proof -
    have k: "k < 1048576" using that assms(1) by simp
    have "unat (?q k - mem_load_addr) = k" using k by (simp add: unat_of_nat_u32)
    then show ?thesis
      using boot_space_load [OF sp k assms(3)] load_address(2) [OF k] that by (simp add: overlay_def vaddr2pd_idx_def)
  qed
  show ?thesis unfolding pself.image_in_def using self at by blast
qed

lemma map_kernel_maps:
  assumes img: "bootable_image m0 img" and space: "boot_space m0 m" and tabs: "\<forall>k < 1048576. \<not> in_tables m0 (mem_load_addr + of_nat k)"
    and mmu: "ld_mmu s = m\<lparr>ram := overlay mem_load_addr img r\<rparr>"
  obtains m' where "map_kernel s = Some (True, s\<lparr>ld_elf_error := ld_elf_error s, ld_mmu := m', ld_jmp_addr := le32 img 24\<rparr>)"
    "ram m' = kernel_ram img r" "mmu_self m'" "\<forall>u. vaddr2pd_idx u \<noteq> 0x3ff \<longrightarrow> mmu_walk m' u = kernel_walk img u"
proof -
  have i: "52 \<le> length img" "length img \<le> 1048576" "phdr_off img (img_phnum img) \<le> length img"
      "mem_load_addr + le32 img 28 \<noteq> 0" "header_ok img" "\<not> sum_list (map seg_memsz (segs_from img 0)) > KERNEL_MEMSZ_MAX"
      "le32 img 24 \<noteq> 0" "\<forall>sg \<in> set (segs_from img 0). segment_fits (\<lambda>k. mem_load_addr + of_nat k) mem_load_addr img m0 sg"
    using img by (simp_all add: bootable_image_def not_less)
  let ?m = "ld_mmu s" and ?q = "\<lambda>k. mem_load_addr + of_nat k :: u32"
  have sp: "boot_space m0 ?m" using boot_space_ram [OF space] mmu by simp
  have tab: "in_tables ?m = in_tables m0"
    and walk: "\<And>u. vaddr2pd_idx u \<noteq> 0x3ff \<Longrightarrow> mmu_walk ?m u = boot_walk u"
    using sp by (simp_all add: boot_space_def)
  have image: "pself.image_in ?q mem_load_addr img ?m"
    unfolding mmu by (rule loaded_image [OF i(2) space tabs])
  have fits: "\<forall>sg \<in> set (segs_from img 0). pself.seg_ok ?q mem_load_addr img ?m sg"
    using i(8) segment_fits_tables [OF tab] by (simp add: segment_fits_self)
  have nz: "mem_load_addr \<noteq> 0" by (simp add: mem_load_addr_def)
  from pself.elf32_map_image(2) [OF image i(1,3) nz i(4,5,6) fits] obtain m' where
    m': "elf32_map paging_map virt_read8 virt_write8 mem_load_addr (ld_elf_error s) ?m = Some (le32 img 24, ld_elf_error s, m')"
      "pself.image_in ?q mem_load_addr img m'" "ram m' = fold (load_seg img) (segs_from img 0) (ram ?m)"
      "\<forall>u. drop_bit 22 u \<noteq> 0x3ff \<longrightarrow> mmu_walk m' u = fold map_seg (segs_from img 0) (mmu_walk ?m) u" by blast
  have "mmu_walk m' u = kernel_walk img u" if u: "vaddr2pd_idx u \<noteq> 0x3ff" for u
    using m'(4) u fold_map_seg_cong [where t = "mmu_walk ?m" and t' = boot_walk, OF walk [OF u]] by (simp add: kernel_walk_def vaddr2pd_idx_def)
  moreover have "mmu_self m'" using m'(2) by (simp add: pself.image_in_def)
  moreover have "ram m' = kernel_ram img r" using m'(3) mmu by (simp add: kernel_ram_def)
  moreover have "map_kernel s = Some (True, s\<lparr>ld_elf_error := ld_elf_error s, ld_mmu := m', ld_jmp_addr := le32 img 24\<rparr>)"
    using m'(1) i(7) by (simp add: map_kernel_def kernel_elf32_map_def Let_def)
  ultimately show thesis by (intro that) auto
qed

text \<open>The two steps that read the file.\<close>

definition read_text :: "u8 list \<Rightarrow> char list" where
  "read_text img = (''file size: '' @ dec (length img) @ [LF]) @ (''read: '' @ dec (length img) @ '' bytes'' @ [LF])"

lemma boot_reads:
  assumes "mounted (pf_io pf) view D ident (ld_fat s)" "holds_file D ident FILENAME img" "length img \<le> 1048576"
    and "boot_space m0 (ld_mmu s)" "\<forall>k < 1048576. \<not> in_tables m0 (mem_load_addr + of_nat k)"
    and "shows_text t (con (ld_mach s))"
  obtains s' where "\<forall>fs. run_steps (say_file_size pf # load_file pf # fs) s = run_steps fs s'"
    "shows_text (t @ read_text img) (con (ld_mach s'))"
    "ld_mmu s' = (ld_mmu s)\<lparr>ram := overlay mem_load_addr img (ram (ld_mmu s))\<rparr>"
proof -
  have k: "length img < 2147483648" "length img < 2 ^ 32" using assms(3) by simp_all
  have cnt: "sint (of_nat (length img) :: u32) = int (length img)" using k(1) by (rule sint_small)
  obtain fs where fs: "fat16_get_file_size (hdd_read_sector (pf_io pf)) FILENAME (ld_fat s) = Some (sint (of_nat (length img) :: u32), fs)"
    "mounted (pf_io pf) view D ident fs" by (rule mounted_file_size [OF assms(1,2)])
  have sh: "shows_text t (con (ld_mach (set_fat fs s)))" using assms(6) by simp
  obtain s1 where s1: "say (''file size: %d'' @ [LF, NUL]) [Arg_int (of_nat (length img))] (set_fat fs s) = Some (True, s1)"
    "shows_text (t @ ''file size: '' @ dec (length img) @ [LF]) (con (ld_mach s1))" "ld_mmu s1 = ld_mmu (set_fat fs s)" "ld_fat s1 = fs"
    by (rule say_step [OF sh main_texts(6) [OF k(1)]]) (simp_all only: printables k(2), simp_all)
  have step1: "say_file_size pf s = Some (True, s1)"
    unfolding say_file_size_def fs(1) option.case prod.case cnt using s1(1) by simp
  have mnt: "mounted (pf_io pf) view D ident (ld_fat s1)" and space: "boot_space m0 (ld_mmu s1)"
    using fs(2) s1(3,4) assms(4) by simp_all
  obtain s2 where s2: "load_file pf s1 = Some (True, s2)"
    "shows_text ((t @ ''file size: '' @ dec (length img) @ [LF]) @ ''read: '' @ dec (length img) @ '' bytes'' @ [LF]) (con (ld_mach s2))"
    "ld_mmu s2 = (ld_mmu s1)\<lparr>ram := overlay mem_load_addr img (ram (ld_mmu s1))\<rparr>"
    by (rule load_file_places [OF mnt assms(2,3) space assms(5) s1(2)])
  show thesis using step1 s1(3) s2 by (intro that [of s2]) (simp_all add: read_text_def)
qed

lemma boot_loads:
  assumes "mounted (pf_io pf) view D ident (ld_fat s)" "holds_file D ident FILENAME img" "bootable_image m0 img"
    and "boot_space m0 (ld_mmu s)" "\<forall>k < 1048576. \<not> in_tables m0 (mem_load_addr + of_nat k)"
    and "shows_text t (con (ld_mach s))"
  obtains s' where "run_steps (load_steps pf) s = Some (True, s')" "ld_jmp_addr s' = le32 img 24"
    "shows_text (t @ third_text img) (con (ld_mach s'))" "ram (ld_mmu s') = kernel_ram img (ram (ld_mmu s))"
    "paging_on (ld_mmu s')" "\<forall>u. vaddr2pd_idx u \<noteq> 0x3ff \<longrightarrow> mmu_walk (ld_mmu s') u = kernel_walk img u"
proof -
  let ?e = "le32 img 24" and ?p = "case kernel_walk img (le32 img 24) of None \<Rightarrow> 0 | Some p \<Rightarrow> p"
  have len: "length img \<le> 1048576" and entry: "vaddr2pd_idx ?e \<noteq> 0x3ff" using assms(3) by (simp_all add: bootable_image_def)
  obtain s2 where s2: "\<forall>fs. run_steps (say_file_size pf # load_file pf # fs) s = run_steps fs s2"
    "shows_text (t @ read_text img) (con (ld_mach s2))"
    "ld_mmu s2 = (ld_mmu s)\<lparr>ram := overlay mem_load_addr img (ram (ld_mmu s))\<rparr>"
    by (rule boot_reads [OF assms(1,2) len assms(4-6)])
  obtain m where m: "map_kernel s2 = Some (True, s2\<lparr>ld_elf_error := ld_elf_error s2, ld_mmu := m, ld_jmp_addr := ?e\<rparr>)"
    "ram m = kernel_ram img (ram (ld_mmu s))" "mmu_self m" "\<forall>u. vaddr2pd_idx u \<noteq> 0x3ff \<longrightarrow> mmu_walk m u = kernel_walk img u"
    by (rule map_kernel_maps [OF assms(3,4,5) s2(3)])
  let ?s3 = "s2\<lparr>ld_elf_error := ld_elf_error s2, ld_mmu := m, ld_jmp_addr := ?e\<rparr>"
  have sh3: "shows_text (t @ read_text img) (con (ld_mach ?s3))"
    using s2(2) by simp
  obtain s4 where s4: "say (''jmp addr: %x'' @ [LF, NUL]) [Arg_int ?e] ?s3 = Some (True, s4)"
    "shows_text ((t @ read_text img) @
       ''jmp addr: '' @ hex ?e @ [LF]) (con (ld_mach s4))" "ld_mmu s4 = ld_mmu ?s3" "ld_jmp_addr s4 = ld_jmp_addr ?s3"
    by (rule say_step [OF sh3 main_texts(8)]) (simp_all only: printables)
  have pa: "paging_vaddr2paddr ?e m = Some ?p"
    using paging_vaddr2paddr_spec [of m ?e] m(3) m(4) entry by (simp add: mmu_self_def mmu_ready_def)
  obtain s5 where s5: "say (''vaddr: %x => paddr: %x'' @ [LF, NUL]) [Arg_int ?e, Arg_int ?p] s4 = Some (True, s5)"
    "shows_text (((t @ read_text img) @
       ''jmp addr: '' @ hex ?e @ [LF]) @ ''vaddr: '' @ hex ?e @ '' => paddr: '' @ hex ?p @ [LF]) (con (ld_mach s5))"
    "ld_mmu s5 = ld_mmu s4" "ld_jmp_addr s5 = ld_jmp_addr s4"
    by (rule say_step [OF s4(2) main_texts(9)]) (simp_all only: printables)
  have step4: "say_jmp_addr ?s3 = Some (True, s4)" and step5: "say_paddr s4 = Some (True, s5)"
    using s4(1,3,4) s5(1) pa by (simp_all add: say_jmp_addr_def say_paddr_def)
  obtain s6 where s6: "interrupts_off s5 = Some (True, s6)" "con (ld_mach s6) = con (ld_mach s5)" "ld_mmu s6 = ld_mmu s5"
    "ld_jmp_addr s6 = ld_jmp_addr s5" by (simp add: interrupts_off_def)
  have "run_steps (load_steps pf) s = Some (True, s6)"
    using s2(1) m(1) step4 step5 s6(1) by (simp add: load_steps_def)
  moreover have "paging_on m" using m(3) by (simp add: mmu_self_def mmu_ready_def)
  ultimately show thesis
    using s6 s5(2-4) s4(3,4) m by (intro that [of s6]) (simp_all add: third_text_def read_text_def)
qed

section \<open>A bootable disk\<close>

text \<open>The partition table in sector 0, the boot sector in sector 63, the root directory in the sectors 65 to 72, and the
  file, the small image of the ELF loader, in its only cluster, sector 73.\<close>

definition boot_entry :: "u8 list" where
  "boot_entry = [0x4b, 0x45, 0x52, 0x4e, 0x45, 0x4c, 0x20, 0x20, 0x45, 0x4c, 0x46, 0x20,
     0, 0, 0, 0, 0, 0, 0, 0, 0, 0, 0, 0, 0, 0, 2, 0, 86, 0, 0, 0]"

definition boot_sectors :: "nat \<Rightarrow> u8 list" where
  "boot_sectors n = sector_of
     (if n = 0 then (\<lambda>k. if k = 446 then 0x80 else if k = 454 then 63 else if k = 458 then 0xd0 else if k = 459 then 7 else 0)
      else if n = 63 then (\<lambda>k. if k = 0x11 then 128 else if k \<in> {0xd, 0xe, 0x10, 0x16} then 1 else 0)
      else if n = 65 then (\<lambda>k. if k < 32 then boot_entry ! k else 0)
      else if n = 73 then (\<lambda>k. if k < 86 then sample_image ! k else 0) else (\<lambda>k. 0))"

lemma boot_sectors_length: "length (boot_sectors n) = ATA_SECTOR_SIZE"
  by (simp only: boot_sectors_def sector_of_length)

lemma boot_partition:
  "pe_first_lba (boot_sectors 0) 0 = 63" "pe_num_sectors (boot_sectors 0) 0 = 2000" "pe_accepted (boot_sectors 0) 0"
proof -
  have b: "boot_sectors 0 ! k = (if k = 446 then 0x80 else if k = 454 then 63 else if k = 458 then 0xd0 else if k = 459 then 7 else 0)"
    if "k < 512" for k using that by (simp add: boot_sectors_def sector_of_nth)
  show "pe_first_lba (boot_sectors 0) 0 = 63" "pe_num_sectors (boot_sectors 0) 0 = 2000"
    by (simp_all add: pe_first_lba_def pe_num_sectors_def partition_off_def le32_def b push_bit_eq_mult)
  have "boot_sectors 0 ! 446 \<noteq> 0" by (simp add: b)
  moreover have "boot_sectors 0 ! 446 \<in> set (take 16 (drop 446 (boot_sectors 0)))"
    by (auto simp: set_conv_nth boot_sectors_length ATA_SECTOR_SIZE_def intro!: exI [of _ 0])
  ultimately show "pe_accepted (boot_sectors 0) 0"
    by (auto simp: pe_accepted_def pe_is_all_zero_def partition_off_def list_all_iff)
qed

lemma boot_part0: "n < 1000 \<Longrightarrow> part0 boot_sectors (of_nat n) = boot_sectors (63 + n)"
  "n < 1000 \<Longrightarrow> in_part0 boot_sectors sample_ident (of_nat n)"
  using unat_numeral_add [of "num.Bit1 (num.Bit1 (num.Bit1 (num.Bit1 (num.Bit1 num.One))))" n]
  by (simp_all add: part0_def in_part0_def boot_partition sample_ident_fields word_less_nat_alt unat_of_nat_u32)

lemma boot_drive: "drive_ok (model_ata 16 63 4000 boot_sectors sample_ident) (\<lambda>v. v) boot_sectors sample_ident"
  using model_ata_contract [of boot_sectors 16 63 4000 sample_ident] boot_sectors_length
    model_ata_identify [OF sample_ident_fields(1), of 16 63 4000 boot_sectors]
  by (simp add: drive_ok_def sample_ident_fields)

lemma boot_geometry:
  "spc (volume_at (part0 boot_sectors 0)) = 1" "root_clus (volume_at (part0 boot_sectors 0)) = 8"
  "starting_clu_sec_num (volume_at (part0 boot_sectors 0)) = 2"
proof -
  have b: "part0 boot_sectors 0 ! k = (if k = 0x11 then 128 else if k \<in> {0xd, 0xe, 0x10, 0x16} then 1 else 0)" if "k < 512" for k
    using boot_part0(1) [of 0] that by (simp add: boot_sectors_def sector_of_nth)
  show "spc (volume_at (part0 boot_sectors 0)) = 1" "root_clus (volume_at (part0 boot_sectors 0)) = 8"
    "starting_clu_sec_num (volume_at (part0 boot_sectors 0)) = 2"
    by (simp_all add: volume_at_def spc_def root_clus_def le16_def b)
qed

lemma boot_found:
  "dir_search FILENAME (root_entries (part0 boot_sectors) (volume_at (part0 boot_sectors 0))) = Some (Some boot_entry)"
proof -
  let ?v = "volume_at (part0 boot_sectors 0)"
  have "part0 boot_sectors 2 = boot_sectors 65" using boot_part0(1) [of 2] by simp
  moreover have "take 32 (boot_sectors 65) = boot_entry"
    by (rule nth_equalityI) (simp_all add: boot_sectors_def sector_of_length sector_of_nth ATA_SECTOR_SIZE_def, simp_all add: boot_entry_def)
  ultimately have "root_entries (part0 boot_sectors) ?v = boot_entry # map (root_entry (part0 boot_sectors) ?v) [1..<128]"
    by (simp add: root_entries_def boot_geometry upt_conv_Cons root_entry_def)
  moreover have "dir_entry_is_filename 0 boot_entry FILENAME = Some True"
    unfolding FILENAME_def
    by (subst dir_entry_is_filename_rule [where bname = "''kernel''" and ext = "''elf''"])
      (simp_all add: char_is_valid_def char_in_def schar_def boot_entry_def pad_upper_def
        char2upcase_def byte_char_def char_of_def bit_0)
  ultimately show ?thesis
    by (simp add: dir_entry_is_end_def dir_entry_is_unused_def dir_entry_has_long_name_def) (simp add: boot_entry_def bit_simps)
qed

lemma boot_file: "holds_file boot_sectors sample_ident FILENAME sample_image"
proof -
  let ?v = "volume_at (part0 boot_sectors 0)"
  have e: "de_starting_cluster 0 boot_entry = 2" "de_size 0 boot_entry = 86"
    by (simp_all add: de_starting_cluster_def de_size_def le16_def le32_def boot_entry_def)
  have sec: "file_sector (part0 boot_sectors) ?v 2 i = 10" if "i < 86" for i
    using that by (simp add: file_sector_def boot_geometry cluster_sector_def)
  have av: "in_part0 boot_sectors sample_ident (of_nat n)" if "n < 1000" for n using that by (rule boot_part0)
  have root: "in_part0 boot_sectors sample_ident (2 + of_nat (k div 16))" if "k < 128" for k
    using av [of "2 + k div 16"] that by simp
  have rd: "file_readable (part0 boot_sectors) (in_part0 boot_sectors sample_ident) ?v 2 86"
    using av [of 10] by (simp add: file_readable_def boot_geometry sec)
  have "part0 boot_sectors 10 = boot_sectors 73" using boot_part0(1) [of 10] by simp
  then have "file_byte (part0 boot_sectors) ?v 2 i = sample_image ! i" if "i < 86" for i
    using that by (simp add: file_byte_def sec boot_sectors_def sector_of_nth)
  then have "map (file_byte (part0 boot_sectors) ?v 2) [0..<86] = sample_image"
    by (intro nth_equalityI) (simp_all add: sample_image_length)
  then show ?thesis
    unfolding holds_file_def holds_volume_def Let_def
    using boot_found e rd root av [of 0]
    by (intro conjI exI [of _ boot_entry]) (simp_all add: boot_partition boot_geometry sample_image_length)
qed

lemma boot_image: "bootable_image sample_mmu sample_image"
proof -
  have "segment_fits (\<lambda>k. 0x200000 + of_nat k) 0x200000 sample_image sample_mmu sg" if "sg \<in> set (segs_from sample_image 0)" for sg
    by (rule sample_fits) (use that in \<open>simp_all add: sample_image_fields sample_mmu_def\<close>)
  then show ?thesis
    by (simp add: bootable_image_def sample_image_fields sample_image_length mem_load_addr_def KERNEL_MEMSZ_MAX_def vaddr2pd_idx_def)
qed

definition sample_platform :: "'d ports \<Rightarrow> 'd platform" where
  "sample_platform io = \<lparr>pf_io = io, pf_press = (\<lambda>c d. d), pf_idt_base = 0x8000, pf_exception_handler = 0x7000,
     pf_isrs = (\<lambda>n. 0x7100), pf_pit_isr = 0x7200, pf_keyboard_isr = 0x7300, pf_cr0 = 0x80000011,
     pf_stack1 = replicate ATA_SECTOR_SIZE 1, pf_stack2 = replicate ATA_SECTOR_SIZE 2\<rparr>"

definition sample_loader :: "'d \<Rightarrow> 'd loader" where
  "sample_loader d = \<lparr>ld_world = \<lparr>mach = \<lparr>con = blank_console, kbd = shifted_keys, proc = reset_cpu, dev = d\<rparr>,
       sh = blank_shell d, line_buf = replicate SHELL_BUF_SIZE NUL\<rparr>,
     ld_ticks = 9, ld_timers = no_timers, ld_mmu = sample_mmu, ld_elf_error = Unknown_error,
     ld_dyn_str_error = replicate 128 NUL, ld_str_error = replicate 128 NUL, ld_jmp_addr = 0\<rparr>"

lemma sample_loader_ok:
  "layout_ok (ld_mmu (sample_loader d))" "statics_ok (ld_fat (sample_loader d))" "k < 1048576 \<Longrightarrow> \<not> in_tables (ld_mmu (sample_loader d)) (mem_load_addr + of_nat k)"
proof -
  show "layout_ok (ld_mmu (sample_loader d))" using sample_mmu_layout by (simp add: sample_loader_def)
  show "statics_ok (ld_fat (sample_loader d))"
    by (simp add: statics_ok_def ld_fat_def sample_loader_def blank_shell_def blank_fat_def SECTOR_LEN_def
        VOL_LABEL_LEN_def TYPE_LEN_def MODEL_NUMBER_STR_LEN_def NUM_PARTITIONS_MAX_def Let_def)
  show "\<not> in_tables (ld_mmu (sample_loader d)) (mem_load_addr + of_nat k)" if "k < 1048576"
    using load_address(1) [OF that] that
    by (simp add: sample_loader_def sample_mmu_def in_tables_def in_pd_def in_pts_def unat_sub_u32)
qed

section \<open>Properties\<close>

text \<open>C1. The boot loader boots, under these conditions. The processor's tables lie outside the load buffer. The
  drive keeps the ATA contracts, has at most 16 heads and 255 sectors per track and no sector beyond cylinder 1023. The
  first partition holds a volume whose root directory occupies exactly eight clusters, the one size for which the
  constant 8 in \<open>fat16_load\<close> (\<open>fat16.c\<close>, line 466) is right, with the file \<open>kernel.elf\<close>, whose bytes \<open>img\<close>, at most
  1 MiB of them, are an acceptable image: the header passes the tests of the loader, and every segment fits. Then
  \<open>main\<close> returns from no call with an error and ends with the jump to the entry point of the image, whatever the other
  devices and memory hold. Paging is on then, memory has the file at 2 MiB and the segments at their places and is
  otherwise unchanged, the translation is the identity of the first 15 MiB without the first page extended by the
  segments, interrupts are off, and the screen shows exactly the messages of the start.\<close>

theorem boot_main_loads_kernel:
  assumes "layout_ok (ld_mmu s)" "\<forall>k < 1048576. \<not> in_tables (ld_mmu s) (mem_load_addr + of_nat k)"
    and "statics_ok (ld_fat s)" "length (pf_stack1 pf) = ATA_SECTOR_SIZE" "length (pf_stack2 pf) = ATA_SECTOR_SIZE"
    and "drive_ok (pf_io pf) view D ident" "holds_file D ident FILENAME img" "bootable_image (ld_mmu s) img"
  shows "\<exists>s'. boot_main n junk pj pf bs s = Some (Jump (le32 img 24), s') \<and>
    ram (ld_mmu s') = kernel_ram img (ram (ld_mmu s)) \<and> paging_on (ld_mmu s') \<and>
    (\<forall>u. vaddr2pd_idx u \<noteq> 0x3ff \<longrightarrow> mmu_walk (ld_mmu s') u = kernel_walk img u) \<and>
    \<not> interrupts_on s' \<and>
    shows_text (first_text (pf_cr0 pf) @ second_text @ third_text img) (con (ld_mach s'))"
proof -
  obtain s2 where s2: "\<forall>fs. run_steps (start_up pf @ paging_steps pf @ hdd_steps pf @ fs) s = run_steps fs s2"
    "shows_text (first_text (pf_cr0 pf) @ second_text) (con (ld_mach s2))" "boot_space (ld_mmu s) (ld_mmu s2)"
    "ram (ld_mmu s2) = ram (ld_mmu s)" "mounted (pf_io pf) view D ident (ld_fat s2)"
    by (rule boot_mounted [OF assms(1,3-6)]) (use assms(7) in \<open>simp add: holds_file_def\<close>)
  obtain s3 where s3: "run_steps (load_steps pf) s2 = Some (True, s3)" "ld_jmp_addr s3 = le32 img 24"
    "shows_text ((first_text (pf_cr0 pf) @ second_text) @ third_text img) (con (ld_mach s3))"
    "ram (ld_mmu s3) = kernel_ram img (ram (ld_mmu s2))" "paging_on (ld_mmu s3)"
    "\<forall>u. vaddr2pd_idx u \<noteq> 0x3ff \<longrightarrow> mmu_walk (ld_mmu s3) u = kernel_walk img u"
    by (rule boot_loads [OF s2(5) assms(7,8) s2(3) assms(2) s2(2)])
  have run: "boot pf s = Some (True, s3)"
    using s2(1) s3(1) by (simp add: boot_def)
  then have "boot_main n junk pj pf bs s = Some (Jump (le32 img 24), s3)"
    using s3(2) by (simp add: boot_main_def)
  moreover have "\<not> interrupts_on s3" using boot_asleep [OF run] by (simp add: asleep_def)
  ultimately show ?thesis using s3(3-6) s2(4) by auto
qed

theorem boot_main_loads_kernel_witness:
  "\<exists>s'. boot_main 0 [] (\<lambda>i. blank_token) (sample_platform (model_ata 16 63 4000 boot_sectors sample_ident)) []
       (sample_loader model_view) = Some (Jump 0xc0000000, s') \<and>
     ram (ld_mmu s') 0x300001 = 0xfe \<and> ram (ld_mmu s') 0x200001 = 0x45 \<and> mmu_walk (ld_mmu s') 0xc0000002 = Some 0x300002"
proof -
  have p: "pf_io (sample_platform (model_ata 16 63 4000 boot_sectors sample_ident)) = model_ata 16 63 4000 boot_sectors sample_ident"
    "length (pf_stack1 (sample_platform io)) = ATA_SECTOR_SIZE" "length (pf_stack2 (sample_platform io)) = ATA_SECTOR_SIZE"
    for io :: "ata_view ports" by (simp_all add: sample_platform_def)
  have m: "ld_mmu (sample_loader model_view) = sample_mmu" by (simp add: sample_loader_def)
  have img: "bootable_image (ld_mmu (sample_loader model_view)) sample_image" unfolding m by (rule boot_image)
  obtain s' where s': "boot_main 0 [] (\<lambda>i. blank_token) (sample_platform (model_ata 16 63 4000 boot_sectors sample_ident)) []
       (sample_loader model_view) = Some (Jump (le32 sample_image 24), s')"
      "ram (ld_mmu s') = kernel_ram sample_image (ram sample_mmu)"
      "\<forall>u. vaddr2pd_idx u \<noteq> 0x3ff \<longrightarrow> mmu_walk (ld_mmu s') u = kernel_walk sample_image u"
    using boot_main_loads_kernel [where pf = "sample_platform (model_ata 16 63 4000 boot_sectors sample_ident)"
        and view = "\<lambda>v. v" and s = "sample_loader model_view", OF sample_loader_ok(1) _ sample_loader_ok(2) p(2,3) _ boot_file img,
        unfolded p(1) m] boot_drive sample_loader_ok(3) [of _ model_view, unfolded m] by blast
  have "kernel_ram sample_image (ram sample_mmu) 0x300001 = 0xfe" "kernel_ram sample_image (ram sample_mmu) 0x200001 = 0x45"
    by (simp_all add: kernel_ram_def sample_image_fields load_seg_def place_def seg_byte_def overlay_def mem_load_addr_def sample_image_length)
      (simp_all add: sample_image_def)
  moreover have "kernel_walk sample_image 0xc0000002 = Some 0x300002"
    by (simp add: kernel_walk_def sample_image_fields map_seg_def remap_def page_ceil_def)
  moreover have "vaddr2pd_idx 0xc0000002 \<noteq> 0x3ff" by (simp add: vaddr2pd_idx_def)
  ultimately show ?thesis using s' unfolding sample_image_fields by auto
qed

end
