(* ===== verification/Old_Console.thy ===== *)
theory Old_Console
  imports Keyboard
begin

text \<open>
  Console and keyboard of the older kernel (\<open>kernel/drivers/console.c\<close>, \<open>kernel/drivers/keyboard.c\<close>,
  \<open>kernel/include/keymap.h\<close>) where they differ from those of the loader: no tab, a key map of one
  character per key, and a \<open>console_get_line\<close> that does not sleep but spins, masking and unmasking
  interrupts. Cursor, scrolling and line buffer are textually the same and are the definitions of
  \<open>Console\<close>.
\<close>

section \<open>Output and input of characters\<close>

definition old_console_putc :: "char \<Rightarrow> bool \<Rightarrow> console \<Rightarrow> int \<times> console" where
  "old_console_putc c display s =
     (if c = ch_lf then (0, line_feed s)
      else if c = ch_cr then (0, console_kill s)
      else if c = ch_del then (0, console_clear s)
      else if c = ch_bs then (0, snd (del_ibuf s))
      else (1, if display then putc_attr c (con_attr s) s else s))"

fun old_puts_from :: "char list \<Rightarrow> nat \<Rightarrow> console \<Rightarrow> (nat \<times> console) option" where
  "old_puts_from [] i s = None"
| "old_puts_from (c # cs) i s =
     (if c = NUL then Some (i, s) else old_puts_from cs (Suc i) (snd (old_console_putc c True s)))"

definition old_console_puts :: "char list option \<Rightarrow> console \<Rightarrow> (int \<times> console) option" where
  "old_console_puts str s =
     (case str of
        None \<Rightarrow> Some (0, s)
      | Some cs \<Rightarrow> map_option (\<lambda>(i, s'). (int i, draw_cursor s')) (old_puts_from cs 0 s))"

definition old_console_put_ibuf :: "char \<Rightarrow> console \<Rightarrow> console" where
  "old_console_put_ibuf c s =
     (let s1 = (if c = ch_lf then s\<lparr>line_completed := True\<rparr> else s);
          (printable, s2) = old_console_putc c (\<not> ibuf_is_full s1) s1
      in if printable \<noteq> 0 \<and> \<not> ibuf_is_full s2
         then draw_cursor (s2\<lparr>ibuf := (ibuf s2)[widx s2 := c], widx := widx s2 + 1\<rparr>)
         else s2)"

definition old_display_ibuf :: "console \<Rightarrow> console" where
  "old_display_ibuf s = draw_cursor (fold (\<lambda>i s. snd (old_console_putc (ibuf s ! i) True s)) [0..<widx s] s)"

section \<open>The keyboard\<close>

definition old_keymap :: "char list" where
  "old_keymap = [
     CHR '' '', CHR '' '', CHR '' '', CHR '' '', CHR '' '', CHR '' '', CHR '' '', CHR '' '',
     CHR '' '', CHR '' '', CHR '' '', CHR '' '', CHR '' '', CHR '' '', ch_del, CHR '' '',
     CHR ''q'', CHR ''w'', CHR ''e'', CHR ''r'', CHR ''t'', CHR ''y'', CHR ''u'', CHR ''i'',
     CHR ''o'', CHR ''p'', CHR 0x60, CHR ''+'', ch_lf, CHR ''X'', CHR ''a'', CHR ''s'',
     CHR ''d'', CHR ''f'', CHR ''g'', CHR ''h'', CHR ''j'', CHR ''k'', CHR ''l'', CHR ''Y'',
     CHR ''Y'', CHR ''Y'', CHR ''X'', CHR ''Y'', CHR ''z'', CHR ''x'', CHR ''c'', CHR ''v'',
     CHR ''b'', CHR ''n'', CHR ''m'', CHR '','', CHR ''.'', CHR ''-'', CHR ''X'', CHR ''Z'',
     CHR ''Z'', CHR '' '', CHR ''Z'', CHR '' '', CHR '' '', CHR '' '', CHR '' '', CHR '' '',
     CHR '' '', CHR '' '', CHR '' '', CHR '' '', CHR '' '', CHR '' '', CHR '' '', CHR '' '',
     CHR '' '', CHR '' '', CHR '' '', CHR '' '', CHR '' '', CHR '' '', CHR '' '', CHR '' '',
     CHR '' '', CHR '' '', CHR '' '', CHR '' '', CHR '' '', CHR '' '', CHR '' '', CHR '' '',
     CHR '' '', CHR '' '', CHR '' '', CHR '' '', CHR '' '', CHR '' '', CHR '' '', CHR '' '',
     CHR '' '', CHR '' '', CHR '' '', CHR '' '', CHR '' '', CHR '' '', CHR '' '', CHR '' '',
     CHR '' '', CHR '' '', CHR '' '', CHR '' '', CHR '' '', CHR '' '', CHR '' '', CHR '' '',
     CHR '' '', CHR '' '', CHR '' '', CHR '' '', CHR '' '', CHR '' '', CHR '' '', CHR '' '',
     CHR '' '', CHR '' '', CHR '' '', CHR '' '', CHR '' '', CHR '' '', CHR '' '', CHR '' '']"

definition old_map_key :: "u8 \<Rightarrow> keyboard \<Rightarrow> char" where
  "old_map_key code k =
     (let c = old_keymap ! unat code
      in if c = CHR ''u'' then if kb_ctrl k then ch_cr else c
         else if c = CHR ''l'' then if kb_ctrl k then ch_del else c
         else if c = ch_del then ch_bs
         else c)"

definition old_keyboard_isr :: "'d ports \<Rightarrow> 'd machine \<Rightarrow> 'd machine" where
  "old_keyboard_isr io s =
     (let (scancode, d) = read_buf io (dev s);
          s = s\<lparr>dev := d\<rparr>;
          make = (0x80 AND scancode = 0);
          scancode = 0x7f AND scancode
      in if scancode = LCTRL then isr_end io (s\<lparr>kbd := (kbd s)\<lparr>kb_ctrl := make\<rparr>\<rparr>)
         else if scancode = LSHIFT then isr_end io (s\<lparr>kbd := (kbd s)\<lparr>kb_lshift := make\<rparr>\<rparr>)
         else if scancode = RSHIFT then isr_end io (s\<lparr>kbd := (kbd s)\<lparr>kb_rshift := make\<rparr>\<rparr>)
         else if \<not> make then isr_end io s
         else isr_end io (s\<lparr>con := old_console_put_ibuf (old_map_key scancode (kbd s)) (con s)\<rparr>))"

definition old_keyboard_init :: "'d ports \<Rightarrow> u32 \<Rightarrow> 'd machine \<Rightarrow> int \<times> 'd machine" where
  "old_keyboard_init io isr s =
     (let s = s\<lparr>kbd := \<lparr>kb_shift = False, kb_rshift = False, kb_lshift = False, kb_ctrl = False\<rparr>\<rparr>;
          intr_flag = eflags_get_intr_flag (eflags (proc s));
          s = s\<lparr>proc := (proc s)\<lparr>eflags := intr_disable (eflags (proc s))\<rparr>\<rparr>;
          s = s\<lparr>proc := snd (intr_register_irq KEYBOARD_IRQ_NUM isr (proc s))\<rparr>;
          s = s\<lparr>dev := pic_enable_irq io KEYBOARD_IRQ_NUM (dev s)\<rparr>
      in (0, s\<lparr>proc := (proc s)\<lparr>eflags := eflags_set_intr_flag intr_flag (eflags (proc s))\<rparr>\<rparr>))"

section \<open>Reading a line\<close>

definition cpu_intr :: "(u32 \<Rightarrow> u32) \<Rightarrow> 'd machine \<Rightarrow> 'd machine" where
  "cpu_intr f s = s\<lparr>proc := (proc s)\<lparr>eflags := f (eflags (proc s))\<rparr>\<rparr>"

definition old_take_irqs :: "'d ports \<Rightarrow> (u8 \<Rightarrow> 'd \<Rightarrow> 'd) \<Rightarrow> u8 list \<Rightarrow> 'd machine \<Rightarrow> 'd machine" where
  "old_take_irqs io press codes s = fold (\<lambda>c s. old_keyboard_isr io (s\<lparr>dev := press c (dev s)\<rparr>)) codes s"

text \<open>
  One element of \<open>bs\<close> holds the scan codes whose interrupts the processor takes in one round of the loop,
  between \<open>intr_enable\<close> and the next \<open>intr_disable\<close>. \<open>None\<close>: the events are exhausted and the loop spins on.
\<close>

fun old_get_line_from :: "'d ports \<Rightarrow> (u8 \<Rightarrow> 'd \<Rightarrow> 'd) \<Rightarrow> u8 list list \<Rightarrow> 'd machine
    \<Rightarrow> (int \<times> u8 list list \<times> 'd machine) option" where
  "old_get_line_from io press bs s =
     (let s = cpu_intr intr_disable s
      in if line_completed (con s) then Some (0, bs, s)
         else if cleared (con s) then Some (1, bs, s)
         else (case bs of [] \<Rightarrow> None
               | b # bs' \<Rightarrow> old_get_line_from io press bs' (old_take_irqs io press b (cpu_intr intr_enable s))))"

declare old_get_line_from.simps [simp del]

definition old_console_get_line :: "'d ports \<Rightarrow> (u8 \<Rightarrow> 'd \<Rightarrow> 'd) \<Rightarrow> u8 list list \<Rightarrow> char list \<Rightarrow> nat \<Rightarrow> 'd machine
    \<Rightarrow> (int \<times> char list \<times> nat \<times> u8 list list \<times> 'd machine) option" where
  "old_console_get_line io press bs buf buf_len s =
     (let s = (if cleared (con s) then s\<lparr>con := (old_display_ibuf (con s))\<lparr>cleared := False\<rparr>\<rparr> else s)
      in case old_get_line_from io press bs s of
           None \<Rightarrow> None
         | Some (rc, bs', s) \<Rightarrow>
             if rc \<noteq> 0 then Some (1, buf, buf_len, bs', s)
             else (let len = (if buf_len < widx (con s) then buf_len else widx (con s))
                   in case memcpy buf (ibuf (con s)) len of
                        None \<Rightarrow> None
                      | Some buf' \<Rightarrow> Some (0, buf', len, bs', s\<lparr>con := reset_ibuf (con s)\<rparr>)))"

section \<open>Agreement with the console of the loader\<close>

text \<open>Without tabs the two consoles do the same.\<close>

lemma old_putc_eq: "c \<noteq> ch_tab \<Longrightarrow> old_console_putc c d s = console_putc c d s"
  by (simp add: old_console_putc_def console_putc_def)

lemma old_put_ibuf_eq: "c \<noteq> ch_tab \<Longrightarrow> old_console_put_ibuf c s = console_put_ibuf c s"
  by (simp add: old_console_put_ibuf_def console_put_ibuf_def old_putc_eq)

lemma old_puts_from_eq:
  "c_string buf cs \<Longrightarrow> ch_tab \<notin> set cs \<Longrightarrow> old_puts_from buf i s = puts_from buf i s"
proof (induction cs arbitrary: buf i s)
  case Nil
  then obtain rest where "buf = NUL # rest" by (auto simp: c_string_def)
  then show ?case by simp
next
  case (Cons c cs)
  then obtain bs where "buf = c # bs" "c \<noteq> NUL" "c_string bs cs" by (cases buf) auto
  then show ?case using Cons old_putc_eq [of c True s] by (simp add: eq_commute)
qed

lemma old_puts_eq:
  "c_string buf cs \<Longrightarrow> ch_tab \<notin> set cs \<Longrightarrow> old_console_puts (Some buf) s = console_puts (Some buf) s"
  by (simp add: old_console_puts_def console_puts_def old_puts_from_eq)

section \<open>The effect of a scan code\<close>

definition old_key_event :: "u8 \<Rightarrow> console \<times> keyboard \<Rightarrow> console \<times> keyboard" where
  "old_key_event code ck = (case ck of (c, k) \<Rightarrow>
     (let make = \<not> bit code 7;
          sc = take_bit 7 code;
          k' = (if sc = LCTRL then k\<lparr>kb_ctrl := make\<rparr> else if sc = LSHIFT then k\<lparr>kb_lshift := make\<rparr>
                else if sc = RSHIFT then k\<lparr>kb_rshift := make\<rparr> else k)
      in (if make \<and> sc \<notin> {LCTRL, LSHIFT, RSHIFT} then old_console_put_ibuf (old_map_key sc k) c else c,
          k'\<lparr>kb_shift := kb_lshift k' \<or> kb_rshift k'\<rparr>)))"

lemma old_isr_event:
  assumes "keyboard_contract io view press"
  shows "(con (old_keyboard_isr io (s\<lparr>dev := press code (dev s)\<rparr>)), kbd (old_keyboard_isr io (s\<lparr>dev := press code (dev s)\<rparr>)))
      = old_key_event code (con s, kbd s)"
    and "proc (old_keyboard_isr io (s\<lparr>dev := press code (dev s)\<rparr>)) = proc s"
proof -
  obtain d where d: "read_buf io (press code (dev s)) = (code, d)"
    using assms by (metis DATA_REG_def keyboard_contract_def prod.collapse read_buf_def)
  have b: "0x7f AND code = take_bit 7 code" using code_bits by (simp add: and.commute)
  show "(con (old_keyboard_isr io (s\<lparr>dev := press code (dev s)\<rparr>)), kbd (old_keyboard_isr io (s\<lparr>dev := press code (dev s)\<rparr>)))
      = old_key_event code (con s, kbd s)"
    using modifiers_differ by (simp add: old_keyboard_isr_def d make_bit b old_key_event_def isr_end_def Let_def)
  show "proc (old_keyboard_isr io (s\<lparr>dev := press code (dev s)\<rparr>)) = proc s"
    by (simp add: old_keyboard_isr_def d isr_end_def Let_def)
qed

lemma old_take_irqs_event:
  assumes "keyboard_contract io view press"
  shows "(con (old_take_irqs io press codes s), kbd (old_take_irqs io press codes s)) = fold old_key_event codes (con s, kbd s)
    \<and> proc (old_take_irqs io press codes s) = proc s"
proof (induction codes arbitrary: s)
  case (Cons c cs)
  have "old_take_irqs io press (c # cs) s = old_take_irqs io press cs (old_keyboard_isr io (s\<lparr>dev := press c (dev s)\<rparr>))"
    by (simp add: old_take_irqs_def)
  then show ?case using Cons [of "old_keyboard_isr io (s\<lparr>dev := press c (dev s)\<rparr>)"] old_isr_event [OF assms, where s = s and code = c] by simp
qed (simp add: old_take_irqs_def)

lemma cpu_intr_simps [simp]:
  "con (cpu_intr f s) = con s" "kbd (cpu_intr f s) = kbd s" "dev (cpu_intr f s) = dev s"
  "proc (cpu_intr f s) = (proc s)\<lparr>eflags := f (eflags (proc s))\<rparr>"
  by (simp_all add: cpu_intr_def)

lemma intr_toggle: "intr_disable (intr_enable e) = intr_disable e" "intr_disable (intr_disable e) = intr_disable e"
  by (rule bit_word_eqI; auto simp: intr_disable_def intr_enable_def bit_set_bit_iff bit_unset_bit_iff)+

lemma old_get_line_from_completes:
  assumes "keyboard_contract io view press"
    and "\<forall>p. strict_prefix p (concat bs) \<longrightarrow> waiting (fold old_key_event p (con s, kbd s))"
    and "line_completed (fst (fold old_key_event (concat bs) (con s, kbd s)))"
  shows "\<exists>bs' s'. old_get_line_from io press bs s = Some (0, bs', s') \<and> concat bs' = []
    \<and> (con s', kbd s') = fold old_key_event (concat bs) (con s, kbd s)
    \<and> proc s' = (proc s)\<lparr>eflags := intr_disable (eflags (proc s))\<rparr>"
  using assms(2-)
proof (induction bs arbitrary: s)
  case (Cons b bs)
  show ?case
  proof (cases "concat (b # bs) = []")
    case True
    then have "fold old_key_event (concat (b # bs)) (con s, kbd s) = (con s, kbd s)" by (simp only: fold_simps id_apply)
    then show ?thesis using True Cons.prems(2)
      by (intro exI [of _ "b # bs"] exI [of _ "cpu_intr intr_disable s"]) (simp add: old_get_line_from.simps [of io press _ s])
  next
    case False
    then have "strict_prefix [] (concat (b # bs))" by (simp add: strict_prefix_def)
    then have w: "\<not> line_completed (con s)" "\<not> cleared (con s)" using Cons.prems(1) by force+
    let ?s = "old_take_irqs io press b (cpu_intr intr_enable (cpu_intr intr_disable s))"
    have ck: "(con ?s, kbd ?s) = fold old_key_event b (con s, kbd s)"
      "proc ?s = (proc s)\<lparr>eflags := intr_enable (intr_disable (eflags (proc s)))\<rparr>"
      using old_take_irqs_event [OF assms(1), of b "cpu_intr intr_enable (cpu_intr intr_disable s)"] by simp_all
    have "\<forall>p. strict_prefix p (concat bs) \<longrightarrow> waiting (fold old_key_event p (con ?s, kbd ?s))"
    proof (intro allI impI)
      fix p assume "strict_prefix p (concat bs)"
      then have "strict_prefix (b @ p) (concat (b # bs))" by (auto simp: strict_prefix_def)
      then have "waiting (fold old_key_event (b @ p) (con s, kbd s))" using Cons.prems(1) by blast
      then show "waiting (fold old_key_event p (con ?s, kbd ?s))" by (simp add: ck)
    qed
    from Cons.IH [OF this] Cons.prems(2) ck
    obtain bs' s' where IH: "old_get_line_from io press bs ?s = Some (0, bs', s')" "concat bs' = []"
      "(con s', kbd s') = fold old_key_event (concat (b # bs)) (con s, kbd s)"
      "proc s' = (proc s)\<lparr>eflags := intr_disable (eflags (proc s))\<rparr>"
      by (auto simp: intr_toggle)
    have "old_get_line_from io press (b # bs) s = old_get_line_from io press bs ?s"
      using w by (simp add: old_get_line_from.simps [of io press "b # bs"])
    then show ?thesis using IH by auto
  qed
next
  case Nil
  then show ?case
    by (intro exI [of _ "[]"] exI [of _ "cpu_intr intr_disable s"]) (simp add: old_get_line_from.simps)
qed

section \<open>Typing\<close>

text \<open>Make and break code of the first key of a character.\<close>

definition old_keystrokes :: "char \<Rightarrow> u8 list" where
  "old_keystrokes c =
     (case find (\<lambda>k. old_map_key (of_nat k) idle_keys = c) character_keys of
        Some k \<Rightarrow> [of_nat k, of_nat (k + 128)] | None \<Rightarrow> [])"

definition old_typable :: "char \<Rightarrow> bool" where
  "old_typable c \<longleftrightarrow> old_keystrokes c \<noteq> []"

lemma old_key_chars:
  assumes "k \<in> set character_keys"
  shows "old_map_key (of_nat k) idle_keys \<notin> {NUL, ch_tab, ch_cr, ch_del}"
proof -
  have k: "k < 128" by (rule character_key [OF assms])
  then have u: "unat (of_nat k :: u8) = k" by (simp add: unsigned_of_nat take_bit_nat_eq_self)
  have "length old_keymap = 128" "NUL \<notin> set old_keymap" "ch_tab \<notin> set old_keymap" "ch_cr \<notin> set old_keymap"
    by (simp_all add: old_keymap_def ch_defs)
  moreover have "old_keymap ! k \<in> set old_keymap" using k calculation(1) by simp
  ultimately have "old_keymap ! k \<noteq> NUL" "old_keymap ! k \<noteq> ch_tab" "old_keymap ! k \<noteq> ch_cr" by metis+
  then show ?thesis by (auto simp: old_map_key_def u Let_def idle_keys_def ch_defs)
qed

lemma old_typable_char: "old_typable c \<Longrightarrow> c \<notin> {NUL, ch_tab, ch_cr, ch_del}"
  using old_key_chars by (auto simp: old_typable_def old_keystrokes_def find_Some_iff split: option.splits)

lemma old_press_key:
  assumes "k \<in> set character_keys"
  shows "old_key_event (of_nat k) (c, idle_keys) = (console_put_ibuf (old_map_key (of_nat k) idle_keys) c, idle_keys)"
    and "old_key_event (of_nat (k + 128)) (c, idle_keys) = (c, idle_keys)"
proof -
  note k = character_key [OF assms]
  show "old_key_event (of_nat k) (c, idle_keys) = (console_put_ibuf (old_map_key (of_nat k) idle_keys) c, idle_keys)"
    "old_key_event (of_nat (k + 128)) (c, idle_keys) = (c, idle_keys)"
    using k(2) key_code_bits [OF k(1)] old_key_chars [OF assms]
    by (simp_all add: old_key_event_def Let_def idle_keys_def old_put_ibuf_eq)
qed

lemma old_type_char:
  assumes "old_typable ch"
  shows "fold old_key_event (old_keystrokes ch) (c, idle_keys) = (console_put_ibuf ch c, idle_keys)"
    and "prefix p (old_keystrokes ch) \<Longrightarrow> fst (fold old_key_event p (c, idle_keys)) \<in> {c, console_put_ibuf ch c}"
proof -
  obtain k where s: "find (\<lambda>k. old_map_key (of_nat k) idle_keys = ch) character_keys = Some k"
    using assms by (auto simp: old_typable_def old_keystrokes_def split: option.splits)
  then have k: "k \<in> set character_keys" "old_map_key (of_nat k) idle_keys = ch" by (auto simp: find_Some_iff)
  show "fold old_key_event (old_keystrokes ch) (c, idle_keys) = (console_put_ibuf ch c, idle_keys)"
    "prefix p (old_keystrokes ch) \<Longrightarrow> fst (fold old_key_event p (c, idle_keys)) \<in> {c, console_put_ibuf ch c}"
    using old_press_key [OF k(1)] k(2) by (auto simp: old_keystrokes_def s prefix_Cons)
qed

lemma old_type_text:
  "list_all old_typable cs \<Longrightarrow>
   fold old_key_event (concat (map old_keystrokes cs)) (c, idle_keys) = (fold console_put_ibuf cs c, idle_keys)"
  by (induction cs arbitrary: c) (simp_all add: old_type_char)

lemma old_type_text_prefix:
  assumes "list_all old_typable cs" "prefix p (concat (map old_keystrokes cs))"
  shows "\<exists>t. prefix t cs \<and> fst (fold old_key_event p (c, idle_keys)) = fold console_put_ibuf t c"
  using assms
proof (induction cs arbitrary: c p)
  case (Cons ch cs)
  consider (in_char) "prefix p (old_keystrokes ch)"
    | (later) q where "p = old_keystrokes ch @ q" "prefix q (concat (map old_keystrokes cs))"
    using Cons.prems(2) by (auto simp: prefix_append)
  then show ?case
  proof cases
    case in_char
    then have "fst (fold old_key_event p (c, idle_keys)) \<in> {c, console_put_ibuf ch c}"
      using Cons.prems(1) old_type_char(2) by simp
    moreover have "prefix [] (ch # cs)" "prefix [ch] (ch # cs)" by simp_all
    ultimately show ?thesis by (metis fold_simps insert_iff singletonD)
  next
    case later
    then obtain t where "prefix t cs"
      "fst (fold old_key_event q (console_put_ibuf ch c, idle_keys)) = fold console_put_ibuf t (console_put_ibuf ch c)"
      using Cons.IH Cons.prems(1) by force
    then show ?thesis using later(1) Cons.prems(1) old_type_char(1) [of ch c]
      by (intro exI [of _ "ch # t"]) simp
  qed
qed simp

lemma old_typed_line:
  assumes "list_all old_typable cs" "ch_lf \<notin> set cs" "ibuf_ok s" "\<not> line_completed s" "\<not> cleared s"
  defines "codes \<equiv> concat (map old_keystrokes cs) @ [ENTER]"
  shows "\<forall>p. strict_prefix p codes \<longrightarrow> waiting (fold old_key_event p (s, idle_keys))"
    and "fold old_key_event codes (s, idle_keys) = (fold console_put_ibuf (cs @ [ch_lf]) s, idle_keys)"
proof -
  have k: "(28 :: nat) \<in> set character_keys" and e: "of_nat 28 = ENTER" by (simp_all add: character_keys_def ENTER_def)
  have "old_map_key ENTER idle_keys = ch_lf"
    by (simp add: old_map_key_def old_keymap_def idle_keys_def ch_defs ENTER_def)
  then have enter: "old_key_event ENTER (c, idle_keys) = (console_put_ibuf ch_lf c, idle_keys)" for c
    using old_press_key(1) [OF k, of c] unfolding e by simp
  show "fold old_key_event codes (s, idle_keys) = (fold console_put_ibuf (cs @ [ch_lf]) s, idle_keys)"
    by (simp add: codes_def old_type_text [OF assms(1)] enter)
  show "\<forall>p. strict_prefix p codes \<longrightarrow> waiting (fold old_key_event p (s, idle_keys))"
  proof (intro allI impI)
    fix p assume "strict_prefix p codes"
    then have "prefix p (concat (map old_keystrokes cs))" by (auto simp: codes_def strict_prefix_def)
    from old_type_text_prefix [OF assms(1) this, of s]
    obtain t where t: "prefix t cs" "fst (fold old_key_event p (s, idle_keys)) = fold console_put_ibuf t s" by blast
    have "ch_lf \<notin> set t" "ch_del \<notin> set t"
      using set_mono_prefix [OF t(1)] assms(1,2) old_typable_char by (auto simp: list_all_iff)
    from fold_put_ibuf_waits [OF assms(3) this assms(4,5)] show "waiting (fold old_key_event p (s, idle_keys))"
      by (simp add: t(2))
  qed
qed

section \<open>The echo\<close>

text \<open>What the keyboard puts into the line buffer appears on the terminal.\<close>

definition echoes :: "char list \<Rightarrow> console \<Rightarrow> console \<Rightarrow> bool" where
  "echoes cs s s' \<longleftrightarrow> on_screen s' \<and> terminal_of s' = fold (term_char (con_attr s)) cs (terminal_of s) \<and>
     con_attr s' = con_attr s"

lemma line_fields_hidden [simp]:
  "on_screen (t\<lparr>ibuf := b\<rparr>) = on_screen t" "terminal_of (t\<lparr>ibuf := b\<rparr>) = terminal_of t"
  "on_screen (t\<lparr>widx := n\<rparr>) = on_screen t" "terminal_of (t\<lparr>widx := n\<rparr>) = terminal_of t"
  "on_screen (t\<lparr>line_completed := l\<rparr>) = on_screen t" "terminal_of (t\<lparr>line_completed := l\<rparr>) = terminal_of t"
  by (simp_all add: on_screen_def terminal_of_def fun_eq_iff)

lemma echo_char:
  assumes "on_screen s" "ibuf_ok s" "c \<notin> {ch_tab, ch_cr, ch_del, ch_bs}" "c = ch_lf \<or> widx s < IBUF_SIZE"
  shows "echoes [c] s (console_put_ibuf c s)"
    and "c \<noteq> ch_lf \<Longrightarrow> widx (console_put_ibuf c s) = Suc (widx s)"
proof -
  let ?s = "if c = ch_lf then s\<lparr>line_completed := True\<rparr> else s"
  have eqs: "on_screen ?s" "terminal_of ?s = terminal_of s" "con_attr ?s = con_attr s"
    using assms(1) by simp_all
  have "displays ?s (term_char (con_attr s) c (terminal_of s)) (snd (console_putc c True ?s))"
    using console_putc_terminal [OF eqs(1)] assms(3) unfolding eqs(2,3) by simp
  then have d: "on_screen (snd (console_putc c True ?s))"
    "terminal_of (snd (console_putc c True ?s)) = term_char (con_attr s) c (terminal_of s)"
    "con_attr (snd (console_putc c True ?s)) = con_attr s" "widx (snd (console_putc c True ?s)) = widx s"
    by (auto simp: displays_def same_rest_def)
  have dis: "snd (console_putc c (\<not> ibuf_is_full ?s) ?s) = snd (console_putc c True ?s)"
    using assms(4) by (auto simp: console_putc_def ibuf_is_full_def)
  let ?t = "snd (console_putc c True ?s)"
  let ?u = "?t\<lparr>ibuf := (ibuf ?t)[widx ?t := c], widx := widx ?t + 1\<rparr>"
  have u: "on_screen ?u" "terminal_of ?u = terminal_of ?t" "con_attr ?u = con_attr ?t"
    using d(1) by simp_all
  have dr: "on_screen (draw_cursor ?u)" "terminal_of (draw_cursor ?u) = terminal_of ?t" "con_attr (draw_cursor ?u) = con_attr ?t"
    using draw_cursor_shows(1) [OF u(1)] u(2,3) by (auto simp: displays_def same_rest_def)
  have "console_put_ibuf c s \<in> {?t, draw_cursor ?u}"
    by (simp add: console_put_ibuf_def case_prod_beta Let_def dis)
  then show "echoes [c] s (console_put_ibuf c s)"
    using d dr by (auto simp: echoes_def)
  show "widx (console_put_ibuf c s) = Suc (widx s)" if "c \<noteq> ch_lf"
    using that assms(3,4) by (simp add: console_put_ibuf_def console_putc_def Let_def ibuf_is_full_def)
qed

text \<open>Characters that the line editor only appends.\<close>

definition plain_line :: "char list \<Rightarrow> bool" where
  "plain_line cs \<longleftrightarrow> set cs \<inter> {ch_lf, ch_tab, ch_cr, ch_del, ch_bs} = {} \<and> length cs \<le> IBUF_SIZE"

lemma edit_plain:
  assumes "set cs \<inter> {ch_lf, ch_tab, ch_cr, ch_del, ch_bs} = {}" "length l + length cs \<le> IBUF_SIZE"
  shows "fold edit cs (l, b) = (l @ cs, b)"
  using assms by (induction cs arbitrary: l) (auto simp: edit_def)

lemma echo_plain:
  assumes "on_screen s" "ibuf_ok s" "set cs \<inter> {ch_lf, ch_tab, ch_cr, ch_del, ch_bs} = {}" "widx s + length cs \<le> IBUF_SIZE"
  shows "echoes cs s (fold console_put_ibuf cs s) \<and> ibuf_ok (fold console_put_ibuf cs s)"
  using assms
proof (induction cs arbitrary: s)
  case (Cons c cs)
  then have c: "c \<notin> {ch_tab, ch_cr, ch_del, ch_bs}" "c \<noteq> ch_lf" "widx s < IBUF_SIZE" by auto
  note e = echo_char [OF Cons.prems(1,2) c(1) disjI2 [OF c(3)]]
  have "echoes cs (console_put_ibuf c s) (fold console_put_ibuf cs (console_put_ibuf c s)) \<and>
    ibuf_ok (fold console_put_ibuf cs (console_put_ibuf c s))"
    using Cons.prems(3,4) e(1) e(2) [OF c(2)] console_put_ibuf_edits(2) [OF Cons.prems(2), of c]
    by (intro Cons.IH) (auto simp: echoes_def)
  then show ?case using e(1) by (simp add: echoes_def)
qed (simp add: echoes_def)

lemma echo_line:
  assumes "on_screen s" "ibuf_ok s" "plain_line cs" "widx s = 0"
  shows "echoes (cs @ [ch_lf]) s (fold console_put_ibuf (cs @ [ch_lf]) s)"
proof -
  let ?s = "fold console_put_ibuf cs s"
  have e: "echoes cs s ?s" "ibuf_ok ?s" using echo_plain [OF assms(1,2), of cs] assms(3,4) by (simp_all add: plain_line_def)
  have "echoes [ch_lf] ?s (console_put_ibuf ch_lf ?s)"
    using e by (intro echo_char(1)) (simp_all add: echoes_def ch_defs)
  then show ?thesis using e(1) by (simp add: echoes_def)
qed

section \<open>A typed line\<close>

lemma old_get_typed_line:
  assumes "keyboard_contract io view press" "kbd s = idle_keys"
    and "on_screen (con s)" "ibuf_ok (con s)" "widx (con s) = 0" "\<not> line_completed (con s)"
    and "list_all old_typable cs" "plain_line cs"
    and "concat bs = concat (map old_keystrokes cs) @ [ENTER]" "length cs \<le> buf_len" "buf_len \<le> length buf"
  shows "\<exists>bs' s'. old_console_get_line io press bs buf buf_len s = Some (0, cs @ drop (length cs) buf, length cs, bs', s')
    \<and> concat bs' = [] \<and> echoes (cs @ [ch_lf]) (con s) (con s') \<and> line_of (con s') = ([], False) \<and> ibuf_ok (con s')
    \<and> \<not> cleared (con s') \<and> kbd s' = idle_keys \<and> proc s' = (proc s)\<lparr>eflags := intr_disable (eflags (proc s))\<rparr>"
proof -
  define t where "t = (if cleared (con s) then s\<lparr>con := (draw_cursor (con s))\<lparr>cleared := False\<rparr>\<rparr> else s)"
  have d: "on_screen (draw_cursor (con s))" "terminal_of (draw_cursor (con s)) = terminal_of (con s)"
    "con_attr (draw_cursor (con s)) = con_attr (con s)"
    using draw_cursor_shows(1) [OF assms(3)] by (auto simp: displays_def same_rest_def)
  have hid: "on_screen (c\<lparr>cleared := b\<rparr>) = on_screen c" "terminal_of (c\<lparr>cleared := b\<rparr>) = terminal_of c" for c b
    by (simp_all add: on_screen_def terminal_of_def fun_eq_iff)
  have t: "on_screen (con t)" "terminal_of (con t) = terminal_of (con s)" "con_attr (con t) = con_attr (con s)"
    "ibuf_ok (con t)" "widx (con t) = 0" "\<not> line_completed (con t)" "\<not> cleared (con t)" "kbd t = idle_keys" "proc t = proc s"
    using assms d by (simp_all add: t_def hid ibuf_ok_def)
  define c where "c = fold console_put_ibuf (cs @ [ch_lf]) (con t)"
  have plain: "set cs \<inter> {ch_lf, ch_tab, ch_cr, ch_del, ch_bs} = {}" "length cs \<le> IBUF_SIZE" "ch_lf \<notin> set cs"
    using assms(8) by (auto simp: plain_line_def)
  note line = old_typed_line [OF assms(7) plain(3) t(4,6,7), folded assms(9) c_def]
  have ed: "line_of c = (cs, True)" "ibuf_ok c"
    using fold_put_ibuf_edits [OF t(4), of "cs @ [ch_lf]", folded c_def] t(5,6) edit_plain [OF plain(1), of "[]" False] plain(2)
    by (simp_all add: line_of_def edit_def)
  then have l: "take (widx c) (ibuf c) = cs" "line_completed c" "widx c \<le> length (ibuf c)"
    by (simp_all add: line_of_def ibuf_ok_def)
  then have len: "widx c = length cs" by (metis length_take min.absorb2)
  obtain bs' s' where g: "old_get_line_from io press bs t = Some (0, bs', s')" "concat bs' = []" "con s' = c"
    "kbd s' = idle_keys" "proc s' = (proc s)\<lparr>eflags := intr_disable (eflags (proc s))\<rparr>"
    using old_get_line_from_completes [OF assms(1), of bs t] line l(2) unfolding t(8,9) by auto
  have n: "(if buf_len < widx c then buf_len else widx c) = length cs" using len assms(10) by simp
  have m: "memcpy buf (ibuf c) (length cs) = Some (cs @ drop (length cs) buf)"
    using memcpy_loop_eq [of 0 "length cs" "ibuf c" buf] assms(10,11) l(1,3) len by (simp add: memcpy_def)
  have start: "(if cleared (con s) then s\<lparr>con := (old_display_ibuf (con s))\<lparr>cleared := False\<rparr>\<rparr> else s) = t"
    using assms(5) by (simp add: t_def old_display_ibuf_def)
  have "old_console_get_line io press bs buf buf_len s = Some (0, cs @ drop (length cs) buf, length cs, bs', s'\<lparr>con := reset_ibuf c\<rparr>)"
    by (simp only: old_console_get_line_def start Let_def option.case prod.case g(1,3) n m) simp
  moreover have "echoes (cs @ [ch_lf]) (con s) (reset_ibuf c)"
    using echo_line [OF t(1,4) assms(8) t(5), folded c_def]
    by (simp add: echoes_def reset_ibuf_def t(2,3))
  moreover have "\<not> cleared c" using fold_put_ibuf_cleared [of "cs @ [ch_lf]" "con t"] plain(1) t(7) by (auto simp: c_def ch_defs)
  ultimately show ?thesis using g ed(2)
    by (intro exI [of _ bs'] exI [of _ "s'\<lparr>con := reset_ibuf c\<rparr>"]) (simp add: reset_ibuf_def line_of_def ibuf_ok_def)
qed

end
