(* ===== verification/Old_Kernel.thy ===== *)
theory Old_Kernel
  imports Old_Console Displays
begin

text \<open>
  The older kernel (\<open>kernel/kmain.c\<close>, \<open>kernel/shell.c\<close>) on its own console: what it installs at its start,
  and its shell, which echoes the lines that are typed; and the functions of \<open>kernel/lib\<close> and
  \<open>kernel/drivers/pic.c\<close> that differ from those of the loader. The functions that do not differ are the
  definitions of the loader. A step of the kernel is \<open>None\<close> when it faults or does not return.
\<close>

section \<open>The functions that differ\<close>

text \<open>The gate 33 is set here, and again when the keyboard is initialised.\<close>

definition old_idt_init :: "u32 \<Rightarrow> u32 \<Rightarrow> u32 \<Rightarrow> cpu \<Rightarrow> int \<times> cpu" where
  "old_idt_init base dummy_isr page_fault c =
     (let intr_flag = eflags_get_intr_flag (eflags c);
          c = c\<lparr>eflags := intr_disable (eflags c)\<rparr>;
          c = snd (idt_set_intr_gate 33 dummy_isr c);
          c = snd (idt_set_intr_gate 14 page_fault c);
          c = c\<lparr>idtr := (ucast (IDT_NUM_GATES_MAX * 8 - 1), base)\<rparr>
      in (0, c\<lparr>eflags := eflags_set_intr_flag intr_flag (eflags c)\<rparr>))"

definition old_pic_init :: "'d ports \<Rightarrow> 'd \<Rightarrow> 'd" where
  "old_pic_init io d = pic_remap io MASTER_OFFSET SLAVE_OFFSET (pic_disable io d)"

fun old_strncmp :: "char list \<Rightarrow> char list \<Rightarrow> nat \<Rightarrow> int option" where
  "old_strncmp s1 s2 0 = Some 0"
| "old_strncmp [] s2 (Suc n) = None"
| "old_strncmp (a # as) s2 (Suc n) =
     (if a = NUL then Some 0
      else case s2 of
        [] \<Rightarrow> None
      | b # bs \<Rightarrow>
          if b = NUL then Some 1
          else if schar a < schar b then Some (-1)
          else if schar b < schar a then Some 1
          else old_strncmp as bs n)"

definition KERNEL_COLS :: nat where "KERNEL_COLS = 80"
definition KERNEL_ROWS :: nat where "KERNEL_ROWS = 25"
definition KERNEL_ATTR :: u8 where "KERNEL_ATTR = 0x1f"

definition kernel_xy2idx :: "u32 \<Rightarrow> u32 \<Rightarrow> u32" where
  "kernel_xy2idx x y = y + of_nat KERNEL_COLS * x"

text \<open>The screen on which the endless loop of \<open>bsod\<close> stays.\<close>

definition bsod :: "vga \<Rightarrow> vga" where
  "bsod v =
     fold (\<lambda>i. fold (\<lambda>j v.
         (let idx = ucast (kernel_xy2idx (of_nat i) (of_nat j))
          in v\<lparr>vga_mem := (vga_mem v)(idx := push_bit 8 (ucast KERNEL_ATTR) OR (0x00ff AND vga_mem v idx))\<rparr>))
       [0..<KERNEL_COLS]) [0..<KERNEL_ROWS] v"

section \<open>The echo shell\<close>

definition ECHO_BUF_SIZE :: nat where "ECHO_BUF_SIZE = 512"

definition echo_puts :: "char list \<Rightarrow> 'd machine \<Rightarrow> 'd machine option" where
  "echo_puts str m = map_option (\<lambda>(_, c). m\<lparr>con := c\<rparr>) (old_console_puts (Some str) (con m))"

text \<open>A turn of the endless loop with the array \<open>str\<close> on the stack.\<close>

definition echo_turn :: "'d ports \<Rightarrow> (u8 \<Rightarrow> 'd \<Rightarrow> 'd) \<Rightarrow> char list \<Rightarrow> u8 list list \<Rightarrow> 'd machine
    \<Rightarrow> (char list \<times> u8 list list \<times> 'd machine) option" where
  "echo_turn io press str bs m =
     (case echo_puts (''bsh-> '' @ [NUL]) m of
        None \<Rightarrow> None
      | Some m \<Rightarrow>
          (case old_console_get_line io press bs str (ECHO_BUF_SIZE - 1) m of
             None \<Rightarrow> None
           | Some (rc, str, len, bs, m) \<Rightarrow>
               if rc \<noteq> 0 then Some (str, bs, m)
               else (let str = str[len := NUL]
                     in case echo_puts str m of
                          None \<Rightarrow> None
                        | Some m \<Rightarrow>
                            (case strlen (Some str) of
                               None \<Rightarrow> None
                             | Some n \<Rightarrow>
                                 map_option (\<lambda>m. (str, bs, m)) (if n \<noteq> 0 then echo_puts [LF, NUL] m else Some m)))))"

fun echo_turns :: "nat \<Rightarrow> 'd ports \<Rightarrow> (u8 \<Rightarrow> 'd \<Rightarrow> 'd) \<Rightarrow> char list \<Rightarrow> u8 list list \<Rightarrow> 'd machine
    \<Rightarrow> (char list \<times> u8 list list \<times> 'd machine) option" where
  "echo_turns 0 io press str bs m = Some (str, bs, m)"
| "echo_turns (Suc n) io press str bs m =
     Option.bind (echo_turn io press str bs m) (\<lambda>(str, bs, m). echo_turns n io press str bs m)"

definition echo_shell_do :: "nat \<Rightarrow> 'd ports \<Rightarrow> (u8 \<Rightarrow> 'd \<Rightarrow> 'd) \<Rightarrow> char list \<Rightarrow> u8 list list \<Rightarrow> 'd machine
    \<Rightarrow> (char list \<times> u8 list list \<times> 'd machine) option" where
  "echo_shell_do n io press str bs m =
     Option.bind (echo_puts (''welcome to the boot shell'' @ [LF, NUL]) m) (echo_turns n io press str bs)"

section \<open>kmain\<close>

text \<open>The ports and key presses, and the addresses of the table and of the handlers.\<close>

record 'd kernel_platform =
  kp_io :: "'d ports"
  kp_press :: "u8 \<Rightarrow> 'd \<Rightarrow> 'd"
  kp_idt_base :: u32
  kp_dummy_isr :: u32
  kp_page_fault :: u32
  kp_keyboard_isr :: u32

definition kernel_print :: "char list \<Rightarrow> 'd machine \<Rightarrow> 'd machine option" where
  "kernel_print fmt m = (case kprintf fmt [] of None \<Rightarrow> None | Some t \<Rightarrow> echo_puts (t @ [NUL]) m)"

text \<open>Up to the shell (\<open>True\<close>) or to the label \<open>error\<close> (\<open>False\<close>).\<close>

definition kernel_start :: "'d kernel_platform \<Rightarrow> 'd machine \<Rightarrow> (bool \<times> 'd machine) option" where
  "kernel_start pf m =
     (let m = cpu_intr intr_disable m;
          m = m\<lparr>proc := snd (old_idt_init (kp_idt_base pf) (kp_dummy_isr pf) (kp_page_fault pf) (proc m))\<rparr>;
          m = m\<lparr>dev := old_pic_init (kp_io pf) (dev m)\<rparr>;
          m = m\<lparr>con := console_init (con m)\<rparr>;
          (rc, m) = old_keyboard_init (kp_io pf) (kp_keyboard_isr pf) m
      in if rc \<noteq> 0 then Some (False, m)
         else map_option (\<lambda>m. (True, cpu_intr intr_enable m)) (kernel_print (''kernel86'' @ [LF, NUL]) m))"

text \<open>\<open>n\<close> turns of the shell; \<open>False\<close> is the endless loop behind the error message.\<close>

definition kmain :: "nat \<Rightarrow> 'd kernel_platform \<Rightarrow> char list \<Rightarrow> u8 list list \<Rightarrow> 'd machine
    \<Rightarrow> (bool \<times> char list \<times> u8 list list \<times> 'd machine) option" where
  "kmain n pf str bs m =
     (case kernel_start pf m of
        None \<Rightarrow> None
      | Some (True, m) \<Rightarrow> map_option (Pair True) (echo_shell_do n (kp_io pf) (kp_press pf) str bs m)
      | Some (False, m) \<Rightarrow> map_option (\<lambda>m. (False, str, bs, m)) (kernel_print (''error'' @ [NUL]) m))"

section \<open>Comparing strings\<close>

text \<open>The older \<open>strncmp\<close> takes the end of the first string for the end of both.\<close>

lemma old_strncmp_accepts_prefixes:
  assumes "c_string s1 a" "c_string s2 b"
  shows "old_strncmp s1 s2 n = Some 0 \<longleftrightarrow> (\<exists>c. b = take n a @ c)"
  using assms
proof (induction s1 s2 n arbitrary: a b rule: old_strncmp.induct)
  case (3 x as s2 n)
  show ?case
  proof (cases a)
    case (Cons c a')
    then have c: "x = c" "c \<noteq> NUL" "c_string as a'" using 3(2) by auto
    obtain y bs where s2: "s2 = y # bs" using 3(3) by (cases s2) auto
    show ?thesis
    proof (cases b)
      case b: (Cons d b')
      then have d: "y = d" "d \<noteq> NUL" "c_string bs b'" using 3(3) s2 by auto
      have "schar c < schar d \<or> schar d < schar c \<longleftrightarrow> c \<noteq> d"
        using schar_not_less_iff [of c d] schar_eq_iff [of c d] by linarith
      then show ?thesis using 3(1) [of y bs a' b'] c d s2 Cons b by auto
    next
      case Nil
      then show ?thesis using 3(3) c s2 Cons by auto
    qed
  qed (use 3 in \<open>auto simp: c_string_def\<close>)
qed (auto simp: c_string_def)

section \<open>The blue screen\<close>

lemma grid_fold:
  assumes "\<And>i j (v :: vga). f i j v = v\<lparr>vga_mem := (vga_mem v)(of_nat (80 * i + j) := g (vga_mem v (of_nat (80 * i + j))))\<rparr>"
    and "n \<le> 80" "m < 25"
  shows "fold (f m) [0..<n] v = v\<lparr>vga_mem := \<lambda>k. if 80 * m \<le> unat k \<and> unat k < 80 * m + n then g (vga_mem v k) else vga_mem v k\<rparr>"
  using assms(2)
proof (induction n)
  case 0
  then show ?case by (intro vga_eqI) (auto simp: fun_eq_iff)
next
  case (Suc n)
  define c :: u16 where "c = of_nat (80 * m + n)"
  have cell: "k = c \<longleftrightarrow> unat k = 80 * m + n" for k
    unfolding c_def using Suc.prems assms(3) by (intro u16_eq_nat) simp
  have step: "fold (f m) [0..<Suc n] v = f m n (fold (f m) [0..<n] v)" by simp
  let ?w = "v\<lparr>vga_mem := \<lambda>k. if 80 * m \<le> unat k \<and> unat k < 80 * m + n then g (vga_mem v k) else vga_mem v k\<rparr>"
  have w: "fold (f m) [0..<n] v = ?w" using Suc by simp
  have "f m n ?w = v\<lparr>vga_mem := (vga_mem ?w)(c := g (vga_mem v c))\<rparr>"
    using assms(1) [of m n ?w, folded c_def] cell [of c] by (simp add: fun_upd_def)
  moreover have "(vga_mem ?w)(c := g (vga_mem v c)) = (\<lambda>k. if 80 * m \<le> unat k \<and> unat k < 80 * m + Suc n
      then g (vga_mem v k) else vga_mem v k)"
  proof (rule ext)
    fix k show "((vga_mem ?w)(c := g (vga_mem v c))) k = (if 80 * m \<le> unat k \<and> unat k < 80 * m + Suc n
      then g (vga_mem v k) else vga_mem v k)" using cell [of k] by (cases "k = c") auto
  qed
  ultimately show ?case by (simp only: step w)
qed

lemma grid_rows:
  assumes "\<And>m (v :: vga). m < 25 \<Longrightarrow> F m v =
      v\<lparr>vga_mem := \<lambda>k. if 80 * m \<le> unat k \<and> unat k < 80 * m + 80 then g (vga_mem v k) else vga_mem v k\<rparr>"
    and "n \<le> 25"
  shows "fold F [0..<n] v = v\<lparr>vga_mem := \<lambda>k. if unat k < 80 * n then g (vga_mem v k) else vga_mem v k\<rparr>"
  using assms(2)
proof (induction n)
  case (Suc n)
  then have "fold F [0..<Suc n] v = F n (v\<lparr>vga_mem := \<lambda>k. if unat k < 80 * n then g (vga_mem v k) else vga_mem v k\<rparr>)"
    by simp
  then show ?case using Suc.prems assms(1) by (intro vga_eqI) (auto simp: fun_eq_iff)
qed (intro vga_eqI, auto simp: fun_eq_iff)

text \<open>Every visible cell keeps its character and becomes white on blue.\<close>

lemma bsod_cells:
  "bsod v = v\<lparr>vga_mem := \<lambda>k. if unat k < 2000 then 0x1f00 OR (0xff AND vga_mem v k) else vga_mem v k\<rparr>"
proof -
  let ?g = "\<lambda>x :: u16. 0x1f00 OR (0xff AND x)"
  let ?f = "\<lambda>i j (v :: vga). v\<lparr>vga_mem := (vga_mem v)(of_nat (80 * i + j) := ?g (vga_mem v (of_nat (80 * i + j))))\<rparr>"
  have idx: "ucast (kernel_xy2idx (of_nat i) (of_nat j)) = (of_nat (80 * i + j) :: u16)" if "i < 25" "j < 80" for i j
  proof -
    have "kernel_xy2idx (of_nat i) (of_nat j) = of_nat (80 * i + j)"
      by (simp add: kernel_xy2idx_def KERNEL_COLS_def)
    then show ?thesis using that by (simp only: unsigned_of_nat) (simp add: take_bit_nat_eq_self)
  qed
  have attr: "push_bit 8 (ucast KERNEL_ATTR) = (0x1f00 :: u16)" by (simp add: KERNEL_ATTR_def)
  have row: "fold (?f i) [0..<80] v = fold (\<lambda>j v.
      let idx = ucast (kernel_xy2idx (of_nat i) (of_nat j)) :: u16
      in v\<lparr>vga_mem := (vga_mem v)(idx := push_bit 8 (ucast KERNEL_ATTR) OR (0x00ff AND vga_mem v idx))\<rparr>) [0..<80] v"
    if "i < 25" for i v
    by (rule fold_cong) (use that idx [OF that] in \<open>auto simp: attr Let_def\<close>)
  have "bsod v = fold (\<lambda>i. fold (?f i) [0..<80]) [0..<25] v"
    unfolding bsod_def KERNEL_ROWS_def KERNEL_COLS_def
    by (rule fold_cong) (use row [unfolded KERNEL_COLS_def] in \<open>auto simp: fun_eq_iff\<close>)
  also have "\<dots> = v\<lparr>vga_mem := \<lambda>k. if unat k < 80 * 25 then ?g (vga_mem v k) else vga_mem v k\<rparr>"
    by (rule grid_rows) (use grid_fold [of ?f ?g 80] in simp_all)
  finally show ?thesis by simp
qed

section \<open>The start\<close>

lemma echo_puts_shows:
  assumes "c_string buf cs" "on_screen (con m)" "ch_tab \<notin> set cs" "ch_bs \<notin> set cs" "ch_cr \<notin> set cs"
  shows "\<exists>c. echo_puts buf m = Some (m\<lparr>con := c\<rparr>) \<and>
    displays (con m) (fold (term_char (con_attr (con m))) cs (terminal_of (con m))) c \<and>
    (ch_del \<notin> set cs \<longrightarrow> cleared c = cleared (con m))"
proof -
  obtain c where c: "console_puts (Some buf) (con m) = Some (int (length cs), c)"
    "displays (con m) (fold (term_char (con_attr (con m))) cs (terminal_of (con m))) c"
    using console_puts_displays [OF assms(1,2,4,5)] by blast
  then show ?thesis using old_puts_eq [OF assms(1,3)] cleared_puts [OF assms(1) _ c(1)]
    by (intro exI [of _ c]) (simp add: echo_puts_def)
qed

lemma console_init_state:
  "on_screen (console_init c)" "terminal_of (console_init c) = (\<lambda>k. if k < SCREEN then blank_cell else 0, 0)"
  "con_attr (console_init c) = ATTR_GREEN_ON_BLACK" "line_of (console_init c) = ([], False)"
  "ibuf_ok (console_init c) \<longleftrightarrow> length (ibuf c) = IBUF_SIZE" "widx (console_init c) = 0" "\<not> line_completed (console_init c)"
  using clear_terminal [of "c\<lparr>con_attr := ATTR_GREEN_ON_BLACK, curs_x := 0, curs_y := 0, line_completed := False, widx := 0\<rparr>"]
  by (auto simp: console_init_def displays_def same_rest_def line_of_def ibuf_ok_def)

lemma old_pic_init_view:
  assumes "pic_contract io view" "expects (master (view d)) = 0" "expects (slave (view d)) = 0"
  shows "view (old_pic_init io d) =
    \<lparr>master = (master (view d))\<lparr>imr := 0xff, expects := 0, vec := 32, cascade := 4, mode := 1\<rparr>,
     slave = (slave (view d))\<lparr>imr := 0xff, expects := 0, vec := 40, cascade := 2, mode := 1\<rparr>\<rparr>"
  using assms(2,3) unfolding old_pic_init_def
  by (subst pic_remap_view [OF assms(1)])
    (simp_all add: pic_disable_view [OF assms(1)] chip_data_def MASTER_OFFSET_def SLAVE_OFFSET_def)

definition kernel_gates :: "'d kernel_platform \<Rightarrow> idt_gate list \<Rightarrow> idt_gate list" where
  "kernel_gates pf t = t[14 := make_intr_gate (kp_page_fault pf), 33 := make_intr_gate (kp_keyboard_isr pf)]"

lemma old_idt_init_eq:
  "old_idt_init base dummy pf c = (0, c\<lparr>idt := (idt c)[33 := make_intr_gate dummy, 14 := make_intr_gate pf],
     idtr := (2047, base)\<rparr>)"
  by (simp add: old_idt_init_def Let_def idt_set_intr_gate_eq IDT_NUM_GATES_MAX_def restore_intr_flag)

lemma old_keyboard_init_eq:
  "old_keyboard_init io isr s = (0, s\<lparr>kbd := idle_keys, proc := (proc s)\<lparr>idt := (idt (proc s))[33 := make_intr_gate isr]\<rparr>,
     dev := pic_enable_irq io 1 (dev s)\<rparr>)"
  by (simp add: old_keyboard_init_def Let_def intr_register_irq_def IRQ_OFFSET_def KEYBOARD_IRQ_NUM_def
      idt_set_intr_gate_eq IDT_NUM_GATES_MAX_def restore_intr_flag idle_keys_def)

lemma kernel_prints:
  "kernel_print (''kernel86'' @ [LF, NUL]) m = echo_puts (''kernel86'' @ [LF, NUL]) m"
  by (simp add: kernel_print_def run_format)

lemma intr_enable_disable: "intr_enable (intr_disable e) = intr_enable e"
  by (rule bit_word_eqI) (auto simp: intr_disable_def intr_enable_def bit_set_bit_iff bit_unset_bit_iff)

lemma kernel_started:
  assumes "length (ibuf (con m)) = IBUF_SIZE"
  shows "\<exists>c. kernel_start pf m = Some (True, m\<lparr>con := c, kbd := idle_keys,
      proc := (proc m)\<lparr>eflags := intr_enable (eflags (proc m)), idtr := (2047, kp_idt_base pf), idt := kernel_gates pf (idt (proc m))\<rparr>,
      dev := pic_enable_irq (kp_io pf) 1 (old_pic_init (kp_io pf) (dev m))\<rparr>)
    \<and> displays (console_init (con m)) (fold (term_char ATTR_GREEN_ON_BLACK) (''kernel86'' @ [LF])
        (\<lambda>k. if k < SCREEN then blank_cell else 0, 0)) c"
proof -
  let ?m = "m\<lparr>con := console_init (con m), kbd := idle_keys,
      proc := (proc m)\<lparr>eflags := intr_disable (eflags (proc m)), idtr := (2047, kp_idt_base pf), idt := kernel_gates pf (idt (proc m))\<rparr>,
      dev := pic_enable_irq (kp_io pf) 1 (old_pic_init (kp_io pf) (dev m))\<rparr>"
  have "c_string (''kernel86'' @ [LF, NUL]) (''kernel86'' @ [LF])" "on_screen (con ?m)"
    "ch_tab \<notin> set (''kernel86'' @ [LF])" "ch_bs \<notin> set (''kernel86'' @ [LF])" "ch_cr \<notin> set (''kernel86'' @ [LF])"
    by (simp_all add: console_init_state LF_def ch_defs)
  from echo_puts_shows [OF this] obtain c where c: "echo_puts (''kernel86'' @ [LF, NUL]) ?m = Some (?m\<lparr>con := c\<rparr>)"
    "displays (console_init (con m)) (fold (term_char ATTR_GREEN_ON_BLACK) (''kernel86'' @ [LF])
      (\<lambda>k. if k < SCREEN then blank_cell else 0, 0)) c"
    unfolding machine.select_convs machine.surjective by (auto simp: console_init_state)
  have "kernel_start pf m = map_option (\<lambda>m. (True, cpu_intr intr_enable m)) (echo_puts (''kernel86'' @ [LF, NUL]) ?m)"
    by (simp add: kernel_start_def Let_def old_idt_init_eq old_keyboard_init_eq kernel_prints [simplified] kernel_gates_def cpu_intr_def
        list_update_swap [of 33 14])
  moreover have "cpu_intr intr_enable (?m\<lparr>con := c\<rparr>) = m\<lparr>con := c, kbd := idle_keys,
      proc := (proc m)\<lparr>eflags := intr_enable (eflags (proc m)), idtr := (2047, kp_idt_base pf), idt := kernel_gates pf (idt (proc m))\<rparr>,
      dev := pic_enable_irq (kp_io pf) 1 (old_pic_init (kp_io pf) (dev m))\<rparr>"
    by (cases "proc m") (simp add: cpu_intr_def intr_enable_disable)
  ultimately show ?thesis using c by (intro exI [of _ c]) simp
qed

section \<open>Turns of the shell\<close>

text \<open>Between two lines: no key is held and no line is in the making.\<close>

definition kernel_idle :: "'d machine \<Rightarrow> bool" where
  "kernel_idle m \<longleftrightarrow> on_screen (con m) \<and> ibuf_ok (con m) \<and> widx (con m) = 0 \<and> \<not> line_completed (con m) \<and>
     con_attr (con m) = ATTR_GREEN_ON_BLACK \<and> kbd m = idle_keys"

abbreviation print_green :: "char list \<Rightarrow> terminal \<Rightarrow> terminal" where
  "print_green cs t \<equiv> fold (term_char ATTR_GREEN_ON_BLACK) cs t"

text \<open>The prompt, the line as it is typed, and the line again unless it is empty.\<close>

definition transcript :: "char list \<Rightarrow> char list" where
  "transcript cs = ''bsh-> '' @ cs @ [LF] @ (if cs = [] then [] else cs @ [LF])"

lemma old_get_line_more:
  "old_get_line_from io press bs m = Some (rc, bs', m') \<Longrightarrow>
   old_get_line_from io press (bs @ rest) m = Some (rc, bs' @ rest, m')"
proof (induction bs arbitrary: m)
  case Nil
  then show ?case by (auto simp: old_get_line_from.simps [of io press _ m] Let_def split: if_splits)
next
  case (Cons b bs)
  then show ?case by (auto simp: old_get_line_from.simps [of io press _ m] Let_def split: if_splits)
qed

lemma old_console_get_line_more:
  assumes "old_console_get_line io press bs buf n m = Some (rc, buf', len, bs', m')"
  shows "old_console_get_line io press (bs @ rest) buf n m = Some (rc, buf', len, bs' @ rest, m')"
proof -
  let ?t = "if cleared (con m) then m\<lparr>con := (old_display_ibuf (con m))\<lparr>cleared := False\<rparr>\<rparr> else m"
  obtain r b s where g: "old_get_line_from io press bs ?t = Some (r, b, s)"
    using assms by (cases "old_get_line_from io press bs ?t") (auto simp only: old_console_get_line_def Let_def option.case)
  define k where "k = (if n < widx (con s) then n else widx (con s))"
  have eq: "old_console_get_line io press bs buf n m = (if r \<noteq> 0 then Some (1, buf, n, b, s)
      else case memcpy buf (ibuf (con s)) k of None \<Rightarrow> None | Some buf' \<Rightarrow> Some (0, buf', k, b, s\<lparr>con := reset_ibuf (con s)\<rparr>))"
    if "old_get_line_from io press bs ?t = Some (r, b, s)" for bs b
    unfolding old_console_get_line_def Let_def k_def that by simp
  show ?thesis
    using assms unfolding eq [OF g] eq [OF old_get_line_more [OF g]]
    by (cases "r = 0"; cases "memcpy buf (ibuf (con s)) k") simp_all
qed

lemma idle_puts:
  assumes "kernel_idle m" "c_string buf cs" "ch_tab \<notin> set cs" "ch_bs \<notin> set cs" "ch_cr \<notin> set cs"
  shows "\<exists>m'. echo_puts buf m = Some m' \<and> kernel_idle m' \<and> terminal_of (con m') = print_green cs (terminal_of (con m))"
proof -
  have "on_screen (con m)" using assms(1) by (simp add: kernel_idle_def)
  from echo_puts_shows [OF assms(2) this assms(3-5)] obtain c where c: "echo_puts buf m = Some (m\<lparr>con := c\<rparr>)"
    "displays (con m) (fold (term_char (con_attr (con m))) cs (terminal_of (con m))) c" by blast
  then show ?thesis using assms(1)
    by (intro exI [of _ "m\<lparr>con := c\<rparr>"]) (simp add: kernel_idle_def displays_def same_rest_def ibuf_ok_def)
qed

lemma echo_turn_line:
  assumes "keyboard_contract io view press" "kernel_idle m" "length str = ECHO_BUF_SIZE"
    and "list_all old_typable cs" "plain_line cs" "concat bs = concat (map old_keystrokes cs) @ [ENTER]"
  shows "\<exists>str' bs' m'. echo_turn io press str (bs @ rest) m = Some (str', bs' @ rest, m') \<and> concat bs' = [] \<and>
    length str' = ECHO_BUF_SIZE \<and> kernel_idle m' \<and> terminal_of (con m') = print_green (transcript cs) (terminal_of (con m))"
proof -
  have "c_string (''bsh-> '' @ [NUL]) ''bsh-> ''" "ch_tab \<notin> set ''bsh-> ''" "ch_bs \<notin> set ''bsh-> ''" "ch_cr \<notin> set ''bsh-> ''"
    by (simp_all add: ch_defs)
  from idle_puts [OF assms(2) this] obtain m1 where m1: "echo_puts (''bsh-> '' @ [NUL]) m = Some m1" "kernel_idle m1"
    "terminal_of (con m1) = print_green ''bsh-> '' (terminal_of (con m))" by blast
  have b: "length cs \<le> ECHO_BUF_SIZE - 1" "ECHO_BUF_SIZE - 1 \<le> length str"
    using assms(3,5) by (simp_all add: plain_line_def IBUF_SIZE_def ECHO_BUF_SIZE_def)
  obtain bs' m2 where m2:
    "old_console_get_line io press bs str (ECHO_BUF_SIZE - 1) m1 = Some (0, cs @ drop (length cs) str, length cs, bs', m2)"
    "concat bs' = []" "echoes (cs @ [ch_lf]) (con m1) (con m2)" "line_of (con m2) = ([], False)" "ibuf_ok (con m2)" "kbd m2 = idle_keys"
    using old_get_typed_line [OF assms(1) _ _ _ _ _ assms(4,5,6) b, of m1] m1(2) by (auto simp: kernel_idle_def)
  have idle2: "kernel_idle m2"
    using m2(3-6) m1(2) by (auto simp: kernel_idle_def echoes_def line_of_def ibuf_ok_def IBUF_SIZE_def)
  have t2: "terminal_of (con m2) = print_green (cs @ [LF]) (terminal_of (con m1))"
    using m2(3) m1(2) by (simp add: echoes_def kernel_idle_def LF_def ch_lf_def)
  let ?str = "(cs @ drop (length cs) str)[length cs := NUL]"
  have nul: "NUL \<notin> set cs" using assms(4) old_typable_char by (auto simp: list_all_iff)
  have "length cs < length str" using b by (simp add: assms(3) ECHO_BUF_SIZE_def)
  then have str: "?str = cs @ NUL # drop (Suc (length cs)) str"
    by (simp add: list_update_append Cons_nth_drop_Suc [symmetric])
  then have cstr: "c_string ?str cs" using nul by (simp add: c_string_def)
  have plain: "ch_tab \<notin> set cs" "ch_bs \<notin> set cs" "ch_cr \<notin> set cs" using assms(5) by (auto simp: plain_line_def)
  from idle_puts [OF idle2 cstr plain] obtain m3 where m3: "echo_puts ?str m2 = Some m3" "kernel_idle m3"
    "terminal_of (con m3) = print_green cs (terminal_of (con m2))" by blast
  have "c_string [LF, NUL] [LF]" "ch_tab \<notin> set [LF]" "ch_bs \<notin> set [LF]" "ch_cr \<notin> set [LF]"
    by (simp_all add: LF_def ch_defs)
  from idle_puts [OF m3(2) this] obtain m4 where m4: "echo_puts [LF, NUL] m3 = Some m4" "kernel_idle m4"
    "terminal_of (con m4) = print_green [LF] (terminal_of (con m3))" by blast
  let ?m = "if cs = [] then m3 else m4"
  have "echo_turn io press str (bs @ rest) m = Some (?str, bs' @ rest, ?m)"
    using m1(1) old_console_get_line_more [OF m2(1), of rest] m3(1) m4(1) strlen_c_string [OF cstr]
    by (simp add: echo_turn_def)
  moreover have "terminal_of (con ?m) = print_green (transcript cs) (terminal_of (con m))"
    using m1(3) t2 m3(3) m4(3) by (simp add: transcript_def)
  moreover have "length ?str = ECHO_BUF_SIZE" using str \<open>length cs < length str\<close> assms(3) by simp
  ultimately show ?thesis using m2(2) m3(2) m4(2) by (intro exI [of _ ?str] exI [of _ bs'] exI [of _ ?m]) simp
qed

lemma echo_turns_lines:
  assumes "keyboard_contract io view press" "kernel_idle m" "length str = ECHO_BUF_SIZE"
    and "\<forall>(cs, bs) \<in> set ls. list_all old_typable cs \<and> plain_line cs \<and> concat bs = concat (map old_keystrokes cs) @ [ENTER]"
    and "concat pre = []"
  shows "\<exists>str' bs' m'. echo_turns (length ls) io press str (pre @ concat (map snd ls)) m = Some (str', bs', m') \<and>
    concat bs' = [] \<and> kernel_idle m' \<and>
    terminal_of (con m') = print_green (concat (map (transcript \<circ> fst) ls)) (terminal_of (con m))"
  using assms(2-)
proof (induction ls arbitrary: str pre m)
  case (Cons l ls)
  obtain cs bs where l: "l = (cs, bs)" by (cases l)
  then have c: "list_all old_typable cs" "plain_line cs" "concat (pre @ bs) = concat (map old_keystrokes cs) @ [ENTER]"
    using Cons.prems(3,4) by auto
  from echo_turn_line [OF assms(1) Cons.prems(1,2) c, of "concat (map snd ls)"]
  obtain str1 pre1 m1 where t: "echo_turn io press str (pre @ concat (map snd (l # ls))) m = Some (str1, pre1 @ concat (map snd ls), m1)"
    "concat pre1 = []" "length str1 = ECHO_BUF_SIZE" "kernel_idle m1"
    "terminal_of (con m1) = print_green (transcript cs) (terminal_of (con m))"
    by (auto simp: l)
  from Cons.IH [OF t(4,3) _ t(2)] Cons.prems(3) t(1,5) show ?case by (auto simp: l)
qed simp

section \<open>Properties\<close>

text \<open>C34. The start of the older kernel. With controllers that keep their contract, \<open>kmain\<close> reaches its shell with
  interrupts enabled and its name on the blank screen. Exactly two gates of the table change: the page fault
  and the keyboard; the dummy handler that \<open>idt_init\<close> sets for the keyboard is replaced. Every line of the
  controllers is masked but that of the keyboard, and the interrupts that were in service before still are,
  since no end of interrupt is sent.\<close>

theorem kernel_start_correct:
  assumes "pic_contract (kp_io pf) view" "expects (master (view (dev m))) = 0" "expects (slave (view (dev m))) = 0"
    and "length (idt (proc m)) = 256" "length (ibuf (con m)) = IBUF_SIZE"
  shows "\<exists>m'. kernel_start pf m = Some (True, m') \<and> eflags_get_intr_flag (eflags (proc m')) \<and>
    idtr (proc m') = (256 * 8 - 1, kp_idt_base pf) \<and>
    intr_gate_to (kp_page_fault pf) (idt (proc m') ! 14) \<and> intr_gate_to (kp_keyboard_isr pf) (idt (proc m') ! 33) \<and>
    (\<forall>i < 256. i \<notin> {14, 33} \<longrightarrow> idt (proc m') ! i = idt (proc m) ! i) \<and>
    (\<forall>n < 16. line_masked (view (dev m')) n \<longleftrightarrow> n \<noteq> 1) \<and>
    vec (master (view (dev m'))) = 32 \<and> vec (slave (view (dev m'))) = 40 \<and>
    in_service (master (view (dev m'))) = in_service (master (view (dev m))) \<and>
    terminal_of (con m') = print_green (''kernel86'' @ [LF]) (\<lambda>k. if k < SCREEN then blank_cell else 0, 0)"
proof -
  obtain c where c: "kernel_start pf m = Some (True, m\<lparr>con := c, kbd := idle_keys,
      proc := (proc m)\<lparr>eflags := intr_enable (eflags (proc m)), idtr := (2047, kp_idt_base pf), idt := kernel_gates pf (idt (proc m))\<rparr>,
      dev := pic_enable_irq (kp_io pf) 1 (old_pic_init (kp_io pf) (dev m))\<rparr>)"
    "displays (console_init (con m)) (print_green (''kernel86'' @ [LF]) (\<lambda>k. if k < SCREEN then blank_cell else 0, 0)) c"
    using kernel_started [OF assms(5), of pf] by blast
  note v = old_pic_init_view [OF assms(1-3)]
  have "view (pic_enable_irq (kp_io pf) 1 (old_pic_init (kp_io pf) (dev m))) = mask_line 1 False (view (old_pic_init (kp_io pf) (dev m)))"
    using pic_irq_view(1) [OF assms(1), of "old_pic_init (kp_io pf) (dev m)" 1] by (simp add: v)
  moreover have "line_masked (mask_line 1 False (view (old_pic_init (kp_io pf) (dev m)))) n \<longleftrightarrow> n \<noteq> 1" if "n < 16" for n
  proof -
    have m: "(0xff :: u8) = mask 8" by (simp add: mask_eq_exp_minus_1)
    have "bit (0xff :: u8) k" if "k < 8" for k unfolding m using that by (simp add: bit_mask_iff)
    then show ?thesis using that by (auto simp: line_masked_def mask_line_def Let_def v bit_simps)
  qed
  moreover have "eflags_get_intr_flag (intr_enable e)" for e
    by (simp add: eflags_get_intr_flag_def intr_enable_def EFLAGS_IF_def bit_set_bit_iff)
  ultimately show ?thesis using c make_intr_gate_hw assms(4)
    by (simp add: kernel_gates_def mask_line_def Let_def v displays_def)
qed

definition model_kernel :: "(pics \<times> u8) kernel_platform" where
  "model_kernel = \<lparr>kp_io = model_pc, kp_press = model_press, kp_idt_base = 0x8000, kp_dummy_isr = 0x9000,
     kp_page_fault = 0xa000, kp_keyboard_isr = 0xb000\<rparr>"

lemma quiet_start:
  "expects (master (fst (dev quiet_machine))) = 0" "expects (slave (fst (dev quiet_machine))) = 0"
  "length (idt (proc quiet_machine)) = 256" "length (ibuf (con quiet_machine)) = IBUF_SIZE"
  by (simp_all add: quiet_machine_def bios_chip_def reset_cpu_def blank_console_def)

theorem kernel_start_correct_witness:
  "\<exists>m. kernel_start model_kernel quiet_machine = Some (True, m) \<and> intr_gate_to 0xb000 (idt (proc m) ! 33) \<and>
    \<not> line_masked (fst (dev m)) 1 \<and> line_masked (fst (dev m)) 0 \<and> in_service (master (fst (dev m))) = 5"
proof -
  have "pic_contract (kp_io model_kernel) fst"
    using model_pc_contract by (simp add: model_kernel_def keyboard_contract_def)
  from kernel_start_correct [OF this quiet_start]
  obtain m where m: "kernel_start model_kernel quiet_machine = Some (True, m)"
    "intr_gate_to (kp_keyboard_isr model_kernel) (idt (proc m) ! 33)"
    "\<forall>n < 16. line_masked (fst (dev m)) n \<longleftrightarrow> n \<noteq> 1"
    "in_service (master (fst (dev m))) = in_service (master (fst (dev quiet_machine)))" by blast
  then show ?thesis
    by (intro exI [of _ m]) (simp add: model_kernel_def quiet_machine_def bios_chip_def)
qed

text \<open>C33. The echo shell. From any contents of the screen \<open>kmain\<close> starts the shell, and when the key presses of any
  number of lines of at most 128 characters arrive in any portions while it waits, each line ended by enter,
  every turn of the shell ends: the terminal shows the name of the kernel, the greeting, and for every line
  the prompt, the characters as they were typed, and, unless the line is empty, the line again.\<close>

theorem kernel_echoes_lines:
  assumes "keyboard_contract (kp_io pf) view (kp_press pf)" "length (ibuf (con m)) = IBUF_SIZE" "length str = ECHO_BUF_SIZE"
    and "\<forall>(cs, bs) \<in> set ls. list_all old_typable cs \<and> plain_line cs \<and> concat bs = concat (map old_keystrokes cs) @ [ENTER]"
  shows "\<exists>str' bs' m'. kmain (length ls) pf str (concat (map snd ls)) m = Some (True, str', bs', m') \<and> concat bs' = [] \<and>
    terminal_of (con m') = print_green (''kernel86'' @ [LF] @ ''welcome to the boot shell'' @ [LF] @ concat (map (transcript \<circ> fst) ls))
      (\<lambda>k. if k < SCREEN then blank_cell else 0, 0)"
proof -
  obtain m1 where m1: "kernel_start pf m = Some (True, m1)" "kernel_idle m1"
    "terminal_of (con m1) = print_green (''kernel86'' @ [LF]) (\<lambda>k. if k < SCREEN then blank_cell else 0, 0)"
    using kernel_started [OF assms(2), of pf] console_init_state [of "con m"] assms(2)
    by (auto simp: kernel_idle_def displays_def same_rest_def ibuf_ok_def)
  have "c_string (''welcome to the boot shell'' @ [LF, NUL]) (''welcome to the boot shell'' @ [LF])"
    "ch_tab \<notin> set (''welcome to the boot shell'' @ [LF])" "ch_bs \<notin> set (''welcome to the boot shell'' @ [LF])"
    "ch_cr \<notin> set (''welcome to the boot shell'' @ [LF])"
    by (simp_all add: LF_def ch_defs)
  from idle_puts [OF m1(2) this] obtain m2 where m2: "echo_puts (''welcome to the boot shell'' @ [LF, NUL]) m1 = Some m2"
    "kernel_idle m2" "terminal_of (con m2) = print_green (''welcome to the boot shell'' @ [LF]) (terminal_of (con m1))" by blast
  from echo_turns_lines [OF assms(1) m2(2) assms(3,4), of "[]"]
  obtain str' bs' m' where "echo_turns (length ls) (kp_io pf) (kp_press pf) str (concat (map snd ls)) m2 = Some (str', bs', m')"
    "concat bs' = []" "terminal_of (con m') = print_green (concat (map (transcript \<circ> fst) ls)) (terminal_of (con m2))" by auto
  then show ?thesis using m1(1,3) m2(1,3)
    by (intro exI [of _ str'] exI [of _ bs'] exI [of _ m']) (simp add: kmain_def echo_shell_do_def)
qed

text \<open>The line of one x in two portions, and an empty line.\<close>

theorem kernel_echoes_lines_witness:
  "\<exists>str bs m. kmain 2 model_kernel (replicate 512 (CHR ''?'')) [[0x2d], [0xad, ENTER], [ENTER]] quiet_machine = Some (True, str, bs, m) \<and>
    terminal_of (con m) = print_green (''kernel86'' @ [LF] @ ''welcome to the boot shell'' @ [LF] @
      ''bsh-> x'' @ [LF] @ ''x'' @ [LF] @ ''bsh-> '' @ [LF]) (\<lambda>k. if k < SCREEN then blank_cell else 0, 0)"
proof -
  let ?ls = "[(''x'', [[0x2d], [0xad, ENTER]]), ([], [[ENTER]])] :: (char list \<times> u8 list list) list"
  have x: "old_keystrokes (CHR ''x'') = [0x2d, 0xad]"
    by code_simp
  then have "old_typable (CHR ''x'')" by (simp add: old_typable_def)
  moreover have "plain_line ''x''" "plain_line []" by (simp_all add: plain_line_def ch_defs IBUF_SIZE_def)
  ultimately have "\<forall>(cs, bs) \<in> set ?ls. list_all old_typable cs \<and> plain_line cs \<and>
      concat bs = concat (map old_keystrokes cs) @ [ENTER]"
    by (simp add: x)
  moreover have "keyboard_contract (kp_io model_kernel) fst (kp_press model_kernel)"
    using model_pc_contract by (simp add: model_kernel_def)
  moreover have "length (replicate 512 (CHR ''?'')) = ECHO_BUF_SIZE" by (simp add: ECHO_BUF_SIZE_def)
  ultimately obtain str bs m where "kmain (length ?ls) model_kernel (replicate 512 (CHR ''?'')) (concat (map snd ?ls)) quiet_machine = Some (True, str, bs, m)"
    "terminal_of (con m) = print_green (''kernel86'' @ [LF] @ ''welcome to the boot shell'' @ [LF] @ concat (map (transcript \<circ> fst) ?ls))
      (\<lambda>k. if k < SCREEN then blank_cell else 0, 0)"
    using kernel_echoes_lines [OF _ quiet_start(4)] by blast
  then show ?thesis by (intro exI [of _ str] exI [of _ bs] exI [of _ m]) (simp add: transcript_def eval_nat_numeral)
qed

end
