(* ===== verification/Irq_Delivery.thy ===== *)
theory Irq_Delivery
  imports Irq_Interface Boot_Props Old_Kernel
begin

text \<open>
  The interrupts of the loader and of the older kernel, from the line of the controllers to the end of the
  handler. The loader is a transition system: the main program computes, masks the line of the keyboard or
  changes the interrupt flag, and between any two of its steps the processor may take the interrupt of a
  line that the controllers pass on. In every reachable state both handlers are in place and no interrupt
  is lost for good.
\<close>

section \<open>Interrupts of the loader\<close>

text \<open>
  The interval timer raises line 0 with \<open>tk\<close>, a key press line 1. The processor clears the interrupt flag
  when it takes an interrupt, and \<open>iret\<close> at the end of the wrappers sets it again.
\<close>

definition board_contract :: "'d platform \<Rightarrow> ('d \<Rightarrow> pics) \<Rightarrow> ('d \<Rightarrow> 'd) \<Rightarrow> bool" where
  "board_contract pf view tk \<longleftrightarrow> keyboard_contract (pf_io pf) view (pf_press pf) \<and>
     (\<forall>d. view (tk d) = ack_line 0 (view d)) \<and>
     (\<forall>v d. view (outb (pf_io pf) 0x40 v d) = view d) \<and> (\<forall>v d. view (outb (pf_io pf) 0x43 v d) = view d)"

definition ld_pics :: "('d \<Rightarrow> pics) \<Rightarrow> 'd loader \<Rightarrow> pics" where
  "ld_pics view s = view (dev (ld_mach s))"

definition enter_key :: "'d platform \<Rightarrow> u8 \<Rightarrow> 'd loader \<Rightarrow> 'd loader" where
  "enter_key pf code s =
     set_mach (cpu_intr intr_disable ((ld_mach s)\<lparr>dev := pf_press pf code (dev (ld_mach s))\<rparr>)) s"

definition keyboard_wrapper :: "'d platform \<Rightarrow> 'd loader \<Rightarrow> 'd loader option" where
  "keyboard_wrapper pf s = Some (set_mach (cpu_intr intr_enable (keyboard_isr (pf_io pf) (ld_mach s))) s)"

definition enter_tick :: "('d \<Rightarrow> 'd) \<Rightarrow> 'd loader \<Rightarrow> 'd loader" where
  "enter_tick tk s = set_mach (cpu_intr intr_disable ((ld_mach s)\<lparr>dev := tk (dev (ld_mach s))\<rparr>)) s"

definition pit_wrapper :: "'d platform \<Rightarrow> 'd loader \<Rightarrow> 'd loader option" where
  "pit_wrapper pf s =
     (let m = ld_mach s
      in map_option (\<lambda>p. set_mach (cpu_intr intr_enable (m\<lparr>proc := pit_proc p, dev := pit_dev p\<rparr>)) s
             \<lparr>ld_ticks := num_ticks p, ld_timers := pit_timers p\<rparr>)
           (pit_isr (pf_io pf) \<lparr>pit_proc = proc m, pit_dev = dev m, num_ticks = ld_ticks s, pit_timers = ld_timers s\<rparr>))"

definition ld_delivered :: "('d \<Rightarrow> pics) \<Rightarrow> 'd loader \<Rightarrow> nat \<Rightarrow> u32 \<Rightarrow> bool" where
  "ld_delivered view s n isr \<longleftrightarrow> delivered (proc (ld_mach s)) (ld_pics view s) n isr"

text \<open>
  What the main program does between two interrupts: \<open>console_get_line\<close> masks and unmasks the keyboard,
  the interrupt flag changes, and everything else leaves the table, the controllers and the timers alone.
  The loader starts no timer.
\<close>

inductive irq_step :: "'d platform \<Rightarrow> ('d \<Rightarrow> pics) \<Rightarrow> ('d \<Rightarrow> 'd) \<Rightarrow> 'd loader \<Rightarrow> 'd loader \<Rightarrow> bool"
  for pf view tk where
  key: "ld_delivered view s 1 (pf_keyboard_isr pf) \<Longrightarrow> keyboard_wrapper pf (enter_key pf code s) = Some s' \<Longrightarrow>
    irq_step pf view tk s s'"
| tick: "ld_delivered view s 0 (pf_pit_isr pf) \<Longrightarrow> pit_wrapper pf (enter_tick tk s) = Some s' \<Longrightarrow>
    irq_step pf view tk s s'"
| mask: "irq_step pf view tk s (set_mach (keyboard_disable_irq (pf_io pf) (ld_mach s)) s)"
| unmask: "irq_step pf view tk s (set_mach (keyboard_enable_irq (pf_io pf) (ld_mach s)) s)"
| disable: "irq_step pf view tk s (set_mach (cpu_intr intr_disable (ld_mach s)) s)"
| enable: "irq_step pf view tk s (set_mach (cpu_intr intr_enable (ld_mach s)) s)"
| compute: "proc (ld_mach s') = proc (ld_mach s) \<Longrightarrow> ld_pics view s' = ld_pics view s \<Longrightarrow>
    ld_timers s' = ld_timers s \<Longrightarrow> ld_ticks s' = ld_ticks s \<Longrightarrow> irq_step pf view tk s s'"

section \<open>The handlers keep their contract\<close>

definition handlers_ready :: "'d platform \<Rightarrow> ('d \<Rightarrow> pics) \<Rightarrow> ('d \<Rightarrow> 'd) \<Rightarrow> 'd loader \<Rightarrow> bool" where
  "handlers_ready pf view tk s \<longleftrightarrow> board_contract pf view tk \<and> pics_ready (ld_pics view s) \<and>
     fst (idtr (proc (ld_mach s))) = 2047 \<and> intr_gate_to (pf_pit_isr pf) (idt (proc (ld_mach s)) ! 32) \<and>
     intr_gate_to (pf_keyboard_isr pf) (idt (proc (ld_mach s)) ! 33) \<and> head (ld_timers s) = None"

lemma eoi_view:
  assumes "pic_contract io view" "irq < 8"
  shows "view (pic_send_eoi io irq d) = end_line (view d)"
  using assms by (simp add: pic_send_eoi_view end_line_def)

lemma isr_end_view:
  assumes "keyboard_contract io view press"
  shows "view (dev (isr_end io s)) = end_line (view (dev s))"
  using assms eoi_view [of io view KEYBOARD_IRQ_NUM] by (simp add: isr_end_def keyboard_contract_def kbd_line)

lemma read_buf_view:
  assumes "keyboard_contract io view press"
  shows "view (snd (read_buf io d)) = view d"
  using assms by (simp add: keyboard_contract_def read_buf_def DATA_REG_def)

lemma keyboard_isr_view:
  assumes "keyboard_contract io view press"
  shows "view (dev (keyboard_isr io s)) = end_line (view (dev s))" and "proc (keyboard_isr io s) = proc s"
  by (simp_all add: keyboard_isr_def Let_def case_prod_beta isr_end_view [OF assms] read_buf_view [OF assms])
    (simp_all add: isr_end_def)

lemma old_keyboard_isr_view:
  assumes "keyboard_contract io view press"
  shows "view (dev (old_keyboard_isr io s)) = end_line (view (dev s))" and "proc (old_keyboard_isr io s) = proc s"
  by (simp_all add: old_keyboard_isr_def Let_def case_prod_beta isr_end_view [OF assms] read_buf_view [OF assms])
    (simp_all add: isr_end_def)

text \<open>With no timer running the interrupt of the interval timer counts the tick.\<close>

lemma pit_isr_idle:
  assumes "head (pit_timers p) = None"
  shows "pit_isr io p = Some (p\<lparr>num_ticks := num_ticks p + 1,
    pit_timers := (pit_timers p)\<lparr>tm_eflags := eflags (pit_proc p)\<rparr>, pit_dev := pic_send_eoi io PIT_IRQ_NUM (pit_dev p)\<rparr>)"
  using assms by (simp add: pit_isr_def timer_section_def timer_list_update_def update_from.simps [of None])

lemma ld_rest [simp]: "ld_timers (set_mach m s) = ld_timers s" "ld_ticks (set_mach m s) = ld_ticks s"
  by (simp_all add: set_mach_def)

lemma pit_wrapper_idle:
  assumes "head (ld_timers s) = None"
  shows "\<exists>s'. pit_wrapper pf s = Some s' \<and> head (ld_timers s') = None \<and> ld_ticks s' = ld_ticks s + 1 \<and>
    proc (ld_mach s') = (proc (ld_mach s))\<lparr>eflags := intr_enable (eflags (proc (ld_mach s)))\<rparr> \<and>
    dev (ld_mach s') = pic_send_eoi (pf_io pf) PIT_IRQ_NUM (dev (ld_mach s))"
  using assms by (simp add: pit_wrapper_def Let_def pit_isr_idle)

lemma enter_key_view:
  "handlers_ready pf view tk s \<Longrightarrow> ld_pics view (enter_key pf code s) = ack_line 1 (ld_pics view s)"
  by (simp add: handlers_ready_def board_contract_def keyboard_contract_def ld_pics_def enter_key_def ack_line_def)

lemma enter_tick_view:
  "handlers_ready pf view tk s \<Longrightarrow> ld_pics view (enter_tick tk s) = ack_line 0 (ld_pics view s)"
  by (simp add: handlers_ready_def board_contract_def ld_pics_def enter_tick_def)

lemma ack_ready [simp]: "pics_ready (ack_line n p) = pics_ready p" "pics_ready (end_line p) = pics_ready p"
  by (simp_all add: pics_ready_def ack_line_def end_line_def chip_eoi_def)

lemma enter_ready:
  assumes "handlers_ready pf view tk s"
  shows "handlers_ready pf view tk (enter_key pf code s)" "handlers_ready pf view tk (enter_tick tk s)"
  using assms enter_key_view [OF assms, of code] enter_tick_view [OF assms]
  unfolding handlers_ready_def by (simp_all add: enter_key_def enter_tick_def)

lemma keyboard_wrapper_ready:
  assumes "handlers_ready pf view tk s"
  shows "\<exists>s'. keyboard_wrapper pf s = Some s' \<and> handlers_ready pf view tk s' \<and> ld_pics view s' = end_line (ld_pics view s)"
proof -
  have k: "keyboard_contract (pf_io pf) view (pf_press pf)" using assms by (simp add: handlers_ready_def board_contract_def)
  let ?s = "set_mach (cpu_intr intr_enable (keyboard_isr (pf_io pf) (ld_mach s))) s"
  have v: "ld_pics view ?s = end_line (ld_pics view s)" by (simp add: ld_pics_def keyboard_isr_view [OF k])
  with assms show ?thesis
    unfolding keyboard_wrapper_def handlers_ready_def by (simp add: keyboard_isr_view(2) [OF k])
qed

lemma pit_wrapper_ready:
  assumes "handlers_ready pf view tk s"
  shows "\<exists>s'. pit_wrapper pf s = Some s' \<and> handlers_ready pf view tk s' \<and> ld_pics view s' = end_line (ld_pics view s)"
proof -
  obtain s' where s': "pit_wrapper pf s = Some s'" "head (ld_timers s') = None"
    "proc (ld_mach s') = (proc (ld_mach s))\<lparr>eflags := intr_enable (eflags (proc (ld_mach s)))\<rparr>"
    "dev (ld_mach s') = pic_send_eoi (pf_io pf) PIT_IRQ_NUM (dev (ld_mach s))"
    using pit_wrapper_idle [where s = s and pf = pf] assms by (auto simp: handlers_ready_def)
  have "pic_contract (pf_io pf) view"
    using assms by (simp add: handlers_ready_def board_contract_def keyboard_contract_def)
  then have v: "ld_pics view s' = end_line (ld_pics view s)" by (simp add: ld_pics_def s'(4) eoi_view PIT_IRQ_NUM_def)
  show ?thesis
    by (rule exI [of _ s']) (use assms v s'(1-3) in \<open>simp add: handlers_ready_def\<close>)
qed

interpretation keys: irq_handler "ld_pics view" "enter_key pf" "keyboard_wrapper pf" 1 "handlers_ready pf view tk"
  by unfold_locales (simp, (blast intro: enter_ready enter_key_view keyboard_wrapper_ready)+)

interpretation ticks: irq_handler "ld_pics view" "\<lambda>(_ :: unit). enter_tick tk" "pit_wrapper pf" 0 "handlers_ready pf view tk"
  by unfold_locales (simp, (blast intro: enter_ready enter_tick_view pit_wrapper_ready)+)

section \<open>Reachable states\<close>

text \<open>Nothing is in service and only the lines of the two drivers can be unmasked.\<close>

definition pics_quiet :: "pics \<Rightarrow> bool" where
  "pics_quiet p \<longleftrightarrow> vec (master p) = 32 \<and> in_service (master p) = 0 \<and> in_service (slave p) = 0 \<and>
     \<not> line_masked p 0 \<and> (\<forall>n. 2 \<le> n \<and> n < 16 \<longrightarrow> line_masked p n)"

lemma quiet_requests:
  assumes "pics_ready p" "pics_quiet p"
  shows "requests p 0" "requests p 1 \<longleftrightarrow> \<not> line_masked p 1" "n < 16 \<Longrightarrow> requests p n \<Longrightarrow> n < 2"
proof -
  show "requests p 0" "requests p 1 \<longleftrightarrow> \<not> line_masked p 1"
    using assms by (simp_all add: requests_def chip_requests_def pics_ready_def pics_quiet_def line_masked_def)
  assume n: "n < 16" "requests p n"
  then have "\<not> line_masked p n" by (auto simp: requests_def chip_requests_def line_masked_def split: if_splits)
  then show "n < 2" using assms(2) n(1) by (auto simp: pics_quiet_def not_less)
qed

lemma quiet_mask_key: "pics_quiet (mask_line (Suc 0) b p) \<longleftrightarrow> pics_quiet p"
  by (auto simp: pics_quiet_def mask_line_def Let_def line_masked_def bit_simps)

definition irq_inv :: "'d platform \<Rightarrow> ('d \<Rightarrow> pics) \<Rightarrow> ('d \<Rightarrow> 'd) \<Rightarrow> 'd loader \<Rightarrow> bool" where
  "irq_inv pf view tk s \<longleftrightarrow> handlers_ready pf view tk s \<and> pics_quiet (ld_pics view s)"

lemma inv_delivered:
  assumes "irq_inv pf view tk s"
  shows "ld_delivered view s 0 (pf_pit_isr pf) \<longleftrightarrow> interrupts_on s"
    and "ld_delivered view s 1 (pf_keyboard_isr pf) \<longleftrightarrow> interrupts_on s \<and> \<not> line_masked (ld_pics view s) 1"
  using assms quiet_requests(1,2) [of "ld_pics view s"]
  by (auto simp: irq_inv_def handlers_ready_def ld_delivered_def delivered_def interrupts_on_def vector_of_def pics_quiet_def)

lemma step_inv:
  assumes "irq_step pf view tk s s'" "irq_inv pf view tk s"
  shows "irq_inv pf view tk s'"
proof -
  have hr: "handlers_ready pf view tk s" and q: "pics_quiet (ld_pics view s)" and pr: "pics_ready (ld_pics view s)"
    using assms(2) by (simp_all add: irq_inv_def handlers_ready_def)
  have k: "keyboard_contract (pf_io pf) view (pf_press pf)" using hr by (simp add: handlers_ready_def board_contract_def)
  note mv = irq_view [OF k, of "ld_mach s"]
  show ?thesis
    using assms(1)
  proof cases
    case (key code)
    then have "requests (ld_pics view s) 1" by (simp add: ld_delivered_def delivered_def)
    with key keys.serve_one [OF hr] q show ?thesis by (metis irq_inv_def option.inject)
  next
    case tick
    then have "requests (ld_pics view s) 0" by (simp add: ld_delivered_def delivered_def)
    with tick ticks.serve_one [OF hr] q show ?thesis by (metis irq_inv_def option.inject)
  next
    case mask
    then have "ld_pics view s' = mask_line 1 True (ld_pics view s)" using mv(2) pr by (simp add: ld_pics_def)
    then show ?thesis using hr q pr mask
      by (simp add: irq_inv_def handlers_ready_def quiet_mask_key keyboard_disable_irq_def)
  next
    case unmask
    then have "ld_pics view s' = mask_line 1 False (ld_pics view s)" using mv(1) pr by (simp add: ld_pics_def)
    then show ?thesis using hr q pr unmask
      by (simp add: irq_inv_def handlers_ready_def quiet_mask_key keyboard_enable_irq_def)
  next
    case disable
    then show ?thesis using hr q by (simp add: irq_inv_def handlers_ready_def ld_pics_def)
  next
    case enable
    then show ?thesis using hr q by (simp add: irq_inv_def handlers_ready_def ld_pics_def)
  next
    case compute
    then show ?thesis using hr q by (simp add: irq_inv_def handlers_ready_def)
  qed
qed

lemma reachable_inv:
  assumes "(irq_step pf view tk)\<^sup>*\<^sup>* s s'" "irq_inv pf view tk s"
  shows "irq_inv pf view tk s'"
  using assms by (induction rule: rtranclp_induct) (simp_all add: step_inv)

section \<open>The start of the loader\<close>

definition devices :: "'d platform \<Rightarrow> 'd step list" where
  "devices pf = [interrupts_off, start_interrupts pf, start_pit pf, start_console pf]"

lemma start_up_devices: "start_up pf = devices pf @ [say (''kboot86'' @ [LF, NUL]) []]"
  by (simp add: start_up_def devices_def)

definition reset_pics :: pics where
  "reset_pics = \<lparr>master = \<lparr>imr = 0xff, in_service = 0, expects = 0, vec = 32, cascade = 4, mode = 1\<rparr>,
     slave = \<lparr>imr = 0xff, in_service = 0, expects = 0, vec = 40, cascade = 2, mode = 1\<rparr>\<rparr>"

lemma end_reset: "end_line (mask_line n b reset_pics) = mask_line n b reset_pics" "end_line reset_pics = reset_pics"
proof -
  have "clear_first [0..<8] 0 = 0" by (rule clear_first_none) simp
  then show "end_line (mask_line n b reset_pics) = mask_line n b reset_pics" "end_line reset_pics = reset_pics"
    by (simp_all add: end_line_def chip_eoi_def mask_line_def Let_def reset_pics_def)
qed

lemma masked_simps:
  "n < 8 \<Longrightarrow> k < 16 \<Longrightarrow> line_masked (mask_line n False p) k \<longleftrightarrow> k \<noteq> n \<and> line_masked p k"
  by (auto simp: line_masked_def mask_line_def Let_def bit_simps)

lemma quiet_started: "pics_quiet (mask_line 1 False (mask_line 0 False reset_pics))"
proof -
  have m: "(0xff :: u8) = mask 8" by (simp add: mask_eq_exp_minus_1)
  have "line_masked reset_pics k" if "k < 16" for k
    using that by (auto simp: line_masked_def reset_pics_def m bit_mask_iff)
  then have "\<not> line_masked (mask_line 1 False (mask_line 0 False reset_pics)) 0"
    "\<forall>n. 2 \<le> n \<and> n < 16 \<longrightarrow> line_masked (mask_line 1 False (mask_line 0 False reset_pics)) n"
    by (simp_all add: masked_simps)
  then show ?thesis by (simp add: pics_quiet_def) (simp add: mask_line_def Let_def reset_pics_def)
qed

lemma pit_init_eq:
  "snd (pit_init io isr s) = \<lparr>pit_proc = (pit_proc s)\<lparr>idt := (idt (pit_proc s))[32 := make_intr_gate isr]\<rparr>,
     pit_dev = pic_enable_irq io 0 (pic_send_eoi io 0 (snd (set_freq_hz io 40 (pit_dev s)))), num_ticks = 0,
     pit_timers = (pit_timers s)\<lparr>head := None\<rparr>\<rparr>"
  by (simp add: pit_init_def Let_def case_prod_beta intr_register_irq_def IRQ_OFFSET_def PIT_IRQ_NUM_def
      idt_set_intr_gate_eq IDT_NUM_GATES_MAX_def restore_intr_flag timer_list_init_def)

lemma keyboard_init_eq:
  "keyboard_init io isr s = (0, s\<lparr>kbd := idle_keys, proc := (proc s)\<lparr>idt := (idt (proc s))[33 := make_intr_gate isr]\<rparr>,
     dev := pic_enable_irq io 1 (pic_send_eoi io 1 (dev s))\<rparr>)"
  by (simp add: keyboard_init_def Let_def intr_register_irq_def IRQ_OFFSET_def KEYBOARD_IRQ_NUM_def
      idt_set_intr_gate_eq IDT_NUM_GATES_MAX_def restore_intr_flag idle_keys_def keyboard_enable_irq_def)

lemma set_freq_view:
  assumes "board_contract pf view tk"
  shows "view (snd (set_freq_hz (pf_io pf) f d)) = view d"
  using assms by (simp add: set_freq_hz_def set_cmd_reg_def PIT_CMD_def PIT_DATA_def board_contract_def Let_def)

lemma devices_started:
  assumes "board_contract pf view tk" "pics_ready (ld_pics view s)" "length (idt (proc (ld_mach s))) = 256"
  shows "\<exists>s'. run_steps (devices pf) s = Some (True, s') \<and> irq_inv pf view tk s'"
proof -
  have k: "keyboard_contract (pf_io pf) view (pf_press pf)" and p: "pic_contract (pf_io pf) view"
    using assms(1) by (simp_all add: board_contract_def keyboard_contract_def)
  obtain s1 where s1: "interrupts_off s = Some (True, s1)" "ld_pics view s1 = ld_pics view s" "idt (proc (ld_mach s1)) = idt (proc (ld_mach s))"
    by (simp add: interrupts_off_def ld_pics_def)
  obtain s2 where s2: "start_interrupts pf s1 = Some (True, s2)" "ld_pics view s2 = reset_pics"
    "length (idt (proc (ld_mach s2))) = 256" "fst (idtr (proc (ld_mach s2))) = 2047"
    using s1(2,3) assms(2,3) pic_init_view [OF p, of "dev (ld_mach s1)"]
    by (simp add: start_interrupts_def Let_def ld_pics_def pics_ready_def reset_pics_def idt_init_eq)
  have started: "view (pic_enable_irq (pf_io pf) n (pic_send_eoi (pf_io pf) n d)) = mask_line (unat n) False (end_line (view d))"
    if "pics_ready (view d)" "n < 8" for n d
  proof -
    have "unat n < 16" using that(2) by (simp add: word_less_nat_alt)
    moreover have "pics_ready (view (pic_send_eoi (pf_io pf) n d))" using that by (simp add: eoi_view [OF p])
    ultimately show ?thesis using that(2) by (simp add: pic_irq_view(1) [OF p] pics_ready_def eoi_view [OF p])
  qed
  let ?p = "snd (pit_init (pf_io pf) (pf_pit_isr pf) \<lparr>pit_proc = proc (ld_mach s2), pit_dev = dev (ld_mach s2),
      num_ticks = ld_ticks s2, pit_timers = ld_timers s2\<rparr>)"
  let ?s3 = "set_mach ((ld_mach s2)\<lparr>proc := pit_proc ?p, dev := pit_dev ?p\<rparr>) s2\<lparr>ld_ticks := num_ticks ?p, ld_timers := pit_timers ?p\<rparr>"
  have r: "pics_ready reset_pics" by (simp add: pics_ready_def reset_pics_def)
  have s3: "start_pit pf s2 = Some (True, ?s3)"
    using pit_init_fine by (simp add: start_pit_def Let_def case_prod_beta)
  have v3: "ld_pics view ?s3 = mask_line 0 False reset_pics"
    using s2(2) started [of "snd (set_freq_hz (pf_io pf) 40 (dev (ld_mach s2)))" 0] r
    by (simp add: pit_init_eq ld_pics_def set_freq_view [OF assms(1)] end_reset)
  let ?s4 = "set_mach (snd (console_start (pf_io pf) (pf_keyboard_isr pf) (ld_mach ?s3))) ?s3"
  have s4: "start_console pf ?s3 = Some (True, ?s4)" by (simp add: start_console_def)
  have v4: "ld_pics view ?s4 = mask_line 1 False (mask_line 0 False reset_pics)"
    using v3 started [of "dev (ld_mach ?s3)" 1] r by (simp add: console_start_def keyboard_init_eq ld_pics_def end_reset)
  have c4: "idt (proc (ld_mach ?s4)) = (idt (proc (ld_mach s2)))[32 := make_intr_gate (pf_pit_isr pf), 33 := make_intr_gate (pf_keyboard_isr pf)]"
    "fst (idtr (proc (ld_mach ?s4))) = 2047" "head (ld_timers ?s4) = None"
    using s2(4) by (simp_all add: console_start_def keyboard_init_eq pit_init_eq)
  have "irq_inv pf view tk ?s4"
    unfolding irq_inv_def handlers_ready_def v4
    using assms(1) s2(3) c4 make_intr_gate_hw quiet_started r by simp
  then show ?thesis by (intro exI [of _ ?s4]) (simp add: devices_def s1(1) s2(1) s3 s4)
qed

section \<open>Interrupts of the older kernel\<close>

definition old_enter_key :: "'d kernel_platform \<Rightarrow> u8 \<Rightarrow> 'd machine \<Rightarrow> 'd machine" where
  "old_enter_key pf code m = cpu_intr intr_disable (m\<lparr>dev := kp_press pf code (dev m)\<rparr>)"

definition old_wrapper :: "'d kernel_platform \<Rightarrow> 'd machine \<Rightarrow> 'd machine option" where
  "old_wrapper pf m = Some (cpu_intr intr_enable (old_keyboard_isr (kp_io pf) m))"

definition kernel_ready :: "'d kernel_platform \<Rightarrow> ('d \<Rightarrow> pics) \<Rightarrow> 'd machine \<Rightarrow> bool" where
  "kernel_ready pf view m \<longleftrightarrow> keyboard_contract (kp_io pf) view (kp_press pf) \<and> fst (idtr (proc m)) = 2047 \<and>
     intr_gate_to (kp_keyboard_isr pf) (idt (proc m) ! 33) \<and> pics_ready (view (dev m))"

lemma old_enter_view:
  "kernel_ready pf view m \<Longrightarrow> view (dev (old_enter_key pf code m)) = ack_line 1 (view (dev m))"
  by (simp add: kernel_ready_def keyboard_contract_def old_enter_key_def ack_line_def)

lemma old_enter_ready: "kernel_ready pf view m \<Longrightarrow> kernel_ready pf view (old_enter_key pf code m)"
  using old_enter_view [of pf view m code] by (simp add: kernel_ready_def) (simp add: old_enter_key_def)

lemma old_wrapper_ready:
  assumes "kernel_ready pf view m"
  shows "\<exists>m'. old_wrapper pf m = Some m' \<and> kernel_ready pf view m' \<and> view (dev m') = end_line (view (dev m))"
proof -
  have "keyboard_contract (kp_io pf) view (kp_press pf)" using assms by (simp add: kernel_ready_def)
  with assms show ?thesis by (simp add: old_wrapper_def kernel_ready_def old_keyboard_isr_view)
qed

interpretation old_keys: irq_handler "\<lambda>m. view (dev m)" "old_enter_key pf" "old_wrapper pf" 1 "kernel_ready pf view"
  by unfold_locales (simp, (blast intro: old_enter_ready old_enter_view old_wrapper_ready)+)

lemma old_serve_flag:
  "serve (old_enter_key pf) (old_wrapper pf) codes m = Some m' \<Longrightarrow> eflags_get_intr_flag (eflags (proc m)) \<Longrightarrow>
   eflags_get_intr_flag (eflags (proc m'))"
proof (induction codes arbitrary: m)
  case (Cons c cs)
  have "eflags_get_intr_flag (intr_enable e)" for e
    by (simp add: eflags_get_intr_flag_def intr_enable_def EFLAGS_IF_def bit_set_bit_iff)
  with Cons show ?case by (simp add: old_wrapper_def)
qed simp

lemma kernel_start_ready:
  assumes "keyboard_contract (kp_io pf) view (kp_press pf)" "pics_ready (view (dev m))"
    and "length (idt (proc m)) = 256" "length (ibuf (con m)) = IBUF_SIZE"
  obtains m' where "kernel_start pf m = Some (True, m')" "kernel_ready pf view m'" "eflags_get_intr_flag (eflags (proc m'))"
    "view (dev m') = mask_line 1 False (reset_pics\<lparr>master := (master reset_pics)\<lparr>in_service := in_service (master (view (dev m)))\<rparr>,
       slave := (slave reset_pics)\<lparr>in_service := in_service (slave (view (dev m)))\<rparr>\<rparr>)"
proof -
  have p: "pic_contract (kp_io pf) view" using assms(1) by (simp add: keyboard_contract_def)
  have r: "expects (master (view (dev m))) = 0" "expects (slave (view (dev m))) = 0" using assms(2) by (simp_all add: pics_ready_def)
  note v = old_pic_init_view [OF p r]
  let ?d = "pic_enable_irq (kp_io pf) 1 (old_pic_init (kp_io pf) (dev m))"
  obtain c where c: "kernel_start pf m = Some (True, m\<lparr>con := c, kbd := idle_keys,
      proc := (proc m)\<lparr>eflags := intr_enable (eflags (proc m)), idtr := (2047, kp_idt_base pf), idt := kernel_gates pf (idt (proc m))\<rparr>,
      dev := ?d\<rparr>)"
    using kernel_started [OF assms(4), of pf] by blast
  have d: "view ?d = mask_line 1 False (view (old_pic_init (kp_io pf) (dev m)))"
    using pic_irq_view(1) [OF p, of "old_pic_init (kp_io pf) (dev m)" 1] by (simp add: v)
  have e: "eflags_get_intr_flag (intr_enable e)" for e
    by (simp add: eflags_get_intr_flag_def intr_enable_def EFLAGS_IF_def bit_set_bit_iff)
  show thesis
  proof (rule that [OF c])
    show "kernel_ready pf view (m\<lparr>con := c, kbd := idle_keys,
      proc := (proc m)\<lparr>eflags := intr_enable (eflags (proc m)), idtr := (2047, kp_idt_base pf), idt := kernel_gates pf (idt (proc m))\<rparr>,
      dev := ?d\<rparr>)"
      using assms(1,3) make_intr_gate_hw by (simp add: kernel_ready_def d kernel_gates_def v pics_ready_def mask_line_def Let_def)
  qed (cases "master (view (dev m))"; cases "slave (view (dev m))"; simp add: e d v reset_pics_def)+
qed

text \<open>What the controllers pass on to the started kernel, by what was in service before.\<close>

lemma kernel_requests:
  assumes "p = mask_line 1 False (reset_pics\<lparr>master := (master reset_pics)\<lparr>in_service := x\<rparr>, slave := (slave reset_pics)\<lparr>in_service := y\<rparr>\<rparr>)"
  shows "n < 16 \<Longrightarrow> requests p n \<longleftrightarrow> n = 1 \<and> \<not> bit x 0 \<and> \<not> bit x 1"
proof -
  have m: "(0xff :: u8) = mask 8" by (simp add: mask_eq_exp_minus_1)
  have "line_masked p k \<longleftrightarrow> k \<noteq> 1" if "k < 16" for k
    using that by (auto simp: assms masked_simps line_masked_def reset_pics_def m bit_mask_iff mask_line_def Let_def bit_simps)
  moreover assume "n < 16"
  moreover have "requests p 1 \<longleftrightarrow> \<not> line_masked p 1 \<and> \<not> bit x 0 \<and> \<not> bit x 1"
    by (simp add: requests_def chip_requests_def line_masked_def assms mask_line_def Let_def reset_pics_def)
  moreover have "requests p n \<Longrightarrow> \<not> line_masked p n"
    by (auto simp: requests_def chip_requests_def line_masked_def split: if_splits)
  ultimately show "requests p n \<longleftrightarrow> n = 1 \<and> \<not> bit x 0 \<and> \<not> bit x 1" by (cases "n = 1") auto
qed

text \<open>
  An end of interrupt that the loader had not sent would be fatal: the kernel sends none at its start, and
  while line 0 or 1 is in service no key reaches it.
\<close>

lemma kernel_hears_keys_iff:
  assumes "keyboard_contract (kp_io pf) view (kp_press pf)" "pics_ready (view (dev m))"
    and "length (idt (proc m)) = 256" "length (ibuf (con m)) = IBUF_SIZE"
  shows "\<exists>m'. kernel_start pf m = Some (True, m') \<and> kernel_ready pf view m' \<and> vec (master (view (dev m'))) = 32 \<and>
    (\<forall>n < 16. requests (view (dev m')) n \<longrightarrow> n = 1) \<and>
    (delivered (proc m') (view (dev m')) 1 (kp_keyboard_isr pf) \<longleftrightarrow>
     \<not> bit (in_service (master (view (dev m)))) 0 \<and> \<not> bit (in_service (master (view (dev m)))) 1)"
proof -
  obtain m' where m': "kernel_start pf m = Some (True, m')" "kernel_ready pf view m'" "eflags_get_intr_flag (eflags (proc m'))"
    "view (dev m') = mask_line 1 False (reset_pics\<lparr>master := (master reset_pics)\<lparr>in_service := in_service (master (view (dev m)))\<rparr>,
       slave := (slave reset_pics)\<lparr>in_service := in_service (slave (view (dev m)))\<rparr>\<rparr>)"
    using kernel_start_ready [OF assms] by blast
  have vec: "vec (master (view (dev m'))) = 32" by (simp add: m'(4) mask_line_def Let_def reset_pics_def)
  then have "vector_of (view (dev m')) 1 = 33" by (simp add: vector_of_def)
  then have "delivered (proc m') (view (dev m')) 1 (kp_keyboard_isr pf) \<longleftrightarrow> requests (view (dev m')) 1"
    using m'(2,3) by (simp add: delivered_def kernel_ready_def)
  then show ?thesis using m'(1,2) vec kernel_requests [OF m'(4)] by auto
qed

lemma inv_serves_tick:
  assumes "irq_inv pf view tk s"
  shows "\<exists>s'. pit_wrapper pf (enter_tick tk s) = Some s' \<and> ld_ticks s' = ld_ticks s + 1 \<and> ld_pics view s' = ld_pics view s"
proof -
  have hr: "handlers_ready pf view tk s" and "requests (ld_pics view s) 0"
    using assms quiet_requests(1) [of "ld_pics view s"] by (auto simp: irq_inv_def handlers_ready_def)
  then obtain t where t: "pit_wrapper pf (enter_tick tk s) = Some t" "ld_pics view t = ld_pics view s"
    by (rule ticks.serve_one)
  have "head (ld_timers (enter_tick tk s)) = None" using hr by (simp add: handlers_ready_def enter_tick_def)
  from pit_wrapper_idle [OF this, of pf] t show ?thesis by (auto simp: enter_tick_def)
qed

lemma inv_serves_key:
  assumes "irq_inv pf view tk s" "\<not> line_masked (ld_pics view s) 1"
  shows "\<exists>s'. keyboard_wrapper pf (enter_key pf code s) = Some s' \<and> ld_pics view s' = ld_pics view s"
proof -
  have "handlers_ready pf view tk s" "requests (ld_pics view s) 1"
    using assms quiet_requests(2) [of "ld_pics view s"] by (auto simp: irq_inv_def handlers_ready_def)
  then obtain t where "keyboard_wrapper pf (enter_key pf code s) = Some t" "ld_pics view t = ld_pics view s"
    by (rule keys.serve_one)
  then show ?thesis by blast
qed

section \<open>Properties\<close>

text \<open>C29. The interrupts of the loader. From any state of the controllers its start leads to a state from which, whatever
  the main program does between the interrupts and however the ticks and key presses fall, these hold: only
  the lines of the interval timer and of the keyboard can reach the processor; with interrupts on a tick is
  taken through the gate of the timer, counted, and leaves the controllers as they were; and while the
  keyboard is not masked a key press is taken through its gate, with the same end.\<close>

theorem loader_interrupts_served:
  assumes "board_contract pf view tk" "pics_ready (ld_pics view s0)" "length (idt (proc (ld_mach s0))) = 256"
  shows "\<exists>s1. run_steps (devices pf) s0 = Some (True, s1) \<and> (\<forall>s. (irq_step pf view tk)\<^sup>*\<^sup>* s1 s \<longrightarrow>
    (\<forall>n < 16. requests (ld_pics view s) n \<longrightarrow> n \<in> {0, 1}) \<and>
    (interrupts_on s \<longrightarrow> ld_delivered view s 0 (pf_pit_isr pf) \<and>
      (\<exists>s'. pit_wrapper pf (enter_tick tk s) = Some s' \<and> ld_ticks s' = ld_ticks s + 1 \<and> ld_pics view s' = ld_pics view s)) \<and>
    (interrupts_on s \<and> \<not> line_masked (ld_pics view s) 1 \<longrightarrow> ld_delivered view s 1 (pf_keyboard_isr pf) \<and>
      (\<forall>code. \<exists>s'. keyboard_wrapper pf (enter_key pf code s) = Some s' \<and> ld_pics view s' = ld_pics view s)))"
proof -
  obtain s1 where s1: "run_steps (devices pf) s0 = Some (True, s1)" "irq_inv pf view tk s1"
    using devices_started [OF assms] by blast
  show ?thesis
  proof (rule exI [of _ s1], intro conjI s1(1) allI impI)
    fix s assume "(irq_step pf view tk)\<^sup>*\<^sup>* s1 s"
    then have inv: "irq_inv pf view tk s" using s1(2) by (rule reachable_inv)
    then have q: "pics_ready (ld_pics view s)" "pics_quiet (ld_pics view s)"
      by (simp_all add: irq_inv_def handlers_ready_def)
    show "n \<in> {0, 1}" if "n < 16" "requests (ld_pics view s) n" for n using quiet_requests(3) [OF q that] by auto
    show "interrupts_on s \<Longrightarrow> ld_delivered view s 0 (pf_pit_isr pf)"
      "interrupts_on s \<and> \<not> line_masked (ld_pics view s) 1 \<Longrightarrow> ld_delivered view s 1 (pf_keyboard_isr pf)"
      using inv_delivered [OF inv] by simp_all
    show "\<exists>s'. pit_wrapper pf (enter_tick tk s) = Some s' \<and> ld_ticks s' = ld_ticks s + 1 \<and> ld_pics view s' = ld_pics view s"
      by (rule inv_serves_tick [OF inv])
    show "\<exists>s'. keyboard_wrapper pf (enter_key pf code s) = Some s' \<and> ld_pics view s' = ld_pics view s"
      if "interrupts_on s \<and> \<not> line_masked (ld_pics view s) 1" for code
      using that by (intro inv_serves_key [OF inv]) simp
  qed
qed

text \<open>C35. The hand-over from the loader to the older kernel. When the kernel starts with the controllers as the loader leaves
  them in any of its reachable states, only the keyboard can interrupt it, and after any number of key
  presses the next one is taken through the gate of the keyboard, though the kernel itself sends no end of
  interrupt at its start.\<close>

theorem handed_over_kernel_hears_keys:
  assumes "board_contract pf view tk" "pics_ready (ld_pics view s0)" "length (idt (proc (ld_mach s0))) = 256"
    and "run_steps (devices pf) s0 = Some (True, s1)" "(irq_step pf view tk)\<^sup>*\<^sup>* s1 s"
    and "kp_io kpf = pf_io pf" "kp_press kpf = pf_press pf" "dev m = dev (ld_mach s)"
    and "length (idt (proc m)) = 256" "length (ibuf (con m)) = IBUF_SIZE"
  shows "\<exists>m'. kernel_start kpf m = Some (True, m') \<and> (\<forall>n < 16. requests (view (dev m')) n \<longrightarrow> n = 1) \<and>
    (\<forall>codes. \<exists>m''. serve (old_enter_key kpf) (old_wrapper kpf) codes m' = Some m'' \<and>
       delivered (proc m'') (view (dev m'')) 1 (kp_keyboard_isr kpf))"
proof -
  have "irq_inv pf view tk s1" using devices_started [OF assms(1-3)] assms(4) by auto
  with assms(5) have "irq_inv pf view tk s" by (rule reachable_inv)
  then have q: "pics_ready (view (dev m))" "in_service (master (view (dev m))) = 0"
    by (simp_all add: irq_inv_def handlers_ready_def pics_quiet_def ld_pics_def assms(8))
  have k: "keyboard_contract (kp_io kpf) view (kp_press kpf)" using assms(1,6,7) by (simp add: board_contract_def)
  obtain m' where m': "kernel_start kpf m = Some (True, m')" "kernel_ready kpf view m'" "\<forall>n < 16. requests (view (dev m')) n \<longrightarrow> n = 1"
    "delivered (proc m') (view (dev m')) 1 (kp_keyboard_isr kpf)" "vec (master (view (dev m'))) = 32"
    using kernel_hears_keys_iff [OF k q(1) assms(9,10)] q(2) by auto
  have "\<exists>m''. serve (old_enter_key kpf) (old_wrapper kpf) codes m' = Some m'' \<and> delivered (proc m'') (view (dev m'')) 1 (kp_keyboard_isr kpf)" for codes
  proof -
    have "requests (view (dev m')) 1" "eflags_get_intr_flag (eflags (proc m'))" using m'(4) by (simp_all add: delivered_def)
    with old_keys.serve_all [OF m'(2), of codes] obtain m'' where
      s: "serve (old_enter_key kpf) (old_wrapper kpf) codes m' = Some m''" "kernel_ready kpf view m''" "view (dev m'') = view (dev m')" by blast
    moreover have "eflags_get_intr_flag (eflags (proc m''))" using old_serve_flag [OF s(1)] m'(4) by (simp add: delivered_def)
    ultimately show ?thesis using m'(4,5) by (intro exI [of _ m'']) (simp add: delivered_def kernel_ready_def vector_of_def)
  qed
  then show ?thesis using m'(1,3) by blast
qed

text \<open>The board of the witnesses: the model controllers, a keyboard, and a timer that raises line 0.\<close>

definition board :: "(pics \<times> u8) platform" where
  "board = sample_platform model_pc \<lparr>pf_press := model_press\<rparr>"

definition board_tick :: "pics \<times> u8 \<Rightarrow> pics \<times> u8" where
  "board_tick d = (ack_line 0 (fst d), snd d)"

definition board_start :: "(pics \<times> u8) loader" where
  "board_start = sample_loader (\<lparr>master = bios_chip, slave = bios_chip\<rparr>, 0)"

lemma board_ok:
  "board_contract board fst board_tick" "pics_ready (ld_pics fst board_start)" "length (idt (proc (ld_mach board_start))) = 256"
proof -
  have "fst (outb model_pc 0x40 v d) = fst d" "fst (outb model_pc 0x43 v d) = fst d" for v d
    by (simp_all add: model_pc_def model_pics_def)
  then show "board_contract board fst board_tick"
    using model_pc_contract by (simp add: board_contract_def board_def sample_platform_def board_tick_def)
  show "pics_ready (ld_pics fst board_start)" "length (idt (proc (ld_mach board_start))) = 256"
    by (simp_all add: board_start_def sample_loader_def ld_mach_def ld_pics_def pics_ready_def bios_chip_def reset_cpu_def)
qed

text \<open>The loader with its interrupts switched on counts a tick.\<close>

theorem loader_interrupts_served_witness:
  "\<exists>s1 s2. run_steps (devices board) board_start = Some (True, s1) \<and>
    pit_wrapper board (enter_tick board_tick (set_mach (cpu_intr intr_enable (ld_mach s1)) s1)) = Some s2 \<and>
    ld_pics fst s2 = ld_pics fst s1"
proof -
  from loader_interrupts_served [OF board_ok] obtain s1 where s1: "run_steps (devices board) board_start = Some (True, s1)"
    "\<forall>s. (irq_step board fst board_tick)\<^sup>*\<^sup>* s1 s \<longrightarrow> interrupts_on s \<longrightarrow>
      (\<exists>s'. pit_wrapper board (enter_tick board_tick s) = Some s' \<and> ld_pics fst s' = ld_pics fst s)" by blast
  let ?s = "set_mach (cpu_intr intr_enable (ld_mach s1)) s1"
  have "(irq_step board fst board_tick)\<^sup>*\<^sup>* s1 ?s" by (intro r_into_rtranclp irq_step.enable)
  moreover have "interrupts_on ?s"
    by (simp add: interrupts_on_def eflags_get_intr_flag_def intr_enable_def EFLAGS_IF_def bit_set_bit_iff)
  ultimately obtain s2 where "pit_wrapper board (enter_tick board_tick ?s) = Some s2" "ld_pics fst s2 = ld_pics fst ?s"
    using s1(2) by blast
  moreover have "ld_pics fst ?s = ld_pics fst s1" by (simp add: ld_pics_def)
  ultimately show ?thesis using s1(1) by auto
qed

theorem handed_over_kernel_hears_keys_witness:
  "\<exists>s m m'. run_steps (devices board) board_start = Some (True, s) \<and>
    kernel_start model_kernel (quiet_machine\<lparr>dev := dev (ld_mach s)\<rparr>) = Some (True, m) \<and>
    serve (old_enter_key model_kernel) (old_wrapper model_kernel) [0x26, 0xa6, 0x1f] m = Some m' \<and>
    delivered (proc m') (fst (dev m')) 1 0xb000"
proof -
  obtain s where s: "run_steps (devices board) board_start = Some (True, s)" using devices_started [OF board_ok] by blast
  have "kp_io model_kernel = pf_io board" "kp_press model_kernel = pf_press board"
    by (simp_all add: model_kernel_def board_def sample_platform_def)
  from handed_over_kernel_hears_keys [OF board_ok s rtranclp.rtrancl_refl this, of "quiet_machine\<lparr>dev := dev (ld_mach s)\<rparr>"]
  obtain m where m: "kernel_start model_kernel (quiet_machine\<lparr>dev := dev (ld_mach s)\<rparr>) = Some (True, m)"
    "\<forall>codes. \<exists>m'. serve (old_enter_key model_kernel) (old_wrapper model_kernel) codes m = Some m' \<and>
      delivered (proc m') (fst (dev m')) 1 (kp_keyboard_isr model_kernel)"
    by (auto simp: quiet_machine_def reset_cpu_def blank_console_def)
  from m(2) [rule_format, of "[0x26, 0xa6, 0x1f]"] m(1) s show ?thesis by (auto simp: model_kernel_def)
qed

end
