(* ===== verification/Frame.thy ===== *)
theory Frame
  imports Kboot_Prelude
begin

text \<open>
  The allocator of physical frames of the kernel (\<open>kernel/lib/frame.c\<close>): a bitmap of 3072 bits, one for
  each frame of 4 KiB between 2 MiB and 14 MiB. The state is the array of words; the abstraction is the
  set of the addresses of the used frames.
\<close>

section \<open>The bitmap\<close>

definition FRAME_SIZE :: u32 where "FRAME_SIZE = 4096"
definition FRAME_PADDR_MIN :: u32 where "FRAME_PADDR_MIN = 0x200000"
definition FRAME_PADDR_MAX :: u32 where "FRAME_PADDR_MAX = 0xdfffff"
definition PMEM_AVAIL :: u32 where "PMEM_AVAIL = FRAME_PADDR_MAX - FRAME_PADDR_MIN + 1"
definition FRAMES_AVAIL :: u32 where "FRAMES_AVAIL = PMEM_AVAIL div FRAME_SIZE"
definition BITMAP_LEN :: u32 where "BITMAP_LEN = FRAMES_AVAIL div 32"

lemma bitmap_len: "BITMAP_LEN = 96" "unat BITMAP_LEN = 96"
  by (simp_all add: BITMAP_LEN_def FRAMES_AVAIL_def PMEM_AVAIL_def FRAME_PADDR_MAX_def FRAME_PADDR_MIN_def FRAME_SIZE_def)

definition bitmap_set_bit :: "u32 \<Rightarrow> u32 \<Rightarrow> u32" where
  "bitmap_set_bit bitmap bit_num = bitmap OR push_bit (unat bit_num) 1"

definition bitmap_clear_bit :: "u32 \<Rightarrow> u32 \<Rightarrow> u32" where
  "bitmap_clear_bit bitmap bit_num = bitmap AND NOT (push_bit (unat bit_num) 1)"

definition is_bit_set :: "u32 \<Rightarrow> u32 \<Rightarrow> bool" where
  "is_bit_set bitmap bit_num \<longleftrightarrow> bitmap AND push_bit (unat bit_num) 1 \<noteq> 0"

text \<open>The loop from bit \<open>i\<close> on, with \<open>n\<close> bits left.\<close>

fun clear_bit_from :: "u32 \<Rightarrow> nat \<Rightarrow> nat \<Rightarrow> u32" where
  "clear_bit_from bitmap i 0 = - 1"
| "clear_bit_from bitmap i (Suc n) =
     (if \<not> is_bit_set bitmap (of_nat i) then of_nat i else clear_bit_from bitmap (Suc i) n)"

definition get_clear_bit_num :: "u32 \<Rightarrow> u32" where
  "get_clear_bit_num bitmap = clear_bit_from bitmap 0 32"

definition has_free_frame :: "u32 \<Rightarrow> bool" where
  "has_free_frame bitmap \<longleftrightarrow> bitmap \<noteq> NOT 0"

definition idx2paddr :: "u32 \<Rightarrow> u32 \<Rightarrow> u32" where
  "idx2paddr i j = FRAME_PADDR_MIN + FRAME_SIZE * (32 * i + j)"

definition paddr2idx :: "u32 \<Rightarrow> u32 \<times> u32" where
  "paddr2idx paddr = (let page_num = (paddr - FRAME_PADDR_MIN) div FRAME_SIZE in (page_num div 32, page_num mod 32))"

section \<open>Allocation and release\<close>

text \<open>The loop over the words from \<open>i\<close> on, with \<open>n\<close> words left; the address 0 says that no frame is free.\<close>

fun frame_alloc_from :: "u32 list \<Rightarrow> nat \<Rightarrow> nat \<Rightarrow> u32 \<times> u32 list" where
  "frame_alloc_from bm i 0 = (0, bm)"
| "frame_alloc_from bm i (Suc n) =
     (if \<not> has_free_frame (bm ! i) then frame_alloc_from bm (Suc i) n
      else (let j = get_clear_bit_num (bm ! i)
            in (idx2paddr (of_nat i) j, bm[i := bitmap_set_bit (bm ! i) j])))"

definition frame_alloc :: "u32 list \<Rightarrow> u32 \<times> u32 list" where
  "frame_alloc bm = frame_alloc_from bm 0 (unat BITMAP_LEN)"

definition frame_dealloc :: "u32 \<Rightarrow> u32 list \<Rightarrow> int \<times> u32 list" where
  "frame_dealloc paddr bm =
     (if paddr AND 0x3ff \<noteq> 0 then (1, bm)
      else (let (i, j) = paddr2idx paddr
            in if i \<ge> BITMAP_LEN then (1, bm)
               else if \<not> is_bit_set (bm ! unat i) j then (1, bm)
               else (0, bm[unat i := bitmap_clear_bit (bm ! unat i) j])))"

section \<open>The set of used frames\<close>

text \<open>The address of the frame with a number, and the number of the frame that holds an address.\<close>

definition frame_addr :: "nat \<Rightarrow> u32" where
  "frame_addr n = FRAME_PADDR_MIN + FRAME_SIZE * of_nat n"

definition frame_bit :: "u32 list \<Rightarrow> nat \<Rightarrow> bool" where
  "frame_bit bm n \<longleftrightarrow> bit (bm ! (n div 32)) (n mod 32)"

definition used_frames :: "u32 list \<Rightarrow> nat set" where
  "used_frames bm = {n. n < 3072 \<and> frame_bit bm n}"

lemma bit_push_one: "n < 32 \<Longrightarrow> bit (push_bit n (1 :: u32)) k \<longleftrightarrow> k = n"
  by (auto simp: bit_simps)

lemma is_bit_set_bit: "unat j < 32 \<Longrightarrow> is_bit_set w j \<longleftrightarrow> bit w (unat j)"
proof -
  assume j: "unat j < 32"
  have "w AND push_bit (unat j) 1 \<noteq> 0 \<longleftrightarrow> (\<exists>k. bit w k \<and> k = unat j)"
    by (metis (no_types, lifting) bit_0_eq bit_and_iff bit_eqI bit_push_one bot_apply j bot_bool_def)
  then show ?thesis by (simp add: is_bit_set_def)
qed

lemma set_bit_bit: "unat j < 32 \<Longrightarrow> bit (bitmap_set_bit w j) k \<longleftrightarrow> bit w k \<or> k = unat j"
  by (simp only: bitmap_set_bit_def bit_or_iff bit_push_one)

lemma clear_bit_bit: "unat j < 32 \<Longrightarrow> bit (bitmap_clear_bit w j) k \<longleftrightarrow> bit w k \<and> k \<noteq> unat j"
  unfolding bitmap_clear_bit_def bit_and_iff bit_not_iff by (auto simp only: bit_push_one) (auto dest: bit_imp_le_length)

lemma clear_bit_from_least:
  assumes "i + n = 32"
  shows "(\<exists>k. i \<le> k \<and> k < 32 \<and> \<not> bit w k) \<Longrightarrow>
    \<exists>k. clear_bit_from w i n = of_nat k \<and> i \<le> k \<and> k < 32 \<and> \<not> bit w k \<and> (\<forall>l. i \<le> l \<and> l < k \<longrightarrow> bit w l)"
  using assms
proof (induction n arbitrary: i)
  case (Suc n)
  have i: "is_bit_set w (of_nat i) \<longleftrightarrow> bit w i"
    using Suc.prems(2) is_bit_set_bit [of "of_nat i" w] by (simp add: unat_of_nat_u32)
  show ?case
  proof (cases "bit w i")
    case False
    with i Suc.prems(2) show ?thesis by (intro exI [of _ i]) auto
  next
    case True
    with Suc.prems have "\<exists>k. Suc i \<le> k \<and> k < 32 \<and> \<not> bit w k" by (metis Suc_leI le_neq_implies_less)
    from Suc.IH [OF this] Suc.prems(2) obtain k where
      k: "clear_bit_from w (Suc i) n = of_nat k" "Suc i \<le> k" "k < 32" "\<not> bit w k" "\<forall>l. Suc i \<le> l \<and> l < k \<longrightarrow> bit w l" by auto
    then have "\<forall>l. i \<le> l \<and> l < k \<longrightarrow> bit w l" using True by (metis Suc_leI le_neq_implies_less)
    with k True i show ?thesis by (intro exI [of _ k]) simp
  qed
qed auto

text \<open>A frame number in words and bits.\<close>

lemma used_frames_update:
  assumes "length bm = 96" "i < 96" "unat j < 32"
  shows "used_frames (bm[i := bitmap_set_bit (bm ! i) j]) = insert (32 * i + unat j) (used_frames bm)"
    and "used_frames (bm[i := bitmap_clear_bit (bm ! i) j]) = used_frames bm - {32 * i + unat j}"
proof -
  have n: "n = 32 * i + unat j \<longleftrightarrow> n < 3072 \<and> n div 32 = i \<and> n mod 32 = unat j" for n
  proof
    assume "n < 3072 \<and> n div 32 = i \<and> n mod 32 = unat j"
    moreover have "n = 32 * (n div 32) + n mod 32" by (rule mult_div_mod_eq [symmetric])
    ultimately show "n = 32 * i + unat j" by (simp only:)
  qed (use assms(2,3) in simp)
  have w: "bm[i := w] ! (n div 32) = (if n div 32 = i then w else bm ! (n div 32))" for w n
    using assms(1,2) by (simp add: nth_list_update)
  show "used_frames (bm[i := bitmap_set_bit (bm ! i) j]) = insert (32 * i + unat j) (used_frames bm)"
    unfolding set_eq_iff insert_iff n used_frames_def mem_Collect_eq frame_bit_def w
    using set_bit_bit [OF assms(3)] by (auto split: if_splits)
  show "used_frames (bm[i := bitmap_clear_bit (bm ! i) j]) = used_frames bm - {32 * i + unat j}"
    unfolding set_eq_iff Diff_iff singleton_iff n used_frames_def mem_Collect_eq frame_bit_def w
    using clear_bit_bit [OF assms(3)] by (auto split: if_splits)
qed

lemma idx2paddr_frame:
  assumes "i < 96" "unat j < 32"
  shows "idx2paddr (of_nat i) j = frame_addr (32 * i + unat j)"
  by (simp add: idx2paddr_def frame_addr_def)

lemma frame_addr_unat: "n < 3072 \<Longrightarrow> unat (frame_addr n) = 2097152 + 4096 * n"
proof -
  assume n: "n < 3072"
  then have u: "unat (of_nat n :: u32) = n" by (simp add: unat_of_nat_u32)
  then have m: "unat (4096 * of_nat n :: u32) = 4096 * n" using n by (subst unat_mult_no_overflow) simp_all
  then show ?thesis unfolding frame_addr_def FRAME_PADDR_MIN_def FRAME_SIZE_def
    using n by (subst unat_add_no_overflow) simp_all
qed

lemma has_free_frame_bit: "has_free_frame w \<longleftrightarrow> (\<exists>k < 32. \<not> bit w k)"
proof -
  have "w = NOT 0 \<longleftrightarrow> (\<forall>k < 32. bit w k)" by (auto intro: bit_word_eqI simp: bit_simps)
  then show ?thesis by (auto simp: has_free_frame_def)
qed

text \<open>The words before \<open>i\<close> are full, so the first free frame is found from there on.\<close>

lemma frame_alloc_from_spec:
  assumes "length bm = 96" "i + n = 96" "\<forall>m < 32 * i. frame_bit bm m"
  shows "(\<exists>m < 3072. \<not> frame_bit bm m \<and> (\<forall>l < m. frame_bit bm l) \<and>
      frame_alloc_from bm i n = (frame_addr m, bm[m div 32 := bitmap_set_bit (bm ! (m div 32)) (of_nat (m mod 32))]))
    \<or> (\<forall>m < 3072. frame_bit bm m) \<and> frame_alloc_from bm i n = (0, bm)"
  using assms(2,3)
proof (induction n arbitrary: i)
  case 0
  then show ?case by simp
next
  case (Suc n)
  show ?case
  proof (cases "has_free_frame (bm ! i)")
    case False
    then have w: "\<forall>k < 32. bit (bm ! i) k" by (simp add: has_free_frame_bit)
    have "frame_bit bm m" if "m < 32 * Suc i" for m
    proof (cases "m < 32 * i")
      case False
      with that have "m div 32 = i" by (simp add: div_nat_eqI)
      with w show ?thesis by (simp add: frame_bit_def)
    qed (use Suc.prems in simp)
    with Suc.IH [of "Suc i"] Suc.prems(1) False show ?thesis by simp
  next
    case True
    then have "\<exists>k. 0 \<le> k \<and> k < 32 \<and> \<not> bit (bm ! i) k" by (simp add: has_free_frame_bit)
    from clear_bit_from_least [OF _ this, of 32] obtain k where
      k: "get_clear_bit_num (bm ! i) = of_nat k" "k < 32" "\<not> bit (bm ! i) k" "\<forall>l < k. bit (bm ! i) l"
      by (auto simp: get_clear_bit_num_def)
    let ?m = "32 * i + k"
    have i: "i < 96" using Suc.prems(1) by simp
    have m: "?m < 3072" "?m div 32 = i" "?m mod 32 = k" using i k(2) by simp_all
    have "frame_bit bm l" if "l < ?m" for l
    proof (cases "l < 32 * i")
      case False
      define r where "r = l - 32 * i"
      have "l = 32 * i + r" "r < k" using False that by (simp_all add: r_def)
      then have "l div 32 = i" "l mod 32 < k" using k(2) by simp_all
      with k(4) show ?thesis by (simp add: frame_bit_def)
    qed (use Suc.prems in simp)
    moreover have "\<not> frame_bit bm ?m" using k(3) m by (simp add: frame_bit_def)
    moreover have "idx2paddr (of_nat i) (of_nat k) = frame_addr ?m"
      using idx2paddr_frame [OF i, of "of_nat k"] k(2) by (simp add: unat_of_nat_u32)
    ultimately show ?thesis using True k(1) m by (intro disjI1 exI [of _ ?m]) (simp add: Let_def)
  qed
qed

lemma frame_alloc_spec:
  assumes "length bm = 96"
  shows "(used_frames bm = {..<3072} \<longrightarrow> frame_alloc bm = (0, bm)) \<and>
    (used_frames bm \<noteq> {..<3072} \<longrightarrow> (\<exists>n bm'. frame_alloc bm = (frame_addr n, bm') \<and> n < 3072 \<and>
       n \<notin> used_frames bm \<and> (\<forall>m < n. m \<in> used_frames bm) \<and>
       length bm' = 96 \<and> used_frames bm' = insert n (used_frames bm)))"
proof -
  have full: "used_frames bm = {..<3072} \<longleftrightarrow> (\<forall>m < 3072. frame_bit bm m)" by (auto simp: used_frames_def)
  from frame_alloc_from_spec [OF assms, of 0 96] consider
    m where "m < 3072" "\<not> frame_bit bm m" "\<forall>l < m. frame_bit bm l"
      "frame_alloc bm = (frame_addr m, bm[m div 32 := bitmap_set_bit (bm ! (m div 32)) (of_nat (m mod 32))])"
    | "\<forall>m < 3072. frame_bit bm m" "frame_alloc bm = (0, bm)"
    by (auto simp: frame_alloc_def bitmap_len)
  then show ?thesis
  proof cases
    case 1
    have "unat (of_nat (m mod 32) :: u32) = m mod 32" by (simp add: unat_of_nat_u32)
    moreover have "m div 32 < 96" "m mod 32 < 32" using 1(1) by simp_all
    ultimately have "used_frames (bm[m div 32 := bitmap_set_bit (bm ! (m div 32)) (of_nat (m mod 32))])
      = insert m (used_frames bm)"
      using used_frames_update(1) [OF assms, of "m div 32" "of_nat (m mod 32)"] by (simp add: mult_div_mod_eq)
    with 1 assms full show ?thesis
      by (intro conjI impI exI [of _ m] exI [of _ "snd (frame_alloc bm)"]) (auto simp: used_frames_def)
  next
    case 2
    with full show ?thesis by simp
  qed
qed

text \<open>The number of the frame that holds an address.\<close>

definition frame_num :: "u32 \<Rightarrow> nat" where
  "frame_num paddr = unat (paddr - FRAME_PADDR_MIN) div 4096"

lemma frame_num_addr: "n < 3072 \<Longrightarrow> frame_num (frame_addr n) = n"
proof -
  assume n: "n < 3072"
  then have u: "unat (of_nat n :: u32) = n" by (simp add: unat_of_nat_u32)
  then have "unat (4096 * of_nat n :: u32) = 4096 * n" using n by (subst unat_mult_no_overflow) simp_all
  then show ?thesis by (simp add: frame_num_def frame_addr_def FRAME_SIZE_def)
qed

lemma paddr2idx_num:
  "unat (fst (paddr2idx paddr)) = frame_num paddr div 32" "unat (snd (paddr2idx paddr)) = frame_num paddr mod 32"
  by (simp_all add: paddr2idx_def Let_def frame_num_def FRAME_SIZE_def unat_div unat_mod)

lemma frame_dealloc_spec:
  assumes "length bm = 96"
  shows "frame_dealloc paddr bm = (if paddr AND 0x3ff = 0 \<and> frame_num paddr \<in> used_frames bm
      then (0, bm[frame_num paddr div 32 := bitmap_clear_bit (bm ! (frame_num paddr div 32)) (snd (paddr2idx paddr))])
      else (1, bm))"
    and "frame_num paddr \<in> used_frames bm \<Longrightarrow>
      used_frames (bm[frame_num paddr div 32 := bitmap_clear_bit (bm ! (frame_num paddr div 32)) (snd (paddr2idx paddr))])
        = used_frames bm - {frame_num paddr}"
proof -
  obtain i j where ij: "paddr2idx paddr = (i, j)" by (cases "paddr2idx paddr")
  note num = paddr2idx_num [of paddr, unfolded ij fst_conv snd_conv]
  have "i \<ge> BITMAP_LEN \<longleftrightarrow> \<not> frame_num paddr < 3072" by (simp add: word_le_nat_alt bitmap_len num) linarith
  moreover have "is_bit_set (bm ! unat i) j \<longleftrightarrow> frame_bit bm (frame_num paddr)"
    using is_bit_set_bit [of j] by (simp add: num frame_bit_def)
  ultimately show "frame_dealloc paddr bm = (if paddr AND 0x3ff = 0 \<and> frame_num paddr \<in> used_frames bm
      then (0, bm[frame_num paddr div 32 := bitmap_clear_bit (bm ! (frame_num paddr div 32)) (snd (paddr2idx paddr))])
      else (1, bm))"
    by (simp add: frame_dealloc_def ij num used_frames_def)
  assume "frame_num paddr \<in> used_frames bm"
  then have "frame_num paddr < 3072" by (simp add: used_frames_def)
  then have "frame_num paddr div 32 < 96" by simp
  from used_frames_update(2) [OF assms this, of j] num
  show "used_frames (bm[frame_num paddr div 32 := bitmap_clear_bit (bm ! (frame_num paddr div 32)) (snd (paddr2idx paddr))])
        = used_frames bm - {frame_num paddr}"
    by (simp add: ij mult_div_mod_eq)
qed

section \<open>The contract of an allocator\<close>

text \<open>\<open>n\<close> allocations one after the other.\<close>

fun allocs :: "('s \<Rightarrow> u32 \<times> 's) \<Rightarrow> nat \<Rightarrow> 's \<Rightarrow> u32 list \<times> 's" where
  "allocs alloc 0 s = ([], s)"
| "allocs alloc (Suc n) s = (let (a, s') = alloc s; (as, s'') = allocs alloc n s' in (a # as, s''))"

locale pool_allocator =
  fixes alloc :: "'s \<Rightarrow> u32 \<times> 's"
    and dealloc :: "u32 \<Rightarrow> 's \<Rightarrow> int \<times> 's"
    and used :: "'s \<Rightarrow> u32 set"
    and pool :: "u32 set"
    and ok :: "'s \<Rightarrow> bool"
  assumes pool_finite: "finite pool"
    and used_pool: "ok s \<Longrightarrow> used s \<subseteq> pool"
    and alloc_fresh: "ok s \<Longrightarrow> used s \<noteq> pool \<Longrightarrow> alloc s = (a, s') \<Longrightarrow>
      a \<in> pool - used s \<and> ok s' \<and> used s' = insert a (used s)"
    and dealloc_used: "ok s \<Longrightarrow> a \<in> used s \<Longrightarrow> dealloc a s = (rc, s') \<Longrightarrow>
      rc = 0 \<and> ok s' \<and> used s' = used s - {a}"
begin

text \<open>As long as there is room, allocations give different fresh blocks.\<close>

lemma allocs_fresh:
  "ok s \<Longrightarrow> card (used s) + n \<le> card pool \<Longrightarrow> \<exists>as s'. allocs alloc n s = (as, s') \<and> ok s' \<and> length as = n \<and>
    distinct as \<and> set as \<subseteq> pool - used s \<and> used s' = used s \<union> set as"
proof (induction n arbitrary: s)
  case (Suc n)
  obtain a s1 where a: "alloc s = (a, s1)" by (cases "alloc s")
  have "card (used s) < card pool" using Suc.prems(2) by simp
  then have "used s \<noteq> pool" by auto
  from alloc_fresh [OF Suc.prems(1) this a] have s1: "a \<in> pool - used s" "ok s1" "used s1 = insert a (used s)" by auto
  moreover have "finite (used s)" using used_pool [OF Suc.prems(1)] pool_finite by (rule finite_subset)
  ultimately have "card (used s1) + n \<le> card pool" using Suc.prems(2) by simp
  from Suc.IH [OF s1(2) this] obtain as s2 where
    "allocs alloc n s1 = (as, s2)" "ok s2" "length as = n" "distinct as" "set as \<subseteq> pool - used s1" "used s2 = used s1 \<union> set as" by blast
  with a s1 show ?case by (auto simp: s1(3))
qed auto

lemma dealloc_last: "ok s \<Longrightarrow> used s \<noteq> pool \<Longrightarrow> alloc s = (a, s') \<Longrightarrow> dealloc a s' = (rc, s'') \<Longrightarrow> rc = 0 \<and> used s'' = used s"
  using alloc_fresh [of s a s'] dealloc_used [of s' a rc s''] by auto

end

definition frame_pool :: "u32 set" where
  "frame_pool = frame_addr ` {..<3072}"

lemma frame_addr_inj: "inj_on frame_addr {..<3072}"
  by (rule inj_on_inverseI [of _ frame_num]) (simp add: frame_num_addr)

lemma frame_addr_aligned: "n < 3072 \<Longrightarrow> frame_addr n AND 0x3ff = 0"
proof -
  assume n: "n < 3072"
  have "(0x3ff :: u32) = mask 10" by (simp add: mask_eq_exp_minus_1)
  then have "frame_addr n AND 0x3ff = take_bit 10 (frame_addr n)" by (simp only: take_bit_eq_mask)
  then have "unat (frame_addr n AND 0x3ff) = unat (frame_addr n) mod 1024"
    by (simp add: unat_mod take_bit_eq_mod)
  also have "\<dots> = 0" by (simp add: frame_addr_unat [OF n])
  finally show ?thesis by (simp add: unat_eq_0)
qed

interpretation frames: pool_allocator frame_alloc frame_dealloc "\<lambda>bm. frame_addr ` used_frames bm" frame_pool
    "\<lambda>bm. length bm = 96"
proof
  fix bm bm' :: "u32 list" and a :: u32 and rc :: int
  show "finite frame_pool" by (simp add: frame_pool_def)
  show "frame_addr ` used_frames bm \<subseteq> frame_pool" by (auto simp: frame_pool_def used_frames_def)
  assume len: "length bm = 96"
  {
    assume "frame_addr ` used_frames bm \<noteq> frame_pool" and a: "frame_alloc bm = (a, bm')"
    then have "used_frames bm \<noteq> {..<3072}" by (auto simp: frame_pool_def)
    with frame_alloc_spec [OF len] a obtain n where n: "a = frame_addr n" "n < 3072" "n \<notin> used_frames bm"
      "length bm' = 96" "used_frames bm' = insert n (used_frames bm)" by auto
    have "used_frames bm \<subseteq> {..<3072}" by (auto simp: used_frames_def)
    then have "frame_addr n \<notin> frame_addr ` used_frames bm"
      using n(2,3) frame_addr_inj by (auto simp: inj_on_def)
    with n show "a \<in> frame_pool - frame_addr ` used_frames bm \<and> length bm' = 96 \<and>
      frame_addr ` used_frames bm' = insert a (frame_addr ` used_frames bm)" by (auto simp: frame_pool_def)
  }
  assume "a \<in> frame_addr ` used_frames bm" and r: "frame_dealloc a bm = (rc, bm')"
  then obtain n where n: "n \<in> used_frames bm" "a = frame_addr n" by auto
  then have lt: "n < 3072" by (simp add: used_frames_def)
  have "used_frames bm \<subseteq> {..<3072}" by (auto simp: used_frames_def)
  then have img: "frame_addr ` (used_frames bm - {n}) = frame_addr ` used_frames bm - {frame_addr n}"
    using inj_on_image_set_diff [OF frame_addr_inj, of "used_frames bm" "{n}"] n(1) by auto
  have "frame_num a = n" using n lt by (simp add: frame_num_addr)
  with frame_dealloc_spec [OF len, of a] frame_addr_aligned [OF lt] r n len img
  show "rc = 0 \<and> length bm' = 96 \<and> frame_addr ` used_frames bm' = frame_addr ` used_frames bm - {a}" by auto
qed

section \<open>Properties\<close>

text \<open>C36. The frame allocator. On any bitmap \<open>frame_alloc\<close> returns 0 and changes nothing when all 3072 frames
  are used, and otherwise the address of the lowest free frame, which is then used too.
  \<open>frame_dealloc\<close> frees the frame that holds the address if it is used and the lowest ten bits of the
  address are zero, so also for an address that is not the start of a frame; in all other cases, for
  addresses outside the memory it manages too, it returns 1 and changes nothing.\<close>

theorem frame_allocator_correct:
  assumes "length bm = 96"
  shows "(case frame_alloc bm of (a, bm') \<Rightarrow>
      if used_frames bm = {..<3072} then a = 0 \<and> bm' = bm
      else length bm' = 96 \<and> (\<exists>n. n < 3072 \<and> n \<notin> used_frames bm \<and> (\<forall>m < n. m \<in> used_frames bm) \<and>
        unat a = 2097152 + 4096 * n \<and> used_frames bm' = insert n (used_frames bm))) \<and>
    (case frame_dealloc paddr bm of (rc, bm') \<Rightarrow>
      if paddr AND 0x3ff = 0 \<and> frame_num paddr \<in> used_frames bm
      then rc = 0 \<and> length bm' = 96 \<and> used_frames bm' = used_frames bm - {frame_num paddr}
      else rc = 1 \<and> bm' = bm)"
proof (rule conjI)
  show "case frame_alloc bm of (a, bm') \<Rightarrow>
      if used_frames bm = {..<3072} then a = 0 \<and> bm' = bm
      else length bm' = 96 \<and> (\<exists>n. n < 3072 \<and> n \<notin> used_frames bm \<and> (\<forall>m < n. m \<in> used_frames bm) \<and>
        unat a = 2097152 + 4096 * n \<and> used_frames bm' = insert n (used_frames bm))"
  proof (cases "used_frames bm = {..<3072}")
    case True
    with frame_alloc_spec [OF assms] show ?thesis by simp
  next
    case False
    with frame_alloc_spec [OF assms] obtain n bm' where "frame_alloc bm = (frame_addr n, bm')" "n < 3072"
      "n \<notin> used_frames bm" "\<forall>m < n. m \<in> used_frames bm" "length bm' = 96" "used_frames bm' = insert n (used_frames bm)"
      by blast
    with False frame_addr_unat [of n] show ?thesis by auto
  qed
  show "case frame_dealloc paddr bm of (rc, bm') \<Rightarrow>
      if paddr AND 0x3ff = 0 \<and> frame_num paddr \<in> used_frames bm
      then rc = 0 \<and> length bm' = 96 \<and> used_frames bm' = used_frames bm - {frame_num paddr}
      else rc = 1 \<and> bm' = bm"
    unfolding frame_dealloc_spec(1) [OF assms] using frame_dealloc_spec(2) [OF assms, of paddr] assms by simp
qed

theorem frame_allocator_correct_witness:
  "\<exists>bm'. frame_dealloc 0x202400 ((replicate 96 0)[0 := 4]) = (0, bm') \<and> 2 \<notin> used_frames bm'"
proof -
  let ?bm = "(replicate 96 0)[0 := 4] :: u32 list"
  have "bit (4 :: u32) 2" by (simp add: bit_iff_odd)
  then have "frame_num 0x202400 \<in> used_frames ?bm"
    by (simp add: used_frames_def frame_bit_def frame_num_def FRAME_PADDR_MIN_def)
  moreover have "length ?bm = 96" by simp
  ultimately show ?thesis
    using frame_allocator_correct [where bm = ?bm and paddr = "0x202400", THEN conjunct2]
    by (auto simp: frame_num_def FRAME_PADDR_MIN_def split: prod.splits if_splits)
qed

text \<open>Frames in use are not given away. With at most 3072 frames in use altogether, \<open>n\<close> allocations one
  after the other return \<open>n\<close> different frames between 2 MiB and 14 MiB, none of them in use before, and
  afterwards exactly the old and the new frames are in use.\<close>

theorem frame_alloc_distinct:
  assumes "length bm = 96" "card (used_frames bm) + n \<le> 3072"
  shows "\<exists>as bm'. allocs frame_alloc n bm = (as, bm') \<and> length bm' = 96 \<and> length as = n \<and> distinct as \<and>
    set as \<subseteq> frame_pool - frame_addr ` used_frames bm \<and>
    frame_addr ` used_frames bm' = frame_addr ` used_frames bm \<union> set as"
proof -
  have "used_frames bm \<subseteq> {..<3072}" by (auto simp: used_frames_def)
  then have "card (frame_addr ` used_frames bm) = card (used_frames bm)"
    using frame_addr_inj by (meson card_image inj_on_subset)
  moreover have "card frame_pool = 3072" using card_image [OF frame_addr_inj] by (simp add: frame_pool_def)
  ultimately have "card (frame_addr ` used_frames bm) + n \<le> card frame_pool" using assms(2) by simp
  from frames.allocs_fresh [OF assms(1) this] show ?thesis by blast
qed

theorem frame_alloc_distinct_witness:
  "\<exists>as bm'. allocs frame_alloc 100 (replicate 96 0) = (as, bm') \<and> length as = 100 \<and> distinct as"
proof -
  have "used_frames (replicate 96 0) = {}" by (auto simp: used_frames_def frame_bit_def)
  then have "card (used_frames (replicate 96 0)) + 100 \<le> 3072" by simp
  from frame_alloc_distinct [OF length_replicate this] show ?thesis by blast
qed

end
