(* ===== verification/Gdt.thy ===== *)
theory Gdt
  imports Kboot_Prelude
begin

text \<open>
  The segment descriptors of the kernel (\<open>kernel/lib/gdt.c\<close>): the table of three entries, the GDTR and
  the segment registers that \<open>gdt_init\<close> sets up. Bit fields are words of their width; \<open>gdt_word\<close> is the
  entry as the processor reads it.
\<close>

section \<open>State\<close>

record access =
  accessed :: "1 word"
  read_write :: "1 word"
  dc :: "1 word"
  executable :: "1 word"
  one_bit :: "1 word"
  privilege :: "2 word"
  present :: "1 word"

record gdt_entry =
  limit_0_15 :: u16
  base_0_15 :: u16
  base_16_23 :: u8
  access_byte :: access
  limit_16_19 :: "4 word"
  zero_bits :: "2 word"
  size_bit :: "1 word"
  granularity :: "1 word"
  base_24_31 :: u8

text \<open>The register with the length minus one and the address, the code and the data selector.\<close>

record gdt_state =
  gdt :: "gdt_entry list"
  gdtr :: "u16 \<times> u32"
  code_sel :: u16
  data_sel :: u16

definition NUM_ENTRIES_MAX :: u16 where "NUM_ENTRIES_MAX = 3"
definition SIZEOF_GDT_ENTRY :: u16 where "SIZEOF_GDT_ENTRY = 8"

section \<open>The register\<close>

definition mgdtr_set_offset :: "u32 \<Rightarrow> u16 \<times> u32 \<Rightarrow> u16 \<times> u32" where
  "mgdtr_set_offset offset r = (fst r, offset)"

definition mgdtr_set_length :: "u16 \<Rightarrow> u16 \<times> u32 \<Rightarrow> int \<times> u16 \<times> u32" where
  "mgdtr_set_length len r = (if len = 0 then (1, r) else (0, len * SIZEOF_GDT_ENTRY - 1, snd r))"

definition gdtr_load :: "u16 \<times> u32 \<Rightarrow> gdt_state \<Rightarrow> gdt_state" where
  "gdtr_load r s = s\<lparr>gdtr := r\<rparr>"

text \<open>Both members of the local copy are written before it is loaded.\<close>

definition gdtr_set :: "u32 \<Rightarrow> u16 \<Rightarrow> gdt_state \<Rightarrow> int \<times> gdt_state" where
  "gdtr_set offset len s =
     (let (rc, r) = mgdtr_set_length len (mgdtr_set_offset offset (0, 0))
      in if rc \<noteq> 0 then (1, s) else (0, gdtr_load r s))"

section \<open>The entries\<close>

definition gdt_entry_get_base :: "gdt_entry \<Rightarrow> u32" where
  "gdt_entry_get_base e =
     ucast (base_0_15 e) OR push_bit 16 (ucast (base_16_23 e)) OR push_bit 24 (ucast (base_24_31 e))"

definition gdt_entry_get_limit :: "gdt_entry \<Rightarrow> u32" where
  "gdt_entry_get_limit e = ucast (limit_0_15 e) OR push_bit 16 (ucast (limit_16_19 e))"

definition gdt_entry_set_base :: "u32 \<Rightarrow> gdt_entry \<Rightarrow> gdt_entry" where
  "gdt_entry_set_base base e = e\<lparr>base_0_15 := ucast (0xffff AND base),
     base_16_23 := ucast (0x00ff AND drop_bit 16 base), base_24_31 := ucast (0x00ff AND drop_bit 24 base)\<rparr>"

definition gdt_entry_set_limit :: "u32 \<Rightarrow> gdt_entry \<Rightarrow> gdt_entry" where
  "gdt_entry_set_limit limit e = e\<lparr>limit_0_15 := ucast (0xffff AND limit),
     limit_16_19 := ucast (0x000f AND drop_bit 16 limit)\<rparr>"

definition gdt_entry_set_flags :: "gdt_entry \<Rightarrow> gdt_entry" where
  "gdt_entry_set_flags e = e\<lparr>zero_bits := 0, size_bit := 1, granularity := 1\<rparr>"

definition zero_access :: access where
  "zero_access = \<lparr>accessed = 0, read_write = 0, dc = 0, executable = 0, one_bit = 0, privilege = 0, present = 0\<rparr>"

definition gdt_entry_set_access :: "u8 \<Rightarrow> bool \<Rightarrow> gdt_entry \<Rightarrow> gdt_entry" where
  "gdt_entry_set_access privl exec e = e\<lparr>access_byte := zero_access\<lparr>read_write := 1, one_bit := 1,
     executable := (if exec then 1 else 0), privilege := ucast (0x3 AND privl), present := 1\<rparr>\<rparr>"

text \<open>What \<open>bzero\<close> makes of an entry.\<close>

definition zero_entry :: gdt_entry where
  "zero_entry = \<lparr>limit_0_15 = 0, base_0_15 = 0, base_16_23 = 0, access_byte = zero_access, limit_16_19 = 0,
     zero_bits = 0, size_bit = 0, granularity = 0, base_24_31 = 0\<rparr>"

text \<open>\<open>privl\<close> is an \<open>int\<close> that the call narrows to eight bits.\<close>

definition gdt_entry_set :: "u32 \<Rightarrow> u32 \<Rightarrow> bool \<Rightarrow> u32 \<Rightarrow> gdt_entry" where
  "gdt_entry_set base limit exec privl =
     gdt_entry_set_flags (gdt_entry_set_access (ucast privl) exec
       (gdt_entry_set_limit limit (gdt_entry_set_base base zero_entry)))"

definition gdt_entry_set_code :: "u32 \<Rightarrow> gdt_entry" where
  "gdt_entry_set_code privl = gdt_entry_set 0 0x000fffff True privl"

definition gdt_entry_set_data :: "u32 \<Rightarrow> gdt_entry" where
  "gdt_entry_set_data privl = gdt_entry_set 0 0x000fffff False privl"

section \<open>The table\<close>

definition add_gdt_entry :: "u16 \<Rightarrow> gdt_entry \<Rightarrow> gdt_state \<Rightarrow> int \<times> gdt_state" where
  "add_gdt_entry idx e s = (if idx \<ge> NUM_ENTRIES_MAX then (1, s) else (0, s\<lparr>gdt := (gdt s)[unat idx := e]\<rparr>))"

definition update_segments :: "u32 \<Rightarrow> u32 \<Rightarrow> gdt_state \<Rightarrow> gdt_state" where
  "update_segments code data s = s\<lparr>code_sel := ucast (code * 8), data_sel := ucast (data * 8)\<rparr>"

text \<open>\<open>base\<close> is the address of the table.\<close>

definition gdt_init :: "u32 \<Rightarrow> gdt_state \<Rightarrow> int \<times> gdt_state" where
  "gdt_init base s =
     (let (rc, s) = gdtr_set base NUM_ENTRIES_MAX s
      in if rc \<noteq> 0 then (1, s)
         else (let s = snd (add_gdt_entry 0 zero_entry s);
                   s = snd (add_gdt_entry 1 (gdt_entry_set_code 0) s);
                   s = snd (add_gdt_entry 2 (gdt_entry_set_data 0) s)
               in (0, update_segments 1 2 s)))"

section \<open>What the processor reads\<close>

text \<open>The eight bytes of an entry, bit fields from bit 0 on.\<close>

definition access_bits :: "access \<Rightarrow> u8" where
  "access_bits a = ucast (accessed a) OR push_bit 1 (ucast (read_write a)) OR push_bit 2 (ucast (dc a))
     OR push_bit 3 (ucast (executable a)) OR push_bit 4 (ucast (one_bit a)) OR push_bit 5 (ucast (privilege a))
     OR push_bit 7 (ucast (present a))"

definition gdt_word :: "gdt_entry \<Rightarrow> 64 word" where
  "gdt_word e = ucast (limit_0_15 e) OR push_bit 16 (ucast (base_0_15 e)) OR push_bit 32 (ucast (base_16_23 e))
     OR push_bit 40 (ucast (access_bits (access_byte e))) OR push_bit 48 (ucast (limit_16_19 e))
     OR push_bit 52 (ucast (zero_bits e)) OR push_bit 54 (ucast (size_bit e)) OR push_bit 55 (ucast (granularity e))
     OR push_bit 56 (ucast (base_24_31 e))"

text \<open>The fields as the manual numbers them.\<close>

definition desc_base :: "64 word \<Rightarrow> u32" where
  "desc_base w = ucast (take_bit 24 (drop_bit 16 w)) OR push_bit 24 (ucast (take_bit 8 (drop_bit 56 w)))"

definition desc_limit :: "64 word \<Rightarrow> u32" where
  "desc_limit w = ucast (take_bit 16 w) OR push_bit 16 (ucast (take_bit 4 (drop_bit 48 w)))"

definition desc_access :: "64 word \<Rightarrow> u8" where
  "desc_access w = ucast (drop_bit 40 w)"

definition desc_flags :: "64 word \<Rightarrow> 4 word" where
  "desc_flags w = ucast (drop_bit 52 w)"

lemma gdt_masks: "(0xffff :: u32) = mask 16" "(0xff :: u32) = mask 8" "(0xf :: u32) = mask 4" "(3 :: u8) = mask 2"
  by (simp_all add: mask_eq_exp_minus_1)

lemma no_bit_over:
  "16 \<le> n \<Longrightarrow> \<not> bit (a :: u16) n" "8 \<le> n \<Longrightarrow> \<not> bit (b :: u8) n" "4 \<le> n \<Longrightarrow> \<not> bit (c :: 4 word) n"
  "2 \<le> n \<Longrightarrow> \<not> bit (d :: 2 word) n" "1 \<le> n \<Longrightarrow> \<not> bit (e :: 1 word) n"
  by (auto dest: bit_imp_le_length)

text \<open>Which field a bit of the entry belongs to.\<close>

lemma gdt_word_bit:
  assumes "n < 64"
  shows "bit (gdt_word e) n \<longleftrightarrow>
    (if n < 16 then bit (limit_0_15 e) n else if n < 32 then bit (base_0_15 e) (n - 16)
     else if n < 40 then bit (base_16_23 e) (n - 32) else if n < 48 then bit (access_bits (access_byte e)) (n - 40)
     else if n < 52 then bit (limit_16_19 e) (n - 48) else if n < 54 then bit (zero_bits e) (n - 52)
     else if n < 55 then bit (size_bit e) (n - 54) else if n < 56 then bit (granularity e) (n - 55)
     else bit (base_24_31 e) (n - 56))"
proof -
  consider "n < 16" | "16 \<le> n" "n < 32" | "32 \<le> n" "n < 40" | "40 \<le> n" "n < 48" | "48 \<le> n" "n < 52"
    | "52 \<le> n" "n < 54" | "54 \<le> n" "n < 55" | "55 \<le> n" "n < 56" | "56 \<le> n" by linarith
  then show ?thesis using assms
    by cases (simp_all add: gdt_word_def bit_or_iff bit_push_bit_iff bit_ucast_iff no_bit_over less_diff_conv2)
qed

lemma desc_base_entry: "desc_base (gdt_word e) = gdt_entry_get_base e"
proof (rule bit_word_eqI)
  fix n assume "n < LENGTH(32)"
  then consider "n < 16" | "16 \<le> n" "n < 24" | "24 \<le> n" "n < 32" by fastforce
  then show "bit (desc_base (gdt_word e)) n \<longleftrightarrow> bit (gdt_entry_get_base e) n"
    by cases (simp_all add: desc_base_def gdt_entry_get_base_def bit_or_iff bit_push_bit_iff bit_ucast_iff
        bit_take_bit_iff bit_drop_bit_eq gdt_word_bit no_bit_over less_diff_conv2)
qed

lemma desc_limit_entry: "desc_limit (gdt_word e) = gdt_entry_get_limit e"
proof (rule bit_word_eqI)
  fix n assume "n < LENGTH(32)"
  then consider "n < 16" | "16 \<le> n" "n < 20" | "20 \<le> n" "n < 32" by fastforce
  then show "bit (desc_limit (gdt_word e)) n \<longleftrightarrow> bit (gdt_entry_get_limit e) n"
    by cases (simp_all add: desc_limit_def gdt_entry_get_limit_def bit_or_iff bit_push_bit_iff bit_ucast_iff
        bit_take_bit_iff bit_drop_bit_eq gdt_word_bit no_bit_over less_diff_conv2)
qed

lemma get_set_base: "gdt_entry_get_base (gdt_entry_set_base b e) = b"
proof (rule bit_word_eqI)
  fix n assume "n < LENGTH(32)"
  then consider "n < 16" | "16 \<le> n" "n < 24" | "24 \<le> n" "n < 32" by fastforce
  then show "bit (gdt_entry_get_base (gdt_entry_set_base b e)) n \<longleftrightarrow> bit b n"
    by cases (simp_all add: gdt_entry_get_base_def gdt_entry_set_base_def gdt_masks bit_simps no_bit_over less_diff_conv2)
qed

lemma get_set_limit: "gdt_entry_get_limit (gdt_entry_set_limit l e) = take_bit 20 l"
proof (rule bit_word_eqI)
  fix n assume "n < LENGTH(32)"
  then consider "n < 16" | "16 \<le> n" "n < 20" | "20 \<le> n" "n < 32" by fastforce
  then show "bit (gdt_entry_get_limit (gdt_entry_set_limit l e)) n \<longleftrightarrow> bit (take_bit 20 l) n"
    by cases (simp_all add: gdt_entry_get_limit_def gdt_entry_set_limit_def gdt_masks bit_simps no_bit_over less_diff_conv2)
qed

lemma desc_access_entry: "desc_access (gdt_word e) = access_bits (access_byte e)"
proof (rule bit_word_eqI)
  fix n assume "n < LENGTH(8)"
  then show "bit (desc_access (gdt_word e)) n \<longleftrightarrow> bit (access_bits (access_byte e)) n"
    by (simp add: desc_access_def bit_ucast_iff bit_drop_bit_eq gdt_word_bit)
qed

lemma desc_flags_entry:
  "desc_flags (gdt_word e) = ucast (zero_bits e) OR push_bit 2 (ucast (size_bit e)) OR push_bit 3 (ucast (granularity e))"
proof (rule bit_word_eqI)
  fix n assume "n < LENGTH(4)"
  then consider "n < 2" | "2 \<le> n" "n < 3" | "3 \<le> n" "n < 4" by fastforce
  then show "bit (desc_flags (gdt_word e)) n \<longleftrightarrow>
      bit (ucast (zero_bits e) OR push_bit 2 (ucast (size_bit e)) OR push_bit 3 (ucast (granularity e)) :: 4 word) n"
    by cases (simp_all add: desc_flags_def bit_or_iff bit_push_bit_iff bit_ucast_iff bit_drop_bit_eq gdt_word_bit no_bit_over less_diff_conv2)
qed

lemma entry_set_parts:
  "gdt_entry_get_base (gdt_entry_set b l x p) = b" "gdt_entry_get_limit (gdt_entry_set b l x p) = take_bit 20 l"
  "access_byte (gdt_entry_set b l x p) = zero_access\<lparr>read_write := 1, one_bit := 1,
     executable := (if x then 1 else 0), privilege := ucast (0x3 AND (ucast p :: u8)), present := 1\<rparr>"
  "zero_bits (gdt_entry_set b l x p) = 0" "size_bit (gdt_entry_set b l x p) = 1" "granularity (gdt_entry_set b l x p) = 1"
proof -
  have b: "gdt_entry_get_base (gdt_entry_set_flags e) = gdt_entry_get_base e"
    "gdt_entry_get_base (gdt_entry_set_access q x e) = gdt_entry_get_base e"
    "gdt_entry_get_base (gdt_entry_set_limit l e) = gdt_entry_get_base e"
    "gdt_entry_get_limit (gdt_entry_set_flags e) = gdt_entry_get_limit e"
    "gdt_entry_get_limit (gdt_entry_set_access q x e) = gdt_entry_get_limit e" for e q
    by (simp_all add: gdt_entry_get_base_def gdt_entry_get_limit_def gdt_entry_set_flags_def
        gdt_entry_set_access_def gdt_entry_set_limit_def)
  show "gdt_entry_get_base (gdt_entry_set b l x p) = b" "gdt_entry_get_limit (gdt_entry_set b l x p) = take_bit 20 l"
    by (simp_all only: gdt_entry_set_def b get_set_base get_set_limit)
  show "access_byte (gdt_entry_set b l x p) = zero_access\<lparr>read_write := 1, one_bit := 1,
     executable := (if x then 1 else 0), privilege := ucast (0x3 AND (ucast p :: u8)), present := 1\<rparr>"
    "zero_bits (gdt_entry_set b l x p) = 0" "size_bit (gdt_entry_set b l x p) = 1" "granularity (gdt_entry_set b l x p) = 1"
    by (simp_all add: gdt_entry_set_def gdt_entry_set_flags_def gdt_entry_set_access_def
        gdt_entry_set_limit_def gdt_entry_set_base_def)
qed

lemma access_bits_set:
  "access_bits (zero_access\<lparr>read_write := 1, one_bit := 1, executable := (if x then 1 else 0),
     privilege := q, present := 1\<rparr>) = (if x then 0x9a else 0x92) OR push_bit 5 (ucast q)"
proof -
  have swap: "a OR (push_bit 5 (ucast q) OR c) = (a OR c) OR push_bit 5 (ucast q)" for a c :: u8
    by (simp only: ac_simps)
  show ?thesis by (simp add: access_bits_def zero_access_def swap) (simp flip: or.assoc)
qed

section \<open>Properties\<close>

text \<open>Building a descriptor. For every base, limit, kind and privilege level the processor reads from the
  entry the base, the lowest 20 bits of the limit, page granularity and 32-bit size, and an access byte of a
  present, readable and writable segment with the two lowest bits of the privilege level.\<close>

theorem gdt_entry_set_fields:
  "desc_base (gdt_word (gdt_entry_set base limit exec privl)) = base \<and>
   desc_limit (gdt_word (gdt_entry_set base limit exec privl)) = take_bit 20 limit \<and>
   desc_flags (gdt_word (gdt_entry_set base limit exec privl)) = 0xc \<and>
   desc_access (gdt_word (gdt_entry_set base limit exec privl)) =
     (if exec then 0x9a else 0x92) OR push_bit 5 (ucast (ucast (0x3 AND (ucast privl :: u8)) :: 2 word))"
  by (simp add: desc_base_entry desc_limit_entry desc_flags_entry desc_access_entry entry_set_parts access_bits_set)

text \<open>C40. \<open>gdt_init\<close>. The GDTR describes a table of three entries at its address: the null descriptor, a code and
  a data segment that both span the four GiB with privilege level 0; the code selector is 8 and the data
  selectors are 16.\<close>

theorem gdt_init_correct:
  assumes "length (gdt s) = 3"
  shows "\<exists>s'. gdt_init base s = (0, s') \<and> gdtr s' = (23, base) \<and> code_sel s' = 8 \<and> data_sel s' = 16 \<and>
    length (gdt s') = 3 \<and> gdt_word (gdt s' ! 0) = 0 \<and>
    (\<forall>i \<in> {1, 2}. desc_base (gdt_word (gdt s' ! i)) = 0 \<and> desc_limit (gdt_word (gdt s' ! i)) = 0xfffff \<and>
       desc_flags (gdt_word (gdt s' ! i)) = 0xc \<and>
       desc_access (gdt_word (gdt s' ! i)) = (if i = 1 then 0x9a else 0x92))"
proof -
  obtain a b c where g: "gdt s = [a, b, c]" using assms by (auto simp: numeral_3_eq_3 length_Suc_conv)
  have z: "gdt_word zero_entry = 0" by (simp add: gdt_word_def zero_entry_def access_bits_def zero_access_def)
  have i: "gdt_init base s = (0, s\<lparr>gdt := [zero_entry, gdt_entry_set_code 0, gdt_entry_set_data 0],
      gdtr := (23, base), code_sel := 8, data_sel := 16\<rparr>)"
    by (simp add: gdt_init_def gdtr_set_def mgdtr_set_length_def mgdtr_set_offset_def NUM_ENTRIES_MAX_def
        SIZEOF_GDT_ENTRY_def gdtr_load_def add_gdt_entry_def update_segments_def g Let_def word_le_nat_alt)
  have l: "take_bit 20 (0xfffff :: u32) = 0xfffff" by simp
  show ?thesis unfolding i
    by (simp add: z gdt_entry_set_code_def gdt_entry_set_data_def desc_base_entry desc_limit_entry desc_flags_entry
        desc_access_entry entry_set_parts l access_bits_set [of 0 True, simplified] access_bits_set [of 0 False, simplified])
qed

theorem gdt_init_correct_witness:
  "\<exists>s'. gdt_init 0x100000 \<lparr>gdt = [zero_entry, zero_entry, zero_entry], gdtr = (0, 0), code_sel = 0, data_sel = 0\<rparr> = (0, s')
     \<and> gdtr s' = (23, 0x100000) \<and> desc_access (gdt_word (gdt s' ! 1)) = 0x9a"
proof -
  have "length (gdt \<lparr>gdt = [zero_entry, zero_entry, zero_entry], gdtr = (0, 0), code_sel = 0, data_sel = 0\<rparr>) = 3" by simp
  from gdt_init_correct [OF this, of "0x100000"] show ?thesis by auto
qed

end
