(* ===== verification/Boot_Errors.thy ===== *)
theory Boot_Errors
  imports Boot_Props
begin

text \<open>
  The error paths of \<open>main\<close> behind a mounted volume: the file \<open>kernel.elf\<close> is not there, or it is refused by the
  ELF loader. The screen is followed from the first message to the last one, over the blue screen, which the handler of
  processor exceptions shows too.
\<close>

section \<open>A missing file\<close>

lemma mounted_missing:
  assumes "mounted io view D ident fs" "lacks_file D ident fname"
  obtains fs' where "rootdir_find_entry (hdd_read_sector io) fname fs = Some (None, fs')" "mounted io view D ident fs'"
proof -
  from assms(1) obtain idd ms where m:
    "volume_ready io view (unat (le16 ident 6)) (unat (le16 ident 12)) (unat (le32 ident 114)) D idd ms fs"
    "vol_content D ms fs = part0 D" "part_avail idd ms (fat_partition_num fs) = in_part0 D ident"
    "same_geometry fs (volume_at (part0 D 0))" by (auto simp: mounted_def)
  have "dir_search fname (root_entries (vol_content D ms fs) fs) = Some None"
    using assms(2) m(2) same_geometry_defs(2) [OF m(4)] by (simp add: lacks_file_def)
  from rootdir_find_missing [OF m(1) this] obtain fs' where
    fs': "rootdir_find_entry (hdd_read_sector io) fname fs = Some (None, fs')"
      "volume_ready io view (unat (le16 ident 6)) (unat (le16 ident 12)) (unat (le32 ident 114)) D idd ms fs'"
      "same_volume fs fs'" by auto
  have pn: "fat_partition_num fs' = fat_partition_num fs" using fs'(3) by (simp add: same_volume_def)
  have "mounted io view D ident fs'"
    using fs'(2) m(2,3) same_geometry_volume [OF fs'(3) m(4)] by (auto simp: mounted_def vol_content_def pn)
  with fs'(1) show thesis by (rule that)
qed

text \<open>Reading the load buffer and writing it back changes nothing.\<close>

lemma load_buffer:
  assumes "boot_space m0 m" "\<forall>k < 1048576. \<not> in_tables m0 (mem_load_addr + of_nat k)"
  obtains buf where "read_block (unat LOAD_BUF_SIZE) mem_load_addr m = Some buf" "write_block buf mem_load_addr m = Some m"
proof -
  let ?f = "\<lambda>k. ram m (mem_load_addr + of_nat k)"
  let ?buf = "map ?f [0..<1048576]"
  have self: "mmu_self m" using assms(1) by (simp add: boot_space_def)
  note at = boot_space_load [OF assms(1) _ assms(2)]
  have n: "unat LOAD_BUF_SIZE = 1048576" by (simp add: LOAD_BUF_SIZE_def)
  have rd: "read_block (unat LOAD_BUF_SIZE) mem_load_addr m = Some ?buf"
    unfolding n by (rule read_block_map) (use at self pself.load_plain in blast)
  have len: "length ?buf = 1048576" by simp
  have "unat mem_load_addr + length ?buf \<le> 4294967296" unfolding len by (simp add: mem_load_addr_def)
  then have wr: "write_block ?buf mem_load_addr m = Some (m\<lparr>ram := overlay mem_load_addr ?buf (ram m)\<rparr>)"
    by (rule write_block_overlay [OF self]) (unfold len, rule at)
  have "overlay mem_load_addr ([] @ drop (length ([] :: u8 list)) ?buf) (ram m) = overlay mem_load_addr [] (ram m)"
    by (rule overlay_same [where img = "[]" and n = 1048576 and f = ?f and r = "ram m"]) simp_all
  then have "overlay mem_load_addr ?buf (ram m) = ram m" by (simp add: overlay_def fun_eq_iff)
  then show thesis using rd wr by (intro that [of ?buf]) simp_all
qed

definition missing_text :: "char list" where
  "missing_text = (''file size: -1'' @ [LF]) @ (''error while loading file kernel'' @ CHR ''.'' # ''elf'' @ [LF])"

definition error_text :: "char list" where
  "error_text = [LF] @ ''*** ERROR! ***'' @ [LF]"

lemma missing_texts:
  "kprintf (''file size: %d'' @ [LF, NUL]) [Arg_int (of_int (-1))] = Some (''file size: -1'' @ [LF])"
  "kprintf (''error while loading file %s'' @ [LF, NUL]) [Arg_str (Some FILENAME)]
    = Some (''error while loading file kernel'' @ CHR ''.'' # ''elf'' @ [LF])"
proof -
  have "number_text (- 1) 10 (- 1) (- 1) SIGN = ''-1''"
    by (simp add: number_text_def Let_def sign_text_def prefix_text_def digits_text_def has_def flag_defs magnitude_def
        numeral_text.simps digit_chars_def)
  then show "kprintf (''file size: %d'' @ [LF, NUL]) [Arg_int (of_int (-1))] = Some (''file size: -1'' @ [LF])"
    by (simp add: run_format)
  have f: "c_string FILENAME (''kernel'' @ CHR ''.'' # ''elf'')" by (simp add: c_string_def FILENAME_def)
  show "kprintf (''error while loading file %s'' @ [LF, NUL]) [Arg_str (Some FILENAME)]
    = Some (''error while loading file kernel'' @ CHR ''.'' # ''elf'' @ [LF])"
    using f by (simp add: run_format)
qed

lemma printable_errors: "printable ''file size: -1''" "printable (''error while loading file kernel'' @ CHR ''.'' # ''elf'' @ [LF])"
  by (simp_all add: printable_def ch_defs LF_def)

lemma load_steps_missing:
  assumes "mounted (pf_io pf) view D ident (ld_fat s)" "lacks_file D ident FILENAME"
    and "boot_space m0 (ld_mmu s)" "\<forall>k < 1048576. \<not> in_tables m0 (mem_load_addr + of_nat k)"
    and "shows_text t (con (ld_mach s))"
  obtains s' where "run_steps (load_steps pf) s = Some (False, s')" "shows_text (t @ missing_text) (con (ld_mach s'))"
    "ld_mmu s' = ld_mmu s"
proof -
  obtain fs where fs: "rootdir_find_entry (hdd_read_sector (pf_io pf)) FILENAME (ld_fat s) = Some (None, fs)"
    "mounted (pf_io pf) view D ident fs" by (rule mounted_missing [OF assms(1,2)])
  have sh: "shows_text t (con (ld_mach (set_fat fs s)))" using assms(5) by simp
  obtain s1 where s1: "say (''file size: %d'' @ [LF, NUL]) [Arg_int (of_int (-1))] (set_fat fs s) = Some (True, s1)"
    "shows_text (t @ ''file size: -1'' @ [LF]) (con (ld_mach s1))" "ld_mmu s1 = ld_mmu (set_fat fs s)" "ld_fat s1 = ld_fat (set_fat fs s)"
    by (rule say_step [OF sh missing_texts(1)]) (simp_all only: printables printable_errors)
  then have step1: "say_file_size pf s = Some (True, s1)" by (simp add: say_file_size_def fat16_get_file_size_def fs(1))
  have mnt: "mounted (pf_io pf) view D ident (ld_fat s1)" and mmu: "ld_mmu s1 = ld_mmu s" using fs(2) s1(3,4) by simp_all
  obtain fs1 where fs1: "rootdir_find_entry (hdd_read_sector (pf_io pf)) FILENAME (ld_fat s1) = Some (None, fs1)"
    by (rule mounted_missing [OF mnt assms(2)])
  obtain buf where buf: "read_block (unat LOAD_BUF_SIZE) mem_load_addr (ld_mmu s1) = Some buf"
    "write_block buf mem_load_addr (ld_mmu s1) = Some (ld_mmu s1)"
    by (rule load_buffer [OF assms(3,4), folded mmu])
  let ?s = "set_fat fs1 s1"
  have sh1: "shows_text (t @ ''file size: -1'' @ [LF]) (con (ld_mach ?s))" using s1(2) by simp
  obtain s2 where s2: "say (''error while loading file %s'' @ [LF, NUL]) [Arg_str (Some FILENAME)] ?s = Some (True, s2)"
    "shows_text ((t @ ''file size: -1'' @ [LF]) @ ''error while loading file kernel'' @ CHR ''.'' # ''elf'' @ [LF]) (con (ld_mach s2))"
    "ld_mmu s2 = ld_mmu ?s"
    by (rule say_step [OF sh1 missing_texts(2) printable_errors(2)])
  have same: "?s\<lparr>ld_mmu := ld_mmu s1\<rparr> = ?s" by simp
  have "load_file pf s1 = Some (False, s2)"
    using s2(1) by (simp add: load_file_def buf fat16_load_def fs1 Let_def same)
  with step1 s2(2,3) mmu show thesis by (intro that [of s2]) (simp_all add: load_steps_def missing_text_def)
qed

section \<open>The blue screen\<close>

definition bsod_cell :: "u16 \<Rightarrow> u16" where
  "bsod_cell w = encode_char_attr (char_of (unat (w AND 0xff))) VGA_ATTR_WHITE_ON_BLUE"

lemma take_bit_of_int_word: "take_bit n (word_of_int k :: 'a::len word) = word_of_int (take_bit n k)"
  by transfer (simp add: take_bit_take_bit ac_simps)

lemma bsod_cell_idem: "bsod_cell (bsod_cell w) = bsod_cell w"
proof -
  have m: "(0xff :: u16) = mask 8" by (simp add: mask_eq_exp_minus_1)
  have "unat (bsod_cell w AND 0xff) mod 256 = unat (w AND 0xff) mod 256"
  proof -
    let ?c = "char_of (unat (w AND 0xff)) :: char"
    have "w AND 0xff \<le> 0xff" by (rule word_and_le1)
    then have "unat (w AND 0xff) < 256" by (simp add: word_le_nat_alt)
    then have "(of_char ?c :: nat) = unat (w AND 0xff)" by simp
    then have c: "of_char ?c = int (unat (w AND 0xff))" by (metis of_nat_of_char)
    moreover have "(n - 256) mod 256 = n mod 256" for n :: int by (simp add: mod_diff_right_eq [symmetric])
    ultimately have "schar ?c mod 256 = int (unat (w AND 0xff)) mod 256" by (simp add: schar_def Let_def)
    moreover have "int (unat (w AND 0xff)) mod 256 = int (unat (w AND 0xff))" by (rule mod_pos_pos_trivial) (use \<open>unat (w AND 0xff) < 256\<close> in linarith)+
    ultimately have "take_bit 8 (schar ?c) = int (unat (w AND 0xff))" unfolding take_bit_eq_mod by simp
    then have "take_bit 8 (word_of_int (schar ?c) :: u16) = word_of_int (int (unat (w AND 0xff)))"
      by (simp only: take_bit_of_int_word)
    then have "take_bit 8 (of_int (schar ?c) :: u16) = of_nat (unat (w AND 0xff))"
      by (simp only: of_int_of_nat_eq)
    moreover have "take_bit 8 (push_bit 8 (ucast VGA_ATTR_WHITE_ON_BLUE) :: u16) = 0" by (simp add: take_bit_push_bit)
    ultimately show ?thesis
      by (simp add: bsod_cell_def encode_char_attr_def m flip: take_bit_eq_mask)
  qed
  then have "char_of (unat (bsod_cell w AND 0xff)) = (char_of (unat (w AND 0xff)) :: char)"
    by (metis char_of_mod_256)
  moreover have "bsod_cell v = bsod_cell w" if "char_of (unat (v AND 0xff)) = (char_of (unat (w AND 0xff)) :: char)" for v
    by (simp only: bsod_cell_def that)
  ultimately show ?thesis by blast
qed

definition blue :: "terminal \<Rightarrow> terminal" where
  "blue t = (\<lambda>k. if k < SCREEN then bsod_cell (fst t k) else 0, snd t)"

lemma paint_cells:
  "fold (\<lambda>j v. v\<lparr>vga_mem := (vga_mem v)(f j := bsod_cell (vga_mem v (f j)))\<rparr>) js v
    = v\<lparr>vga_mem := (\<lambda>a. if a \<in> f ` set js then bsod_cell (vga_mem v a) else vga_mem v a)\<rparr>"
  by (induction js arbitrary: v) (auto simp: fun_eq_iff bsod_cell_idem)

lemma vga_set_bsod_mem:
  "vga_set_bsod v = v\<lparr>vga_mem := (\<lambda>a. if \<exists>i < VGA_NUM_COLS. \<exists>j < VGA_NUM_ROWS. a = xy2idx (of_nat i) (of_nat j)
     then bsod_cell (vga_mem v a) else vga_mem v a)\<rparr>"
proof -
  let ?cell = "\<lambda>i j. xy2idx (of_nat i) (of_nat j)"
  have "fold (\<lambda>i. fold (\<lambda>j v. v\<lparr>vga_mem := (vga_mem v)(?cell i j := bsod_cell (vga_mem v (?cell i j)))\<rparr>) [0..<VGA_NUM_ROWS]) cols v
    = v\<lparr>vga_mem := (\<lambda>a. if \<exists>i \<in> set cols. \<exists>j < VGA_NUM_ROWS. a = ?cell i j then bsod_cell (vga_mem v a) else vga_mem v a)\<rparr>" for cols v
  proof (induction cols arbitrary: v)
    case (Cons i cols)
    have twice: "v\<lparr>vga_mem := f, vga_mem := g\<rparr> = v\<lparr>vga_mem := h\<rparr>" if "g = h" for f g h using that by simp
    show ?case unfolding fold_simps Cons.IH unfolding paint_cells
      by (rule twice) (auto simp: fun_eq_iff bsod_cell_idem)
  qed simp
  from this [of "[0..<VGA_NUM_COLS]" v] show ?thesis by (simp add: vga_set_bsod_def Let_def bsod_cell_def Bex_def)
qed

lemma bsod_terminal:
  assumes "on_screen c"
  shows "terminal_of (c\<lparr>con_vga := vga_set_bsod (con_vga c)\<rparr>) = blue (terminal_of c)"
proof -
  have "\<exists>i < VGA_NUM_COLS. \<exists>j < VGA_NUM_ROWS. of_nat k = xy2idx (of_nat i) (of_nat j)" if "k < SCREEN" for k
  proof -
    have "k mod 80 < 80" "k div 80 < 25" using that by (simp_all add: SCREEN_def less_mult_imp_div_less)
    moreover have "80 * (k div 80) + k mod 80 = k" by (simp only: mult_div_mod_eq)
    then have "(of_nat k :: u16) = xy2idx (of_nat (k mod 80)) (of_nat (k div 80))"
      using xy2idx_nat [of "k div 80" "k mod 80"] that by (simp add: SCREEN_def)
    moreover have "VGA_NUM_COLS = 80" "VGA_NUM_ROWS = 25" by (simp_all add: vga_consts)
    ultimately show ?thesis by metis
  qed
  then show ?thesis by (auto simp: terminal_of_def blue_def vga_set_bsod_mem fun_eq_iff)
qed

text \<open>A message on the blue screen: every cell keeps its character and turns blue, the message is written in red at the
  cursor, and the green of the console is back for what follows.\<close>

lemma puts_err_on_blue:
  assumes "c_string buf t" "on_screen c" "ch_bs \<notin> set t" "ch_cr \<notin> set t"
  obtains c' where "console_puts_err (Some buf) (c\<lparr>con_vga := vga_set_bsod (con_vga c)\<rparr>) = Some (int (length t), c')"
    "terminal_of c' = fold (term_char ATTR_RED_ON_BLUE) t (blue (terminal_of c))" "on_screen c'" "con_attr c' = con_attr c"
proof -
  let ?c = "c\<lparr>con_vga := vga_set_bsod (con_vga c), con_attr := ATTR_RED_ON_BLUE\<rparr>"
  have on: "on_screen ?c" using assms(2) by (simp add: on_screen_def)
  have attr: "terminal_of (s\<lparr>con_attr := a\<rparr>) = terminal_of s" for s a by (simp add: terminal_of_def fun_eq_iff)
  have tm: "terminal_of ?c = blue (terminal_of c)" unfolding attr by (rule bsod_terminal [OF assms(2)])
  obtain c' where c': "console_puts (Some buf) ?c = Some (int (length t), c')"
    "displays ?c (fold (term_char (con_attr ?c)) t (terminal_of ?c)) c'"
    using console_puts_displays [OF assms(1) on assms(3,4)] by blast
  then have "console_puts_err (Some buf) (c\<lparr>con_vga := vga_set_bsod (con_vga c)\<rparr>) = Some (int (length t), c'\<lparr>con_attr := con_attr c\<rparr>)"
    by (simp add: console_puts_err_def)
  moreover have "terminal_of (c'\<lparr>con_attr := con_attr c\<rparr>) = fold (term_char ATTR_RED_ON_BLUE) t (blue (terminal_of c))"
    unfolding attr using c'(2) tm by (simp add: displays_def)
  ultimately show thesis using c'(2) by (intro that [of "c'\<lparr>con_attr := con_attr c\<rparr>"]) (simp_all add: displays_def on_screen_def)
qed

section \<open>A refused image\<close>

text \<open>The image has not the header of an executable for this machine, or its segments need too much memory.\<close>

definition too_large :: "u8 list \<Rightarrow> bool" where
  "too_large img \<longleftrightarrow> phdr_off img (img_phnum img) \<le> length img \<and> mem_load_addr + le32 img 28 \<noteq> 0 \<and>
     KERNEL_MEMSZ_MAX < sum_list (map seg_memsz (segs_from img 0))"

definition refused :: "u8 list \<Rightarrow> bool" where
  "refused img \<longleftrightarrow> 52 \<le> length img \<and> length img \<le> 1048576 \<and> (\<not> header_ok img \<or> too_large img)"

definition refusal :: "u8 list \<Rightarrow> char list" where
  "refusal img =
     (case if header_ok img then Unknown_error else header_error img Unknown_error of
        Invalid_magic \<Rightarrow> ''invalid ELF magin number''
      | Not_32bit \<Rightarrow> ''not 32-bit''
      | Not_little_endian \<Rightarrow> ''not little-endian''
      | Not_386 \<Rightarrow> ''not 386''
      | Not_executable \<Rightarrow> ''not executable''
      | _ \<Rightarrow> ''required '' @ number_text (sum_list (map seg_memsz (segs_from img 0))) 10 (-1) (-1) SIGN @ '' bytes, only ''
             @ number_text KERNEL_MEMSZ_MAX 10 (-1) (-1) SIGN @ '' supported'')"

definition refusal_text :: "u8 list \<Rightarrow> char list" where
  "refusal_text img = ''error while mapping ELF: '' @ refusal img @ [LF]"

lemma map_kernel_refuses:
  assumes "refused img" "boot_space m0 m" "\<forall>k < 1048576. \<not> in_tables m0 (mem_load_addr + of_nat k)"
    and "ld_mmu s = m\<lparr>ram := overlay mem_load_addr img r\<rparr>"
  obtains err where "map_kernel s = elf_error_screen (s\<lparr>ld_elf_error := err, ld_mmu := ld_mmu s, ld_jmp_addr := 0\<rparr>)"
    "err = (if header_ok img then Too_much_memory (sum_list (map seg_memsz (segs_from img 0))) else header_error img (ld_elf_error s))"
proof -
  let ?q = "\<lambda>k. mem_load_addr + of_nat k :: u32"
  have len: "52 \<le> length img" "length img \<le> 1048576" using assms(1) by (simp_all add: refused_def)
  have image: "pself.image_in ?q mem_load_addr img (ld_mmu s)" unfolding assms(4) by (rule loaded_image [OF len(2) assms(2,3)])
  have nz: "mem_load_addr \<noteq> 0" by (simp add: mem_load_addr_def)
  have "kernel_elf32_map mem_load_addr (ld_elf_error s) (ld_mmu s) =
    Some (0, (if header_ok img then Too_much_memory (sum_list (map seg_memsz (segs_from img 0))) else header_error img (ld_elf_error s)), ld_mmu s)"
  proof (cases "header_ok img")
    case True
    with assms(1) have big: "phdr_off img (img_phnum img) \<le> length img" "mem_load_addr + le32 img 28 \<noteq> 0"
      "KERNEL_MEMSZ_MAX < sum_list (map seg_memsz (segs_from img 0))" by (simp_all add: refused_def too_large_def)
    show ?thesis
      using pself.elf32_map_image(1) [OF image len(1) big(1) nz big(2) True big(3)] True by (simp add: kernel_elf32_map_def)
  next
    case False
    then show ?thesis using pself.elf32_map_rejected [OF image len(1) nz] by (simp add: kernel_elf32_map_def)
  qed
  then show thesis by (intro that) (simp_all add: map_kernel_def Let_def)
qed

text \<open>The message of the error that was left.\<close>

lemma refusal_message:
  assumes "length dyn = 128" "52 \<le> length img"
  obtains t where "elf32_strerror dyn (if header_ok img then Too_much_memory (sum_list (map seg_memsz (segs_from img 0))) else header_error img err) = Some t"
    "c_string t (refusal img)" "printable (refusal img)" "length (refusal img) \<le> 80"
proof (cases "header_ok img")
  case True
  let ?a = "number_text (sum_list (map seg_memsz (segs_from img 0))) 10 (-1) (-1) SIGN" and ?b = "number_text KERNEL_MEMSZ_MAX 10 (-1) (-1) SIGN"
  let ?t = "''required '' @ ?a @ '' bytes, only '' @ ?b @ '' supported''"
  have fine: "printable (number_text n 10 (-1) (-1) SIGN)" "length (number_text n 10 (-1) (-1) SIGN) \<le> 19" for n
    using number_text_fine [of 10 "-1" SIGN n] by (simp_all add: has_def flag_defs)
  have r: "refusal img = ?t" by (simp add: refusal_def True)
  have t: "printable ?t" "length ?t \<le> 80"
    using fine [of KERNEL_MEMSZ_MAX] fine [of "sum_list (map seg_memsz (segs_from img 0))"] by (simp_all add: printable_def ch_defs)
  have "kvsprintf (''required %d bytes, only %d supported'' @ [NUL]) [Arg_int (sum_list (map seg_memsz (segs_from img 0))), Arg_int KERNEL_MEMSZ_MAX] = Some ?t"
    by (simp add: run_format)
  then have "elf32_strerror dyn (Too_much_memory (sum_list (map seg_memsz (segs_from img 0)))) = Some (?t @ NUL # drop (Suc (length ?t)) dyn)"
    using t(2) assms(1) by (simp add: elf32_strerror_def ksprintf_def)
  moreover have "c_string (?t @ NUL # drop (Suc (length ?t)) dyn) ?t" using t(1) by (auto simp: c_string_def printable_def)
  ultimately show thesis using t True by (intro that) (simp_all only: r if_True)
next
  case False
  have "header_ok img" if "take 4 img = [0x7f, 0x45, 0x4c, 0x46]" "le16 img 42 = 32" "le16 img 46 = 40" "img ! 4 = 1" "img ! 5 = 1"
      "le16 img 18 = 3" "le16 img 16 = 2"
    using that assms(2) by (simp add: header_ok_def take6 take4)
  with False have "header_error img err = header_error img Unknown_error"
    "header_error img Unknown_error \<in> {Invalid_magic, Not_32bit, Not_little_endian, Not_386, Not_executable}"
    unfolding header_error_def by auto
  with False show thesis
    by (intro that [of "refusal img @ [NUL]"]) (auto simp: refusal_def elf32_strerror_def c_string_def printable_def ch_defs)
qed

text \<open>Printing on a screen of any content.\<close>

lemma say_writes:
  assumes "on_screen (con (ld_mach s))" "kprintf fmt args = Some u" "printable u"
  obtains c where "say fmt args s = Some (True, with_con c s)"
    "terminal_of c = fold (term_char (con_attr (con (ld_mach s)))) u (terminal_of (con (ld_mach s)))"
proof -
  have u: "c_string (u @ [NUL]) u" "ch_bs \<notin> set u" "ch_cr \<notin> set u"
    using assms(3) by (simp_all add: printable_def c_string_def)
  from console_puts_displays [OF u(1) assms(1) u(2,3)] obtain c where
    "console_puts (Some (u @ [NUL])) (con (ld_mach s)) = Some (int (length u), c)"
    "displays (con (ld_mach s)) (fold (term_char (con_attr (con (ld_mach s)))) u (terminal_of (con (ld_mach s)))) c"
    by blast
  then show thesis
    by (intro that [of c]) (use assms(2) in \<open>simp_all add: say_def with_con_def displays_def\<close>)
qed

lemma error_screen_shows:
  assumes "elf32_strerror (ld_dyn_str_error s) (ld_elf_error s) = Some t" "c_string t r" "printable r" "length r \<le> 80"
    and "length (ld_str_error s) = 128" "on_screen (con (ld_mach s))"
  obtains s' where "elf_error_screen s = Some (False, s')" "ld_mmu s' = ld_mmu s" "on_screen (con (ld_mach s'))"
    "con_attr (con (ld_mach s')) = con_attr (con (ld_mach s))"
    "terminal_of (con (ld_mach s')) = fold (term_char ATTR_RED_ON_BLUE) (''error while mapping ELF: '' @ r @ [LF]) (blue (terminal_of (con (ld_mach s))))"
proof -
  let ?t = "''error while mapping ELF: '' @ r @ [LF]" and ?c = "con (ld_mach s)"
  let ?str = "?t @ NUL # drop (Suc (length ?t)) (ld_str_error s)"
  have "kvsprintf (''error while mapping ELF: %s'' @ [LF, NUL]) [Arg_str (Some t)] = Some ?t"
    using assms(2) by (simp add: run_format)
  then have str: "ksprintf (ld_str_error s) (''error while mapping ELF: %s'' @ [LF, NUL]) [Arg_str (Some t)] = Some ?str"
    using assms(4,5) by (simp add: ksprintf_def)
  have "printable ?t" using assms(3) by (auto simp: printable_def ch_defs LF_def)
  then have pr: "c_string ?str ?t" "ch_bs \<notin> set ?t" "ch_cr \<notin> set ?t" unfolding printable_def c_string_def by auto
  obtain c' where c': "console_puts_err (Some ?str) (?c\<lparr>con_vga := vga_set_bsod (con_vga ?c)\<rparr>) = Some (int (length ?t), c')"
    "terminal_of c' = fold (term_char ATTR_RED_ON_BLUE) ?t (blue (terminal_of ?c))" "on_screen c'" "con_attr c' = con_attr ?c"
    by (rule puts_err_on_blue [OF pr(1) assms(6) pr(2,3)])
  have "elf_error_screen s = Some (False, set_mach ((ld_mach s)\<lparr>con := c'\<rparr>) s\<lparr>ld_str_error := ?str\<rparr>)"
    unfolding elf_error_screen_def assms(1) option.case str Let_def c'(1) by simp
  then show thesis by (rule that) (use c' in simp_all)
qed

text \<open>The steps before the mapping leave the message buffers of the ELF loader alone.\<close>

definition buffers_ready :: "'d loader \<Rightarrow> bool" where
  "buffers_ready s \<longleftrightarrow> length (ld_dyn_str_error s) = 128 \<and> length (ld_str_error s) = 128"

lemma buffers_simps [simp]:
  "buffers_ready (set_mach m s) = buffers_ready s" "buffers_ready (set_fat fs s) = buffers_ready s"
  "buffers_ready (s\<lparr>ld_mmu := p\<rparr>) = buffers_ready s" "buffers_ready (s\<lparr>ld_ticks := k\<rparr>) = buffers_ready s"
  "buffers_ready (s\<lparr>ld_timers := ts\<rparr>) = buffers_ready s" "buffers_ready (s\<lparr>ld_elf_error := e\<rparr>) = buffers_ready s"
  "buffers_ready (s\<lparr>ld_jmp_addr := a\<rparr>) = buffers_ready s"
  by (simp_all add: buffers_ready_def set_mach_def set_fat_def Let_def)

lemma say_buffersD: "say fmt args s = Some (ok, s') \<Longrightarrow> buffers_ready s \<Longrightarrow> buffers_ready s'"
  by (auto simp: say_def split: option.splits)

lemma steps_buffers:
  "f \<in> set (start_up pf @ paging_steps pf @ hdd_steps pf @ [say_file_size pf, load_file pf]) \<Longrightarrow> leads buffers_ready f buffers_ready"
  by (auto simp: leads_def start_up_def paging_steps_def hdd_steps_def interrupts_off_def start_interrupts_def start_pit_def
      start_console_def start_paging_def start_hdd_def say_file_size_def load_file_def Let_def case_prod_beta
      split: option.splits if_splits dest!: say_buffersD)

lemma run_buffers:
  assumes "run_steps fs s = Some (ok, s')" "buffers_ready s"
    and "set fs \<subseteq> set (start_up pf @ paging_steps pf @ hdd_steps pf @ [say_file_size pf, load_file pf])"
  shows "buffers_ready s'"
proof -
  have "leads buffers_ready (run_steps fs) buffers_ready"
    using steps_buffers assms(3) by (intro leads_run) blast
  with assms(1,2) show ?thesis unfolding leads_def by blast
qed

text \<open>The steps from the mounted volume to the label \<open>error\<close>.\<close>

lemma load_steps_refused:
  assumes "mounted (pf_io pf) view D ident (ld_fat s)" "holds_file D ident FILENAME img" "refused img"
    and "boot_space m0 (ld_mmu s)" "\<forall>k < 1048576. \<not> in_tables m0 (mem_load_addr + of_nat k)"
    and "shows_text t (con (ld_mach s))" "buffers_ready s"
  obtains s' where "run_steps (load_steps pf) s = Some (False, s')"
    "ld_mmu s' = (ld_mmu s)\<lparr>ram := overlay mem_load_addr img (ram (ld_mmu s))\<rparr>" "on_screen (con (ld_mach s'))"
    "con_attr (con (ld_mach s')) = ATTR_GREEN_ON_BLACK"
    "terminal_of (con (ld_mach s')) = fold (term_char ATTR_RED_ON_BLUE) (refusal_text img)
      (blue (fold (term_char ATTR_GREEN_ON_BLACK) (t @ read_text img) (\<lambda>k. if k < SCREEN then blank_cell else 0, 0)))"
proof -
  have len: "52 \<le> length img" "length img \<le> 1048576" using assms(3) by (simp_all add: refused_def)
  obtain s1 where s1: "\<forall>fs. run_steps (say_file_size pf # load_file pf # fs) s = run_steps fs s1"
    "shows_text (t @ read_text img) (con (ld_mach s1))" "ld_mmu s1 = (ld_mmu s)\<lparr>ram := overlay mem_load_addr img (ram (ld_mmu s))\<rparr>"
    by (rule boot_reads [OF assms(1,2) len(2) assms(4-6)])
  have bufs: "buffers_ready s1"
    by (rule run_buffers [where fs = "[say_file_size pf, load_file pf]" and pf = pf, OF _ assms(7)]) (use s1(1) [rule_format, of "[]"] in simp_all)
  obtain err where err: "map_kernel s1 = elf_error_screen (s1\<lparr>ld_elf_error := err, ld_mmu := ld_mmu s1, ld_jmp_addr := 0\<rparr>)"
    "err = (if header_ok img then Too_much_memory (sum_list (map seg_memsz (segs_from img 0))) else header_error img (ld_elf_error s1))"
    by (rule map_kernel_refuses [OF assms(3-5) s1(3)])
  let ?s = "s1\<lparr>ld_elf_error := err, ld_mmu := ld_mmu s1, ld_jmp_addr := 0\<rparr>"
  have dyn: "length (ld_dyn_str_error s1) = 128" using bufs by (simp add: buffers_ready_def)
  obtain m where m: "elf32_strerror (ld_dyn_str_error ?s) (ld_elf_error ?s) = Some m" "c_string m (refusal img)"
      "printable (refusal img)" "length (refusal img) \<le> 80"
    using refusal_message [OF dyn len(1), of "ld_elf_error s1"] err(2) by auto
  have str: "length (ld_str_error ?s) = 128" "on_screen (con (ld_mach ?s))"
    using bufs s1(2) by (simp_all add: buffers_ready_def shows_text_def)
  obtain s2 where s2: "elf_error_screen ?s = Some (False, s2)" "ld_mmu s2 = ld_mmu ?s" "on_screen (con (ld_mach s2))"
    "con_attr (con (ld_mach s2)) = con_attr (con (ld_mach ?s))"
    "terminal_of (con (ld_mach s2)) = fold (term_char ATTR_RED_ON_BLUE) (''error while mapping ELF: '' @ refusal img @ [LF]) (blue (terminal_of (con (ld_mach ?s))))"
    by (rule error_screen_shows [OF m str])
  show thesis
  proof (rule that [of s2])
    show "run_steps (load_steps pf) s = Some (False, s2)" using s1(1) err(1) s2(1) by (simp add: load_steps_def)
  qed (use s1(2,3) s2(2-5) in \<open>simp_all add: shows_text_def refusal_text_def\<close>)
qed

section \<open>Properties\<close>

text \<open>C15. A missing kernel. The drive and the volume are in order as for a start, but the root directory ends without
  an entry for \<open>kernel.elf\<close>. Then \<open>main\<close> reports the size \<open>-1\<close> and the failed load and goes to its label \<open>error\<close>.
  It has written nothing to memory, although the call of \<open>fat16_load\<close> had the load buffer, paging is on with the
  translation of the start, interrupts are off, and the screen shows exactly these messages.\<close>

theorem boot_reports_missing_kernel:
  assumes "layout_ok (ld_mmu s)" "\<forall>k < 1048576. \<not> in_tables (ld_mmu s) (mem_load_addr + of_nat k)"
    and "statics_ok (ld_fat s)" "length (pf_stack1 pf) = ATA_SECTOR_SIZE" "length (pf_stack2 pf) = ATA_SECTOR_SIZE"
    and "drive_ok (pf_io pf) view D ident" "lacks_file D ident FILENAME"
  shows "\<exists>s'. boot pf s = Some (False, s') \<and> ram (ld_mmu s') = ram (ld_mmu s) \<and> paging_on (ld_mmu s') \<and>
    (\<forall>u. vaddr2pd_idx u \<noteq> 0x3ff \<longrightarrow> mmu_walk (ld_mmu s') u = boot_walk u) \<and> \<not> interrupts_on s' \<and>
    shows_text (first_text (pf_cr0 pf) @ second_text @ missing_text @ error_text) (con (ld_mach s'))"
proof -
  obtain s2 where s2: "\<forall>fs. run_steps (start_up pf @ paging_steps pf @ hdd_steps pf @ fs) s = run_steps fs s2"
    "shows_text (first_text (pf_cr0 pf) @ second_text) (con (ld_mach s2))" "boot_space (ld_mmu s) (ld_mmu s2)"
    "ram (ld_mmu s2) = ram (ld_mmu s)" "mounted (pf_io pf) view D ident (ld_fat s2)"
    by (rule boot_mounted [OF assms(1,3-6)]) (use assms(7) in \<open>simp add: lacks_file_def\<close>)
  obtain s3 where s3: "run_steps (load_steps pf) s2 = Some (False, s3)"
    "shows_text ((first_text (pf_cr0 pf) @ second_text) @ missing_text) (con (ld_mach s3))" "ld_mmu s3 = ld_mmu s2"
    by (rule load_steps_missing [OF s2(5) assms(7) s2(3) assms(2) s2(2)])
  obtain s4 where s4: "say ([LF] @ ''*** ERROR! ***'' @ [LF, NUL]) [] s3 = Some (True, s4)"
    "shows_text (((first_text (pf_cr0 pf) @ second_text) @ missing_text) @ error_text) (con (ld_mach s4))" "ld_mmu s4 = ld_mmu s3"
    unfolding error_text_def by (rule say_step [OF s3(2) main_texts(10)]) (simp_all only: printables)
  have run: "boot pf s = Some (False, s4)" using s2(1) s3(1) s4(1) by (simp add: boot_def)
  moreover have "\<not> interrupts_on s4" using boot_asleep [OF run] by (simp add: asleep_def)
  moreover have "ld_mmu s4 = ld_mmu s2" using s4(3) s3(3) by simp
  moreover have "paging_on (ld_mmu s2)" "\<forall>u. vaddr2pd_idx u \<noteq> 0x3ff \<longrightarrow> mmu_walk (ld_mmu s2) u = boot_walk u"
    using s2(3) by (simp_all add: boot_space_def mmu_self_def mmu_ready_def)
  ultimately show ?thesis using s4(2) s2(4) by auto
qed

text \<open>The disk of the start with an empty root directory.\<close>

definition empty_sectors :: "nat \<Rightarrow> u8 list" where
  "empty_sectors n = boot_sectors (if n = 65 then 1 else n)"

lemma empty_root: "lacks_file empty_sectors sample_ident FILENAME"
proof -
  have z: "empty_sectors 0 = boot_sectors 0" by (simp add: empty_sectors_def)
  have in0: "in_part0 empty_sectors sample_ident = in_part0 boot_sectors sample_ident"
    by (simp add: in_part0_def z fun_eq_iff)
  have "part0 empty_sectors 0 = part0 boot_sectors 0"
    by (simp add: part0_def z boot_partition empty_sectors_def)
  then have vol: "volume_at (part0 empty_sectors 0) = volume_at (part0 boot_sectors 0)" by simp
  let ?v = "volume_at (part0 boot_sectors 0)"
  have "part0 empty_sectors 2 = boot_sectors 1"
    by (simp add: part0_def z boot_partition empty_sectors_def)
  then have e: "root_entry (part0 empty_sectors) ?v 0 = replicate 32 0"
    by (intro nth_equalityI) (simp_all add: root_entry_def boot_geometry boot_sectors_def sector_of_length sector_of_nth ATA_SECTOR_SIZE_def)
  have "root_entries (part0 empty_sectors) ?v = replicate 32 0 # map (root_entry (part0 empty_sectors) ?v) [1..<128]"
    by (simp add: root_entries_def boot_geometry upt_conv_Cons e)
  then have "dir_search FILENAME (root_entries (part0 empty_sectors) ?v) = Some None"
    by (simp add: dir_entry_is_end_def)
  then show ?thesis
    using boot_file unfolding lacks_file_def holds_file_def holds_volume_def Let_def vol in0 z by simp
qed

theorem boot_reports_missing_kernel_witness:
  "\<exists>s'. boot (sample_platform (model_ata 16 63 4000 empty_sectors sample_ident)) (sample_loader model_view) = Some (False, s') \<and>
     shows_text (first_text 0x80000011 @ second_text @ missing_text @ error_text) (con (ld_mach s'))"
proof -
  let ?io = "model_ata 16 63 4000 empty_sectors sample_ident"
  have p: "pf_io (sample_platform ?io) = ?io" "length (pf_stack1 (sample_platform ?io)) = ATA_SECTOR_SIZE"
    "length (pf_stack2 (sample_platform ?io)) = ATA_SECTOR_SIZE" "pf_cr0 (sample_platform ?io) = 0x80000011"
    by (simp_all add: sample_platform_def)
  have "length (empty_sectors n) = ATA_SECTOR_SIZE" for n by (simp add: empty_sectors_def boot_sectors_length)
  then have "drive_ok ?io (\<lambda>v. v) empty_sectors sample_ident"
    using model_ata_contract [of empty_sectors 16 63 4000 sample_ident] model_ata_identify [OF sample_ident_fields(1), of 16 63 4000 empty_sectors]
    by (simp add: drive_ok_def sample_ident_fields)
  then show ?thesis
    using boot_reports_missing_kernel [where pf = "sample_platform ?io" and view = "\<lambda>v. v" and s = "sample_loader model_view",
        OF sample_loader_ok(1) _ sample_loader_ok(2) p(2,3) _ empty_root, unfolded p(1,4)] sample_loader_ok(3) [of _ model_view] by blast
qed

text \<open>C14. A kernel refused before its first segment is mapped. On a drive and a volume as for a start (a root directory
  of eight clusters among that) the file \<open>kernel.elf\<close> has 52 bytes to 1 MiB, but it is no 32-bit little-endian executable for
  the i386 with the expected table sizes, or its program headers lie in the file and the sizes of its segments sum up,
  modulo 2 to the 32, to more than 1 MiB. Then \<open>main\<close> copies the file to
  2 MiB, writes nothing else to memory and changes no translation, turns the screen blue, shows the reason in red (which
  of the tests failed, or the size that is needed) and goes to its label \<open>error\<close> with interrupts off. A refusal at one of
  the segments is another case: the segments in front of it are loaded and mapped by then.\<close>

theorem boot_shows_refusal:
  assumes "layout_ok (ld_mmu s)" "\<forall>k < 1048576. \<not> in_tables (ld_mmu s) (mem_load_addr + of_nat k)"
    and "statics_ok (ld_fat s)" "length (pf_stack1 pf) = ATA_SECTOR_SIZE" "length (pf_stack2 pf) = ATA_SECTOR_SIZE"
    and "drive_ok (pf_io pf) view D ident" "holds_file D ident FILENAME img" "refused img" "buffers_ready s"
  shows "\<exists>s'. boot pf s = Some (False, s') \<and> ram (ld_mmu s') = overlay mem_load_addr img (ram (ld_mmu s)) \<and>
    (\<forall>u. vaddr2pd_idx u \<noteq> 0x3ff \<longrightarrow> mmu_walk (ld_mmu s') u = boot_walk u) \<and> \<not> interrupts_on s' \<and>
    terminal_of (con (ld_mach s')) = fold (term_char ATTR_GREEN_ON_BLACK) error_text
      (fold (term_char ATTR_RED_ON_BLUE) (refusal_text img)
        (blue (fold (term_char ATTR_GREEN_ON_BLACK) (first_text (pf_cr0 pf) @ second_text @ read_text img)
          (\<lambda>k. if k < SCREEN then blank_cell else 0, 0))))"
proof -
  obtain s2 where s2: "\<forall>fs. run_steps (start_up pf @ paging_steps pf @ hdd_steps pf @ fs) s = run_steps fs s2"
    "shows_text (first_text (pf_cr0 pf) @ second_text) (con (ld_mach s2))" "boot_space (ld_mmu s) (ld_mmu s2)"
    "ram (ld_mmu s2) = ram (ld_mmu s)" "mounted (pf_io pf) view D ident (ld_fat s2)"
    by (rule boot_mounted [OF assms(1,3-6)]) (use assms(7) in \<open>simp add: holds_file_def\<close>)
  have bufs: "buffers_ready s2"
    by (rule run_buffers [where fs = "start_up pf @ paging_steps pf @ hdd_steps pf" and pf = pf, OF _ assms(9)]) (use s2(1) [rule_format, of "[]"] in \<open>simp, auto\<close>)
  obtain s3 where s3: "run_steps (load_steps pf) s2 = Some (False, s3)"
    "ld_mmu s3 = (ld_mmu s2)\<lparr>ram := overlay mem_load_addr img (ram (ld_mmu s2))\<rparr>" "on_screen (con (ld_mach s3))"
    "con_attr (con (ld_mach s3)) = ATTR_GREEN_ON_BLACK"
    "terminal_of (con (ld_mach s3)) = fold (term_char ATTR_RED_ON_BLUE) (refusal_text img)
      (blue (fold (term_char ATTR_GREEN_ON_BLACK) ((first_text (pf_cr0 pf) @ second_text) @ read_text img) (\<lambda>k. if k < SCREEN then blank_cell else 0, 0)))"
    by (rule load_steps_refused [OF s2(5) assms(7,8) s2(3) assms(2) s2(2) bufs])
  obtain c where c: "say ([LF] @ ''*** ERROR! ***'' @ [LF, NUL]) [] s3 = Some (True, with_con c s3)"
    "terminal_of c = fold (term_char (con_attr (con (ld_mach s3)))) error_text (terminal_of (con (ld_mach s3)))"
    unfolding error_text_def by (rule say_writes [OF s3(3) main_texts(10)]) (simp_all only: printables)
  have run: "boot pf s = Some (False, with_con c s3)" using s2(1) s3(1) c(1) by (simp add: boot_def)
  moreover have "\<not> interrupts_on (with_con c s3)" using boot_asleep [OF run] by (simp add: asleep_def)
  moreover have "ld_mmu (with_con c s3) = (ld_mmu s2)\<lparr>ram := overlay mem_load_addr img (ram (ld_mmu s))\<rparr>"
    using s3(2) s2(4) by simp
  moreover have "\<forall>u. vaddr2pd_idx u \<noteq> 0x3ff \<longrightarrow> mmu_walk ((ld_mmu s2)\<lparr>ram := overlay mem_load_addr img (ram (ld_mmu s))\<rparr>) u = boot_walk u"
    using boot_space_ram [OF s2(3)] by (simp add: boot_space_def)
  moreover have "terminal_of c = fold (term_char ATTR_GREEN_ON_BLACK) error_text (fold (term_char ATTR_RED_ON_BLUE) (refusal_text img)
      (blue (fold (term_char ATTR_GREEN_ON_BLACK) (first_text (pf_cr0 pf) @ second_text @ read_text img) (\<lambda>k. if k < SCREEN then blank_cell else 0, 0))))"
    using s3(4,5) c(2) by simp
  ultimately show ?thesis by auto
qed

text \<open>The disk of the start whose kernel claims to be a 64-bit one.\<close>

definition bad_sectors :: "nat \<Rightarrow> u8 list" where
  "bad_sectors n = (if n = 73 then (boot_sectors n)[4 := 2] else boot_sectors n)"

lemma bad_file: "holds_file bad_sectors sample_ident FILENAME (sample_image[4 := 2])"
proof -
  let ?v = "volume_at (part0 boot_sectors 0)" and ?bad = "part0 bad_sectors" and ?good = "part0 boot_sectors"
  have z: "bad_sectors 0 = boot_sectors 0" by (simp add: bad_sectors_def)
  have in0: "in_part0 bad_sectors sample_ident = in_part0 boot_sectors sample_ident" by (simp add: in_part0_def z fun_eq_iff)
  have same: "?bad x = ?good x" if "unat (63 + x :: u32) \<noteq> 73" for x
    using that by (simp add: part0_def z boot_partition bad_sectors_def)
  have ten: "?bad 10 = (?good 10)[4 := 2]" "?good 10 = boot_sectors 73"
    by (simp_all add: part0_def z boot_partition bad_sectors_def)
  have vol: "volume_at (?bad 0) = ?v" using same [of 0] by simp
  have root: "root_entry ?bad ?v k = root_entry ?good ?v k" if "k < 128" for k
  proof -
    have "k div 16 < 8" using that by simp
    then have "unat (63 + (2 + of_nat (k div 16)) :: u32) = 65 + k div 16" by (simp add: unat_of_nat_u32 unat_word_ariths)
    with \<open>k div 16 < 8\<close> show ?thesis by (simp add: root_entry_def boot_geometry same)
  qed
  have roots: "root_entries ?bad ?v = root_entries ?good ?v"
    using root by (simp add: root_entries_def boot_geometry)
  from boot_file obtain e where e: "dir_search FILENAME (root_entries ?good ?v) = Some (Some e)" "unat (de_size 0 e) = 86"
      "de_starting_cluster 0 e = 2" "file_readable ?good (in_part0 boot_sectors sample_ident) ?v 2 86"
      "holds_volume boot_sectors sample_ident"
    using boot_found by (auto simp: holds_file_def Let_def sample_image_length de_starting_cluster_def le16_def boot_entry_def)
  have sec: "file_sector D ?v 2 i = 10" if "i < 86" for i D
    using that by (simp add: file_sector_def boot_geometry cluster_sector_def)
  have "map (file_byte ?bad ?v 2) [0..<86] = sample_image[4 := 2]"
  proof (rule nth_equalityI)
    fix i assume "i < length (map (file_byte ?bad ?v 2) [0..<86])"
    then have i: "i < 86" by simp
    then show "map (file_byte ?bad ?v 2) [0..<86] ! i = sample_image[4 := 2] ! i"
      by (simp add: file_byte_def sec ten nth_list_update boot_sectors_length ATA_SECTOR_SIZE_def sample_image_length)
        (simp add: boot_sectors_def sector_of_nth)
  qed (simp add: sample_image_length)
  moreover have "file_readable ?bad (in_part0 boot_sectors sample_ident) ?v 2 86"
    using e(4) by (simp add: file_readable_def sec boot_geometry)
  moreover have "holds_volume bad_sectors sample_ident"
    using e(5) unfolding holds_volume_def Let_def vol in0 z .
  ultimately show ?thesis
    unfolding holds_file_def Let_def vol in0 roots using e(1-3) by (simp add: boot_geometry sample_image_length)
qed

theorem boot_shows_refusal_witness:
  "\<exists>s'. boot (sample_platform (model_ata 16 63 4000 bad_sectors sample_ident)) (sample_loader model_view) = Some (False, s') \<and>
     terminal_of (con (ld_mach s')) = fold (term_char ATTR_GREEN_ON_BLACK) error_text
      (fold (term_char ATTR_RED_ON_BLUE) (''error while mapping ELF: not 32-bit'' @ [LF])
        (blue (fold (term_char ATTR_GREEN_ON_BLACK) (first_text 0x80000011 @ second_text @ read_text (sample_image[4 := 2]))
          (\<lambda>k. if k < SCREEN then blank_cell else 0, 0))))"
proof -
  let ?io = "model_ata 16 63 4000 bad_sectors sample_ident" and ?img = "sample_image[4 := 2]"
  have p: "pf_io (sample_platform ?io) = ?io" "length (pf_stack1 (sample_platform ?io)) = ATA_SECTOR_SIZE"
    "length (pf_stack2 (sample_platform ?io)) = ATA_SECTOR_SIZE" "pf_cr0 (sample_platform ?io) = 0x80000011"
    by (simp_all add: sample_platform_def)
  have "length (bad_sectors n) = ATA_SECTOR_SIZE" for n by (simp add: bad_sectors_def boot_sectors_length)
  then have drive: "drive_ok ?io (\<lambda>v. v) bad_sectors sample_ident"
    using model_ata_contract [of bad_sectors 16 63 4000 sample_ident] model_ata_identify [OF sample_ident_fields(1), of 16 63 4000 bad_sectors]
    by (simp add: drive_ok_def sample_ident_fields)
  have hdr: "\<not> header_ok ?img" "header_error ?img Unknown_error = Not_32bit"
    by (simp_all add: header_ok_def header_error_def sample_image_def le16_def)
  then have img: "refused ?img" by (simp add: refused_def sample_image_length)
  have msg: "refusal_text ?img = ''error while mapping ELF: not 32-bit'' @ [LF]"
    unfolding refusal_text_def refusal_def using hdr by simp
  have bufs: "buffers_ready (sample_loader model_view)" by (simp add: buffers_ready_def sample_loader_def)
  show ?thesis
    using boot_shows_refusal [where pf = "sample_platform ?io" and view = "\<lambda>v. v" and s = "sample_loader model_view",
        OF sample_loader_ok(1) _ sample_loader_ok(2) p(2,3) _ bad_file img bufs, unfolded p(1,4) msg] drive sample_loader_ok(3) [of _ model_view]
    by blast
qed

text \<open>C37. A processor exception. The handler paints the characters on the screen white on blue where they are and
  writes its message in red at the cursor.\<close>

theorem exception_handler_screen:
  assumes "on_screen c"
  shows "\<exists>c'. exception_handler c = Some c' \<and>
    terminal_of c' = fold (term_char ATTR_RED_ON_BLUE) ''hardware exception!'' (blue (terminal_of c))"
proof -
  have s: "c_string (''hardware exception!'' @ [NUL]) ''hardware exception!''"
    "ch_bs \<notin> set ''hardware exception!''" "ch_cr \<notin> set ''hardware exception!''"
    by (simp_all add: c_string_def ch_defs)
  obtain c' where "console_puts_err (Some (''hardware exception!'' @ [NUL])) (c\<lparr>con_vga := vga_set_bsod (con_vga c)\<rparr>) =
      Some (int (length ''hardware exception!''), c')"
    "terminal_of c' = fold (term_char ATTR_RED_ON_BLUE) ''hardware exception!'' (blue (terminal_of c))"
    by (rule puts_err_on_blue [OF s(1) assms s(2,3)])
  then show ?thesis unfolding exception_handler_def by simp
qed

theorem exception_handler_screen_witness:
  "\<exists>c'. exception_handler blank_console = Some c' \<and>
    terminal_of c' = fold (term_char ATTR_RED_ON_BLUE) ''hardware exception!'' (blue (terminal_of blank_console))"
  using exception_handler_screen [of blank_console] by (simp add: on_screen_def blank_console_def vga_consts)

end
