(* ===== verification/Boot_Rescue.thy ===== *)
theory Boot_Rescue
  imports Boot_Errors Clear_Key
begin

text \<open>
  What is left of the rescue shell after an error of \<open>main\<close>: the screen stays in order on every way to the label
  \<open>error\<close>, the shell greets and prompts, and then the processor halts with interrupts disabled.
\<close>

section \<open>The screen on the way to the error\<close>

text \<open>The cursor is on the screen and the colour is the green of the start.\<close>

definition tidy :: "'d loader \<Rightarrow> bool" where
  "tidy s \<longleftrightarrow> on_screen (con (ld_mach s)) \<and> con_attr (con (ld_mach s)) = ATTR_GREEN_ON_BLACK"

lemma tidy_simps [simp]:
  "tidy (s\<lparr>ld_mmu := m\<rparr>) = tidy s" "tidy (set_fat fs s) = tidy s" "tidy (s\<lparr>ld_elf_error := e\<rparr>) = tidy s"
  "tidy (s\<lparr>ld_jmp_addr := a\<rparr>) = tidy s"
  by (simp_all add: tidy_def)

text \<open>A call of \<open>kprintf\<close> keeps the screen in order when its text is printable.\<close>

definition prints_fine :: "char list \<Rightarrow> karg list \<Rightarrow> bool" where
  "prints_fine fmt args \<longleftrightarrow> (\<forall>u. kprintf fmt args = Some u \<longrightarrow> printable u)"

lemma say_tidy:
  assumes "prints_fine fmt args"
  shows "leads tidy (say fmt args) tidy"
  unfolding leads_def
proof (intro allI impI)
  fix s ok s' assume s: "tidy s" "say fmt args s = Some (ok, s')"
  from s(2) obtain u where u: "kprintf fmt args = Some u" by (auto simp: say_def split: option.splits)
  then have "printable u" using assms by (simp add: prints_fine_def)
  then have p: "c_string (u @ [NUL]) u" "ch_bs \<notin> set u" "ch_cr \<notin> set u"
    by (simp_all add: printable_def c_string_def)
  have on: "on_screen (con (ld_mach s))" using s(1) by (simp add: tidy_def)
  from console_puts_displays [OF p(1) on p(2,3)] s u show "tidy s'"
    by (auto simp: say_def tidy_def displays_def same_rest_def)
qed

lemma say_tidyD: "say fmt args s = Some (ok, s') \<Longrightarrow> tidy s \<Longrightarrow> prints_fine fmt args \<Longrightarrow> tidy s'"
  using say_tidy unfolding leads_def by blast

lemma decimal_fine: "printable (number_text n 10 (-1) (-1) SIGN)" "printable (number_text n 16 (-1) (-1) SMALL)"
  using number_text_fine(1) [of 10 "-1" SIGN n] number_text_fine(1) [of 16 "-1" SMALL n] by (simp_all add: has_def flag_defs)

lemma main_prints_fine:
  "prints_fine (''kboot86'' @ [LF, NUL]) []" "prints_fine (''initializing paging...'' @ [NUL]) []"
  "prints_fine (''ok'' @ [LF, NUL]) []" "prints_fine (''CR0: %08x'' @ [LF, NUL]) [Arg_int n]"
  "prints_fine (''initializing hdd...'' @ [NUL]) []" "prints_fine ([LF] @ ''*** ERROR! ***'' @ [LF, NUL]) []"
  "prints_fine (''jmp addr: %x'' @ [LF, NUL]) [Arg_int n]" "prints_fine (''vaddr: %x => paddr: %x'' @ [LF, NUL]) [Arg_int n, Arg_int m]"
  unfolding prints_fine_def main_texts by (simp_all only: option.inject printables simp_thms)

lemma number_prints_fine:
  "prints_fine (''file size: %d'' @ [LF, NUL]) [Arg_int n]" "prints_fine (''read: %d bytes'' @ [LF, NUL]) [Arg_int n]"
  using decimal_fine(1) [of n] by (auto simp: prints_fine_def run_format printable_def ch_defs)

lemma missing_prints_fine: "prints_fine (''error while loading file %s'' @ [LF, NUL]) [Arg_str (Some FILENAME)]"
proof -
  have "c_string FILENAME (''kernel'' @ CHR ''.'' # ''elf'')" by (simp add: FILENAME_def c_string_def)
  then show ?thesis by (auto simp: prints_fine_def run_format printable_def ch_defs)
qed

text \<open>The messages of the ELF loader.\<close>

lemma ksprintf_text:
  assumes "ksprintf str fmt args = Some t" "kvsprintf fmt args = Some u" "printable u"
  shows "c_string t u"
  using assms by (auto simp: ksprintf_def c_string_def printable_def split: if_splits)

lemma strerror_fine:
  assumes "elf32_strerror dyn err = Some t"
  obtains r where "c_string t r" "printable r"
proof -
  let ?h = "\<lambda>w. number_text w 16 (-1) (-1) SMALL" and ?d = "\<lambda>w. number_text w 10 (-1) (-1) SIGN"
  have h: "printable (p @ ?h w)" "printable (p @ ?d w @ q @ ?d v @ r)" if "printable p" "printable q" "printable r" for p q r w v
    using that decimal_fine by simp_all
  have l: "printable ''starting physical address not page-aligned: ''" "printable ''starting virtual address not page-aligned: ''"
    "printable ''physical address out of range: ''" "printable ''virtual address out of range: ''" "printable []"
    "printable ''required ''" "printable '' bytes, only ''" "printable '' supported''"
    by (simp_all add: printable_def ch_defs)
  have k: "kvsprintf (''starting physical address not page-aligned: %x'' @ [NUL]) [Arg_int w] = Some (''starting physical address not page-aligned: '' @ ?h w)"
    "kvsprintf (''starting virtual address not page-aligned: %x'' @ [NUL]) [Arg_int w] = Some (''starting virtual address not page-aligned: '' @ ?h w)"
    "kvsprintf (''physical address out of range: %x'' @ [NUL]) [Arg_int w] = Some (''physical address out of range: '' @ ?h w)"
    "kvsprintf (''virtual address out of range: %x'' @ [NUL]) [Arg_int w] = Some (''virtual address out of range: '' @ ?h w)"
    "kvsprintf (''required %d bytes, only %d supported'' @ [NUL]) [Arg_int w, Arg_int v] = Some (''required '' @ ?d w @ '' bytes, only '' @ ?d v @ '' supported'')"
    for w v by (simp_all add: run_format)
  have "\<exists>r. c_string t r \<and> printable r"
  proof (cases err)
    case (Paddr_not_aligned w)
    then show ?thesis using ksprintf_text [OF _ k(1)] assms h(1) [OF l(1,5,5)] unfolding elf32_strerror_def by fastforce
  next
    case (Vaddr_not_aligned w)
    then show ?thesis using ksprintf_text [OF _ k(2)] assms h(1) [OF l(2,5,5)] unfolding elf32_strerror_def by fastforce
  next
    case (Paddr_out_of_range w)
    then show ?thesis using ksprintf_text [OF _ k(3)] assms h(1) [OF l(3,5,5)] unfolding elf32_strerror_def by fastforce
  next
    case (Vaddr_out_of_range w)
    then show ?thesis using ksprintf_text [OF _ k(4)] assms h(1) [OF l(4,5,5)] unfolding elf32_strerror_def by fastforce
  next
    case (Too_much_memory w)
    then show ?thesis using ksprintf_text [OF _ k(5)] assms h(2) [OF l(6,7,8)] unfolding elf32_strerror_def by fastforce
  qed (use assms in \<open>(intro exI [of _ "butlast t"], force simp: elf32_strerror_def printable_def ch_defs c_string_def)+\<close>)
  then show thesis using that by blast
qed

lemma error_screen_tidy: "leads tidy elf_error_screen tidy"
  unfolding leads_def
proof (intro allI impI)
  fix s ok s' assume s: "tidy s" "elf_error_screen s = Some (ok, s')"
  from s(2) obtain t str where t: "elf32_strerror (ld_dyn_str_error s) (ld_elf_error s) = Some t"
    "ksprintf (ld_str_error s) (''error while mapping ELF: %s'' @ [LF, NUL]) [Arg_str (Some t)] = Some str"
    unfolding elf_error_screen_def by (auto split: option.splits)
  obtain r where r: "c_string t r" "printable r" by (rule strerror_fine [OF t(1)])
  let ?t = "''error while mapping ELF: '' @ r @ [LF]" and ?c = "con (ld_mach s)"
  have kt: "kvsprintf (''error while mapping ELF: %s'' @ [LF, NUL]) [Arg_str (Some t)] = Some ?t"
    using r(1) by (simp add: run_format)
  have pr: "printable ?t" using r(2) by (auto simp: printable_def ch_defs LF_def)
  have str: "c_string str ?t" by (rule ksprintf_text [OF t(2) kt pr])
  have on: "on_screen ?c" using s(1) by (simp add: tidy_def)
  obtain c' where c': "console_puts_err (Some str) (?c\<lparr>con_vga := vga_set_bsod (con_vga ?c)\<rparr>) = Some (int (length ?t), c')"
    "on_screen c'" "con_attr c' = con_attr ?c"
    by (rule puts_err_on_blue [OF str on]) (use pr in \<open>simp_all add: printable_def\<close>)
  then have "elf_error_screen s = Some (False, set_mach ((ld_mach s)\<lparr>con := c'\<rparr>) s\<lparr>ld_str_error := str\<rparr>)"
    unfolding elf_error_screen_def t(1) option.case t(2) Let_def by simp
  then show "tidy s'" using s c'(2,3) by (simp add: tidy_def)
qed

lemma error_screen_tidyD: "elf_error_screen s = Some (ok, s') \<Longrightarrow> tidy s \<Longrightarrow> tidy s'"
  using error_screen_tidy unfolding leads_def by blast

lemma steps_tidy:
  "leads tidy interrupts_off tidy" "leads tidy start_paging tidy" "leads tidy (start_hdd pf) tidy"
  "leads tidy (say_file_size pf) tidy" "leads tidy (load_file pf) tidy" "leads tidy map_kernel tidy"
  "leads tidy say_jmp_addr tidy" "leads tidy say_paddr tidy"
proof -
  show "leads tidy interrupts_off tidy"
    by (simp add: leads_def interrupts_off_def tidy_def)
  show "leads tidy start_paging tidy"
    by (auto simp: leads_def start_paging_def Let_def case_prod_beta split: if_splits)
  show "leads tidy (start_hdd pf) tidy"
    by (auto simp: leads_def start_hdd_def Let_def split: option.splits if_splits)
  show "leads tidy (say_file_size pf) tidy"
    using number_prints_fine(1) by (fastforce simp: leads_def say_file_size_def split: option.splits dest: say_tidyD)
  show "leads tidy (load_file pf) tidy"
    using number_prints_fine(2) missing_prints_fine
    by (auto simp: leads_def load_file_def Let_def split: option.splits if_splits dest!: say_tidyD)
  show "leads tidy map_kernel tidy"
    by (auto simp: leads_def map_kernel_def Let_def split: option.splits if_splits dest!: error_screen_tidyD)
  show "leads tidy say_jmp_addr tidy"
    unfolding say_jmp_addr_def leads_def using main_prints_fine(7) say_tidyD by blast
  show "leads tidy say_paddr tidy"
    using main_prints_fine(8) by (fastforce simp: leads_def say_paddr_def split: option.splits dest: say_tidyD)
qed

lemma boot_tidy: "boot pf s = Some (ok, s') \<Longrightarrow> tidy s'"
proof -
  assume b: "boot pf s = Some (ok, s')"
  let ?rest = "say (''kboot86'' @ [LF, NUL]) [] # paging_steps pf @ hdd_steps pf @ load_steps pf"
  obtain s1 where s1: "run_steps (start_up pf @ paging_steps pf @ hdd_steps pf @ load_steps pf) s = run_steps ?rest s1"
    "con (ld_mach s1) = console_init (con (ld_mach s))"
    by (rule devices_start [of pf s]) (simp add: start_up_def)
  have "tidy s1" using s1(2) console_init_shows [of "con (ld_mach s)"] by (simp add: tidy_def shows_text_def)
  moreover have "leads tidy (run_steps ?rest) tidy"
    by (intro leads_run) (auto simp only: paging_steps_def hdd_steps_def load_steps_def list.set set_append Un_iff insert_iff empty_iff
        simp_thms intro: say_tidy main_prints_fine steps_tidy)
  ultimately have "tidy s2" if "run_steps ?rest s1 = Some (ok', s2)" for ok' s2
    using that unfolding leads_def by blast
  moreover from b obtain ok' s2 where "run_steps ?rest s1 = Some (ok', s2)"
    "s' = s2 \<or> (\<exists>ok''. say ([LF] @ ''*** ERROR! ***'' @ [LF, NUL]) [] s2 = Some (ok'', s'))"
    unfolding boot_def s1(1) by (cases "run_steps ?rest s1") (auto split: bool.splits)
  ultimately show ?thesis using say_tidyD [OF _ _ main_prints_fine(6)] by blast
qed

section \<open>The halt\<close>

text \<open>
  The machine with which \<open>console_get_line\<close> enters its loop, and the loop that comes to its \<open>hlt\<close> with
  interrupts disabled: it takes neither of the two ways out, and masks and unmasks the keyboard before. From
  such a machine the processor never goes on. That is a halt and not a fault: the loop has no other end.
\<close>

definition line_entry :: "'d machine \<Rightarrow> 'd machine" where
  "line_entry m = (if cleared (con m) then m\<lparr>con := (display_ibuf (con m))\<lparr>cleared := False\<rparr>\<rparr> else m)"

definition halts_for_ever :: "'d ports \<Rightarrow> 'd machine \<Rightarrow> bool" where
  "halts_for_ever io m \<longleftrightarrow>
     (let m1 = keyboard_disable_irq io m; m2 = keyboard_enable_irq io m1
      in \<not> line_completed (con m1) \<and> \<not> cleared (con m1) \<and> \<not> eflags_get_intr_flag (eflags (proc m2)))"

lemma halts_get_line: "halts_for_ever io m \<Longrightarrow> get_line_from io press bs m = None"
  by (simp add: halts_for_ever_def get_line_from.simps [of io press bs] Let_def)

lemma console_get_line_halts:
  "halts_for_ever io (line_entry m) \<Longrightarrow> console_get_line io press bs buf len m = None"
  using halts_get_line [of io "line_entry m" press bs] by (simp add: console_get_line_def line_entry_def)

lemma asleep_halts:
  assumes "\<not> eflags_get_intr_flag (eflags (proc m))" "\<not> line_completed (con m)"
  shows "halts_for_ever io (line_entry m)"
  using assms by (simp add: halts_for_ever_def line_entry_def irq_masks_rest display_ibuf_line Let_def)

definition greeting_text :: "char list" where
  "greeting_text = ''welcome to the boot shell'' @ [LF]"

lemma shell_greets:
  assumes "on_screen (con (mach w))"
  obtains c where "shell_do 0 io press junk pj bs w = Some (bs, w\<lparr>mach := (mach w)\<lparr>con := c\<rparr>\<rparr>)"
    "displays (con (mach w)) (fold (term_char (con_attr (con (mach w)))) greeting_text (terminal_of (con (mach w)))) c"
proof -
  have k: "kprintf (''welcome to the boot shell'' @ [LF, NUL]) [] = Some greeting_text"
    by (simp add: run_format greeting_text_def)
  have "printable greeting_text" by (simp add: greeting_text_def printable_def ch_defs LF_def)
  then have p: "c_string (greeting_text @ [NUL]) greeting_text" "ch_bs \<notin> set greeting_text" "ch_cr \<notin> set greeting_text"
    by (simp_all add: printable_def c_string_def)
  from console_puts_displays [OF p(1) assms p(2,3)] k show thesis
    by (auto simp: shell_do_def intro: that)
qed

section \<open>Properties\<close>

text \<open>C32. The rescue shell. \<open>main\<close> switches interrupts off at its start and never on again. After any error, on any
  machine, the shell is entered; on the screen as the error left it, it writes its greeting and then its prompt, in green
  at the cursor. Then \<open>console_get_line\<close> comes to its \<open>hlt\<close> with interrupts disabled, where the processor stays: no
  fault, but a sleep without end. So the shell completes not even one turn, whatever keys are pressed.\<close>

theorem rescue_shell_sleeps_for_ever:
  assumes "boot pf s = Some (False, s')"
  shows "\<exists>t c. boot_main 0 junk pj pf bs s = Some (Rescue_shell bs, t) \<and>
      terminal_of (con (ld_mach t)) = fold (term_char ATTR_GREEN_ON_BLACK) greeting_text (terminal_of (con (ld_mach s'))) \<and>
      console_puts (Some prompt) (con (ld_mach t)) = Some (8, c) \<and>
      terminal_of c = fold (term_char ATTR_GREEN_ON_BLACK) (greeting_text @ ''shell-> '') (terminal_of (con (ld_mach s'))) \<and>
      halts_for_ever (pf_io pf) (line_entry ((ld_mach t)\<lparr>con := c\<rparr>)) \<and>
      (\<forall>n. boot_main (Suc n) junk pj pf bs s = None)"
proof -
  have td: "on_screen (con (ld_mach s'))" "con_attr (con (ld_mach s')) = ATTR_GREEN_ON_BLACK"
    using boot_tidy [OF assms] by (simp_all add: tidy_def)
  have sl: "\<not> eflags_get_intr_flag (eflags (proc (ld_mach s')))" "\<not> line_completed (con (ld_mach s'))"
    using boot_asleep [OF assms] by (simp_all add: asleep_def interrupts_on_def)
  from td(1) obtain g where g: "shell_do 0 (pf_io pf) (pf_press pf) junk pj bs (ld_world s') =
      Some (bs, (ld_world s')\<lparr>mach := (ld_mach s')\<lparr>con := g\<rparr>\<rparr>)"
    "displays (con (ld_mach s')) (fold (term_char ATTR_GREEN_ON_BLACK) greeting_text (terminal_of (con (ld_mach s')))) g"
    using shell_greets [of "ld_world s'" "pf_io pf" "pf_press pf" junk pj bs] td(2) by (auto simp: ld_mach_def)
  let ?t = "with_con g s'"
  have run: "boot_main 0 junk pj pf bs s = Some (Rescue_shell bs, ?t)"
    using assms g(1) by (simp add: boot_main_def with_con_def set_mach_def)
  have on: "on_screen g" "con_attr g = ATTR_GREEN_ON_BLACK" "line_completed g = line_completed (con (ld_mach s'))"
    using g(2) td(2) by (simp_all add: displays_def same_rest_def)
  have p: "c_string prompt ''shell-> ''" "ch_bs \<notin> set ''shell-> ''" "ch_cr \<notin> set ''shell-> ''"
    by (simp_all add: prompt_def c_string_def ch_defs)
  from console_puts_displays [OF p(1) on(1) p(2,3)] on(2) obtain c where
    c: "console_puts (Some prompt) g = Some (8, c)" "displays g (fold (term_char ATTR_GREEN_ON_BLACK) ''shell-> '' (terminal_of g)) c"
    by auto
  have "line_completed c = line_completed g" using c(2) by (simp add: displays_def same_rest_def)
  then have halt: "halts_for_ever (pf_io pf) (line_entry ((ld_mach ?t)\<lparr>con := c\<rparr>))"
    using sl on(3) by (intro asleep_halts) (simp_all add: with_con_def)
  have never: "boot_main (Suc n) junk pj pf bs s = None" for n
    using sl assms by (simp add: boot_main_def ld_mach_def shell_asleep)
  show ?thesis
    using run g(2) c halt never by (intro exI [of _ ?t] exI [of _ c]) (simp add: displays_def)
qed

text \<open>A machine whose drive reports an error at once.\<close>

definition broken_drive :: "unit ports" where
  "broken_drive = \<lparr>inb = (\<lambda>p d. (0x41, d)), inw = (\<lambda>p d. (0, d)), outb = (\<lambda>p v d. d)\<rparr>"

lemma broken_hdd: "\<exists>d'. hdd_init broken_drive b1 b2 d = Some (1, d')"
proof -
  have w: "wait_status broken_drive P x = Some (0x41, x)" if "P 0x41" for P x
    using that by (simp add: wait_status_def read_status_def broken_drive_def while_option_unfold)
  have st: "\<not> status_bsy 0x41" "status_rdy 0x41" "status_err 0x41" by (simp_all add: status_bsy_def status_rdy_def status_err_def bit_simps)
  have "ata_reset broken_drive x = Some x" for x
    using w [of "\<lambda>r. \<not> status_bsy r"] st by (simp add: ata_reset_def)
  moreover have "\<exists>y. ata_select_drive broken_drive 0 x = Some (1, y)" for x
    using w [of status_rdy] st by (simp add: ata_select_drive_def Let_def case_prod_beta)
  ultimately have "ata_init broken_drive b idd x = Some (1, idd, x)" for b idd x
    by (auto simp: ata_init_def ata_identify_def)
  then show ?thesis by (simp add: hdd_init_def)
qed

theorem rescue_shell_sleeps_for_ever_witness:
  "\<exists>t c. boot_main 0 [] (\<lambda>i. blank_token) (sample_platform broken_drive) [[ENTER]] (sample_loader ()) = Some (Rescue_shell [[ENTER]], t) \<and>
     console_puts (Some prompt) (con (ld_mach t)) = Some (8, c) \<and> halts_for_ever broken_drive (line_entry ((ld_mach t)\<lparr>con := c\<rparr>)) \<and>
     boot_main 1 [] (\<lambda>i. blank_token) (sample_platform broken_drive) [[ENTER]] (sample_loader ()) = None"
proof -
  let ?pf = "sample_platform broken_drive" and ?s = "sample_loader ()"
  have io: "pf_io ?pf = broken_drive" by (simp add: sample_platform_def)
  obtain s1 where s1: "\<forall>fs. run_steps (start_up ?pf @ paging_steps ?pf @ fs) ?s = run_steps fs s1"
    "shows_text (first_text (pf_cr0 ?pf)) (con (ld_mach s1))"
    by (rule boot_starts [OF sample_loader_ok(1), of ?pf "()"])
  obtain s2 where s2: "say (''initializing hdd...'' @ [NUL]) [] s1 = Some (True, s2)"
    "shows_text (first_text (pf_cr0 ?pf) @ ''initializing hdd...'') (con (ld_mach s2))"
    by (rule say_step [OF s1(2) main_texts(5)]) (simp_all only: printables)
  obtain d where d: "hdd_init broken_drive (pf_stack1 ?pf) (pf_stack2 ?pf) (fat_disk (ld_fat s2)) = Some (1, d)"
    using broken_hdd by blast
  let ?s3 = "set_fat ((ld_fat s2)\<lparr>fat_disk := d\<rparr>) s2"
  have "start_hdd ?pf s2 = Some (False, ?s3)" by (simp add: start_hdd_def io d)
  with s1(1) s2(1) have run: "run_steps (start_up ?pf @ paging_steps ?pf @ hdd_steps ?pf @ load_steps ?pf) ?s = Some (False, ?s3)"
    by (simp add: hdd_steps_def)
  have sh: "shows_text (first_text (pf_cr0 ?pf) @ ''initializing hdd...'') (con (ld_mach ?s3))" using s2(2) by simp
  obtain s4 where "say ([LF] @ ''*** ERROR! ***'' @ [LF, NUL]) [] ?s3 = Some (True, s4)"
    by (rule say_step [OF sh main_texts(10)]) (simp_all only: printables)
  with run have "boot ?pf ?s = Some (False, s4)" by (simp add: boot_def)
  from rescue_shell_sleeps_for_ever [OF this, of "[]" "\<lambda>i. blank_token" "[[ENTER]]"] show ?thesis unfolding io by fastforce
qed

end
