(* ===== verification/Inc_Hdd.thy ===== *)
theory Inc_Hdd
  imports Kstdio
begin

text \<open>
  The tool \<open>utils/mk.inc_hdd.c\<close>, which runs on the host and writes the disk image of the driver test: the
  words 0, 1, 2, ... The files of the host are a map from names to bytes; which names can be
  opened for writing is the argument \<open>can\<close>, and writing to an open file succeeds. A call with undefined behaviour (a number out
  of range for \<open>atoi\<close>, a write to no file) is \<open>None\<close>.
\<close>

section \<open>The host\<close>

record host =
  host_files :: "char list \<Rightarrow> u8 list option"
  host_out :: "char list"
  host_err :: "char list"

definition host_space :: "char \<Rightarrow> bool" where
  "host_space c \<longleftrightarrow> c = CHR '' '' \<or> c \<in> {CHR 0x09, CHR 0x0A, CHR 0x0B, CHR 0x0C, CHR 0x0D}"

definition host_atoi :: "char list \<Rightarrow> int option" where
  "host_atoi s =
     (let s = dropWhile host_space s;
          neg = (s \<noteq> [] \<and> hd s = CHR ''-'');
          s = (if s \<noteq> [] \<and> (hd s = CHR ''-'' \<or> hd s = CHR ''+'') then tl s else s);
          v = (let n = int (text_value 10 (takeWhile is_digit s)) in if neg then - n else n)
      in if - 2147483648 \<le> v \<and> v < 2147483648 then Some v else None)"

section \<open>State and operations\<close>

definition SECTOR_WORDS :: nat where "SECTOR_WORDS = 512 div 4"

record inc_hdd =
  ih_file :: "char list option"
  ih_cylinders :: u32
  ih_headers :: u32
  ih_spt :: u32
  ih_counter :: u32
  ih_sector :: "u32 list"

definition inc_statics :: inc_hdd where
  "inc_statics = \<lparr>ih_file = None, ih_cylinders = 0, ih_headers = 0, ih_spt = 0, ih_counter = 0,
     ih_sector = replicate SECTOR_WORDS 0\<rparr>"

definition show_usage :: "char list \<Rightarrow> host \<Rightarrow> host" where
  "show_usage prog_name w = w\<lparr>host_err := host_err w @ prog_name @ '': cylinders headers sectors_per_track image_name'' @ [LF]\<rparr>"

definition open_file :: "(char list \<Rightarrow> bool) \<Rightarrow> char list \<Rightarrow> host \<Rightarrow> (char list \<times> host) option" where
  "open_file can path w = (if can path then Some (path, w\<lparr>host_files := (host_files w)(path \<mapsto> [])\<rparr>) else None)"

definition inc_init ::
    "(char list \<Rightarrow> bool) \<Rightarrow> char list option \<Rightarrow> u32 \<Rightarrow> u32 \<Rightarrow> u32 \<Rightarrow> inc_hdd \<Rightarrow> host \<Rightarrow> int \<times> inc_hdd \<times> host" where
  "inc_init can filepath c h s st w =
     (case filepath of
        None \<Rightarrow> (0, st, w)
      | Some path \<Rightarrow>
          if c = 0 \<or> h = 0 \<or> s = 0 then (0, st, w)
          else (case open_file can path w of
                  None \<Rightarrow> (-1, st\<lparr>ih_file := None\<rparr>, w)
                | Some (f, w) \<Rightarrow> (0, st\<lparr>ih_file := Some f, ih_cylinders := c, ih_headers := h, ih_spt := s, ih_counter := 0\<rparr>, w)))"

definition update_sector :: "inc_hdd \<Rightarrow> inc_hdd" where
  "update_sector st =
     foldl (\<lambda>st i. st\<lparr>ih_sector := (ih_sector st)[i := ih_counter st], ih_counter := ih_counter st + 1\<rparr>) st [0..<SECTOR_WORDS]"

definition write_sector :: "inc_hdd \<times> host \<Rightarrow> (inc_hdd \<times> host) option" where
  "write_sector sw =
     (let st = update_sector (fst sw); w = snd sw
      in case ih_file st of
           None \<Rightarrow> None
         | Some f \<Rightarrow>
             (case host_files w f of
                None \<Rightarrow> None
              | Some bs \<Rightarrow> Some (st, w\<lparr>host_files := (host_files w)(f \<mapsto> bs @ concat (map le32_bytes (ih_sector st)))\<rparr>)))"

fun repeat_times :: "nat \<Rightarrow> ('s \<Rightarrow> 's option) \<Rightarrow> 's \<Rightarrow> 's option" where
  "repeat_times 0 f s = Some s"
| "repeat_times (Suc n) f s = Option.bind (f s) (repeat_times n f)"

definition expand_image :: "inc_hdd \<times> host \<Rightarrow> (inc_hdd \<times> host) option" where
  "expand_image sw =
     repeat_times (unat (ih_cylinders (fst sw)))
       (repeat_times (unat (ih_headers (fst sw))) (repeat_times (unat (ih_spt (fst sw))) write_sector)) sw"

text \<open>\<open>main\<close>: the exit code and the host.\<close>

definition host_number :: "u32 \<Rightarrow> char list" where "host_number n = number_text n 10 6 (-1) SIGN"

definition mk_inc_hdd :: "(char list \<Rightarrow> bool) \<Rightarrow> char list list \<Rightarrow> host \<Rightarrow> (int \<times> host) option" where
  "mk_inc_hdd can argv w =
     (if argv = [] then None
      else if length argv \<noteq> 5 then Some (1, show_usage (argv ! 0) w)
      else (case (host_atoi (argv ! 1), host_atoi (argv ! 2), host_atoi (argv ! 3)) of
              (Some c, Some h, Some s) \<Rightarrow>
                (let (rc, st, w) = inc_init can (Some (argv ! 4)) (of_int c) (of_int h) (of_int s) inc_statics w
                 in if rc \<noteq> 0 then Some (1, w)
                    else (case expand_image (st, w) of
                            None \<Rightarrow> None
                          | Some (st, w) \<Rightarrow>
                              Some (0, w\<lparr>host_out := host_out w
                                @ ''cylinders: '' @ host_number (ih_cylinders st) @ [LF]
                                @ ''headers:   '' @ host_number (ih_headers st) @ [LF]
                                @ ''spt:       '' @ host_number (ih_spt st) @ [LF]\<rparr>)))
            | _ \<Rightarrow> None))"

section \<open>The image\<close>

text \<open>\<open>n\<close> sectors of the words from \<open>c\<close> on.\<close>

definition counting_sector :: "u32 \<Rightarrow> u8 list" where
  "counting_sector c = concat (map (\<lambda>i. le32_bytes (c + of_nat i)) [0..<SECTOR_WORDS])"

definition counting_image :: "u32 \<Rightarrow> nat \<Rightarrow> u8 list" where
  "counting_image c n = concat (map (\<lambda>k. counting_sector (c + of_nat (SECTOR_WORDS * k))) [0..<n])"

lemma counting_sector_length: "length (counting_sector c) = 512"
  by (simp add: counting_sector_def length_concat comp_def le32_bytes_def sum_list_triv SECTOR_WORDS_def)

lemma counting_image_Suc: "counting_image c (Suc n) = counting_sector c @ counting_image (c + of_nat SECTOR_WORDS) n"
proof -
  have "[0..<Suc n] = 0 # map Suc [0..<n]" by (simp add: map_Suc_upt upt_conv_Cons del: upt_Suc)
  then show ?thesis by (simp add: counting_image_def comp_def algebra_simps del: upt_Suc)
qed

lemma update_sector_prefix:
  assumes "length (ih_sector st) = SECTOR_WORDS" "n \<le> SECTOR_WORDS"
  shows "foldl (\<lambda>st i. st\<lparr>ih_sector := (ih_sector st)[i := ih_counter st], ih_counter := ih_counter st + 1\<rparr>) st [0..<n]
    = st\<lparr>ih_sector := map (\<lambda>i. ih_counter st + of_nat i) [0..<n] @ drop n (ih_sector st), ih_counter := ih_counter st + of_nat n\<rparr>"
  using assms(2)
proof (induction n)
  case (Suc n)
  then have "drop n (ih_sector st) = ih_sector st ! n # drop (Suc n) (ih_sector st)"
    using assms(1) by (simp add: Cons_nth_drop_Suc)
  with Suc show ?case by (simp add: list_update_append algebra_simps)
qed simp

lemma update_sector_counts:
  assumes "length (ih_sector st) = SECTOR_WORDS"
  shows "update_sector st = st\<lparr>ih_sector := map (\<lambda>i. ih_counter st + of_nat i) [0..<SECTOR_WORDS],
    ih_counter := ih_counter st + of_nat SECTOR_WORDS\<rparr>"
  using assms update_sector_prefix [OF assms order.refl] by (simp add: update_sector_def)

lemma repeat_times_add: "repeat_times (m + n) f s = Option.bind (repeat_times m f s) (repeat_times n f)"
proof (induction m arbitrary: s)
  case (Suc m)
  then show ?case by (cases "f s") simp_all
qed simp

lemma repeat_times_nested: "repeat_times m (repeat_times n f) s = repeat_times (m * n) f s"
proof (induction m arbitrary: s)
  case (Suc m)
  then have "repeat_times m (repeat_times n f) = repeat_times (m * n) f" by (intro ext)
  then show ?case by (simp add: repeat_times_add)
qed simp

lemma write_sectors:
  assumes "ih_file st = Some p" "host_files w p = Some bs" "length (ih_sector st) = SECTOR_WORDS"
  shows "\<exists>st'. repeat_times n write_sector (st, w)
      = Some (st', w\<lparr>host_files := (host_files w)(p \<mapsto> bs @ counting_image (ih_counter st) n)\<rparr>) \<and>
    ih_cylinders st' = ih_cylinders st \<and> ih_headers st' = ih_headers st \<and> ih_spt st' = ih_spt st"
  using assms
proof (induction n arbitrary: st w bs)
  case 0
  have "(host_files w)(p \<mapsto> bs) = host_files w" using 0(2) by (simp add: fun_upd_idem)
  then show ?case by (simp add: counting_image_def)
next
  case (Suc n)
  let ?st = "update_sector st"
  let ?bs = "bs @ counting_sector (ih_counter st)"
  let ?w = "w\<lparr>host_files := (host_files w)(p \<mapsto> ?bs)\<rparr>"
  note u = update_sector_counts [OF Suc.prems(3)]
  have "write_sector (st, w) = Some (?st, ?w)"
    using Suc.prems by (simp add: write_sector_def u counting_sector_def comp_def)
  moreover have h: "ih_file ?st = Some p" "host_files ?w p = Some ?bs" "length (ih_sector ?st) = SECTOR_WORDS"
    using Suc.prems(1) by (simp_all add: u)
  from Suc.IH [OF h] obtain st' where
    "repeat_times n write_sector (?st, ?w)
      = Some (st', ?w\<lparr>host_files := (host_files ?w)(p \<mapsto> ?bs @ counting_image (ih_counter ?st) n)\<rparr>)"
    "ih_cylinders st' = ih_cylinders ?st" "ih_headers st' = ih_headers ?st" "ih_spt st' = ih_spt ?st" by blast
  moreover have "?w\<lparr>host_files := (host_files ?w)(p \<mapsto> bs)\<rparr> = w\<lparr>host_files := (host_files w)(p \<mapsto> bs)\<rparr>" for bs by simp
  ultimately show ?case by (simp add: counting_image_Suc u fun_upd_def)
qed

section \<open>Property\<close>

definition run_message :: "u32 \<Rightarrow> u32 \<Rightarrow> u32 \<Rightarrow> char list" where
  "run_message c h s = ''cylinders: '' @ host_number c @ [LF] @ ''headers:   '' @ host_number h @ [LF]
     @ ''spt:       '' @ host_number s @ [LF]"

lemma mk_inc_hdd_runs:
  assumes "host_atoi a = Some c" "host_atoi b = Some h" "host_atoi d = Some s"
  defines "c' \<equiv> of_int c" and "h' \<equiv> of_int h" and "s' \<equiv> of_int s"
  shows "mk_inc_hdd can [prog, a, b, d, path] w =
    (if c' = 0 \<or> h' = 0 \<or> s' = 0 then Some (0, w\<lparr>host_out := host_out w @ run_message 0 0 0\<rparr>)
     else if \<not> can path then Some (1, w)
     else Some (0, w\<lparr>host_files := (host_files w)(path \<mapsto> counting_image 0 (unat c' * unat h' * unat s')),
                   host_out := host_out w @ run_message c' h' s'\<rparr>))"
proof -
  have z: "expand_image (inc_statics, w) = Some (inc_statics, w)" by (simp add: expand_image_def inc_statics_def)
  let ?st = "inc_statics\<lparr>ih_file := Some path, ih_cylinders := c', ih_headers := h', ih_spt := s', ih_counter := 0\<rparr>"
  let ?w = "w\<lparr>host_files := (host_files w)(path \<mapsto> [])\<rparr>"
  let ?n = "unat c' * unat h' * unat s'"
  have st: "ih_file ?st = Some path" "host_files ?w path = Some []" "length (ih_sector ?st) = SECTOR_WORDS"
    by (simp_all add: inc_statics_def)
  from write_sectors [OF st, of ?n] obtain st' where
    r: "repeat_times ?n write_sector (?st, ?w) = Some (st', ?w\<lparr>host_files := (host_files ?w)(path \<mapsto> counting_image 0 ?n)\<rparr>)"
      "ih_cylinders st' = c'" "ih_headers st' = h'" "ih_spt st' = s'" by auto
  then have "expand_image (?st, ?w) = Some (st', w\<lparr>host_files := (host_files w)(path \<mapsto> counting_image 0 ?n)\<rparr>)"
    by (simp add: expand_image_def repeat_times_nested mult.assoc)
  with z r(2-4) show ?thesis using assms(1-3)
    by (simp add: mk_inc_hdd_def inc_init_def open_file_def run_message_def c'_def h'_def s'_def inc_statics_def)
qed

text \<open>The words of the image.\<close>

lemma counting_sector_word:
  assumes "i < 128"
  shows "le32 (counting_sector c) (4 * i) = c + of_nat i"
proof -
  have nth: "concat (map f [0..<n]) ! (4 * i + j) = f i ! j" if "\<And>k. length (f k) = 4" "i < n" "j < 4" for f :: "nat \<Rightarrow> u8 list" and n j
    using that(2)
  proof (induction n)
    case (Suc n)
    have len: "length (concat (map f [0..<n])) = 4 * n" using that(1) by (induction n) simp_all
    show ?case
    proof (cases "i < n")
      case True
      then have "4 * i + j < 4 * n" using that(3) by linarith
      then show ?thesis using Suc True len by (simp add: nth_append)
    next
      case False
      then have "i = n" using Suc.prems by simp
      then show ?thesis using len by (simp add: nth_append)
    qed
  qed simp
  have "counting_sector c ! (4 * i + j) = le32_bytes (c + of_nat i) ! j" if "j < 4" for j
    unfolding counting_sector_def using assms that by (intro nth) (simp_all add: le32_bytes_def SECTOR_WORDS_def)
  from this [of 0] this [of 1] this [of 2] this [of 3]
  have "le32 (counting_sector c) (4 * i) = le32 (le32_bytes (c + of_nat i) @ []) 0" by (simp add: le32_def numeral_2_eq_2)
  then show ?thesis by (simp only: le32_le32_bytes)
qed

lemma counting_image_sector:
  "k < n \<Longrightarrow> take 512 (drop (512 * k) (counting_image c n)) = counting_sector (c + of_nat (128 * k))"
proof (induction n arbitrary: k c)
  case (Suc n)
  then show ?case
    by (cases k) (simp_all add: counting_image_Suc counting_sector_length SECTOR_WORDS_def algebra_simps)
qed simp

text \<open>The image tool. With three positive numbers and a name that can be opened the file holds cylinders *
  heads * sectors sectors of 512 bytes, whose 32-bit words count up from 0 (modulo 2^32); a number that is zero
  writes no file and still exits with 0; a name that cannot be opened exits with 1; a wrong number of arguments prints the
  usage and exits with 1.\<close>

theorem mk_inc_hdd_correct:
  assumes "host_atoi a = Some c" "host_atoi b = Some h" "host_atoi d = Some s" "0 \<le> c" "0 \<le> h" "0 \<le> s"
  shows "(0 \<in> {c, h, s} \<longrightarrow> mk_inc_hdd can [prog, a, b, d, path] w = Some (0, w\<lparr>host_out := host_out w @ run_message 0 0 0\<rparr>)) \<and>
    (0 \<notin> {c, h, s} \<and> \<not> can path \<longrightarrow> mk_inc_hdd can [prog, a, b, d, path] w = Some (1, w)) \<and>
    (0 \<notin> {c, h, s} \<and> can path \<longrightarrow>
      (\<exists>img. mk_inc_hdd can [prog, a, b, d, path] w = Some (0, w\<lparr>host_files := (host_files w)(path \<mapsto> img),
           host_out := host_out w @ run_message (of_int c) (of_int h) (of_int s)\<rparr>) \<and>
         length img = 512 * nat (c * h * s) \<and>
         (\<forall>k < nat (c * h * s). \<forall>i < 128. le32 (take 512 (drop (512 * k) img)) (4 * i) = of_nat (128 * k + i)))) \<and>
    (length args \<noteq> 4 \<longrightarrow> mk_inc_hdd can (prog # args) w = Some (1, show_usage prog w))"
proof -
  have u: "unat (of_int n :: u32) = nat n" if "host_atoi x = Some n" "0 \<le> n" for x n
  proof -
    have "n < 2147483648" using that(1) by (auto simp: host_atoi_def Let_def split: if_splits)
    then have "unat (of_nat (nat n) :: u32) = nat n" by (intro unat_of_nat_u32) simp
    then show ?thesis using that(2) by simp
  qed
  note r = mk_inc_hdd_runs [OF assms(1-3), of can prog path w]
  note n = u [OF assms(1,4)] u [OF assms(2,5)] u [OF assms(3,6)]
  have z: "of_int c = (0 :: u32) \<longleftrightarrow> c = 0" "of_int h = (0 :: u32) \<longleftrightarrow> h = 0" "of_int s = (0 :: u32) \<longleftrightarrow> s = 0"
    using n assms(4-6) by (simp_all add: unat_eq_zero [symmetric])
  let ?img = "counting_image 0 (nat (c * h * s))"
  have N: "nat c * nat h * nat s = nat (c * h * s)" using assms(4-6) by (simp add: nat_mult_distrib)
  have "length (counting_image x k) = 512 * k" for x k
    by (induction k arbitrary: x) (simp_all add: counting_image_Suc counting_sector_length, simp add: counting_image_def)
  moreover have "le32 (take 512 (drop (512 * k) ?img)) (4 * i) = of_nat (128 * k + i)" if "k < nat (c * h * s)" "i < 128" for k i
    unfolding counting_image_sector [OF that(1)] counting_sector_word [OF that(2)] by simp
  ultimately show ?thesis unfolding r n N z
    by (auto simp: mk_inc_hdd_def intro!: exI [of _ ?img])
qed

text \<open>Two cylinders of one head with one sector per track.\<close>

theorem mk_inc_hdd_correct_witness:
  "\<exists>img. mk_inc_hdd (\<lambda>_. True) [''mk'', ''2'', ''1'', ''1'', ''img''] \<lparr>host_files = Map.empty, host_out = [], host_err = []\<rparr>
      = Some (0, \<lparr>host_files = [''img'' \<mapsto> img], host_out = run_message 2 1 1, host_err = []\<rparr>) \<and>
    length img = 1024 \<and> le32 (take 512 (drop 512 img)) (4 * 3) = 131"
proof -
  have n: "host_atoi ''2'' = Some 2" "host_atoi ''1'' = Some 1" by code_simp+
  from mk_inc_hdd_correct [OF n(1,2,2), where can = "\<lambda>_. True" and path = "''img''" and prog = "''mk''" and args = "[]"
      and w = "\<lparr>host_files = Map.empty, host_out = [], host_err = []\<rparr>", THEN conjunct2, THEN conjunct2, THEN conjunct1]
  obtain img where "mk_inc_hdd (\<lambda>_. True) [''mk'', ''2'', ''1'', ''1'', ''img''] \<lparr>host_files = Map.empty, host_out = [], host_err = []\<rparr>
      = Some (0, \<lparr>host_files = [''img'' \<mapsto> img], host_out = run_message 2 1 1, host_err = []\<rparr>)"
    "length img = 1024" and w: "\<forall>k < 2. \<forall>i < 128. le32 (take 512 (drop (512 * k) img)) (4 * i) = of_nat (128 * k + i)"
    by auto
  moreover from w have "le32 (take 512 (drop (512 * 1) img)) (4 * 3) = of_nat (128 * 1 + 3)"
    by (elim allE [of _ 1] allE [of _ 3] impE) simp_all
  ultimately show ?thesis by auto
qed

end
