(* ===== verification/Hdd_Test.thy ===== *)
theory Hdd_Test
  imports Inc_Hdd Ata_Identify Boot_Steps
begin

text \<open>
  The test of the disk driver, \<open>test/hdd.c\<close>, which reads a whole disk by cylinder, head and sector or by
  sector number and compares it with the words 0, 1, 2, ... that \<open>utils/mk.inc_hdd.c\<close> writes. The texts that it
  prints are collected in \<open>ht_out\<close>.
\<close>

section \<open>State and operations\<close>

definition CYLINDERS_NUM :: nat where "CYLINDERS_NUM = 1024"
definition HEADS_NUM :: nat where "HEADS_NUM = 4"
definition SECTORS_NUM :: nat where "SECTORS_NUM = 16"

text \<open>The statics \<open>_counter\<close> and \<open>_sector\<close>, the state of the driver, the drive, and the output.\<close>

record 'd hdd_test =
  ht_counter :: u32
  ht_sector :: "u8 list"
  ht_id :: ata_id
  ht_dev :: 'd
  ht_out :: "char list list"

definition test_init :: "'d ports \<Rightarrow> u8 list \<Rightarrow> 'd hdd_test \<Rightarrow> (int \<times> 'd hdd_test) option" where
  "test_init io stackbuf st =
     (case ata_init io stackbuf (ht_id st) (ht_dev st) of
        None \<Rightarrow> None
      | Some (rc, idd, d) \<Rightarrow>
          (let st = st\<lparr>ht_id := idd, ht_dev := d\<rparr>
           in if rc \<noteq> 0 then Some (1, st)
              else map_option (\<lambda>(rc, d). (if rc \<noteq> 0 then 1 else 0, st\<lparr>ht_dev := d\<rparr>)) (ata_select_drive io 0 d)))"

text \<open>The loop of \<open>_check_sector\<close> from word \<open>i\<close> on; \<open>n\<close> words are left.\<close>

fun check_words :: "nat \<Rightarrow> nat \<Rightarrow> 'd hdd_test \<Rightarrow> int \<times> 'd hdd_test" where
  "check_words i 0 st = (0, st)"
| "check_words i (Suc n) st =
     (let c = ht_counter st;
          st = st\<lparr>ht_counter := c + 1\<rparr>
      in if le32 (ht_sector st) (4 * i) \<noteq> c then (1, st) else check_words (Suc i) n st)"

definition check_sector :: "'d hdd_test \<Rightarrow> int \<times> 'd hdd_test" where
  "check_sector st = check_words 0 (ATA_SECTOR_SIZE div 4) st"

text \<open>A loop whose body may jump to the label \<open>err\<close> (\<open>False\<close>).\<close>

fun each :: "('a \<Rightarrow> 's \<Rightarrow> (bool \<times> 's) option) \<Rightarrow> 'a list \<Rightarrow> 's \<Rightarrow> (bool \<times> 's) option" where
  "each f [] s = Some (True, s)"
| "each f (x # xs) s =
     (case f x s of
        None \<Rightarrow> None
      | Some (ok, s') \<Rightarrow> if ok then each f xs s' else Some (False, s'))"

definition test_say :: "char list \<Rightarrow> karg list \<Rightarrow> 'd hdd_test \<Rightarrow> 'd hdd_test option" where
  "test_say fmt args st = map_option (\<lambda>t. st\<lparr>ht_out := ht_out st @ [t]\<rparr>) (kprintf fmt args)"

definition read_and_check ::
    "(u8 list \<Rightarrow> 'd \<Rightarrow> (int \<times> u8 list \<times> 'd) option) \<Rightarrow> 'd hdd_test \<Rightarrow> (bool \<times> 'd hdd_test) option" where
  "read_and_check read st =
     (case read (ht_sector st) (ht_dev st) of
        None \<Rightarrow> None
      | Some (rc, b, d) \<Rightarrow>
          (let st = st\<lparr>ht_sector := b, ht_dev := d\<rparr>
           in if rc \<noteq> 0 then Some (False, st)
              else (let (rc, st) = check_sector st in Some (rc = 0, st))))"

definition test_cylinder :: "'d ports \<Rightarrow> u32 \<Rightarrow> 'd hdd_test \<Rightarrow> (bool \<times> 'd hdd_test) option" where
  "test_cylinder io c st =
     (case test_say (''at cylinder %6d'' @ [LF, NUL]) [Arg_int c] st of
        None \<Rightarrow> None
      | Some st \<Rightarrow>
          each (\<lambda>h. each (\<lambda>s. read_and_check (ata_read_sector_chs io c h s)) (map of_nat [1..<SECTORS_NUM + 1]))
            (map of_nat [0..<HEADS_NUM]) st)"

definition test_hdd_chs :: "'d ports \<Rightarrow> u8 list \<Rightarrow> 'd hdd_test \<Rightarrow> (int \<times> 'd hdd_test) option" where
  "test_hdd_chs io stackbuf st =
     (case test_init io stackbuf st of
        None \<Rightarrow> None
      | Some (rc, st) \<Rightarrow>
          if rc \<noteq> 0 then Some (1, st)
          else map_option (\<lambda>(ok, st). (if ok then 0 else 1, st)) (each (test_cylinder io) (map of_nat [0..<CYLINDERS_NUM]) st))"

definition test_lba :: "'d ports \<Rightarrow> u32 \<Rightarrow> 'd hdd_test \<Rightarrow> (bool \<times> 'd hdd_test) option" where
  "test_lba io lba st =
     (case (if lba mod 100 = 0 then test_say (''at lba %6d'' @ [LF, NUL]) [Arg_int lba] st else Some st) of
        None \<Rightarrow> None
      | Some st \<Rightarrow> read_and_check (ata_read_sector_lba io (ht_id st) lba) st)"

text \<open>After the loop the control falls through to the label \<open>err\<close>.\<close>

definition test_hdd_lba :: "'d ports \<Rightarrow> u8 list \<Rightarrow> 'd hdd_test \<Rightarrow> (int \<times> 'd hdd_test) option" where
  "test_hdd_lba io stackbuf st =
     (case test_init io stackbuf st of
        None \<Rightarrow> None
      | Some (rc, st) \<Rightarrow>
          if rc \<noteq> 0 then Some (1, st)
          else map_option (\<lambda>(_, st). (1, st)) (each (test_lba io) (map of_nat [0..<65536]) st))"

section \<open>The verdict on a sector\<close>

text \<open>Sector \<open>k\<close> of the disk holds the words of the counter that starts with \<open>c\<close> in sector 0.\<close>

definition counts :: "(nat \<Rightarrow> u8 list) \<Rightarrow> u32 \<Rightarrow> nat \<Rightarrow> bool" where
  "counts D c k \<longleftrightarrow> (\<forall>i < 128. le32 (D k) (4 * i) = c + of_nat (128 * k + i))"

lemma check_words_verdict:
  "\<exists>c rc. check_words i n st = (rc, st\<lparr>ht_counter := c\<rparr>) \<and>
    (rc = 0 \<longleftrightarrow> (\<forall>j < n. le32 (ht_sector st) (4 * (i + j)) = ht_counter st + of_nat j)) \<and>
    (rc = 0 \<longrightarrow> c = ht_counter st + of_nat n)"
proof (induction n arbitrary: i st)
  case 0
  show ?case by (intro exI [of _ "ht_counter st"]) simp
next
  case (Suc n)
  let ?st = "st\<lparr>ht_counter := ht_counter st + 1\<rparr>"
  have all: "(\<forall>j < Suc n. P j) \<longleftrightarrow> P 0 \<and> (\<forall>j < n. P (Suc j))" for P by (rule All_less_Suc2)
  show ?case
  proof (cases "le32 (ht_sector st) (4 * i) = ht_counter st")
    case True
    from Suc.IH [of "Suc i" ?st] obtain c rc where "check_words (Suc i) n ?st = (rc, ?st\<lparr>ht_counter := c\<rparr>)"
      "rc = 0 \<longleftrightarrow> (\<forall>j < n. le32 (ht_sector st) (4 * (Suc i + j)) = ht_counter st + 1 + of_nat j)"
      "rc = 0 \<longrightarrow> c = ht_counter st + 1 + of_nat n" by auto
    then show ?thesis using True unfolding all by (intro exI [of _ c] exI [of _ rc]) (simp add: algebra_simps)
  next
    case False
    then show ?thesis unfolding all by (intro exI [of _ "ht_counter st + 1"] exI [of _ 1]) simp
  qed
qed

text \<open>The state before sector \<open>k\<close> while everything has matched.\<close>

definition testing :: "('d \<Rightarrow> ata_view) \<Rightarrow> u32 \<Rightarrow> ata_id \<Rightarrow> char list list \<Rightarrow> nat \<Rightarrow> 'd hdd_test \<Rightarrow> bool" where
  "testing view c idd out k st \<longleftrightarrow> drive_ready (view (ht_dev st)) \<and> length (ht_sector st) = ATA_SECTOR_SIZE \<and>
     ht_counter st = c + of_nat (128 * k) \<and> ht_id st = idd \<and> ht_out st = out"

definition verdict :: "bool \<Rightarrow> ('s \<Rightarrow> bool) \<Rightarrow> (bool \<times> 's) option \<Rightarrow> bool" where
  "verdict good I r \<longleftrightarrow> (\<exists>ok st. r = Some (ok, st) \<and> (ok \<longleftrightarrow> good) \<and> (ok \<longrightarrow> I st))"

lemma read_and_check_verdict:
  assumes "testing view c idd out k st" "\<exists>d'. read (ht_sector st) (ht_dev st) = Some (0, D k, d') \<and> drive_ready (view d')"
    and "length (D k) = ATA_SECTOR_SIZE"
  shows "verdict (counts D c k) (testing view c idd out (k + 1)) (read_and_check read st)"
proof -
  obtain d' where d: "read (ht_sector st) (ht_dev st) = Some (0, D k, d')" "drive_ready (view d')" using assms(2) by blast
  let ?st = "st\<lparr>ht_sector := D k, ht_dev := d'\<rparr>"
  from check_words_verdict [of 0 128 ?st] obtain e rc where
    r: "check_words 0 128 ?st = (rc, ?st\<lparr>ht_counter := e\<rparr>)"
      "rc = 0 \<longleftrightarrow> (\<forall>j < 128. le32 (D k) (4 * j) = ht_counter st + of_nat j)" "rc = 0 \<longrightarrow> e = ht_counter st + 128" by auto
  have "read_and_check read st = Some (rc = 0, ?st\<lparr>ht_counter := e\<rparr>)"
    by (simp add: read_and_check_def d(1) check_sector_def ATA_SECTOR_SIZE_def r(1))
  moreover have "rc = 0 \<longleftrightarrow> counts D c k" using assms(1) by (simp add: r(2) counts_def testing_def add.assoc)
  ultimately show ?thesis using assms(1,3) d(2) r(3) by (simp add: verdict_def testing_def algebra_simps)
qed

lemma each_verdict:
  assumes "\<And>j st. j < length xs \<Longrightarrow> I j st \<Longrightarrow> verdict (P j) (I (Suc j)) (f (xs ! j) st)" and "I 0 st"
  shows "verdict (\<forall>j < length xs. P j) (I (length xs)) (each f xs st)"
  using assms
proof (induction xs arbitrary: I P st)
  case Nil
  then show ?case by (auto simp: verdict_def)
next
  case (Cons x xs)
  from Cons.prems(1) [of 0 st] Cons.prems(2) obtain ok st1 where
    st1: "f x st = Some (ok, st1)" "ok \<longleftrightarrow> P 0" "ok \<longrightarrow> I 1 st1" by (auto simp: verdict_def)
  have all: "(\<forall>j < length (x # xs). P j) \<longleftrightarrow> P 0 \<and> (\<forall>j < length xs. P (Suc j))" by (simp add: All_less_Suc2)
  show ?case
  proof (cases ok)
    case True
    have "verdict (P (Suc j)) (I (Suc (Suc j))) (f (xs ! j) st)" if "j < length xs" "I (Suc j) st" for j st
      using Cons.prems(1) [of "Suc j" st] that by simp
    from Cons.IH [of "\<lambda>j. I (Suc j)" "\<lambda>j. P (Suc j)" st1, OF this] st1 True show ?thesis
      unfolding all by (simp add: verdict_def)
  next
    case False
    then show ?thesis using st1 unfolding all by (auto simp: verdict_def)
  qed
qed

section \<open>The whole disk\<close>

definition cylinder_line :: "nat \<Rightarrow> char list" where
  "cylinder_line c = ''at cylinder '' @ number_text (of_nat c) 10 6 (-1) SIGN @ [LF]"

definition lba_line :: "nat \<Rightarrow> char list" where
  "lba_line n = ''at lba '' @ number_text (of_nat n) 10 6 (-1) SIGN @ [LF]"

lemma format_6d:
  assumes "kv_args k = Arg_int n # as"
  shows "kvsprintf_from (CHR ''%'' # CHR ''6'' # CHR ''d'' # r) k
    = kvsprintf_from r (k\<lparr>kv_out := kv_out k @ number_text n 10 6 (-1) SIGN, kv_args := as\<rparr>)"
  using assms by (simp add: run_directive out_number_def number_eq_text)

lemma test_lines:
  "kprintf (''at cylinder %6d'' @ [LF, NUL]) [Arg_int (of_nat c)] = Some (cylinder_line c)"
  "kprintf (''at lba %6d'' @ [LF, NUL]) [Arg_int (of_nat c)] = Some (lba_line c)"
  using number_text_fine(2) [of 10 6 SIGN "of_nat c"]
  by (simp_all add: run_format format_6d cylinder_line_def lba_line_def has_def flag_defs)

lemma test_init_ready:
  assumes "ata_contract io view H S N D" "identify_contract io view ident" "length stackbuf = ATA_SECTOR_SIZE"
    and "length (id_model_number (ht_id st)) = MODEL_NUMBER_STR_LEN + 1" "length (ht_sector st) = ATA_SECTOR_SIZE"
  shows "\<exists>idd st'. test_init io stackbuf st = Some (0, st') \<and> testing view (ht_counter st) idd (ht_out st) 0 st' \<and>
    id_num_sectors idd = le32 ident 114 \<and> id_heads idd = le16 ident 6 \<and> id_spt idd = le16 ident 12"
proof -
  from ata_init_reads [OF assms(1-4), of "ht_dev st"] obtain idd d1 where
    i: "ata_init io stackbuf (ht_id st) (ht_dev st) = Some (0, idd, d1)" "drive_ready (view d1)"
      "id_num_sectors idd = le32 ident 114" "id_heads idd = le16 ident 6" "id_spt idd = le16 ident 12" by blast
  then have "v_phase (view d1) = Idle" by (simp add: drive_ready_def)
  from ata_select_drive_idle [OF assms(1,2) this] obtain d2 where
    "ata_select_drive io 0 d1 = Some (0, d2)" "drive_ready (view d2)" by blast
  with i assms(5) show ?thesis
    by (intro exI [of _ idd] exI [of _ "st\<lparr>ht_id := idd, ht_dev := d2\<rparr>"]) (simp add: test_init_def testing_def Let_def)
qed

lemma chs_sector_verdict:
  assumes "ata_contract io view 4 16 N D" "65536 \<le> N" "c < 1024" "h < 4" "s < 16"
    and "testing view c0 idd out (64 * c + 16 * h + s) st"
  shows "verdict (counts D c0 (64 * c + 16 * h + s)) (testing view c0 idd out (Suc (64 * c + 16 * h + s)))
    (read_and_check (ata_read_sector_chs io (of_nat c) (of_nat h) (of_nat (Suc s))) st)"
proof -
  let ?k = "64 * c + 16 * h + s"
  have u: "unat (of_nat c :: u32) = c" "unat (of_nat h :: u32) = h" "unat (of_nat (Suc s) :: u32) = Suc s"
    using assms(3-5) by (simp_all add: unat_of_nat_u32 del: of_nat_Suc)
  have le: "\<not> (of_nat c :: u32) > 1023" "\<not> (of_nat h :: u32) > 15"
    using assms(3,4) u by (simp_all add: word_less_nat_alt)
  have st: "drive_ready (view (ht_dev st))" "length (ht_sector st) = ATA_SECTOR_SIZE" using assms(6) by (simp_all add: testing_def)
  have k: "?k < N" using assms(2-5) by linarith
  have "\<exists>d'. ata_read_sector_chs io (of_nat c) (of_nat h) (of_nat (Suc s)) (ht_sector st) (ht_dev st) = Some (0, D ?k, d') \<and> drive_ready (view d')"
    using assms(3-5) u by (intro ata_read_sector_chs_reads [OF assms(1) st(1) le _ _ _ _ _ k st(2)]) (simp_all del: of_nat_Suc)
  from read_and_check_verdict [where read = "ata_read_sector_chs io (of_nat c) (of_nat h) (of_nat (Suc s))"
      and D = D, OF assms(6) this contract_sector_length [OF assms(1) k]]
  show ?thesis by simp
qed

lemma cylinder_verdict:
  assumes "ata_contract io view 4 16 N D" "65536 \<le> N" "c < 1024" "testing view c0 idd out (64 * c) st"
  shows "verdict (\<forall>h < 4. \<forall>s < 16. counts D c0 (64 * c + 16 * h + s)) (testing view c0 idd (out @ [cylinder_line c]) (64 * Suc c))
    (test_cylinder io (of_nat c) st)"
proof -
  let ?out = "out @ [cylinder_line c]"
  let ?st = "st\<lparr>ht_out := ht_out st @ [cylinder_line c]\<rparr>"
  let ?row = "\<lambda>h. each (\<lambda>s. read_and_check (ata_read_sector_chs io (of_nat c) h s)) (map of_nat [1..<SECTORS_NUM + 1])"
  have row: "verdict (\<forall>s < 16. counts D c0 (64 * c + 16 * h + s)) (testing view c0 idd ?out (64 * c + 16 * Suc h)) (?row (of_nat h) st)"
    if h: "h < 4" and st: "testing view c0 idd ?out (64 * c + 16 * h) st" for h st
    using each_verdict [where xs = "map of_nat [1..<SECTORS_NUM + 1]" and I = "\<lambda>s. testing view c0 idd ?out (64 * c + 16 * h + s)"
        and P = "\<lambda>s. counts D c0 (64 * c + 16 * h + s)" and st = st
        and f = "\<lambda>s. read_and_check (ata_read_sector_chs io (of_nat c) (of_nat h) s)"]
      chs_sector_verdict [OF assms(1-3) h] st
    by (simp add: SECTORS_NUM_def ac_simps del: upt_Suc)
  have "verdict (\<forall>h < 4. \<forall>s < 16. counts D c0 (64 * c + 16 * h + s)) (testing view c0 idd ?out (64 * c + 16 * 4))
    (each ?row (map of_nat [0..<HEADS_NUM]) ?st)"
    using each_verdict [where xs = "map of_nat [0..<HEADS_NUM]" and I = "\<lambda>h. testing view c0 idd ?out (64 * c + 16 * h)"
        and P = "\<lambda>h. \<forall>s < 16. counts D c0 (64 * c + 16 * h + s)" and st = ?st and f = ?row] row assms(4)
    by (simp add: HEADS_NUM_def testing_def)
  moreover have "64 * Suc c = 64 * c + 16 * 4" by simp
  ultimately show ?thesis unfolding test_cylinder_def test_say_def test_lines option.map option.case by (simp only:)
qed

lemma each_cylinder_verdict:
  assumes "ata_contract io view 4 16 N D" "65536 \<le> N" "testing view c0 idd out 0 st"
  shows "verdict (\<forall>k < 65536. counts D c0 k) (testing view c0 idd (out @ map cylinder_line [0..<1024]) 65536)
    (each (test_cylinder io) (map of_nat [0..<CYLINDERS_NUM]) st)"
proof -
  have "(\<forall>k < 65536. P k) \<longleftrightarrow> (\<forall>c < 1024. \<forall>h < 4. \<forall>s < 16. P (64 * c + 16 * h + s))" for P :: "nat \<Rightarrow> bool"
  proof (intro iffI allI impI)
    fix k assume all: "\<forall>c < 1024. \<forall>h < 4. \<forall>s < 16. P (64 * c + 16 * h + s)" and k: "k < (65536 :: nat)"
    have "k div 64 < 1024" using k by (intro less_mult_imp_div_less) simp
    moreover have "k mod 64 div 16 < 4" by (intro less_mult_imp_div_less) simp
    moreover have "k mod 64 mod 16 < 16" by simp
    ultimately have "P (64 * (k div 64) + 16 * (k mod 64 div 16) + k mod 64 mod 16)" using all by blast
    moreover have "64 * (k div 64) + 16 * (k mod 64 div 16) + k mod 64 mod 16 = k" by (simp only: add.assoc mult_div_mod_eq)
    ultimately show "P k" by (simp only:)
  qed auto
  moreover have "verdict (\<forall>h < 4. \<forall>s < 16. counts D c0 (64 * c + 16 * h + s))
      (testing view c0 idd (out @ map cylinder_line [0..<Suc c]) (64 * Suc c)) (test_cylinder io (of_nat c) st)"
    if "c < 1024" "testing view c0 idd (out @ map cylinder_line [0..<c]) (64 * c) st" for c st
    using cylinder_verdict [OF assms(1,2) that] by simp
  ultimately show ?thesis
    using each_verdict [where xs = "map of_nat [0..<CYLINDERS_NUM]" and f = "test_cylinder io" and st = st
        and I = "\<lambda>c. testing view c0 idd (out @ map cylinder_line [0..<c]) (64 * c)"
        and P = "\<lambda>c. \<forall>h < 4. \<forall>s < 16. counts D c0 (64 * c + 16 * h + s)"] assms(3)
    by (simp add: CYLINDERS_NUM_def del: upt_Suc)
qed

lemma each_lba_verdict:
  assumes "ata_contract io view H S N D" "geometry_ok idd H S N" "65536 \<le> id_num_sectors idd" "testing view c0 idd out 0 st"
  shows "verdict (\<forall>k < 65536. counts D c0 k)
    (testing view c0 idd (out @ map lba_line (filter (\<lambda>n. n mod 100 = 0) [0..<65536])) 65536)
    (each (test_lba io) (map of_nat [0..<65536]) st)"
proof -
  have "verdict (counts D c0 k) (testing view c0 idd (out @ map lba_line (filter (\<lambda>n. n mod 100 = 0) [0..<Suc k])) (Suc k))
      (test_lba io (of_nat k) st)"
    if k: "k < 65536" and st: "testing view c0 idd (out @ map lba_line (filter (\<lambda>n. n mod 100 = 0) [0..<k])) k st" for k st
  proof -
    let ?out = "out @ map lba_line (filter (\<lambda>n. n mod 100 = 0) [0..<Suc k])"
    let ?st = "if k mod 100 = 0 then st\<lparr>ht_out := ht_out st @ [lba_line k]\<rparr> else st"
    have m: "(of_nat k :: u32) mod 100 = 0 \<longleftrightarrow> k mod 100 = 0"
      using k by (simp add: unat_eq_zero [symmetric] unat_mod unat_of_nat_u32)
    have t: "testing view c0 idd ?out k ?st" using st by (auto simp: testing_def)
    have u: "unat (of_nat k :: u32) = k" using k by (simp add: unat_of_nat_u32)
    have lt: "of_nat k < id_num_sectors idd" using assms(3) k u by (simp add: word_less_nat_alt word_le_nat_alt)
    have kN: "k < N" using lt u assms(2) by (simp add: geometry_ok_def word_less_nat_alt)
    have "drive_ready (view (ht_dev ?st))" "length (ht_sector ?st) = ATA_SECTOR_SIZE" using t by (simp_all only: testing_def)
    from ata_read_sector_lba_in [OF assms(1) this(1) assms(2) this(2) lt] u
    have "\<exists>d'. ata_read_sector_lba io idd (of_nat k) (ht_sector ?st) (ht_dev ?st) = Some (0, D k, d') \<and> drive_ready (view d')"
      by (simp only: u)
    from read_and_check_verdict [where read = "ata_read_sector_lba io idd (of_nat k)" and D = D, OF t this contract_sector_length [OF assms(1) kN]]
    have "verdict (counts D c0 k) (testing view c0 idd ?out (Suc k)) (read_and_check (ata_read_sector_lba io idd (of_nat k)) ?st)" by simp
    moreover have "ht_id ?st = idd" using t by (simp only: testing_def)
    then have "test_lba io (of_nat k) st = read_and_check (ata_read_sector_lba io idd (of_nat k)) ?st"
      unfolding test_lba_def m test_say_def test_lines option.map by (cases "k mod 100 = 0") simp_all
    ultimately show ?thesis by simp
  qed
  then show ?thesis
    using each_verdict [where xs = "map of_nat [0..<65536]" and f = "test_lba io" and st = st and P = "counts D c0"
        and I = "\<lambda>k. testing view c0 idd (out @ map lba_line (filter (\<lambda>n. n mod 100 = 0) [0..<k])) k"] assms(4)
    by (simp del: upt_Suc)
qed

section \<open>The two tests\<close>

lemma ata_init_model_length:
  assumes "ata_init io buf idd d = Some (rc, idd', d')"
  shows "length (id_model_number idd') = length (id_model_number idd)"
proof -
  have i: "length (id_model_number j) = length (id_model_number i)" if "set_identify_data b i = Some j" for b i j
    using that by (auto simp: set_identify_data_def Let_def dest!: strncpy_length split: option.splits)
  obtain d1 rc' where "ata_identify io 0 buf idd d1 = Some (rc', idd', d')"
    using assms by (auto simp: ata_init_def split: option.splits prod.splits)
  then show ?thesis
    by (auto simp: ata_identify_def Let_def dest: i split: option.splits prod.splits if_splits)
qed

lemma test_init_model:
  assumes "test_init io stackbuf st = Some (rc, st')"
  shows "length (id_model_number (ht_id st')) = length (id_model_number (ht_id st))"
proof -
  obtain c d where "ata_init io stackbuf (ht_id st) (ht_dev st) = Some (c, ht_id st', d)"
    using assms by (auto simp: test_init_def Let_def split: option.splits if_splits)
  then show ?thesis by (rule ata_init_model_length)
qed

text \<open>What both tests need of the drive and of the state before.\<close>

definition test_bench :: "'d ports \<Rightarrow> ('d \<Rightarrow> ata_view) \<Rightarrow> nat \<Rightarrow> (nat \<Rightarrow> u8 list) \<Rightarrow> u8 list \<Rightarrow> u8 list \<Rightarrow> 'd hdd_test \<Rightarrow> bool" where
  "test_bench io view N D ident stackbuf st \<longleftrightarrow> ata_contract io view 4 16 N D \<and> identify_contract io view ident \<and> 65536 \<le> N \<and>
     length stackbuf = ATA_SECTOR_SIZE \<and> length (id_model_number (ht_id st)) = MODEL_NUMBER_STR_LEN + 1 \<and>
     length (ht_sector st) = ATA_SECTOR_SIZE"

lemma test_hdd_chs_runs:
  assumes "test_bench io view N D ident stackbuf st"
  shows "\<exists>rc st'. test_hdd_chs io stackbuf st = Some (rc, st') \<and> rc \<in> {0, 1} \<and>
    (rc = 0 \<longleftrightarrow> (\<forall>k < 65536. counts D (ht_counter st) k)) \<and>
    (rc = 0 \<longrightarrow> ht_counter st' = ht_counter st + 8388608 \<and> ht_out st' = ht_out st @ map cylinder_line [0..<1024] \<and>
       test_bench io view N D ident stackbuf st')"
proof -
  have b: "ata_contract io view 4 16 N D" "identify_contract io view ident" "65536 \<le> N" "length stackbuf = ATA_SECTOR_SIZE"
    "length (id_model_number (ht_id st)) = MODEL_NUMBER_STR_LEN + 1" "length (ht_sector st) = ATA_SECTOR_SIZE"
    using assms by (simp_all add: test_bench_def)
  from test_init_ready [OF b(1,2,4-6)] obtain idd st1 where
    st1: "test_init io stackbuf st = Some (0, st1)" "testing view (ht_counter st) idd (ht_out st) 0 st1" by blast
  from each_cylinder_verdict [OF b(1,3) st1(2)] obtain ok st2 where
    st2: "each (test_cylinder io) (map of_nat [0..<CYLINDERS_NUM]) st1 = Some (ok, st2)"
      "ok \<longleftrightarrow> (\<forall>k < 65536. counts D (ht_counter st) k)"
      "ok \<longrightarrow> testing view (ht_counter st) idd (ht_out st @ map cylinder_line [0..<1024]) 65536 st2"
    unfolding verdict_def by blast
  have "test_hdd_chs io stackbuf st = Some (if ok then 0 else 1, st2)" using st1(1) st2(1) by (simp add: test_hdd_chs_def)
  moreover have "length (id_model_number idd) = MODEL_NUMBER_STR_LEN + 1"
    using test_init_model [OF st1(1)] st1(2) b(5) by (simp add: testing_def)
  ultimately show ?thesis using st2(2,3) b
    by (intro exI [of _ "if ok then 0 else 1"] exI [of _ st2]) (simp add: testing_def test_bench_def del: upt_Suc)
qed

lemma test_hdd_lba_runs:
  assumes "test_bench io view 65536 D ident stackbuf st"
    and "le32 ident 114 = 65536" "le16 ident 6 = 4" "le16 ident 12 = 16"
  shows "\<exists>st'. test_hdd_lba io stackbuf st = Some (1, st') \<and>
    ((\<forall>k < 65536. counts D (ht_counter st) k) \<longrightarrow> ht_counter st' = ht_counter st + 8388608 \<and>
       ht_out st' = ht_out st @ map lba_line (filter (\<lambda>n. n mod 100 = 0) [0..<65536]))"
proof -
  have b: "ata_contract io view 4 16 65536 D" "identify_contract io view ident" "length stackbuf = ATA_SECTOR_SIZE"
    "length (id_model_number (ht_id st)) = MODEL_NUMBER_STR_LEN + 1" "length (ht_sector st) = ATA_SECTOR_SIZE"
    using assms(1) by (simp_all add: test_bench_def)
  from test_init_ready [OF b] assms(2-4) obtain idd st1 where
    st1: "test_init io stackbuf st = Some (0, st1)" "testing view (ht_counter st) idd (ht_out st) 0 st1"
      "id_num_sectors idd = 65536" "id_heads idd = 4" "id_spt idd = 16" by auto
  then have g: "geometry_ok idd 4 16 65536" "65536 \<le> id_num_sectors idd" by (simp_all add: geometry_ok_def)
  from each_lba_verdict [OF b(1) g st1(2)] obtain ok st2 where
    st2: "each (test_lba io) (map of_nat [0..<65536]) st1 = Some (ok, st2)"
      "ok \<longleftrightarrow> (\<forall>k < 65536. counts D (ht_counter st) k)"
      "ok \<longrightarrow> testing view (ht_counter st) idd (ht_out st @ map lba_line (filter (\<lambda>n. n mod 100 = 0) [0..<65536])) 65536 st2"
    unfolding verdict_def by blast
  have "test_hdd_lba io stackbuf st = Some (1, st2)" using st1(1) st2(1) by (simp add: test_hdd_lba_def del: upt_Suc)
  then show ?thesis using st2(2,3) by (intro exI [of _ st2]) (simp add: testing_def del: upt_Suc)
qed

section \<open>Properties\<close>

text \<open>C38. The verdict of the test. On a drive with 4 heads and 16 sectors per track that keeps the ATA contract
  and answers IDENTIFY, \<open>test_hdd_chs\<close> ends, and it returns 0 exactly when each of the 65536 sectors holds the
  words that continue the counter as it stands at the call; then it has printed one line for each cylinder and
  the counter has gone on by all the words. Otherwise it returns 1.\<close>

theorem test_hdd_chs_correct:
  assumes "test_bench io view N D ident stackbuf st"
  shows "\<exists>rc st'. test_hdd_chs io stackbuf st = Some (rc, st') \<and>
    rc \<in> {0, 1} \<and> (rc = 0 \<longleftrightarrow> (\<forall>k < 65536. \<forall>i < 128. le32 (D k) (4 * i) = ht_counter st + of_nat (128 * k + i))) \<and>
    (rc = 0 \<longrightarrow> ht_counter st' = ht_counter st + 8388608 \<and> ht_out st' = ht_out st @ map cylinder_line [0..<1024])"
  using test_hdd_chs_runs [OF assms] unfolding counts_def by blast

definition test_drive :: "(nat \<Rightarrow> u8 list) \<Rightarrow> ata_view ports" where
  "test_drive D = model_ata 4 16 65536 D ((replicate 512 0)[6 := 4, 12 := 16, 116 := 1])"

lemma test_drive_bench:
  assumes "\<And>n. length (D n) = ATA_SECTOR_SIZE"
  shows "test_bench (test_drive D) (\<lambda>v. v) 65536 D ((replicate 512 0)[6 := 4, 12 := 16, 116 := 1]) (replicate 512 0)
    \<lparr>ht_counter = c, ht_sector = replicate 512 0, ht_id = model_id, ht_dev = model_view, ht_out = []\<rparr>"
  using model_ata_contract [OF assms] model_ata_identify [of "(replicate 512 0)[6 := 4, 12 := 16, 116 := 1]"]
  by (simp add: test_bench_def test_drive_def ATA_SECTOR_SIZE_def model_id_def MODEL_NUMBER_STR_LEN_def)

text \<open>A disk of zeros fails.\<close>

theorem test_hdd_chs_correct_witness:
  "\<exists>st'. test_hdd_chs (test_drive (\<lambda>k. replicate ATA_SECTOR_SIZE 0)) (replicate 512 0)
     \<lparr>ht_counter = 0, ht_sector = replicate 512 0, ht_id = model_id, ht_dev = model_view, ht_out = []\<rparr> = Some (1, st')"
proof -
  have "le32 (replicate ATA_SECTOR_SIZE 0) (4 * 1) \<noteq> 0 + (of_nat (128 * 0 + 1) :: u32)"
    by (simp add: le32_def ATA_SECTOR_SIZE_def)
  then have "\<not> (\<forall>k < 65536. \<forall>i < 128. le32 (replicate ATA_SECTOR_SIZE 0) (4 * i) = 0 + (of_nat (128 * k + i) :: u32))"
    by (metis one_less_numeral_iff semiring_norm(76) zero_less_numeral)
  with test_hdd_chs_correct [OF test_drive_bench [of "\<lambda>k. replicate ATA_SECTOR_SIZE 0", OF length_replicate, of 0]] show ?thesis
    by (simp only: hdd_test.select_convs) blast
qed

text \<open>C39. The tool and the tests. A disk of 65536 sectors that holds the image written for 1024 cylinders, 4 heads and
  16 sectors passes \<open>test_hdd_chs\<close>. The counter is not set back, so a second run in the same kernel fails on the
  same disk. \<open>test_hdd_lba\<close> reads and checks all sectors and prints all its lines, but falls through to its label \<open>err\<close>
  and returns 1.\<close>

theorem inc_disk_passes_once:
  assumes "mk_inc_hdd can [prog, ''1024'', ''4'', ''16'', path] w = Some (0, w')" "host_files w' path = Some img"
    and "\<forall>k < 65536. D k = take 512 (drop (512 * k) img)"
    and "test_bench io view 65536 D ident stackbuf st" "ht_counter st = 0"
    and "le32 ident 114 = 65536" "le16 ident 6 = 4" "le16 ident 12 = 16"
  shows "(\<exists>st1 st2. test_hdd_chs io stackbuf st = Some (0, st1) \<and> test_hdd_chs io stackbuf st1 = Some (1, st2)) \<and>
    (\<exists>st1. test_hdd_lba io stackbuf st = Some (1, st1) \<and> ht_counter st1 = 8388608 \<and>
       ht_out st1 = ht_out st @ map lba_line (filter (\<lambda>n. n mod 100 = 0) [0..<65536]))"
proof -
  have n: "host_atoi ''1024'' = Some 1024" "host_atoi ''4'' = Some 4" "host_atoi ''16'' = Some 16" by code_simp+
  have "img = counting_image 0 65536"
    using assms(1,2) unfolding mk_inc_hdd_runs [OF n] by (auto split: if_splits)
  then have D: "counts D c k \<longleftrightarrow> c = 0" if "k < 65536" for c k
    using that assms(3) by (auto simp: counts_def counting_image_sector counting_sector_word intro: exI [of _ 0])
  then have D': "(\<forall>k < 65536. counts D c k) \<longleftrightarrow> c = 0" for c by (metis zero_less_numeral)
  from test_hdd_chs_runs [OF assms(4)] assms(5) obtain st1 where
    st1: "test_hdd_chs io stackbuf st = Some (0, st1)" "ht_counter st1 = 8388608" "test_bench io view 65536 D ident stackbuf st1"
    unfolding D' by auto
  from test_hdd_chs_runs [OF st1(3)] st1(2) obtain st2 where "test_hdd_chs io stackbuf st1 = Some (1, st2)"
    unfolding D' by auto
  with st1(1) test_hdd_lba_runs [OF assms(4,6-8)] assms(5) show ?thesis unfolding D' by (simp del: upt_Suc)
qed

text \<open>The drive with the image in its sectors.\<close>

theorem inc_disk_passes_once_witness:
  "\<exists>D st1 st2. (\<forall>k < 65536. D k = counting_sector (of_nat (128 * k))) \<and>
     test_hdd_chs (test_drive D) (replicate 512 0)
       \<lparr>ht_counter = 0, ht_sector = replicate 512 0, ht_id = model_id, ht_dev = model_view, ht_out = []\<rparr> = Some (0, st1) \<and>
     test_hdd_chs (test_drive D) (replicate 512 0) st1 = Some (1, st2)"
proof -
  let ?w = "\<lparr>host_files = Map.empty, host_out = [], host_err = []\<rparr>"
  let ?D = "\<lambda>k. counting_sector (of_nat (128 * k))"
  let ?ident = "(replicate 512 0)[6 := 4, 12 := 16, 116 := 1] :: u8 list"
  have n: "host_atoi ''1024'' = Some 1024" "host_atoi ''4'' = Some 4" "host_atoi ''16'' = Some 16" by code_simp+
  obtain w' where w: "mk_inc_hdd (\<lambda>_. True) [''mk'', ''1024'', ''4'', ''16'', ''img''] ?w = Some (0, w')"
    "host_files w' ''img'' = Some (counting_image 0 65536)"
    unfolding mk_inc_hdd_runs [OF n] by auto
  have D: "\<forall>k < 65536. ?D k = take 512 (drop (512 * k) (counting_image 0 65536))" by (simp add: counting_image_sector)
  have "length (?D k) = ATA_SECTOR_SIZE" for k by (simp add: counting_sector_length ATA_SECTOR_SIZE_def)
  note b = test_drive_bench [of ?D, OF this, of 0]
  have i: "le32 ?ident 114 = 65536" "le16 ?ident 6 = 4" "le16 ?ident 12 = 16"
    by (simp_all add: le32_def le16_def push_bit_eq_mult)
  from inc_disk_passes_once [OF w D b _ i] show ?thesis by (intro exI [of _ ?D]) auto
qed

end
