(* ===== verification/Host_Shell.thy ===== *)
theory Host_Shell
  imports Shell_Props
begin

text \<open>
  The build of the shell for the host, \<open>sh/test\<close>: its \<open>main\<close> calls \<open>shell_do\<close>, the console is replaced by \<open>fgets\<close> on
  the standard input, and \<open>kprintf\<close> by \<open>vprintf\<close>. The standard input is the list of the characters that are left,
  the output the list of the texts printed; \<open>vprintf\<close> formats as \<open>kvsprintf\<close> does, which holds for the formats that the
  shell uses.
\<close>

section \<open>The console on the host\<close>

text \<open>What \<open>fgets\<close> finds next: the characters up to and with the line feed.\<close>

definition input_line :: "char list \<Rightarrow> char list" where
  "input_line inp = (let l = takeWhile (\<lambda>c. c \<noteq> LF) inp in if length l < length inp then l @ [LF] else l)"

text \<open>\<open>fgets\<close> keeps the buffer at the end of the input; a buffer that is too short is \<open>None\<close>.\<close>

definition host_fgets :: "char list \<Rightarrow> nat \<Rightarrow> char list \<Rightarrow> (char list \<times> char list) option" where
  "host_fgets buf n inp =
     (let l = take (n - 1) (input_line inp)
      in if n = 0 then None
         else if inp = [] then Some (buf, inp)
         else if length l < length buf then Some (l @ NUL # drop (Suc (length l)) buf, drop (length l) inp)
         else None)"

definition remove_new_line :: "char list \<Rightarrow> char list option" where
  "remove_new_line s =
     map_option (\<lambda>len. if 1 \<le> len \<and> s ! (len - 1) = LF then s[len - 1 := NUL] else s) (strlen (Some s))"

definition host_console_get_line :: "char list \<Rightarrow> nat \<Rightarrow> char list \<Rightarrow> (int \<times> char list \<times> nat \<times> char list) option" where
  "host_console_get_line buf buf_len inp =
     (case host_fgets buf buf_len inp of
        None \<Rightarrow> None
      | Some (buf, inp) \<Rightarrow>
          (case remove_new_line buf of
             None \<Rightarrow> None
           | Some buf \<Rightarrow> map_option (\<lambda>len. (0, buf, len, inp)) (strlen (Some buf))))"

section \<open>The loop of the shell\<close>

record 'd host_shell =
  hs_in :: "char list"
  hs_out :: "char list list"
  hs_sh :: "'d shell"
  hs_buf :: "char list"

definition host_kprintf :: "char list \<Rightarrow> karg list \<Rightarrow> 'd host_shell \<Rightarrow> 'd host_shell option" where
  "host_kprintf fmt args st = map_option (\<lambda>t. st\<lparr>hs_out := hs_out st @ [t]\<rparr>) (kvsprintf fmt args)"

definition host_turn :: "'d ports \<Rightarrow> char list \<Rightarrow> (nat \<Rightarrow> token) \<Rightarrow> 'd host_shell \<Rightarrow> 'd host_shell option" where
  "host_turn io junk pj st =
     (case host_kprintf (''%s'' @ [NUL]) [Arg_str (Some prompt)] (st\<lparr>hs_buf := (hs_buf st)[0 := NUL]\<rparr>) of
        None \<Rightarrow> None
      | Some st \<Rightarrow>
          (case host_console_get_line (hs_buf st) (SHELL_BUF_SIZE - 1) (hs_in st) of
             None \<Rightarrow> None
           | Some (rc, buf, len, inp) \<Rightarrow>
               (let st = st\<lparr>hs_buf := buf, hs_in := inp\<rparr>
                in if rc \<noteq> 0 then Some st
                   else (let st = st\<lparr>hs_buf := buf[len := NUL]\<rparr>
                         in map_option (\<lambda>(out, s). st\<lparr>hs_out := hs_out st @ out, hs_sh := s\<rparr>)
                              (shell_line io junk pj (hs_buf st) (hs_sh st))))))"

text \<open>\<open>main\<close>: \<open>n\<close> turns of \<open>shell_do\<close>.\<close>

fun host_turns :: "nat \<Rightarrow> 'd ports \<Rightarrow> char list \<Rightarrow> (nat \<Rightarrow> token) \<Rightarrow> 'd host_shell \<Rightarrow> 'd host_shell option" where
  "host_turns 0 io junk pj st = Some st"
| "host_turns (Suc n) io junk pj st = Option.bind (host_turn io junk pj st) (host_turns n io junk pj)"

definition host_main :: "nat \<Rightarrow> 'd ports \<Rightarrow> char list \<Rightarrow> (nat \<Rightarrow> token) \<Rightarrow> 'd host_shell \<Rightarrow> 'd host_shell option" where
  "host_main n io junk pj st =
     Option.bind (host_kprintf (''welcome to the boot shell'' @ [LF, NUL]) [] st) (host_turns n io junk pj)"

section \<open>Reading a line\<close>

lemma input_line_fed:
  assumes "LF \<notin> set l"
  shows "input_line (l @ LF # left) = l @ [LF]"
proof -
  have "takeWhile (\<lambda>c. c \<noteq> LF) (l @ LF # left) = l" using assms by (subst takeWhile_append2) auto
  then show ?thesis by (simp only: input_line_def Let_def) simp
qed

lemma remove_new_line_fed: "NUL \<notin> set l \<Longrightarrow> remove_new_line (l @ LF # NUL # r) = Some (l @ NUL # NUL # r)"
proof -
  assume l: "NUL \<notin> set l"
  have "c_string (l @ LF # NUL # r) (l @ [LF])" using l by (simp add: c_string_def LF_def)
  from strlen_c_string [OF this] show ?thesis by (simp add: remove_new_line_def nth_append)
qed

lemma host_get_fed:
  assumes "NUL \<notin> set l" "LF \<notin> set l" "length l + 1 < n" "length l + 1 < length buf"
  shows "host_console_get_line buf n (l @ LF # left) = Some (0, l @ NUL # NUL # drop (length l + 2) buf, length l, left)"
proof -
  have "take (n - 1) (l @ [LF]) = l @ [LF]" using assms(3) by simp
  then have "host_fgets buf n (l @ LF # left) = Some (l @ LF # NUL # drop (length l + 2) buf, left)"
    using assms(3,4) by (simp add: host_fgets_def input_line_fed [OF assms(2)])
  moreover have "c_string (l @ NUL # NUL # drop (length l + 2) buf) l" using assms(1) by (simp add: c_string_def)
  from strlen_c_string [OF this] have "strlen (Some (l @ NUL # NUL # drop (length l + 2) buf)) = Some (length l)" .
  ultimately show ?thesis by (simp add: host_console_get_line_def remove_new_line_fed [OF assms(1)] del: strlen.simps)
qed

lemma prompt_text: "host_kprintf (''%s'' @ [NUL]) [Arg_str (Some prompt)] st = Some (st\<lparr>hs_out := hs_out st @ [''shell-> '']\<rparr>)"
proof -
  have k: "c_string prompt ''shell-> ''" by (simp add: prompt_def c_string_def)
  then show ?thesis by (simp add: host_kprintf_def run_format)
qed

lemma host_turn_fed:
  assumes "hs_in st = l @ LF # left" "NUL \<notin> set l" "LF \<notin> set l" "length l < 510" "length (hs_buf st) = SHELL_BUF_SIZE"
  obtains buf where "length buf = SHELL_BUF_SIZE" "buf = l @ NUL # NUL # drop (length l + 2) (hs_buf st)"
    "host_turn io junk pj st = map_option
       (\<lambda>(out, s). st\<lparr>hs_in := left, hs_out := hs_out st @ [''shell-> ''] @ out, hs_sh := s, hs_buf := buf\<rparr>)
       (shell_line io junk pj buf (hs_sh st))"
proof -
  let ?b = "(hs_buf st)[0 := NUL]"
  let ?buf = "l @ NUL # NUL # drop (length l + 2) (hs_buf st)"
  have n: "length l + 1 < SHELL_BUF_SIZE - 1" "length l + 1 < length ?b" using assms(4,5) by (simp_all add: SHELL_BUF_SIZE_def)
  have "host_console_get_line ?b (SHELL_BUF_SIZE - 1) (hs_in st) = Some (0, ?buf, length l, left)"
    using host_get_fed [OF assms(2,3) n] by (simp add: assms(1))
  then have "host_turn io junk pj st = map_option
       (\<lambda>(out, s). st\<lparr>hs_in := left, hs_out := hs_out st @ [''shell-> ''] @ out, hs_sh := s, hs_buf := ?buf\<rparr>)
       (shell_line io junk pj ?buf (hs_sh st))"
    unfolding host_turn_def prompt_text by (simp add: Let_def) (rule map_option_cong; simp add: case_prod_beta)
  with assms(4,5) show thesis by (intro that [of ?buf]) (simp_all add: SHELL_BUF_SIZE_def)
qed

section \<open>Answers\<close>

text \<open>A line of written words on the standard input is answered as the loader answers it, and taken from the input
  with its line feed.\<close>

theorem host_turn_answers:
  assumes "list_all (\<lambda>(k, w). word_ok w) ws" "separated ws" "\<forall>i. token_ok (pj i)"
    and "length (ps_vec (sh_parser (hs_sh st))) = SYNTAX_VEC_LEN" "length (hs_buf st) = SHELL_BUF_SIZE"
    and "hs_in st = (written ws @ replicate e (CHR '' '')) @ LF # left" "length (written ws) + e < 510"
    and "NUL \<notin> set (written ws)" "LF \<notin> set (written ws)"
  shows "\<exists>ps buf. parsed ws ps \<and> length buf = SHELL_BUF_SIZE \<and>
    host_turn io junk pj st = map_option
      (\<lambda>(out, s). st\<lparr>hs_in := left, hs_out := hs_out st @ [''shell-> ''] @ out, hs_sh := s, hs_buf := buf\<rparr>)
      (answer io junk (map snd ws) (ps_vec ps) ((hs_sh st)\<lparr>sh_parser := ps\<rparr>))"
proof -
  let ?l = "written ws @ replicate e (CHR '' '')"
  have l: "NUL \<notin> set ?l" "LF \<notin> set ?l" "length ?l < 510" using assms(7-9) by (simp_all add: LF_def)
  obtain buf where buf: "length buf = SHELL_BUF_SIZE" "buf = ?l @ NUL # NUL # drop (length ?l + 2) (hs_buf st)"
    "host_turn io junk pj st = map_option
       (\<lambda>(out, s). st\<lparr>hs_in := left, hs_out := hs_out st @ [''shell-> ''] @ out, hs_sh := s, hs_buf := buf\<rparr>)
       (shell_line io junk pj buf (hs_sh st))"
    by (rule host_turn_fed [OF assms(6) l assms(5)])
  have "buf = written_line ws e (NUL # drop (length ?l + 2) (hs_buf st))" using buf(2) by (simp add: written_line_def)
  with shell_line_answers [OF assms(1-4), of e "NUL # drop (length ?l + 2) (hs_buf st)" io junk] obtain ps where
    "parsed ws ps" "shell_line io junk pj buf (hs_sh st) = answer io junk (map snd ws) (ps_vec ps) ((hs_sh st)\<lparr>sh_parser := ps\<rparr>)"
    by auto
  with buf(1,3) show ?thesis by (intro exI [of _ ps] exI [of _ buf]) simp
qed

text \<open>The result of \<open>fgets\<close> is not looked at: at the end of the input every turn finds the empty line that the shell has
  put into its buffer, so the program prompts for ever and never ends.\<close>

theorem host_shell_prompts_at_end_of_input:
  assumes "hs_in st = []" "length (hs_buf st) = SHELL_BUF_SIZE" "\<forall>i. token_ok (pj i)"
    and "length (ps_vec (sh_parser (hs_sh st))) = SYNTAX_VEC_LEN"
  shows "\<exists>st'. host_turns n io junk pj st = Some st' \<and> hs_in st' = [] \<and> hs_out st' = hs_out st @ replicate n ''shell-> ''"
  using assms
proof (induction n arbitrary: st)
  case (Suc n)
  let ?b = "(hs_buf st)[0 := NUL]"
  obtain x xs where b: "hs_buf st = x # xs" using Suc.prems(2) by (cases "hs_buf st") (simp_all add: SHELL_BUF_SIZE_def)
  have line: "written_line [] 0 xs = NUL # xs" by (simp add: written_line_def)
  have "separated []" by (simp add: separated_def)
  with shell_line_answers [of "[]" pj "hs_sh st" 0 xs io junk] Suc.prems(3,4) obtain ok ps where ps:
    "parser_do pj (Some (NUL # xs)) (sh_parser (hs_sh st)) = Some (ok, ps)"
    "shell_line io junk pj (NUL # xs) (hs_sh st) = Some ([], (hs_sh st)\<lparr>sh_parser := ps\<rparr>)"
    by (auto simp: line answer_def)
  have "host_console_get_line (NUL # xs) (SHELL_BUF_SIZE - 1) [] = Some (0, NUL # xs, 0, [])"
    by (simp add: host_console_get_line_def host_fgets_def remove_new_line_def SHELL_BUF_SIZE_def)
  then have turn: "host_turn io junk pj st =
      Some (st\<lparr>hs_buf := NUL # xs, hs_out := hs_out st @ [''shell-> ''], hs_in := [], hs_sh := (hs_sh st)\<lparr>sh_parser := ps\<rparr>\<rparr>)"
    using ps(2) Suc.prems(1) unfolding host_turn_def prompt_text by (simp add: b Let_def)
  have "length (ps_vec ps) = SYNTAX_VEC_LEN" using parser_do_keeps_length [OF ps(1)] Suc.prems(4) by simp
  then show ?case
    using Suc.IH [of "st\<lparr>hs_buf := NUL # xs, hs_out := hs_out st @ [''shell-> ''], hs_in := [], hs_sh := (hs_sh st)\<lparr>sh_parser := ps\<rparr>\<rparr>"]
      Suc.prems(2,3) turn by (simp add: b)
qed simp

end
