(* ===== verification/Spec2Isabelle.thy ===== *)
theory Spec2Isabelle
  imports Strings Paging Elf32_Load Ata_Identify Fat16_Props Parser Var_Table Console Pit Shell_Types Clear_Key
    Timer_Steps Irq_Delivery Frame Gdt Boot_Rescue Hdd_Test Host_Shell
begin

text \<open>
  kboot86, a boot loader for 32-bit x86. It starts the interrupt controllers, the interval timer and the
  console, switches paging on, reads \<open>kernel.elf\<close> from the FAT16 file system of the first partition of an
  ATA disk to \<open>0x200000\<close>, maps its segments, and jumps to its entry point; after an error it prints a
  message and enters a small shell. The directory \<open>kernel\<close> of the sources holds an older kernel that grew
  into the loader: an echo shell on its own console, with a segment table and a frame allocator.

  \<^bold>\<open>Conventions.\<close> A machine integer is a word of its width, so arithmetic wraps as on the target. Static
  variables of a component are a record that its operations take and return. A buffer is the list of its
  bytes or characters, from the pointer to the end of its object. A return code is an \<open>int\<close>, a pointer that
  may be \<open>NULL\<close> an \<open>option\<close>. The outer \<open>None\<close> of an operation means that the call does not come back: an
  access outside an object, an exception of the processor, or a loop that never ends. Loops are structural
  recursions, recursions with a measure, \<open>while_option\<close> where the hardware decides how long they run, or
  \<open>partial_function\<close> where the data may be cyclic; there is no fuel but the number of turns of the two
  endless shells, and every property that promises a result proves that it is there. What the sources do not
  contain is an argument: the port instructions act on a device of type \<open>'d\<close> through the record \<open>ports\<close>, the
  contents of uninitialised memory are arguments named \<open>junk\<close> or \<open>stack\<close>, and addresses fixed by the linker
  are fields of a platform record. The documented behaviour of a chip is a named predicate (\<open>pic_contract\<close>,
  \<open>pit_contract\<close>, \<open>keyboard_contract\<close>, \<open>board_contract\<close>, the contract of the drive in \<open>Ata\<close>), and each is
  shown to hold of a concrete model of the chip.

  \<^bold>\<open>Base.\<close> \<open>Kboot_Prelude\<close> holds the words and the lemmas that all components share, \<open>Port_Io\<close> the ports and
  the interrupt flag (\<open>include/io.h\<close>, \<open>lib/eflags.c\<close>), \<open>Strings\<close> the routines of \<open>lib/string.c\<close>, \<open>Kstdio\<close> the
  formatter of \<open>lib/kstdio.c\<close> with its number conversion, which is proved equal to a reference layout.

  \<^bold>\<open>Memory.\<close> \<open>Page_Dir\<close> and \<open>Page_Tables\<close> (\<open>mm/page_dir.c\<close>, \<open>mm/page_tables.c\<close>) are the two levels of the
  page structures, \<open>Paging\<close> (\<open>mm/paging.c\<close>) maps and unmaps pages and translates in software, beside the
  walk of the processor and the bytes seen through it. The translation is characterised after every
  operation, on every branch. \<open>Mem_Interface\<close> states what a client of memory relies on; the ELF loader
  (\<open>Elf32\<close>, \<open>Elf32_Load\<close>, for \<open>lib/elf32.c\<close>) is verified against it, and \<open>Paging\<close> and \<open>Boot_Memory\<close> provide it.

  \<^bold>\<open>Disk.\<close> \<open>Ata\<close> and \<open>Ata_Identify\<close> (\<open>drivers/ata.c\<close>) read sectors of a drive that keeps the protocol, \<open>Mbr\<close>
  and \<open>Hdd\<close> (\<open>drivers/mbr.c\<close>, \<open>drivers/hdd.c\<close>) make a partition a window of the disk. \<open>Sector_Interface\<close> is
  what the file system relies on: \<open>Fat16\<close> has the operations of \<open>drivers/fat16.c\<close>, \<open>Fat16_Spec\<close> and
  \<open>Fat16_Props\<close> the directory as a list of entries, the cluster chain, and the file as a list of bytes.

  \<^bold>\<open>Console and devices.\<close> \<open>Vga\<close> and \<open>Console\<close> (\<open>drivers/vga.c\<close>, \<open>drivers/console.c\<close>) implement a terminal,
  that is a function from cells to characters with a position, and a line editor. \<open>Pic\<close>, \<open>Idt\<close>, \<open>Pit\<close> and
  \<open>Keyboard\<close> are the drivers of the same names with \<open>lib/idt.c\<close> and \<open>lib/intr.c\<close>. Reading a line sleeps
  until interrupts have completed it, so the operations that wait take the scan codes that arrive, in
  portions: one portion for each stretch in which interrupts can be taken. \<open>Timer\<close> (\<open>lib/timer.c\<close>,
  \<open>lib/timer_list.c\<close>) is a doubly linked list on a heap of timers, refined to a set of running timers;
  \<open>Timer_Steps\<close> splits its operations where an interrupt can fall and proves the invariant of all
  interleavings. \<open>Irq_Interface\<close> states which interrupt the controllers pass on and what a handler owes to
  them; \<open>Irq_Delivery\<close> follows an interrupt from its line through the gate to the end of the handler, in
  all reachable states of the loader, and over the hand-over to the older kernel.

  \<^bold>\<open>Shell.\<close> \<open>Token\<close>, \<open>Lexer\<close>, \<open>Parser\<close> and \<open>Var_Table\<close> are the files of \<open>sh\<close> with these names; \<open>Lexer_Spec\<close>
  has the written words of the language and what the lexer makes of them, and the variable table implements a
  map with room for eight keys. \<open>Displays\<close> has what the commands print about disk, partitions, file system
  and images. \<open>Shell\<close> (\<open>sh/shell.c\<close>, \<open>sh/commands.h\<close>) is the command table and a turn of the loop;
  \<open>Shell_Props\<close> proves its answers to written lines, \<open>Shell_Types\<close> the types of its data for all lines, and
  \<open>Shell_Session\<close> follows the loop from the keys that are pressed to the table of variables, \<open>Clear_Key\<close>
  through a line that the clear key interrupts.

  \<^bold>\<open>Start.\<close> \<open>Boot\<close> (\<open>main.c\<close>, \<open>lib/faults.c\<close>) composes the components as \<open>main\<close> does: a list of steps, each
  with its jump to the label \<open>error\<close>. \<open>Boot_Memory\<close>, \<open>Boot_Disk\<close> and \<open>Boot_Steps\<close> follow memory, disk and screen
  through them, \<open>Boot_Props\<close> has the way to the jump, \<open>Boot_Errors\<close> the error exits behind the mounted volume (no kernel
  file, a kernel file that is refused before a segment is mapped) with the blue screen, and the screen of an exception,
  \<open>Boot_Rescue\<close> the shell behind the label \<open>error\<close>: its greeting and prompt, and the \<open>hlt\<close> it never leaves.

  \<^bold>\<open>The older kernel.\<close> \<open>Old_Console\<close> (\<open>kernel/drivers/console.c\<close>, \<open>kernel/drivers/keyboard.c\<close>) and
  \<open>Old_Kernel\<close> (\<open>kernel/kmain.c\<close>, \<open>kernel/shell.c\<close>, and the functions of \<open>kernel/lib\<close> that differ from those of
  the loader) have its start and its echo shell, \<open>Frame\<close> (\<open>kernel/lib/frame.c\<close>) its frame allocator, refined to
  a set of used frames, \<open>Gdt\<close> (\<open>kernel/lib/gdt.c\<close>) its segment descriptors as the processor reads them.
  Functions that are textually the same as in the loader are the definitions of the loader.

  \<^bold>\<open>Tests and tools.\<close> \<open>Inc_Hdd\<close> (\<open>utils/mk.inc_hdd.c\<close>) is the host program that writes the image of counting
  words, \<open>Hdd_Test\<close> (\<open>test/hdd.c\<close>) the test of the ATA driver that reads it back; the two are composed.
  \<open>Host_Shell\<close> (\<open>sh/test\<close>) is the shell on the standard input and output of the host.

  \<^bold>\<open>Interfaces.\<close> The locales are \<open>paged_memory\<close>, \<open>sector_reader\<close>, \<open>digit_converter\<close> (the three numeral
  conversions of the tokens), \<open>bounded_store\<close> (the variable table), \<open>pool_allocator\<close> (the frame allocator) and
  \<open>irq_handler\<close> (the handlers of timer and keyboards); each is interpreted on the definitions of the code.

  \<^bold>\<open>Bounds.\<close> Disk contents, files, images, lines, arguments of the formatter and sequences of events are
  arbitrary. The hypotheses name the rest: the sizes of static buffers, at most eight variables, and images whose
  segments fit the managed memory. A drive has at most 16 heads and 255 sectors per track. The code refuses sectors
  beyond the first 1024 cylinders; the reads of single sectors and the partition table are proved for any capacity
  (\<open>drive_geometry\<close>), files and the start for a drive that has no such sectors (\<open>geometry_ok\<close>). Loading a file is
  proved for volumes whose root directory occupies eight clusters, since \<open>fat16_load\<close> adds the constant 8 where it
  means their number. That a partition is not left is proved for partitions that end at 2 to the 32 or before, since
  the sum of start and sector number may wrap. Timers are started while they are not in the list, since starting a
  running timer destroys it, which is proved too.

  \<^bold>\<open>Not modelled.\<close> Single instructions of the processor (\<open>hlt\<close>, \<open>jmp\<close>, \<open>sti\<close>, loading of CR0 and CR3, the
  software interrupt \<open>intr\<close>), for which the model has their effect on its state; the general registers, so
  that the missing \<open>pushal\<close> in the keyboard wrapper of the older kernel does not show; the start-up assembly; the code disabled with \<open>#if 0\<close> (the timer demonstration in \<open>main.c\<close>, the printing in
  \<open>gdt.c\<close>, the old \<open>main\<close> in \<open>sh/test\<close>); \<open>idt_display\<close>, which has no effect; timing, beyond the order of events; the
  textual copies in \<open>kernel\<close> of files of the loader; and the C library of the host, of which \<open>atoi\<close>, \<open>fopen\<close>, \<open>fwrite\<close>,
  \<open>fgets\<close> and \<open>vprintf\<close> are taken at their documented behaviour.
\<close>

end
